(* ===== verification/Prelude.thy ===== *)
theory Prelude
  imports Main "HOL-Library.Word"
begin

unbundle bit_operations_syntax

section \<open>Prelude: machine words, rings, bytes and the queue interface\<close>

text \<open>
  What every component of the development shares:
  \<^item> the names of the C integer types (\<open>u8\<close>, \<open>u16\<close>, \<open>u32\<close>, \<open>u64\<close>) and of
    pointers (\<open>'a ptr\<close>, with \<open>None\<close> for NULL);
  \<^item> \<open>nextpow2\<close>, the power-of-two rounding that circqueue.c, arraylockfreequeue.c,
    messagequeue.c, contextqueue.c, tcp.c, gen_tcp.c and main.c all repeat word for word,
    with the proof that it is the least power of two that is not below its argument;
  \<^item> reading a ring of a power-of-two size through a mask (\<open>ring_mask\<close>), and the window of
    a ring as a list (\<open>window\<close>), which every queue of the program abstracts to;
  \<^item> little-endian byte strings (\<open>le_bytes\<close>, \<open>le_val\<close>), the memory image the program
    reads and writes with memcpy on integers;
  \<^item> the interface \<open>fifo\<close> that a queue offers to its clients, as a locale.
\<close>

named_theorems ring_simps \<open>index arithmetic of the rings\<close>

type_synonym u8 = "8 word"
type_synonym u16 = "16 word"
type_synonym u32 = "32 word"
type_synonym u64 = "64 word"
type_synonym byte = "8 word"

text \<open>A C pointer to a value: \<open>None\<close> is NULL.\<close>
type_synonym 'a ptr = "'a option"

subsection \<open>Rounding up to a power of two\<close>

text \<open>
  \<open>nextpow2\<close> of circqueue.c (and its copies): decrement, smear the highest set bit to the
  right with five or-shifts, increment. All of it on uint32_t.
\<close>

definition smear :: "nat \<Rightarrow> u32 \<Rightarrow> u32" where
  "smear s x = (x OR drop_bit s x)"

definition nextpow2 :: "u32 \<Rightarrow> u32" where
  "nextpow2 num = smear 16 (smear 8 (smear 4 (smear 2 (smear 1 (num - 1))))) + 1"

lemma smear_chain_bit:
  "bit (smear 16 (smear 8 (smear 4 (smear 2 (smear 1 x))))) n \<longleftrightarrow> (\<exists>i < 32. bit x (n + i))"
proof -
  have s: "bit (smear k y) n \<longleftrightarrow> bit y n \<or> bit y (n + k)" for k n and y :: u32
    by (simp add: smear_def bit_simps add.commute)
  define p where "p = (\<lambda>k n. \<exists>i < k. bit x (n + i))"
  have dbl: "p (k + k) n \<longleftrightarrow> p k n \<or> p k (n + k)" for k n
  proof
    assume "p (k + k) n"
    then obtain i where i: "i < k + k" "bit x (n + i)" by (auto simp: p_def)
    show "p k n \<or> p k (n + k)"
    proof (cases "i < k")
      case True
      with i show ?thesis by (auto simp: p_def)
    next
      case False
      then have "i - k < k" "n + k + (i - k) = n + i" using i by auto
      with i show ?thesis unfolding p_def by metis
    qed
  next
    assume "p k n \<or> p k (n + k)"
    then show "p (k + k) n"
      unfolding p_def by (metis add.assoc nat_add_left_cancel_less trans_less_add1)
  qed
  have step: "\<forall>n. bit (smear k y) n \<longleftrightarrow> p (k + k) n" if "\<forall>n. bit y n \<longleftrightarrow> p k n" for k and y :: u32
    using that by (simp add: s dbl)
  have "\<forall>n. bit x n \<longleftrightarrow> p 1 n" by (simp add: p_def)
  from step [OF this] have "\<forall>n. bit (smear 1 x) n \<longleftrightarrow> p 2 n" by (simp add: numeral_2_eq_2)
  from step [OF this] have "\<forall>n. bit (smear 2 (smear 1 x)) n \<longleftrightarrow> p 4 n" by simp
  from step [OF this] have "\<forall>n. bit (smear 4 (smear 2 (smear 1 x))) n \<longleftrightarrow> p 8 n" by simp
  from step [OF this] have "\<forall>n. bit (smear 8 (smear 4 (smear 2 (smear 1 x)))) n \<longleftrightarrow> p 16 n" by simp
  from step [OF this] have "bit (smear 16 (smear 8 (smear 4 (smear 2 (smear 1 x))))) n \<longleftrightarrow> p 32 n" by simp
  then show ?thesis by (simp add: p_def)
qed

lemma smear_chain_mask:
  assumes "x \<noteq> (0::u32)"
  shows "\<exists>j < 32. bit x j \<and> (\<forall>i > j. \<not> bit x i) \<and>
    smear 16 (smear 8 (smear 4 (smear 2 (smear 1 x)))) = mask (Suc j)"
proof -
  define B where "B = {i. bit x i}"
  have fin: "finite B" and lt: "\<forall>i \<in> B. i < 32"
    using finite_bit_word [of x] bit_imp_le_length [of x] by (auto simp: B_def)
  have ne: "B \<noteq> {}"
    using assms by (auto simp: B_def bit_eq_iff)
  define j where "j = Max B"
  have j: "bit x j" using Max_in [OF fin ne] by (simp add: j_def B_def)
  have top: "\<not> bit x i" if "i > j" for i
  proof
    assume "bit x i"
    then have "i \<le> j" using Max_ge [OF fin, of i] by (simp add: j_def B_def)
    with that show False by simp
  qed
  have j32: "j < 32" using lt j by (simp add: B_def)
  have "smear 16 (smear 8 (smear 4 (smear 2 (smear 1 x)))) = mask (Suc j)"
  proof (rule bit_word_eqI)
    fix n assume n: "n < LENGTH(32)"
    have "(\<exists>i < 32. bit x (n + i)) \<longleftrightarrow> n < Suc j"
    proof
      assume "\<exists>i < 32. bit x (n + i)"
      then obtain i where "bit x (n + i)" by blast
      with top [of "n + i"] show "n < Suc j" by (meson leI less_Suc_eq_le trans_less_add1 not_le)
    next
      assume "n < Suc j"
      then have "j - n < 32" "n + (j - n) = j" using j32 by auto
      with j show "\<exists>i < 32. bit x (n + i)" by metis
    qed
    then show "bit (smear 16 (smear 8 (smear 4 (smear 2 (smear 1 x))))) n = bit (mask (Suc j) :: u32) n"
      using n by (simp only: smear_chain_bit) (simp add: bit_simps)
  qed
  with j32 j top show ?thesis by blast
qed

lemma unat_mask_plus1: "k < 32 \<Longrightarrow> unat (mask k + 1 :: u32) = 2 ^ k"
proof -
  assume "k < 32"
  then have "(2::nat) ^ k < 2 ^ 32" by (intro power_strict_increasing) auto
  moreover have "mask k + 1 = (of_nat (2 ^ k) :: u32)"
    by (simp add: mask_eq_exp_minus_1)
  ultimately show ?thesis by (simp only: unat_of_nat) simp
qed

lemma bit_top_bounds:
  fixes x :: u32
  assumes "bit x j" "\<forall>i > j. \<not> bit x i" "j < 32"
  shows "2 ^ j \<le> unat x" and "unat x < 2 ^ Suc j"
proof -
  have tb: "take_bit (Suc j) x = x"
    using assms(2) by (intro bit_word_eqI) (auto simp: bit_simps less_Suc_eq_le not_less)
  have un: "unat x = take_bit (Suc j) (unat x)"
    by (metis tb unsigned_take_bit_eq)
  then show "unat x < 2 ^ Suc j"
    by (metis take_bit_nat_less_exp)
  show "2 ^ j \<le> unat x"
  proof (rule ccontr)
    assume "\<not> 2 ^ j \<le> unat x"
    then have "unat x < 2 ^ j" by simp
    then have "take_bit j (unat x) = unat x" by (rule take_bit_nat_eq_self)
    then have "\<not> bit (unat x) j" by (metis bit_take_bit_iff less_irrefl)
    with assms(1) show False by (simp add: bit_unsigned_iff)
  qed
qed

lemma nextpow2_cases:
  obtains (wrap) "num = 0" "nextpow2 num = 0"
  | (wrap_top) "2 ^ 31 < unat num" "nextpow2 num = 0"
  | (pow) k where "k < 32" "unat (nextpow2 num) = 2 ^ k" "unat num \<le> 2 ^ k"
      "\<And>l. unat num \<le> 2 ^ l \<Longrightarrow> k \<le> l"
proof (cases "num = 0")
  case True
  then have "nextpow2 num = 0" by (simp add: nextpow2_def smear_def)
  with True wrap show ?thesis by blast
next
  case num: False
  then have un: "unat (num - 1) = unat num - 1" by (simp add: unat_minus_one)
  have pos: "0 < unat num" using num by (simp add: unat_gt_0)
  show ?thesis
  proof (cases "num = 1")
    case True
    then have "nextpow2 num = 1" by (simp add: nextpow2_def smear_def)
    with True show ?thesis by (intro pow [of 0]) auto
  next
    case False
    then have "num - 1 \<noteq> 0" by (metis add.right_neutral diff_add_cancel add.commute)
    from smear_chain_mask [OF this] obtain j where j: "j < 32" "bit (num - 1) j"
      "\<forall>i > j. \<not> bit (num - 1) i"
      "smear 16 (smear 8 (smear 4 (smear 2 (smear 1 (num - 1))))) = mask (Suc j)" by blast
    note b = bit_top_bounds [OF j(2,3,1), unfolded un]
    have np: "nextpow2 num = mask (Suc j) + 1" using j(4) by (simp add: nextpow2_def)
    show ?thesis
    proof (cases "j = 31")
      case True
      then have "nextpow2 num = 0" using np by (simp add: mask_eq_exp_minus_1)
      moreover have "2 ^ 31 < unat num" using b(1) True pos by simp
      ultimately show ?thesis using wrap_top by blast
    next
      case False
      with j have k: "Suc j < 32" by simp
      show ?thesis
      proof (rule pow [OF k])
        show "unat (nextpow2 num) = 2 ^ Suc j" using unat_mask_plus1 [OF k] np by simp
        show "unat num \<le> 2 ^ Suc j" using b(2) pos by linarith
        fix l assume "unat num \<le> 2 ^ l"
        with b(1) pos have "(2::nat) ^ j < 2 ^ l" by linarith
        then show "Suc j \<le> l" by (simp add: Suc_leI)
      qed
    qed
  qed
qed

lemma nextpow2_pow:
  assumes "0 < unat num" "unat num \<le> 2 ^ 31"
  shows "\<exists>k < 32. unat (nextpow2 num) = 2 ^ k \<and> unat num \<le> 2 ^ k \<and> (\<forall>l. unat num \<le> 2 ^ l \<longrightarrow> k \<le> l)"
  by (rule nextpow2_cases [of num]) (use assms in auto)


subsection \<open>Rings of a power-of-two size\<close>

text \<open>
  \<open>count & (size - 1)\<close> is the remainder modulo the size when the size is a power of two:
  the index arithmetic of all the rings, on uint32_t.
\<close>

definition pow2_size :: "u32 \<Rightarrow> bool" where
  "pow2_size n \<longleftrightarrow> (\<exists>k < 32. unat n = 2 ^ k)"

lemma pow2_sizeE:
  assumes "pow2_size n"
  obtains k where "k < 32" "unat n = 2 ^ k" "n - 1 = mask k"
proof -
  from assms obtain k where k: "k < 32" "unat n = 2 ^ k" by (auto simp: pow2_size_def)
  have "n = of_nat (2 ^ k)" by (simp flip: k(2))
  then have "n - 1 = mask k" by (simp add: mask_eq_exp_minus_1)
  with k that show thesis by blast
qed

lemma pow2_size_pos [simp]: "pow2_size n \<Longrightarrow> 0 < unat n"
  by (auto simp: pow2_size_def)

lemma ring_mask [ring_simps]:
  assumes "pow2_size n"
  shows "unat (c AND (n - 1)) = unat c mod unat n"
proof -
  from assms obtain k where k: "unat n = 2 ^ k" "n - 1 = mask k" by (elim pow2_sizeE)
  have "unat (c AND mask k) = unat (take_bit k c)" by (simp only: take_bit_eq_mask)
  also have "\<dots> = take_bit k (unat c)" by (rule unsigned_take_bit_eq)
  finally show ?thesis by (simp add: k take_bit_eq_mod)
qed

lemma unat_plus1_mod [ring_simps]:
  fixes c :: u32
  assumes "pow2_size n"
  shows "unat (c + 1) mod unat n = Suc (unat c) mod unat n"
proof -
  from assms obtain k where k: "k < 32" "unat n = 2 ^ k" by (auto simp: pow2_size_def)
  have "(2::nat) ^ k dvd 2 ^ 32" using k by (intro le_imp_power_dvd) auto
  then have "(Suc (unat c) mod 2 ^ 32) mod 2 ^ k = Suc (unat c) mod 2 ^ k"
    by (simp only: mod_mod_cancel)
  then show ?thesis by (simp add: k(2) unat_word_ariths)
qed

lemma unat_less32 [simp]: "unat (n::u32) < 4294967296"
  using unsigned_less [of n] by simp

lemma unat_Suc32 [ring_simps]:
  assumes "unat (c::u32) < unat (n::u32)"
  shows "unat (c + 1) = Suc (unat c)"
proof -
  have "Suc (unat c) < 4294967296" using assms unat_less32 [of n] by linarith
  then show ?thesis by (simp add: unat_word_ariths)
qed

lemma unat_sub32 [ring_simps]: "unat (b::u32) \<le> unat a \<Longrightarrow> unat (a - b) = unat a - unat b"
  by (simp add: unat_sub word_le_nat_alt)

lemma sint_unat32:
  assumes "unat (w :: u32) < 2 ^ 31"
  shows "sint w = int (unat w)"
proof -
  have u: "uint w = int (unat w)" by simp
  moreover have "int (unat w) < int (2 ^ 31)" using assms by (simp only: of_nat_less_iff)
  ultimately have "uint w < 2 ^ 31" by simp
  then have "signed_take_bit 31 (uint w) = uint w"
    by (intro signed_take_bit_int_eq_self) (use uint_ge_0 [of w] in linarith)+
  then have "sint w = uint w" by (simp add: sint_uint)
  with u show ?thesis by simp
qed

lemma sint_nonneg32:
  fixes v :: u32
  assumes "\<not> sint v < 0"
  shows "sint v = int (unat v)"
proof -
  have "sint v < 2 ^ 31" using sint_lt [of v] by simp
  then have "uint v = sint v" using assms by (simp add: uint_sint take_bit_int_eq_self)
  then show ?thesis by simp
qed

lemma sint_neg32:
  fixes w :: u32
  assumes "2 ^ 31 \<le> unat w"
  shows "sint w < 0"
proof (rule ccontr)
  assume "\<not> sint w < 0"
  then have "sint w = int (unat w)" by (rule sint_nonneg32)
  moreover have "sint w < 2 ^ 31" using sint_lt [of w] by simp
  moreover have "(2::int) ^ 31 \<le> int (unat w)"
    using assms by (metis of_nat_le_iff of_nat_numeral of_nat_power)
  ultimately show False by linarith
qed

lemma unat_double32 [ring_simps]:
  assumes "unat (n::u32) < 2 ^ 31"
  shows "unat (push_bit 1 n) = 2 * unat n"
proof -
  have "push_bit 1 n = 2 * n" by (simp add: push_bit_eq_mult)
  with assms show ?thesis by (simp add: unat_word_ariths)
qed

definition window :: "'a list \<Rightarrow> nat \<Rightarrow> nat \<Rightarrow> nat \<Rightarrow> 'a list" where
  "window xs r n k = map (\<lambda>i. xs ! ((r + i) mod k)) [0..<n]"

lemma length_window [simp]: "length (window xs r n k) = n"
  by (simp add: window_def)

lemma window_0 [simp]: "window xs r 0 k = []"
  by (simp add: window_def)

lemma window_Suc_right: "window xs r (Suc n) k = window xs r n k @ [xs ! ((r + n) mod k)]"
  by (simp add: window_def)

lemma window_Suc_left: "window xs r (Suc n) k = xs ! (r mod k) # window xs (Suc r) n k"
  by (simp add: window_def upt_conv_Cons map_Suc_upt [symmetric] comp_def del: upt_Suc)

lemma window_mod: "window xs (r mod k) n k = window xs r n k"
  by (simp add: window_def mod_add_left_eq)

lemma window_cong_mod: "r mod k = r' mod k \<Longrightarrow> window xs r n k = window xs r' n k"
  by (metis window_mod)

lemma window_update_out:
  assumes "n < k" "j mod k = (r + n) mod k"
  shows "window (xs[j mod k := x]) r n k = window xs r n k"
proof -
  have "(r + i) mod k \<noteq> (r + n) mod k" if "i < n" for i
  proof
    assume "(r + i) mod k = (r + n) mod k"
    then have "k dvd (r + n) - (r + i)" using that by (metis mod_eq_dvd_iff_nat nat_add_left_cancel_le less_imp_le)
    then have "k dvd n - i" by simp
    then have "k \<le> n - i" using that by (simp add: dvd_imp_le)
    with assms(1) show False by simp
  qed
  then show ?thesis unfolding window_def assms(2)
    by (intro map_cong refl nth_list_update_neq) (metis atLeastLessThan_iff set_upt)
qed

lemma window_push:
  assumes "n < k" "length xs = k" "j mod k = (r + n) mod k"
  shows "window (xs[j mod k := x]) r (Suc n) k = window xs r n k @ [x]"
  using assms by (simp add: window_Suc_right window_update_out flip: assms(3))

lemma window_take:
  assumes "r < k" "r + n \<le> k" "length xs = k"
  shows "window xs r n k = take n (drop r xs)"
  using assms by (intro nth_equalityI) (auto simp: window_def)

lemma window_wrap:
  assumes "r < k" "k \<le> r + n" "n \<le> k" "length xs = k"
  shows "window xs r n k = drop r xs @ take (r + n - k) xs"
proof (rule nth_equalityI)
  show "length (window xs r n k) = length (drop r xs @ take (r + n - k) xs)"
    using assms by simp
  fix i assume i: "i < length (window xs r n k)"
  show "window xs r n k ! i = (drop r xs @ take (r + n - k) xs) ! i"
  proof (cases "r + i < k")
    case True
    then have "i < k - r" by simp
    with True i assms show ?thesis by (simp add: window_def nth_append)
  next
    case False
    then have "(r + i) mod k = r + i - k" "\<not> i < k - r" "i - (k - r) = r + i - k"
      using i assms by (auto simp: mod_if)
    with False i assms show ?thesis by (simp add: window_def nth_append)
  qed
qed

lemma window_from_0:
  assumes "n \<le> k" "n = length xs"
  shows "window (xs @ ys) 0 n k = xs"
  using assms by (cases "n = k") (auto intro!: nth_equalityI simp: window_def nth_append)

subsection \<open>Little-endian memory images\<close>

text \<open>
  The bytes of an unsigned integer as the program's memcpy of the integer sees them on its
  little-endian targets, and the integer that bytes read back as.
\<close>

fun le_bytes :: "nat \<Rightarrow> nat \<Rightarrow> byte list" where
  "le_bytes 0 v = []"
| "le_bytes (Suc n) v = of_nat (v mod 256) # le_bytes n (v div 256)"

fun le_val :: "byte list \<Rightarrow> nat" where
  "le_val [] = 0"
| "le_val (b # bs) = unat b + 256 * le_val bs"

lemma length_le_bytes [simp]: "length (le_bytes n v) = n"
  by (induction n arbitrary: v) auto

lemma le_val_le_bytes: "le_val (le_bytes n v) = v mod 256 ^ n"
proof (induction n arbitrary: v)
  case (Suc n)
  have "v mod 256 + 256 * (v div 256 mod 256 ^ n) = v mod (256 * 256 ^ n)"
    by (simp add: mod_mult2_eq)
  with Suc show ?case by (simp add: unat_of_nat)
qed simp

lemma le_val_bound: "le_val bs < 256 ^ length bs"
proof (induction bs)
  case (Cons b bs)
  have "unat b < 256" using unsigned_less [of b] by simp
  with Cons show ?case by simp
qed simp

lemma le_bytes_le_val: "le_bytes (length bs) (le_val bs) = bs"
proof (induction bs)
  case (Cons b bs)
  have b: "unat b < 256" using unsigned_less [of b] by simp
  then have "(unat b + 256 * le_val bs) div 256 = le_val bs" by simp
  moreover have "of_nat ((unat b + 256 * le_val bs) mod 256) = b"
    using b by simp
  ultimately show ?case using Cons by (simp del: of_nat_mod)
qed simp

subsection \<open>The queue interface\<close>

text \<open>
  What the program's queues promise their clients: a push is accepted when there is room and
  then appends, a refused push changes nothing, a pop takes the oldest element or reports
  that there is none. \<open>qrun\<close> runs a sequence of operations and records the accepted and
  the popped elements; inside the interface, no element is lost, duplicated or reordered by
  any such run.
\<close>

datatype 'e qop = Push 'e | Pop

fun qrun :: "('e \<Rightarrow> 'q \<Rightarrow> bool \<times> 'q) \<Rightarrow> ('q \<Rightarrow> 'e option \<times> 'q) \<Rightarrow> 'e qop list \<Rightarrow> 'q
    \<Rightarrow> 'e list \<times> 'e list \<times> 'q" where
  "qrun push pop [] q = ([], [], q)"
| "qrun push pop (Push e # ops) q =
     (case push e q of (ok, q') \<Rightarrow>
      case qrun push pop ops q' of (acc, out, q'') \<Rightarrow> (if ok then e # acc else acc, out, q''))"
| "qrun push pop (Pop # ops) q =
     (case pop q of (r, q') \<Rightarrow>
      case qrun push pop ops q' of (acc, out, q'') \<Rightarrow>
        (acc, (case r of None \<Rightarrow> out | Some e \<Rightarrow> e # out), q''))"

text \<open>The answers of a run, one for each operation, and the queue it leaves.\<close>

datatype 'e qres = Pushed bool | Popped "'e option"

fun qtrace :: "('e \<Rightarrow> 'q \<Rightarrow> bool \<times> 'q) \<Rightarrow> ('q \<Rightarrow> 'e option \<times> 'q) \<Rightarrow> 'e qop list \<Rightarrow> 'q \<Rightarrow> 'e qres list \<times> 'q" where
  "qtrace push pop [] q = ([], q)"
| "qtrace push pop (Push e # ops) q =
     (case push e q of (ok, q') \<Rightarrow> case qtrace push pop ops q' of (rs, q'') \<Rightarrow> (Pushed ok # rs, q''))"
| "qtrace push pop (Pop # ops) q =
     (case pop q of (r, q') \<Rightarrow> case qtrace push pop ops q' of (rs, q'') \<Rightarrow> (Popped r # rs, q''))"

text \<open>The abstract queue: a list of at most \<open>cap\<close> elements.\<close>

definition list_push :: "nat \<Rightarrow> 'e \<Rightarrow> 'e list \<Rightarrow> bool \<times> 'e list" where
  "list_push cap e xs = (if length xs < cap then (True, xs @ [e]) else (False, xs))"

fun list_pop :: "'e list \<Rightarrow> 'e option \<times> 'e list" where
  "list_pop [] = (None, [])"
| "list_pop (x # xs) = (Some x, xs)"

locale fifo =
  fixes push :: "'e \<Rightarrow> 'q \<Rightarrow> bool \<times> 'q"
    and pop :: "'q \<Rightarrow> 'e option \<times> 'q"
    and contents :: "'q \<Rightarrow> 'e list"
    and room :: "'q \<Rightarrow> bool"
    and invar :: "'q \<Rightarrow> bool"
  assumes push_room: "invar q \<Longrightarrow> room q \<Longrightarrow> push e q = (ok, q') \<Longrightarrow>
      ok \<and> contents q' = contents q @ [e]"
    and push_full: "invar q \<Longrightarrow> \<not> room q \<Longrightarrow> push e q = (ok, q') \<Longrightarrow>
      \<not> ok \<and> contents q' = contents q"
    and pop_empty: "invar q \<Longrightarrow> contents q = [] \<Longrightarrow> pop q = (r, q') \<Longrightarrow>
      r = None \<and> contents q' = []"
    and pop_cons: "invar q \<Longrightarrow> contents q = x # xs \<Longrightarrow> pop q = (r, q') \<Longrightarrow>
      r = Some x \<and> contents q' = xs"
    and invar_push: "invar q \<Longrightarrow> push e q = (ok, q') \<Longrightarrow> invar q'"
    and invar_pop: "invar q \<Longrightarrow> pop q = (r, q') \<Longrightarrow> invar q'"
begin

text \<open>
  A queue whose room is that of a list of \<open>cap\<close> elements, on the states \<open>P\<close>, answers every operation as the list does.
\<close>

lemma qtrace_list:
  assumes room: "\<And>q. invar q \<Longrightarrow> P q \<Longrightarrow> room q \<longleftrightarrow> length (contents q) < cap"
    and push_P: "\<And>q e ok q'. invar q \<Longrightarrow> P q \<Longrightarrow> push e q = (ok, q') \<Longrightarrow> P q'"
    and pop_P: "\<And>q r q'. invar q \<Longrightarrow> P q \<Longrightarrow> pop q = (r, q') \<Longrightarrow> P q'"
  shows "invar q \<Longrightarrow> P q \<Longrightarrow> qtrace push pop ops q = (rs, q') \<Longrightarrow>
    qtrace (list_push cap) list_pop ops (contents q) = (rs, contents q')"
proof (induction ops arbitrary: q rs q')
  case (Cons op ops)
  show ?case
  proof (cases op)
    case (Push e)
    obtain ok q1 where p: "push e q = (ok, q1)" by (cases "push e q")
    obtain rs1 q2 where r: "qtrace push pop ops q1 = (rs1, q2)" by (cases "qtrace push pop ops q1")
    have "list_push cap e (contents q) = (ok, contents q1)"
      using push_room [OF Cons.prems(1) _ p] push_full [OF Cons.prems(1) _ p] room [OF Cons.prems(1,2)]
      by (cases "room q") (auto simp: list_push_def)
    moreover have "qtrace (list_push cap) list_pop ops (contents q1) = (rs1, contents q2)"
      using Cons.IH [OF invar_push [OF Cons.prems(1) p] push_P [OF Cons.prems(1,2) p] r] .
    ultimately show ?thesis using Cons.prems(3) Push p r by simp
  next
    case Pop
    obtain x q1 where p: "pop q = (x, q1)" by (cases "pop q")
    obtain rs1 q2 where r: "qtrace push pop ops q1 = (rs1, q2)" by (cases "qtrace push pop ops q1")
    have "list_pop (contents q) = (x, contents q1)"
      using pop_empty [OF Cons.prems(1) _ p] pop_cons [OF Cons.prems(1) _ p] by (cases "contents q") auto
    moreover have "qtrace (list_push cap) list_pop ops (contents q1) = (rs1, contents q2)"
      using Cons.IH [OF invar_pop [OF Cons.prems(1) p] pop_P [OF Cons.prems(1,2) p] r] .
    ultimately show ?thesis using Cons.prems(3) Pop p r by simp
  qed
qed simp

lemma qrun_invar: "invar q \<Longrightarrow> qrun push pop ops q = (acc, out, q') \<Longrightarrow> invar q'"
proof (induction ops arbitrary: q acc out)
  case (Cons op ops)
  then show ?case
    by (cases op) (auto split: prod.splits dest: invar_push invar_pop)
qed simp

lemma qrun_fifo:
  "invar q \<Longrightarrow> qrun push pop ops q = (acc, out, q') \<Longrightarrow> contents q @ acc = out @ contents q'"
proof (induction ops arbitrary: q acc out)
  case (Cons op ops)
  show ?case
  proof (cases op)
    case (Push e)
    obtain ok q1 where p: "push e q = (ok, q1)" by (cases "push e q")
    obtain acc1 out1 q2 where r: "qrun push pop ops q1 = (acc1, out1, q2)"
      by (cases "qrun push pop ops q1")
    have "contents q1 @ acc1 = out1 @ contents q2"
      using Cons.IH [OF invar_push [OF Cons.prems(1) p]] r Cons.prems Push p by (auto split: if_splits)
    then show ?thesis
      using Cons.prems Push p r push_room [OF _ _ p] push_full [OF _ _ p]
      by (cases "room q") auto
  next
    case Pop
    obtain x q1 where p: "pop q = (x, q1)" by (cases "pop q")
    obtain acc1 out1 q2 where r: "qrun push pop ops q1 = (acc1, out1, q2)"
      by (cases "qrun push pop ops q1")
    have "contents q1 @ acc1 = out1 @ contents q2"
      using Cons.IH [OF invar_pop [OF Cons.prems(1) p]] r Cons.prems Pop p by simp
    then show ?thesis
      using Cons.prems Pop p r pop_empty [OF _ _ p] pop_cons [OF _ _ p]
      by (cases "contents q") auto
  qed
qed simp

end

end
