(* ===== verification/CircQueue.thy ===== *)
theory CircQueue
  imports Prelude
begin

section \<open>The growing ring buffer (src/circqueue.c)\<close>

text \<open>
  \<open>struct circQueue\<close> with its uint32_t fields and its array of pointers. An operation that
  the C code performs outside the array is undefined behaviour and is \<open>None\<close> here; the
  error codes of the code are the \<open>int\<close> results. \<open>alloc\<close> says whether the allocation of
  the operation succeeds. The abstraction \<open>cq_list\<close> reads the \<open>count\<close> elements from
  \<open>head\<close> on; the theorems are the refinement of every operation to that list, and what
  the two growing modes (\<open>maxEntries\<close> zero or not) do when the ring is full.
\<close>

record 'a circQueue =
  cq_head :: u32
  cq_tail :: u32
  cq_count :: u32
  cq_maxEntries :: u32
  cq_arrayElements :: u32
  cq_entries :: "'a ptr list"

definition DEFAULT_UNBOUNDED_QUEUE_SIZE :: u32 where
  "DEFAULT_UNBOUNDED_QUEUE_SIZE = 1024"

text \<open>The two allocations of circQueueCreate, then the zeroed struct and array.\<close>

definition circQueueCreate :: "bool \<Rightarrow> bool \<Rightarrow> u32 \<Rightarrow> 'a circQueue ptr" where
  "circQueueCreate alloc1 alloc2 sz =
     (if \<not> alloc1 then None
      else let arr = (if sz = 0 \<or> nextpow2 sz = 0 then DEFAULT_UNBOUNDED_QUEUE_SIZE
                      else nextpow2 sz)
           in if \<not> alloc2 then None
              else Some \<lparr>cq_head = 0, cq_tail = 0, cq_count = 0, cq_maxEntries = sz,
                         cq_arrayElements = arr, cq_entries = replicate (unat arr) None\<rparr>)"

definition circQueueLength :: "'a circQueue \<Rightarrow> u32" where
  "circQueueLength cq = cq_count cq"

definition circQueueIsEmpty :: "'a circQueue \<Rightarrow> bool" where
  "circQueueIsEmpty cq \<longleftrightarrow> cq_count cq = 0"

definition circQueueIsFull :: "'a circQueue \<Rightarrow> bool" where
  "circQueueIsFull cq \<longleftrightarrow> cq_count cq = cq_arrayElements cq"

text \<open>
  \<open>_circQueueGrow\<close>: double the array, copy the chunk from \<open>head\<close> up and then the wrapped
  chunk from the start. The copies write at most \<open>newsize\<close> cells, or the write is out of
  bounds (which happens when doubling 2^31 wraps to 0).
\<close>

definition circQueueGrow :: "bool \<Rightarrow> 'a circQueue \<Rightarrow> (int \<times> 'a circQueue) option" where
  "circQueueGrow alloc cq =
     (let newsize = push_bit 1 (cq_arrayElements cq)
      in if \<not> alloc then Some (-1, cq)
         else
           let headchunklen = (if cq_head cq < cq_tail cq then cq_tail cq - cq_head cq
                               else cq_arrayElements cq - cq_head cq);
               tailchunklen = (if cq_head cq < cq_tail cq then 0 else cq_tail cq);
               newents = take (unat headchunklen) (drop (unat (cq_head cq)) (cq_entries cq))
                         @ take (unat tailchunklen) (cq_entries cq)
           in if unat headchunklen + unat tailchunklen > unat newsize then None
              else Some (0, cq\<lparr>cq_head := 0, cq_tail := headchunklen + tailchunklen,
                               cq_arrayElements := newsize,
                               cq_entries := newents @ replicate (unat newsize - length newents) None\<rparr>))"

text \<open>The store at \<open>entries[tail++]\<close> and the mask of \<open>tail\<close>.\<close>

definition circQueueStore :: "'a circQueue \<Rightarrow> 'a ptr \<Rightarrow> (int \<times> 'a circQueue) option" where
  "circQueueStore cq elem =
     (if unat (cq_tail cq) < length (cq_entries cq)
      then Some (0, cq\<lparr>cq_count := cq_count cq + 1,
                       cq_entries := (cq_entries cq)[unat (cq_tail cq) := elem],
                       cq_tail := (cq_tail cq + 1) AND (cq_arrayElements cq - 1)\<rparr>)
      else None)"

definition circQueuePushTail :: "bool \<Rightarrow> 'a circQueue \<Rightarrow> 'a ptr \<Rightarrow> (int \<times> 'a circQueue) option" where
  "circQueuePushTail alloc cq elem =
     (if cq_maxEntries cq \<noteq> 0 then
        (if cq_count cq = cq_maxEntries cq then Some (-2, cq) else circQueueStore cq elem)
      else if circQueueIsFull cq then
        (case circQueueGrow alloc cq of
           None \<Rightarrow> None
         | Some (r, cq') \<Rightarrow> if r \<noteq> 0 then Some (-1, cq') else circQueueStore cq' elem)
      else circQueueStore cq elem)"

definition circQueueForcePushTail :: "bool \<Rightarrow> 'a circQueue \<Rightarrow> 'a ptr \<Rightarrow> (int \<times> 'a circQueue) option" where
  "circQueueForcePushTail alloc cq elem =
     (case circQueuePushTail alloc cq elem of
        None \<Rightarrow> None
      | Some (ret, cq1) \<Rightarrow>
          if ret = 0 then Some (ret, cq1)
          else (case circQueueGrow alloc cq1 of
                  None \<Rightarrow> None
                | Some (r, cq2) \<Rightarrow> if r = 0 then circQueuePushTail alloc cq2 elem else Some (-1, cq2)))"

definition circQueuePopHead :: "'a circQueue \<Rightarrow> 'a ptr \<times> 'a circQueue" where
  "circQueuePopHead cq =
     (if cq_count cq = 0 then (None, cq)
      else (cq_entries cq ! unat (cq_head cq),
            cq\<lparr>cq_count := cq_count cq - 1,
               cq_head := (cq_head cq + 1) AND (cq_arrayElements cq - 1)\<rparr>))"

definition circQueueClear :: "'a circQueue \<Rightarrow> 'a circQueue" where
  "circQueueClear cq = cq\<lparr>cq_count := 0, cq_head := 0, cq_tail := 0\<rparr>"

subsection \<open>Representation invariant and abstraction\<close>

definition cq_inv :: "'a circQueue \<Rightarrow> bool" where
  "cq_inv cq \<longleftrightarrow>
     pow2_size (cq_arrayElements cq) \<and>
     length (cq_entries cq) = unat (cq_arrayElements cq) \<and>
     unat (cq_head cq) < unat (cq_arrayElements cq) \<and>
     unat (cq_tail cq) = (unat (cq_head cq) + unat (cq_count cq)) mod unat (cq_arrayElements cq) \<and>
     unat (cq_count cq) \<le> unat (cq_arrayElements cq) \<and>
     (cq_maxEntries cq \<noteq> 0 \<longrightarrow>
        unat (cq_count cq) \<le> unat (cq_maxEntries cq) \<and>
        unat (cq_maxEntries cq) \<le> unat (cq_arrayElements cq))"

definition cq_list :: "'a circQueue \<Rightarrow> 'a ptr list" where
  "cq_list cq = window (cq_entries cq) (unat (cq_head cq)) (unat (cq_count cq)) (unat (cq_arrayElements cq))"

lemma cq_invD:
  assumes "cq_inv cq"
  shows "pow2_size (cq_arrayElements cq)" "length (cq_entries cq) = unat (cq_arrayElements cq)"
    "unat (cq_head cq) < unat (cq_arrayElements cq)"
    "unat (cq_tail cq) = (unat (cq_head cq) + unat (cq_count cq)) mod unat (cq_arrayElements cq)"
    "unat (cq_count cq) \<le> unat (cq_arrayElements cq)"
    "cq_maxEntries cq \<noteq> 0 \<Longrightarrow> unat (cq_count cq) \<le> unat (cq_maxEntries cq)"
    "cq_maxEntries cq \<noteq> 0 \<Longrightarrow> unat (cq_maxEntries cq) \<le> unat (cq_arrayElements cq)"
  using assms by (auto simp: cq_inv_def)

lemma length_cq_list [simp]: "length (cq_list cq) = unat (cq_count cq)"
  by (simp add: cq_list_def)

lemma cq_list_empty_iff: "cq_list cq = [] \<longleftrightarrow> cq_count cq = 0"
  by (metis length_0_conv length_cq_list unat_eq_zero)

text \<open>A created queue is empty and well formed for every size up to 2^31.\<close>

lemma circQueueCreate_inv:
  assumes "unat sz \<le> 2 ^ 31" "circQueueCreate a b sz = Some cq"
  shows "cq_inv cq \<and> cq_list cq = [] \<and> cq_maxEntries cq = sz"
proof -
  have "pow2_size DEFAULT_UNBOUNDED_QUEUE_SIZE"
    unfolding pow2_size_def DEFAULT_UNBOUNDED_QUEUE_SIZE_def by (rule exI [of _ 10]) simp
  moreover have "\<exists>k < 32. unat (nextpow2 sz) = 2 ^ k \<and> unat sz \<le> 2 ^ k" if "sz \<noteq> 0"
    using nextpow2_pow [of sz] assms(1) that by (auto simp: unat_gt_0)
  moreover have "pow2_size (nextpow2 sz)" "nextpow2 sz \<noteq> 0" "unat sz \<le> unat (nextpow2 sz)"
    if "sz \<noteq> 0"
    using calculation(2) that by (auto simp: pow2_size_def)
  ultimately show ?thesis
    using assms(2)
    by (auto simp: circQueueCreate_def cq_inv_def cq_list_def Let_def split: if_splits)
qed

subsection \<open>The operations refine list operations\<close>

lemma unat_mask_tail:
  assumes "cq_inv cq"
  shows "unat ((cq_tail cq + 1) AND (cq_arrayElements cq - 1))
    = (unat (cq_head cq) + Suc (unat (cq_count cq))) mod unat (cq_arrayElements cq)"
  using cq_invD [OF assms] by (simp add: ring_simps mod_Suc_eq)

lemma circQueueStore_ok:
  assumes "cq_inv cq" "unat (cq_count cq) < unat (cq_arrayElements cq)"
    "cq_maxEntries cq \<noteq> 0 \<Longrightarrow> cq_count cq \<noteq> cq_maxEntries cq"
  shows "\<exists>cq'. circQueueStore cq e = Some (0, cq') \<and> cq_inv cq' \<and> cq_list cq' = cq_list cq @ [e] \<and>
    cq_maxEntries cq' = cq_maxEntries cq \<and> cq_arrayElements cq' = cq_arrayElements cq"
proof -
  note i = cq_invD [OF assms(1)]
  have t: "unat (cq_tail cq) < length (cq_entries cq)" using i by simp
  have c: "unat (cq_count cq + 1) = Suc (unat (cq_count cq))"
    by (rule unat_Suc32 [OF assms(2)])
  have m: "Suc (unat (cq_count cq)) \<le> unat (cq_maxEntries cq)" if "cq_maxEntries cq \<noteq> 0"
    using i(6) [OF that] assms(3) [OF that] by (metis Suc_leI le_neq_implies_less unsigned_word_eqI)
  let ?cq = "cq\<lparr>cq_count := cq_count cq + 1,
                cq_entries := (cq_entries cq)[unat (cq_tail cq) := e],
                cq_tail := (cq_tail cq + 1) AND (cq_arrayElements cq - 1)\<rparr>"
  have "cq_inv ?cq"
    using i c m assms(2) unat_mask_tail [OF assms(1)] by (auto simp: cq_inv_def)
  moreover have "cq_list ?cq = cq_list cq @ [e]"
    using window_push [of "unat (cq_count cq)" "unat (cq_arrayElements cq)" "cq_entries cq"
        "unat (cq_tail cq)" "unat (cq_head cq)" e] i assms(2) c
    by (simp add: cq_list_def)
  ultimately show ?thesis using t by (simp add: circQueueStore_def)
qed

lemma circQueuePushTail_bounded:
  assumes "cq_inv cq" "cq_maxEntries cq \<noteq> 0"
  shows "\<exists>ret cq'. circQueuePushTail alloc cq e = Some (ret, cq') \<and> cq_inv cq' \<and>
    cq_maxEntries cq' = cq_maxEntries cq \<and>
    (if length (cq_list cq) < unat (cq_maxEntries cq) then ret = 0 \<and> cq_list cq' = cq_list cq @ [e]
     else ret = -2 \<and> cq' = cq)"
proof (cases "cq_count cq = cq_maxEntries cq")
  case True
  with assms show ?thesis by (simp add: circQueuePushTail_def)
next
  case False
  note i = cq_invD [OF assms(1)]
  have lt: "unat (cq_count cq) < unat (cq_maxEntries cq)"
    using False i(6) [OF assms(2)] by (metis le_neq_implies_less unsigned_word_eqI)
  with i(7) [OF assms(2)] have "unat (cq_count cq) < unat (cq_arrayElements cq)" by linarith
  from circQueueStore_ok [OF assms(1) this, of e] False lt show ?thesis
    using assms(2) by (auto simp: circQueuePushTail_def)
qed

lemma circQueuePopHead_ok:
  assumes "cq_inv cq" "circQueuePopHead cq = (r, cq')"
  shows "cq_inv cq' \<and> cq_maxEntries cq' = cq_maxEntries cq \<and>
    (case cq_list cq of [] \<Rightarrow> r = None \<and> cq' = cq | x # xs \<Rightarrow> r = x \<and> cq_list cq' = xs)"
proof (cases "cq_count cq = 0")
  case True
  then have "cq_list cq = []" by (simp add: cq_list_empty_iff)
  with True assms show ?thesis by (auto simp: circQueuePopHead_def)
next
  case False
  note i = cq_invD [OF assms(1)]
  obtain n where n: "unat (cq_count cq) = Suc n"
    using False by (metis not0_implies_Suc unat_eq_zero)
  have c: "unat (cq_count cq - 1) = n" using n False by (simp add: unat_minus_one)
  have h: "unat ((cq_head cq + 1) AND (cq_arrayElements cq - 1)) = Suc (unat (cq_head cq)) mod unat (cq_arrayElements cq)"
    using i by (simp add: ring_simps)
  have cq': "cq' = cq\<lparr>cq_count := cq_count cq - 1, cq_head := (cq_head cq + 1) AND (cq_arrayElements cq - 1)\<rparr>"
    and r: "r = cq_entries cq ! unat (cq_head cq)"
    using assms(2) False by (auto simp: circQueuePopHead_def)
  have l: "cq_list cq = r # window (cq_entries cq) (Suc (unat (cq_head cq))) n (unat (cq_arrayElements cq))"
    using i by (simp add: cq_list_def n window_Suc_left r)
  have "cq_list cq' = window (cq_entries cq) (Suc (unat (cq_head cq))) n (unat (cq_arrayElements cq))"
    by (simp add: cq_list_def cq' c h window_mod)
  moreover have "cq_inv cq'"
    using i n c h by (auto simp: cq_inv_def cq' mod_add_left_eq)
  ultimately show ?thesis by (simp add: l cq')
qed

subsection \<open>Growing keeps the elements in order\<close>

lemma circQueueGrow_ok:
  assumes "cq_inv cq" "cq_count cq \<noteq> 0" "unat (cq_arrayElements cq) < 2 ^ 31"
  shows "\<exists>cq'. circQueueGrow True cq = Some (0, cq') \<and> cq_inv cq' \<and> cq_list cq' = cq_list cq \<and>
    cq_maxEntries cq' = cq_maxEntries cq \<and> cq_count cq' = cq_count cq \<and>
    unat (cq_arrayElements cq') = 2 * unat (cq_arrayElements cq)"
proof -
  note i = cq_invD [OF assms(1)]
  define arr hd tl n where defs: "arr = unat (cq_arrayElements cq)" "hd = unat (cq_head cq)"
    "tl = unat (cq_tail cq)" "n = unat (cq_count cq)"
  have n0: "0 < n" using assms(2) by (simp add: defs unat_gt_0)
  note i' = i [folded defs]
  define hc where "hc = (if cq_head cq < cq_tail cq then cq_tail cq - cq_head cq
                         else cq_arrayElements cq - cq_head cq)"
  define tc where "tc = (if cq_head cq < cq_tail cq then 0 else cq_tail cq)"
  let ?new = "take (unat hc) (drop hd (cq_entries cq)) @ take (unat tc) (cq_entries cq)"
  have sz: "unat (push_bit 1 (cq_arrayElements cq)) = 2 * arr"
    using unat_double32 [OF assms(3)] by (simp add: defs)
  have new: "?new = cq_list cq \<and> unat hc + unat tc = n"
  proof (cases "hd < tl")
    case True
    then have lt: "cq_head cq < cq_tail cq" by (simp add: word_less_nat_alt defs)
    have "hd + n < arr"
      using i' True n0 by (cases "hd + n < arr") (auto simp: mod_if split: if_splits)
    then have "unat hc = n" "unat tc = 0"
      using i' True lt by (auto simp: hc_def tc_def ring_simps defs)
    then show ?thesis
      using i' \<open>hd + n < arr\<close> by (simp add: cq_list_def window_take flip: defs)
  next
    case False
    then have ge: "\<not> cq_head cq < cq_tail cq" by (simp add: word_less_nat_alt defs)
    have w: "arr \<le> hd + n"
      using i' False n0 by (cases "hd + n < arr") auto
    then have "tl = hd + n - arr" using i' by (simp add: mod_if)
    moreover have "unat hc = arr - hd" "unat tc = tl"
      using i' ge by (auto simp: hc_def tc_def ring_simps defs)
    ultimately show ?thesis
      using i' w by (simp add: cq_list_def window_wrap flip: defs)
  qed
  have htn: "hc + tc = cq_count cq"
  proof -
    have "unat (hc + tc) = unat (cq_count cq)"
      using new by (simp add: unat_word_ariths defs)
    then show ?thesis by (rule unsigned_word_eqI)
  qed
  let ?cq = "cq\<lparr>cq_head := 0, cq_tail := hc + tc, cq_arrayElements := push_bit 1 (cq_arrayElements cq),
               cq_entries := ?new @ replicate (2 * arr - length ?new) None\<rparr>"
  have g: "circQueueGrow True cq = Some (0, ?cq)"
    using new i' sz by (simp add: circQueueGrow_def Let_def flip: defs hc_def tc_def)
  have len: "length ?new = n" using new by (simp add: defs)
  have "pow2_size (push_bit 1 (cq_arrayElements cq))"
  proof -
    obtain k where k: "k < 32" "arr = 2 ^ k" using i(1) by (auto simp: pow2_size_def defs)
    then have "(2::nat) ^ k < 2 ^ 31" using assms(3) by (simp add: defs)
    then have "k < 31" by (rule power_less_imp_less_exp [rotated]) simp
    with k sz show ?thesis unfolding pow2_size_def by (intro exI [of _ "Suc k"]) simp
  qed
  moreover have "n < 2 * arr" using i' n0 by linarith
  ultimately have "cq_inv ?cq"
    using i i' len n0 new sz htn by (auto simp: cq_inv_def simp flip: defs)
  moreover have "cq_list ?cq = cq_list cq"
  proof -
    have "cq_list ?cq = window (?new @ replicate (2 * arr - length ?new) None) 0 n
        (unat (push_bit 1 (cq_arrayElements cq)))"
      by (simp add: cq_list_def defs)
    also have "\<dots> = ?new"
      unfolding sz by (rule window_from_0) (use len \<open>n < 2 * arr\<close> in auto)
    finally show ?thesis using new by simp
  qed
  ultimately show ?thesis using g sz htn by (auto simp: defs)
qed

text \<open>Doubling 2^31 slots wraps the new size to 0: the copy into the new array is out of bounds.\<close>

lemma circQueueGrow_wrap:
  assumes "cq_inv cq" "\<not> unat (cq_arrayElements cq) < 2 ^ 31"
  shows "circQueueGrow True cq = None"
proof -
  note i = cq_invD [OF assms(1)]
  obtain k where k: "k < 32" "unat (cq_arrayElements cq) = 2 ^ k" "cq_arrayElements cq - 1 = mask k"
    using i(1) by (elim pow2_sizeE)
  have "\<not> k < 31" using assms(2) k(2) power_strict_increasing [of k 31 "2::nat"] by auto
  then have "k = 31" using k(1) by simp
  then have "push_bit 1 (cq_arrayElements cq) = 0"
    using k(3) by (simp add: push_bit_eq_mult diff_eq_eq mask_eq_exp_minus_1)
  moreover have "0 < unat (cq_arrayElements cq - cq_head cq)"
    using i by (simp add: ring_simps)
  moreover have "0 < unat (cq_tail cq - cq_head cq)" if "cq_head cq < cq_tail cq"
    using that by (simp add: ring_simps word_less_nat_alt)
  ultimately show ?thesis by (simp add: circQueueGrow_def Let_def)
qed

lemma circQueuePushTail_unbounded:
  assumes "cq_inv cq" "cq_maxEntries cq = 0"
    "cq_count cq = cq_arrayElements cq \<Longrightarrow> unat (cq_arrayElements cq) < 2 ^ 31"
  shows "\<exists>cq'. circQueuePushTail True cq e = Some (0, cq') \<and> cq_inv cq' \<and>
    cq_list cq' = cq_list cq @ [e] \<and> cq_maxEntries cq' = 0 \<and>
    unat (cq_arrayElements cq') =
      (if cq_count cq = cq_arrayElements cq then 2 else 1) * unat (cq_arrayElements cq)"
proof (cases "cq_count cq = cq_arrayElements cq")
  case True
  note i = cq_invD [OF assms(1)]
  have "cq_count cq \<noteq> 0" using i(1) True by (metis less_irrefl pow2_size_pos unsigned_0)
  from circQueueGrow_ok [OF assms(1) this assms(3) [OF True]] obtain g where
    g: "circQueueGrow True cq = Some (0, g)" "cq_inv g" "cq_list g = cq_list cq"
      "cq_maxEntries g = 0" "cq_count g = cq_count cq"
      "unat (cq_arrayElements g) = 2 * unat (cq_arrayElements cq)" using assms(2) by auto
  have "unat (cq_count g) < unat (cq_arrayElements g)"
    using g True pow2_size_pos [OF i(1)] by simp
  from circQueueStore_ok [OF g(2) this, of e] g show ?thesis
    using True assms(2) by (auto simp: circQueuePushTail_def circQueueIsFull_def)
next
  case False
  have "unat (cq_count cq) < unat (cq_arrayElements cq)"
    using cq_invD(5) [OF assms(1)] False by (metis le_neq_implies_less unsigned_word_eqI)
  from circQueueStore_ok [OF assms(1) this, of e] show ?thesis
    using False assms(2) by (auto simp: circQueuePushTail_def circQueueIsFull_def)
qed

lemma circQueueForcePushTail_ok:
  assumes "cq_inv cq" "circQueueForcePushTail True cq e = Some (r, cq')"
  shows "cq_inv cq' \<and> cq_maxEntries cq' = cq_maxEntries cq \<and>
    cq_list cq' = cq_list cq @ (if r = 0 then [e] else [])"
proof (cases "cq_maxEntries cq = 0")
  case True
  show ?thesis
  proof (cases "cq_count cq = cq_arrayElements cq \<and> \<not> unat (cq_arrayElements cq) < 2 ^ 31")
    case w: True
    then have "circQueuePushTail True cq e = None"
      using True circQueueGrow_wrap [OF assms(1)] by (simp add: circQueuePushTail_def circQueueIsFull_def)
    with assms(2) show ?thesis by (simp add: circQueueForcePushTail_def)
  next
    case False
    with circQueuePushTail_unbounded [OF assms(1) True, of e] assms(2) True show ?thesis
      by (auto simp: circQueueForcePushTail_def)
  qed
next
  case bounded: False
  show ?thesis
  proof (cases "cq_count cq = cq_maxEntries cq")
    case True
    then have ne: "cq_count cq \<noteq> 0" using bounded by simp
    show ?thesis
    proof (cases "unat (cq_arrayElements cq) < 2 ^ 31")
      case lt: True
      from circQueueGrow_ok [OF assms(1) ne lt] True bounded assms(2) show ?thesis
        by (auto simp: circQueueForcePushTail_def circQueuePushTail_def)
    next
      case False
      with circQueueGrow_wrap [OF assms(1)] True bounded assms(2) show ?thesis
        by (simp add: circQueueForcePushTail_def circQueuePushTail_def)
    qed
  next
    case False
    then have "length (cq_list cq) < unat (cq_maxEntries cq)"
      using cq_invD(6) [OF assms(1) bounded] by (metis le_neq_implies_less length_cq_list unsigned_word_eqI)
    with circQueuePushTail_bounded [OF assms(1) bounded, of True e] assms(2) show ?thesis
      by (auto simp: circQueueForcePushTail_def)
  qed
qed

subsection \<open>The ring as a queue\<close>

text \<open>
  The client's view: a push reports success when the code returns 0; a take tests for
  emptiness first, as queueTake and blockQueueTake do.
\<close>

definition cq_push :: "'a ptr \<Rightarrow> 'a circQueue \<Rightarrow> bool \<times> 'a circQueue" where
  "cq_push e cq = (case circQueuePushTail True cq e of
     None \<Rightarrow> (False, cq) | Some (r, cq') \<Rightarrow> (r = 0, cq'))"

definition cq_take :: "'a circQueue \<Rightarrow> 'a ptr option \<times> 'a circQueue" where
  "cq_take cq = (if circQueueIsEmpty cq then (None, cq)
     else case circQueuePopHead cq of (r, cq') \<Rightarrow> (Some r, cq'))"

definition cq_room :: "'a circQueue \<Rightarrow> bool" where
  "cq_room cq \<longleftrightarrow>
     (if cq_maxEntries cq \<noteq> 0 then unat (cq_count cq) < unat (cq_maxEntries cq)
      else cq_count cq = cq_arrayElements cq \<longrightarrow> unat (cq_arrayElements cq) < 2 ^ 31)"

lemma cq_push_room:
  assumes "cq_inv cq" "cq_room cq" "cq_push e cq = (ok, cq')"
  shows "ok \<and> cq_list cq' = cq_list cq @ [e] \<and> cq_inv cq'"
proof (cases "cq_maxEntries cq = 0")
  case True
  with assms circQueuePushTail_unbounded [OF assms(1) True, of e] show ?thesis
    by (auto simp: cq_room_def cq_push_def split: if_splits)
next
  case False
  with assms circQueuePushTail_bounded [OF assms(1) False, of True e] show ?thesis
    by (auto simp: cq_room_def cq_push_def)
qed

lemma cq_push_full:
  assumes "cq_inv cq" "\<not> cq_room cq" "cq_push e cq = (ok, cq')"
  shows "\<not> ok \<and> cq' = cq"
proof (cases "cq_maxEntries cq = 0")
  case True
  with assms circQueueGrow_wrap [OF assms(1)] show ?thesis
    by (auto simp: cq_room_def cq_push_def circQueuePushTail_def circQueueIsFull_def split: if_splits)
next
  case False
  with assms circQueuePushTail_bounded [OF assms(1) False, of True e] show ?thesis
    by (auto simp: cq_room_def cq_push_def)
qed

lemma cq_take_ok:
  assumes "cq_inv cq" "cq_take cq = (r, cq')"
  shows "cq_inv cq' \<and> (case cq_list cq of [] \<Rightarrow> r = None \<and> cq' = cq | x # xs \<Rightarrow> r = Some x \<and> cq_list cq' = xs)"
proof (cases "cq_count cq = 0")
  case True
  with assms show ?thesis
    using cq_list_empty_iff [of cq] by (auto simp: cq_take_def circQueueIsEmpty_def)
next
  case False
  then obtain x xs where l: "cq_list cq = x # xs"
    by (metis cq_list_empty_iff neq_Nil_conv)
  obtain a b where ab: "circQueuePopHead cq = (a, b)" by (cases "circQueuePopHead cq")
  from circQueuePopHead_ok [OF assms(1) ab] l ab assms(2) False show ?thesis
    by (auto simp: cq_take_def circQueueIsEmpty_def)
qed

interpretation cq: fifo cq_push cq_take cq_list cq_room cq_inv
proof unfold_locales
  fix q q' :: "'a circQueue" and e :: "'a ptr" and ok r x xs
  show "cq_inv q \<Longrightarrow> cq_room q \<Longrightarrow> cq_push e q = (ok, q') \<Longrightarrow> ok \<and> cq_list q' = cq_list q @ [e]"
    using cq_push_room [of q e ok q'] by blast
  show "cq_inv q \<Longrightarrow> \<not> cq_room q \<Longrightarrow> cq_push e q = (ok, q') \<Longrightarrow> \<not> ok \<and> cq_list q' = cq_list q"
    using cq_push_full [of q e ok q'] by blast
  show "cq_inv q \<Longrightarrow> cq_list q = [] \<Longrightarrow> cq_take q = (r, q') \<Longrightarrow> r = None \<and> cq_list q' = []"
    using cq_take_ok [of q r q'] by simp
  show "cq_inv q \<Longrightarrow> cq_list q = x # xs \<Longrightarrow> cq_take q = (r, q') \<Longrightarrow> r = Some x \<and> cq_list q' = xs"
    using cq_take_ok [of q r q'] by simp
  show "cq_inv q \<Longrightarrow> cq_push e q = (ok, q') \<Longrightarrow> cq_inv q'"
    using cq_push_room [of q e ok q'] cq_push_full [of q e ok q'] by blast
  show "cq_inv q \<Longrightarrow> cq_take q = (r, q') \<Longrightarrow> cq_inv q'"
    using cq_take_ok [of q r q'] by blast
qed

subsection \<open>Properties\<close>

text \<open>
  What a queue created with \<open>sz\<close> holds at most: \<open>sz\<close> elements, or, when \<open>sz\<close> is 0, as many as the largest array a
  uint32\_t can count, which the doublings reach.
\<close>

definition cq_capacity :: "u32 \<Rightarrow> nat" where
  "cq_capacity sz = (if sz = 0 then 2 ^ 31 else unat sz)"

lemma cq_room_capacity:
  assumes "cq_inv cq"
  shows "cq_room cq \<longleftrightarrow> length (cq_list cq) < cq_capacity (cq_maxEntries cq)"
proof (cases "cq_maxEntries cq = 0")
  case True
  obtain k where k: "k < 32" "unat (cq_arrayElements cq) = 2 ^ k" using assms by (auto simp: cq_inv_def pow2_size_def)
  then have "(2 :: nat) ^ k \<le> 2 ^ 31" by (intro power_increasing) auto
  then have "unat (cq_arrayElements cq) \<le> 2 ^ 31" "unat (cq_count cq) \<le> unat (cq_arrayElements cq)"
    using k(2) assms by (simp_all add: cq_inv_def)
  moreover have "cq_count cq = cq_arrayElements cq \<longleftrightarrow> unat (cq_count cq) = unat (cq_arrayElements cq)" by (simp add: word_unat_eq_iff)
  moreover have "length (cq_list cq) = unat (cq_count cq)" by (simp add: cq_list_def)
  ultimately show ?thesis using True by (auto simp: cq_room_def cq_capacity_def)
next
  case False
  then show ?thesis by (simp add: cq_room_def cq_capacity_def cq_list_def)
qed

lemma cq_push_max:
  assumes "cq_inv cq" "cq_push e cq = (ok, cq')"
  shows "cq_maxEntries cq' = cq_maxEntries cq"
proof (cases "cq_room cq")
  case False
  then show ?thesis using cq_push_full [OF assms(1) _ assms(2)] by simp
next
  case room: True
  show ?thesis
  proof (cases "cq_maxEntries cq = 0")
    case True
    then have "cq_count cq = cq_arrayElements cq \<Longrightarrow> unat (cq_arrayElements cq) < 2 ^ 31" using room by (simp add: cq_room_def)
    from circQueuePushTail_unbounded [OF assms(1) True this, of e] True assms(2) show ?thesis by (auto simp: cq_push_def)
  next
    case False
    from circQueuePushTail_bounded [OF assms(1) False, of True e] assms(2) show ?thesis by (auto simp: cq_push_def)
  qed
qed

lemma cq_take_max: "cq_inv cq \<Longrightarrow> cq_take cq = (r, cq') \<Longrightarrow> cq_maxEntries cq' = cq_maxEntries cq"
  using circQueuePopHead_ok [of cq] by (cases "circQueuePopHead cq") (auto simp: cq_take_def split: if_splits)

text \<open>
  C21: any sequence of circQueuePushTail and circQueuePopHead calls on a freshly created
  queue of a size up to 2^31 answers, call by call, as the same sequence on a list of at most \<open>cq_capacity\<close> elements
  that starts empty, and leaves the list in the ring: a push is accepted exactly while the list is shorter, a pop gives the
  oldest element or says that there is none, across every
  wrap-around of the ring and every doubling of its array.
\<close>
theorem circ_queue_fifo:
  assumes "unat sz \<le> 2 ^ 31" "circQueueCreate True True sz = Some cq" "qtrace cq_push cq_take ops cq = (rs, cq')"
  shows "qtrace (list_push (cq_capacity sz)) list_pop ops [] = (rs, cq_list cq')"
proof -
  from circQueueCreate_inv [OF assms(1,2)] have c: "cq_inv cq" "cq_list cq = []" "cq_maxEntries cq = sz" by auto
  let ?P = "\<lambda>q. cq_maxEntries q = sz"
  have "qtrace (list_push (cq_capacity sz)) list_pop ops (cq_list cq) = (rs, cq_list cq')"
  proof (rule cq.qtrace_list [where P = ?P, OF _ _ _ c(1,3) assms(3)])
    fix q q' :: "'a circQueue" and e ok r
    assume q: "cq_inv q" "?P q"
    show "cq_room q = (length (cq_list q) < cq_capacity sz)" using cq_room_capacity [OF q(1)] q(2) by simp
    show "?P q'" if "cq_push e q = (ok, q')" using cq_push_max [OF q(1) that] q(2) by simp
    show "?P q'" if "cq_take q = (r, q')" using cq_take_max [OF q(1) that] q(2) by simp
  qed
  then show ?thesis using c(2) by simp
qed

lemma circ_queue_fifo_witness:
  "\<exists>cq cq'. circQueueCreate True True 2 = Some cq \<and>
     qtrace cq_push cq_take [Push (Some 1), Push (Some 2), Push (Some 3), Pop, Push (Some (4::nat))] cq
       = ([Pushed True, Pushed True, Pushed False, Popped (Some (Some 1)), Pushed True], cq') \<and>
     cq_list cq' = [Some 2, Some 4]"
proof -
  obtain cq where c: "circQueueCreate True True 2 = Some (cq :: nat circQueue)"
    by (simp add: circQueueCreate_def Let_def)
  let ?ops = "[Push (Some 1), Push (Some 2), Push (Some 3), Pop, Push (Some (4::nat))]"
  obtain rs cq' where q: "qtrace cq_push cq_take ?ops cq = (rs, cq')"
    by (cases "qtrace cq_push cq_take ?ops cq")
  from circ_queue_fifo [OF _ c q]
  have "rs = [Pushed True, Pushed True, Pushed False, Popped (Some (Some 1)), Pushed True]" "cq_list cq' = [Some 2, Some 4]"
    by (simp_all add: cq_capacity_def list_push_def)
  with c q show ?thesis by auto
qed

text \<open>
  With maxEntries 0 a push never fails below 2^31 slots: it appends the element, and when
  the ring is full it first doubles the array, which keeps all elements in order although
  they may wrap around the end of the old array.
\<close>
theorem unbounded_push_grows:
  assumes "cq_inv cq" "cq_maxEntries cq = 0" "unat (cq_arrayElements cq) < 2 ^ 31"
  shows "\<exists>cq'. circQueuePushTail True cq e = Some (0, cq') \<and> cq_inv cq' \<and>
    cq_list cq' = cq_list cq @ [e] \<and>
    unat (cq_arrayElements cq') =
      (if circQueueIsFull cq then 2 else 1) * unat (cq_arrayElements cq)"
  using circQueuePushTail_unbounded [OF assms(1,2), of e] assms(3)
  by (auto simp: circQueueIsFull_def)

definition cq_example :: "nat circQueue" where
  "cq_example = \<lparr>cq_head = 1, cq_tail = 1, cq_count = 2, cq_maxEntries = 0, cq_arrayElements = 2,
     cq_entries = [Some 8, Some 7]\<rparr>"

lemma cq_example_inv: "cq_inv cq_example"
  unfolding cq_inv_def cq_example_def pow2_size_def by (auto intro: exI [of _ 1])

lemma unbounded_push_grows_witness:
  "cq_list cq_example = [Some 7, Some 8] \<and> circQueueIsFull cq_example \<and>
   (\<exists>cq'. circQueuePushTail True cq_example (Some 9) = Some (0, cq') \<and> cq_inv cq' \<and>
     cq_list cq' = [Some 7, Some 8, Some 9] \<and> unat (cq_arrayElements cq') = 4)"
proof -
  have m: "cq_maxEntries cq_example = 0" "unat (cq_arrayElements cq_example) < 2 ^ 31"
    "unat (cq_arrayElements cq_example) = 2"
    "cq_list cq_example = [Some 7, Some 8]" "circQueueIsFull cq_example"
    by (simp_all add: cq_example_def cq_list_def window_def circQueueIsFull_def upt_rec)
  from unbounded_push_grows [OF cq_example_inv m(1,2), of "Some 9"] m show ?thesis by auto
qed

text \<open>
  circQueueForcePushTail does not force anything on a bounded queue. When count has reached
  maxEntries it doubles the array, tries again and returns -2 once more.
\<close>
lemma force_push_bounded_full:
  assumes "cq_inv cq" "cq_maxEntries cq \<noteq> 0" "cq_count cq = cq_maxEntries cq"
    "unat (cq_arrayElements cq) < 2 ^ 31"
  shows "\<exists>cq'. circQueueForcePushTail True cq e = Some (-2, cq') \<and> cq_list cq' = cq_list cq \<and>
    unat (cq_arrayElements cq') = 2 * unat (cq_arrayElements cq)"
proof -
  have "cq_count cq \<noteq> 0" using assms(2,3) by simp
  from circQueueGrow_ok [OF assms(1) this assms(4)] assms(2,3) show ?thesis
    by (auto simp: circQueueForcePushTail_def circQueuePushTail_def)
qed

end
