(* ===== verification/BlockQueue.thy ===== *)
theory BlockQueue
  imports CircQueue
begin

section \<open>The locked queues (src/queue.c, src/blockqueue.c, src/globalqueue.c)\<close>

text \<open>
  queue.c wraps a ring in a mutex; an operation runs its body between lock and unlock, so it
  is one atomic step of the ring, possible when the mutex is free.

  blockqueue.c is a monitor: takers wait on a condition variable while the ring is empty,
  and pushers signal it. \<open>bq_step\<close> is the step relation of any number of threads (numbered
  by \<open>nat\<close>) that call blockQueuePush, blockQueueTake and blockQueueExit; pthread_cond_wait
  releases the mutex and joins the waiters in one step, may wake up spuriously, and takes the
  mutex again before it returns. The theorems: the mutex is exclusive, the elements come out
  in the order in which they were accepted, and no wake-up is lost.
  globalqueue.c is a blockQueue of length 1024 behind a static pointer.
\<close>

subsection \<open>queue.c\<close>

record 'a queue =
  qu_lock :: bool
  qu_cq :: "'a circQueue"
  qu_ud :: "'a ptr"

definition queueCreate :: "bool \<Rightarrow> bool \<Rightarrow> bool \<Rightarrow> u32 \<Rightarrow> 'a ptr \<Rightarrow> 'a queue ptr" where
  "queueCreate alloc1 alloc2 alloc3 maxSize ud =
     (case circQueueCreate alloc1 alloc2 maxSize of
        None \<Rightarrow> None
      | Some cq \<Rightarrow> if \<not> alloc3 then None
                   else Some \<lparr>qu_lock = False, qu_cq = cq, qu_ud = ud\<rparr>)"

text \<open>A call blocks (\<open>None\<close>) while another thread is inside.\<close>

definition queueForcePush :: "'a queue \<Rightarrow> 'a ptr \<Rightarrow> (int \<times> 'a queue) option" where
  "queueForcePush q elem =
     (if qu_lock q then None
      else map_option (\<lambda>(ret, cq). (ret, q\<lparr>qu_cq := cq\<rparr>)) (circQueueForcePushTail True (qu_cq q) elem))"

definition queuePush :: "'a queue \<Rightarrow> 'a ptr \<Rightarrow> (int \<times> 'a queue) option" where
  "queuePush q elem =
     (if qu_lock q then None
      else map_option (\<lambda>(ret, cq). (ret, q\<lparr>qu_cq := cq\<rparr>)) (circQueuePushTail True (qu_cq q) elem))"

definition queueTake :: "'a queue \<Rightarrow> ('a ptr \<times> 'a queue) option" where
  "queueTake q =
     (if qu_lock q then None
      else if \<not> circQueueIsEmpty (qu_cq q)
      then Some (case circQueuePopHead (qu_cq q) of (elem, cq) \<Rightarrow> (elem, q\<lparr>qu_cq := cq\<rparr>))
      else Some (None, q))"

definition queueLength :: "'a queue \<Rightarrow> u32 option" where
  "queueLength q = (if qu_lock q then None else Some (circQueueLength (qu_cq q)))"

subsection \<open>blockqueue.c: the bodies of the critical sections\<close>

definition blockQueueCreate :: "bool \<Rightarrow> bool \<Rightarrow> bool \<Rightarrow> u32 \<Rightarrow> 'a circQueue ptr" where
  "blockQueueCreate alloc1 alloc2 alloc3 maxSize =
     (case circQueueCreate alloc1 alloc2 maxSize of
        None \<Rightarrow> None | Some cq \<Rightarrow> if \<not> alloc3 then None else Some cq)"

text \<open>The critical section of a push: its return value, the ring, and whether it signals.\<close>

definition blockQueuePush :: "'a circQueue \<Rightarrow> 'a ptr \<Rightarrow> (int \<times> bool \<times> 'a circQueue) option" where
  "blockQueuePush cq elem =
     (case circQueuePushTail True cq elem of
        None \<Rightarrow> None
      | Some (r, cq') \<Rightarrow> if r < 0 then Some (-1, False, cq') else Some (0, True, cq'))"

text \<open>blockQueueExit pushes NULL with force and signals whether or not it was stored.\<close>

definition blockQueueExit :: "'a circQueue \<Rightarrow> (bool \<times> 'a circQueue) option" where
  "blockQueueExit cq =
     (case circQueueForcePushTail True cq None of
        None \<Rightarrow> None | Some (_, cq') \<Rightarrow> Some (True, cq'))"

definition blockQueueLength :: "'a circQueue \<Rightarrow> u32" where
  "blockQueueLength cq = circQueueLength cq"

subsection \<open>blockqueue.c: the monitor\<close>

text \<open>Where a thread is inside the module.\<close>

datatype 'a bq_pc =
    BIdle
  | BWantTake          \<comment> \<open>blockQueueTake, at pthread_mutex_lock\<close>
  | BCheck             \<comment> \<open>blockQueueTake, holding the mutex, at the loop test\<close>
  | BWaiting           \<comment> \<open>inside pthread_cond_wait, mutex released\<close>
  | BSignalled         \<comment> \<open>woken, about to take the mutex again\<close>
  | BWantPush "'a ptr"
  | BInPush "'a ptr"
  | BWantExit
  | BInExit

record 'a bq =
  bq_owner :: "nat option"
  bq_cq :: "'a circQueue"
  bq_pc :: "nat \<Rightarrow> 'a bq_pc"
  bq_accepted :: "'a ptr list"   \<comment> \<open>history: elements stored so far\<close>
  bq_taken :: "'a ptr list"      \<comment> \<open>history: elements returned by blockQueueTake\<close>

definition bq_init :: "'a circQueue \<Rightarrow> 'a bq" where
  "bq_init cq = \<lparr>bq_owner = None, bq_cq = cq, bq_pc = (\<lambda>_. BIdle), bq_accepted = [], bq_taken = []\<rparr>"

definition bq_goto :: "nat \<Rightarrow> 'a bq_pc \<Rightarrow> 'a bq \<Rightarrow> 'a bq" where
  "bq_goto t p s = s\<lparr>bq_pc := (bq_pc s)(t := p)\<rparr>"

text \<open>
  \<open>bq_signal s u\<close>: pthread_cond_signal wakes the waiting thread \<open>u\<close>, if one waits.
\<close>

inductive bq_signal :: "'a bq \<Rightarrow> 'a bq \<Rightarrow> bool" where
  wake: "bq_pc s u = BWaiting \<Longrightarrow> bq_signal s (bq_goto u BSignalled s)"
| none: "(\<And>u. bq_pc s u \<noteq> BWaiting) \<Longrightarrow> bq_signal s s"

inductive bq_step :: "'a bq \<Rightarrow> 'a bq \<Rightarrow> bool" where
  call_take: "bq_pc s t = BIdle \<Longrightarrow> bq_step s (bq_goto t BWantTake s)"
| call_push: "bq_pc s t = BIdle \<Longrightarrow> bq_step s (bq_goto t (BWantPush e) s)"
| call_exit: "bq_pc s t = BIdle \<Longrightarrow> bq_step s (bq_goto t BWantExit s)"
| lock_take: "bq_pc s t = BWantTake \<Longrightarrow> bq_owner s = None \<Longrightarrow>
    bq_step s (bq_goto t BCheck (s\<lparr>bq_owner := Some t\<rparr>))"
| take_wait: "bq_pc s t = BCheck \<Longrightarrow> circQueueIsEmpty (bq_cq s) \<Longrightarrow>
    bq_step s (bq_goto t BWaiting (s\<lparr>bq_owner := None\<rparr>))"
| take_pop: "bq_pc s t = BCheck \<Longrightarrow> \<not> circQueueIsEmpty (bq_cq s) \<Longrightarrow>
    circQueuePopHead (bq_cq s) = (e, cq') \<Longrightarrow>
    bq_step s (bq_goto t BIdle (s\<lparr>bq_owner := None, bq_cq := cq', bq_taken := bq_taken s @ [e]\<rparr>))"
| spurious: "bq_pc s t = BWaiting \<Longrightarrow> bq_step s (bq_goto t BSignalled s)"
| relock: "bq_pc s t = BSignalled \<Longrightarrow> bq_owner s = None \<Longrightarrow>
    bq_step s (bq_goto t BCheck (s\<lparr>bq_owner := Some t\<rparr>))"
| lock_push: "bq_pc s t = BWantPush e \<Longrightarrow> bq_owner s = None \<Longrightarrow>
    bq_step s (bq_goto t (BInPush e) (s\<lparr>bq_owner := Some t\<rparr>))"
| push_ok: "bq_pc s t = BInPush e \<Longrightarrow> blockQueuePush (bq_cq s) e = Some (0, True, cq') \<Longrightarrow>
    bq_signal (bq_goto t BIdle (s\<lparr>bq_owner := None, bq_cq := cq', bq_accepted := bq_accepted s @ [e]\<rparr>)) s' \<Longrightarrow>
    bq_step s s'"
| push_fail: "bq_pc s t = BInPush e \<Longrightarrow> blockQueuePush (bq_cq s) e = Some (-1, False, cq') \<Longrightarrow>
    bq_step s (bq_goto t BIdle (s\<lparr>bq_owner := None, bq_cq := cq'\<rparr>))"
| lock_exit: "bq_pc s t = BWantExit \<Longrightarrow> bq_owner s = None \<Longrightarrow>
    bq_step s (bq_goto t BInExit (s\<lparr>bq_owner := Some t\<rparr>))"
| exit_done: "bq_pc s t = BInExit \<Longrightarrow> blockQueueExit (bq_cq s) = Some (sig, cq') \<Longrightarrow>
    bq_signal (bq_goto t BIdle (s\<lparr>bq_owner := None, bq_cq := cq',
       bq_accepted := bq_accepted s @ (if cq_count cq' = cq_count (bq_cq s) then [] else [None])\<rparr>)) s' \<Longrightarrow>
    bq_step s s'"

inductive bq_reach :: "'a circQueue \<Rightarrow> 'a bq \<Rightarrow> bool" for cq where
  init: "bq_reach cq (bq_init cq)"
| step: "bq_reach cq s \<Longrightarrow> bq_step s s' \<Longrightarrow> bq_reach cq s'"

lemma bq_goto_simps [simp]:
  "bq_owner (bq_goto t p s) = bq_owner s" "bq_cq (bq_goto t p s) = bq_cq s"
  "bq_pc (bq_goto t p s) = (bq_pc s)(t := p)"
  "bq_accepted (bq_goto t p s) = bq_accepted s" "bq_taken (bq_goto t p s) = bq_taken s"
  by (simp_all add: bq_goto_def)

subsection \<open>The monitor's invariant\<close>

definition bq_awake :: "'a bq \<Rightarrow> nat set" where
  "bq_awake s = {t. bq_pc s t = BSignalled \<or> bq_pc s t = BCheck}"

definition bq_inside :: "'a bq_pc \<Rightarrow> bool" where
  "bq_inside p \<longleftrightarrow> p = BCheck \<or> p = BInExit \<or> (\<exists>e. p = BInPush e)"

lemma bq_inside_simps [simp]:
  "\<not> bq_inside BIdle" "\<not> bq_inside BWantTake" "bq_inside BCheck" "\<not> bq_inside BWaiting"
  "\<not> bq_inside BSignalled" "\<not> bq_inside (BWantPush e)" "bq_inside (BInPush e)"
  "\<not> bq_inside BWantExit" "bq_inside BInExit"
  by (simp_all add: bq_inside_def)

text \<open>
  The mutex is held exactly by the thread inside; the ring is well formed and holds what was
  accepted and not yet taken; and while a thread waits, there are at least as many awake
  takers as elements, which is what no lost wake-up means.
\<close>

definition bq_inv :: "'a bq \<Rightarrow> bool" where
  "bq_inv s \<longleftrightarrow>
     cq_inv (bq_cq s) \<and>
     bq_accepted s = bq_taken s @ cq_list (bq_cq s) \<and>
     (\<forall>t. bq_inside (bq_pc s t) \<longleftrightarrow> bq_owner s = Some t) \<and>
     finite {t. bq_pc s t \<noteq> BIdle} \<and>
     ((\<exists>t. bq_pc s t = BWaiting) \<longrightarrow> length (cq_list (bq_cq s)) \<le> card (bq_awake s))"

lemma bq_awake_simps [simp]:
  "bq_awake (bq_goto t BSignalled s) = insert t (bq_awake s)"
  "bq_awake (bq_goto t BCheck s) = insert t (bq_awake s)"
  "p \<noteq> BSignalled \<Longrightarrow> p \<noteq> BCheck \<Longrightarrow> bq_awake (bq_goto t p s) = bq_awake s - {t}"
  "bq_awake (s\<lparr>bq_owner := ow\<rparr>) = bq_awake s"
  "bq_awake (s\<lparr>bq_cq := cq\<rparr>) = bq_awake s"
  "bq_awake (s\<lparr>bq_accepted := l\<rparr>) = bq_awake s"
  "bq_awake (s\<lparr>bq_taken := l\<rparr>) = bq_awake s"
  by (auto simp: bq_awake_def)

lemma bq_signal_cases:
  assumes "bq_signal s s'"
  obtains (wake) u where "bq_pc s u = BWaiting" "s' = bq_goto u BSignalled s"
  | (none) "\<And>u. bq_pc s u \<noteq> BWaiting" "s' = s"
  using assms by (cases rule: bq_signal.cases) auto

lemma finite_bq_awake: "finite {t. bq_pc s t \<noteq> BIdle} \<Longrightarrow> finite (bq_awake s)"
  by (erule rev_finite_subset) (auto simp: bq_awake_def)

lemma finite_not_idle_goto:
  "finite {t. bq_pc s t \<noteq> BIdle} \<Longrightarrow> finite {u. ((bq_pc s)(t := p)) u \<noteq> BIdle}"
  by (rule finite_subset [of _ "insert t {t. bq_pc s t \<noteq> BIdle}"]) auto

lemma blockQueuePush_ok:
  assumes "cq_inv cq" "blockQueuePush cq e = Some (r, sig, cq')"
  shows "cq_inv cq' \<and> cq_list cq' = cq_list cq @ (if r = 0 then [e] else []) \<and> (sig \<longleftrightarrow> r = 0)"
proof (cases "circQueuePushTail True cq e")
  case None
  with assms(2) show ?thesis by (simp add: blockQueuePush_def)
next
  case (Some a)
  obtain r1 cq1 where a: "a = (r1, cq1)" by (cases a)
  have "r1 = 0 \<or> r1 < 0" "cq_inv cq1" "cq_list cq1 = cq_list cq @ (if r1 = 0 then [e] else [])"
  proof -
    have "(r1 = 0 \<or> r1 < 0) \<and> cq_inv cq1 \<and> cq_list cq1 = cq_list cq @ (if r1 = 0 then [e] else [])"
    proof (cases "cq_maxEntries cq = 0")
      case True
      show ?thesis
      proof (cases "cq_count cq = cq_arrayElements cq \<and> \<not> unat (cq_arrayElements cq) < 2 ^ 31")
        case w: True
        with circQueueGrow_wrap [OF assms(1)] True Some show ?thesis
          by (simp add: circQueuePushTail_def circQueueIsFull_def)
      next
        case False
        with circQueuePushTail_unbounded [OF assms(1) True, of e] Some a show ?thesis by auto
      qed
    next
      case False
      with circQueuePushTail_bounded [OF assms(1) False, of True e] Some a assms(1) show ?thesis
        by (auto split: if_splits)
    qed
    then show "r1 = 0 \<or> r1 < 0" "cq_inv cq1" "cq_list cq1 = cq_list cq @ (if r1 = 0 then [e] else [])"
      by auto
  qed
  with Some a assms(2) show ?thesis by (auto simp: blockQueuePush_def split: if_splits)
qed

lemma blockQueueExit_ok:
  assumes "cq_inv cq" "blockQueueExit cq = Some (sig, cq')"
  shows "cq_inv cq' \<and> cq_list cq' = cq_list cq @ (if cq_count cq' = cq_count cq then [] else [None])"
proof -
  obtain r where f: "circQueueForcePushTail True cq None = Some (r, cq')"
    using assms(2) by (auto simp: blockQueueExit_def split: option.splits)
  note ok = circQueueForcePushTail_ok [OF assms(1) f]
  then have l: "length (cq_list cq') = length (cq_list cq) + (if r = 0 then 1 else 0)" by simp
  have "cq_count cq' = cq_count cq \<longleftrightarrow> r \<noteq> 0"
  proof (cases "r = 0")
    case True
    then have "unat (cq_count cq') \<noteq> unat (cq_count cq)" using l by simp
    with True show ?thesis by auto
  next
    case False
    then have "unat (cq_count cq') = unat (cq_count cq)" using l by simp
    with False show ?thesis by (simp add: unsigned_word_eqI)
  qed
  with ok show ?thesis by auto
qed

lemma circQueuePopHead_list:
  assumes "cq_inv cq" "\<not> circQueueIsEmpty cq" "circQueuePopHead cq = (e, cq')"
  shows "cq_inv cq' \<and> cq_list cq = e # cq_list cq'"
proof -
  have "cq_list cq \<noteq> []" using assms(2) by (simp add: circQueueIsEmpty_def cq_list_empty_iff)
  with circQueuePopHead_ok [OF assms(1,3)] show ?thesis by (cases "cq_list cq") auto
qed

lemma bq_step_data:
  assumes "bq_step s s'" "cq_inv (bq_cq s)" "bq_accepted s = bq_taken s @ cq_list (bq_cq s)"
  shows "cq_inv (bq_cq s') \<and> bq_accepted s' = bq_taken s' @ cq_list (bq_cq s')"
  using assms
proof (induction rule: bq_step.induct)
  case (take_pop s t e cq')
  with circQueuePopHead_list [of "bq_cq s" e cq'] show ?case by auto
next
  case (push_ok s t e cq' s')
  with blockQueuePush_ok [of "bq_cq s" e 0 True cq'] show ?case
    by (elim bq_signal_cases) auto
next
  case (push_fail s t e cq')
  with blockQueuePush_ok [of "bq_cq s" e "-1" False cq'] show ?case by auto
next
  case (exit_done s t sig cq' s')
  with blockQueueExit_ok [of "bq_cq s" sig cq'] show ?case
    by (elim bq_signal_cases) auto
qed auto

lemma bq_step_owner:
  assumes "bq_step s s'" "\<forall>t. bq_inside (bq_pc s t) \<longleftrightarrow> bq_owner s = Some t"
  shows "\<forall>t. bq_inside (bq_pc s' t) \<longleftrightarrow> bq_owner s' = Some t"
  using assms
proof (induction rule: bq_step.induct)
  case (push_ok s t e cq' s')
  then have "bq_owner s = Some t" by (metis bq_inside_simps(7))
  with push_ok have "\<forall>u. u \<noteq> t \<longrightarrow> \<not> bq_inside (bq_pc s u)" by auto
  with push_ok(3) show ?case by (auto elim!: bq_signal_cases split: if_splits)
next
  case (exit_done s t sig cq' s')
  then have "bq_owner s = Some t" by (metis bq_inside_simps(9))
  with exit_done have "\<forall>u. u \<noteq> t \<longrightarrow> \<not> bq_inside (bq_pc s u)" by auto
  with exit_done(3) show ?case by (auto elim!: bq_signal_cases split: if_splits)
next
  case (take_wait s t)
  then have "bq_owner s = Some t" by (metis bq_inside_simps(3))
  with take_wait show ?case by auto
next
  case (take_pop s t e cq')
  then have "bq_owner s = Some t" by (metis bq_inside_simps(3))
  with take_pop show ?case by auto
next
  case (push_fail s t e cq')
  then have "bq_owner s = Some t" by (metis bq_inside_simps(7))
  with push_fail show ?case by auto
next
  case (call_push s t e)
  then show ?case by (metis bq_goto_simps(1,3) bq_inside_simps(1,6) fun_upd_apply)
next
  case (call_take s t)
  then show ?case by (metis bq_goto_simps(1,3) bq_inside_simps(1,2) fun_upd_apply)
next
  case (call_exit s t)
  then show ?case by (metis bq_goto_simps(1,3) bq_inside_simps(1,8) fun_upd_apply)
next
  case (spurious s t)
  then show ?case by (metis bq_goto_simps(1,3) bq_inside_simps(4,5) fun_upd_apply)
qed auto

text \<open>
  Elements and awake takers: every step keeps the bound. A thread starts to wait only when
  the ring is empty; a push that signals adds an element and an awake taker; a pop removes
  one of each.
\<close>

definition bq_wake_inv :: "'a bq \<Rightarrow> bool" where
  "bq_wake_inv s \<longleftrightarrow> finite {t. bq_pc s t \<noteq> BIdle} \<and>
     ((\<exists>t. bq_pc s t = BWaiting) \<longrightarrow> length (cq_list (bq_cq s)) \<le> card (bq_awake s))"

lemma bq_wake_keep:
  assumes "bq_wake_inv s" "bq_pc s t \<noteq> BSignalled" "bq_pc s t \<noteq> BCheck" "p \<noteq> BWaiting"
  shows "bq_wake_inv (bq_goto t p s)"
proof -
  have f: "finite {t. bq_pc s t \<noteq> BIdle}" using assms(1) by (simp add: bq_wake_inv_def)
  have "t \<notin> bq_awake s" using assms(2,3) by (simp add: bq_awake_def)
  moreover have "card (bq_awake (bq_goto t p s)) \<ge> card (bq_awake s)"
    using calculation finite_bq_awake [OF f]
    by (cases "p = BSignalled \<or> p = BCheck") (auto simp: card_insert_if)
  moreover have "\<exists>t. bq_pc s t = BWaiting" if "\<exists>u. bq_pc (bq_goto t p s) u = BWaiting"
    using that assms(4) by (auto split: if_splits)
  ultimately show ?thesis
    using assms(1,4) finite_not_idle_goto [OF f, of t p] by (auto simp: bq_wake_inv_def)
qed

lemma bq_wake_owner [simp]: "bq_wake_inv (s\<lparr>bq_owner := ow\<rparr>) = bq_wake_inv s"
  by (simp add: bq_wake_inv_def)

lemma bq_wake_signal:
  assumes "finite {t. bq_pc s t \<noteq> BIdle}" "bq_signal s s'"
    "(\<exists>t. bq_pc s t = BWaiting) \<longrightarrow> length (cq_list (bq_cq s)) \<le> Suc (card (bq_awake s))"
  shows "bq_wake_inv s'"
  using assms(2)
proof (cases rule: bq_signal_cases)
  case (wake u)
  then have "u \<notin> bq_awake s" by (simp add: bq_awake_def)
  then have "card (bq_awake s') = Suc (card (bq_awake s))"
    using wake finite_bq_awake [OF assms(1)] by simp
  then show ?thesis
    using assms(3) wake finite_not_idle_goto [OF assms(1)] by (auto simp: bq_wake_inv_def)
qed (use assms(1) in \<open>simp add: bq_wake_inv_def\<close>)

lemma bq_step_wake:
  assumes "bq_step s s'" "bq_wake_inv s" "cq_inv (bq_cq s)"
  shows "bq_wake_inv s'"
  using assms
proof (induction rule: bq_step.induct)
  case (take_wait s t)
  then have "cq_list (bq_cq s) = []" by (simp add: circQueueIsEmpty_def cq_list_empty_iff)
  then show ?case using take_wait finite_not_idle_goto [of s t BWaiting] by (simp add: bq_wake_inv_def)
next
  case (take_pop s t e cq')
  have f: "finite {t. bq_pc s t \<noteq> BIdle}" using take_pop by (simp add: bq_wake_inv_def)
  have "t \<in> bq_awake s" using take_pop by (simp add: bq_awake_def)
  then have c: "card (bq_awake s) = Suc (card (bq_awake s - {t}))"
    using finite_bq_awake [OF f] by (metis card_Suc_Diff1)
  have w: "\<exists>t. bq_pc s t = BWaiting" if "\<exists>u. ((bq_pc s)(t := BIdle)) u = BWaiting"
    using that by (auto split: if_splits)
  have "length (cq_list (bq_cq s)) = Suc (length (cq_list cq'))"
    using circQueuePopHead_list [of "bq_cq s" e cq'] take_pop by simp
  then show ?case
    using take_pop(4) c w finite_not_idle_goto [OF f, of t BIdle] by (auto simp: bq_wake_inv_def)
next
  case (push_ok s t e cq' s')
  let ?s = "bq_goto t BIdle (s\<lparr>bq_owner := None, bq_cq := cq', bq_accepted := bq_accepted s @ [e]\<rparr>)"
  have f: "finite {t. bq_pc s t \<noteq> BIdle}" using push_ok by (simp add: bq_wake_inv_def)
  have "t \<notin> bq_awake s" using push_ok by (simp add: bq_awake_def)
  then have a: "bq_awake ?s = bq_awake s" by simp
  have w: "\<exists>t. bq_pc s t = BWaiting" if "\<exists>u. bq_pc ?s u = BWaiting"
    using that by (auto split: if_splits)
  have l: "length (cq_list cq') = Suc (length (cq_list (bq_cq s)))"
    using blockQueuePush_ok [of "bq_cq s" e 0 True cq'] push_ok by simp
  show ?case
  proof (rule bq_wake_signal [OF _ push_ok(3)])
    show "finite {t. bq_pc ?s t \<noteq> BIdle}" using finite_not_idle_goto [OF f, of t BIdle] by simp
    show "(\<exists>t. bq_pc ?s t = BWaiting) \<longrightarrow> length (cq_list (bq_cq ?s)) \<le> Suc (card (bq_awake ?s))"
      using push_ok(4) w l by (simp add: bq_wake_inv_def a)
  qed
next
  case (push_fail s t e cq')
  have l: "cq_list cq' = cq_list (bq_cq s)"
    using blockQueuePush_ok [of "bq_cq s" e "-1" False cq'] push_fail by simp
  have "bq_wake_inv (s\<lparr>bq_owner := None, bq_cq := cq'\<rparr>)"
    using push_fail(3) l by (simp add: bq_wake_inv_def)
  then show ?case by (rule bq_wake_keep) (use push_fail in auto)
next
  case (exit_done s t sig cq' s')
  let ?s = "bq_goto t BIdle (s\<lparr>bq_owner := None, bq_cq := cq',
       bq_accepted := bq_accepted s @ (if cq_count cq' = cq_count (bq_cq s) then [] else [None])\<rparr>)"
  have f: "finite {t. bq_pc s t \<noteq> BIdle}" using exit_done by (simp add: bq_wake_inv_def)
  have "t \<notin> bq_awake s" using exit_done by (simp add: bq_awake_def)
  then have a: "bq_awake ?s = bq_awake s" by simp
  have w: "\<exists>t. bq_pc s t = BWaiting" if "\<exists>u. bq_pc ?s u = BWaiting"
    using that by (auto split: if_splits)
  have l: "length (cq_list cq') \<le> Suc (length (cq_list (bq_cq s)))"
    using blockQueueExit_ok [of "bq_cq s" sig cq'] exit_done by simp
  show ?case
  proof (rule bq_wake_signal [OF _ exit_done(3)])
    show "finite {t. bq_pc ?s t \<noteq> BIdle}" using finite_not_idle_goto [OF f, of t BIdle] by simp
    show "(\<exists>t. bq_pc ?s t = BWaiting) \<longrightarrow> length (cq_list (bq_cq ?s)) \<le> Suc (card (bq_awake ?s))"
      using exit_done(4) w l by (auto simp: bq_wake_inv_def a)
  qed
next
  case (relock s t)
  have "bq_awake (bq_goto t BCheck s) = bq_awake s" using relock by (auto simp: bq_awake_def)
  then show ?case using relock finite_not_idle_goto [of s t BCheck]
    by (auto simp: bq_wake_inv_def split: if_splits)
qed (auto intro!: bq_wake_keep)

lemma bq_reach_inv:
  assumes "bq_reach cq s" "cq_inv cq" "cq_list cq = []"
  shows "cq_inv (bq_cq s) \<and> bq_accepted s = bq_taken s @ cq_list (bq_cq s) \<and>
    (\<forall>t. bq_inside (bq_pc s t) \<longleftrightarrow> bq_owner s = Some t) \<and> bq_wake_inv s"
  using assms
proof (induction rule: bq_reach.induct)
  case init
  then show ?case by (simp add: bq_init_def bq_wake_inv_def)
next
  case (step s s')
  then show ?case
    using bq_step_data [OF step(2)] bq_step_owner [OF step(2)] bq_step_wake [OF step(2)] by blast
qed

lemma bq_create_inv:
  "unat sz \<le> 2 ^ 31 \<Longrightarrow> blockQueueCreate a b c sz = Some cq \<Longrightarrow> cq_inv cq \<and> cq_list cq = []"
  using circQueueCreate_inv by (auto simp: blockQueueCreate_def split: option.splits if_splits)

subsection \<open>A run used by the witnesses\<close>

text \<open>Threads 0 and 1 wait on an empty queue, thread 2 pushes and wakes thread 0.\<close>

definition bq_cq0 :: "nat circQueue" where
  "bq_cq0 = the (blockQueueCreate True True True 2)"

lemma bq_cq0: "blockQueueCreate True True True 2 = Some bq_cq0"
  by (simp add: bq_cq0_def blockQueueCreate_def circQueueCreate_def Let_def)

lemma bq_cq0_empty: "circQueueIsEmpty bq_cq0" "cq_list bq_cq0 = []" "cq_inv bq_cq0"
  using bq_create_inv [OF _ bq_cq0] by (auto simp: circQueueIsEmpty_def cq_list_empty_iff)

lemma bq_reach_wait:
  assumes "bq_reach cq s" "bq_pc s t = BIdle" "bq_owner s = None" "circQueueIsEmpty (bq_cq s)"
  shows "bq_reach cq (bq_goto t BWaiting s)"
proof -
  have "bq_reach cq (bq_goto t BWantTake s)"
    by (rule bq_reach.step [OF assms(1) bq_step.call_take [OF assms(2)]])
  then have "bq_reach cq (bq_goto t BCheck (bq_goto t BWantTake s\<lparr>bq_owner := Some t\<rparr>))"
    by (rule bq_reach.step) (rule bq_step.lock_take, simp_all add: assms)
  then have "bq_reach cq (bq_goto t BWaiting
      (bq_goto t BCheck (bq_goto t BWantTake s\<lparr>bq_owner := Some t\<rparr>)\<lparr>bq_owner := None\<rparr>))"
    by (rule bq_reach.step) (rule bq_step.take_wait, simp_all add: assms)
  moreover have "bq_goto t BWaiting
      (bq_goto t BCheck (bq_goto t BWantTake s\<lparr>bq_owner := Some t\<rparr>)\<lparr>bq_owner := None\<rparr>) = bq_goto t BWaiting s"
    using assms(3) by (cases s) (simp add: bq_goto_def)
  ultimately show ?thesis by simp
qed

lemma bq_reach_push_wake:
  assumes "bq_reach cq s" "bq_pc s t = BIdle" "bq_owner s = None" "bq_pc s u = BWaiting"
    "blockQueuePush (bq_cq s) e = Some (0, True, cq')"
  shows "bq_reach cq (bq_goto u BSignalled (s\<lparr>bq_cq := cq', bq_accepted := bq_accepted s @ [e]\<rparr>))"
proof -
  have tu: "t \<noteq> u" using assms(2,4) by auto
  have "bq_reach cq (bq_goto t (BWantPush e) s)"
    by (rule bq_reach.step [OF assms(1) bq_step.call_push [OF assms(2)]])
  then have r: "bq_reach cq (bq_goto t (BInPush e) (bq_goto t (BWantPush e) s\<lparr>bq_owner := Some t\<rparr>))"
    (is "bq_reach cq ?s")
    by (rule bq_reach.step) (rule bq_step.lock_push, simp_all add: assms)
  let ?s' = "bq_goto t BIdle (?s\<lparr>bq_owner := None, bq_cq := cq', bq_accepted := bq_accepted ?s @ [e]\<rparr>)"
  have "bq_step ?s (bq_goto u BSignalled ?s')"
    by (rule bq_step.push_ok [where t = t and e = e and cq' = cq']) (use tu assms in \<open>auto intro!: bq_signal.wake\<close>)
  moreover have "bq_goto u BSignalled ?s'
      = bq_goto u BSignalled (s\<lparr>bq_cq := cq', bq_accepted := bq_accepted s @ [e]\<rparr>)"
    using assms(2,3) by (cases s) (auto simp: bq_goto_def fun_upd_def)
  ultimately show ?thesis using bq_reach.step [OF r] by simp
qed

lemma bq_reach_example:
  "\<exists>s. bq_reach bq_cq0 s \<and> bq_pc s 0 = BSignalled \<and> bq_pc s 1 = BWaiting \<and>
     cq_list (bq_cq s) = [Some 5] \<and> bq_accepted s = [Some 5] \<and> bq_taken s = []"
proof -
  let ?s1 = "bq_goto 0 BWaiting (bq_init bq_cq0)"
  let ?s2 = "bq_goto 1 BWaiting ?s1"
  have r1: "bq_reach bq_cq0 ?s1"
    by (rule bq_reach_wait [OF bq_reach.init]) (simp_all add: bq_init_def bq_cq0_empty)
  have r2: "bq_reach bq_cq0 ?s2"
    by (rule bq_reach_wait [OF r1]) (simp_all add: bq_init_def bq_cq0_empty)
  have "\<exists>cq'. blockQueuePush bq_cq0 (Some 5) = Some (0, True, cq')"
    by (simp add: bq_cq0_def blockQueueCreate_def circQueueCreate_def Let_def blockQueuePush_def
        circQueuePushTail_def circQueueStore_def nextpow2_def smear_def)
  then obtain cq' where p: "blockQueuePush bq_cq0 (Some 5) = Some (0, True, cq')" by blast
  have "cq_list cq' = [Some 5]"
    using blockQueuePush_ok [OF bq_cq0_empty(3) p] by (simp add: bq_cq0_empty)
  moreover have "bq_reach bq_cq0 (bq_goto 0 BSignalled (?s2\<lparr>bq_cq := cq', bq_accepted := bq_accepted ?s2 @ [Some 5]\<rparr>))"
    by (rule bq_reach_push_wake [OF r2, where t = 2]) (use p in \<open>simp_all add: bq_init_def\<close>)
  ultimately show ?thesis by (intro exI conjI) (assumption, simp_all add: bq_init_def)
qed

subsection \<open>Properties\<close>

text \<open>
  C12: in every state that threads calling blockQueuePush, blockQueueTake and blockQueueExit
  can reach, at most one thread is inside a critical section, and the elements accepted so far
  are exactly those already taken, in the order of their acceptance, followed by the ring's.
\<close>
theorem bq_mutex_fifo:
  assumes "unat sz \<le> 2 ^ 31" "blockQueueCreate a b c sz = Some cq" "bq_reach cq s"
  shows "bq_accepted s = bq_taken s @ cq_list (bq_cq s) \<and>
    (\<forall>t u. bq_inside (bq_pc s t) \<and> bq_inside (bq_pc s u) \<longrightarrow> t = u)"
  using bq_reach_inv [OF assms(3)] bq_create_inv [OF assms(1,2)] by auto

lemma bq_mutex_fifo_witness:
  "\<exists>s. bq_reach bq_cq0 s \<and> bq_pc s 1 = BWaiting \<and> bq_accepted s = [Some 5] \<and>
     bq_accepted s = bq_taken s @ cq_list (bq_cq s) \<and>
     (\<forall>t u. bq_inside (bq_pc s t) \<and> bq_inside (bq_pc s u) \<longrightarrow> t = u)"
proof -
  from bq_reach_example obtain s where s: "bq_reach bq_cq0 s" "bq_pc s 1 = BWaiting"
    "bq_accepted s = [Some 5]" by blast
  from bq_mutex_fifo [OF _ bq_cq0 s(1)] s show ?thesis by auto
qed

text \<open>
  No wake-up of the block queue is lost. Whenever a thread waits inside blockQueueTake,
  at least as many takers are awake (signalled, or at the loop test with the mutex) as the
  ring holds elements; so takers never all sleep beside a non-empty ring.
\<close>
theorem bq_no_lost_wakeup:
  assumes "unat sz \<le> 2 ^ 31" "blockQueueCreate a b c sz = Some cq" "bq_reach cq s"
    "bq_pc s t = BWaiting"
  shows "length (cq_list (bq_cq s)) \<le> card {u. bq_pc s u = BSignalled \<or> bq_pc s u = BCheck}"
  using bq_reach_inv [OF assms(3)] bq_create_inv [OF assms(1,2)] assms(4)
  by (auto simp: bq_wake_inv_def bq_awake_def)

lemma bq_no_lost_wakeup_witness:
  "\<exists>s. bq_reach bq_cq0 s \<and> bq_pc s 1 = BWaiting \<and> length (cq_list (bq_cq s)) = 1 \<and>
     1 \<le> card {u. bq_pc s u = BSignalled \<or> bq_pc s u = BCheck}"
proof -
  from bq_reach_example obtain s where s: "bq_reach bq_cq0 s" "bq_pc s 1 = BWaiting"
    "cq_list (bq_cq s) = [Some 5]" by blast
  then have l: "length (cq_list (bq_cq s)) = 1" by (simp del: length_cq_list)
  have "length (cq_list (bq_cq s)) \<le> card {u. bq_pc s u = BSignalled \<or> bq_pc s u = BCheck}"
    by (rule bq_no_lost_wakeup [OF _ bq_cq0 s(1,2)]) simp
  with s l show ?thesis by (intro exI [of _ s]) (simp del: length_cq_list)
qed

text \<open>
  BlockQueueExit does not reach a full bounded queue. With count equal to maxEntries the
  forced push of the NULL marker fails, and the ring still holds exactly the old elements: a
  consumer that stops on NULL, as the log thread does, never sees one.
\<close>
theorem block_queue_exit_lost:
  assumes "cq_inv cq" "cq_maxEntries cq \<noteq> 0" "cq_count cq = cq_maxEntries cq"
    "unat (cq_arrayElements cq) < 2 ^ 31"
  shows "\<exists>cq'. blockQueueExit cq = Some (True, cq') \<and> cq_list cq' = cq_list cq"
  using force_push_bounded_full [OF assms, of None] by (auto simp: blockQueueExit_def)

lemma block_queue_exit_lost_witness:
  "\<exists>cq'. blockQueueExit (cq_example\<lparr>cq_maxEntries := 2\<rparr>) = Some (True, cq') \<and>
     cq_list cq' = [Some 7, Some 8]"
proof -
  have i: "cq_inv (cq_example\<lparr>cq_maxEntries := 2\<rparr>)"
    using cq_example_inv by (simp add: cq_inv_def cq_example_def)
  have l: "cq_list (cq_example\<lparr>cq_maxEntries := 2\<rparr>) = [Some 7, Some 8]"
    by (simp add: cq_list_def cq_example_def window_def upt_rec)
  show ?thesis unfolding l [symmetric]
    by (rule block_queue_exit_lost [OF i]) (simp_all add: cq_example_def)
qed

end
