(* ===== verification/LockFreeQueue.thy ===== *)
theory LockFreeQueue
  imports Prelude
begin

section \<open>The lock-free ring (src/arraylockfreequeue.c)\<close>

text \<open>
  \<open>struct arrayLockFreeQueue\<close> with its four volatile uint32_t counters and its ring.
  messagequeue.c and contextqueue.c repeat the algorithm for messages and contexts (theory
  Mailbox).

  The functions \<open>arrayLockFreeQueuePush\<close> and \<open>arrayLockFreeQueuePop\<close> are a call that no
  other thread interrupts: its compare-and-swap succeeds at once, and the wait for
  maximumReadIndex either is over at once or never ends (\<open>None\<close>). They refine a bounded FIFO.

  \<open>lfq_step\<close> interleaves any number of threads at the grain of the code's shared accesses:
  one step per read of a counter, compare-and-swap, array access or atomic addition. The
  history fields record the items in the order in which their slots were reserved and the
  items taken. Theorems hold for runs in which writeIndex does not wrap around (fewer than
  2^32 - 1 pushes); what can go wrong without any wrap-around is at the end.
\<close>

record 'a lfq =
  lf_count :: u32
  lf_writeIndex :: u32
  lf_readIndex :: u32
  lf_maximumReadIndex :: u32
  lf_items :: "'a ptr list"
  lf_size :: u32

definition arrayLockFreeQueueCreate :: "u32 \<Rightarrow> 'a lfq" where
  "arrayLockFreeQueueCreate sz =
     \<lparr>lf_count = 0, lf_writeIndex = 0, lf_readIndex = 0, lf_maximumReadIndex = 0,
      lf_items = replicate (unat (nextpow2 sz)) None, lf_size = nextpow2 sz\<rparr>"

definition arrayLockFreeQueueSize :: "'a lfq \<Rightarrow> u32" where
  "arrayLockFreeQueueSize q = lf_count q"

definition countToIndex :: "'a lfq \<Rightarrow> u32 \<Rightarrow> u32" where
  "countToIndex q c = c AND (lf_size q - 1)"

subsection \<open>Calls without interference\<close>

definition arrayLockFreeQueuePush :: "'a lfq \<Rightarrow> 'a ptr \<Rightarrow> (bool \<times> 'a lfq) option" where
  "arrayLockFreeQueuePush q item =
     (let w = lf_writeIndex q; r = lf_readIndex q
      in if countToIndex q (w + 1) = countToIndex q r then Some (False, q)
         else if lf_maximumReadIndex q \<noteq> w then None
         else Some (True, q\<lparr>lf_writeIndex := w + 1,
                            lf_items := (lf_items q)[unat (countToIndex q w) := item],
                            lf_maximumReadIndex := w + 1,
                            lf_count := lf_count q + 1\<rparr>))"

definition arrayLockFreeQueuePop :: "'a lfq \<Rightarrow> 'a ptr \<times> 'a lfq" where
  "arrayLockFreeQueuePop q =
     (let r = lf_readIndex q; m = lf_maximumReadIndex q
      in if countToIndex q r = countToIndex q m then (None, q)
         else (lf_items q ! unat (countToIndex q r),
               q\<lparr>lf_readIndex := r + 1, lf_count := lf_count q - 1\<rparr>))"

text \<open>
  Between calls maximumReadIndex and writeIndex agree and the ring holds \<open>count\<close> elements
  from readIndex on, at most size - 1. The counters may wrap around.
\<close>

definition lfq_inv :: "'a lfq \<Rightarrow> bool" where
  "lfq_inv q \<longleftrightarrow> pow2_size (lf_size q) \<and> length (lf_items q) = unat (lf_size q) \<and>
     lf_maximumReadIndex q = lf_writeIndex q \<and>
     lf_writeIndex q = lf_readIndex q + lf_count q \<and> unat (lf_count q) < unat (lf_size q)"

definition lfq_list :: "'a lfq \<Rightarrow> 'a ptr list" where
  "lfq_list q = window (lf_items q) (unat (lf_readIndex q)) (unat (lf_count q)) (unat (lf_size q))"

lemma unat_countToIndex [ring_simps]:
  "pow2_size (lf_size q) \<Longrightarrow> unat (countToIndex q c) = unat c mod unat (lf_size q)"
  by (simp add: countToIndex_def ring_mask)

lemma countToIndex_eq_iff:
  "pow2_size (lf_size q) \<Longrightarrow>
    countToIndex q a = countToIndex q b \<longleftrightarrow> unat a mod unat (lf_size q) = unat b mod unat (lf_size q)"
  by (metis unat_countToIndex unsigned_word_eqI)

lemma length_lfq_list [simp]: "length (lfq_list q) = unat (lf_count q)"
  by (simp add: lfq_list_def)

lemma arrayLockFreeQueueCreate_inv:
  assumes "0 < unat sz" "unat sz \<le> 2 ^ 31"
  shows "lfq_inv (arrayLockFreeQueueCreate sz)" "lfq_list (arrayLockFreeQueueCreate sz) = []"
  using nextpow2_pow [OF assms]
  by (auto simp: lfq_inv_def lfq_list_def arrayLockFreeQueueCreate_def pow2_size_def)

lemma mod_inj_window:
  assumes "a mod k = b mod k" "(a::nat) \<le> b" "b < a + k"
  shows "a = b"
proof -
  have "k dvd b - a" using assms(1,2) by (metis mod_eq_dvd_iff_nat)
  moreover have "b - a < k" using assms(2,3) by linarith
  ultimately have "b - a = 0" using dvd_imp_le [of k "b - a"] by (cases "b - a = 0") auto
  with assms(2) show ?thesis by simp
qed

text \<open>Sums of counters modulo the size, with wrap-around of the 32-bit addition.\<close>

lemma unat_plus_mod [ring_simps]:
  fixes a b :: u32
  assumes "pow2_size n"
  shows "unat (a + b) mod unat n = (unat a + unat b) mod unat n"
proof -
  from assms obtain k where k: "k < 32" "unat n = 2 ^ k" by (auto simp: pow2_size_def)
  have "(2::nat) ^ k dvd 2 ^ 32" using k by (intro le_imp_power_dvd) auto
  then have "((unat a + unat b) mod 2 ^ 32) mod 2 ^ k = (unat a + unat b) mod 2 ^ k"
    by (simp only: mod_mod_cancel)
  then show ?thesis by (simp add: k(2) unat_word_ariths)
qed

lemma lfq_full_iff:
  assumes "lfq_inv q"
  shows "countToIndex q (lf_writeIndex q + 1) = countToIndex q (lf_readIndex q)
    \<longleftrightarrow> Suc (unat (lf_count q)) = unat (lf_size q)"
proof -
  have p: "pow2_size (lf_size q)" and c: "unat (lf_count q) < unat (lf_size q)"
    and w: "lf_writeIndex q = lf_readIndex q + lf_count q" using assms by (auto simp: lfq_inv_def)
  let ?k = "unat (lf_size q)" and ?r = "unat (lf_readIndex q)" and ?c = "unat (lf_count q)"
  have "unat (lf_writeIndex q + 1) mod ?k = (?r + Suc ?c) mod ?k"
  proof -
    have "unat (lf_writeIndex q + 1) mod ?k = Suc (unat (lf_readIndex q + lf_count q)) mod ?k"
      using p by (simp add: w unat_plus1_mod)
    also have "\<dots> = Suc (unat (lf_readIndex q + lf_count q) mod ?k) mod ?k" by (simp add: mod_Suc_eq)
    also have "\<dots> = (?r + Suc ?c) mod ?k" using p by (simp add: unat_plus_mod mod_Suc_eq)
    finally show ?thesis .
  qed
  then have "countToIndex q (lf_writeIndex q + 1) = countToIndex q (lf_readIndex q)
      \<longleftrightarrow> (?r + Suc ?c) mod ?k = ?r mod ?k"
    by (simp add: countToIndex_eq_iff [OF p])
  also have "\<dots> \<longleftrightarrow> Suc ?c = ?k"
  proof
    assume "(?r + Suc ?c) mod ?k = ?r mod ?k"
    then have "?k dvd Suc ?c" by (metis add_diff_cancel_left' le_add1 mod_eq_dvd_iff_nat)
    with c show "Suc ?c = ?k" by (simp add: dvd_imp_le le_antisym)
  next
    assume "Suc ?c = ?k"
    then have "?r + Suc ?c = ?r + ?k" by simp
    then show "(?r + Suc ?c) mod ?k = ?r mod ?k" by (metis mod_add_self2)
  qed
  finally show ?thesis .
qed

lemma lfq_empty_iff:
  assumes "lfq_inv q"
  shows "countToIndex q (lf_readIndex q) = countToIndex q (lf_maximumReadIndex q) \<longleftrightarrow> lf_count q = 0"
proof -
  have p: "pow2_size (lf_size q)" and c: "unat (lf_count q) < unat (lf_size q)"
    and w: "lf_maximumReadIndex q = lf_readIndex q + lf_count q" using assms by (auto simp: lfq_inv_def)
  let ?k = "unat (lf_size q)" and ?r = "unat (lf_readIndex q)" and ?c = "unat (lf_count q)"
  have "countToIndex q (lf_readIndex q) = countToIndex q (lf_maximumReadIndex q)
      \<longleftrightarrow> ?r mod ?k = (?r + ?c) mod ?k"
    using p by (simp add: countToIndex_eq_iff [OF p] w unat_plus_mod)
  also have "\<dots> \<longleftrightarrow> ?c = 0"
    using mod_inj_window [of ?r ?k "?r + ?c"] c by auto
  finally show ?thesis by (simp add: unat_eq_zero)
qed

lemma lfq_push_room:
  assumes "lfq_inv q" "Suc (unat (lf_count q)) < unat (lf_size q)"
  shows "\<exists>q'. arrayLockFreeQueuePush q e = Some (True, q') \<and> lfq_inv q' \<and>
    lfq_list q' = lfq_list q @ [e] \<and> lf_size q' = lf_size q"
proof -
  have p: "pow2_size (lf_size q)" "length (lf_items q) = unat (lf_size q)"
    "lf_maximumReadIndex q = lf_writeIndex q" "lf_writeIndex q = lf_readIndex q + lf_count q"
    "unat (lf_count q) < unat (lf_size q)" using assms(1) by (auto simp: lfq_inv_def)
  let ?k = "unat (lf_size q)"
  let ?q = "q\<lparr>lf_writeIndex := lf_writeIndex q + 1,
              lf_items := (lf_items q)[unat (countToIndex q (lf_writeIndex q)) := e],
              lf_maximumReadIndex := lf_writeIndex q + 1, lf_count := lf_count q + 1\<rparr>"
  have c: "unat (lf_count q + 1) = Suc (unat (lf_count q))" by (rule unat_Suc32 [OF p(5)])
  have "arrayLockFreeQueuePush q e = Some (True, ?q)"
    using assms lfq_full_iff [OF assms(1)] p(3) by (simp add: arrayLockFreeQueuePush_def Let_def)
  moreover have "lfq_inv ?q" using p c assms(2) by (simp add: lfq_inv_def)
  moreover have "lfq_list ?q = lfq_list q @ [e]"
    using window_push [of "unat (lf_count q)" ?k "lf_items q" "unat (lf_writeIndex q)" "unat (lf_readIndex q)" e]
      p c by (simp add: lfq_list_def unat_countToIndex unat_plus_mod)
  ultimately show ?thesis by simp
qed

lemma lfq_push_full:
  "lfq_inv q \<Longrightarrow> Suc (unat (lf_count q)) = unat (lf_size q) \<Longrightarrow> arrayLockFreeQueuePush q e = Some (False, q)"
  by (simp add: arrayLockFreeQueuePush_def lfq_full_iff)

lemma lfq_pop_ok:
  assumes "lfq_inv q" "arrayLockFreeQueuePop q = (r, q')"
  shows "lfq_inv q' \<and> lf_size q' = lf_size q \<and>
    (case lfq_list q of [] \<Rightarrow> r = None \<and> q' = q | x # xs \<Rightarrow> r = x \<and> lfq_list q' = xs)"
proof (cases "lf_count q = 0")
  case True
  then have "lfq_list q = []" by (simp add: lfq_list_def)
  with True assms lfq_empty_iff [OF assms(1)] show ?thesis by (auto simp: arrayLockFreeQueuePop_def)
next
  case False
  have p: "pow2_size (lf_size q)" "lf_writeIndex q = lf_readIndex q + lf_count q"
    "unat (lf_count q) < unat (lf_size q)" using assms(1) by (auto simp: lfq_inv_def)
  obtain n where n: "unat (lf_count q) = Suc n" using False by (metis not0_implies_Suc unat_eq_zero)
  have c: "unat (lf_count q - 1) = n" using n False by (simp add: unat_minus_one)
  have q': "q' = q\<lparr>lf_readIndex := lf_readIndex q + 1, lf_count := lf_count q - 1\<rparr>"
    and r: "r = lf_items q ! unat (countToIndex q (lf_readIndex q))"
    using assms(2) False lfq_empty_iff [OF assms(1)] by (auto simp: arrayLockFreeQueuePop_def Let_def)
  have l: "lfq_list q = r # window (lf_items q) (Suc (unat (lf_readIndex q))) n (unat (lf_size q))"
    using p by (simp add: lfq_list_def n window_Suc_left r unat_countToIndex)
  have "lfq_list q' = window (lf_items q) (Suc (unat (lf_readIndex q))) n (unat (lf_size q))"
    using p by (simp add: lfq_list_def q' c) (rule window_cong_mod, simp add: unat_plus1_mod)
  moreover have "lfq_inv q'" using assms(1) n c by (simp add: lfq_inv_def q')
  ultimately show ?thesis by (simp add: l q')
qed

text \<open>
  As a queue of non-NULL items: a NULL result is the empty queue, so NULL must not be pushed.
\<close>

definition lfq_enq :: "'a \<Rightarrow> 'a lfq \<Rightarrow> bool \<times> 'a lfq" where
  "lfq_enq e q = (case arrayLockFreeQueuePush q (Some e) of None \<Rightarrow> (False, q) | Some r \<Rightarrow> r)"

definition lfq_contents :: "'a lfq \<Rightarrow> 'a list" where
  "lfq_contents q = map the (lfq_list q)"

definition lfq_room :: "'a lfq \<Rightarrow> bool" where
  "lfq_room q \<longleftrightarrow> Suc (unat (lf_count q)) < unat (lf_size q)"

definition lfq_wf :: "'a lfq \<Rightarrow> bool" where
  "lfq_wf q \<longleftrightarrow> lfq_inv q \<and> None \<notin> set (lfq_list q)"

lemma lfq_enq_room:
  assumes "lfq_wf q" "lfq_room q" "lfq_enq e q = (ok, q')"
  shows "ok \<and> lfq_contents q' = lfq_contents q @ [e] \<and> lfq_wf q' \<and> lf_size q' = lf_size q"
  using assms lfq_push_room [of q "Some e"]
  by (auto simp: lfq_wf_def lfq_room_def lfq_enq_def lfq_contents_def)

lemma lfq_enq_full:
  assumes "lfq_wf q" "\<not> lfq_room q" "lfq_enq e q = (ok, q')"
  shows "\<not> ok \<and> q' = q"
proof -
  have "Suc (unat (lf_count q)) = unat (lf_size q)"
    using assms(1,2) by (auto simp: lfq_wf_def lfq_inv_def lfq_room_def)
  with assms lfq_push_full [of q "Some e"] show ?thesis by (simp add: lfq_wf_def lfq_enq_def)
qed

lemma lfq_deq_ok:
  assumes "lfq_wf q" "arrayLockFreeQueuePop q = (r, q')"
  shows "lfq_wf q' \<and> lf_size q' = lf_size q \<and>
    (case lfq_contents q of [] \<Rightarrow> r = None \<and> q' = q | x # xs \<Rightarrow> r = Some x \<and> lfq_contents q' = xs)"
  using assms lfq_pop_ok [of q r q']
  by (cases "lfq_list q") (auto simp: lfq_wf_def lfq_contents_def)

interpretation lfq: fifo lfq_enq arrayLockFreeQueuePop lfq_contents lfq_room lfq_wf
proof unfold_locales
  fix q q' :: "'a lfq" and e ok r x xs
  show "lfq_wf q \<Longrightarrow> lfq_room q \<Longrightarrow> lfq_enq e q = (ok, q') \<Longrightarrow> ok \<and> lfq_contents q' = lfq_contents q @ [e]"
    using lfq_enq_room [of q e ok q'] by blast
  show "lfq_wf q \<Longrightarrow> \<not> lfq_room q \<Longrightarrow> lfq_enq e q = (ok, q') \<Longrightarrow> \<not> ok \<and> lfq_contents q' = lfq_contents q"
    using lfq_enq_full [of q e ok q'] by blast
  show "lfq_wf q \<Longrightarrow> lfq_contents q = [] \<Longrightarrow> arrayLockFreeQueuePop q = (r, q') \<Longrightarrow> r = None \<and> lfq_contents q' = []"
    using lfq_deq_ok [of q r q'] by simp
  show "lfq_wf q \<Longrightarrow> lfq_contents q = x # xs \<Longrightarrow> arrayLockFreeQueuePop q = (r, q') \<Longrightarrow>
      r = Some x \<and> lfq_contents q' = xs"
    using lfq_deq_ok [of q r q'] by simp
  show "lfq_wf q \<Longrightarrow> lfq_enq e q = (ok, q') \<Longrightarrow> lfq_wf q'"
    using lfq_enq_room [of q e ok q'] lfq_enq_full [of q e ok q'] by blast
  show "lfq_wf q \<Longrightarrow> arrayLockFreeQueuePop q = (r, q') \<Longrightarrow> lfq_wf q'"
    using lfq_deq_ok [of q r q'] by blast
qed

subsection \<open>Interleaved calls\<close>

text \<open>Where a thread is inside arrayLockFreeQueuePush or arrayLockFreeQueuePop.\<close>

datatype 'a lf_pc =
    LIdle
  | PushStart "'a ptr"                     \<comment> \<open>at the head of the do loop\<close>
  | PushW "'a ptr" u32                     \<comment> \<open>currentWriteIndex read\<close>
  | PushWR "'a ptr" u32 u32                \<comment> \<open>currentReadIndex read\<close>
  | PushStore "'a ptr" u32                 \<comment> \<open>writeIndex swapped, slot not yet written\<close>
  | PushPub "'a ptr" u32                   \<comment> \<open>slot written, waiting for maximumReadIndex\<close>
  | PushCount                              \<comment> \<open>maximumReadIndex swapped, at AtomicAdd\<close>
  | PushDone bool
  | PopStart
  | PopR u32                               \<comment> \<open>currentReadIndex read\<close>
  | PopRM u32 u32                          \<comment> \<open>currentMaximumReadIndex read\<close>
  | PopItem u32 "'a ptr"                   \<comment> \<open>slot read, at the swap of readIndex\<close>
  | PopCount "'a ptr"                      \<comment> \<open>readIndex swapped, at AtomicSub\<close>
  | PopDone "'a ptr"

record 'a lfs =
  lf_q :: "'a lfq"
  lf_pc :: "nat \<Rightarrow> 'a lf_pc"
  lf_hist :: "'a ptr list"     \<comment> \<open>history: items by reserved slot\<close>
  lf_popped :: "'a ptr list"   \<comment> \<open>history: items by successful swap of readIndex\<close>

definition lf_init :: "'a lfq \<Rightarrow> 'a lfs" where
  "lf_init q = \<lparr>lf_q = q, lf_pc = (\<lambda>_. LIdle), lf_hist = [], lf_popped = []\<rparr>"

definition lf_goto :: "nat \<Rightarrow> 'a lf_pc \<Rightarrow> 'a lfs \<Rightarrow> 'a lfs" where
  "lf_goto t p s = s\<lparr>lf_pc := (lf_pc s)(t := p)\<rparr>"

inductive lfq_step :: "'a lfs \<Rightarrow> 'a lfs \<Rightarrow> bool" where
  push_call: "lf_pc s t = LIdle \<Longrightarrow> lfq_step s (lf_goto t (PushStart e) s)"
| push_read_w: "lf_pc s t = PushStart e \<Longrightarrow> lfq_step s (lf_goto t (PushW e (lf_writeIndex (lf_q s))) s)"
| push_read_r: "lf_pc s t = PushW e w \<Longrightarrow> lfq_step s (lf_goto t (PushWR e w (lf_readIndex (lf_q s))) s)"
| push_full: "lf_pc s t = PushWR e w r \<Longrightarrow>
    countToIndex (lf_q s) (w + 1) = countToIndex (lf_q s) r \<Longrightarrow>
    lfq_step s (lf_goto t (PushDone False) s)"
| push_cas_ok: "lf_pc s t = PushWR e w r \<Longrightarrow>
    countToIndex (lf_q s) (w + 1) \<noteq> countToIndex (lf_q s) r \<Longrightarrow> lf_writeIndex (lf_q s) = w \<Longrightarrow>
    lfq_step s (lf_goto t (PushStore e w)
      (s\<lparr>lf_q := (lf_q s)\<lparr>lf_writeIndex := w + 1\<rparr>, lf_hist := lf_hist s @ [e]\<rparr>))"
| push_cas_fail: "lf_pc s t = PushWR e w r \<Longrightarrow>
    countToIndex (lf_q s) (w + 1) \<noteq> countToIndex (lf_q s) r \<Longrightarrow> lf_writeIndex (lf_q s) \<noteq> w \<Longrightarrow>
    lfq_step s (lf_goto t (PushStart e) s)"
| push_store: "lf_pc s t = PushStore e w \<Longrightarrow>
    lfq_step s (lf_goto t (PushPub e w)
      (s\<lparr>lf_q := (lf_q s)\<lparr>lf_items := (lf_items (lf_q s))[unat (countToIndex (lf_q s) w) := e]\<rparr>\<rparr>))"
| push_publish: "lf_pc s t = PushPub e w \<Longrightarrow> lf_maximumReadIndex (lf_q s) = w \<Longrightarrow>
    lfq_step s (lf_goto t PushCount (s\<lparr>lf_q := (lf_q s)\<lparr>lf_maximumReadIndex := w + 1\<rparr>\<rparr>))"
| push_spin: "lf_pc s t = PushPub e w \<Longrightarrow> lf_maximumReadIndex (lf_q s) \<noteq> w \<Longrightarrow> lfq_step s s"
| push_count: "lf_pc s t = PushCount \<Longrightarrow>
    lfq_step s (lf_goto t (PushDone True) (s\<lparr>lf_q := (lf_q s)\<lparr>lf_count := lf_count (lf_q s) + 1\<rparr>\<rparr>))"
| push_return: "lf_pc s t = PushDone b \<Longrightarrow> lfq_step s (lf_goto t LIdle s)"
| pop_call: "lf_pc s t = LIdle \<Longrightarrow> lfq_step s (lf_goto t PopStart s)"
| pop_read_r: "lf_pc s t = PopStart \<Longrightarrow> lfq_step s (lf_goto t (PopR (lf_readIndex (lf_q s))) s)"
| pop_read_m: "lf_pc s t = PopR r \<Longrightarrow> lfq_step s (lf_goto t (PopRM r (lf_maximumReadIndex (lf_q s))) s)"
| pop_empty: "lf_pc s t = PopRM r m \<Longrightarrow> countToIndex (lf_q s) r = countToIndex (lf_q s) m \<Longrightarrow>
    lfq_step s (lf_goto t (PopDone None) s)"
| pop_item: "lf_pc s t = PopRM r m \<Longrightarrow> countToIndex (lf_q s) r \<noteq> countToIndex (lf_q s) m \<Longrightarrow>
    lfq_step s (lf_goto t (PopItem r (lf_items (lf_q s) ! unat (countToIndex (lf_q s) r))) s)"
| pop_cas_ok: "lf_pc s t = PopItem r x \<Longrightarrow> lf_readIndex (lf_q s) = r \<Longrightarrow>
    lfq_step s (lf_goto t (PopCount x)
      (s\<lparr>lf_q := (lf_q s)\<lparr>lf_readIndex := r + 1\<rparr>, lf_popped := lf_popped s @ [x]\<rparr>))"
| pop_cas_fail: "lf_pc s t = PopItem r x \<Longrightarrow> lf_readIndex (lf_q s) \<noteq> r \<Longrightarrow>
    lfq_step s (lf_goto t PopStart s)"
| pop_count: "lf_pc s t = PopCount x \<Longrightarrow>
    lfq_step s (lf_goto t (PopDone x) (s\<lparr>lf_q := (lf_q s)\<lparr>lf_count := lf_count (lf_q s) - 1\<rparr>\<rparr>))"
| pop_return: "lf_pc s t = PopDone x \<Longrightarrow> lfq_step s (lf_goto t LIdle s)"

text \<open>Runs from a created queue in which writeIndex has not wrapped around.\<close>

inductive lfq_run :: "u32 \<Rightarrow> 'a lfs \<Rightarrow> bool" for sz where
  start: "lfq_run sz (lf_init (arrayLockFreeQueueCreate sz))"
| move: "lfq_run sz s \<Longrightarrow> unat (lf_writeIndex (lf_q s)) < 2 ^ 32 - 1 \<Longrightarrow> lfq_step s s' \<Longrightarrow> lfq_run sz s'"

subsection \<open>The invariant of interleaved calls\<close>

text \<open>The slot a pusher has reserved and not yet published.\<close>

fun lf_owns :: "'a lf_pc \<Rightarrow> nat option" where
  "lf_owns (PushStore e w) = Some (unat w)"
| "lf_owns (PushPub e w) = Some (unat w)"
| "lf_owns _ = None"

text \<open>What a thread's local variables say about the shared state.\<close>

fun lf_local :: "'a lfs \<Rightarrow> 'a lf_pc \<Rightarrow> bool" where
  "lf_local s (PushW e w) = (unat w \<le> unat (lf_writeIndex (lf_q s)))"
| "lf_local s (PushWR e w r) = (unat w \<le> unat (lf_writeIndex (lf_q s)) \<and>
     unat r \<le> unat (lf_readIndex (lf_q s)) \<and> unat w < unat r + unat (lf_size (lf_q s)))"
| "lf_local s (PushStore e w) = (unat (lf_maximumReadIndex (lf_q s)) \<le> unat w \<and>
     unat w < unat (lf_writeIndex (lf_q s)) \<and> lf_hist s ! unat w = e)"
| "lf_local s (PushPub e w) = (unat (lf_maximumReadIndex (lf_q s)) \<le> unat w \<and>
     unat w < unat (lf_writeIndex (lf_q s)) \<and> lf_hist s ! unat w = e \<and>
     lf_items (lf_q s) ! (unat w mod unat (lf_size (lf_q s))) = e)"
| "lf_local s (PopR r) = (unat r \<le> unat (lf_readIndex (lf_q s)))"
| "lf_local s (PopRM r m) = (unat r \<le> unat (lf_readIndex (lf_q s)) \<and> unat r \<le> unat m \<and>
     unat m \<le> unat (lf_maximumReadIndex (lf_q s)))"
| "lf_local s (PopItem r x) = (unat r \<le> unat (lf_readIndex (lf_q s)) \<and>
     (unat r = unat (lf_readIndex (lf_q s)) \<longrightarrow>
        unat r < unat (lf_maximumReadIndex (lf_q s)) \<and> x = lf_hist s ! unat r))"
| "lf_local s _ = True"

text \<open>The shared state: the counters in order, and the published window of the ring.\<close>

definition lf_shared :: "'a lfs \<Rightarrow> bool" where
  "lf_shared s \<longleftrightarrow>
     pow2_size (lf_size (lf_q s)) \<and> length (lf_items (lf_q s)) = unat (lf_size (lf_q s)) \<and>
     unat (lf_readIndex (lf_q s)) \<le> unat (lf_maximumReadIndex (lf_q s)) \<and>
     unat (lf_maximumReadIndex (lf_q s)) \<le> unat (lf_writeIndex (lf_q s)) \<and>
     unat (lf_writeIndex (lf_q s)) < unat (lf_readIndex (lf_q s)) + unat (lf_size (lf_q s)) \<and>
     length (lf_hist s) = unat (lf_writeIndex (lf_q s)) \<and>
     lf_popped s = take (unat (lf_readIndex (lf_q s))) (lf_hist s) \<and>
     (\<forall>i. unat (lf_readIndex (lf_q s)) \<le> i \<longrightarrow> i < unat (lf_maximumReadIndex (lf_q s)) \<longrightarrow>
        lf_items (lf_q s) ! (i mod unat (lf_size (lf_q s))) = lf_hist s ! i)"

definition lf_owned :: "'a lfs \<Rightarrow> bool" where
  "lf_owned s \<longleftrightarrow>
     (\<forall>t u i. lf_owns (lf_pc s t) = Some i \<longrightarrow> lf_owns (lf_pc s u) = Some i \<longrightarrow> t = u) \<and>
     (\<forall>i. unat (lf_maximumReadIndex (lf_q s)) \<le> i \<longrightarrow> i < unat (lf_writeIndex (lf_q s)) \<longrightarrow>
        (\<exists>t. lf_owns (lf_pc s t) = Some i))"

definition lf_inv :: "'a lfs \<Rightarrow> bool" where
  "lf_inv s \<longleftrightarrow> lf_shared s \<and> lf_owned s \<and> (\<forall>t. lf_local s (lf_pc s t))"

lemma lf_goto_simps [simp]:
  "lf_q (lf_goto t p s) = lf_q s" "lf_pc (lf_goto t p s) = (lf_pc s)(t := p)"
  "lf_hist (lf_goto t p s) = lf_hist s" "lf_popped (lf_goto t p s) = lf_popped s"
  by (simp_all add: lf_goto_def)

lemma lf_local_goto [simp]: "lf_local (lf_goto t p s) p' = lf_local s p'"
  by (cases p') simp_all

lemma lf_shared_goto [simp]: "lf_shared (lf_goto t p s) = lf_shared s"
  by (simp add: lf_shared_def)

lemma lf_inv_start:
  assumes "0 < unat sz" "unat sz \<le> 2 ^ 31"
  shows "lf_inv (lf_init (arrayLockFreeQueueCreate sz))"
  using nextpow2_pow [OF assms]
  by (auto simp: lf_inv_def lf_shared_def lf_owned_def lf_init_def arrayLockFreeQueueCreate_def pow2_size_def)

text \<open>Steps that change a thread's locals only, and steps of the element count.\<close>

lemma lf_inv_local:
  assumes "lf_inv s" "lf_owns (lf_pc s t) = None" "lf_owns p = None" "lf_local s p"
  shows "lf_inv (lf_goto t p s)"
proof -
  have own: "lf_owns (((lf_pc s)(t := p)) u) = lf_owns (lf_pc s u)" for u
    using assms(2,3) by simp
  have "lf_owned (lf_goto t p s)"
    using assms(1) unfolding lf_inv_def lf_owned_def lf_goto_simps own by blast
  with assms show ?thesis by (simp add: lf_inv_def)
qed

lemma lf_local_count [simp]: "lf_local (s\<lparr>lf_q := (lf_q s)\<lparr>lf_count := c\<rparr>\<rparr>) p = lf_local s p"
  by (cases p) simp_all

lemma lf_inv_count [simp]: "lf_inv (s\<lparr>lf_q := (lf_q s)\<lparr>lf_count := c\<rparr>\<rparr>) = lf_inv s"
  by (simp add: lf_inv_def lf_shared_def lf_owned_def)

lemma lf_shared_lt:
  "lf_shared s \<Longrightarrow> unat (lf_maximumReadIndex (lf_q s)) < unat (lf_readIndex (lf_q s)) + unat (lf_size (lf_q s))"
  by (auto simp: lf_shared_def)

text \<open>A pusher reserves the slot of writeIndex.\<close>

lemma lf_inv_push_cas:
  assumes inv: "lf_inv s" and pc: "lf_pc s t = PushWR e w r"
    and ne: "countToIndex (lf_q s) (w + 1) \<noteq> countToIndex (lf_q s) r"
    and w: "lf_writeIndex (lf_q s) = w" and nw: "unat (lf_writeIndex (lf_q s)) < 2 ^ 32 - 1"
  shows "lf_inv (lf_goto t (PushStore e w) (s\<lparr>lf_q := (lf_q s)\<lparr>lf_writeIndex := w + 1\<rparr>, lf_hist := lf_hist s @ [e]\<rparr>))"
    (is "lf_inv ?s'")
proof -
  have sh: "lf_shared s" and ow: "lf_owned s" and lo: "\<forall>t. lf_local s (lf_pc s t)"
    using inv by (auto simp: lf_inv_def)
  have p: "pow2_size (lf_size (lf_q s))" using sh by (simp add: lf_shared_def)
  have len: "length (lf_hist s) = unat w" using sh w by (simp add: lf_shared_def)
  have w1: "unat (w + 1) = Suc (unat w)" using nw w by (simp add: unat_word_ariths)
  have "lf_local s (PushWR e w r)" using lo pc by metis
  then have r: "unat r \<le> unat (lf_readIndex (lf_q s))" "unat w < unat r + unat (lf_size (lf_q s))" by auto
  have "Suc (unat w) \<noteq> unat r + unat (lf_size (lf_q s))"
    using ne p w1 by (auto simp: countToIndex_eq_iff)
  with r have bound: "Suc (unat w) < unat (lf_readIndex (lf_q s)) + unat (lf_size (lf_q s))" by linarith
  have "lf_shared ?s'"
    using sh w w1 bound len by (auto simp: lf_shared_def nth_append)
  moreover have "lf_local ?s' (lf_pc ?s' u)" for u
  proof (cases "u = t")
    case True
    have "unat (lf_maximumReadIndex (lf_q s)) \<le> unat w" using sh w by (simp add: lf_shared_def)
    with True w1 len show ?thesis by (simp add: nth_append)
  next
    case False
    have "lf_local s (lf_pc s u)" using lo by blast
    moreover have "unat (lf_maximumReadIndex (lf_q s)) \<le> unat w" using sh w by (simp add: lf_shared_def)
    ultimately show ?thesis using False w w1 len by (cases "lf_pc s u") (auto simp: nth_append)
  qed
  moreover have "lf_owned ?s'"
    unfolding lf_owned_def
  proof (intro conjI allI impI)
    have fresh: "lf_owns (lf_pc s u) \<noteq> Some (unat w)" for u
    proof
      assume o: "lf_owns (lf_pc s u) = Some (unat w)"
      have "lf_local s (lf_pc s u)" using lo by blast
      with o w show False by (cases "lf_pc s u") auto
    qed
    fix u v i
    assume "lf_owns (lf_pc ?s' u) = Some i" "lf_owns (lf_pc ?s' v) = Some i"
    then show "u = v" using fresh ow unfolding lf_owned_def by (auto split: if_splits)
  next
    fix i assume i: "unat (lf_maximumReadIndex (lf_q ?s')) \<le> i" "i < unat (lf_writeIndex (lf_q ?s'))"
    show "\<exists>u. lf_owns (lf_pc ?s' u) = Some i"
    proof (cases "i = unat w")
      case True
      then show ?thesis by (intro exI [of _ t]) simp
    next
      case False
      then obtain u where u: "lf_owns (lf_pc s u) = Some i"
        using ow i w w1 unfolding lf_owned_def by auto
      with pc have "u \<noteq> t" by auto
      with u show ?thesis by (intro exI [of _ u]) simp
    qed
  qed
  ultimately show ?thesis by (simp add: lf_inv_def)
qed

text \<open>A pusher writes its slot: slots of different reservations never meet in the ring.\<close>

lemma lf_inv_push_store:
  assumes inv: "lf_inv s" and pc: "lf_pc s t = PushStore e w"
  shows "lf_inv (lf_goto t (PushPub e w)
    (s\<lparr>lf_q := (lf_q s)\<lparr>lf_items := (lf_items (lf_q s))[unat (countToIndex (lf_q s) w) := e]\<rparr>\<rparr>))"
    (is "lf_inv ?s'")
proof -
  have sh: "lf_shared s" and ow: "lf_owned s" and lo: "\<forall>t. lf_local s (lf_pc s t)"
    using inv by (auto simp: lf_inv_def)
  have p: "pow2_size (lf_size (lf_q s))" "length (lf_items (lf_q s)) = unat (lf_size (lf_q s))"
    using sh by (auto simp: lf_shared_def)
  let ?k = "unat (lf_size (lf_q s))" and ?R = "unat (lf_readIndex (lf_q s))"
    and ?M = "unat (lf_maximumReadIndex (lf_q s))" and ?W = "unat (lf_writeIndex (lf_q s))"
  have l: "lf_local s (PushStore e w)" using lo pc by metis
  have RMW: "?R \<le> ?M" "?M \<le> ?W" "?W < ?R + ?k" using sh by (auto simp: lf_shared_def)
  have other: "(lf_items (lf_q s))[unat w mod ?k := e] ! (i mod ?k) = lf_items (lf_q s) ! (i mod ?k)"
    if "?R \<le> i" "i < ?W" "i \<noteq> unat w" for i
  proof -
    have "i mod ?k \<noteq> unat w mod ?k"
      using mod_inj_window [of i ?k "unat w"] mod_inj_window [of "unat w" ?k i] that l RMW
      by (cases "i \<le> unat w") auto
    then show ?thesis by simp
  qed
  have "lf_shared ?s'"
    using sh l RMW other by (auto simp: lf_shared_def unat_countToIndex)
  moreover have "lf_local ?s' (lf_pc ?s' u)" for u
  proof (cases "u = t")
    case True
    with l p show ?thesis by (simp add: unat_countToIndex)
  next
    case False
    have lu: "lf_local s (lf_pc s u)" using lo by blast
    have "i \<noteq> unat w" if "lf_owns (lf_pc s u) = Some i" for i
      using that False ow pc unfolding lf_owned_def by (metis lf_owns.simps(1))
    with lu False other RMW p show ?thesis by (cases "lf_pc s u") (auto simp: unat_countToIndex)
  qed
  moreover have "lf_owns (lf_pc ?s' u) = lf_owns (lf_pc s u)" for u using pc by simp
  then have "lf_owned ?s'" using ow unfolding lf_owned_def by simp
  ultimately show ?thesis by (simp add: lf_inv_def)
qed

text \<open>The pusher of slot maximumReadIndex publishes it.\<close>

lemma lf_inv_push_publish:
  assumes inv: "lf_inv s" and pc: "lf_pc s t = PushPub e w" and m: "lf_maximumReadIndex (lf_q s) = w"
  shows "lf_inv (lf_goto t PushCount (s\<lparr>lf_q := (lf_q s)\<lparr>lf_maximumReadIndex := w + 1\<rparr>\<rparr>))"
    (is "lf_inv ?s'")
proof -
  have sh: "lf_shared s" and ow: "lf_owned s" and lo: "\<forall>t. lf_local s (lf_pc s t)"
    using inv by (auto simp: lf_inv_def)
  have l: "lf_local s (PushPub e w)" using lo pc by metis
  have w1: "unat (w + 1) = Suc (unat w)" using l by (intro unat_Suc32 [of w "lf_writeIndex (lf_q s)"]) simp
  have "lf_shared ?s'"
    using sh l m w1 by (auto simp: lf_shared_def less_Suc_eq)
  moreover have "lf_local ?s' (lf_pc ?s' u)" for u
  proof (cases "u = t")
    case False
    have lu: "lf_local s (lf_pc s u)" using lo by blast
    have "i \<noteq> unat w" if "lf_owns (lf_pc s u) = Some i" for i
      using that False ow pc unfolding lf_owned_def by (metis lf_owns.simps(2))
    with lu False m w1 show ?thesis by (cases "lf_pc s u") auto
  qed simp
  moreover have "lf_owned ?s'"
    unfolding lf_owned_def
  proof (intro conjI allI impI)
    fix u v i
    assume "lf_owns (lf_pc ?s' u) = Some i" "lf_owns (lf_pc ?s' v) = Some i"
    then show "u = v" using ow unfolding lf_owned_def by (auto split: if_splits)
  next
    fix i assume i: "unat (lf_maximumReadIndex (lf_q ?s')) \<le> i" "i < unat (lf_writeIndex (lf_q ?s'))"
    then have "unat (lf_maximumReadIndex (lf_q s)) \<le> i" "i < unat (lf_writeIndex (lf_q s))"
      using m w1 by simp_all
    then obtain u where u: "lf_owns (lf_pc s u) = Some i"
      using ow unfolding lf_owned_def by blast
    have "i \<noteq> unat w" using i w1 by simp
    with u pc have "u \<noteq> t" by auto
    with u show "\<exists>u. lf_owns (lf_pc ?s' u) = Some i" by (intro exI [of _ u]) simp
  qed
  ultimately show ?thesis by (simp add: lf_inv_def)
qed

text \<open>A popper takes the slot of readIndex: the item it read is the one pushed there.\<close>

lemma lf_inv_pop_cas:
  assumes inv: "lf_inv s" and pc: "lf_pc s t = PopItem r x" and r: "lf_readIndex (lf_q s) = r"
  shows "lf_inv (lf_goto t (PopCount x)
      (s\<lparr>lf_q := (lf_q s)\<lparr>lf_readIndex := r + 1\<rparr>, lf_popped := lf_popped s @ [x]\<rparr>))" (is "lf_inv ?s'")
proof -
  have sh: "lf_shared s" and ow: "lf_owned s" and lo: "\<forall>t. lf_local s (lf_pc s t)"
    using inv by (auto simp: lf_inv_def)
  have l: "lf_local s (PopItem r x)" using lo pc by metis
  then have lt: "unat r < unat (lf_maximumReadIndex (lf_q s))" and x: "x = lf_hist s ! unat r"
    using r by auto
  have r1: "unat (r + 1) = Suc (unat r)" by (rule unat_Suc32 [OF lt])
  have "unat r < length (lf_hist s)" using sh lt by (simp add: lf_shared_def)
  then have "lf_shared ?s'"
    using sh lt x r r1 by (auto simp: lf_shared_def take_Suc_conv_app_nth)
  moreover have "lf_local ?s' (lf_pc ?s' u)" for u
  proof (cases "u = t")
    case False
    have "lf_local s (lf_pc s u)" using lo by blast
    with False r r1 show ?thesis by (cases "lf_pc s u") auto
  qed simp
  moreover have "lf_owns (lf_pc ?s' u) = lf_owns (lf_pc s u)" for u using pc by simp
  then have "lf_owned ?s'" using ow unfolding lf_owned_def by simp
  ultimately show ?thesis by (simp add: lf_inv_def)
qed

lemma lf_inv_step:
  assumes "lfq_step s s'" "lf_inv s" "unat (lf_writeIndex (lf_q s)) < 2 ^ 32 - 1"
  shows "lf_inv s'"
proof -
  have sh: "lf_shared s" and lo: "\<And>t. lf_local s (lf_pc s t)" using assms(2) by (auto simp: lf_inv_def)
  note RMW = sh [unfolded lf_shared_def]
  show ?thesis
    using assms(1)
  proof (cases rule: lfq_step.cases)
    case (push_read_r t e w)
    with lo [of t] RMW show ?thesis using assms(2) by (auto intro!: lf_inv_local)
  next
    case (pop_read_m t r)
    with lo [of t] RMW show ?thesis using assms(2) by (auto intro!: lf_inv_local)
  next
    case (pop_item t r m)
    have l: "unat r \<le> unat (lf_readIndex (lf_q s))" "unat r \<le> unat m"
      "unat m \<le> unat (lf_maximumReadIndex (lf_q s))" using lo [of t] pop_item by auto
    have "unat r \<noteq> unat m" using pop_item RMW by (auto simp: countToIndex_eq_iff)
    with l RMW have "lf_local s (PopItem r (lf_items (lf_q s) ! unat (countToIndex (lf_q s) r)))"
      by (auto simp: unat_countToIndex)
    with pop_item show ?thesis using assms(2) by (auto intro!: lf_inv_local)
  next
    case (push_cas_ok t e w r)
    then show ?thesis using lf_inv_push_cas [OF assms(2) _ _ _ assms(3)] by simp
  next
    case (push_store t e w)
    then show ?thesis using lf_inv_push_store [OF assms(2)] by simp
  next
    case (push_publish t e w)
    then show ?thesis using lf_inv_push_publish [OF assms(2)] by simp
  next
    case (pop_cas_ok t r x)
    then show ?thesis using lf_inv_pop_cas [OF assms(2)] by simp
  qed (use assms(2) in \<open>auto intro!: lf_inv_local\<close>)
qed

lemma lfq_run_inv:
  assumes "lfq_run sz s" "0 < unat sz" "unat sz \<le> 2 ^ 31"
  shows "lf_inv s"
  using assms(1)
  by (induction rule: lfq_run.induct) (auto intro: lf_inv_step lf_inv_start assms(2,3))

subsection \<open>The element count\<close>

text \<open>
  count is updated after the swaps, so it lags: it is the published length plus the pops and
  minus the pushes that are between their swap and their atomic addition, in 32-bit
  arithmetic.
\<close>

definition lf_adding :: "'a lfs \<Rightarrow> nat set" where
  "lf_adding s = {t. lf_pc s t = PushCount}"

definition lf_subbing :: "'a lfs \<Rightarrow> nat set" where
  "lf_subbing s = {t. \<exists>x. lf_pc s t = PopCount x}"

definition lf_count_inv :: "'a lfs \<Rightarrow> bool" where
  "lf_count_inv s \<longleftrightarrow> finite {t. lf_pc s t \<noteq> LIdle} \<and>
     lf_count (lf_q s) + of_nat (card (lf_adding s)) =
       lf_maximumReadIndex (lf_q s) - lf_readIndex (lf_q s) + of_nat (card (lf_subbing s))"

lemma lf_finite_goto:
  "finite {t. lf_pc s t \<noteq> LIdle} \<Longrightarrow> finite {u. ((lf_pc s)(t := p)) u \<noteq> LIdle}"
  by (rule finite_subset [of _ "insert t {t. lf_pc s t \<noteq> LIdle}"]) auto

lemma lf_finite_sub:
  "finite {t. lf_pc s t \<noteq> LIdle} \<Longrightarrow> finite (lf_adding s) \<and> finite (lf_subbing s)"
  by (auto simp: lf_adding_def lf_subbing_def elim: rev_finite_subset)

lemma lf_sets_goto [simp]:
  "lf_adding (lf_goto t p s) = (if p = PushCount then insert t (lf_adding s) else lf_adding s - {t})"
  "lf_subbing (lf_goto t p s) = (if \<exists>x. p = PopCount x then insert t (lf_subbing s) else lf_subbing s - {t})"
  by (auto simp: lf_adding_def lf_subbing_def)

lemma lf_sets_upd [simp]:
  "lf_adding (s\<lparr>lf_q := q\<rparr>) = lf_adding s" "lf_subbing (s\<lparr>lf_q := q\<rparr>) = lf_subbing s"
  "lf_adding (s\<lparr>lf_hist := h\<rparr>) = lf_adding s" "lf_subbing (s\<lparr>lf_hist := h\<rparr>) = lf_subbing s"
  "lf_adding (s\<lparr>lf_popped := h\<rparr>) = lf_adding s" "lf_subbing (s\<lparr>lf_popped := h\<rparr>) = lf_subbing s"
  by (simp_all add: lf_adding_def lf_subbing_def)

lemma lf_sets_notin:
  "lf_pc s t = PushCount \<Longrightarrow> t \<in> lf_adding s \<and> t \<notin> lf_subbing s"
  "lf_pc s t = PopCount x \<Longrightarrow> t \<notin> lf_adding s \<and> t \<in> lf_subbing s"
  "lf_pc s t \<noteq> PushCount \<Longrightarrow> t \<notin> lf_adding s"
  "(\<And>x. lf_pc s t \<noteq> PopCount x) \<Longrightarrow> t \<notin> lf_subbing s"
  by (auto simp: lf_adding_def lf_subbing_def)

lemma lf_count_local:
  assumes "lf_count_inv s" "t \<notin> lf_adding s" "t \<notin> lf_subbing s" "p \<noteq> PushCount" "\<And>x. p \<noteq> PopCount x"
    "lf_count q = lf_count (lf_q s)" "lf_maximumReadIndex q = lf_maximumReadIndex (lf_q s)"
    "lf_readIndex q = lf_readIndex (lf_q s)"
  shows "lf_count_inv (lf_goto t p (s\<lparr>lf_q := q, lf_hist := h\<rparr>))"
  using assms lf_finite_goto [of s t p] by (simp add: lf_count_inv_def)

lemma card_goto:
  assumes "finite A"
  shows "t \<notin> A \<Longrightarrow> of_nat (card (insert t A)) = (of_nat (card A) + 1 :: u32)"
    "t \<in> A \<Longrightarrow> of_nat (card A) = (of_nat (card (A - {t})) + 1 :: u32)"
proof -
  show "t \<notin> A \<Longrightarrow> of_nat (card (insert t A)) = (of_nat (card A) + 1 :: u32)"
    using assms by simp
  show "t \<in> A \<Longrightarrow> of_nat (card A) = (of_nat (card (A - {t})) + 1 :: u32)"
    using card_Suc_Diff1 [OF assms, of t] by (metis of_nat_Suc add.commute)
qed

lemma lf_count_step:
  assumes "lfq_step s s'" "lf_count_inv s"
  shows "lf_count_inv s'"
proof -
  have f: "finite {t. lf_pc s t \<noteq> LIdle}" using assms(2) by (simp add: lf_count_inv_def)
  have fs: "finite (lf_adding s)" "finite (lf_subbing s)" using lf_finite_sub [OF f] by auto
  have eq: "lf_count (lf_q s) + of_nat (card (lf_adding s)) =
       lf_maximumReadIndex (lf_q s) - lf_readIndex (lf_q s) + of_nat (card (lf_subbing s))"
    using assms(2) by (simp add: lf_count_inv_def)
  have loc: "lf_count_inv (lf_goto t p s)"
    if "t \<notin> lf_adding s" "t \<notin> lf_subbing s" "p \<noteq> PushCount" "\<And>x. p \<noteq> PopCount x" for t p
    using lf_count_local [OF assms(2) that, of "lf_q s" "lf_hist s"] by simp
  show ?thesis
    using assms(1)
  proof (cases rule: lfq_step.cases)
    case (push_cas_ok t e w r)
    have "t \<notin> lf_adding s" "t \<notin> lf_subbing s" using push_cas_ok by (auto simp: lf_adding_def lf_subbing_def)
    then have "lf_count_inv (lf_goto t (PushStore e w)
        (s\<lparr>lf_q := (lf_q s)\<lparr>lf_writeIndex := w + 1\<rparr>, lf_hist := lf_hist s @ [e]\<rparr>))"
      by (intro lf_count_local [OF assms(2)]) simp_all
    then show ?thesis using push_cas_ok by simp
  next
    case (push_store t e w)
    let ?q = "(lf_q s)\<lparr>lf_items := (lf_items (lf_q s))[unat (countToIndex (lf_q s) w) := e]\<rparr>"
    have "lf_count_inv (lf_goto t (PushPub e w) (s\<lparr>lf_q := ?q, lf_hist := lf_hist s\<rparr>))"
      using push_store by (intro lf_count_local [OF assms(2)]) (auto simp: lf_adding_def lf_subbing_def)
    then show ?thesis using push_store by simp
  next
    case (push_publish t e w)
    then have "t \<notin> lf_adding s" "t \<notin> lf_subbing s" by (auto simp: lf_adding_def lf_subbing_def)
    with push_publish eq show ?thesis
      using lf_finite_goto [OF f, of t PushCount] card_goto(1) [OF fs(1), of t]
      by (simp add: lf_count_inv_def algebra_simps)
  next
    case (push_count t)
    then have "t \<in> lf_adding s" "t \<notin> lf_subbing s" by (auto simp: lf_adding_def lf_subbing_def)
    with push_count eq show ?thesis
      using lf_finite_goto [OF f, of t "PushDone True"] card_goto(2) [OF fs(1), of t]
      by (simp add: lf_count_inv_def algebra_simps)
  next
    case (pop_cas_ok t r x)
    then have "t \<notin> lf_adding s" "t \<notin> lf_subbing s" by (auto simp: lf_adding_def lf_subbing_def)
    with pop_cas_ok eq show ?thesis
      using lf_finite_goto [OF f, of t "PopCount x"] card_goto(1) [OF fs(2), of t]
      by (simp add: lf_count_inv_def algebra_simps)
  next
    case (pop_count t x)
    then have "t \<notin> lf_adding s" "t \<in> lf_subbing s" by (auto simp: lf_adding_def lf_subbing_def)
    with pop_count eq show ?thesis
      using lf_finite_goto [OF f, of t "PopDone x"] card_goto(2) [OF fs(2), of t]
      by (simp add: lf_count_inv_def algebra_simps)
  next
    case push_spin
    with assms(2) show ?thesis by simp
  qed (auto intro!: loc simp: lf_adding_def lf_subbing_def)
qed

lemma lfq_run_count: "lfq_run sz s \<Longrightarrow> lf_count_inv s"
proof (induction rule: lfq_run.induct)
  case start
  show ?case
    by (simp add: lf_count_inv_def lf_init_def lf_adding_def lf_subbing_def arrayLockFreeQueueCreate_def)
qed (rule lf_count_step)

lemma lfq_step_size: "lfq_step s s' \<Longrightarrow> lf_size (lf_q s') = lf_size (lf_q s)"
  by (induction rule: lfq_step.induct) auto

lemma lfq_run_size: "lfq_run sz s \<Longrightarrow> lf_size (lf_q s) = nextpow2 sz"
  by (induction rule: lfq_run.induct)
    (auto simp: lf_init_def arrayLockFreeQueueCreate_def lfq_step_size)

subsection \<open>Uninterrupted calls as runs\<close>

lemma lf_upd_order:
  "(s\<lparr>lf_hist := h\<rparr>)\<lparr>lf_q := q\<rparr> = (s\<lparr>lf_q := q\<rparr>)\<lparr>lf_hist := h\<rparr>"
  "(s\<lparr>lf_popped := h\<rparr>)\<lparr>lf_q := q\<rparr> = (s\<lparr>lf_q := q\<rparr>)\<lparr>lf_popped := h\<rparr>"
  by simp_all

lemma lfq_run_push:
  assumes run: "lfq_run sz s" and pc: "lf_pc s t = LIdle"
    and m: "lf_maximumReadIndex (lf_q s) = lf_writeIndex (lf_q s)"
    and ne: "countToIndex (lf_q s) (lf_writeIndex (lf_q s) + 1) \<noteq> countToIndex (lf_q s) (lf_readIndex (lf_q s))"
    and w: "Suc (unat (lf_writeIndex (lf_q s))) < 2 ^ 32 - 1"
  shows "lfq_run sz (s\<lparr>lf_q := snd (the (arrayLockFreeQueuePush (lf_q s) e)), lf_hist := lf_hist s @ [e]\<rparr>)"
proof -
  let ?w = "lf_writeIndex (lf_q s)" and ?r = "lf_readIndex (lf_q s)"
  have w1: "unat (?w + 1) = Suc (unat ?w)" using w by (simp add: unat_word_ariths)
  let ?q1 = "(lf_q s)\<lparr>lf_writeIndex := ?w + 1\<rparr>"
  let ?q2 = "?q1\<lparr>lf_items := (lf_items (lf_q s))[unat (countToIndex ?q1 ?w) := e]\<rparr>"
  let ?q3 = "?q2\<lparr>lf_maximumReadIndex := ?w + 1\<rparr>"
  let ?q4 = "?q3\<lparr>lf_count := lf_count (lf_q s) + 1\<rparr>"
  let ?at = "\<lambda>q h p. lf_goto t p (s\<lparr>lf_q := q, lf_hist := h\<rparr>)"
  have s: "?at (lf_q s) (lf_hist s) p = lf_goto t p s" for p by simp
  have ci: "countToIndex ?q1 = countToIndex (lf_q s)" by (simp add: countToIndex_def fun_eq_iff)
  have gg: "lf_goto t p (lf_goto t p' x) = lf_goto t p x" for p p' and x :: "'a lfs"
    by (cases x) (simp add: lf_goto_def)
  have "lfq_run sz (lf_goto t (PushStart e) s)"
    using lfq_run.move [OF run _ lfq_step.push_call [OF pc]] w by simp
  then have "lfq_run sz (lf_goto t (PushW e ?w) (lf_goto t (PushStart e) s))"
    using w by (elim lfq_run.move) (use lfq_step.push_read_w [of "lf_goto t (PushStart e) s" t e] in simp_all)
  then have "lfq_run sz (lf_goto t (PushW e ?w) s)" by (simp add: gg)
  then have "lfq_run sz (lf_goto t (PushWR e ?w ?r) (lf_goto t (PushW e ?w) s))"
    using w by (elim lfq_run.move) (use lfq_step.push_read_r [of "lf_goto t (PushW e ?w) s" t e ?w] in simp_all)
  then have r3: "lfq_run sz (lf_goto t (PushWR e ?w ?r) s)" by (simp add: gg)
  have "lfq_run sz (?at ?q1 (lf_hist s @ [e]) (PushStore e ?w))"
    using lfq_run.move [OF r3 _ lfq_step.push_cas_ok [of _ t e ?w ?r]] ne w
    by (simp add: lf_goto_def)
  then have r4: "lfq_run sz (?at ?q1 (lf_hist s @ [e]) (PushStore e ?w))" .
  have r5: "lfq_run sz (?at ?q2 (lf_hist s @ [e]) (PushPub e ?w))"
    using lfq_run.move [OF r4 _ lfq_step.push_store [of _ t e ?w]] w w1
    by (simp add: lf_goto_def lf_upd_order)
  have r6: "lfq_run sz (?at ?q3 (lf_hist s @ [e]) PushCount)"
    using lfq_run.move [OF r5 _ lfq_step.push_publish [of _ t e ?w]] w w1 m
    by (simp add: lf_goto_def lf_upd_order)
  have r7: "lfq_run sz (?at ?q4 (lf_hist s @ [e]) (PushDone True))"
    using lfq_run.move [OF r6 _ lfq_step.push_count [of _ t]] w w1
    by (simp add: lf_goto_def lf_upd_order)
  have r8: "lfq_run sz (?at ?q4 (lf_hist s @ [e]) LIdle)"
    using lfq_run.move [OF r7 _ lfq_step.push_return [of _ t True]] w w1
    by (simp add: lf_goto_def lf_upd_order)
  have "?at ?q4 (lf_hist s @ [e]) LIdle = s\<lparr>lf_q := ?q4, lf_hist := lf_hist s @ [e]\<rparr>"
    using pc by (cases s) (auto simp: lf_goto_def)
  moreover have "snd (the (arrayLockFreeQueuePush (lf_q s) e)) = ?q4"
    using ne m by (cases "lf_q s") (simp add: arrayLockFreeQueuePush_def Let_def ci countToIndex_def)
  ultimately show ?thesis using r8 by simp
qed

lemma lfq_run_pop:
  assumes run: "lfq_run sz s" and pc: "lf_pc s t = LIdle"
    and ne: "countToIndex (lf_q s) (lf_readIndex (lf_q s)) \<noteq> countToIndex (lf_q s) (lf_maximumReadIndex (lf_q s))"
    and w: "unat (lf_writeIndex (lf_q s)) < 2 ^ 32 - 1"
  shows "lfq_run sz (s\<lparr>lf_q := snd (arrayLockFreeQueuePop (lf_q s)),
    lf_popped := lf_popped s @ [fst (arrayLockFreeQueuePop (lf_q s))]\<rparr>)"
proof -
  let ?m = "lf_maximumReadIndex (lf_q s)" and ?r = "lf_readIndex (lf_q s)"
  let ?x = "lf_items (lf_q s) ! unat (countToIndex (lf_q s) ?r)"
  let ?q1 = "(lf_q s)\<lparr>lf_readIndex := ?r + 1\<rparr>"
  let ?q2 = "?q1\<lparr>lf_count := lf_count (lf_q s) - 1\<rparr>"
  let ?at = "\<lambda>q h p. lf_goto t p (s\<lparr>lf_q := q, lf_popped := h\<rparr>)"
  have r1: "lfq_run sz (lf_goto t PopStart s)"
    using lfq_run.move [OF run _ lfq_step.pop_call [OF pc]] w by simp
  have r2: "lfq_run sz (lf_goto t (PopR ?r) s)"
    using lfq_run.move [OF r1 _ lfq_step.pop_read_r [of _ t]] w by (simp add: lf_goto_def lf_upd_order)
  have r3: "lfq_run sz (lf_goto t (PopRM ?r ?m) s)"
    using lfq_run.move [OF r2 _ lfq_step.pop_read_m [of _ t ?r]] w by (simp add: lf_goto_def lf_upd_order)
  have r4: "lfq_run sz (lf_goto t (PopItem ?r ?x) s)"
    using lfq_run.move [OF r3 _ lfq_step.pop_item [of _ t ?r ?m]] w ne by (simp add: lf_goto_def lf_upd_order)
  have r5: "lfq_run sz (?at ?q1 (lf_popped s @ [?x]) (PopCount ?x))"
    using lfq_run.move [OF r4 _ lfq_step.pop_cas_ok [of _ t ?r ?x]] w by (simp add: lf_goto_def lf_upd_order)
  have r6: "lfq_run sz (?at ?q2 (lf_popped s @ [?x]) (PopDone ?x))"
    using lfq_run.move [OF r5 _ lfq_step.pop_count [of _ t ?x]] w by (simp add: lf_goto_def lf_upd_order)
  have r7: "lfq_run sz (?at ?q2 (lf_popped s @ [?x]) LIdle)"
    using lfq_run.move [OF r6 _ lfq_step.pop_return [of _ t ?x]] w by (simp add: lf_goto_def lf_upd_order)
  have "?at ?q2 (lf_popped s @ [?x]) LIdle = s\<lparr>lf_q := ?q2, lf_popped := lf_popped s @ [?x]\<rparr>"
    using pc by (cases s) (auto simp: lf_goto_def)
  moreover have "arrayLockFreeQueuePop (lf_q s) = (?x, ?q2)"
    using ne by (cases "lf_q s") (simp add: arrayLockFreeQueuePop_def Let_def countToIndex_def)
  ultimately show ?thesis using r7 by simp
qed

lemma lfq_concurrent_fifo_aux:
  assumes "lf_inv s" "lf_size (lf_q s) = n"
  shows "\<exists>rest. lf_hist s = lf_popped s @ rest \<and> length rest < unat n \<and>
    window (lf_items (lf_q s)) (unat (lf_readIndex (lf_q s)))
      (unat (lf_maximumReadIndex (lf_q s)) - unat (lf_readIndex (lf_q s))) (unat n)
    = take (unat (lf_maximumReadIndex (lf_q s)) - unat (lf_readIndex (lf_q s))) rest"
proof (intro exI conjI)
  let ?R = "unat (lf_readIndex (lf_q s))" and ?M = "unat (lf_maximumReadIndex (lf_q s))"
  have sh: "lf_shared s" using assms(1) by (simp add: lf_inv_def)
  show "lf_hist s = lf_popped s @ drop ?R (lf_hist s)" using sh by (simp add: lf_shared_def)
  show "length (drop ?R (lf_hist s)) < unat n" using sh assms(2) by (auto simp: lf_shared_def)
  show "window (lf_items (lf_q s)) ?R (?M - ?R) (unat n) = take (?M - ?R) (drop ?R (lf_hist s))"
    using sh assms(2) by (intro nth_equalityI) (auto simp: lf_shared_def window_def)
qed

subsection \<open>Runs used by the witnesses\<close>

definition lf_q0 :: "nat lfq" where
  "lf_q0 = arrayLockFreeQueueCreate 4"

lemma nextpow2_4: "nextpow2 4 = 4"
  by (simp add: nextpow2_def smear_def)

lemma replicate_4: "replicate 4 x = [x, x, x, x]"
  by (simp add: eval_nat_numeral)

lemma lf_q0_simps [simp]:
  "lf_count lf_q0 = 0" "lf_writeIndex lf_q0 = 0" "lf_readIndex lf_q0 = 0"
  "lf_maximumReadIndex lf_q0 = 0" "lf_size lf_q0 = 4" "lf_items lf_q0 = [None, None, None, None]"
  by (simp_all add: lf_q0_def arrayLockFreeQueueCreate_def nextpow2_4 replicate_4)

lemma lf_init_simps [simp]:
  "lf_q (lf_init q) = q" "lf_pc (lf_init q) t = LIdle" "lf_hist (lf_init q) = []" "lf_popped (lf_init q) = []"
  by (simp_all add: lf_init_def)

text \<open>Two complete pushes, then a complete pop.\<close>

lemma lfq_run_example:
  "\<exists>s. lfq_run 4 s \<and> (\<forall>t. lf_pc s t = LIdle) \<and> lf_hist s = [Some 7, Some (8::nat)] \<and> lf_popped s = [Some 7]"
proof -
  let ?s0 = "lf_init lf_q0"
  let ?q1 = "snd (the (arrayLockFreeQueuePush lf_q0 (Some 7)))"
  let ?q2 = "snd (the (arrayLockFreeQueuePush ?q1 (Some 8)))"
  let ?s1 = "?s0\<lparr>lf_q := ?q1, lf_hist := [Some 7]\<rparr>"
  let ?s2 = "?s1\<lparr>lf_q := ?q2, lf_hist := [Some 7, Some 8]\<rparr>"
  have q1: "?q1 = lf_q0\<lparr>lf_writeIndex := 1, lf_items := [Some 7, None, None, None],
      lf_maximumReadIndex := 1, lf_count := 1\<rparr>"
    by (simp add: arrayLockFreeQueuePush_def countToIndex_def)
  have q2: "?q2 = lf_q0\<lparr>lf_writeIndex := 2, lf_items := [Some 7, Some 8, None, None],
      lf_maximumReadIndex := 2, lf_count := 2\<rparr>"
    unfolding q1 by (simp add: arrayLockFreeQueuePush_def countToIndex_def)
  have "lfq_run 4 ?s0" unfolding lf_q0_def by (rule lfq_run.start)
  from lfq_run_push [OF this, of 0 "Some 7"] have r1: "lfq_run 4 ?s1"
    by (simp add: countToIndex_def)
  have "lfq_run 4 (?s1\<lparr>lf_q := snd (the (arrayLockFreeQueuePush (lf_q ?s1) (Some 8))),
      lf_hist := lf_hist ?s1 @ [Some 8]\<rparr>)"
    by (rule lfq_run_push [OF r1, of 0 "Some 8"]) (simp_all add: q1 countToIndex_def)
  then have r2: "lfq_run 4 ?s2" by simp
  have "lfq_run 4 (?s2\<lparr>lf_q := snd (arrayLockFreeQueuePop (lf_q ?s2)),
      lf_popped := lf_popped ?s2 @ [fst (arrayLockFreeQueuePop (lf_q ?s2))]\<rparr>)"
    by (rule lfq_run_pop [OF r2, of 0]) (simp_all add: q2 countToIndex_def)
  moreover have "fst (arrayLockFreeQueuePop (lf_q ?s2)) = Some 7"
    by (simp add: q2 arrayLockFreeQueuePop_def countToIndex_def)
  ultimately show ?thesis by (intro exI conjI) (assumption, simp_all)
qed

subsection \<open>Properties\<close>

text \<open>
  C4: any interleaving of pushes and pops by any number of threads keeps the lock-free ring a
  FIFO. The items taken so far are a prefix of the items in the order in which their slots were
  reserved (so none is taken twice, lost or overtaken), the untaken ones are fewer than the
  size of the ring, and the published ones among them stand in the ring in that order.
\<close>
theorem lfq_concurrent_fifo:
  assumes "0 < unat sz" "unat sz \<le> 2 ^ 31" "lfq_run sz s"
  shows "\<exists>rest. lf_hist s = lf_popped s @ rest \<and> length rest < unat (nextpow2 sz) \<and>
    window (lf_items (lf_q s)) (unat (lf_readIndex (lf_q s)))
      (unat (lf_maximumReadIndex (lf_q s)) - unat (lf_readIndex (lf_q s))) (unat (nextpow2 sz))
    = take (unat (lf_maximumReadIndex (lf_q s)) - unat (lf_readIndex (lf_q s))) rest"
  by (rule lfq_concurrent_fifo_aux [OF lfq_run_inv [OF assms(3,1,2)] lfq_run_size [OF assms(3)]])

lemma lfq_concurrent_fifo_witness:
  "\<exists>s. lfq_run 4 s \<and> lf_popped s = [Some (7::nat)] \<and>
    (\<exists>rest. lf_hist s = lf_popped s @ rest \<and> length rest < unat (nextpow2 4))"
proof -
  from lfq_run_example obtain s where s: "lfq_run 4 s" "lf_popped s = [Some (7::nat)]" by blast
  have "\<exists>rest. lf_hist s = lf_popped s @ rest \<and> length rest < unat (nextpow2 4) \<and>
    window (lf_items (lf_q s)) (unat (lf_readIndex (lf_q s)))
      (unat (lf_maximumReadIndex (lf_q s)) - unat (lf_readIndex (lf_q s))) (unat (nextpow2 4))
    = take (unat (lf_maximumReadIndex (lf_q s)) - unat (lf_readIndex (lf_q s))) rest"
    by (rule lfq_concurrent_fifo [OF _ _ s(1)]) simp_all
  with s show ?thesis by blast
qed

text \<open>
  Whenever no call is in progress after such a run, the ring is in the state of the
  uninterrupted functions: count is the number of stored items, maximumReadIndex has caught up
  with writeIndex, and the stored items are exactly the pushed ones minus the taken ones.
\<close>
theorem lfq_quiescent:
  assumes "0 < unat sz" "unat sz \<le> 2 ^ 31" "lfq_run sz s" "\<forall>t. lf_pc s t = LIdle"
  shows "lfq_inv (lf_q s) \<and> lf_hist s = lf_popped s @ lfq_list (lf_q s)"
proof -
  let ?q = "lf_q s"
  have inv: "lf_inv s" by (rule lfq_run_inv [OF assms(3,1,2)])
  then have sh: "lf_shared s" and ow: "lf_owned s" by (auto simp: lf_inv_def)
  note k = lfq_run_size [OF assms(3)]
  have "lf_adding s = {}" "lf_subbing s = {}" using assms(4) by (auto simp: lf_adding_def lf_subbing_def)
  then have c: "lf_count ?q = lf_maximumReadIndex ?q - lf_readIndex ?q"
    using lfq_run_count [OF assms(3)] by (simp add: lf_count_inv_def)
  have "\<not> unat (lf_maximumReadIndex ?q) < unat (lf_writeIndex ?q)"
    using ow assms(4) by (auto simp: lf_owned_def)
  then have "unat (lf_maximumReadIndex ?q) = unat (lf_writeIndex ?q)"
    using sh by (simp add: lf_shared_def)
  then have m: "lf_maximumReadIndex ?q = lf_writeIndex ?q" by (rule unsigned_word_eqI)
  have cu: "unat (lf_count ?q) = unat (lf_writeIndex ?q) - unat (lf_readIndex ?q)"
    using sh m c by (simp add: lf_shared_def unat_sub32)
  have "lfq_inv ?q"
    using sh m c cu by (auto simp: lfq_inv_def lf_shared_def)
  moreover obtain rest where "lf_hist s = lf_popped s @ rest" "lfq_list ?q = take (unat (lf_count ?q)) rest"
    using lfq_concurrent_fifo_aux [OF inv k] cu m by (auto simp: lfq_list_def k)
  moreover have "length (lf_popped s) = unat (lf_readIndex ?q)" "length (lf_hist s) = unat (lf_writeIndex ?q)"
    using sh by (simp_all add: lf_shared_def)
  with calculation(2) cu have "length rest = unat (lf_count ?q)" by simp
  ultimately show ?thesis by simp
qed

lemma lfq_quiescent_witness:
  "\<exists>s. lfq_run 4 s \<and> (\<forall>t. lf_pc s t = LIdle) \<and> lfq_inv (lf_q s) \<and>
    [Some (7::nat), Some 8] = [Some 7] @ lfq_list (lf_q s)"
proof -
  from lfq_run_example obtain s where s: "lfq_run 4 s" "\<forall>t. lf_pc s t = LIdle"
    "lf_hist s = [Some 7, Some (8::nat)]" "lf_popped s = [Some 7]" by blast
  have "lfq_inv (lf_q s) \<and> lf_hist s = lf_popped s @ lfq_list (lf_q s)"
    by (rule lfq_quiescent [OF _ _ s(1,2)]) simp_all
  with s show ?thesis by auto
qed

text \<open>
  A push can report a full ring that was never full. In a run on a ring of four slots in
  which one single item is ever pushed, a second thread's arrayLockFreeQueuePush returns false:
  it reads writeIndex, the other item is pushed and popped, and it then reads a readIndex one
  ahead of its stale writeIndex, which looks like a full ring to its test.
\<close>
theorem lfq_spurious_full:
  "\<exists>s. lfq_run 4 s \<and> lf_pc s 0 = PushDone False \<and>
     lf_hist s = [Some (7::nat)] \<and> lf_popped s = [Some 7] \<and> lf_size (lf_q s) = 4"
proof -
  let ?s0 = "lf_init lf_q0"
  let ?q1 = "snd (the (arrayLockFreeQueuePush lf_q0 (Some 7)))"
  have q1: "?q1 = lf_q0\<lparr>lf_writeIndex := 1, lf_items := [Some 7, None, None, None],
      lf_maximumReadIndex := 1, lf_count := 1\<rparr>"
    by (simp add: arrayLockFreeQueuePush_def countToIndex_def)
  have q2: "arrayLockFreeQueuePop ?q1 = (Some 7, ?q1\<lparr>lf_readIndex := 1, lf_count := 0\<rparr>)"
    by (simp add: q1 arrayLockFreeQueuePop_def countToIndex_def)
  have r0: "lfq_run 4 ?s0" unfolding lf_q0_def by (rule lfq_run.start)
  have r1: "lfq_run 4 (lf_goto 0 (PushStart (Some 9)) ?s0)"
    by (rule lfq_run.move [OF r0]) (simp_all add: lfq_step.push_call)
  have "lfq_run 4 (lf_goto 0 (PushW (Some 9) 0) (lf_goto 0 (PushStart (Some 9)) ?s0))"
    using lfq_run.move [OF r1 _ lfq_step.push_read_w [of _ 0 "Some 9"]] by simp
  then have r2: "lfq_run 4 (lf_goto 0 (PushW (Some 9) 0) ?s0)" (is "lfq_run 4 ?s2")
    by (simp add: lf_goto_def)
  let ?s3 = "?s2\<lparr>lf_q := ?q1, lf_hist := [Some 7]\<rparr>"
  have "lfq_run 4 (?s2\<lparr>lf_q := snd (the (arrayLockFreeQueuePush (lf_q ?s2) (Some 7))),
      lf_hist := lf_hist ?s2 @ [Some 7]\<rparr>)"
    by (rule lfq_run_push [OF r2, of 1]) (simp_all add: countToIndex_def)
  then have r3: "lfq_run 4 ?s3" by simp
  let ?s4 = "?s3\<lparr>lf_q := ?q1\<lparr>lf_readIndex := 1, lf_count := 0\<rparr>, lf_popped := [Some 7]\<rparr>"
  have "lfq_run 4 (?s3\<lparr>lf_q := snd (arrayLockFreeQueuePop (lf_q ?s3)),
      lf_popped := lf_popped ?s3 @ [fst (arrayLockFreeQueuePop (lf_q ?s3))]\<rparr>)"
    by (rule lfq_run_pop [OF r3, of 1]) (simp_all add: q1 countToIndex_def)
  then have r4: "lfq_run 4 ?s4" by (simp add: q2)
  have r5: "lfq_run 4 (lf_goto 0 (PushWR (Some 9) 0 1) ?s4)"
    using lfq_run.move [OF r4 _ lfq_step.push_read_r [of _ 0 "Some 9" 0]] by (simp add: q1)
  have "lfq_run 4 (lf_goto 0 (PushDone False) (lf_goto 0 (PushWR (Some 9) 0 1) ?s4))"
    using lfq_run.move [OF r5 _ lfq_step.push_full [of _ 0 "Some 9" 0 1]] by (simp add: q1 countToIndex_def)
  then show ?thesis by (intro exI conjI) (assumption, simp_all add: q1)
qed

end
