(* ===== verification/Mailbox.thy ===== *)
theory Mailbox
  imports LockFreeQueue
begin

section \<open>Message queues and context queues\<close>

text \<open>
  messagequeue.c stores messages by value and contextqueue.c stores context pointers, both with
  the algorithm of arraylockfreequeue.c, which each file repeats. Their records and functions
  are modelled one by one and shown to be the lock-free ring under an embedding
  (\<open>mq_ring\<close>, \<open>cxq_ring\<close>), so that its theorems carry over; each interprets the queue
  interface on its own functions.
\<close>

subsection \<open>Messages (src/message.h) and messagequeue.c\<close>

record message =
  msg_from :: u32
  msg_session :: u32
  msg_type :: u32
  msg_ud :: u32
  msg_sz :: u64
  msg_data :: "byte list ptr"

text \<open>The zeroed message of a fresh queue slot.\<close>

definition message0 :: message where
  "message0 = \<lparr>msg_from = 0, msg_session = 0, msg_type = 0, msg_ud = 0, msg_sz = 0, msg_data = None\<rparr>"

record messageQueue =
  mq_count :: u32
  mq_writeIndex :: u32
  mq_readIndex :: u32
  mq_maximumReadIndex :: u32
  mq_messages :: "message list"
  mq_size :: u32

definition messageQueueCreate :: "u32 \<Rightarrow> messageQueue" where
  "messageQueueCreate sz =
     \<lparr>mq_count = 0, mq_writeIndex = 0, mq_readIndex = 0, mq_maximumReadIndex = 0,
      mq_messages = replicate (unat (nextpow2 sz)) message0, mq_size = nextpow2 sz\<rparr>"

definition messageQueueSize :: "messageQueue \<Rightarrow> u32" where
  "messageQueueSize q = mq_count q"

definition mq_countToIndex :: "messageQueue \<Rightarrow> u32 \<Rightarrow> u32" where
  "mq_countToIndex q c = c AND (mq_size q - 1)"

definition messageQueuePush :: "messageQueue \<Rightarrow> message \<Rightarrow> (bool \<times> messageQueue) option" where
  "messageQueuePush q msg =
     (let w = mq_writeIndex q; r = mq_readIndex q
      in if mq_countToIndex q (w + 1) = mq_countToIndex q r then Some (False, q)
         else if mq_maximumReadIndex q \<noteq> w then None
         else Some (True, q\<lparr>mq_writeIndex := w + 1,
                            mq_messages := (mq_messages q)[unat (mq_countToIndex q w) := msg],
                            mq_maximumReadIndex := w + 1,
                            mq_count := mq_count q + 1\<rparr>))"

text \<open>The output parameter \<open>msg\<close> is written exactly when the result is true.\<close>

definition messageQueuePop :: "messageQueue \<Rightarrow> message option \<times> messageQueue" where
  "messageQueuePop q =
     (let r = mq_readIndex q; m = mq_maximumReadIndex q
      in if mq_countToIndex q r = mq_countToIndex q m then (None, q)
         else (Some (mq_messages q ! unat (mq_countToIndex q r)),
               q\<lparr>mq_readIndex := r + 1, mq_count := mq_count q - 1\<rparr>))"

definition mq_ring :: "messageQueue \<Rightarrow> message lfq" where
  "mq_ring q = \<lparr>lf_count = mq_count q, lf_writeIndex = mq_writeIndex q, lf_readIndex = mq_readIndex q,
     lf_maximumReadIndex = mq_maximumReadIndex q, lf_items = map Some (mq_messages q), lf_size = mq_size q\<rparr>"

definition mq_wf :: "messageQueue \<Rightarrow> bool" where
  "mq_wf q \<longleftrightarrow> lfq_wf (mq_ring q)"

definition mq_list :: "messageQueue \<Rightarrow> message list" where
  "mq_list q = lfq_contents (mq_ring q)"

definition mq_room :: "messageQueue \<Rightarrow> bool" where
  "mq_room q \<longleftrightarrow> lfq_room (mq_ring q)"

lemma mq_ring_push: "map_option (map_prod id mq_ring) (messageQueuePush q m) = arrayLockFreeQueuePush (mq_ring q) (Some m)"
  by (simp add: messageQueuePush_def arrayLockFreeQueuePush_def mq_ring_def mq_countToIndex_def
      countToIndex_def Let_def map_update)

lemma mq_ring_index:
  assumes "mq_wf q"
  shows "unat (mq_countToIndex q c) < length (mq_messages q)"
proof -
  have p: "pow2_size (mq_size q)" "length (mq_messages q) = unat (mq_size q)"
    using assms by (auto simp: mq_wf_def lfq_wf_def lfq_inv_def mq_ring_def)
  then show ?thesis by (simp add: mq_countToIndex_def ring_mask)
qed

lemma mq_ring_pop:
  "mq_wf q \<Longrightarrow> map_prod id mq_ring (messageQueuePop q) = arrayLockFreeQueuePop (mq_ring q)"
  using mq_ring_index [of q "mq_readIndex q"]
  by (simp add: messageQueuePop_def arrayLockFreeQueuePop_def mq_ring_def mq_countToIndex_def
      countToIndex_def Let_def)

definition mq_enq :: "message \<Rightarrow> messageQueue \<Rightarrow> bool \<times> messageQueue" where
  "mq_enq m q = (case messageQueuePush q m of None \<Rightarrow> (False, q) | Some r \<Rightarrow> r)"

lemma mq_ring_enq: "map_prod id mq_ring (mq_enq m q) = lfq_enq m (mq_ring q)"
  using mq_ring_push [of q m] by (auto simp: mq_enq_def lfq_enq_def split: option.splits)

interpretation mq: fifo mq_enq messageQueuePop mq_list mq_room mq_wf
proof unfold_locales
  fix q q' :: messageQueue and e ok r x xs
  have en: "lfq_enq e (mq_ring q) = (ok, mq_ring q')" if "mq_enq e q = (ok, q')"
    using mq_ring_enq [of e q] that by simp
  have de: "arrayLockFreeQueuePop (mq_ring q) = (r, mq_ring q')" if "mq_wf q" "messageQueuePop q = (r, q')"
    using mq_ring_pop [OF that(1)] that(2) by simp
  show "mq_wf q \<Longrightarrow> mq_room q \<Longrightarrow> mq_enq e q = (ok, q') \<Longrightarrow> ok \<and> mq_list q' = mq_list q @ [e]"
    using lfq.push_room [OF _ _ en] by (simp add: mq_wf_def mq_room_def mq_list_def)
  show "mq_wf q \<Longrightarrow> \<not> mq_room q \<Longrightarrow> mq_enq e q = (ok, q') \<Longrightarrow> \<not> ok \<and> mq_list q' = mq_list q"
    using lfq.push_full [OF _ _ en] by (simp add: mq_wf_def mq_room_def mq_list_def)
  show "mq_wf q \<Longrightarrow> mq_list q = [] \<Longrightarrow> messageQueuePop q = (r, q') \<Longrightarrow> r = None \<and> mq_list q' = []"
    using lfq.pop_empty [OF _ _ de] by (simp add: mq_wf_def mq_list_def)
  show "mq_wf q \<Longrightarrow> mq_list q = x # xs \<Longrightarrow> messageQueuePop q = (r, q') \<Longrightarrow> r = Some x \<and> mq_list q' = xs"
    using lfq.pop_cons [OF _ _ de] by (simp add: mq_wf_def mq_list_def)
  show "mq_wf q \<Longrightarrow> mq_enq e q = (ok, q') \<Longrightarrow> mq_wf q'"
    using lfq.invar_push [OF _ en] by (simp add: mq_wf_def)
  show "mq_wf q \<Longrightarrow> messageQueuePop q = (r, q') \<Longrightarrow> mq_wf q'"
    using lfq.invar_pop [OF _ de] by (simp add: mq_wf_def)
qed

lemma messageQueueCreate_wf:
  assumes "0 < unat sz" "unat sz \<le> 2 ^ 31"
  shows "mq_wf (messageQueueCreate sz)" "mq_list (messageQueueCreate sz) = []"
proof -
  have "lfq_inv (mq_ring (messageQueueCreate sz))"
    using nextpow2_pow [OF assms]
    by (auto simp: lfq_inv_def mq_ring_def messageQueueCreate_def pow2_size_def)
  moreover have "lfq_list (mq_ring (messageQueueCreate sz)) = []"
    by (simp add: lfq_list_def mq_ring_def messageQueueCreate_def)
  ultimately show "mq_wf (messageQueueCreate sz)" "mq_list (messageQueueCreate sz) = []"
    by (simp_all add: mq_wf_def mq_list_def lfq_wf_def lfq_contents_def)
qed

lemma mq_push_cases:
  assumes "mq_wf q" "mq_enq m q = (ok, q')"
  shows "mq_wf q' \<and> mq_list q' = mq_list q @ (if ok then [m] else [])"
  using mq.push_room [OF assms(1) _ assms(2)] mq.push_full [OF assms(1) _ assms(2)]
    mq.invar_push [OF assms] by (cases "mq_room q") auto

lemma mq_pop_cases:
  assumes "mq_wf q" "messageQueuePop q = (r, q')"
  shows "mq_wf q' \<and> mq_list q = (case r of None \<Rightarrow> [] | Some m \<Rightarrow> [m]) @ mq_list q'"
  using mq.pop_empty [OF assms(1) _ assms(2)] mq.pop_cons [OF assms(1) _ assms(2)]
    mq.invar_pop [OF assms] by (cases "mq_list q") auto

subsection \<open>contextqueue.c\<close>

text \<open>The entries are context pointers; \<open>'c\<close> is what they point to.\<close>

record 'c contextQueue =
  cxq_count :: u32
  cxq_writeIndex :: u32
  cxq_readIndex :: u32
  cxq_maximumReadIndex :: u32
  cxq_contexts :: "'c ptr list"
  cxq_size :: u32

definition contextQueueCreate :: "u32 \<Rightarrow> 'c contextQueue" where
  "contextQueueCreate sz =
     \<lparr>cxq_count = 0, cxq_writeIndex = 0, cxq_readIndex = 0, cxq_maximumReadIndex = 0,
      cxq_contexts = replicate (unat (nextpow2 sz)) None, cxq_size = nextpow2 sz\<rparr>"

definition contextQueueSize :: "'c contextQueue \<Rightarrow> u32" where
  "contextQueueSize q = cxq_count q"

definition cxq_countToIndex :: "'c contextQueue \<Rightarrow> u32 \<Rightarrow> u32" where
  "cxq_countToIndex q c = c AND (cxq_size q - 1)"

definition contextQueuePush :: "'c contextQueue \<Rightarrow> 'c ptr \<Rightarrow> (bool \<times> 'c contextQueue) option" where
  "contextQueuePush q ctx =
     (let w = cxq_writeIndex q; r = cxq_readIndex q
      in if cxq_countToIndex q (w + 1) = cxq_countToIndex q r then Some (False, q)
         else if cxq_maximumReadIndex q \<noteq> w then None
         else Some (True, q\<lparr>cxq_writeIndex := w + 1,
                            cxq_contexts := (cxq_contexts q)[unat (cxq_countToIndex q w) := ctx],
                            cxq_maximumReadIndex := w + 1,
                            cxq_count := cxq_count q + 1\<rparr>))"

definition contextQueuePop :: "'c contextQueue \<Rightarrow> 'c ptr \<times> 'c contextQueue" where
  "contextQueuePop q =
     (let r = cxq_readIndex q; m = cxq_maximumReadIndex q
      in if cxq_countToIndex q r = cxq_countToIndex q m then (None, q)
         else (cxq_contexts q ! unat (cxq_countToIndex q r),
               q\<lparr>cxq_readIndex := r + 1, cxq_count := cxq_count q - 1\<rparr>))"

definition cxq_ring :: "'c contextQueue \<Rightarrow> 'c lfq" where
  "cxq_ring q = \<lparr>lf_count = cxq_count q, lf_writeIndex = cxq_writeIndex q, lf_readIndex = cxq_readIndex q,
     lf_maximumReadIndex = cxq_maximumReadIndex q, lf_items = cxq_contexts q, lf_size = cxq_size q\<rparr>"

definition cxq_enq :: "'c \<Rightarrow> 'c contextQueue \<Rightarrow> bool \<times> 'c contextQueue" where
  "cxq_enq c q = (case contextQueuePush q (Some c) of None \<Rightarrow> (False, q) | Some r \<Rightarrow> r)"

definition cxq_wf :: "'c contextQueue \<Rightarrow> bool" where
  "cxq_wf q \<longleftrightarrow> lfq_wf (cxq_ring q)"

definition cxq_list :: "'c contextQueue \<Rightarrow> 'c list" where
  "cxq_list q = lfq_contents (cxq_ring q)"

definition cxq_room :: "'c contextQueue \<Rightarrow> bool" where
  "cxq_room q \<longleftrightarrow> lfq_room (cxq_ring q)"

lemma cxq_ring_create: "cxq_ring (contextQueueCreate sz) = arrayLockFreeQueueCreate sz"
  by (simp add: cxq_ring_def contextQueueCreate_def arrayLockFreeQueueCreate_def)

lemma cxq_ring_enq: "map_prod id cxq_ring (cxq_enq c q) = lfq_enq c (cxq_ring q)"
  by (simp add: cxq_enq_def lfq_enq_def contextQueuePush_def arrayLockFreeQueuePush_def cxq_ring_def
      cxq_countToIndex_def countToIndex_def Let_def)

lemma cxq_ring_pop: "map_prod id cxq_ring (contextQueuePop q) = arrayLockFreeQueuePop (cxq_ring q)"
  by (simp add: contextQueuePop_def arrayLockFreeQueuePop_def cxq_ring_def cxq_countToIndex_def
      countToIndex_def Let_def)

interpretation cxq: fifo cxq_enq contextQueuePop cxq_list cxq_room cxq_wf
proof unfold_locales
  fix q q' :: "'a contextQueue" and e ok r x xs
  have en: "lfq_enq e (cxq_ring q) = (ok, cxq_ring q')" if "cxq_enq e q = (ok, q')"
    using cxq_ring_enq [of e q] that by simp
  have de: "arrayLockFreeQueuePop (cxq_ring q) = (r, cxq_ring q')" if "contextQueuePop q = (r, q')"
    using cxq_ring_pop [of q] that by simp
  show "cxq_wf q \<Longrightarrow> cxq_room q \<Longrightarrow> cxq_enq e q = (ok, q') \<Longrightarrow> ok \<and> cxq_list q' = cxq_list q @ [e]"
    using lfq.push_room [OF _ _ en] by (simp add: cxq_wf_def cxq_room_def cxq_list_def)
  show "cxq_wf q \<Longrightarrow> \<not> cxq_room q \<Longrightarrow> cxq_enq e q = (ok, q') \<Longrightarrow> \<not> ok \<and> cxq_list q' = cxq_list q"
    using lfq.push_full [OF _ _ en] by (simp add: cxq_wf_def cxq_room_def cxq_list_def)
  show "cxq_wf q \<Longrightarrow> cxq_list q = [] \<Longrightarrow> contextQueuePop q = (r, q') \<Longrightarrow> r = None \<and> cxq_list q' = []"
    using lfq.pop_empty [OF _ _ de] by (simp add: cxq_wf_def cxq_list_def)
  show "cxq_wf q \<Longrightarrow> cxq_list q = x # xs \<Longrightarrow> contextQueuePop q = (r, q') \<Longrightarrow> r = Some x \<and> cxq_list q' = xs"
    using lfq.pop_cons [OF _ _ de] by (simp add: cxq_wf_def cxq_list_def)
  show "cxq_wf q \<Longrightarrow> cxq_enq e q = (ok, q') \<Longrightarrow> cxq_wf q'"
    using lfq.invar_push [OF _ en] by (simp add: cxq_wf_def)
  show "cxq_wf q \<Longrightarrow> contextQueuePop q = (r, q') \<Longrightarrow> cxq_wf q'"
    using lfq.invar_pop [OF _ de] by (simp add: cxq_wf_def)
qed

subsection \<open>Properties\<close>

text \<open>
  A mailbox is a bounded FIFO. In any sequence of messageQueuePush and messageQueuePop calls
  on a created queue, each running to its end before the next, the accepted messages are
  exactly the popped ones followed by the ones still stored, in order, through every
  wrap-around of the ring and of its 32-bit counters.
\<close>
theorem message_queue_fifo:
  assumes "0 < unat sz" "unat sz \<le> 2 ^ 31"
    "qrun mq_enq messageQueuePop ops (messageQueueCreate sz) = (acc, out, q)"
  shows "acc = out @ mq_list q"
  using mq.qrun_fifo [OF messageQueueCreate_wf(1) [OF assms(1,2)] assms(3)]
    messageQueueCreate_wf(2) [OF assms(1,2)] by simp

lemma message_queue_fifo_witness:
  "\<exists>q. qrun mq_enq messageQueuePop [Push message0, Push (message0\<lparr>msg_type := 2\<rparr>), Pop] (messageQueueCreate 4)
      = ([message0, message0\<lparr>msg_type := 2\<rparr>], [message0], q) \<and> mq_list q = [message0\<lparr>msg_type := 2\<rparr>]"
proof -
  let ?ops = "[Push message0, Push (message0\<lparr>msg_type := 2\<rparr>), Pop]"
  obtain acc out q where q: "qrun mq_enq messageQueuePop ?ops (messageQueueCreate 4) = (acc, out, q)"
    by (cases "qrun mq_enq messageQueuePop ?ops (messageQueueCreate 4)")
  have "acc = [message0, message0\<lparr>msg_type := 2\<rparr>]" "out = [message0]"
    using q by (auto simp: mq_enq_def messageQueuePush_def messageQueuePop_def messageQueueCreate_def
        mq_countToIndex_def nextpow2_4 replicate_4 Let_def)
  with message_queue_fifo [OF _ _ q] q show ?thesis by auto
qed

end
