(* ===== verification/EventQueue.thy ===== *)
theory EventQueue
  imports LockFreeQueue CircQueue
begin

section \<open>The event queue of an event loop (src/event_msgqueue.c)\<close>

text \<open>
  \<open>struct em\<close> couples a queue with a socket pair: emPush writes a byte when it finds the
  length to be 1 after its push, and popMsgqueue, which the event loop calls when the other
  end is readable, reads up to 64 bytes and drains the queue. The file has two builds.

  LOCK (\<open>eml_step\<close>): the ring of circqueue.c under a mutex, unlocked around the callback. A
  critical section never waits, so it is one step. Here no wake-up is lost.

  LOCKFREE (\<open>em_step\<close>), the build the file selects: the ring of arraylockfreequeue.c, whose
  steps are those of \<open>lfq_step\<close>, and no mutex between the push and the test of the size.
  Here a wake-up can be lost for good.

  The socket pair is the number of unread bytes; a full socket buffer is not modelled.
\<close>

subsection \<open>The LOCK build\<close>

datatype 'a eml_pc =
    LPoll              \<comment> \<open>the event loop waits for popFd to be readable\<close>
  | LWant              \<comment> \<open>recv done, at pthread_mutex_lock\<close>
  | LCallback "'a ptr" \<comment> \<open>unlocked, in the callback\<close>

record 'a eml =
  eml_queue :: "'a circQueue"
  eml_bytes :: nat
  eml_pc :: "'a eml_pc"
  eml_isExit :: bool
  eml_calls :: "'a ptr list"    \<comment> \<open>history: the callback's arguments\<close>
  eml_exits :: nat              \<comment> \<open>history: calls of the exit callback\<close>

definition eml_init :: "'a circQueue \<Rightarrow> 'a eml" where
  "eml_init cq = \<lparr>eml_queue = cq, eml_bytes = 0, eml_pc = LPoll, eml_isExit = False, eml_calls = [], eml_exits = 0\<rparr>"

text \<open>emPush between lock and unlock.\<close>

definition emPush_locked :: "'a eml \<Rightarrow> 'a ptr \<Rightarrow> (int \<times> 'a eml) option" where
  "emPush_locked m msg =
     (case circQueuePushTail True (eml_queue m) msg of
        None \<Rightarrow> None
      | Some (r, cq) \<Rightarrow>
          if r = 0 then Some (r, m\<lparr>eml_queue := cq,
             eml_bytes := (if circQueueLength cq = 1 then eml_bytes m + 1 else eml_bytes m)\<rparr>)
          else Some (r, m\<lparr>eml_queue := cq\<rparr>))"

text \<open>The loop test of popMsgqueue and what follows it up to the next unlock.\<close>

definition popMsgqueue_locked :: "'a eml \<Rightarrow> 'a eml" where
  "popMsgqueue_locked m =
     (if \<not> circQueueIsEmpty (eml_queue m)
      then (case circQueuePopHead (eml_queue m) of
              (qdata, cq) \<Rightarrow> m\<lparr>eml_queue := cq, eml_pc := LCallback qdata\<rparr>)
      else m\<lparr>eml_pc := LPoll, eml_exits := (if eml_isExit m then eml_exits m + 1 else eml_exits m)\<rparr>)"

inductive eml_step :: "'a eml \<Rightarrow> 'a eml \<Rightarrow> bool" where
  push: "emPush_locked m msg = Some (r, m') \<Longrightarrow> eml_step m m'"
| exit: "eml_step m (m\<lparr>eml_isExit := True\<rparr>)"
| recv: "eml_pc m = LPoll \<Longrightarrow> 0 < eml_bytes m \<Longrightarrow>
    eml_step m (m\<lparr>eml_bytes := eml_bytes m - min 64 (eml_bytes m), eml_pc := LWant\<rparr>)"
| enter: "eml_pc m = LWant \<Longrightarrow> eml_step m (popMsgqueue_locked m)"
| callback: "eml_pc m = LCallback qdata \<Longrightarrow>
    eml_step m (popMsgqueue_locked (m\<lparr>eml_calls := eml_calls m @ [qdata]\<rparr>))"

inductive eml_reach :: "'a circQueue \<Rightarrow> 'a eml \<Rightarrow> bool" for cq where
  init: "eml_reach cq (eml_init cq)"
| step: "eml_reach cq m \<Longrightarrow> eml_step m m' \<Longrightarrow> eml_reach cq m'"

definition eml_inv :: "'a eml \<Rightarrow> bool" where
  "eml_inv m \<longleftrightarrow> cq_inv (eml_queue m) \<and>
     (eml_pc m = LPoll \<longrightarrow> cq_list (eml_queue m) \<noteq> [] \<longrightarrow> 0 < eml_bytes m)"

lemma popMsgqueue_locked_inv: "cq_inv (eml_queue m) \<Longrightarrow> eml_inv (popMsgqueue_locked m)"
  using cq_list_empty_iff [of "eml_queue m"]
  by (auto simp: popMsgqueue_locked_def eml_inv_def circQueueIsEmpty_def dest: circQueuePopHead_ok
      split: prod.splits)

lemma emPush_locked_inv:
  assumes "eml_inv m" "emPush_locked m msg = Some (r, m')"
  shows "eml_inv m'"
proof -
  from assms(2) obtain cq where p: "circQueuePushTail True (eml_queue m) msg = Some (r, cq)"
    and m': "m' = m\<lparr>eml_queue := cq, eml_bytes := (if r = 0 \<and> circQueueLength cq = 1
               then eml_bytes m + 1 else eml_bytes m)\<rparr>"
    by (auto simp: emPush_locked_def split: option.splits prod.splits if_splits)
  have e: "cq_push msg (eml_queue m) = (r = 0, cq)" using p by (simp add: cq_push_def)
  have i: "cq_inv (eml_queue m)" using assms(1) by (simp add: eml_inv_def)
  show ?thesis
  proof (cases "cq_room (eml_queue m)")
    case True
    have q: "cq_list cq = cq_list (eml_queue m) @ [msg]" "cq_inv cq" "r = 0"
      using cq_push_room [OF i True e] by simp_all
    have "cq_count cq = 1" if "cq_list (eml_queue m) = []"
      using length_cq_list [of cq] q(1) that by (simp add: word_unat_eq_iff)
    then show ?thesis
      using assms(1) q m' by (auto simp: eml_inv_def circQueueLength_def)
  next
    case False
    with cq_push_full [OF i False e] assms(1) m' show ?thesis by (auto simp: eml_inv_def)
  qed
qed

lemma eml_step_inv: "eml_step m m' \<Longrightarrow> eml_inv m \<Longrightarrow> eml_inv m'"
proof (induction rule: eml_step.induct)
  case push then show ?case using emPush_locked_inv by blast
next
  case enter then show ?case by (auto simp: eml_inv_def intro!: popMsgqueue_locked_inv [unfolded eml_inv_def])
next
  case callback then show ?case by (intro popMsgqueue_locked_inv) (simp add: eml_inv_def)
qed (auto simp: eml_inv_def)

lemma eml_reach_inv: "eml_reach cq m \<Longrightarrow> cq_inv cq \<Longrightarrow> cq_list cq = [] \<Longrightarrow> eml_inv m"
proof (induction rule: eml_reach.induct)
  case init then show ?case by (simp add: eml_inv_def eml_init_def)
next
  case step then show ?case using eml_step_inv by blast
qed

subsection \<open>The LOCKFREE build\<close>

text \<open>
  Thread 0 is the event loop; the others call emPush. A call of the ring starts with the
  thread's \<open>LIdle\<close> and ends when it has read the result; in between the ring moves by
  \<open>lfq_step\<close>, in which neither a call starts nor one returns (\<open>em_ring_move\<close>).
\<close>

datatype em_pc =
    EIdle
  | EPush      \<comment> \<open>inside arrayLockFreeQueuePush\<close>
  | ESize      \<comment> \<open>about to read arrayLockFreeQueueSize\<close>
  | ESend      \<comment> \<open>it was 1: about to send\<close>
  | EPoll      \<comment> \<open>the event loop waits\<close>
  | EDrain     \<comment> \<open>the event loop is in the do loop of popMsgqueue\<close>

record 'a em =
  em_ring :: "'a lfs"
  em_bytes :: nat
  em_pc :: "nat \<Rightarrow> em_pc"
  em_isExit :: bool
  em_calls :: "'a list"
  em_exits :: nat

definition emCreate :: "u32 \<Rightarrow> 'a em" where
  "emCreate sz = \<lparr>em_ring = lf_init (arrayLockFreeQueueCreate sz), em_bytes = 0,
     em_pc = (\<lambda>t. if t = 0 then EPoll else EIdle), em_isExit = False, em_calls = [], em_exits = 0\<rparr>"

definition em_goto :: "nat \<Rightarrow> em_pc \<Rightarrow> nat \<Rightarrow> 'a lf_pc \<Rightarrow> 'a em \<Rightarrow> 'a em" where
  "em_goto t p u lp m = m\<lparr>em_pc := (em_pc m)(t := p), em_ring := lf_goto u lp (em_ring m)\<rparr>"

definition em_ring_move :: "'a lfs \<Rightarrow> 'a lfs \<Rightarrow> bool" where
  "em_ring_move r r' \<longleftrightarrow> lfq_step r r' \<and> (\<forall>t. lf_pc r t = LIdle \<longleftrightarrow> lf_pc r' t = LIdle)"

inductive em_step :: "'a em \<Rightarrow> 'a em \<Rightarrow> bool" where
  ring: "em_ring_move (em_ring m) r' \<Longrightarrow> em_step m (m\<lparr>em_ring := r'\<rparr>)"
| push_call: "t \<noteq> 0 \<Longrightarrow> em_pc m t = EIdle \<Longrightarrow> lf_pc (em_ring m) t = LIdle \<Longrightarrow>
    em_step m (em_goto t EPush t (PushStart (Some msg)) m)"
| push_return: "em_pc m t = EPush \<Longrightarrow> lf_pc (em_ring m) t = PushDone b \<Longrightarrow>
    em_step m (em_goto t (if b then ESize else EIdle) t LIdle m)"
| push_test: "em_pc m t = ESize \<Longrightarrow>
    em_step m (m\<lparr>em_pc := (em_pc m)(t := if arrayLockFreeQueueSize (lf_q (em_ring m)) = 1 then ESend else EIdle)\<rparr>)"
| push_send: "em_pc m t = ESend \<Longrightarrow>
    em_step m (m\<lparr>em_pc := (em_pc m)(t := EIdle), em_bytes := em_bytes m + 1\<rparr>)"
| exit: "em_step m (m\<lparr>em_isExit := True\<rparr>)"
| recv: "em_pc m 0 = EPoll \<Longrightarrow> 0 < em_bytes m \<Longrightarrow>
    em_step m (m\<lparr>em_bytes := em_bytes m - min 64 (em_bytes m), em_pc := (em_pc m)(0 := EDrain)\<rparr>)"
| pop_call: "em_pc m 0 = EDrain \<Longrightarrow> lf_pc (em_ring m) 0 = LIdle \<Longrightarrow>
    em_step m (em_goto 0 EDrain 0 PopStart m)"
| pop_some: "em_pc m 0 = EDrain \<Longrightarrow> lf_pc (em_ring m) 0 = PopDone (Some qdata) \<Longrightarrow>
    em_step m ((em_goto 0 EDrain 0 LIdle m)\<lparr>em_calls := em_calls m @ [qdata]\<rparr>)"
| pop_none: "em_pc m 0 = EDrain \<Longrightarrow> lf_pc (em_ring m) 0 = PopDone None \<Longrightarrow>
    em_step m ((em_goto 0 EPoll 0 LIdle m)\<lparr>em_exits := (if em_isExit m then em_exits m + 1 else em_exits m)\<rparr>)"

text \<open>Runs in which the ring's indices and its count do not wrap around.\<close>

inductive em_runs :: "'a em \<Rightarrow> 'a em \<Rightarrow> bool" for m0 where
  start: "em_runs m0 m0"
| move: "em_runs m0 m \<Longrightarrow> unat (lf_writeIndex (lf_q (em_ring m))) < 2 ^ 32 - 1 \<Longrightarrow>
    unat (lf_count (lf_q (em_ring m))) < 2 ^ 32 - 1 \<Longrightarrow> em_step m m' \<Longrightarrow> em_runs m0 m'"

text \<open>The state in which the event loop sleeps for good.\<close>

fun lf_popping :: "'a lf_pc \<Rightarrow> bool" where
  "lf_popping PopStart = True"
| "lf_popping (PopR _) = True"
| "lf_popping (PopRM _ _) = True"
| "lf_popping (PopItem _ _) = True"
| "lf_popping (PopCount _) = True"
| "lf_popping _ = False"

definition em_asleep :: "'a em \<Rightarrow> bool" where
  "em_asleep m \<longleftrightarrow> em_pc m 0 = EPoll \<and> em_bytes m = 0 \<and> 2 \<le> unat (lf_count (lf_q (em_ring m))) \<and>
     (\<forall>t. em_pc m t \<noteq> ESend \<and> \<not> lf_popping (lf_pc (em_ring m) t))"

lemma em_goto_simps [simp]:
  "em_pc (em_goto t p u lp m) = (em_pc m)(t := p)" "em_bytes (em_goto t p u lp m) = em_bytes m"
  "em_ring (em_goto t p u lp m) = lf_goto u lp (em_ring m)" "em_calls (em_goto t p u lp m) = em_calls m"
  "em_isExit (em_goto t p u lp m) = em_isExit m" "em_exits (em_goto t p u lp m) = em_exits m"
  by (simp_all add: em_goto_def)

lemma lf_asleep_step:
  assumes "em_ring_move r r'" "\<forall>t. \<not> lf_popping (lf_pc r t)" "2 \<le> unat (lf_count (lf_q r))"
    "unat (lf_count (lf_q r)) < 2 ^ 32 - 1"
  shows "(\<forall>t. \<not> lf_popping (lf_pc r' t)) \<and> 2 \<le> unat (lf_count (lf_q r'))"
proof -
  from assms(1) have st: "lfq_step r r'" and idle: "lf_pc r' t = LIdle" if "lf_pc r t = LIdle" for t
    using that by (auto simp: em_ring_move_def)
  have st: "lfq_step r r'" using assms(1) by (simp add: em_ring_move_def)
  have inc: "unat (lf_count (lf_q r) + 1) = Suc (unat (lf_count (lf_q r)))"
    using assms(4) by (simp add: unat_word_ariths)
  show ?thesis
    using st
  proof (cases rule: lfq_step.cases)
    case (pop_call t)
    then show ?thesis using idle [of t] by simp
  next
    case (pop_read_r t) then show ?thesis using assms(2) [rule_format, of t] by simp
  next
    case (pop_read_m t r) then show ?thesis using assms(2) [rule_format, of t] by simp
  next
    case (pop_empty t r m) then show ?thesis using assms(2) [rule_format, of t] by simp
  next
    case (pop_item t r m) then show ?thesis using assms(2) [rule_format, of t] by simp
  next
    case (pop_cas_ok t r x) then show ?thesis using assms(2) [rule_format, of t] by simp
  next
    case (pop_cas_fail t r x) then show ?thesis using assms(2) [rule_format, of t] by simp
  next
    case (pop_count t x) then show ?thesis using assms(2) [rule_format, of t] by simp
  next
    case (push_count t)
    then show ?thesis using assms(2,3) inc by simp
  qed (use assms(2,3) in auto)
qed

lemma em_asleep_step:
  "em_step m m' \<Longrightarrow> em_asleep m \<Longrightarrow> unat (lf_count (lf_q (em_ring m))) < 2 ^ 32 - 1 \<Longrightarrow>
    em_asleep m' \<and> em_calls m' = em_calls m"
proof (induction rule: em_step.induct)
  case (ring m r')
  with lf_asleep_step [of "em_ring m" r'] show ?case by (auto simp: em_asleep_def)
next
  case (push_test m t)
  have "arrayLockFreeQueueSize (lf_q (em_ring m)) \<noteq> 1"
    using push_test by (auto simp: em_asleep_def arrayLockFreeQueueSize_def)
  with push_test show ?case by (cases "t = 0") (auto simp: em_asleep_def)
next
  case (push_return m t b)
  then show ?case by (cases "t = 0") (auto simp: em_asleep_def)
qed (auto simp: em_asleep_def)

lemma em_asleep_runs: "em_runs m m' \<Longrightarrow> em_asleep m \<Longrightarrow> em_asleep m' \<and> em_calls m' = em_calls m"
  by (induction rule: em_runs.induct) (auto dest!: em_asleep_step)

subsection \<open>An uninterrupted push of the LOCKFREE build\<close>

definition em_ring_ok :: "'a lfs \<Rightarrow> bool" where
  "em_ring_ok r \<longleftrightarrow> unat (lf_writeIndex (lf_q r)) < 2 ^ 32 - 1 \<and> unat (lf_count (lf_q r)) < 2 ^ 32 - 1"

lemma em_runs_ring:
  assumes "em_runs m0 m" "em_ring_ok (em_ring m)" "em_ring_move (em_ring m) r'"
  shows "em_runs m0 (m\<lparr>em_ring := r'\<rparr>)"
  using assms by (intro em_runs.move [OF assms(1) _ _ em_step.ring]) (auto simp: em_ring_ok_def)

lemma em_upd_order: "(m\<lparr>em_ring := r\<rparr>)\<lparr>em_pc := p\<rparr> = (m\<lparr>em_pc := p\<rparr>)\<lparr>em_ring := r\<rparr>"
  by simp

lemma em_runs_push:
  fixes m :: "'a em"
  assumes run: "em_runs m0 m" and t: "t \<noteq> 0" "em_pc m t = EIdle" "lf_pc (em_ring m) t = LIdle"
    and mx: "lf_maximumReadIndex (lf_q (em_ring m)) = lf_writeIndex (lf_q (em_ring m))"
    and ne: "countToIndex (lf_q (em_ring m)) (lf_writeIndex (lf_q (em_ring m)) + 1) \<noteq>
             countToIndex (lf_q (em_ring m)) (lf_readIndex (lf_q (em_ring m)))"
    and w: "Suc (unat (lf_writeIndex (lf_q (em_ring m)))) < 2 ^ 32 - 1"
    and c: "Suc (unat (lf_count (lf_q (em_ring m)))) < 2 ^ 32 - 1"
  shows "em_runs m0 (m\<lparr>em_pc := (em_pc m)(t := ESize),
    em_ring := (em_ring m)\<lparr>lf_q := snd (the (arrayLockFreeQueuePush (lf_q (em_ring m)) (Some e))),
                            lf_hist := lf_hist (em_ring m) @ [Some e]\<rparr>\<rparr>)"
proof -
  let ?r = "em_ring m"
  let ?q = "lf_q ?r"
  let ?w = "lf_writeIndex ?q" and ?rd = "lf_readIndex ?q" and ?h = "lf_hist ?r @ [Some e]"
  let ?q1 = "?q\<lparr>lf_writeIndex := ?w + 1\<rparr>"
  let ?q2 = "?q1\<lparr>lf_items := (lf_items ?q)[unat (countToIndex ?q1 ?w) := Some e]\<rparr>"
  let ?q3 = "?q2\<lparr>lf_maximumReadIndex := ?w + 1\<rparr>"
  let ?q4 = "?q3\<lparr>lf_count := lf_count ?q + 1\<rparr>"
  let ?at = "\<lambda>q h p. m\<lparr>em_pc := (em_pc m)(t := EPush), em_ring := lf_goto t p (?r\<lparr>lf_q := q, lf_hist := h\<rparr>)\<rparr>"
  have w1: "unat (?w + 1) = Suc (unat ?w)" "unat (lf_count ?q + 1) = Suc (unat (lf_count ?q))"
    using w c by (simp_all add: unat_word_ariths)
  have ci: "countToIndex ?q1 = countToIndex ?q" by (simp add: countToIndex_def fun_eq_iff)
  have gg: "lf_goto t p (lf_goto t p' x) = lf_goto t p x" for p p' and x :: "'a lfs"
    by (cases x) (simp add: lf_goto_def)
  note go = em_ring_ok_def em_ring_move_def gg w1
  have "em_runs m0 (em_goto t EPush t (PushStart (Some e)) m)"
    by (rule em_runs.move [OF run _ _ em_step.push_call]) (use w c t in simp_all)
  then have r1: "em_runs m0 (?at ?q (lf_hist ?r) (PushStart (Some e)))" by (simp add: em_goto_def)
  have r2: "em_runs m0 (?at ?q (lf_hist ?r) (PushW (Some e) ?w))"
    using em_runs_ring [OF r1, of "lf_goto t (PushW (Some e) ?w) (em_ring m)"] w c
      lfq_step.push_read_w [of "lf_goto t (PushStart (Some e)) ?r" t "Some e"]
    by (simp add: go)
  have r3: "em_runs m0 (?at ?q (lf_hist ?r) (PushWR (Some e) ?w ?rd))"
    using em_runs_ring [OF r2, of "lf_goto t (PushWR (Some e) ?w ?rd) (em_ring m)"] w c
      lfq_step.push_read_r [of "lf_goto t (PushW (Some e) ?w) ?r" t "Some e" ?w]
    by (simp add: go)
  have r4: "em_runs m0 (?at ?q1 ?h (PushStore (Some e) ?w))"
    using em_runs_ring [OF r3, of "lf_goto t (PushStore (Some e) ?w) (?r\<lparr>lf_q := ?q1, lf_hist := ?h\<rparr>)"] w c ne
      lfq_step.push_cas_ok [of "lf_goto t (PushWR (Some e) ?w ?rd) ?r" t "Some e" ?w ?rd]
    by (simp add: go lf_goto_def)
  have r5: "em_runs m0 (?at ?q2 ?h (PushPub (Some e) ?w))"
    using em_runs_ring [OF r4, of "lf_goto t (PushPub (Some e) ?w) (?r\<lparr>lf_q := ?q2, lf_hist := ?h\<rparr>)"] w c
      lfq_step.push_store [of "lf_goto t (PushStore (Some e) ?w) (?r\<lparr>lf_q := ?q1, lf_hist := ?h\<rparr>)" t "Some e" ?w]
    by (simp add: go lf_goto_def lf_upd_order)
  have r6: "em_runs m0 (?at ?q3 ?h PushCount)"
    using em_runs_ring [OF r5, of "lf_goto t PushCount (?r\<lparr>lf_q := ?q3, lf_hist := ?h\<rparr>)"] w c mx
      lfq_step.push_publish [of "lf_goto t (PushPub (Some e) ?w) (?r\<lparr>lf_q := ?q2, lf_hist := ?h\<rparr>)" t "Some e" ?w]
    by (simp add: go lf_goto_def lf_upd_order)
  have r7: "em_runs m0 (?at ?q4 ?h (PushDone True))"
    using em_runs_ring [OF r6, of "lf_goto t (PushDone True) (?r\<lparr>lf_q := ?q4, lf_hist := ?h\<rparr>)"] w c
      lfq_step.push_count [of "lf_goto t PushCount (?r\<lparr>lf_q := ?q3, lf_hist := ?h\<rparr>)" t]
    by (simp add: go lf_goto_def lf_upd_order)
  have "em_runs m0 (em_goto t (if True then ESize else EIdle) t LIdle (?at ?q4 ?h (PushDone True)))"
    by (rule em_runs.move [OF r7 _ _ em_step.push_return]) (use w c w1 in simp_all)
  moreover have "em_goto t (if True then ESize else EIdle) t LIdle (?at ?q4 ?h (PushDone True)) =
      m\<lparr>em_pc := (em_pc m)(t := ESize), em_ring := ?r\<lparr>lf_q := ?q4, lf_hist := ?h\<rparr>\<rparr>"
    using fun_upd_idem [of "lf_pc ?r" t LIdle] t(3) by (simp add: em_goto_def lf_goto_def)
  moreover have "snd (the (arrayLockFreeQueuePush ?q (Some e))) = ?q4"
    using ne mx by (cases ?q) (simp add: arrayLockFreeQueuePush_def Let_def ci countToIndex_def)
  ultimately show ?thesis by simp
qed

subsection \<open>Properties\<close>

text \<open>
  C36: in the LOCK build no wake-up is lost. In every state that any number of threads calling
  emPush can reach, if the event loop waits for the socket pair and the queue holds messages,
  then a byte is waiting to be read.
\<close>
theorem em_locked_no_lost_wakeup:
  assumes "unat sz \<le> 2 ^ 31" "circQueueCreate True True sz = Some cq" "eml_reach cq m"
    "eml_pc m = LPoll" "cq_list (eml_queue m) \<noteq> []"
  shows "0 < eml_bytes m"
  using eml_reach_inv [OF assms(3)] circQueueCreate_inv [OF assms(1,2)] assms(4,5)
  by (auto simp: eml_inv_def)

lemma em_locked_no_lost_wakeup_witness:
  "\<exists>cq m. circQueueCreate True True 4 = Some (cq :: nat circQueue) \<and> eml_reach cq m \<and>
     cq_list (eml_queue m) = [Some 5] \<and> 0 < eml_bytes m"
proof -
  obtain cq where c: "circQueueCreate True True 4 = Some (cq :: nat circQueue)"
    by (simp add: circQueueCreate_def Let_def)
  obtain r m where p: "emPush_locked (eml_init cq) (Some 5) = Some (r, m)"
    and m: "eml_pc m = LPoll" "cq_list (eml_queue m) = [Some 5]"
    using c by (auto simp: circQueueCreate_def Let_def nextpow2_4 replicate_4 emPush_locked_def eml_init_def
        circQueuePushTail_def circQueueStore_def cq_list_def window_def)
  have e: "eml_reach cq m" by (rule eml_reach.step [OF eml_reach.init eml_step.push [OF p]])
  have "0 < eml_bytes m"
    by (rule em_locked_no_lost_wakeup [OF _ c e m(1)]) (simp_all add: m)
  with c e m show ?thesis by blast
qed

text \<open>
  In the LOCKFREE build, the one the file selects, the event loop can fall asleep for good.
  Two threads push into an empty queue before either reads its size; both then read 2 and
  neither sends. The event loop waits beside two messages, and in every continuation, whatever
  else is pushed, no byte is ever sent and the callback is never called again.
\<close>
theorem em_lockfree_lost_wakeup:
  "\<exists>m. em_runs (emCreate 4) m \<and> (\<forall>t\<noteq>0. em_pc m t = EIdle) \<and> em_pc m 0 = EPoll \<and>
     lfq_contents (lf_q (em_ring m)) = [7, 8 :: nat] \<and>
     (\<forall>m'. em_runs m m' \<longrightarrow> em_pc m' 0 = EPoll \<and> em_bytes m' = 0 \<and> em_calls m' = [])"
proof -
  let ?m0 = "emCreate 4 :: nat em"
  let ?q1 = "lf_q0\<lparr>lf_writeIndex := 1, lf_items := [Some 7, None, None, None],
      lf_maximumReadIndex := 1, lf_count := 1\<rparr>"
  let ?q2 = "lf_q0\<lparr>lf_writeIndex := 2, lf_items := [Some 7, Some 8, None, None],
      lf_maximumReadIndex := 2, lf_count := 2\<rparr>"
  have q1: "snd (the (arrayLockFreeQueuePush lf_q0 (Some 7))) = ?q1"
    by (simp add: arrayLockFreeQueuePush_def countToIndex_def)
  have q2: "snd (the (arrayLockFreeQueuePush ?q1 (Some 8))) = ?q2"
    by (simp add: arrayLockFreeQueuePush_def countToIndex_def)
  have z: "em_ring ?m0 = lf_init lf_q0" "em_bytes ?m0 = 0" "em_calls ?m0 = []"
    "em_pc ?m0 = (\<lambda>t. if t = 0 then EPoll else EIdle)"
    by (simp_all add: emCreate_def lf_q0_def)
  let ?p1 = "(em_pc ?m0)(1 := ESize)"
  let ?m1 = "?m0\<lparr>em_pc := ?p1, em_ring := (lf_init lf_q0)\<lparr>lf_q := ?q1, lf_hist := [Some 7]\<rparr>\<rparr>"
  let ?R2 = "(lf_init lf_q0)\<lparr>lf_q := ?q2, lf_hist := [Some 7, Some 8]\<rparr>"
  let ?m2 = "?m0\<lparr>em_pc := ?p1(2 := ESize), em_ring := ?R2\<rparr>"
  have r1: "em_runs ?m0 ?m1"
    using em_runs_push [OF em_runs.start, of 1 ?m0 7] by (simp add: z countToIndex_def q1)
  have r2: "em_runs ?m0 ?m2"
    using em_runs_push [OF r1, of 2 8] by (simp add: z countToIndex_def q2)
  let ?m3 = "?m0\<lparr>em_pc := ?p1(2 := ESize, 1 := EIdle), em_ring := ?R2\<rparr>"
  have r3: "em_runs ?m0 ?m3"
    using em_runs.move [OF r2 _ _ em_step.push_test [of _ 1]] by (simp add: z arrayLockFreeQueueSize_def em_upd_order)
  let ?m4 = "?m0\<lparr>em_pc := ?p1(2 := ESize, 1 := EIdle, 2 := EIdle), em_ring := ?R2\<rparr>"
  have r4: "em_runs ?m0 ?m4"
    using em_runs.move [OF r3 _ _ em_step.push_test [of _ 2]] by (simp add: z arrayLockFreeQueueSize_def em_upd_order)
  have a: "em_asleep ?m4" by (simp add: em_asleep_def z)
  have "lfq_contents ?q2 = [7, 8]"
    by (simp add: lfq_contents_def lfq_list_def window_def upt_rec)
  then show ?thesis
    using r4 em_asleep_runs [OF _ a] by (intro exI [of _ ?m4]) (auto simp: z em_asleep_def)
qed

lemma em_lockfree_lost_wakeup_witness:
  "\<exists>m. em_runs (emCreate 4) m \<and> lfq_contents (lf_q (em_ring m)) = [7, 8 :: nat] \<and> em_pc m 0 = EPoll \<and>
     em_bytes m = 0 \<and> em_calls m = []"
  using em_lockfree_lost_wakeup em_runs.start by metis

end
