(* ===== verification/Context.thy ===== *)
theory Context
  imports Mailbox
begin

section \<open>Contexts and their manager (src/context.c, src/ctx_mgr.c)\<close>

text \<open>
  A context is an actor: a module instance, a callback, a mailbox and a reference count.
  Contexts live on a heap, a map from addresses to contexts, because senders, workers and the
  manager hold pointers to them; an access through a dangling pointer is \<open>None\<close>, and so is a
  failed assert. The manager's table finds a context by \<open>id % setsize\<close>.

  The theorems: ctxMgrAddContext keeps the table well formed, gives the new context an id
  under which it is found and leaves every other context findable, also across a doubling of
  the table, and finds a free slot if there is one; ctxMgrReleaseContext on the last reference
  takes out exactly that context; contextDispatchMessage takes the oldest message of the
  mailbox; and the places where the code is weaker than it looks: a stale id finds whatever
  context occupies its slot, and session ids repeat when they wrap around.
\<close>

subsection \<open>Decimal output of snprintf\<close>

fun dec_nat :: "nat \<Rightarrow> string" where
  "dec_nat n = (if n < 10 then [char_of (48 + n)] else dec_nat (n div 10) @ [char_of (48 + n mod 10)])"

declare dec_nat.simps [simp del]

definition dec_int :: "int \<Rightarrow> string" where
  "dec_int i = (if i < 0 then CHR ''-'' # dec_nat (nat (- i)) else dec_nat (nat i))"

text \<open>snprintf into a buffer of \<open>n\<close> bytes keeps \<open>n - 1\<close> characters.\<close>

definition snprintf :: "nat \<Rightarrow> string \<Rightarrow> string" where
  "snprintf n s = take (n - 1) s"

subsection \<open>context.c\<close>

record zcontext =
  ctx_id :: u32
  ctx_result :: string
  ctx_name :: string
  ctx_ref :: u32
  ctx_sessionid :: u32
  ctx_instance :: "nat ptr"
  ctx_mod :: "nat ptr"
  ctx_cb :: "nat ptr"
  ctx_ud :: "nat ptr"
  ctx_queue :: messageQueue
  ctx_exit :: int
  ctx_state :: int
  ctx_workerId :: int
  ctx_inGlobal :: int

type_synonym heap = "nat \<Rightarrow> zcontext option"

definition MSG_TYPE_EXIT_CONTEXT :: u32 where "MSG_TYPE_EXIT_CONTEXT = 0xFFFFFFFF"
definition MSG_TYPE_NEWSESSION :: u32 where "MSG_TYPE_NEWSESSION = 0x00080000"

text \<open>
  \<open>query\<close> and \<open>create\<close> are moduleQuery and moduleInstanceCreate; \<open>a\<close> is the address zcalloc
  returns.
\<close>

definition contextCreate :: "(string \<Rightarrow> nat ptr) \<Rightarrow> (nat \<Rightarrow> nat ptr) \<Rightarrow> nat \<Rightarrow> heap \<Rightarrow> string \<Rightarrow> nat ptr \<times> heap" where
  "contextCreate query create a h modname =
     (case query modname of
        None \<Rightarrow> (None, h)
      | Some m \<Rightarrow>
          (case create m of
             None \<Rightarrow> (None, h)
           | Some inst \<Rightarrow>
               (Some a, h(a \<mapsto> \<lparr>ctx_id = 0, ctx_result = [], ctx_name = [], ctx_ref = 1, ctx_sessionid = 1,
                  ctx_instance = Some inst, ctx_mod = Some m, ctx_cb = None, ctx_ud = None,
                  ctx_queue = messageQueueCreate 1024, ctx_exit = 0, ctx_state = 0, ctx_workerId = 0,
                  ctx_inGlobal = 0\<rparr>))))"

text \<open>The result is whether the returned pointer is non-NULL.\<close>

definition contextRelease :: "heap \<Rightarrow> nat \<Rightarrow> (bool \<times> heap) option" where
  "contextRelease h a =
     (case h a of
        None \<Rightarrow> None
      | Some c \<Rightarrow> if ctx_ref c = 1 then Some (False, h(a := None))
                  else Some (True, h(a \<mapsto> c\<lparr>ctx_ref := ctx_ref c - 1\<rparr>)))"

definition contextRetain :: "heap \<Rightarrow> nat ptr \<Rightarrow> heap option" where
  "contextRetain h p =
     (case p of
        None \<Rightarrow> Some h
      | Some a \<Rightarrow> (case h a of None \<Rightarrow> None | Some c \<Rightarrow> Some (h(a \<mapsto> c\<lparr>ctx_ref := ctx_ref c + 1\<rparr>))))"

definition contextSetCallback :: "heap \<Rightarrow> nat \<Rightarrow> nat ptr \<Rightarrow> nat ptr \<Rightarrow> heap option" where
  "contextSetCallback h a cb ud =
     (case h a of None \<Rightarrow> None | Some c \<Rightarrow> Some (h(a \<mapsto> c\<lparr>ctx_cb := cb, ctx_ud := ud\<rparr>)))"

text \<open>The increment and the swap of 0 by 1, without another thread in between.\<close>

definition contextNewsession :: "zcontext \<Rightarrow> u32 \<times> zcontext" where
  "contextNewsession c =
     (let i = ctx_sessionid c; c1 = c\<lparr>ctx_sessionid := i + 1\<rparr>
      in if ctx_sessionid c1 = 0 then (1, c1\<lparr>ctx_sessionid := 1\<rparr>) else (i, c1))"

datatype dispatched =
    NoMessage
  | Dropped message          \<comment> \<open>no callback\<close>
  | Exited message           \<comment> \<open>the exit message: the first reference is given up\<close>
  | Called message           \<comment> \<open>the callback has run on the message\<close>

text \<open>
  The callback itself is the module's code; the heap is that at its call. The assert on
  contextRelease is \<open>None\<close> when it fails.
\<close>

definition contextDispatchMessage :: "heap \<Rightarrow> nat \<Rightarrow> (int \<times> dispatched \<times> heap) option" where
  "contextDispatchMessage h a =
     (case h a of
        None \<Rightarrow> None
      | Some c \<Rightarrow>
          (case messageQueuePop (ctx_queue c) of
             (None, q) \<Rightarrow> Some (-1, NoMessage, h)
           | (Some msg, q) \<Rightarrow>
               let h1 = h(a \<mapsto> c\<lparr>ctx_queue := q\<rparr>)
               in if ctx_cb c = None then Some (-1, Dropped msg, h1)
                  else if msg_type msg = MSG_TYPE_EXIT_CONTEXT
                  then (case contextRelease h1 a of
                          None \<Rightarrow> None
                        | Some (alive, h2) \<Rightarrow> if alive then Some (-2, Exited msg, h2) else None)
                  else Some (0, Called msg, h1)))"

subsection \<open>ctx_mgr.c\<close>

record ctxMgr =
  cm_allocId :: u32
  cm_contextNum :: u32
  cm_contexts :: "nat ptr list"
  cm_setsize :: u32

definition ctxMgrCreate :: "u32 \<Rightarrow> ctxMgr" where
  "ctxMgrCreate setsize =
     \<lparr>cm_allocId = 0, cm_contextNum = 0, cm_contexts = replicate (unat setsize) None, cm_setsize = setsize\<rparr>"

text \<open>The copy loop of the doubling, over the slots \<open>is\<close>.\<close>

fun ctxMgrMove :: "heap \<Rightarrow> u32 \<Rightarrow> nat ptr list \<Rightarrow> nat ptr list \<Rightarrow> nat ptr list option" where
  "ctxMgrMove h newsetsize [] tmp = Some tmp"
| "ctxMgrMove h newsetsize (None # cs) tmp = ctxMgrMove h newsetsize cs tmp"
| "ctxMgrMove h newsetsize (Some a # cs) tmp =
     (case h a of
        None \<Rightarrow> None
      | Some c \<Rightarrow> ctxMgrMove h newsetsize cs (tmp[unat (ctx_id c mod newsetsize) := Some a]))"

definition ctxMgrGrow :: "heap \<Rightarrow> ctxMgr \<Rightarrow> ctxMgr option" where
  "ctxMgrGrow h m =
     (if cm_contextNum m \<ge> cm_setsize m then
        (let newsetsize = cm_setsize m * 2
         in case ctxMgrMove h newsetsize (cm_contexts m) (replicate (unat newsetsize) None) of
              None \<Rightarrow> None
            | Some tmp \<Rightarrow> Some (m\<lparr>cm_setsize := newsetsize, cm_contexts := tmp\<rparr>))
      else Some m)"

text \<open>One value of \<open>mgr->allocId++\<close> with the correction of 0 to 1.\<close>

definition ctxMgrNextId :: "ctxMgr \<Rightarrow> u32 \<times> ctxMgr" where
  "ctxMgrNextId m =
     (if cm_allocId m = 0 then (1, m\<lparr>cm_allocId := 1\<rparr>)
      else (cm_allocId m, m\<lparr>cm_allocId := cm_allocId m + 1\<rparr>))"

text \<open>
  The search for a free slot, \<open>k\<close> being the iterations left. The result is the id, as the
  int that is returned, or -1; the context keeps the last id tried in either case.
\<close>

fun ctxMgrSearch :: "nat \<Rightarrow> ctxMgr \<Rightarrow> zcontext \<Rightarrow> nat \<Rightarrow> int \<times> ctxMgr \<times> zcontext" where
  "ctxMgrSearch 0 m c a = (-1, m, c)"
| "ctxMgrSearch (Suc k) m c a =
     (let (i, m1) = ctxMgrNextId m; c1 = c\<lparr>ctx_id := i\<rparr>; slot = unat (i mod cm_setsize m)
      in if cm_contexts m1 ! slot = None
         then (sint i, m1\<lparr>cm_contexts := (cm_contexts m1)[slot := Some a],
                          cm_contextNum := cm_contextNum m1 + 1\<rparr>, c1)
         else ctxMgrSearch k m1 c1 a)"

definition ctxMgrAddContext :: "ctxMgr \<Rightarrow> heap \<Rightarrow> nat \<Rightarrow> (int \<times> ctxMgr \<times> heap) option" where
  "ctxMgrAddContext m h a =
     (case (ctxMgrGrow h m, h a) of
        (Some m1, Some c) \<Rightarrow>
          (case ctxMgrSearch (unat (cm_setsize m1)) m1 c a of
             (r, m2, c2) \<Rightarrow> Some (r, m2, h(a \<mapsto> c2)))
      | _ \<Rightarrow> None)"

text \<open>The parameter \<open>id\<close> is an int; \<open>id % mgr->setsize\<close> is computed in uint32_t.\<close>

definition ctxMgrRemoveContext :: "ctxMgr \<Rightarrow> u32 \<Rightarrow> int \<times> ctxMgr" where
  "ctxMgrRemoveContext m i =
     (if sint i < 0 then (-1, m)
      else let slot = unat (i mod cm_setsize m)
           in if cm_contexts m ! slot \<noteq> None
              then (0, m\<lparr>cm_contexts := (cm_contexts m)[slot := None], cm_contextNum := cm_contextNum m - 1\<rparr>)
              else (0, m))"

definition ctxMgrLookup :: "ctxMgr \<Rightarrow> u32 \<Rightarrow> nat ptr" where
  "ctxMgrLookup m i = cm_contexts m ! unat (i mod cm_setsize m)"

definition ctxMgrGetContext :: "ctxMgr \<Rightarrow> heap \<Rightarrow> u32 \<Rightarrow> (nat ptr \<times> heap) option" where
  "ctxMgrGetContext m h i =
     (let ctx = ctxMgrLookup m i in map_option (\<lambda>h'. (ctx, h')) (contextRetain h ctx))"

definition ctxMgrReleaseContext :: "ctxMgr \<Rightarrow> heap \<Rightarrow> nat \<Rightarrow> (ctxMgr \<times> heap) option" where
  "ctxMgrReleaseContext m h a =
     (case h a of
        None \<Rightarrow> None
      | Some c \<Rightarrow>
          (case contextRelease h a of
             None \<Rightarrow> None
           | Some (alive, h') \<Rightarrow> Some (if alive then m else snd (ctxMgrRemoveContext m (ctx_id c)), h')))"

text \<open>\<open>init\<close> is moduleInstanceInit: its result and the heap it leaves.\<close>

definition ctxMgrCreateContext ::
    "(string \<Rightarrow> nat ptr) \<Rightarrow> (nat \<Rightarrow> nat ptr) \<Rightarrow> (nat \<Rightarrow> heap \<Rightarrow> int \<times> heap) \<Rightarrow> nat \<Rightarrow>
      ctxMgr \<Rightarrow> heap \<Rightarrow> string \<Rightarrow> (nat ptr \<times> ctxMgr \<times> heap) option" where
  "ctxMgrCreateContext query create init a m h modname =
     (case contextCreate query create a h modname of
        (None, h1) \<Rightarrow> Some (None, m, h1)
      | (Some ctx, h1) \<Rightarrow>
          (case ctxMgrAddContext m h1 ctx of
             None \<Rightarrow> None
           | Some (i, m2, h2) \<Rightarrow>
               if i < 0 then Some (None, m2, h2)
               else (case h2 ctx of
                 None \<Rightarrow> None
               | Some c \<Rightarrow>
                   (case init ctx (h2(ctx \<mapsto> c\<lparr>ctx_name := snprintf 32 (''c_'' @ dec_int i)\<rparr>)) of
                      (r, h3) \<Rightarrow> if r \<noteq> 0 then Some (None, snd (ctxMgrRemoveContext m2 (word_of_int i)), h3)
                                 else Some (Some ctx, m2, h3)))))"

text \<open>The loop of ctxMgrStop over the slots from \<open>i\<close> on, \<open>k\<close> of them.\<close>

fun ctxMgrStopFrom :: "nat \<Rightarrow> nat \<Rightarrow> ctxMgr \<Rightarrow> heap \<Rightarrow> (ctxMgr \<times> heap) option" where
  "ctxMgrStopFrom 0 i m h = Some (m, h)"
| "ctxMgrStopFrom (Suc k) i m h =
     (case cm_contexts m ! i of
        None \<Rightarrow> ctxMgrStopFrom k (Suc i) m h
      | Some a \<Rightarrow>
          (case contextRelease h a of
             None \<Rightarrow> None
           | Some (alive, h') \<Rightarrow>
               ctxMgrStopFrom k (Suc i)
                 (if alive then m else m\<lparr>cm_contexts := (cm_contexts m)[i := None],
                                        cm_contextNum := cm_contextNum m - 1\<rparr>) h'))"

definition ctxMgrStop :: "ctxMgr \<Rightarrow> heap \<Rightarrow> (ctxMgr \<times> heap) option" where
  "ctxMgrStop m h = ctxMgrStopFrom (unat (cm_setsize m)) 0 m h"

subsection \<open>The table's invariant\<close>

definition cm_regs :: "ctxMgr \<Rightarrow> nat set" where
  "cm_regs m = {a. Some a \<in> set (cm_contexts m)}"

definition cm_slot :: "heap \<Rightarrow> u32 \<Rightarrow> nat \<Rightarrow> nat" where
  "cm_slot h n a = unat (ctx_id (the (h a)) mod n)"

definition cm_inv :: "heap \<Rightarrow> ctxMgr \<Rightarrow> bool" where
  "cm_inv h m \<longleftrightarrow> 0 < unat (cm_setsize m) \<and> length (cm_contexts m) = unat (cm_setsize m) \<and>
     unat (cm_contextNum m) = card (cm_regs m) \<and>
     (\<forall>i a. i < length (cm_contexts m) \<longrightarrow> cm_contexts m ! i = Some a \<longrightarrow>
        (\<exists>c. h a = Some c \<and> ctx_id c \<noteq> 0) \<and> cm_slot h (cm_setsize m) a = i)"

lemma cm_slot_less: "0 < unat n \<Longrightarrow> cm_slot h n a < unat n"
  by (simp add: cm_slot_def unat_mod_distrib)

lemma cm_invD:
  assumes "cm_inv h m" "a \<in> cm_regs m"
  shows "\<exists>c. h a = Some c \<and> ctx_id c \<noteq> 0" "cm_contexts m ! cm_slot h (cm_setsize m) a = Some a"
    "cm_slot h (cm_setsize m) a < length (cm_contexts m)"
  using assms by (auto simp: cm_inv_def cm_regs_def in_set_conv_nth)

lemma cm_lookup:
  "cm_inv h m \<Longrightarrow> a \<in> cm_regs m \<Longrightarrow> ctxMgrLookup m (ctx_id (the (h a))) = Some a"
  using cm_invD(2) [of h m a] by (simp add: ctxMgrLookup_def cm_slot_def)

text \<open>The context a lookup finds is on the heap; the table only depends on the ids.\<close>

lemma lookup_regs:
  assumes "cm_inv h m" "ctxMgrLookup m i = Some a"
  shows "a \<in> cm_regs m" "\<exists>c. h a = Some c"
proof -
  have "unat (i mod cm_setsize m) < length (cm_contexts m)"
    using assms(1) by (simp add: cm_inv_def unat_mod_distrib)
  then show "a \<in> cm_regs m" using assms(2) nth_mem by (fastforce simp: ctxMgrLookup_def cm_regs_def)
  from cm_invD(1) [OF assms(1) this] show "\<exists>c. h a = Some c" by blast
qed

lemma cm_inv_cong:
  assumes "cm_inv h m" "\<And>a. map_option ctx_id (h' a) = map_option ctx_id (h a)"
  shows "cm_inv h' m"
proof -
  have "(\<exists>c. h' a = Some c \<and> ctx_id c \<noteq> 0) \<and> cm_slot h' n a = i"
    if "(\<exists>c. h a = Some c \<and> ctx_id c \<noteq> 0) \<and> cm_slot h n a = i" for a n i
    using assms(2) [of a] that by (cases "h' a") (auto simp: cm_slot_def)
  then show ?thesis using assms(1) unfolding cm_inv_def by meson
qed

lemma finite_cm_regs [simp]: "finite (cm_regs m)"
proof -
  have "cm_regs m \<subseteq> the ` set (cm_contexts m)" by (force simp: cm_regs_def)
  then show ?thesis using finite_subset by blast
qed

lemma card_cm_regs: "card (cm_regs m) \<le> length (cm_contexts m)"
proof -
  have "cm_regs m \<subseteq> the ` set (cm_contexts m)" by (force simp: cm_regs_def)
  then have "card (cm_regs m) \<le> card (the ` set (cm_contexts m))" by (intro card_mono) simp_all
  also have "\<dots> \<le> card (set (cm_contexts m))" by (rule card_image_le) simp
  also have "\<dots> \<le> length (cm_contexts m)" by (rule card_length)
  finally show ?thesis .
qed

text \<open>A table that is not full has a free slot.\<close>

lemma cm_free_slot:
  assumes "cm_inv h m" "card (cm_regs m) < unat (cm_setsize m)"
  shows "\<exists>i < unat (cm_setsize m). cm_contexts m ! i = None"
proof (rule ccontr)
  assume "\<not> ?thesis"
  then have full: "\<exists>a. cm_contexts m ! i = Some a" if "i < unat (cm_setsize m)" for i
    using that by auto
  have len: "length (cm_contexts m) = unat (cm_setsize m)" using assms(1) by (simp add: cm_inv_def)
  let ?f = "\<lambda>i. the (cm_contexts m ! i)"
  have "inj_on ?f {..<unat (cm_setsize m)}"
  proof (rule inj_onI)
    fix i j assume ij: "i \<in> {..<unat (cm_setsize m)}" "j \<in> {..<unat (cm_setsize m)}" "?f i = ?f j"
    then obtain a where "cm_contexts m ! i = Some a" "cm_contexts m ! j = Some a"
      using full [of i] full [of j] by auto
    then show "i = j" using assms(1) ij len by (auto simp: cm_inv_def)
  qed
  moreover have "?f ` {..<unat (cm_setsize m)} \<subseteq> cm_regs m"
  proof
    fix a assume "a \<in> ?f ` {..<unat (cm_setsize m)}"
    then obtain i where i: "i < unat (cm_setsize m)" "a = ?f i" by auto
    with full [OF i(1)] have "cm_contexts m ! i = Some a" by auto
    then show "a \<in> cm_regs m" using i(1) len nth_mem [of i "cm_contexts m"] by (simp add: cm_regs_def)
  qed
  ultimately have "unat (cm_setsize m) \<le> card (cm_regs m)"
    by (metis card_image card_lessThan card_mono finite_cm_regs)
  with assms(2) show False by simp
qed

subsection \<open>The doubling of the table\<close>

lemma ctxMgrMove_ok:
  assumes "\<And>a. Some a \<in> set cs \<Longrightarrow> h a \<noteq> None" "length tmp = unat n" "0 < unat n"
    "inj_on (cm_slot h n) {a. Some a \<in> set cs}"
  shows "\<exists>tmp'. ctxMgrMove h n cs tmp = Some tmp' \<and> length tmp' = unat n \<and>
    (\<forall>a. Some a \<in> set cs \<longrightarrow> tmp' ! cm_slot h n a = Some a) \<and>
    (\<forall>j. (\<forall>a. Some a \<in> set cs \<longrightarrow> cm_slot h n a \<noteq> j) \<longrightarrow> tmp' ! j = tmp ! j)"
  using assms
proof (induction h n cs tmp rule: ctxMgrMove.induct)
  case (3 h n a cs tmp)
  obtain c where c: "h a = Some c" using 3(2) [of a] by auto
  let ?tmp = "tmp[unat (ctx_id c mod n) := Some a]"
  have sl: "unat (ctx_id c mod n) = cm_slot h n a" by (simp add: cm_slot_def c)
  have inj: "inj_on (cm_slot h n) {x. Some x \<in> set cs}"
    using 3(5) by (rule inj_on_subset) auto
  obtain tmp' where t: "ctxMgrMove h n cs ?tmp = Some tmp'" "length tmp' = unat n"
    "\<And>x. Some x \<in> set cs \<Longrightarrow> tmp' ! cm_slot h n x = Some x"
    "\<And>j. (\<And>x. Some x \<in> set cs \<Longrightarrow> cm_slot h n x \<noteq> j) \<Longrightarrow> tmp' ! j = ?tmp ! j"
    using 3(1) [OF c _ _ _ inj] 3(2-4) by fastforce
  have "tmp' ! cm_slot h n a = Some a"
  proof (cases "\<exists>x. Some x \<in> set cs \<and> cm_slot h n x = cm_slot h n a")
    case True
    then obtain x where x: "Some x \<in> set cs" "cm_slot h n x = cm_slot h n a" by blast
    have "x = a" by (rule inj_onD [OF 3(5) x(2)]) (use x(1) in auto)
    then show ?thesis using t(3) x by simp
  next
    case False
    then have "tmp' ! cm_slot h n a = ?tmp ! cm_slot h n a" by (intro t(4)) auto
    then show ?thesis using sl cm_slot_less [OF 3(4), of h a] 3(3) by simp
  qed
  moreover have "tmp' ! j = tmp ! j" if "\<And>x. Some x \<in> set (Some a # cs) \<Longrightarrow> cm_slot h n x \<noteq> j" for j
    using t(4) [of j] that sl by simp
  ultimately show ?case using t(1-3) c by (intro exI [of _ tmp']) auto
qed auto

lemma ctxMgrGrow_ok:
  assumes inv: "cm_inv h m" and sz: "unat (cm_setsize m) < 2 ^ 31"
  shows "\<exists>m'. ctxMgrGrow h m = Some m' \<and> cm_inv h m' \<and> cm_regs m' = cm_regs m \<and>
    cm_allocId m' = cm_allocId m \<and> card (cm_regs m') < unat (cm_setsize m') \<and>
    unat (cm_setsize m') \<le> 2 * unat (cm_setsize m)"
proof (cases "cm_contextNum m \<ge> cm_setsize m")
  case False
  then have "unat (cm_contextNum m) < unat (cm_setsize m)" by (simp add: word_less_nat_alt not_le)
  with False inv show ?thesis by (simp add: ctxMgrGrow_def cm_inv_def)
next
  case True
  let ?n = "cm_setsize m" let ?n2 = "cm_setsize m * 2" let ?cs = "cm_contexts m"
  have len: "length ?cs = unat ?n" "0 < unat ?n" "unat (cm_contextNum m) = card (cm_regs m)"
    using inv by (auto simp: cm_inv_def)
  have n2: "unat ?n2 = 2 * unat ?n" using sz by (simp add: unat_word_ariths)
  have inj: "inj_on (cm_slot h ?n2) {a. Some a \<in> set ?cs}"
  proof (rule inj_onI)
    fix a b assume ab: "a \<in> {a. Some a \<in> set ?cs}" "b \<in> {a. Some a \<in> set ?cs}" "cm_slot h ?n2 a = cm_slot h ?n2 b"
    have half: "cm_slot h ?n x = cm_slot h ?n2 x mod unat ?n" for x
      by (simp add: cm_slot_def unat_mod_distrib n2 mod_mod_cancel)
    have eq: "cm_slot h ?n a = cm_slot h ?n b" unfolding half [of a] half [of b] ab(3) ..
    have "a \<in> cm_regs m" "b \<in> cm_regs m" using ab(1,2) by (simp_all add: cm_regs_def)
    from cm_invD(2) [OF inv this(1)] cm_invD(2) [OF inv this(2)] show "a = b"
      unfolding eq by simp
  qed
  obtain tmp where t: "ctxMgrMove h ?n2 ?cs (replicate (unat ?n2) None) = Some tmp" "length tmp = unat ?n2"
    "\<And>a. Some a \<in> set ?cs \<Longrightarrow> tmp ! cm_slot h ?n2 a = Some a"
    "\<And>j. (\<And>a. Some a \<in> set ?cs \<Longrightarrow> cm_slot h ?n2 a \<noteq> j) \<Longrightarrow> tmp ! j = replicate (unat ?n2) None ! j"
    using ctxMgrMove_ok [of ?cs h "replicate (unat ?n2) None" ?n2, OF _ _ _ inj]
      cm_invD(1) [OF inv] n2 len by (fastforce simp: cm_regs_def)
  let ?m = "m\<lparr>cm_setsize := ?n2, cm_contexts := tmp\<rparr>"
  have bk: "Some a \<in> set ?cs \<and> cm_slot h ?n2 a = j" if "j < unat ?n2" "tmp ! j = Some a" for j a
    using t(3,4) that by (metis nth_replicate option.distinct(1) option.inject)
  have regs: "cm_regs ?m = cm_regs m"
  proof (intro equalityI subsetI)
    fix a assume "a \<in> cm_regs ?m"
    then obtain j where "j < unat ?n2" "tmp ! j = Some a"
      using t(2) by (auto simp: cm_regs_def in_set_conv_nth)
    from bk [OF this] show "a \<in> cm_regs m" by (simp add: cm_regs_def)
  next
    fix a assume "a \<in> cm_regs m"
    then have a: "tmp ! cm_slot h ?n2 a = Some a" using t(3) by (simp add: cm_regs_def)
    have "cm_slot h ?n2 a < length tmp" using cm_slot_less [of ?n2 h a] t(2) n2 len by simp
    from nth_mem [OF this] a show "a \<in> cm_regs ?m" by (simp add: cm_regs_def)
  qed
  have "card (cm_regs m) \<le> unat ?n" using card_cm_regs [of m] len by simp
  moreover have "cm_inv h ?m"
    using regs n2 len t(2) cm_invD(1) [OF inv] bk unfolding cm_inv_def by (auto simp: cm_regs_def)
  ultimately show ?thesis
    using True t(1) regs n2 len by (simp add: ctxMgrGrow_def Let_def)
qed

subsection \<open>Registration\<close>

text \<open>What the search changes, and that it does not miss a free slot.\<close>

lemma ctxMgrSearch_ok:
  assumes "0 < unat (cm_allocId m)" "unat (cm_allocId m) + k < 2 ^ 32"
    "j < k" "cm_contexts m ! ((unat (cm_allocId m) + j) mod unat (cm_setsize m)) = None"
  shows "\<exists>i. unat (cm_allocId m) \<le> unat i \<and> unat i < unat (cm_allocId m) + k \<and>
    cm_contexts m ! unat (i mod cm_setsize m) = None \<and>
    ctxMgrSearch k m c a = (sint i,
      m\<lparr>cm_allocId := i + 1, cm_contexts := (cm_contexts m)[unat (i mod cm_setsize m) := Some a],
        cm_contextNum := cm_contextNum m + 1\<rparr>, c\<lparr>ctx_id := i\<rparr>)"
  using assms
proof (induction k arbitrary: m c j)
  case (Suc k)
  let ?A = "cm_allocId m"
  have nz: "?A \<noteq> 0" using Suc.prems(1) by auto
  have up: "unat (?A + 1) = Suc (unat ?A)" using Suc.prems(2) by (simp add: unat_word_ariths)
  show ?case
  proof (cases "cm_contexts m ! unat (?A mod cm_setsize m) = None")
    case True
    then show ?thesis
      using nz by (intro exI [of _ ?A]) (simp add: ctxMgrNextId_def Let_def)
  next
    case False
    then have "j \<noteq> 0" using Suc.prems(4) by (intro notI) (simp add: unat_mod_distrib)
    then obtain j' where j: "j = Suc j'" by (cases j) auto
    let ?m = "m\<lparr>cm_allocId := ?A + 1\<rparr>"
    obtain i where i: "Suc (unat ?A) \<le> unat i" "unat i < Suc (unat ?A) + k"
      "cm_contexts m ! unat (i mod cm_setsize m) = None"
      "ctxMgrSearch k ?m (c\<lparr>ctx_id := ?A\<rparr>) a = (sint i,
        ?m\<lparr>cm_allocId := i + 1, cm_contexts := (cm_contexts m)[unat (i mod cm_setsize m) := Some a],
        cm_contextNum := cm_contextNum m + 1\<rparr>, c\<lparr>ctx_id := ?A, ctx_id := i\<rparr>)"
      using Suc.IH [of ?m j' "c\<lparr>ctx_id := ?A\<rparr>"] Suc.prems up j by auto
    with nz False show ?thesis by (intro exI [of _ i]) (auto simp: ctxMgrNextId_def Let_def)
  qed
qed simp

lemma cm_residue:
  assumes "s < (n::nat)"
  shows "\<exists>j < n. (A + j) mod n = s"
proof (intro exI conjI)
  let ?j = "(s + n - A mod n) mod n"
  show "?j < n" using assms by simp
  have "A mod n < n" using assms by simp
  then have "A mod n + (s + n - A mod n) = s + n" by simp
  then have "(A mod n + (s + n - A mod n)) mod n = s" using assms by simp
  then show "(A + ?j) mod n = s" by (simp add: mod_simps)
qed

lemma cm_inv_insert:
  fixes x :: u32
  assumes inv: "cm_inv h m" and a: "a \<notin> cm_regs m" "i \<noteq> 0" "card (cm_regs m) < unat (cm_setsize m)"
    and free: "cm_contexts m ! unat (i mod cm_setsize m) = None" and c: "ctx_id c = i"
  defines "m' \<equiv> m\<lparr>cm_allocId := x, cm_contexts := (cm_contexts m)[unat (i mod cm_setsize m) := Some a],
            cm_contextNum := cm_contextNum m + 1\<rparr>"
  shows "cm_inv (h(a \<mapsto> c)) m'" "cm_regs m' = insert a (cm_regs m)"
proof -
  let ?s = "unat (i mod cm_setsize m)"
  have len: "length (cm_contexts m) = unat (cm_setsize m)" "0 < unat (cm_setsize m)"
    "unat (cm_contextNum m) = card (cm_regs m)" using inv by (auto simp: cm_inv_def)
  then have s: "?s < length (cm_contexts m)" by (simp add: unat_mod_distrib)
  show regs: "cm_regs m' = insert a (cm_regs m)"
  proof (intro equalityI subsetI)
    fix b assume "b \<in> cm_regs m'"
    then show "b \<in> insert a (cm_regs m)"
      using set_update_subset_insert [of "cm_contexts m" ?s "Some a"] by (auto simp: cm_regs_def m'_def)
  next
    fix b assume b: "b \<in> insert a (cm_regs m)"
    show "b \<in> cm_regs m'"
    proof (cases "b = a")
      case True
      then show ?thesis using s set_update_memI by (fastforce simp: cm_regs_def m'_def)
    next
      case False
      then obtain j where j: "j < length (cm_contexts m)" "cm_contexts m ! j = Some b"
        using b by (auto simp: cm_regs_def in_set_conv_nth)
      then have "(cm_contexts m)[?s := Some a] ! j = Some b" using free by (cases "j = ?s") auto
      with j(1) show ?thesis by (auto simp: cm_regs_def m'_def in_set_conv_nth)
    qed
  qed
  have sm: "cm_setsize m' = cm_setsize m" by (simp add: m'_def)
  have slot: "cm_slot (h(a \<mapsto> c)) n b = cm_slot h n b" if "b \<noteq> a" for n b
    using that by (simp add: cm_slot_def)
  have sa: "cm_slot (h(a \<mapsto> c)) (cm_setsize m) a = ?s" by (simp add: cm_slot_def c)
  have num: "unat (cm_contextNum m + 1) = Suc (unat (cm_contextNum m))"
    using len a(3) by (intro unat_Suc32 [of _ "cm_setsize m"]) simp
  have "card (cm_regs m') = Suc (card (cm_regs m))" using regs a(1) by simp
  moreover have "(\<exists>d. (h(a \<mapsto> c)) b = Some d \<and> ctx_id d \<noteq> 0) \<and> cm_slot (h(a \<mapsto> c)) (cm_setsize m) b = j"
    if "j < length (cm_contexts m')" "cm_contexts m' ! j = Some b" for j b
  proof (cases "j = ?s")
    case True
    then have "b = a" using that s by (simp add: m'_def)
    then show ?thesis using True sa a(2) c by simp
  next
    case False
    then have j: "j < length (cm_contexts m)" "cm_contexts m ! j = Some b" using that by (simp_all add: m'_def)
    then have "b \<in> cm_regs m" using nth_mem [OF j(1)] by (simp add: cm_regs_def)
    then have "b \<noteq> a" using a(1) by auto
    then show ?thesis using j inv slot by (auto simp: cm_inv_def)
  qed
  ultimately show "cm_inv (h(a \<mapsto> c)) m'"
    using len num by (simp add: cm_inv_def sm) (simp add: m'_def)
qed

lemma ctxMgrAddContext_ok:
  assumes inv: "cm_inv h m" and h: "h a = Some c" and a: "a \<notin> cm_regs m"
    and sz: "unat (cm_setsize m) < 2 ^ 30" and first: "cm_allocId m = 0 \<Longrightarrow> cm_regs m = {}"
    and id: "unat (cm_allocId m) + 2 * unat (cm_setsize m) < 2 ^ 32"
  shows "\<exists>i m'. i \<noteq> 0 \<and> unat (cm_allocId m) \<le> unat i \<and> unat i < unat (cm_allocId m) + 2 * unat (cm_setsize m) \<and>
    ctxMgrAddContext m h a = Some (sint i, m', h(a \<mapsto> c\<lparr>ctx_id := i\<rparr>)) \<and>
    cm_inv (h(a \<mapsto> c\<lparr>ctx_id := i\<rparr>)) m' \<and> cm_regs m' = insert a (cm_regs m) \<and>
    cm_allocId m' = (if cm_allocId m = 0 then 1 else i + 1)"
proof (cases "cm_allocId m = 0")
  case True
  let ?c = "c\<lparr>ctx_id := 1\<rparr>" and ?s = "unat (1 mod cm_setsize m)"
  let ?m = "m\<lparr>cm_allocId := 1, cm_contexts := (cm_contexts m)[?s := Some a], cm_contextNum := cm_contextNum m + 1\<rparr>"
  have e: "cm_regs m = {}" "unat (cm_contextNum m) = 0" "0 < unat (cm_setsize m)" "length (cm_contexts m) = unat (cm_setsize m)"
    using first [OF True] inv by (simp_all add: cm_inv_def)
  then have g: "ctxMgrGrow h m = Some m" by (simp add: ctxMgrGrow_def word_le_nat_alt)
  have "?s < length (cm_contexts m)" using e(3) unfolding e(4) unat_mod_distrib by (rule mod_less_divisor)
  from nth_mem [OF this] have free: "cm_contexts m ! ?s = None"
    using e(1) unfolding cm_regs_def by (metis Collect_empty_eq option.exhaust)
  obtain k where k: "unat (cm_setsize m) = Suc k" using e(3) by (cases "unat (cm_setsize m)") auto
  have "ctxMgrAddContext m h a = Some (sint (1 :: u32), ?m, h(a \<mapsto> ?c))"
    using True g h free by (simp add: ctxMgrAddContext_def k ctxMgrNextId_def)
  moreover have "cm_inv (h(a \<mapsto> ?c)) ?m" "cm_regs ?m = insert a (cm_regs m)"
    using cm_inv_insert [OF inv a, of 1 ?c 1] free e by simp_all
  ultimately show ?thesis using True e(3) by (intro exI [of _ 1] exI [of _ ?m]) simp
next
  case False
  then have id: "0 < unat (cm_allocId m)" "unat (cm_allocId m) + 2 * unat (cm_setsize m) < 2 ^ 32"
    using id by (simp_all add: unat_gt_0)
  obtain m1 where m1: "ctxMgrGrow h m = Some m1" "cm_inv h m1" "cm_regs m1 = cm_regs m"
    "cm_allocId m1 = cm_allocId m" "card (cm_regs m1) < unat (cm_setsize m1)"
    "unat (cm_setsize m1) \<le> 2 * unat (cm_setsize m)"
    using ctxMgrGrow_ok [OF inv] sz by auto
  obtain s where s: "s < unat (cm_setsize m1)" "cm_contexts m1 ! s = None"
    using cm_free_slot [OF m1(2,5)] by blast
  obtain j where j: "j < unat (cm_setsize m1)" "(unat (cm_allocId m1) + j) mod unat (cm_setsize m1) = s"
    using cm_residue [OF s(1)] by blast
  obtain i where i: "unat (cm_allocId m1) \<le> unat i" "unat i < unat (cm_allocId m1) + unat (cm_setsize m1)"
    "cm_contexts m1 ! unat (i mod cm_setsize m1) = None"
    "ctxMgrSearch (unat (cm_setsize m1)) m1 c a = (sint i,
      m1\<lparr>cm_allocId := i + 1, cm_contexts := (cm_contexts m1)[unat (i mod cm_setsize m1) := Some a],
        cm_contextNum := cm_contextNum m1 + 1\<rparr>, c\<lparr>ctx_id := i\<rparr>)"
    using ctxMgrSearch_ok [of m1 "unat (cm_setsize m1)" j c a] id m1(4,6) j s(2) by auto
  have "i \<noteq> 0" using i(1) id(1) m1(4) by auto
  with cm_inv_insert [OF m1(2), of a i "c\<lparr>ctx_id := i\<rparr>" "i + 1"] a i m1 h sz False show ?thesis
    by (intro exI [of _ i] exI) (auto simp: ctxMgrAddContext_def)
qed

subsection \<open>Release\<close>

lemma cm_inv_remove:
  assumes inv: "cm_inv h m" and a: "a \<in> cm_regs m"
  defines "m' \<equiv> m\<lparr>cm_contexts := (cm_contexts m)[cm_slot h (cm_setsize m) a := None],
            cm_contextNum := cm_contextNum m - 1\<rparr>"
  shows "cm_inv (h(a := None)) m'" "cm_regs m' = cm_regs m - {a}"
proof -
  let ?s = "cm_slot h (cm_setsize m) a"
  note s = cm_invD [OF inv a]
  have at: "j = ?s" if "cm_contexts m ! j = Some a" "j < length (cm_contexts m)" for j
    using that inv by (auto simp: cm_inv_def)
  have nth: "cm_contexts m' ! j = Some b \<longleftrightarrow> b \<noteq> a \<and> cm_contexts m ! j = Some b" if "j < length (cm_contexts m)" for j b
  proof (cases "j = ?s")
    case True then show ?thesis using s(2,3) by (auto simp: m'_def)
  next
    case False then show ?thesis using at [OF _ that] by (auto simp: m'_def)
  qed
  have len: "length (cm_contexts m') = length (cm_contexts m)" by (simp add: m'_def)
  show regs: "cm_regs m' = cm_regs m - {a}"
    using nth len by (auto simp: cm_regs_def in_set_conv_nth)
  have pos: "0 < card (cm_regs m)" using a by (metis card_gt_0_iff empty_iff finite_cm_regs)
  have "unat (cm_contextNum m) = card (cm_regs m)" using inv by (simp add: cm_inv_def)
  then have "unat (cm_contextNum m - 1) = card (cm_regs m) - 1"
    using pos by (subst unat_minus_one) auto
  then have num: "unat (cm_contextNum m') = card (cm_regs m')"
    using regs a by (simp add: m'_def)
  have "(\<exists>d. (h(a := None)) b = Some d \<and> ctx_id d \<noteq> 0) \<and> cm_slot (h(a := None)) (cm_setsize m) b = j"
    if "j < length (cm_contexts m')" "cm_contexts m' ! j = Some b" for j b
    using that nth len inv by (auto simp: cm_inv_def cm_slot_def)
  then show "cm_inv (h(a := None)) m'"
    using num inv len unfolding cm_inv_def by (auto simp: m'_def)
qed

lemma ctxMgrReleaseContext_last:
  assumes inv: "cm_inv h m" and a: "a \<in> cm_regs m" "h a = Some c" "ctx_ref c = 1" "unat (ctx_id c) < 2 ^ 31"
  shows "\<exists>m'. ctxMgrReleaseContext m h a = Some (m', h(a := None)) \<and> cm_inv (h(a := None)) m' \<and>
    cm_regs m' = cm_regs m - {a}"
proof -
  have sint: "\<not> sint (ctx_id c) < 0"
    using sint_unat32 [OF a(4)] by simp
  have sl: "unat (ctx_id c mod cm_setsize m) = cm_slot h (cm_setsize m) a" by (simp add: cm_slot_def a)
  then have "cm_contexts m ! unat (ctx_id c mod cm_setsize m) = Some a" using cm_invD(2) [OF inv a(1)] by simp
  with sint sl cm_inv_remove [OF inv a(1)] a show ?thesis
    by (simp add: ctxMgrReleaseContext_def contextRelease_def ctxMgrRemoveContext_def Let_def)
qed

subsection \<open>Properties\<close>

text \<open>
  C10: ctxMgrAddContext on a well-formed table whose ids do not wrap around always succeeds,
  doubling the table first when it is full. The new context gets an id that is not 0 and that no registered context
  has, every context, old or new, is found under its id afterwards, and the table stays well
  formed. The next id is 0 before the first registration only, when the table is empty.
\<close>
theorem ctx_mgr_add:
  assumes "cm_inv h m" "h a = Some c" "a \<notin> cm_regs m" "unat (cm_setsize m) < 2 ^ 30"
    "cm_allocId m = 0 \<Longrightarrow> cm_regs m = {}" "unat (cm_allocId m) + 2 * unat (cm_setsize m) < 2 ^ 31"
  shows "\<exists>i m' h'. ctxMgrAddContext m h a = Some (int (unat i), m', h') \<and> i \<noteq> 0 \<and> cm_allocId m' \<noteq> 0 \<and> cm_inv h' m' \<and>
    cm_regs m' = insert a (cm_regs m) \<and> ctxMgrLookup m' i = Some a \<and>
    (\<forall>b \<in> cm_regs m. h' b = h b \<and> ctx_id (the (h b)) \<noteq> i \<and> ctxMgrLookup m' (ctx_id (the (h b))) = Some b)"
proof -
  obtain i m' where r: "ctxMgrAddContext m h a = Some (sint i, m', h(a \<mapsto> c\<lparr>ctx_id := i\<rparr>))"
    "cm_inv (h(a \<mapsto> c\<lparr>ctx_id := i\<rparr>)) m'" "cm_regs m' = insert a (cm_regs m)"
    and i: "unat i < 2 ^ 31" "i \<noteq> 0" and al: "cm_allocId m' = (if cm_allocId m = 0 then 1 else i + 1)"
    using ctxMgrAddContext_ok [OF assms(1-5)] assms(6) by auto
  have "unat (i + 1) = unat i + 1" using i(1) by (simp add: unat_word_ariths)
  then have "i + 1 \<noteq> 0" by auto
  with al have al: "cm_allocId m' \<noteq> 0" by simp
  let ?h = "h(a \<mapsto> c\<lparr>ctx_id := i\<rparr>)"
  have new: "ctxMgrLookup m' i = Some a" using cm_lookup [OF r(2), of a] r(3) by simp
  moreover have "?h b = h b \<and> ctx_id (the (h b)) \<noteq> i \<and> ctxMgrLookup m' (ctx_id (the (h b))) = Some b"
    if "b \<in> cm_regs m" for b
  proof -
    have "b \<noteq> a" using that assms(3) by auto
    moreover from this have "ctxMgrLookup m' (ctx_id (the (h b))) = Some b"
      using cm_lookup [OF r(2), of b] r(3) that by simp
    ultimately show ?thesis using new by auto
  qed
  ultimately show ?thesis using r sint_unat32 [OF i(1)] i(2) al by (intro exI conjI) auto
qed

text \<open>The table the program starts with.\<close>

lemma ctxMgrCreate_inv: "z \<noteq> 0 \<Longrightarrow> cm_inv h (ctxMgrCreate z)" "cm_regs (ctxMgrCreate z) = {}" "cm_allocId (ctxMgrCreate z) = 0"
  by (auto simp: cm_inv_def ctxMgrCreate_def cm_regs_def unat_gt_0)

definition cm_example :: ctxMgr where
  "cm_example = \<lparr>cm_allocId = 6, cm_contextNum = 1, cm_contexts = [None, Some 3, None, None], cm_setsize = 4\<rparr>"

definition ctx_example :: "u32 \<Rightarrow> zcontext" where
  "ctx_example i = the (snd (contextCreate (\<lambda>_. Some 0) (\<lambda>_. Some 0) 0 (\<lambda>_. None) ''lua'') 0)\<lparr>ctx_id := i\<rparr>"

definition heap_example :: heap where
  "heap_example = [3 \<mapsto> ctx_example 5, 4 \<mapsto> ctx_example 0]"

lemma ctx_example_simps [simp]:
  "ctx_id (ctx_example i) = i" "ctx_ref (ctx_example i) = 1" "ctx_cb (ctx_example i) = None"
  "ctx_sessionid (ctx_example i) = 1" "ctx_queue (ctx_example i) = messageQueueCreate 1024"
  by (simp_all add: ctx_example_def contextCreate_def)

lemma cm_example_inv: "cm_inv heap_example cm_example" "cm_regs cm_example = {3}"
  by (auto simp: cm_inv_def cm_example_def heap_example_def cm_regs_def cm_slot_def nth_Cons
      numeral_3_eq_3 split: nat.splits)

lemma ctx_mgr_add_witness:
  "(\<exists>i m' h'. ctxMgrAddContext (ctxMgrCreate 4) heap_example 4 = Some (int (unat i), m', h') \<and> i \<noteq> 0 \<and>
     cm_regs m' = {4} \<and> ctxMgrLookup m' i = Some 4) \<and>
   (\<exists>i m' h'. ctxMgrAddContext cm_example heap_example 4 = Some (int (unat i), m', h') \<and>
     ctxMgrLookup m' i = Some 4 \<and> ctxMgrLookup m' 5 = Some 3)"
proof
  have "\<exists>i m' h'. ctxMgrAddContext (ctxMgrCreate 4) heap_example 4 = Some (int (unat i), m', h') \<and> i \<noteq> 0 \<and>
    cm_allocId m' \<noteq> 0 \<and> cm_inv h' m' \<and> cm_regs m' = insert 4 (cm_regs (ctxMgrCreate 4)) \<and> ctxMgrLookup m' i = Some 4 \<and>
    (\<forall>b \<in> cm_regs (ctxMgrCreate 4). h' b = heap_example b \<and> ctx_id (the (heap_example b)) \<noteq> i \<and>
       ctxMgrLookup m' (ctx_id (the (heap_example b))) = Some b)"
    by (rule ctx_mgr_add [where c = "ctx_example 0"])
      (simp_all add: ctxMgrCreate_inv, simp_all add: heap_example_def ctxMgrCreate_def)
  then show "\<exists>i m' h'. ctxMgrAddContext (ctxMgrCreate 4) heap_example 4 = Some (int (unat i), m', h') \<and> i \<noteq> 0 \<and>
     cm_regs m' = {4} \<and> ctxMgrLookup m' i = Some 4"
    unfolding ctxMgrCreate_inv(2) by blast
  have "\<exists>i m' h'. ctxMgrAddContext cm_example heap_example 4 = Some (int (unat i), m', h') \<and> i \<noteq> 0 \<and>
    cm_allocId m' \<noteq> 0 \<and> cm_inv h' m' \<and>
    cm_regs m' = insert 4 (cm_regs cm_example) \<and> ctxMgrLookup m' i = Some 4 \<and>
    (\<forall>b \<in> cm_regs cm_example. h' b = heap_example b \<and> ctx_id (the (heap_example b)) \<noteq> i \<and>
       ctxMgrLookup m' (ctx_id (the (heap_example b))) = Some b)"
    by (rule ctx_mgr_add [where c = "ctx_example 0"])
      (simp_all add: cm_example_inv, simp_all add: heap_example_def cm_example_def)
  moreover have "ctx_id (the (heap_example 3)) = 5" by (simp add: heap_example_def)
  ultimately show "\<exists>i m' h'. ctxMgrAddContext cm_example heap_example 4 = Some (int (unat i), m', h') \<and>
     ctxMgrLookup m' i = Some 4 \<and> ctxMgrLookup m' 5 = Some 3"
    using cm_example_inv(2) by fastforce
qed

text \<open>
  C35: When the last reference to a registered context is released, the context is freed, its
  entry (and no other) leaves the table, and every other context is still found under its id.
\<close>
theorem ctx_mgr_release:
  assumes "cm_inv h m" "a \<in> cm_regs m" "h a = Some c" "ctx_ref c = 1" "unat (ctx_id c) < 2 ^ 31"
  shows "\<exists>m'. ctxMgrReleaseContext m h a = Some (m', h(a := None)) \<and> cm_inv (h(a := None)) m' \<and>
    cm_regs m' = cm_regs m - {a} \<and> (\<forall>b \<in> cm_regs m'. ctxMgrLookup m' (ctx_id (the (h b))) = Some b)"
proof -
  obtain m' where r: "ctxMgrReleaseContext m h a = Some (m', h(a := None))"
    "cm_inv (h(a := None)) m'" "cm_regs m' = cm_regs m - {a}"
    using ctxMgrReleaseContext_last [OF assms] by blast
  have "ctxMgrLookup m' (ctx_id (the (h b))) = Some b" if "b \<in> cm_regs m'" for b
    using cm_lookup [OF r(2) that] that r(3) by simp
  with r show ?thesis by blast
qed

lemma ctx_mgr_release_witness:
  "\<exists>m'. ctxMgrReleaseContext cm_example heap_example 3 = Some (m', heap_example(3 := None)) \<and> cm_regs m' = {}"
proof -
  have "\<exists>m'. ctxMgrReleaseContext cm_example heap_example 3 = Some (m', heap_example(3 := None)) \<and>
    cm_inv (heap_example(3 := None)) m' \<and> cm_regs m' = cm_regs cm_example - {3} \<and>
    (\<forall>b \<in> cm_regs m'. ctxMgrLookup m' (ctx_id (the (heap_example b))) = Some b)"
    by (rule ctx_mgr_release [where c = "ctx_example 5"])
      (simp_all add: cm_example_inv, simp_all add: heap_example_def)
  then show ?thesis using cm_example_inv(2) by auto
qed

text \<open>
  CtxMgrGetContext does not compare ids. A request for an id whose slot holds another
  context, for instance the id of a context that has exited, finds and retains that other
  context, and its message is delivered there.
\<close>
theorem ctx_mgr_stale_id:
  assumes "cm_inv h m" "a \<in> cm_regs m" "h a = Some c"
    "unat i mod unat (cm_setsize m) = unat (ctx_id c) mod unat (cm_setsize m)"
  shows "ctxMgrGetContext m h i = Some (Some a, h(a \<mapsto> c\<lparr>ctx_ref := ctx_ref c + 1\<rparr>))"
proof -
  have "ctxMgrLookup m i = ctxMgrLookup m (ctx_id c)"
    using assms(4) by (simp add: ctxMgrLookup_def unat_mod_distrib)
  also have "\<dots> = Some a" using cm_lookup [OF assms(1,2)] assms(3) by simp
  finally show ?thesis by (simp add: ctxMgrGetContext_def contextRetain_def assms(3))
qed

lemma ctx_mgr_stale_id_witness:
  "\<exists>h'. ctxMgrGetContext cm_example heap_example 1 = Some (Some 3, h') \<and> ctx_id (the (heap_example 3)) = 5"
proof -
  have "ctxMgrGetContext cm_example heap_example 1 =
      Some (Some 3, heap_example(3 \<mapsto> (ctx_example 5)\<lparr>ctx_ref := ctx_ref (ctx_example 5) + 1\<rparr>))"
    by (rule ctx_mgr_stale_id) (simp_all add: cm_example_inv, simp_all add: heap_example_def cm_example_def)
  then show ?thesis by (simp add: heap_example_def)
qed

text \<open>
  ContextDispatchMessage takes the oldest message of the mailbox, and only that one. It
  reports -1 on an empty mailbox and when it drops the message because there is no callback,
  and 0 after the callback; the exit message gives up one reference and reports -2, and it
  aborts when that was the last one.
\<close>
theorem context_dispatch:
  assumes "h a = Some c" "mq_wf (ctx_queue c)"
  shows "case mq_list (ctx_queue c) of
      [] \<Rightarrow> contextDispatchMessage h a = Some (-1, NoMessage, h)
    | msg # rest \<Rightarrow> \<exists>q. mq_wf q \<and> mq_list q = rest \<and> contextDispatchMessage h a =
        (if ctx_cb c = None then Some (-1, Dropped msg, h(a \<mapsto> c\<lparr>ctx_queue := q\<rparr>))
         else if msg_type msg \<noteq> MSG_TYPE_EXIT_CONTEXT then Some (0, Called msg, h(a \<mapsto> c\<lparr>ctx_queue := q\<rparr>))
         else if ctx_ref c = 1 then None
         else Some (-2, Exited msg, h(a \<mapsto> c\<lparr>ctx_queue := q, ctx_ref := ctx_ref c - 1\<rparr>)))"
proof -
  obtain r q where p: "messageQueuePop (ctx_queue c) = (r, q)" by (cases "messageQueuePop (ctx_queue c)")
  have re: "c\<lparr>ctx_queue := q, ctx_ref := x\<rparr> = c\<lparr>ctx_ref := x, ctx_queue := q\<rparr>" for x by simp
  show ?thesis
  proof (cases "mq_list (ctx_queue c)")
    case Nil
    with mq.pop_empty [OF assms(2) _ p] show ?thesis
      using assms(1) p by (simp add: contextDispatchMessage_def)
  next
    case (Cons msg rest)
    with mq.pop_cons [OF assms(2) _ p] have "r = Some msg" "mq_list q = rest" by auto
    with Cons p assms(1) mq.invar_pop [OF assms(2) p] show ?thesis
      by (auto simp: contextDispatchMessage_def contextRelease_def Let_def intro!: exI [of _ q])
  qed
qed

definition msg_example :: message where
  "msg_example = message0\<lparr>msg_from := 7, msg_type := 1\<rparr>"

definition heap_mail :: heap where
  "heap_mail = [3 \<mapsto> (ctx_example 5)\<lparr>ctx_cb := Some 0,
     ctx_queue := snd (mq_enq msg_example (messageQueueCreate 1024))\<rparr>]"

lemma mq_example:
  "mq_wf (snd (mq_enq msg_example (messageQueueCreate 1024)))"
  "mq_list (snd (mq_enq msg_example (messageQueueCreate 1024))) = [msg_example]"
proof -
  note c = messageQueueCreate_wf [of 1024, simplified]
  have k: "nextpow2 1024 = 1024" by (simp add: nextpow2_def smear_def)
  obtain ok q where q: "mq_enq msg_example (messageQueueCreate 1024) = (ok, q)"
    by (cases "mq_enq msg_example (messageQueueCreate 1024)")
  have ok using q by (auto simp: mq_enq_def messageQueuePush_def messageQueueCreate_def
      mq_countToIndex_def Let_def k)
  with mq_push_cases [OF c(1) q] c(2) q
  show "mq_wf (snd (mq_enq msg_example (messageQueueCreate 1024)))"
    "mq_list (snd (mq_enq msg_example (messageQueueCreate 1024))) = [msg_example]" by simp_all
qed

lemma context_dispatch_witness:
  "\<exists>h'. contextDispatchMessage heap_mail 3 = Some (0, Called msg_example, h')"
proof -
  let ?c = "(ctx_example 5)\<lparr>ctx_cb := Some 0, ctx_queue := snd (mq_enq msg_example (messageQueueCreate 1024))\<rparr>"
  have "case mq_list (ctx_queue ?c) of
      [] \<Rightarrow> contextDispatchMessage heap_mail 3 = Some (-1, NoMessage, heap_mail)
    | msg # rest \<Rightarrow> \<exists>q. mq_wf q \<and> mq_list q = rest \<and> contextDispatchMessage heap_mail 3 =
        (if ctx_cb ?c = None then Some (-1, Dropped msg, heap_mail(3 \<mapsto> ?c\<lparr>ctx_queue := q\<rparr>))
         else if msg_type msg \<noteq> MSG_TYPE_EXIT_CONTEXT then Some (0, Called msg, heap_mail(3 \<mapsto> ?c\<lparr>ctx_queue := q\<rparr>))
         else if ctx_ref ?c = 1 then None
         else Some (-2, Exited msg, heap_mail(3 \<mapsto> ?c\<lparr>ctx_queue := q, ctx_ref := ctx_ref ?c - 1\<rparr>)))"
    by (rule context_dispatch) (simp_all add: heap_mail_def mq_example)
  moreover have "msg_type msg_example \<noteq> MSG_TYPE_EXIT_CONTEXT"
    by (simp add: msg_example_def MSG_TYPE_EXIT_CONTEXT_def)
  ultimately show ?thesis by (auto simp: mq_example)
qed

text \<open>
  ContextNewsession never returns 0, and returns the stored session id and advances it by
  one, except at the wrap-around: the id 0xFFFFFFFF is skipped, and 1 is returned twice in a
  row, so two outstanding requests get the same session.
\<close>
theorem context_newsession:
  assumes "ctx_sessionid c \<noteq> 0" "contextNewsession c = (i, c')"
  shows "i \<noteq> 0 \<and> ctx_sessionid c' \<noteq> 0 \<and>
    (if ctx_sessionid c \<noteq> 0xFFFFFFFF then i = ctx_sessionid c \<and> ctx_sessionid c' = ctx_sessionid c + 1
     else i = 1 \<and> fst (contextNewsession c') = 1)"
proof -
  have w: "ctx_sessionid c + 1 = 0 \<longleftrightarrow> ctx_sessionid c = 0xFFFFFFFF"
  proof -
    have "(0xFFFFFFFF :: u32) = - 1" by simp
    then show ?thesis using eq_neg_iff_add_eq_0 [of "ctx_sessionid c" 1] by (simp only:)
  qed
  show ?thesis
  proof (cases "ctx_sessionid c = 0xFFFFFFFF")
    case True
    with assms show ?thesis by (auto simp: contextNewsession_def Let_def)
  next
    case False
    with assms w show ?thesis by (auto simp: contextNewsession_def Let_def)
  qed
qed

lemma context_newsession_witness:
  "\<exists>i c'. contextNewsession (ctx_example 5) = (i, c') \<and> i = 1 \<and> ctx_sessionid c' = 2"
proof -
  obtain i c' where n: "contextNewsession (ctx_example 5) = (i, c')" by (cases "contextNewsession (ctx_example 5)")
  with context_newsession [OF _ n] show ?thesis by auto
qed

end
