(* ===== verification/WorkerPool.thy ===== *)
theory WorkerPool
  imports Context
begin

section \<open>The scheduler (src/worker_pool.c)\<close>

text \<open>
  Any number of threads run \<open>handle\<close> (workers) and workerPoolSend; a worker's callback may
  itself send. \<open>wp_step n race\<close> is the step relation of the threads below \<open>n\<close>: one step per
  access to shared state, a critical section under the mutex or the manager's rwlock being one
  step. The calls of the two queues are one step each (LockFreeQueue shows what their
  interleavings amount to); with \<open>race\<close> a pop of the global queue may also find nothing and a
  push may also find it full, as interleaved calls can. Contexts are created at addresses never
  used before, so that a dangling pointer is recognised: \<open>wp_fault\<close> records the first access
  through one, or the first failed assert, and stops the run.

  The theorems: no two threads ever run the callback of the same context, and its messages are
  handled in the order in which they were accepted; a thread that holds a reference never
  touches a freed context and no assert on the way fails, as long as no context is told to
  exit twice; while a worker sleeps, as many threads
  signal or come to the global queue as it has entries.
  And two faults of the code: a message can be left behind in the mailbox of a context that
  nobody will schedule, and workerPoolSend can retain a context that has been freed.
\<close>

subsection \<open>The state\<close>

record send_args =
  sa_ctx :: "nat ptr"
  sa_from :: u32
  sa_to :: u32
  sa_session :: u32
  sa_type :: u32
  sa_data :: "byte list ptr"
  sa_sz :: u64
  sa_ud :: u32

text \<open>Where a thread is inside workerPoolSend.\<close>

datatype send_pc =
    SIdle
  | SLook send_args           \<comment> \<open>arguments checked, before ctxMgrGetContext\<close>
  | SFound nat send_args      \<comment> \<open>in ctxMgrGetContext: unlocked, before contextRetain\<close>
  | SRetained nat send_args
  | SBuilt nat message        \<comment> \<open>before messageQueuePush\<close>
  | SPushed nat               \<comment> \<open>before the swap of inGlobal\<close>
  | SWon nat                  \<comment> \<open>inGlobal swapped, before contextQueuePush\<close>
  | SWake                     \<comment> \<open>before threadWakeUp\<close>
  | SLost nat                 \<comment> \<open>before ctxMgrReleaseContext\<close>
  | SRemove u32               \<comment> \<open>in ctxMgrReleaseContext, context freed, before the removal\<close>

text \<open>Where a thread is inside handle; \<open>WNone\<close> for a thread that is no worker.\<close>

datatype work_pc =
    WNone
  | WTop                      \<comment> \<open>at contextQueuePop\<close>
  | WHave nat                 \<comment> \<open>at contextDispatchMessage\<close>
  | WRun nat message          \<comment> \<open>in the callback\<close>
  | WMore nat                 \<comment> \<open>result 0, at workerPoolHaveWork\<close>
  | WPush nat                 \<comment> \<open>at contextQueuePush\<close>
  | WCas nat                  \<comment> \<open>result -1 or -2, at the swap of inGlobal\<close>
  | WRel nat                  \<comment> \<open>before ctxMgrReleaseContext\<close>
  | WRemove u32               \<comment> \<open>in ctxMgrReleaseContext, context freed, before the removal\<close>
  | WNum bool                 \<comment> \<open>at ctxMgrGetContextNum, with the variable sleep\<close>
  | WSleepTest                \<comment> \<open>in threadSleep, about to lock and test\<close>
  | WSleeping                 \<comment> \<open>in pthread_cond_wait\<close>
  | WDone

datatype fault =
    RetainFreed    \<comment> \<open>contextRetain on a freed context\<close>
  | SenderGone     \<comment> \<open>the sender's context is NULL or freed\<close>
  | QueueFull      \<comment> \<open>assert(0) after messageQueuePush\<close>
  | HolderFreed    \<comment> \<open>access to a freed context by a holder of a reference\<close>
  | CasFailed      \<comment> \<open>assert(CAS(inGlobal, 1, 0))\<close>
  | ExitFailed     \<comment> \<open>assert(contextRelease(ctx) != NULL)\<close>

record wpool =
  wp_heap :: heap
  wp_mgr :: ctxMgr
  wp_queue :: "nat contextQueue"
  wp_running :: bool
  wp_s :: "nat \<Rightarrow> send_pc"
  wp_w :: "nat \<Rightarrow> work_pc"
  wp_fault :: "fault option"
  wp_used :: "nat set"                       \<comment> \<open>addresses allocated so far\<close>
  wp_exited :: "nat set"                     \<comment> \<open>contexts that handled an exit message\<close>
  wp_twice :: bool                           \<comment> \<open>one of them handled a second one\<close>
  wp_sent :: "(nat \<times> message) list"         \<comment> \<open>messages accepted by the mailboxes\<close>
  wp_handled :: "(nat \<times> message) list"      \<comment> \<open>messages taken from the mailboxes\<close>

definition wp_s_to :: "nat \<Rightarrow> send_pc \<Rightarrow> wpool \<Rightarrow> wpool" where
  "wp_s_to t p s = s\<lparr>wp_s := (wp_s s)(t := p)\<rparr>"

definition wp_w_to :: "nat \<Rightarrow> work_pc \<Rightarrow> wpool \<Rightarrow> wpool" where
  "wp_w_to t p s = s\<lparr>wp_w := (wp_w s)(t := p)\<rparr>"

definition wp_put :: "nat \<Rightarrow> zcontext option \<Rightarrow> wpool \<Rightarrow> wpool" where
  "wp_put a c s = s\<lparr>wp_heap := (wp_heap s)(a := c)\<rparr>"

definition wp_crash :: "fault \<Rightarrow> wpool \<Rightarrow> wpool" where
  "wp_crash f s = s\<lparr>wp_fault := Some f\<rparr>"

subsection \<open>Pieces of the code\<close>

definition workerPoolHaveWork :: "wpool \<Rightarrow> bool" where
  "workerPoolHaveWork s \<longleftrightarrow> 0 < contextQueueSize (wp_queue s)"

text \<open>The sender: an absent \<open>from\<close> is the id of the calling context.\<close>

definition send_from :: "heap \<Rightarrow> send_args \<Rightarrow> send_args option" where
  "send_from h x =
     (if sa_from x = 0 then
        (case sa_ctx x of
           None \<Rightarrow> Some x
         | Some a \<Rightarrow> (case h a of None \<Rightarrow> None | Some c \<Rightarrow> Some (x\<lparr>sa_from := ctx_id c\<rparr>)))
      else Some x)"

definition send_msg :: "send_args \<Rightarrow> u32 \<Rightarrow> message" where
  "send_msg x session = \<lparr>msg_from = sa_from x, msg_session = session, msg_type = sa_type x, msg_ud = sa_ud x,
     msg_sz = sa_sz x, msg_data = sa_data x\<rparr>"

definition send_new :: "send_args \<Rightarrow> bool" where
  "send_new x \<longleftrightarrow> sa_type x AND MSG_TYPE_NEWSESSION \<noteq> 0"

text \<open>pthread_cond_signal and pthread_cond_broadcast on the sleeping workers.\<close>

inductive wp_signal :: "wpool \<Rightarrow> wpool \<Rightarrow> bool" where
  wake: "wp_w s u = WSleeping \<Longrightarrow> wp_signal s (wp_w_to u WSleepTest s)"
| none: "(\<And>u. wp_w s u \<noteq> WSleeping) \<Longrightarrow> wp_signal s s"

definition workerPoolStop :: "wpool \<Rightarrow> wpool" where
  "workerPoolStop s = s\<lparr>wp_running := False,
     wp_w := (\<lambda>u. if wp_w s u = WSleeping then WSleepTest else wp_w s u)\<rparr>"

subsection \<open>The step relation\<close>

inductive wp_act :: "bool \<Rightarrow> nat \<Rightarrow> wpool \<Rightarrow> wpool \<Rightarrow> bool" for race :: bool and t :: nat where
\<comment> \<open>workerPoolSend\<close>
  send_call: "wp_s s t = SIdle \<Longrightarrow> wp_w s t = WNone \<or> (\<exists>a msg. wp_w s t = WRun a msg) \<Longrightarrow>
    sa_to x \<noteq> 0 \<Longrightarrow> send_from (wp_heap s) x = Some x' \<Longrightarrow>
    wp_act race t s (wp_s_to t (SLook x') s)"
| send_gone: "wp_s s t = SIdle \<Longrightarrow> wp_w s t = WNone \<or> (\<exists>a msg. wp_w s t = WRun a msg) \<Longrightarrow>
    send_from (wp_heap s) x = None \<Longrightarrow> wp_act race t s (wp_crash SenderGone s)"
| send_none: "wp_s s t = SLook x \<Longrightarrow> ctxMgrLookup (wp_mgr s) (sa_to x) = None \<Longrightarrow>
    wp_act race t s (wp_s_to t SIdle s)"
| send_some: "wp_s s t = SLook x \<Longrightarrow> ctxMgrLookup (wp_mgr s) (sa_to x) = Some a \<Longrightarrow>
    wp_act race t s (wp_s_to t (SFound a x) s)"
| retain: "wp_s s t = SFound a x \<Longrightarrow> wp_heap s a = Some c \<Longrightarrow>
    wp_act race t s (wp_s_to t (SRetained a x) (wp_put a (Some (c\<lparr>ctx_ref := ctx_ref c + 1\<rparr>)) s))"
| retain_freed: "wp_s s t = SFound a x \<Longrightarrow> wp_heap s a = None \<Longrightarrow> wp_act race t s (wp_crash RetainFreed s)"
| build: "wp_s s t = SRetained a x \<Longrightarrow> \<not> send_new x \<Longrightarrow>
    wp_act race t s (wp_s_to t (SBuilt a (send_msg x (sa_session x))) s)"
| build_new: "wp_s s t = SRetained a x \<Longrightarrow> send_new x \<Longrightarrow> sa_ctx x = Some b \<Longrightarrow> wp_heap s b = Some c \<Longrightarrow>
    contextNewsession c = (i, c') \<Longrightarrow>
    wp_act race t s (wp_s_to t (SBuilt a (send_msg x i)) (wp_put b (Some c') s))"
| build_gone: "wp_s s t = SRetained a x \<Longrightarrow> send_new x \<Longrightarrow>
    sa_ctx x = None \<or> wp_heap s (the (sa_ctx x)) = None \<Longrightarrow> wp_act race t s (wp_crash SenderGone s)"
| push: "wp_s s t = SBuilt a msg \<Longrightarrow> wp_heap s a = Some c \<Longrightarrow> mq_enq msg (ctx_queue c) = (True, q) \<Longrightarrow>
    wp_act race t s (wp_s_to t (SPushed a) (wp_put a (Some (c\<lparr>ctx_queue := q\<rparr>))
      (s\<lparr>wp_sent := wp_sent s @ [(a, msg)]\<rparr>)))"
| push_full: "wp_s s t = SBuilt a msg \<Longrightarrow> wp_heap s a = Some c \<Longrightarrow>
    race \<or> mq_enq msg (ctx_queue c) = (False, q) \<Longrightarrow> wp_act race t s (wp_crash QueueFull s)"
| push_freed: "wp_s s t = SBuilt a msg \<Longrightarrow> wp_heap s a = None \<Longrightarrow> wp_act race t s (wp_crash HolderFreed s)"
| cas_won: "wp_s s t = SPushed a \<Longrightarrow> wp_heap s a = Some c \<Longrightarrow> ctx_inGlobal c = 0 \<Longrightarrow>
    wp_act race t s (wp_s_to t (SWon a) (wp_put a (Some (c\<lparr>ctx_inGlobal := 1\<rparr>)) s))"
| cas_lost: "wp_s s t = SPushed a \<Longrightarrow> wp_heap s a = Some c \<Longrightarrow> ctx_inGlobal c \<noteq> 0 \<Longrightarrow>
    wp_act race t s (wp_s_to t (SLost a) s)"
| cas_freed: "wp_s s t = SPushed a \<Longrightarrow> wp_heap s a = None \<Longrightarrow> wp_act race t s (wp_crash HolderFreed s)"
| global: "wp_s s t = SWon a \<Longrightarrow> cxq_enq a (wp_queue s) = (ok, q) \<Longrightarrow>
    wp_act race t s (wp_s_to t SWake (s\<lparr>wp_queue := q\<rparr>))"
| global_race: "wp_s s t = SWon a \<Longrightarrow> race \<Longrightarrow> wp_act race t s (wp_s_to t SWake s)"
| wakeup: "wp_s s t = SWake \<Longrightarrow> wp_signal (wp_s_to t SIdle s) s' \<Longrightarrow> wp_act race t s s'"
| release: "wp_s s t = SLost a \<Longrightarrow> wp_heap s a = Some c \<Longrightarrow> contextRelease (wp_heap s) a = Some (alive, h) \<Longrightarrow>
    wp_act race t s (wp_s_to t (if alive then SIdle else SRemove (ctx_id c)) (s\<lparr>wp_heap := h\<rparr>))"
| release_freed: "wp_s s t = SLost a \<Longrightarrow> wp_heap s a = None \<Longrightarrow> wp_act race t s (wp_crash HolderFreed s)"
| remove: "wp_s s t = SRemove i \<Longrightarrow>
    wp_act race t s (wp_s_to t SIdle (s\<lparr>wp_mgr := snd (ctxMgrRemoveContext (wp_mgr s) i)\<rparr>))"
\<comment> \<open>handle\<close>
| pop_some: "wp_w s t = WTop \<Longrightarrow> contextQueuePop (wp_queue s) = (Some a, q) \<Longrightarrow>
    wp_act race t s (wp_w_to t (WHave a) (s\<lparr>wp_queue := q\<rparr>))"
| pop_none: "wp_w s t = WTop \<Longrightarrow> race \<or> contextQueuePop (wp_queue s) = (None, q) \<Longrightarrow>
    wp_act race t s (wp_w_to t (WNum True) s)"
| disp_none: "wp_w s t = WHave a \<Longrightarrow> contextDispatchMessage (wp_heap s) a = Some (r, NoMessage, h) \<Longrightarrow>
    wp_act race t s (wp_w_to t (WCas a) (s\<lparr>wp_heap := h\<rparr>))"
| disp_drop: "wp_w s t = WHave a \<Longrightarrow> contextDispatchMessage (wp_heap s) a = Some (r, Dropped msg, h) \<Longrightarrow>
    wp_act race t s (wp_w_to t (WCas a) (s\<lparr>wp_heap := h, wp_handled := wp_handled s @ [(a, msg)]\<rparr>))"
| disp_exit: "wp_w s t = WHave a \<Longrightarrow> contextDispatchMessage (wp_heap s) a = Some (r, Exited msg, h) \<Longrightarrow>
    wp_act race t s (wp_w_to t (WCas a) (s\<lparr>wp_heap := h, wp_handled := wp_handled s @ [(a, msg)],
      wp_twice := wp_twice s \<or> a \<in> wp_exited s, wp_exited := insert a (wp_exited s)\<rparr>))"
| disp_call: "wp_w s t = WHave a \<Longrightarrow> contextDispatchMessage (wp_heap s) a = Some (r, Called msg, h) \<Longrightarrow>
    wp_act race t s (wp_w_to t (WRun a msg) (s\<lparr>wp_heap := h, wp_handled := wp_handled s @ [(a, msg)]\<rparr>))"
| disp_freed: "wp_w s t = WHave a \<Longrightarrow> wp_heap s a = None \<Longrightarrow> wp_act race t s (wp_crash HolderFreed s)"
| disp_abort: "wp_w s t = WHave a \<Longrightarrow> wp_heap s a = Some c \<Longrightarrow> contextDispatchMessage (wp_heap s) a = None \<Longrightarrow>
    wp_act race t s (wp_crash ExitFailed (s\<lparr>wp_twice := wp_twice s \<or> a \<in> wp_exited s\<rparr>))"
| returned: "wp_w s t = WRun a msg \<Longrightarrow> wp_s s t = SIdle \<Longrightarrow> wp_act race t s (wp_w_to t (WMore a) s)"
| more: "wp_w s t = WMore a \<Longrightarrow>
    wp_act race t s (wp_w_to t (if workerPoolHaveWork s then WPush a else WHave a) s)"
| requeue: "wp_w s t = WPush a \<Longrightarrow> cxq_enq a (wp_queue s) = (ok, q) \<Longrightarrow>
    wp_act race t s (wp_w_to t (WNum False) (s\<lparr>wp_queue := q\<rparr>))"
| requeue_race: "wp_w s t = WPush a \<Longrightarrow> race \<Longrightarrow> wp_act race t s (wp_w_to t (WNum False) s)"
| cas: "wp_w s t = WCas a \<Longrightarrow> wp_heap s a = Some c \<Longrightarrow> ctx_inGlobal c = 1 \<Longrightarrow>
    wp_act race t s (wp_w_to t (WRel a) (wp_put a (Some (c\<lparr>ctx_inGlobal := 0\<rparr>)) s))"
| cas_fail: "wp_w s t = WCas a \<Longrightarrow> wp_heap s a = Some c \<Longrightarrow> ctx_inGlobal c \<noteq> 1 \<Longrightarrow>
    wp_act race t s (wp_crash CasFailed s)"
| wcas_freed: "wp_w s t = WCas a \<Longrightarrow> wp_heap s a = None \<Longrightarrow> wp_act race t s (wp_crash HolderFreed s)"
| wrelease: "wp_w s t = WRel a \<Longrightarrow> wp_heap s a = Some c \<Longrightarrow> contextRelease (wp_heap s) a = Some (alive, h) \<Longrightarrow>
    wp_act race t s (wp_w_to t (if alive then WNum True else WRemove (ctx_id c)) (s\<lparr>wp_heap := h\<rparr>))"
| wrelease_freed: "wp_w s t = WRel a \<Longrightarrow> wp_heap s a = None \<Longrightarrow> wp_act race t s (wp_crash HolderFreed s)"
| wremove: "wp_w s t = WRemove i \<Longrightarrow>
    wp_act race t s (wp_w_to t (WNum True) (s\<lparr>wp_mgr := snd (ctxMgrRemoveContext (wp_mgr s) i)\<rparr>))"
| num_stop: "wp_w s t = WNum sl \<Longrightarrow> cm_contextNum (wp_mgr s) = 0 \<Longrightarrow>
    wp_act race t s (wp_w_to t WDone (workerPoolStop s))"
| num_go: "wp_w s t = WNum sl \<Longrightarrow> cm_contextNum (wp_mgr s) \<noteq> 0 \<Longrightarrow>
    wp_act race t s (wp_w_to t (if sl then WSleepTest else WTop) s)"
| sleep: "wp_w s t = WSleepTest \<Longrightarrow>
    wp_act race t s (wp_w_to t (if \<not> workerPoolHaveWork s \<and> wp_running s then WSleeping else WTop) s)"
| spurious: "wp_w s t = WSleeping \<Longrightarrow> wp_act race t s (wp_w_to t WSleepTest s)"

text \<open>
  A step of one of the threads, the registration of a new context (contextCreate and
  ctxMgrAddContext), or a contextSetCallback, which comes later, from the module.
\<close>

inductive wp_step :: "nat \<Rightarrow> bool \<Rightarrow> wpool \<Rightarrow> wpool \<Rightarrow> bool" for n :: nat and race :: bool where
  act: "wp_fault s = None \<Longrightarrow> t < n \<Longrightarrow> wp_act race t s s' \<Longrightarrow> wp_step n race s s'"
| create: "wp_fault s = None \<Longrightarrow> a \<notin> wp_used s \<Longrightarrow>
    ctx_ref c = 1 \<Longrightarrow> ctx_inGlobal c = 0 \<Longrightarrow> ctx_queue c = messageQueueCreate 1024 \<Longrightarrow>
    ctxMgrAddContext (wp_mgr s) ((wp_heap s)(a \<mapsto> c)) a = Some (i, m', h') \<Longrightarrow>
    wp_step n race s (s\<lparr>wp_mgr := m', wp_heap := h', wp_used := insert a (wp_used s)\<rparr>)"
| set_callback: "wp_fault s = None \<Longrightarrow> contextSetCallback (wp_heap s) a cb ud = Some h \<Longrightarrow>
    wp_step n race s (s\<lparr>wp_heap := h\<rparr>)"

text \<open>The threads below \<open>k\<close> are workers.\<close>

definition wp_init :: "nat \<Rightarrow> u32 \<Rightarrow> wpool" where
  "wp_init k setsize =
     \<lparr>wp_heap = (\<lambda>_. None), wp_mgr = ctxMgrCreate setsize, wp_queue = contextQueueCreate 1024, wp_running = True,
      wp_s = (\<lambda>_. SIdle), wp_w = (\<lambda>t. if t < k then WTop else WNone), wp_fault = None, wp_used = {},
      wp_exited = {}, wp_twice = False, wp_sent = [], wp_handled = []\<rparr>"

inductive wp_reach :: "nat \<Rightarrow> bool \<Rightarrow> nat \<Rightarrow> u32 \<Rightarrow> wpool \<Rightarrow> bool" for n race k setsize where
  init: "wp_reach n race k setsize (wp_init k setsize)"
| step: "wp_reach n race k setsize s \<Longrightarrow> wp_step n race s s' \<Longrightarrow> wp_reach n race k setsize s'"

subsection \<open>Tokens and references held by threads\<close>

text \<open>
  The right to dispatch a context is a token: an entry of the global queue, or the program
  counter of the thread that holds it. It comes with one reference; the other references of
  threads are \<open>ext\<close>.
\<close>

fun tok_s :: "send_pc \<Rightarrow> nat \<Rightarrow> nat" where
  "tok_s (SWon b) a = of_bool (a = b)"
| "tok_s _ a = 0"

fun tok_w :: "work_pc \<Rightarrow> nat \<Rightarrow> nat" where
  "tok_w (WHave b) a = of_bool (a = b)"
| "tok_w (WRun b _) a = of_bool (a = b)"
| "tok_w (WMore b) a = of_bool (a = b)"
| "tok_w (WPush b) a = of_bool (a = b)"
| "tok_w (WCas b) a = of_bool (a = b)"
| "tok_w _ a = 0"

fun ext_s :: "send_pc \<Rightarrow> nat \<Rightarrow> nat" where
  "ext_s (SRetained b _) a = of_bool (a = b)"
| "ext_s (SBuilt b _) a = of_bool (a = b)"
| "ext_s (SPushed b) a = of_bool (a = b)"
| "ext_s (SLost b) a = of_bool (a = b)"
| "ext_s _ a = 0"

fun ext_w :: "work_pc \<Rightarrow> nat \<Rightarrow> nat" where
  "ext_w (WRel b) a = of_bool (a = b)"
| "ext_w _ a = 0"

definition wp_tok :: "nat \<Rightarrow> wpool \<Rightarrow> nat \<Rightarrow> nat" where
  "wp_tok n s a = (\<Sum>t<n. tok_s (wp_s s t) a) + (\<Sum>t<n. tok_w (wp_w s t) a) +
     count_list (cxq_list (wp_queue s)) a"

definition wp_ext :: "nat \<Rightarrow> wpool \<Rightarrow> nat \<Rightarrow> nat" where
  "wp_ext n s a = (\<Sum>t<n. ext_s (wp_s s t) a) + (\<Sum>t<n. ext_w (wp_w s t) a)"

lemma wp_to_simps [simp]:
  "wp_heap (wp_s_to t p s) = wp_heap s" "wp_mgr (wp_s_to t p s) = wp_mgr s"
  "wp_queue (wp_s_to t p s) = wp_queue s" "wp_running (wp_s_to t p s) = wp_running s"
  "wp_s (wp_s_to t p s) = (wp_s s)(t := p)" "wp_w (wp_s_to t p s) = wp_w s"
  "wp_fault (wp_s_to t p s) = wp_fault s" "wp_used (wp_s_to t p s) = wp_used s"
  "wp_exited (wp_s_to t p s) = wp_exited s" "wp_twice (wp_s_to t p s) = wp_twice s"
  "wp_sent (wp_s_to t p s) = wp_sent s" "wp_handled (wp_s_to t p s) = wp_handled s"
  "wp_heap (wp_w_to t q s) = wp_heap s" "wp_mgr (wp_w_to t q s) = wp_mgr s"
  "wp_queue (wp_w_to t q s) = wp_queue s" "wp_running (wp_w_to t q s) = wp_running s"
  "wp_s (wp_w_to t q s) = wp_s s" "wp_w (wp_w_to t q s) = (wp_w s)(t := q)"
  "wp_fault (wp_w_to t q s) = wp_fault s" "wp_used (wp_w_to t q s) = wp_used s"
  "wp_exited (wp_w_to t q s) = wp_exited s" "wp_twice (wp_w_to t q s) = wp_twice s"
  "wp_sent (wp_w_to t q s) = wp_sent s" "wp_handled (wp_w_to t q s) = wp_handled s"
  by (simp_all add: wp_s_to_def wp_w_to_def)

lemma wp_put_simps [simp]:
  "wp_heap (wp_put a c s) = (wp_heap s)(a := c)" "wp_mgr (wp_put a c s) = wp_mgr s"
  "wp_queue (wp_put a c s) = wp_queue s" "wp_running (wp_put a c s) = wp_running s"
  "wp_s (wp_put a c s) = wp_s s" "wp_w (wp_put a c s) = wp_w s"
  "wp_fault (wp_put a c s) = wp_fault s" "wp_used (wp_put a c s) = wp_used s"
  "wp_exited (wp_put a c s) = wp_exited s" "wp_twice (wp_put a c s) = wp_twice s"
  "wp_sent (wp_put a c s) = wp_sent s" "wp_handled (wp_put a c s) = wp_handled s"
  "wp_heap (wp_crash f s) = wp_heap s" "wp_mgr (wp_crash f s) = wp_mgr s"
  "wp_queue (wp_crash f s) = wp_queue s" "wp_running (wp_crash f s) = wp_running s"
  "wp_s (wp_crash f s) = wp_s s" "wp_w (wp_crash f s) = wp_w s"
  "wp_fault (wp_crash f s) = Some f" "wp_used (wp_crash f s) = wp_used s"
  "wp_exited (wp_crash f s) = wp_exited s" "wp_twice (wp_crash f s) = wp_twice s"
  "wp_sent (wp_crash f s) = wp_sent s" "wp_handled (wp_crash f s) = wp_handled s"
  by (simp_all add: wp_put_def wp_crash_def)

lemma sum_upd:
  fixes f :: "'p \<Rightarrow> nat" and t n :: nat
  assumes "t < n"
  shows "(\<Sum>i<n. f ((g(t := p)) i)) + f (g t) = (\<Sum>i<n. f (g i)) + f p"
proof -
  have "(\<Sum>i<n. f ((g(t := p)) i)) = f p + (\<Sum>i\<in>{..<n} - {t}. f (g i))"
    using assms by (subst sum.remove [of _ t]) auto
  moreover have "(\<Sum>i<n. f (g i)) = f (g t) + (\<Sum>i\<in>{..<n} - {t}. f (g i))"
    using assms by (subst sum.remove [of _ t]) auto
  ultimately show ?thesis by simp
qed

lemma wp_tok_cong:
  "wp_s s' = wp_s s \<Longrightarrow> wp_w s' = wp_w s \<Longrightarrow> cxq_list (wp_queue s') = cxq_list (wp_queue s) \<Longrightarrow> wp_tok n s' a = wp_tok n s a"
  by (simp add: wp_tok_def)

lemma wp_ext_cong: "wp_s s' = wp_s s \<Longrightarrow> wp_w s' = wp_w s \<Longrightarrow> wp_ext n s' a = wp_ext n s a"
  by (simp add: wp_ext_def)

text \<open>A move of one program counter, or of an entry of the global queue.\<close>

lemma wp_tok_s:
  assumes "t < n" "wp_s s' = (wp_s s)(t := p)" "wp_w s' = wp_w s"
  shows "wp_tok n s' a + tok_s (wp_s s t) a + count_list (cxq_list (wp_queue s)) a =
    wp_tok n s a + tok_s p a + count_list (cxq_list (wp_queue s')) a"
  using sum_upd [OF assms(1), of "\<lambda>x. tok_s x a" "wp_s s" p] assms(2,3) by (simp add: wp_tok_def)

lemma wp_tok_w:
  assumes "t < n" "wp_w s' = (wp_w s)(t := p)" "wp_s s' = wp_s s"
  shows "wp_tok n s' a + tok_w (wp_w s t) a + count_list (cxq_list (wp_queue s)) a =
    wp_tok n s a + tok_w p a + count_list (cxq_list (wp_queue s')) a"
  using sum_upd [OF assms(1), of "\<lambda>x. tok_w x a" "wp_w s" p] assms(2,3) by (simp add: wp_tok_def)

lemma wp_ext_s:
  assumes "t < n" "wp_s s' = (wp_s s)(t := p)" "wp_w s' = wp_w s"
  shows "wp_ext n s' a + ext_s (wp_s s t) a = wp_ext n s a + ext_s p a"
  using sum_upd [OF assms(1), of "\<lambda>x. ext_s x a" "wp_s s" p] assms(2,3) by (simp add: wp_ext_def)

lemma wp_ext_w:
  assumes "t < n" "wp_w s' = (wp_w s)(t := p)" "wp_s s' = wp_s s"
  shows "wp_ext n s' a + ext_w (wp_w s t) a = wp_ext n s a + ext_w p a"
  using sum_upd [OF assms(1), of "\<lambda>x. ext_w x a" "wp_w s" p] assms(2,3) by (simp add: wp_ext_def)

text \<open>A signal only moves sleeping workers, which hold nothing.\<close>

lemma wp_signal_same:
  assumes "wp_signal s s'"
  shows "wp_tok n s' a = wp_tok n s a" "wp_ext n s' a = wp_ext n s a" "wp_heap s' = wp_heap s"
    "wp_queue s' = wp_queue s" "wp_s s' = wp_s s" "wp_used s' = wp_used s" "wp_exited s' = wp_exited s"
    "wp_twice s' = wp_twice s" "wp_sent s' = wp_sent s" "wp_handled s' = wp_handled s"
    "wp_fault s' = wp_fault s" "wp_mgr s' = wp_mgr s" "wp_running s' = wp_running s"
  using assms
  by (induction rule: wp_signal.induct)
    (auto simp: wp_tok_def wp_ext_def intro!: sum.cong)

lemma workerPoolStop_same:
  "wp_tok n (workerPoolStop s) a = wp_tok n s a" "wp_ext n (workerPoolStop s) a = wp_ext n s a"
  by (auto simp: wp_tok_def wp_ext_def workerPoolStop_def intro!: sum.cong)

lemma wp_tok_thread:
  assumes "t < n"
  shows "tok_s (wp_s s t) a + tok_w (wp_w s t) a \<le> wp_tok n s a"
  using member_le_sum [of t "{..<n}" "\<lambda>t. tok_s (wp_s s t) a"] member_le_sum [of t "{..<n}" "\<lambda>t. tok_w (wp_w s t) a"]
    assms by (simp add: wp_tok_def)

lemma wp_tok_two:
  assumes "t < n" "u < n" "t \<noteq> u"
  shows "tok_w (wp_w s t) a + tok_w (wp_w s u) a \<le> wp_tok n s a"
proof -
  have "(\<Sum>i\<in>{t, u}. tok_w (wp_w s i) a) \<le> (\<Sum>i<n. tok_w (wp_w s i) a)"
    using assms by (intro sum_mono2) auto
  with assms(3) show ?thesis by (simp add: wp_tok_def)
qed

subsection \<open>Queue calls and dispatch, by cases\<close>

lemma cxq_enq_cases:
  assumes "cxq_wf q" "cxq_enq a q = (ok, q')"
  shows "cxq_wf q' \<and> cxq_list q' = cxq_list q @ (if ok then [a] else [])"
  using cxq.push_room [OF assms(1) _ assms(2)] cxq.push_full [OF assms(1) _ assms(2)]
    cxq.invar_push [OF assms] by (cases "cxq_room q") auto

lemma cxq_pop_cases:
  assumes "cxq_wf q" "contextQueuePop q = (r, q')"
  shows "cxq_wf q' \<and> cxq_list q = (case r of None \<Rightarrow> [] | Some a \<Rightarrow> [a]) @ cxq_list q'"
  using cxq.pop_empty [OF assms(1) _ assms(2)] cxq.pop_cons [OF assms(1) _ assms(2)]
    cxq.invar_pop [OF assms] by (cases "cxq_list q") auto

lemma dispatch_cases:
  assumes "contextDispatchMessage h a = Some (r, ev, h')" "h a = Some c" "mq_wf (ctx_queue c)"
  shows "ev = NoMessage \<and> h' = h \<or>
    (\<exists>msg q. mq_wf q \<and> mq_list (ctx_queue c) = msg # mq_list q \<and>
      (ev = Dropped msg \<and> h' = h(a \<mapsto> c\<lparr>ctx_queue := q\<rparr>) \<or>
       ev = Called msg \<and> h' = h(a \<mapsto> c\<lparr>ctx_queue := q\<rparr>) \<or>
       ev = Exited msg \<and> ctx_ref c \<noteq> 1 \<and> h' = h(a \<mapsto> c\<lparr>ctx_queue := q, ctx_ref := ctx_ref c - 1\<rparr>)))"
proof -
  obtain m q where p: "messageQueuePop (ctx_queue c) = (m, q)" by (cases "messageQueuePop (ctx_queue c)")
  with mq_pop_cases [OF assms(3) p] assms(1,2) show ?thesis
    by (cases m)
      (auto simp: contextDispatchMessage_def contextRelease_def Let_def split: if_splits intro!: exI [of _ q])
qed

lemma dispatch_abort:
  assumes "contextDispatchMessage h a = None" "h a = Some c"
  shows "ctx_ref c = 1"
proof -
  obtain m q where "messageQueuePop (ctx_queue c) = (m, q)" by (cases "messageQueuePop (ctx_queue c)")
  with assms show ?thesis
    by (cases m) (auto simp: contextDispatchMessage_def contextRelease_def Let_def split: if_splits)
qed

lemma contextRelease_cases:
  assumes "contextRelease h a = Some (alive, h')" "h a = Some c"
  shows "(alive \<and> ctx_ref c \<noteq> 1 \<and> h' = h(a \<mapsto> c\<lparr>ctx_ref := ctx_ref c - 1\<rparr>)) \<or>
    (\<not> alive \<and> ctx_ref c = 1 \<and> h' = h(a := None))"
  using assms by (auto simp: contextRelease_def split: if_splits)

subsection \<open>The invariant of tokens and mailboxes\<close>

definition wp_of :: "nat \<Rightarrow> (nat \<times> message) list \<Rightarrow> message list" where
  "wp_of a l = map snd (filter (\<lambda>p. fst p = a) l)"

lemma wp_of_simps [simp]: "wp_of a [] = []" "wp_of a (l @ l') = wp_of a l @ wp_of a l'"
  "wp_of a [(b, m)] = (if a = b then [m] else [])"
  by (auto simp: wp_of_def)

definition wp_ok :: "nat \<Rightarrow> wpool \<Rightarrow> nat \<Rightarrow> bool" where
  "wp_ok n s a \<longleftrightarrow>
     (case wp_heap s a of
        None \<Rightarrow> wp_tok n s a \<le> 1
      | Some c \<Rightarrow> mq_wf (ctx_queue c) \<and> (ctx_inGlobal c = 0 \<or> ctx_inGlobal c = 1) \<and>
          int (wp_tok n s a) \<le> ctx_inGlobal c \<and>
          wp_of a (wp_sent s) = wp_of a (wp_handled s) @ mq_list (ctx_queue c))"

definition wp_at :: "nat \<Rightarrow> wpool \<Rightarrow> nat \<Rightarrow> bool" where
  "wp_at n s a \<longleftrightarrow>
     (if a \<in> wp_used s then wp_ok n s a
      else wp_heap s a = None \<and> wp_tok n s a = 0 \<and> wp_of a (wp_sent s) = [] \<and> wp_of a (wp_handled s) = [])"

definition wp_inv :: "nat \<Rightarrow> wpool \<Rightarrow> bool" where
  "wp_inv n s \<longleftrightarrow> cxq_wf (wp_queue s) \<and> (\<forall>a. wp_at n s a)"

lemma wp_at_cong:
  "wp_heap s' a = wp_heap s a \<Longrightarrow> wp_tok n s' a = wp_tok n s a \<Longrightarrow> wp_of a (wp_sent s') = wp_of a (wp_sent s) \<Longrightarrow>
    wp_of a (wp_handled s') = wp_of a (wp_handled s) \<Longrightarrow> (a \<in> wp_used s' \<longleftrightarrow> a \<in> wp_used s) \<Longrightarrow>
    wp_at n s' a = wp_at n s a"
  by (simp only: wp_at_def wp_ok_def)

lemma wp_inv_at:
  assumes "wp_inv n s" "wp_heap s a = Some c"
  shows "a \<in> wp_used s" "mq_wf (ctx_queue c)" "ctx_inGlobal c = 0 \<or> ctx_inGlobal c = 1"
    "int (wp_tok n s a) \<le> ctx_inGlobal c" "wp_of a (wp_sent s) = wp_of a (wp_handled s) @ mq_list (ctx_queue c)"
proof -
  have w: "wp_at n s a" using assms(1) by (simp add: wp_inv_def)
  then show "a \<in> wp_used s" using assms(2) by (auto simp: wp_at_def split: if_splits)
  with w have "wp_ok n s a" by (simp add: wp_at_def)
  then show "mq_wf (ctx_queue c)" "ctx_inGlobal c = 0 \<or> ctx_inGlobal c = 1"
    "int (wp_tok n s a) \<le> ctx_inGlobal c" "wp_of a (wp_sent s) = wp_of a (wp_handled s) @ mq_list (ctx_queue c)"
    by (simp_all add: wp_ok_def assms(2))
qed

lemma wp_inv_tok_le: "wp_inv n s \<Longrightarrow> wp_tok n s a \<le> 1"
proof (cases "wp_heap s a")
  case None
  assume "wp_inv n s"
  then have "wp_at n s a" by (simp add: wp_inv_def)
  with None show ?thesis by (simp add: wp_at_def wp_ok_def split: if_splits)
next
  case (Some c)
  assume "wp_inv n s"
  from wp_inv_at(3,4) [OF this Some] show ?thesis by auto
qed

lemma wp_inv_used: "wp_inv n s \<Longrightarrow> 0 < wp_tok n s a \<Longrightarrow> a \<in> wp_used s"
  by (rule ccontr) (auto simp: wp_inv_def wp_at_def dest: spec [of _ a])

text \<open>A step that touches one context.\<close>

lemma wp_inv_upd:
  assumes "wp_inv n s" "cxq_wf (wp_queue s')" "wp_used s' = wp_used s" "a \<in> wp_used s" "wp_ok n s' a"
    "\<And>b. b \<noteq> a \<Longrightarrow> wp_heap s' b = wp_heap s b" "\<And>b. b \<noteq> a \<Longrightarrow> wp_tok n s' b = wp_tok n s b"
    "\<And>b. b \<noteq> a \<Longrightarrow> wp_of b (wp_sent s') = wp_of b (wp_sent s)"
    "\<And>b. b \<noteq> a \<Longrightarrow> wp_of b (wp_handled s') = wp_of b (wp_handled s)"
  shows "wp_inv n s'"
  unfolding wp_inv_def
proof (intro conjI allI)
  fix b
  show "wp_at n s' b"
  proof (cases "b = a")
    case True then show ?thesis using assms(3,4,5) by (simp add: wp_at_def)
  next
    case False
    have "wp_at n s' b = wp_at n s b" by (rule wp_at_cong) (use False assms in auto)
    then show ?thesis using assms(1) by (simp add: wp_inv_def)
  qed
qed (rule assms(2))

text \<open>A step that touches none.\<close>

lemma wp_inv_same:
  assumes "wp_inv n s" "wp_queue s' = wp_queue s" "wp_used s' = wp_used s" "wp_heap s' = wp_heap s"
    "\<And>b. wp_tok n s' b = wp_tok n s b" "wp_sent s' = wp_sent s" "wp_handled s' = wp_handled s"
  shows "wp_inv n s'"
proof -
  have "wp_at n s' b = wp_at n s b" for b by (rule wp_at_cong) (simp_all add: assms)
  with assms(1,2) show ?thesis by (simp add: wp_inv_def)
qed

lemma wp_inv_crash: "wp_inv n s \<Longrightarrow> wp_inv n (wp_crash f s)"
  by (erule wp_inv_same) (simp_all, simp add: wp_tok_def)

text \<open>A move of the sender's program counter that holds no token before or after.\<close>

lemma wp_inv_s_to:
  assumes "wp_inv n s" "t < n" "\<And>b. tok_s p b = tok_s (wp_s s t) b"
  shows "wp_inv n (wp_s_to t p s)"
  using assms(1)
proof (rule wp_inv_same)
  show "wp_tok n (wp_s_to t p s) b = wp_tok n s b" for b
    using wp_tok_s [OF assms(2), of "wp_s_to t p s" s p b] assms(3) by simp
qed simp_all

lemma wp_inv_w_to:
  assumes "wp_inv n s" "t < n" "\<And>b. tok_w p b = tok_w (wp_w s t) b"
  shows "wp_inv n (wp_w_to t p s)"
  using assms(1)
proof (rule wp_inv_same)
  show "wp_tok n (wp_w_to t p s) b = wp_tok n s b" for b
    using wp_tok_w [OF assms(2), of "wp_w_to t p s" s p b] assms(3) by simp
qed simp_all

lemma wp_tok_put [simp]: "wp_tok n (wp_put a c s) b = wp_tok n s b"
  "wp_tok n (s\<lparr>wp_sent := l\<rparr>) b = wp_tok n s b" "wp_tok n (s\<lparr>wp_handled := l\<rparr>) b = wp_tok n s b"
  "wp_tok n (s\<lparr>wp_mgr := m\<rparr>) b = wp_tok n s b" "wp_tok n (s\<lparr>wp_heap := h\<rparr>) b = wp_tok n s b"
  "wp_tok n (s\<lparr>wp_twice := w\<rparr>) b = wp_tok n s b" "wp_tok n (s\<lparr>wp_exited := e\<rparr>) b = wp_tok n s b"
  "wp_tok n (s\<lparr>wp_used := e\<rparr>) b = wp_tok n s b"
  by (simp_all add: wp_tok_def)

lemma wp_inv_put:
  assumes "wp_inv n s" "wp_heap s a = Some c" "mq_wf (ctx_queue c')"
    "mq_list (ctx_queue c') = mq_list (ctx_queue c)" "ctx_inGlobal c' = ctx_inGlobal c"
  shows "wp_inv n (wp_put a (Some c') s)"
  using wp_inv_at [OF assms(1,2)] assms(3-5)
  by (intro wp_inv_upd [OF assms(1), of _ a]) (use assms(1) in \<open>simp_all add: wp_inv_def wp_ok_def\<close>)

lemma wp_inv_free:
  assumes "wp_inv n s" "wp_heap s a = Some c"
  shows "wp_inv n (wp_put a None s)"
  using wp_inv_at(1) [OF assms] wp_inv_tok_le [OF assms(1), of a]
  by (intro wp_inv_upd [OF assms(1), of _ a]) (use assms(1) in \<open>simp_all add: wp_inv_def wp_ok_def\<close>)

text \<open>A message enters or leaves the mailbox.\<close>

lemma wp_inv_push:
  assumes "wp_inv n s" "wp_heap s a = Some c" "mq_enq msg (ctx_queue c) = (True, q)"
  shows "wp_inv n (wp_put a (Some (c\<lparr>ctx_queue := q\<rparr>)) (s\<lparr>wp_sent := wp_sent s @ [(a, msg)]\<rparr>))"
  using wp_inv_at [OF assms(1,2)] mq_push_cases [OF _ assms(3)]
  by (intro wp_inv_upd [OF assms(1), of _ a]) (use assms(1) in \<open>simp_all add: wp_inv_def wp_ok_def\<close>)

lemma wp_inv_take:
  assumes "wp_inv n s" "wp_heap s a = Some c" "mq_wf q" "mq_list (ctx_queue c) = msg # mq_list q"
    "ctx_queue c' = q" "ctx_inGlobal c' = ctx_inGlobal c"
  shows "wp_inv n (wp_put a (Some c') (s\<lparr>wp_handled := wp_handled s @ [(a, msg)]\<rparr>))"
  using wp_inv_at [OF assms(1,2)] assms(3-6)
  by (intro wp_inv_upd [OF assms(1), of _ a]) (use assms(1) in \<open>simp_all add: wp_inv_def wp_ok_def\<close>)

text \<open>The token is created, handed to and taken from the global queue, and destroyed.\<close>

lemma wp_inv_win:
  assumes "wp_inv n s" "t < n" "wp_s s t = SPushed a" "wp_heap s a = Some c" "ctx_inGlobal c = 0"
  shows "wp_inv n (wp_s_to t (SWon a) (wp_put a (Some (c\<lparr>ctx_inGlobal := 1\<rparr>)) s))" (is "wp_inv n ?s")
proof -
  note at = wp_inv_at [OF assms(1,4)]
  have T: "wp_tok n ?s b = wp_tok n s b + of_bool (b = a)" for b
    using wp_tok_s [OF assms(2), of ?s s "SWon a" b] assms(3) by simp
  show ?thesis
    using at assms(5) by (intro wp_inv_upd [OF assms(1), of _ a]) (use assms(1) in \<open>simp_all add: wp_inv_def wp_ok_def T\<close>)
qed

lemma wp_inv_lower:
  assumes "wp_inv n s" "cxq_wf (wp_queue s')" "wp_used s' = wp_used s" "wp_heap s' = wp_heap s"
    "\<And>b. wp_tok n s' b \<le> wp_tok n s b" "wp_sent s' = wp_sent s" "wp_handled s' = wp_handled s"
  shows "wp_inv n s'"
proof -
  have "wp_at n s' b" if "wp_at n s b" for b
    using that assms(5) [of b]
    by (cases "wp_heap s b") (simp_all add: wp_at_def wp_ok_def assms(3,4,6,7) split: if_splits)
  with assms(1,2) show ?thesis by (simp add: wp_inv_def)
qed

lemma wp_inv_swap:
  assumes "wp_inv n s" "t < n" "wp_w s t = WCas a" "wp_heap s a = Some c" "ctx_inGlobal c = 1"
  shows "wp_inv n (wp_w_to t (WRel a) (wp_put a (Some (c\<lparr>ctx_inGlobal := 0\<rparr>)) s))" (is "wp_inv n ?s")
proof -
  note at = wp_inv_at [OF assms(1,4)]
  have T: "wp_tok n ?s b + of_bool (b = a) = wp_tok n s b" for b
    using wp_tok_w [OF assms(2), of ?s s "WRel a" b] assms(3) by simp
  have Tb: "wp_tok n ?s b = wp_tok n s b" if "b \<noteq> a" for b using T [of b] that by simp
  have "wp_tok n ?s a = 0" using T [of a] at(4) assms(5) by simp
  then show ?thesis
    using at assms(5) by (intro wp_inv_upd [OF assms(1), of _ a]) (use assms(1) in \<open>simp_all add: wp_inv_def wp_ok_def Tb\<close>)
qed

lemma wp_put_record:
  "s\<lparr>wp_heap := (wp_heap s)(a := x)\<rparr> = wp_put a x s"
  "s\<lparr>wp_heap := (wp_heap s)(a := x), wp_handled := l\<rparr> = wp_put a x (s\<lparr>wp_handled := l\<rparr>)"
  "wp_put a x s\<lparr>wp_handled := l\<rparr> = wp_put a x (s\<lparr>wp_handled := l\<rparr>)"
  by (simp_all add: wp_put_def)

lemma wp_inv_wakeup:
  assumes "wp_inv n s" "wp_signal s s'"
  shows "wp_inv n s'"
  using assms(1) by (rule wp_inv_same) (simp_all add: wp_signal_same [OF assms(2)])

lemma wp_inv_heap_release:
  assumes "wp_inv n s" "wp_heap s a = Some c" "contextRelease (wp_heap s) a = Some (alive, h)"
  shows "wp_inv n (s\<lparr>wp_heap := h\<rparr>)"
  using contextRelease_cases [OF assms(3,2)] wp_inv_free [OF assms(1,2)]
    wp_inv_put [OF assms(1,2), of "c\<lparr>ctx_ref := ctx_ref c - 1\<rparr>"] wp_inv_at [OF assms(1,2)]
  by (auto simp: wp_put_record)

lemma wp_inv_dispatch:
  assumes inv: "wp_inv n s" and t: "t < n" and w: "wp_w s t = WHave a"
    and d: "contextDispatchMessage (wp_heap s) a = Some (r, ev, h)"
  shows "ev = NoMessage \<Longrightarrow> h = wp_heap s"
    "ev = Dropped msg \<or> ev = Exited msg \<or> ev = Called msg \<Longrightarrow>
      wp_inv n (s\<lparr>wp_heap := h, wp_handled := wp_handled s @ [(a, msg)]\<rparr>)"
proof -
  obtain c where c: "wp_heap s a = Some c"
    using d by (cases "wp_heap s a") (auto simp: contextDispatchMessage_def)
  note dc = dispatch_cases [OF d c wp_inv_at(2) [OF inv c]]
  show "ev = NoMessage \<Longrightarrow> h = wp_heap s" using dc by auto
  assume "ev = Dropped msg \<or> ev = Exited msg \<or> ev = Called msg"
  then obtain q c' where "mq_wf q" "mq_list (ctx_queue c) = msg # mq_list q" "h = (wp_heap s)(a \<mapsto> c')"
    "ctx_queue c' = q" "ctx_inGlobal c' = ctx_inGlobal c"
    using dc by auto
  with wp_inv_take [OF inv c] show "wp_inv n (s\<lparr>wp_heap := h, wp_handled := wp_handled s @ [(a, msg)]\<rparr>)"
    by (simp add: wp_put_record)
qed

lemma wp_act_inv:
  assumes "wp_act race t s s'" "t < n" "wp_inv n s"
  shows "wp_inv n s'"
  using assms(1)
proof (cases rule: wp_act.cases)
  case (retain a x c)
  have "wp_inv n (wp_put a (Some (c\<lparr>ctx_ref := ctx_ref c + 1\<rparr>)) s)"
    using retain wp_inv_at [OF assms(3), of a c] by (intro wp_inv_put [OF assms(3), of a c]) simp_all
  with retain show ?thesis using assms(2) by (auto intro!: wp_inv_s_to)
next
  case (build_new a x b c i c')
  have "wp_inv n (wp_put b (Some c') s)"
    using build_new wp_inv_at [OF assms(3), of b c]
    by (intro wp_inv_put [OF assms(3), of b c]) (auto simp: contextNewsession_def Let_def split: if_splits)
  with build_new show ?thesis using assms(2) by (auto intro!: wp_inv_s_to)
next
  case (push a msg c q)
  with wp_inv_push [OF assms(3), of a c msg q] show ?thesis using assms(2) by (auto intro!: wp_inv_s_to)
next
  case (cas_won a c)
  with wp_inv_win [OF assms(3,2), of a c] show ?thesis by simp
next
  case (global a ok q)
  have q: "cxq_wf q" "cxq_list q = cxq_list (wp_queue s) @ (if ok then [a] else [])"
    using cxq_enq_cases [OF _ global(3)] assms(3) by (simp_all add: wp_inv_def)
  have "wp_tok n s' b \<le> wp_tok n s b" for b
    using wp_tok_s [OF assms(2), of s' s SWake b] global q by (cases ok) (auto split: if_splits)
  then show ?thesis using assms(3) global q by (intro wp_inv_lower [OF assms(3), of s']) auto
next
  case (global_race a)
  have "wp_tok n s' b \<le> wp_tok n s b" for b
    using wp_tok_s [OF assms(2), of s' s SWake b] global_race by simp
  then show ?thesis using assms(3) global_race by (intro wp_inv_lower [OF assms(3), of s']) (auto simp: wp_inv_def)
next
  case wakeup
  then show ?thesis using assms(2,3) by (intro wp_inv_wakeup [OF wp_inv_s_to wakeup(2)]) auto
next
  case (release a c alive h)
  with wp_inv_heap_release [OF assms(3), of a c alive h] show ?thesis
    using assms(2) by (auto intro!: wp_inv_s_to)
next
  case (remove i)
  have "wp_inv n (s\<lparr>wp_mgr := snd (ctxMgrRemoveContext (wp_mgr s) i)\<rparr>)"
    using assms(3) by (rule wp_inv_same) simp_all
  with remove show ?thesis using assms(2) by (auto intro!: wp_inv_s_to)
next
  case (pop_some a q)
  have q: "cxq_wf q" "cxq_list (wp_queue s) = a # cxq_list q"
    using cxq_pop_cases [OF _ pop_some(3)] assms(3) by (simp_all add: wp_inv_def)
  have "wp_tok n s' b \<le> wp_tok n s b" for b
    using wp_tok_w [OF assms(2), of s' s "WHave a" b] pop_some q by (auto split: if_splits)
  then show ?thesis using assms(3) pop_some q by (intro wp_inv_lower [OF assms(3), of s']) auto
next
  case (disp_none a r h)
  have "h = wp_heap s" by (rule wp_inv_dispatch(1) [OF assms(3,2) disp_none(2,3)]) simp
  then have "wp_inv n (s\<lparr>wp_heap := h\<rparr>)" using assms(3) by simp
  with disp_none show ?thesis using assms(2) by (auto intro!: wp_inv_w_to)
next
  case (disp_drop a r msg h)
  with wp_inv_dispatch(2) [OF assms(3,2) disp_drop(2,3)] show ?thesis
    using assms(2) by (auto intro!: wp_inv_w_to)
next
  case (disp_exit a r msg h)
  let ?s = "s\<lparr>wp_heap := h, wp_handled := wp_handled s @ [(a, msg)]\<rparr>"
  have "wp_inv n ?s" using wp_inv_dispatch(2) [OF assms(3,2) disp_exit(2,3)] by simp
  then have "wp_inv n (?s\<lparr>wp_twice := wp_twice s \<or> a \<in> wp_exited s, wp_exited := insert a (wp_exited s)\<rparr>)"
    by (rule wp_inv_same) simp_all
  with disp_exit show ?thesis using assms(2) by (auto intro!: wp_inv_w_to)
next
  case (disp_call a r msg h)
  with wp_inv_dispatch(2) [OF assms(3,2) disp_call(2,3)] show ?thesis
    using assms(2) by (auto intro!: wp_inv_w_to)
next
  case (disp_abort a c)
  have "wp_inv n (s\<lparr>wp_twice := wp_twice s \<or> a \<in> wp_exited s\<rparr>)"
    using assms(3) by (rule wp_inv_same) simp_all
  with disp_abort show ?thesis by (auto intro!: wp_inv_crash)
next
  case (requeue a ok q)
  have q: "cxq_wf q" "cxq_list q = cxq_list (wp_queue s) @ (if ok then [a] else [])"
    using cxq_enq_cases [OF _ requeue(3)] assms(3) by (simp_all add: wp_inv_def)
  have "wp_tok n s' b \<le> wp_tok n s b" for b
    using wp_tok_w [OF assms(2), of s' s "WNum False" b] requeue q by (cases ok) (auto split: if_splits)
  then show ?thesis using assms(3) requeue q by (intro wp_inv_lower [OF assms(3), of s']) auto
next
  case (requeue_race a)
  have "wp_tok n s' b \<le> wp_tok n s b" for b
    using wp_tok_w [OF assms(2), of s' s "WNum False" b] requeue_race by simp
  then show ?thesis using assms(3) requeue_race by (intro wp_inv_lower [OF assms(3), of s']) (auto simp: wp_inv_def)
next
  case (cas a c)
  with wp_inv_swap [OF assms(3,2), of a c] show ?thesis by simp
next
  case (wrelease a c alive h)
  with wp_inv_heap_release [OF assms(3), of a c alive h] show ?thesis
    using assms(2) by (auto intro!: wp_inv_w_to)
next
  case (wremove i)
  have "wp_inv n (s\<lparr>wp_mgr := snd (ctxMgrRemoveContext (wp_mgr s) i)\<rparr>)"
    using assms(3) by (rule wp_inv_same) simp_all
  with wremove show ?thesis using assms(2) by (auto intro!: wp_inv_w_to)
next
  case (num_stop sl)
  have "wp_inv n (workerPoolStop s)"
    using assms(3) by (rule wp_inv_same) (simp_all add: workerPoolStop_same, simp_all add: workerPoolStop_def)
  with num_stop show ?thesis using assms(2) by (auto simp: workerPoolStop_def intro!: wp_inv_w_to)
qed (use assms(2,3) in \<open>auto intro!: wp_inv_crash wp_inv_s_to wp_inv_w_to\<close>)

text \<open>The other two kinds of steps.\<close>

lemma ctxMgrSearch_ctx: "ctxMgrSearch k m c a = (i, m', c') \<Longrightarrow> \<exists>x. c' = c\<lparr>ctx_id := x\<rparr>"
proof (induction k arbitrary: m c)
  case 0
  then show ?case by (cases c') (auto intro!: exI [of _ "ctx_id c'"])
next
  case (Suc k)
  then show ?case by (fastforce simp: Let_def split: prod.splits if_splits)
qed

lemma ctxMgrAddContext_heap:
  "ctxMgrAddContext m h a = Some (i, m', h') \<Longrightarrow> h a = Some c \<Longrightarrow> \<exists>x. h' = h(a \<mapsto> c\<lparr>ctx_id := x\<rparr>)"
  by (auto simp: ctxMgrAddContext_def split: option.splits prod.splits dest!: ctxMgrSearch_ctx)

lemma wp_create_inv:
  assumes inv: "wp_inv n s" and a: "a \<notin> wp_used s"
    and c: "ctx_inGlobal c = 0" "ctx_queue c = messageQueueCreate 1024"
    and h: "h' = (wp_heap s)(a \<mapsto> c\<lparr>ctx_id := x\<rparr>)"
  shows "wp_inv n (s\<lparr>wp_mgr := m', wp_heap := h', wp_used := insert a (wp_used s)\<rparr>)" (is "wp_inv n ?s")
proof -
  have w: "wp_at n s b" for b using inv by (simp add: wp_inv_def)
  have "wp_at n ?s b" for b
  proof (cases "b = a")
    case True
    then show ?thesis
      using w [of a] a c messageQueueCreate_wf [of 1024] by (simp add: wp_at_def wp_ok_def h)
  next
    case False
    have "wp_at n ?s b = wp_at n s b" by (rule wp_at_cong) (use False h in simp_all)
    then show ?thesis using w by simp
  qed
  then show ?thesis using inv by (simp add: wp_inv_def)
qed

lemma wp_callback_inv:
  assumes "wp_inv n s" "contextSetCallback (wp_heap s) a cb ud = Some h"
  shows "wp_inv n (s\<lparr>wp_heap := h\<rparr>)"
proof -
  obtain c where c: "wp_heap s a = Some c" and h: "h = (wp_heap s)(a \<mapsto> c\<lparr>ctx_cb := cb, ctx_ud := ud\<rparr>)"
    using assms(2) by (auto simp: contextSetCallback_def split: option.splits)
  from wp_inv_put [OF assms(1) c, of "c\<lparr>ctx_cb := cb, ctx_ud := ud\<rparr>"] wp_inv_at [OF assms(1) c] h
  show ?thesis by (simp add: wp_put_record)
qed

lemma wp_step_inv: "wp_step n race s s' \<Longrightarrow> wp_inv n s \<Longrightarrow> wp_inv n s'"
proof (induction rule: wp_step.induct)
  case (create s a c i m' h')
  then obtain x where "h' = (wp_heap s)(a \<mapsto> c\<lparr>ctx_id := x\<rparr>)"
    using ctxMgrAddContext_heap [OF create(6), of c] by auto
  with create show ?case by (intro wp_create_inv) auto
qed (auto intro: wp_act_inv wp_callback_inv)

lemma wp_init_tok [simp]: "wp_tok n (wp_init k z) a = 0" "wp_ext n (wp_init k z) a = 0"
proof -
  have "cxq_list (contextQueueCreate 1024 :: nat contextQueue) = []"
    by (simp add: cxq_list_def cxq_ring_create lfq_contents_def lfq_list_def arrayLockFreeQueueCreate_def)
  moreover have "tok_w (wp_w (wp_init k z) t) a = 0" "ext_w (wp_w (wp_init k z) t) a = 0" for t
    by (simp_all add: wp_init_def)
  ultimately show "wp_tok n (wp_init k z) a = 0" "wp_ext n (wp_init k z) a = 0"
    by (simp_all add: wp_tok_def wp_ext_def) (simp_all add: wp_init_def)
qed

lemma cxq_create_wf: "cxq_wf (contextQueueCreate 1024)"
proof -
  have "lfq_inv (arrayLockFreeQueueCreate 1024)"
    using nextpow2_pow [of 1024] by (auto simp: lfq_inv_def arrayLockFreeQueueCreate_def pow2_size_def)
  then show ?thesis
    by (simp add: cxq_wf_def cxq_ring_create lfq_wf_def lfq_list_def arrayLockFreeQueueCreate_def)
qed

lemma wp_reach_inv: "wp_reach n race k z s \<Longrightarrow> wp_inv n s"
proof (induction rule: wp_reach.induct)
  case init
  have "wp_at n (wp_init k z) a" for a by (simp add: wp_at_def) (simp add: wp_init_def)
  moreover have "cxq_wf (wp_queue (wp_init k z))" using cxq_create_wf by (simp add: wp_init_def)
  ultimately show ?case by (simp add: wp_inv_def)
qed (rule wp_step_inv)

lemma wp_reach_exclusive:
  assumes "wp_reach n race k z s" "t < n" "u < n" "wp_w s t = WRun a m" "wp_w s u = WRun a m'"
  shows "t = u"
proof (rule ccontr)
  assume "t \<noteq> u"
  from wp_tok_two [OF assms(2,3) this, of s a] wp_inv_tok_le [OF wp_reach_inv [OF assms(1)], of a] assms(4,5)
  show False by simp
qed

subsection \<open>The invariant of references\<close>

definition wp_rat :: "nat \<Rightarrow> wpool \<Rightarrow> nat \<Rightarrow> bool" where
  "wp_rat n s a \<longleftrightarrow>
     (case wp_heap s a of
        None \<Rightarrow> wp_tok n s a = 0 \<and> wp_ext n s a = 0
      | Some c \<Rightarrow> unat (ctx_ref c) =
          (if a \<in> wp_exited s then 0 else 1) + nat (ctx_inGlobal c) + wp_ext n s a)"

definition wp_rinv :: "nat \<Rightarrow> wpool \<Rightarrow> bool" where
  "wp_rinv n s \<longleftrightarrow> wp_exited s \<subseteq> wp_used s \<and> (\<forall>a. wp_rat n s a)"

lemma wp_rinv_upd:
  assumes "wp_rinv n s" "wp_exited s' \<subseteq> wp_used s'" "wp_rat n s' a"
    "\<And>b. b \<noteq> a \<Longrightarrow> wp_heap s' b = wp_heap s b" "\<And>b. b \<noteq> a \<Longrightarrow> wp_tok n s' b \<le> wp_tok n s b"
    "\<And>b. b \<noteq> a \<Longrightarrow> wp_ext n s' b = wp_ext n s b" "\<And>b. b \<noteq> a \<Longrightarrow> b \<in> wp_exited s' \<longleftrightarrow> b \<in> wp_exited s"
  shows "wp_rinv n s'"
  unfolding wp_rinv_def
proof (intro conjI allI)
  fix b
  have "wp_rat n s b" using assms(1) by (simp add: wp_rinv_def)
  then show "wp_rat n s' b"
    using assms(3) assms(4-7) [of b] by (cases "b = a") (auto simp: wp_rat_def split: option.splits)
qed (rule assms(2))

lemma wp_rinv_same:
  assumes "wp_rinv n s" "wp_exited s' = wp_exited s" "wp_used s' = wp_used s"
    "wp_heap s' = wp_heap s" "\<And>b. wp_tok n s' b \<le> wp_tok n s b" "\<And>b. wp_ext n s' b = wp_ext n s b"
  shows "wp_rinv n s'"
proof -
  have "wp_rat n s' b" for b
  proof -
    have "wp_rat n s b" using assms(1) by (simp add: wp_rinv_def)
    then show ?thesis using assms(5) [of b] by (simp add: wp_rat_def assms(2,4,6) split: option.splits)
  qed
  then show ?thesis using assms(1-3) by (simp add: wp_rinv_def)
qed

lemma wp_rinv_at:
  assumes "wp_rinv n s"
  shows "wp_heap s a = Some c \<Longrightarrow> unat (ctx_ref c) =
      (if a \<in> wp_exited s then 0 else 1) + nat (ctx_inGlobal c) + wp_ext n s a"
    "wp_heap s a = None \<Longrightarrow> wp_tok n s a = 0 \<and> wp_ext n s a = 0"
proof -
  have "wp_rat n s a" using assms by (simp add: wp_rinv_def)
  then show "wp_heap s a = Some c \<Longrightarrow> unat (ctx_ref c) =
      (if a \<in> wp_exited s then 0 else 1) + nat (ctx_inGlobal c) + wp_ext n s a"
    "wp_heap s a = None \<Longrightarrow> wp_tok n s a = 0 \<and> wp_ext n s a = 0"
    by (simp_all add: wp_rat_def)
qed

lemma wp_ext_thread:
  assumes "t < n"
  shows "ext_s (wp_s s t) a + ext_w (wp_w s t) a \<le> wp_ext n s a"
  using member_le_sum [of t "{..<n}" "\<lambda>t. ext_s (wp_s s t) a"] member_le_sum [of t "{..<n}" "\<lambda>t. ext_w (wp_w s t) a"]
    assms by (simp add: wp_ext_def)

lemma wp_ext_le: "wp_ext n s a \<le> 2 * n"
proof -
  have "ext_s p a \<le> 1" for p by (cases p) auto
  then have s: "(\<Sum>t<n. ext_s (wp_s s t) a) \<le> n * 1" using sum_bounded_above [of "{..<n}" "\<lambda>t. ext_s (wp_s s t) a" 1] by simp
  have "ext_w p a \<le> 1" for p by (cases p) auto
  then have "(\<Sum>t<n. ext_w (wp_w s t) a) \<le> n * 1" using sum_bounded_above [of "{..<n}" "\<lambda>t. ext_w (wp_w s t) a" 1] by simp
  with s show ?thesis by (simp add: wp_ext_def)
qed

lemma wp_ext_put [simp]: "wp_ext n (wp_put a c s) b = wp_ext n s b"
  "wp_ext n (s\<lparr>wp_sent := l\<rparr>) b = wp_ext n s b" "wp_ext n (s\<lparr>wp_handled := l\<rparr>) b = wp_ext n s b"
  "wp_ext n (s\<lparr>wp_mgr := m\<rparr>) b = wp_ext n s b" "wp_ext n (s\<lparr>wp_heap := h\<rparr>) b = wp_ext n s b"
  "wp_ext n (s\<lparr>wp_twice := w\<rparr>) b = wp_ext n s b" "wp_ext n (s\<lparr>wp_exited := e\<rparr>) b = wp_ext n s b"
  "wp_ext n (s\<lparr>wp_used := e\<rparr>) b = wp_ext n s b" "wp_ext n (s\<lparr>wp_queue := q\<rparr>) b = wp_ext n s b"
  by (simp_all add: wp_ext_def)

lemma wp_rinv_crash: "wp_rinv n s \<Longrightarrow> wp_rinv n (wp_crash f s)"
  by (erule wp_rinv_same) (simp_all, simp_all add: wp_tok_def wp_ext_def)

lemma wp_rinv_s_to:
  assumes "wp_rinv n s" "t < n" "\<And>b. tok_s p b \<le> tok_s (wp_s s t) b" "\<And>b. ext_s p b = ext_s (wp_s s t) b"
  shows "wp_rinv n (wp_s_to t p s)"
  using assms(1)
proof (rule wp_rinv_same)
  show "wp_tok n (wp_s_to t p s) b \<le> wp_tok n s b" for b
    using wp_tok_s [OF assms(2), of "wp_s_to t p s" s p b] assms(3) [of b] by simp
  show "wp_ext n (wp_s_to t p s) b = wp_ext n s b" for b
    using wp_ext_s [OF assms(2), of "wp_s_to t p s" s p b] assms(4) [of b] by simp
qed simp_all

lemma wp_rinv_w_to:
  assumes "wp_rinv n s" "t < n" "\<And>b. tok_w p b \<le> tok_w (wp_w s t) b" "\<And>b. ext_w p b = ext_w (wp_w s t) b"
  shows "wp_rinv n (wp_w_to t p s)"
  using assms(1)
proof (rule wp_rinv_same)
  show "wp_tok n (wp_w_to t p s) b \<le> wp_tok n s b" for b
    using wp_tok_w [OF assms(2), of "wp_w_to t p s" s p b] assms(3) [of b] by simp
  show "wp_ext n (wp_w_to t p s) b = wp_ext n s b" for b
    using wp_ext_w [OF assms(2), of "wp_w_to t p s" s p b] assms(4) [of b] by simp
qed simp_all

text \<open>A change of a context that leaves its references and inGlobal.\<close>

lemma wp_rinv_put:
  assumes "wp_rinv n s" "wp_heap s a = Some c" "ctx_ref c' = ctx_ref c" "ctx_inGlobal c' = ctx_inGlobal c"
  shows "wp_rinv n (wp_put a (Some c') s)"
proof (rule wp_rinv_upd [OF assms(1), of _ a])
  show "wp_rat n (wp_put a (Some c') s) a"
    using wp_rinv_at(1) [OF assms(1,2)] by (simp add: wp_rat_def assms(3,4))
qed (use assms(1) in \<open>simp_all add: wp_rinv_def\<close>)

text \<open>A reference is taken, moves between a thread and inGlobal, and is given back.\<close>

lemma wp_rinv_retain:
  assumes r: "wp_rinv n s" and t: "t < n" "wp_s s t = SFound a x" and c: "wp_heap s a = Some c"
    and g: "ctx_inGlobal c \<le> 1" and n: "n < 2 ^ 30"
  shows "wp_rinv n (wp_s_to t (SRetained a x) (wp_put a (Some (c\<lparr>ctx_ref := ctx_ref c + 1\<rparr>)) s))" (is "wp_rinv n ?s")
proof (rule wp_rinv_upd [OF r, of _ a])
  have E: "wp_ext n ?s b = wp_ext n s b + of_bool (b = a)" for b
    using wp_ext_s [OF t(1), of ?s s "SRetained a x" b] t(2) by simp
  show "b \<noteq> a \<Longrightarrow> wp_ext n ?s b = wp_ext n s b" for b by (simp add: E)
  show "wp_tok n ?s b \<le> wp_tok n s b" for b
    using wp_tok_s [OF t(1), of ?s s "SRetained a x" b] t(2) by simp
  have "unat (ctx_ref c) \<le> 2 + wp_ext n s a"
    using wp_rinv_at(1) [OF r c] g by (simp split: if_splits)
  then have "unat (ctx_ref c) < 2 ^ 32 - 1" using wp_ext_le [of n s a] n by simp
  then have "unat (ctx_ref c + 1) = Suc (unat (ctx_ref c))" by (simp add: unat_word_ariths)
  then show "wp_rat n ?s a" using wp_rinv_at(1) [OF r c] by (simp add: wp_rat_def E)
qed (use r in \<open>simp_all add: wp_rinv_def\<close>)

lemma wp_rinv_win:
  assumes r: "wp_rinv n s" and t: "t < n" "wp_s s t = SPushed a" and c: "wp_heap s a = Some c" "ctx_inGlobal c = 0"
  shows "wp_rinv n (wp_s_to t (SWon a) (wp_put a (Some (c\<lparr>ctx_inGlobal := 1\<rparr>)) s))" (is "wp_rinv n ?s")
proof (rule wp_rinv_upd [OF r, of _ a])
  have E: "wp_ext n ?s b + of_bool (b = a) = wp_ext n s b" for b
    using wp_ext_s [OF t(1), of ?s s "SWon a" b] t(2) by simp
  show "b \<noteq> a \<Longrightarrow> wp_ext n ?s b = wp_ext n s b" for b using E [of b] by simp
  show "b \<noteq> a \<Longrightarrow> wp_tok n ?s b \<le> wp_tok n s b" for b
    using wp_tok_s [OF t(1), of ?s s "SWon a" b] t(2) by simp
  show "wp_rat n ?s a" using wp_rinv_at(1) [OF r c(1)] E [of a] c(2) by (simp add: wp_rat_def)
qed (use r in \<open>simp_all add: wp_rinv_def\<close>)

lemma wp_rinv_swap:
  assumes r: "wp_rinv n s" and t: "t < n" "wp_w s t = WCas a" and c: "wp_heap s a = Some c" "ctx_inGlobal c = 1"
  shows "wp_rinv n (wp_w_to t (WRel a) (wp_put a (Some (c\<lparr>ctx_inGlobal := 0\<rparr>)) s))" (is "wp_rinv n ?s")
proof (rule wp_rinv_upd [OF r, of _ a])
  have E: "wp_ext n ?s b = wp_ext n s b + of_bool (b = a)" for b
    using wp_ext_w [OF t(1), of ?s s "WRel a" b] t(2) by simp
  show "b \<noteq> a \<Longrightarrow> wp_ext n ?s b = wp_ext n s b" for b by (simp add: E)
  show "wp_tok n ?s b \<le> wp_tok n s b" for b
    using wp_tok_w [OF t(1), of ?s s "WRel a" b] t(2) by simp
  show "wp_rat n ?s a" using wp_rinv_at(1) [OF r c(1)] c(2) by (simp add: wp_rat_def E)
qed (use r in \<open>simp_all add: wp_rinv_def\<close>)

lemma wp_rinv_give:
  assumes i: "wp_inv n s" and r: "wp_rinv n s" and c: "wp_heap s a = Some c"
    and rel: "contextRelease (wp_heap s) a = Some (alive, h)"
    and s': "wp_heap s' = h" "wp_exited s' = wp_exited s" "wp_used s' = wp_used s"
    and T: "\<And>b. wp_tok n s' b = wp_tok n s b" and E: "\<And>b. wp_ext n s' b + of_bool (b = a) = wp_ext n s b"
  shows "wp_rinv n s'"
proof (rule wp_rinv_upd [OF r, of _ a])
  note ref = wp_rinv_at(1) [OF r c] and rc = contextRelease_cases [OF rel c]
  show "b \<noteq> a \<Longrightarrow> wp_heap s' b = wp_heap s b" for b using rc s'(1) by auto
  show "b \<noteq> a \<Longrightarrow> wp_ext n s' b = wp_ext n s b" for b using E [of b] by simp
  show "wp_rat n s' a"
  proof (cases alive)
    case True
    have "0 < unat (ctx_ref c)" using ref E [of a] wp_inv_at(3) [OF i c] by (auto split: if_splits)
    then have "unat (ctx_ref c - 1) = unat (ctx_ref c) - 1" by (subst unat_minus_one) auto
    then show ?thesis using True rc ref E [of a] \<open>0 < unat (ctx_ref c)\<close> s' by (simp add: wp_rat_def of_nat_diff)
  next
    case False
    then have "ctx_ref c = 1" "h a = None" using rc by auto
    then have "wp_ext n s' a = 0" "ctx_inGlobal c = 0"
      using ref E [of a] wp_inv_at(3) [OF i c] by (auto split: if_splits)
    then show ?thesis using wp_inv_at(4) [OF i c] \<open>h a = None\<close> s' T by (simp add: wp_rat_def)
  qed
qed (use r s' T in \<open>simp_all add: wp_rinv_def\<close>)

lemma wp_rinv_exit:
  assumes i: "wp_inv n s" and r: "wp_rinv n s" and t: "t < n" "wp_w s t = WHave a"
    and c: "wp_heap s a = Some c" "ctx_ref c \<noteq> 1" "a \<notin> wp_exited s"
    and c': "ctx_ref c' = ctx_ref c - 1" "ctx_inGlobal c' = ctx_inGlobal c"
  shows "wp_rinv n (wp_put a (Some c') (s\<lparr>wp_exited := insert a (wp_exited s)\<rparr>))"
proof (rule wp_rinv_upd [OF r, of _ a])
  have u: "a \<in> wp_used s" by (rule wp_inv_at(1) [OF i c(1)])
  then show "wp_exited (wp_put a (Some c') (s\<lparr>wp_exited := insert a (wp_exited s)\<rparr>)) \<subseteq>
      wp_used (wp_put a (Some c') (s\<lparr>wp_exited := insert a (wp_exited s)\<rparr>))"
    using r by (auto simp: wp_rinv_def)
  have ref: "unat (ctx_ref c) = Suc (nat (ctx_inGlobal c) + wp_ext n s a)"
    using wp_rinv_at(1) [OF r c(1)] c(3) by simp
  then have "unat (ctx_ref c - 1) = unat (ctx_ref c) - 1" by (subst unat_minus_one) auto
  then show "wp_rat n (wp_put a (Some c') (s\<lparr>wp_exited := insert a (wp_exited s)\<rparr>)) a"
    using ref by (simp add: wp_rat_def c')
qed simp_all

lemma wp_holder_alive:
  assumes "wp_rinv n s" "t < n"
  shows "0 < ext_s (wp_s s t) a \<or> 0 < tok_w (wp_w s t) a \<or> 0 < ext_w (wp_w s t) a \<Longrightarrow> wp_heap s a \<noteq> None"
  using wp_rinv_at(2) [OF assms(1), of a] wp_tok_thread [OF assms(2), of s a] wp_ext_thread [OF assms(2), of s a]
  by (cases "wp_heap s a") auto

text \<open>The faults a run can end in when no context handles two exit messages.\<close>

definition wp_excusable :: "wpool \<Rightarrow> bool" where
  "wp_excusable s \<longleftrightarrow> wp_fault s \<in> {None, Some RetainFreed, Some SenderGone, Some QueueFull}"

lemma wp_act_rinv:
  assumes "wp_act race t s s'" "t < n" "wp_inv n s" "wp_rinv n s" "\<not> wp_twice s'" "n < 2 ^ 30" "wp_fault s = None"
  shows "wp_rinv n s' \<and> wp_excusable s'"
proof -
  note t = assms(2) and i = assms(3) and r = assms(4)
  have ok: "wp_rinv n s' \<and> wp_excusable s'" if "wp_rinv n s'" "wp_fault s' = wp_fault s"
    using that assms(7) by (simp add: wp_excusable_def)
  have crash: "wp_rinv n (wp_crash f s) \<and> wp_excusable (wp_crash f s)"
    if "f = RetainFreed \<or> f = SenderGone \<or> f = QueueFull" for f
    using that wp_rinv_crash [OF r] by (auto simp: wp_excusable_def)
  have alive: "wp_heap s a \<noteq> None"
    if "0 < ext_s (wp_s s t) a \<or> 0 < tok_w (wp_w s t) a \<or> 0 < ext_w (wp_w s t) a" for a
    by (rule wp_holder_alive [OF r t that])
  have s_to: "wp_rinv n (wp_s_to t p s) \<and> wp_excusable (wp_s_to t p s)"
    if "\<And>b. tok_s p b \<le> tok_s (wp_s s t) b" "\<And>b. ext_s p b = ext_s (wp_s s t) b" for p
    using wp_rinv_s_to [OF r t that] assms(7) by (simp add: wp_excusable_def)
  have w_to: "wp_rinv n (wp_w_to t p s) \<and> wp_excusable (wp_w_to t p s)"
    if "\<And>b. tok_w p b \<le> tok_w (wp_w s t) b" "\<And>b. ext_w p b = ext_w (wp_w s t) b" for p
    using wp_rinv_w_to [OF r t that] assms(7) by (simp add: wp_excusable_def)
  show ?thesis
    using assms(1)
  proof (cases rule: wp_act.cases)
    case (retain a x c)
    with wp_rinv_retain [OF r t, of a x c] wp_inv_at(3) [OF i, of a c] assms(6) show ?thesis
      by (intro ok) auto
  next
    case (build_new a x b c i c')
    have "wp_rinv n (wp_put b (Some c') s)"
      using build_new by (intro wp_rinv_put [OF r, of b c]) (auto simp: contextNewsession_def Let_def split: if_splits)
    with build_new show ?thesis using t by (intro ok) (auto intro!: wp_rinv_s_to)
  next
    case (push a msg c q)
    have "wp_rinv n (s\<lparr>wp_sent := wp_sent s @ [(a, msg)]\<rparr>)" using r by (rule wp_rinv_same) simp_all
    then have "wp_rinv n (wp_put a (Some (c\<lparr>ctx_queue := q\<rparr>)) (s\<lparr>wp_sent := wp_sent s @ [(a, msg)]\<rparr>))"
      by (rule wp_rinv_put [where c = c]) (use push in simp_all)
    with push show ?thesis using t by (intro ok) (auto intro!: wp_rinv_s_to)
  next
    case (cas_won a c)
    with wp_rinv_win [OF r t, of a c] show ?thesis by (intro ok) auto
  next
    case (global a ok' q)
    have q: "cxq_list q = cxq_list (wp_queue s) @ (if ok' then [a] else [])"
      using cxq_enq_cases [OF _ global(3)] i by (simp add: wp_inv_def)
    have "wp_rinv n s'"
    proof (rule wp_rinv_same [OF r])
      show "wp_tok n s' b \<le> wp_tok n s b" for b
        using wp_tok_s [OF t, of s' s SWake b] global q by (cases ok') (auto split: if_splits)
      show "wp_ext n s' b = wp_ext n s b" for b
        using wp_ext_s [OF t, of s' s SWake b] global by simp
    qed (use global in simp_all)
    with global show ?thesis by (intro ok) auto
  next
    case (wakeup)
    have "wp_rinv n (wp_s_to t SIdle s)" using r t wakeup by (intro wp_rinv_s_to) auto
    then have "wp_rinv n s'" by (rule wp_rinv_same) (simp_all add: wp_signal_same [OF wakeup(2)])
    then show ?thesis by (intro ok) (simp_all add: wp_signal_same [OF wakeup(2)])
  next
    case (release a c alive h)
    let ?p = "if alive then SIdle else SRemove (ctx_id c)"
    have "wp_rinv n s'"
      by (rule wp_rinv_give [OF i r release(3,4)])
        (use release wp_tok_s [OF t, of s' s ?p] wp_ext_s [OF t, of s' s ?p] in \<open>auto split: if_splits\<close>)
    with release show ?thesis by (intro ok) auto
  next
    case (remove j)
    have "wp_rinv n (s\<lparr>wp_mgr := snd (ctxMgrRemoveContext (wp_mgr s) j)\<rparr>)" using r by (rule wp_rinv_same) simp_all
    with remove show ?thesis using t by (intro ok) (auto intro!: wp_rinv_s_to)
  next
    case (pop_some a q)
    have q: "cxq_list (wp_queue s) = a # cxq_list q"
      using cxq_pop_cases [OF _ pop_some(3)] i by (simp add: wp_inv_def)
    have "wp_rinv n s'"
    proof (rule wp_rinv_same [OF r])
      show "wp_tok n s' b \<le> wp_tok n s b" for b
        using wp_tok_w [OF t, of s' s "WHave a" b] pop_some q by (auto split: if_splits)
      show "wp_ext n s' b = wp_ext n s b" for b
        using wp_ext_w [OF t, of s' s "WHave a" b] pop_some by simp
    qed (use pop_some in simp_all)
    with pop_some show ?thesis by (intro ok) auto
  next
    case (disp_none a ret h)
    have "h = wp_heap s" by (rule wp_inv_dispatch(1) [OF i t disp_none(2,3)]) simp
    with r have "wp_rinv n (s\<lparr>wp_heap := h\<rparr>)" by simp
    with disp_none show ?thesis using t by (intro ok) (auto intro!: wp_rinv_w_to)
  next
    case (disp_drop a ret msg h)
    obtain c where c: "wp_heap s a = Some c" using alive [of a] disp_drop by auto
    obtain c' where c': "h = (wp_heap s)(a \<mapsto> c')" "ctx_ref c' = ctx_ref c" "ctx_inGlobal c' = ctx_inGlobal c"
      using dispatch_cases [OF disp_drop(3) c wp_inv_at(2) [OF i c]] by auto
    have "wp_rinv n (s\<lparr>wp_handled := wp_handled s @ [(a, msg)]\<rparr>)" using r by (rule wp_rinv_same) simp_all
    then have "wp_rinv n (wp_put a (Some c') (s\<lparr>wp_handled := wp_handled s @ [(a, msg)]\<rparr>))"
      by (rule wp_rinv_put [where c = c]) (use c c' in simp_all)
    with disp_drop c' show ?thesis using t by (intro ok) (auto simp: wp_put_record intro!: wp_rinv_w_to)
  next
    case (disp_call a ret msg h)
    obtain c where c: "wp_heap s a = Some c" using alive [of a] disp_call by auto
    obtain c' where c': "h = (wp_heap s)(a \<mapsto> c')" "ctx_ref c' = ctx_ref c" "ctx_inGlobal c' = ctx_inGlobal c"
      using dispatch_cases [OF disp_call(3) c wp_inv_at(2) [OF i c]] by auto
    have "wp_rinv n (s\<lparr>wp_handled := wp_handled s @ [(a, msg)]\<rparr>)" using r by (rule wp_rinv_same) simp_all
    then have "wp_rinv n (wp_put a (Some c') (s\<lparr>wp_handled := wp_handled s @ [(a, msg)]\<rparr>))"
      by (rule wp_rinv_put [where c = c]) (use c c' in simp_all)
    with disp_call c' show ?thesis using t by (intro ok) (auto simp: wp_put_record intro!: wp_rinv_w_to)
  next
    case (disp_exit a ret msg h)
    obtain c where c: "wp_heap s a = Some c" using alive [of a] disp_exit by auto
    obtain c' where c': "h = (wp_heap s)(a \<mapsto> c')" "ctx_ref c \<noteq> 1" "ctx_ref c' = ctx_ref c - 1"
      "ctx_inGlobal c' = ctx_inGlobal c"
      using dispatch_cases [OF disp_exit(3) c wp_inv_at(2) [OF i c]] by auto
    have "a \<notin> wp_exited s" using assms(5) disp_exit by simp
    from wp_rinv_exit [OF i r t disp_exit(2) c c'(2) this c'(3,4)]
    have "wp_rinv n (s\<lparr>wp_heap := h, wp_handled := wp_handled s @ [(a, msg)],
        wp_twice := wp_twice s \<or> a \<in> wp_exited s, wp_exited := insert a (wp_exited s)\<rparr>)"
      by (rule wp_rinv_same) (simp_all add: c'(1))
    with disp_exit show ?thesis using t by (intro ok) (auto intro!: wp_rinv_w_to)
  next
    case (disp_abort a c)
    have "0 < wp_tok n s a" using wp_tok_thread [OF t, of s a] disp_abort by simp
    then have "ctx_inGlobal c = 1" using wp_inv_at(3,4) [OF i disp_abort(3)] by auto
    then have "a \<in> wp_exited s"
      using wp_rinv_at(1) [OF r disp_abort(3)] dispatch_abort [OF disp_abort(4,3)] by (auto split: if_splits)
    then show ?thesis using assms(5) disp_abort by simp
  next
    case (requeue a ok' q)
    have q: "cxq_list q = cxq_list (wp_queue s) @ (if ok' then [a] else [])"
      using cxq_enq_cases [OF _ requeue(3)] i by (simp add: wp_inv_def)
    have "wp_rinv n s'"
    proof (rule wp_rinv_same [OF r])
      show "wp_tok n s' b \<le> wp_tok n s b" for b
        using wp_tok_w [OF t, of s' s "WNum False" b] requeue q by (cases ok') (auto split: if_splits)
      show "wp_ext n s' b = wp_ext n s b" for b
        using wp_ext_w [OF t, of s' s "WNum False" b] requeue by simp
    qed (use requeue in simp_all)
    with requeue show ?thesis by (intro ok) auto
  next
    case (cas a c)
    with wp_rinv_swap [OF r t, of a c] show ?thesis by (intro ok) auto
  next
    case (cas_fail a c)
    have "0 < wp_tok n s a" using wp_tok_thread [OF t, of s a] cas_fail by simp
    then show ?thesis using wp_inv_at(3,4) [OF i cas_fail(3)] cas_fail by auto
  next
    case (wrelease a c alive h)
    let ?p = "if alive then WNum True else WRemove (ctx_id c)"
    have "wp_rinv n s'"
      by (rule wp_rinv_give [OF i r wrelease(3,4)])
        (use wrelease wp_tok_w [OF t, of s' s ?p] wp_ext_w [OF t, of s' s ?p] in \<open>auto split: if_splits\<close>)
    with wrelease show ?thesis by (intro ok) auto
  next
    case (wremove j)
    have "wp_rinv n (s\<lparr>wp_mgr := snd (ctxMgrRemoveContext (wp_mgr s) j)\<rparr>)" using r by (rule wp_rinv_same) simp_all
    with wremove show ?thesis using t by (intro ok) (auto intro!: wp_rinv_w_to)
  next
    case (num_stop sl)
    have "wp_rinv n (workerPoolStop s)"
      using r by (rule wp_rinv_same) (simp_all add: workerPoolStop_same, simp_all add: workerPoolStop_def)
    with num_stop show ?thesis using t by (intro ok) (auto simp: workerPoolStop_def intro!: wp_rinv_w_to)
  next
    case (send_call x x')
    then show ?thesis using s_to by simp
  next
    case (send_none x)
    then show ?thesis using s_to by simp
  next
    case (send_some x a)
    then show ?thesis using s_to by simp
  next
    case (build a x)
    then show ?thesis using s_to by simp
  next
    case (cas_lost a c)
    then show ?thesis using s_to by simp
  next
    case (global_race a)
    then show ?thesis using s_to by simp
  next
    case (pop_none q)
    then show ?thesis using w_to by simp
  next
    case (returned a msg)
    then show ?thesis using w_to by simp
  next
    case (more a)
    then show ?thesis using w_to by simp
  next
    case (requeue_race a)
    then show ?thesis using w_to by simp
  next
    case (num_go sl)
    then show ?thesis using w_to by simp
  next
    case sleep
    then show ?thesis using w_to by simp
  next
    case spurious
    then show ?thesis using w_to by simp
  next
    case (send_gone x)
    then show ?thesis using crash by simp
  next
    case (retain_freed a x)
    then show ?thesis using crash by simp
  next
    case (build_gone a x)
    then show ?thesis using crash by simp
  next
    case (push_full a msg c q)
    then show ?thesis using crash by simp
  next
    case (push_freed a msg)
    then show ?thesis using alive [of a] by simp
  next
    case (cas_freed a)
    then show ?thesis using alive [of a] by simp
  next
    case (release_freed a)
    then show ?thesis using alive [of a] by simp
  next
    case (disp_freed a)
    then show ?thesis using alive [of a] by simp
  next
    case (wcas_freed a)
    then show ?thesis using alive [of a] by simp
  next
    case (wrelease_freed a)
    then show ?thesis using alive [of a] by simp
  qed
qed

lemma wp_create_rinv:
  assumes r: "wp_rinv n s" and i: "wp_inv n s" and a: "a \<notin> wp_used s"
    and c: "ctx_inGlobal c = 0" "ctx_ref c = 1" and h: "h' = (wp_heap s)(a \<mapsto> c\<lparr>ctx_id := x\<rparr>)"
  shows "wp_rinv n (s\<lparr>wp_mgr := m', wp_heap := h', wp_used := insert a (wp_used s)\<rparr>)"
proof (rule wp_rinv_upd [OF r, of _ a])
  have "wp_at n s a" using i by (simp add: wp_inv_def)
  then have "wp_heap s a = None" using a by (simp add: wp_at_def)
  moreover have "a \<notin> wp_exited s" using r a by (auto simp: wp_rinv_def)
  ultimately show "wp_rat n (s\<lparr>wp_mgr := m', wp_heap := h', wp_used := insert a (wp_used s)\<rparr>) a"
    using wp_rinv_at(2) [OF r, of a] by (simp add: wp_rat_def h c)
qed (use r h in \<open>auto simp: wp_rinv_def\<close>)

lemma wp_step_twice: "wp_step n race s s' \<Longrightarrow> wp_twice s \<Longrightarrow> wp_twice s'"
proof (induction rule: wp_step.induct)
  case (act s t s')
  from act(3) show ?case
    using act(4) by (cases rule: wp_act.cases) (auto simp: wp_signal_same workerPoolStop_def)
qed simp_all

lemma wp_step_rinv:
  assumes "wp_step n race s s'" "wp_inv n s" "wp_rinv n s" "\<not> wp_twice s'" "n < 2 ^ 30"
  shows "wp_rinv n s' \<and> wp_excusable s'"
  using assms(1)
proof (cases rule: wp_step.cases)
  case (act t)
  from wp_act_rinv [OF act(3,2) assms(2-5) act(1)] show ?thesis .
next
  case (create a c i m' h')
  obtain x where "h' = (wp_heap s)(a \<mapsto> c\<lparr>ctx_id := x\<rparr>)"
    using ctxMgrAddContext_heap [OF create(7), of c] by auto
  from wp_create_rinv [OF assms(3,2) create(3,5,4) this, of m'] create show ?thesis
    by (simp add: wp_excusable_def)
next
  case (set_callback a cb ud h)
  then obtain c where c: "wp_heap s a = Some c" and h: "h = (wp_heap s)(a \<mapsto> c\<lparr>ctx_cb := cb, ctx_ud := ud\<rparr>)"
    by (auto simp: contextSetCallback_def split: option.splits)
  from wp_rinv_put [OF assms(3) c, of "c\<lparr>ctx_cb := cb, ctx_ud := ud\<rparr>"] h set_callback show ?thesis
    by (simp add: wp_put_record wp_excusable_def)
qed

lemma wp_reach_rinv:
  "wp_reach n race k z s \<Longrightarrow> n < 2 ^ 30 \<Longrightarrow> \<not> wp_twice s \<Longrightarrow> wp_rinv n s \<and> wp_excusable s"
proof (induction rule: wp_reach.induct)
  case init
  have "wp_heap (wp_init k z) a = None" for a by (simp add: wp_init_def)
  then have "wp_rat n (wp_init k z) a" for a by (simp add: wp_rat_def)
  moreover have "wp_exited (wp_init k z) = {}" "wp_fault (wp_init k z) = None" by (simp_all add: wp_init_def)
  ultimately show ?case by (simp add: wp_rinv_def wp_excusable_def)
next
  case (step s s')
  then have "\<not> wp_twice s" using wp_step_twice by blast
  with step wp_step_rinv [OF step(2) wp_reach_inv [OF step(1)]] show ?case by blast
qed

subsection \<open>Sleeping workers\<close>

text \<open>
  A worker outside any callback that comes to contextQueuePop without entering one: it is at the pop, gives a context up,
  or is on its way to sleep and will look at the queue once more under the mutex. A worker that
  still has to push its context back (\<open>WPush\<close>) is not one of them, the push makes it one.
\<close>

fun heading :: "work_pc \<Rightarrow> bool" where
  "heading WTop = True"
| "heading (WCas a) = True"
| "heading (WRel a) = True"
| "heading (WRemove i) = True"
| "heading (WNum b) = True"
| "heading WSleepTest = True"
| "heading _ = False"

definition wp_coming :: "nat \<Rightarrow> wpool \<Rightarrow> nat" where
  "wp_coming n s = (\<Sum>t<n. of_bool (wp_s s t = SWake)) + (\<Sum>t<n. of_bool (heading (wp_w s t)))"

definition wp_sleep_inv :: "nat \<Rightarrow> wpool \<Rightarrow> bool" where
  "wp_sleep_inv n s \<longleftrightarrow> (\<forall>u. wp_w s u = WSleeping \<longrightarrow> u < n) \<and>
     ((\<exists>u. wp_w s u = WSleeping) \<longrightarrow> length (cxq_list (wp_queue s)) \<le> wp_coming n s)"

lemma wp_coming_s:
  assumes "t < n" "wp_s s' = (wp_s s)(t := p)" "wp_w s' = wp_w s"
  shows "wp_coming n s' + of_bool (wp_s s t = SWake) = wp_coming n s + of_bool (p = SWake)"
  using sum_upd [OF assms(1), of "\<lambda>x. of_bool (x = SWake)" "wp_s s" p] assms(2,3) by (simp add: wp_coming_def)

lemma wp_coming_w:
  assumes "t < n" "wp_w s' = (wp_w s)(t := p)" "wp_s s' = wp_s s"
  shows "wp_coming n s' + of_bool (heading (wp_w s t)) = wp_coming n s + of_bool (heading p)"
  using sum_upd [OF assms(1), of "\<lambda>x. of_bool (heading x)" "wp_w s" p] assms(2,3) by (simp add: wp_coming_def)

lemma wp_coming_card:
  "wp_coming n s = card {t. t < n \<and> wp_s s t = SWake} + card {t. t < n \<and> heading (wp_w s t)}"
proof -
  have "(\<Sum>t<n. of_bool (P t)) = card {t. t < n \<and> P t}" for P :: "nat \<Rightarrow> bool"
    by (simp add: of_bool_def sum.If_cases Collect_conj_eq lessThan_def)
  then show ?thesis by (simp add: wp_coming_def)
qed

lemma workerPoolHaveWork_iff:
  assumes "cxq_wf (wp_queue s)"
  shows "workerPoolHaveWork s \<longleftrightarrow> cxq_list (wp_queue s) \<noteq> []"
proof -
  have "length (cxq_list (wp_queue s)) = unat (cxq_count (wp_queue s))"
    by (simp add: cxq_list_def lfq_contents_def lfq_list_def cxq_ring_def)
  then show ?thesis
    by (metis contextQueueSize_def length_0_conv unat_eq_zero word_gt_0 workerPoolHaveWork_def)
qed

lemma wp_sleep_sender:
  assumes "wp_sleep_inv n s" "t < n" "wp_s s t \<noteq> SWake" "wp_w s' = wp_w s" "wp_s s' = (wp_s s)(t := p)"
    "length (cxq_list (wp_queue s')) \<le> length (cxq_list (wp_queue s)) + of_bool (p = SWake)"
  shows "wp_sleep_inv n s'"
  using wp_coming_s [OF assms(2,5,4)] assms(1,3,4,6) by (auto simp: wp_sleep_inv_def)

lemma wp_sleep_worker:
  assumes "wp_sleep_inv n s" "t < n" "p \<noteq> WSleeping" "wp_w s' = (wp_w s)(t := p)" "wp_s s' = wp_s s"
    "wp_w s t = WSleeping \<Longrightarrow> heading p"
    "length (cxq_list (wp_queue s')) + of_bool (heading (wp_w s t)) \<le> length (cxq_list (wp_queue s)) + of_bool (heading p)"
  shows "wp_sleep_inv n s'"
proof -
  have "u < n" if "wp_w s' u = WSleeping" for u
    using that assms(1-4) by (auto simp: wp_sleep_inv_def split: if_splits)
  moreover have "length (cxq_list (wp_queue s')) \<le> wp_coming n s'" if "wp_w s' u = WSleeping" for u
  proof -
    have "wp_w s u = WSleeping" using that assms(3,4) by (auto split: if_splits)
    then have "length (cxq_list (wp_queue s)) \<le> wp_coming n s" using assms(1) by (auto simp: wp_sleep_inv_def)
    then show ?thesis using wp_coming_w [OF assms(2,4,5)] assms(7) by linarith
  qed
  ultimately show ?thesis by (auto simp: wp_sleep_inv_def)
qed

lemma wp_act_sleep:
  assumes "wp_act race t s s'" "t < n" "wp_inv n s" "wp_sleep_inv n s"
  shows "wp_sleep_inv n s'"
proof -
  note i = assms(4)
  have wf: "cxq_wf (wp_queue s)" using assms(3) by (simp add: wp_inv_def)
  have sender: "wp_sleep_inv n s'" if "wp_s s t \<noteq> SWake" "wp_w s' = wp_w s" "wp_queue s' = wp_queue s"
    "wp_s s' = (wp_s s)(t := p)" for p
    using that by (intro wp_sleep_sender [OF i assms(2), of s' p]) simp_all
  have worker: "wp_sleep_inv n s'"
    if "p \<noteq> WSleeping" "wp_w s t = WSleeping \<longrightarrow> heading p" "heading (wp_w s t) \<longrightarrow> heading p" "wp_w s' = (wp_w s)(t := p)"
      "wp_s s' = wp_s s" "wp_queue s' = wp_queue s" for p
    using that by (intro wp_sleep_worker [OF i assms(2), of p s']) auto
  have crash: "wp_sleep_inv n s'" if "wp_w s' = wp_w s" "wp_queue s' = wp_queue s" "wp_s s' = wp_s s"
    using i by (simp add: wp_sleep_inv_def wp_coming_def that)
  show ?thesis
    using assms(1)
  proof (cases rule: wp_act.cases)
    case (global a ok q)
    then show ?thesis using cxq_enq_cases [OF wf global(3)]
      by (intro wp_sleep_sender [OF i assms(2), of s' SWake]) auto
  next
    case (global_race a)
    then show ?thesis by (intro wp_sleep_sender [OF i assms(2), of s' SWake]) auto
  next
    case wakeup
    let ?s = "wp_s_to t SIdle s"
    have one: "wp_coming n ?s + 1 = wp_coming n s"
      using wp_coming_s [OF assms(2), of ?s s SIdle] wakeup(1) by simp
    from wakeup(2) show ?thesis
    proof (cases rule: wp_signal.cases)
      case (wake u)
      then have u: "wp_w s u = WSleeping" "u < n" using i by (auto simp: wp_sleep_inv_def)
      have "wp_coming n s' = wp_coming n ?s + 1"
        using wp_coming_w [OF u(2), of s' ?s WSleepTest] wake u by simp
      then show ?thesis using one wake u i by (auto simp: wp_sleep_inv_def)
    next
      case none
      then show ?thesis by (simp add: wp_sleep_inv_def)
    qed
  next
    case (num_stop sl)
    then show ?thesis by (auto simp: wp_sleep_inv_def workerPoolStop_def)
  next
    case sleep
    show ?thesis
    proof (cases "\<not> workerPoolHaveWork s \<and> wp_running s")
      case True
      then have "cxq_list (wp_queue s) = []" using workerPoolHaveWork_iff [OF wf] by blast
      then show ?thesis using sleep True assms(2) i by (auto simp: wp_sleep_inv_def)
    next
      case False
      then have "s' = wp_w_to t WTop s" using sleep by auto
      then show ?thesis by (intro worker [of WTop]) simp_all
    qed
  next
    case (pop_some a q)
    then show ?thesis using cxq_pop_cases [OF wf pop_some(3)]
      by (intro wp_sleep_worker [OF i assms(2), of "WHave a" s']) auto
  next
    case (requeue a ok q)
    then show ?thesis using cxq_enq_cases [OF wf requeue(3)]
      by (intro wp_sleep_worker [OF i assms(2), of "WNum False" s']) auto
  next
    case (send_call x x')
    then show ?thesis by (intro sender) auto
  next
    case (send_none x)
    then show ?thesis by (intro sender) auto
  next
    case (send_some x a)
    then show ?thesis by (intro sender) auto
  next
    case (retain a x c)
    then show ?thesis by (intro sender) auto
  next
    case (build a x)
    then show ?thesis by (intro sender) auto
  next
    case (build_new a x b c i c')
    then show ?thesis by (intro sender) auto
  next
    case (push a msg c q)
    then show ?thesis by (intro sender) auto
  next
    case (cas_won a c)
    then show ?thesis by (intro sender) auto
  next
    case (cas_lost a c)
    then show ?thesis by (intro sender) auto
  next
    case (release a c alive h)
    then show ?thesis by (intro sender) auto
  next
    case (remove j)
    then show ?thesis by (intro sender) auto
  next
    case (pop_none q)
    then show ?thesis by (intro worker) (auto split: if_splits)
  next
    case (disp_none a r h)
    then show ?thesis by (intro worker) (auto split: if_splits)
  next
    case (disp_drop a r msg h)
    then show ?thesis by (intro worker) (auto split: if_splits)
  next
    case (disp_exit a r msg h)
    then show ?thesis by (intro worker) (auto split: if_splits)
  next
    case (disp_call a r msg h)
    then show ?thesis by (intro worker) (auto split: if_splits)
  next
    case (returned a msg)
    then show ?thesis by (intro worker) (auto split: if_splits)
  next
    case (more a)
    then show ?thesis by (intro worker) (auto split: if_splits)
  next
    case (requeue_race a)
    then show ?thesis by (intro worker) (auto split: if_splits)
  next
    case (cas a c)
    then show ?thesis by (intro worker) (auto split: if_splits)
  next
    case (wrelease a c alive h)
    then show ?thesis by (intro worker) (auto split: if_splits)
  next
    case (wremove j)
    then show ?thesis by (intro worker) (auto split: if_splits)
  next
    case (num_go sl)
    then show ?thesis by (intro worker) (auto split: if_splits)
  next
    case spurious
    then show ?thesis by (intro worker) (auto split: if_splits)
  qed (use crash in simp_all)
qed

lemma wp_reach_sleep: "wp_reach n race k z s \<Longrightarrow> wp_sleep_inv n s"
proof (induction rule: wp_reach.induct)
  case init
  have "wp_w (wp_init k z) u \<noteq> WSleeping" for u by (simp add: wp_init_def)
  then show ?case by (simp add: wp_sleep_inv_def)
next
  case (step s s')
  from step(2) show ?case
  proof (cases rule: wp_step.cases)
    case (act t)
    with wp_act_sleep [OF act(3,2) wp_reach_inv [OF step(1)] step(3)] show ?thesis by simp
  qed (use step(3) in \<open>simp_all add: wp_sleep_inv_def wp_coming_def\<close>)
qed

subsection \<open>Pieces of runs\<close>

lemma wp_to_twice [simp]:
  "wp_s_to t p (wp_s_to t p' s) = wp_s_to t p s" "wp_w_to t q (wp_w_to t q' s) = wp_w_to t q s"
  "wp_put a c (wp_put a c' s) = wp_put a c s"
  by (simp_all add: wp_s_to_def wp_w_to_def wp_put_def)

lemma wp_put_s_to: "wp_put a c (wp_s_to t p s) = wp_s_to t p (wp_put a c s)"
  "wp_put a c (wp_w_to t q s) = wp_w_to t q (wp_put a c s)"
  "wp_w_to u q (wp_s_to t p s) = wp_s_to t p (wp_w_to u q s)"
  by (simp_all add: wp_s_to_def wp_w_to_def wp_put_def)

lemma wp_upd_order: "(s\<lparr>wp_heap := h\<rparr>)\<lparr>wp_queue := q\<rparr> = (s\<lparr>wp_queue := q\<rparr>)\<lparr>wp_heap := h\<rparr>"
  by simp

lemma wp_reach_act:
  "wp_reach n race k z s \<Longrightarrow> wp_fault s = None \<Longrightarrow> t < n \<Longrightarrow> wp_act race t s s' \<Longrightarrow> wp_reach n race k z s'"
  by (rule wp_reach.step [OF _ wp_step.act])

subsection \<open>A concrete pool\<close>

text \<open>One worker (thread 0), two senders (threads 2 and 3), one context (address 5, id 1).\<close>

definition mq_ex :: "u32 \<Rightarrow> u32 \<Rightarrow> message list \<Rightarrow> messageQueue" where
  "mq_ex w r l = \<lparr>mq_count = w - r, mq_writeIndex = w, mq_readIndex = r, mq_maximumReadIndex = w,
     mq_messages = l @ replicate 1022 message0, mq_size = 1024\<rparr>"

definition cxq_ex :: "u32 \<Rightarrow> u32 \<Rightarrow> nat ptr list \<Rightarrow> nat contextQueue" where
  "cxq_ex w r l = \<lparr>cxq_count = w - r, cxq_writeIndex = w, cxq_readIndex = r, cxq_maximumReadIndex = w,
     cxq_contexts = l @ replicate 1022 None, cxq_size = 1024\<rparr>"

definition ctx_ex :: "u32 \<Rightarrow> int \<Rightarrow> messageQueue \<Rightarrow> u32 \<Rightarrow> zcontext" where
  "ctx_ex ref g q ses = \<lparr>ctx_id = 1, ctx_result = [], ctx_name = [], ctx_ref = ref, ctx_sessionid = ses, ctx_instance = None,
     ctx_mod = None, ctx_cb = Some 0, ctx_ud = None, ctx_queue = q, ctx_exit = 0, ctx_state = 0, ctx_workerId = 0,
     ctx_inGlobal = g\<rparr>"

definition wp_ex :: "send_pc \<Rightarrow> send_pc \<Rightarrow> work_pc \<Rightarrow> heap \<Rightarrow> nat contextQueue \<Rightarrow> nat set \<Rightarrow>
    (nat \<times> message) list \<Rightarrow> (nat \<times> message) list \<Rightarrow> wpool" where
  "wp_ex p p2 w h q ex snt hnd =
     \<lparr>wp_heap = h, wp_mgr = \<lparr>cm_allocId = 1, cm_contextNum = 1, cm_contexts = [None, Some 5, None, None], cm_setsize = 4\<rparr>,
      wp_queue = q, wp_running = True, wp_s = (\<lambda>_. SIdle)(2 := p, 3 := p2), wp_w = (\<lambda>_. WNone)(0 := w),
      wp_fault = None, wp_used = {5}, wp_exited = ex, wp_twice = False, wp_sent = snt, wp_handled = hnd\<rparr>"

definition send_ex :: "nat ptr \<Rightarrow> u32 \<Rightarrow> u32 \<Rightarrow> send_args" where
  "send_ex c ty ses = \<lparr>sa_ctx = c, sa_from = 9, sa_to = 1, sa_session = ses, sa_type = ty, sa_data = None, sa_sz = 0, sa_ud = 0\<rparr>"

lemma replicate_1024: "replicate 1024 x = [x, x] @ replicate 1022 x"
proof -
  have "(1024::nat) = Suc (Suc 1022)" by simp
  then show ?thesis by (simp only: replicate_Suc) simp
qed

lemma nextpow2_1024: "nextpow2 1024 = 1024"
  by (simp add: nextpow2_def smear_def)

lemma mq_ex_simps [simp]:
  "messageQueueCreate 1024 = mq_ex 0 0 [message0, message0]"
  "mq_enq m (mq_ex 0 0 [x, y]) = (True, mq_ex 1 0 [m, y])"
  "mq_enq m (mq_ex 1 0 [x, y]) = (True, mq_ex 2 0 [x, m])"
  "mq_enq m (mq_ex 1 1 [x, y]) = (True, mq_ex 2 1 [x, m])"
  "messageQueuePop (mq_ex 1 0 [x, y]) = (Some x, mq_ex 1 1 [x, y])"
  "messageQueuePop (mq_ex 2 0 [x, y]) = (Some x, mq_ex 2 1 [x, y])"
  "messageQueuePop (mq_ex 1 1 [x, y]) = (None, mq_ex 1 1 [x, y])"
  by (simp_all add: messageQueueCreate_def nextpow2_1024 replicate_1024 mq_ex_def mq_enq_def messageQueuePush_def
      messageQueuePop_def mq_countToIndex_def Let_def)

lemma cxq_ex_simps [simp]:
  "contextQueueCreate 1024 = cxq_ex 0 0 [None, None]"
  "cxq_enq a (cxq_ex 0 0 [x, y]) = (True, cxq_ex 1 0 [Some a, y])"
  "contextQueuePop (cxq_ex 1 0 [x, y]) = (x, cxq_ex 1 1 [x, y])"
  "contextQueuePop (cxq_ex 1 1 [x, y]) = (None, cxq_ex 1 1 [x, y])"
  "contextQueueSize (cxq_ex w r [x, y]) = w - r"
  by (simp_all add: contextQueueCreate_def nextpow2_1024 replicate_1024 cxq_ex_def cxq_enq_def contextQueuePush_def
      contextQueuePop_def contextQueueSize_def cxq_countToIndex_def Let_def)

lemma ctx_ex_simps [simp]:
  "ctx_id (ctx_ex r g q z) = 1" "ctx_ref (ctx_ex r g q z) = r" "ctx_inGlobal (ctx_ex r g q z) = g"
  "ctx_queue (ctx_ex r g q z) = q" "ctx_cb (ctx_ex r g q z) = Some 0" "ctx_sessionid (ctx_ex r g q z) = z"
  "(ctx_ex r g q z)\<lparr>ctx_ref := r'\<rparr> = ctx_ex r' g q z" "(ctx_ex r g q z)\<lparr>ctx_inGlobal := g'\<rparr> = ctx_ex r g' q z"
  "(ctx_ex r g q z)\<lparr>ctx_queue := q'\<rparr> = ctx_ex r g q' z" "(ctx_ex r g q z)\<lparr>ctx_id := 1\<rparr> = ctx_ex r g q z"
  "contextNewsession (ctx_ex r g q 1) = (1, ctx_ex r g q 2)"
  by (simp_all add: ctx_ex_def contextNewsession_def)

lemma send_ex_simps [simp]:
  "sa_ctx (send_ex c ty z) = c" "sa_to (send_ex c ty z) = 1" "sa_from (send_ex c ty z) = 9"
  "sa_type (send_ex c ty z) = ty" "sa_session (send_ex c ty z) = z"
  by (simp_all add: send_ex_def)

lemma wp_ex_simps [simp]:
  "wp_heap (wp_ex p p2 w h q ex snt hnd) = h" "wp_queue (wp_ex p p2 w h q ex snt hnd) = q"
  "wp_fault (wp_ex p p2 w h q ex snt hnd) = None" "wp_sent (wp_ex p p2 w h q ex snt hnd) = snt"
  "wp_handled (wp_ex p p2 w h q ex snt hnd) = hnd" "wp_running (wp_ex p p2 w h q ex snt hnd) = True"
  "wp_s (wp_ex p p2 w h q ex snt hnd) 2 = p" "wp_s (wp_ex p p2 w h q ex snt hnd) 3 = p2"
  "wp_s (wp_ex p p2 w h q ex snt hnd) 0 = SIdle" "wp_w (wp_ex p p2 w h q ex snt hnd) 0 = w"
  "t \<noteq> 0 \<Longrightarrow> wp_w (wp_ex p p2 w h q ex snt hnd) t = WNone"
  "t \<noteq> 2 \<Longrightarrow> t \<noteq> 3 \<Longrightarrow> wp_s (wp_ex p p2 w h q ex snt hnd) t = SIdle"
  "wp_exited (wp_ex p p2 w h q ex snt hnd) = ex" "wp_twice (wp_ex p p2 w h q ex snt hnd) = False"
  "cm_contextNum (wp_mgr (wp_ex p p2 w h q ex snt hnd)) = 1"
  "ctxMgrLookup (wp_mgr (wp_ex p p2 w h q ex snt hnd)) 1 = Some 5"
  "wp_s_to 2 p' (wp_ex p p2 w h q ex snt hnd) = wp_ex p' p2 w h q ex snt hnd"
  "wp_s_to 3 p' (wp_ex p p2 w h q ex snt hnd) = wp_ex p p' w h q ex snt hnd"
  "wp_w_to 0 w' (wp_ex p p2 w h q ex snt hnd) = wp_ex p p2 w' h q ex snt hnd"
  "wp_put a c (wp_ex p p2 w h q ex snt hnd) = wp_ex p p2 w (h(a := c)) q ex snt hnd"
  "(wp_ex p p2 w h q ex snt hnd)\<lparr>wp_queue := q'\<rparr> = wp_ex p p2 w h q' ex snt hnd"
  "(wp_ex p p2 w h q ex snt hnd)\<lparr>wp_heap := h'\<rparr> = wp_ex p p2 w h' q ex snt hnd"
  "(wp_ex p p2 w h q ex snt hnd)\<lparr>wp_sent := snt'\<rparr> = wp_ex p p2 w h q ex snt' hnd"
  "(wp_ex p p2 w h q ex snt hnd)\<lparr>wp_handled := hnd'\<rparr> = wp_ex p p2 w h q ex snt hnd'"
  "(wp_ex p p2 w h q ex snt hnd)\<lparr>wp_exited := ex'\<rparr> = wp_ex p p2 w h q ex' snt hnd"
  "(wp_ex p p2 w h q ex snt hnd)\<lparr>wp_twice := False\<rparr> = wp_ex p p2 w h q ex snt hnd"
  by (auto simp: wp_ex_def wp_s_to_def wp_w_to_def wp_put_def ctxMgrLookup_def fun_upd_twist)

text \<open>The context is registered, and one message is delivered to its mailbox.\<close>

lemma wp_ex_create:
  "wp_reach 4 race 1 4 (wp_ex SIdle SIdle WTop [5 \<mapsto> ctx_ex 1 0 (mq_ex 0 0 [message0, message0]) 1] (cxq_ex 0 0 [None, None]) {} [] [])"
    (is "wp_reach 4 race 1 4 ?s")
proof -
  let ?c = "ctx_ex 1 0 (mq_ex 0 0 [message0, message0]) 1"
  let ?m = "\<lparr>cm_allocId = 1, cm_contextNum = 1, cm_contexts = [None, Some 5, None, None], cm_setsize = 4\<rparr>"
  have "ctxMgrSearch 4 (ctxMgrCreate 4) ?c 5 = (1, ?m, ?c)"
    using ctxMgrSearch.simps(2) [of 3 "ctxMgrCreate 4" ?c 5]
    by (simp add: ctxMgrCreate_def ctxMgrNextId_def replicate_4 Let_def)
  then have add: "ctxMgrAddContext (ctxMgrCreate 4) [5 \<mapsto> ?c] 5 = Some (1, ?m, [5 \<mapsto> ?c])"
    by (simp add: ctxMgrAddContext_def ctxMgrGrow_def ctxMgrCreate_def)
  have "wp_reach 4 race 1 4 ((wp_init 1 4)\<lparr>wp_mgr := ?m, wp_heap := [5 \<mapsto> ?c], wp_used := insert 5 (wp_used (wp_init 1 4))\<rparr>)"
    by (rule wp_reach.step [OF wp_reach.init], rule wp_step.create [where c = ?c and i = 1])
      (use add in \<open>simp_all add: wp_init_def\<close>)
  moreover have "(wp_init 1 4)\<lparr>wp_mgr := ?m, wp_heap := [5 \<mapsto> ?c], wp_used := insert 5 (wp_used (wp_init 1 4))\<rparr> = ?s"
    by (auto simp: wp_init_def wp_ex_def)
  ultimately show ?thesis by simp
qed

lemma wp_ex_act:
  assumes "wp_reach 4 race 1 4 (wp_ex p p2 w h q ex snt hnd)" "t < 4"
    "wp_act race t (wp_ex p p2 w h q ex snt hnd) s'"
  shows "wp_reach 4 race 1 4 s'"
  by (rule wp_reach_act [OF assms(1) _ assms(2,3)]) simp

lemma wp_ex_wakeup:
  assumes "wp_reach 4 race 1 4 (wp_ex SWake p2 w h q ex snt hnd)" "w \<noteq> WSleeping"
  shows "wp_reach 4 race 1 4 (wp_ex SIdle p2 w h q ex snt hnd)"
proof -
  have "wp_w (wp_ex SIdle p2 w h q ex snt hnd) u \<noteq> WSleeping" for u
    using assms(2) by (cases "u = 0") auto
  then have "wp_signal (wp_s_to 2 SIdle (wp_ex SWake p2 w h q ex snt hnd)) (wp_ex SIdle p2 w h q ex snt hnd)"
    using wp_signal.none by simp
  then show ?thesis by (intro wp_ex_act [OF assms(1) _ wp_act.wakeup [where t = 2]]) simp_all
qed

lemma wp_ex_scheduled:
  fixes race
  defines "x \<equiv> send_ex None 1 11"
  assumes start: "wp_reach 4 race 1 4 (wp_ex SIdle SIdle w [5 \<mapsto> ctx_ex 1 0 (mq_ex 0 0 [message0, message0]) 1] (cxq_ex 0 0 [None, None]) {} [] [])"
  shows "wp_reach 4 race 1 4 (wp_ex SWake SIdle w [5 \<mapsto> ctx_ex 2 1 (mq_ex 1 0 [send_msg x 11, message0]) 1]
    (cxq_ex 1 0 [Some 5, None]) {} [(5, send_msg x 11)] [])"
proof -
  note step = wp_ex_act [where race = race]
  have new: "\<not> send_new x" "sa_session x = 11" by (simp_all add: x_def send_new_def MSG_TYPE_NEWSESSION_def)
  note r1 = step [OF start _ wp_act.send_call [where t = 2 and x = x and x' = x], simplified]
  have "wp_reach 4 race 1 4 (wp_ex (SLook x) SIdle w [5 \<mapsto> ctx_ex 1 0 (mq_ex 0 0 [message0, message0]) 1] (cxq_ex 0 0 [None, None]) {} [] [])"
    using r1 by (simp add: x_def send_from_def)
  from step [OF this _ wp_act.send_some [where t = 2 and x = x and a = 5]]
  have "wp_reach 4 race 1 4 (wp_ex (SFound 5 x) SIdle w [5 \<mapsto> ctx_ex 1 0 (mq_ex 0 0 [message0, message0]) 1] (cxq_ex 0 0 [None, None]) {} [] [])"
    by (simp add: x_def)
  from step [OF this _ wp_act.retain [where t = 2 and a = 5 and x = x and c = "ctx_ex 1 0 (mq_ex 0 0 [message0, message0]) 1"]]
  have "wp_reach 4 race 1 4 (wp_ex (SRetained 5 x) SIdle w [5 \<mapsto> ctx_ex 2 0 (mq_ex 0 0 [message0, message0]) 1] (cxq_ex 0 0 [None, None]) {} [] [])"
    by simp
  from step [OF this _ wp_act.build [where t = 2 and a = 5 and x = x]]
  have "wp_reach 4 race 1 4 (wp_ex (SBuilt 5 (send_msg x 11)) SIdle w [5 \<mapsto> ctx_ex 2 0 (mq_ex 0 0 [message0, message0]) 1] (cxq_ex 0 0 [None, None]) {} [] [])"
    by (simp add: new)
  from step [OF this _ wp_act.push [where t = 2 and a = 5 and msg = "send_msg x 11" and
      c = "ctx_ex 2 0 (mq_ex 0 0 [message0, message0]) 1" and q = "mq_ex 1 0 [send_msg x 11, message0]"]]
  have "wp_reach 4 race 1 4 (wp_ex (SPushed 5) SIdle w [5 \<mapsto> ctx_ex 2 0 (mq_ex 1 0 [send_msg x 11, message0]) 1] (cxq_ex 0 0 [None, None]) {} [(5, send_msg x 11)] [])"
    by simp
  from step [OF this _ wp_act.cas_won [where t = 2 and a = 5 and c = "ctx_ex 2 0 (mq_ex 1 0 [send_msg x 11, message0]) 1"]]
  have "wp_reach 4 race 1 4 (wp_ex (SWon 5) SIdle w [5 \<mapsto> ctx_ex 2 1 (mq_ex 1 0 [send_msg x 11, message0]) 1] (cxq_ex 0 0 [None, None]) {} [(5, send_msg x 11)] [])"
    by simp
  from step [OF this _ wp_act.global [where t = 2 and a = 5 and ok = True and q = "cxq_ex 1 0 [Some 5, None]"]]
  show ?thesis by simp
qed

lemma wp_ex_delivered:
  "wp_reach 4 race 1 4 (wp_ex SIdle SIdle WTop [5 \<mapsto> ctx_ex 2 1 (mq_ex 1 0 [send_msg (send_ex None 1 11) 11, message0]) 1]
    (cxq_ex 1 0 [Some 5, None]) {} [(5, send_msg (send_ex None 1 11) 11)] [])"
  using wp_ex_wakeup [OF wp_ex_scheduled [OF wp_ex_create]] by simp

text \<open>
  The worker handles the message and finds the mailbox empty; a second message arrives before
  its swap of inGlobal.
\<close>

lemma wp_ex_stranded:
  defines "x \<equiv> send_ex None 1 11" and "y \<equiv> send_ex None 1 12"
  shows "wp_reach 4 race 1 4 (wp_ex SIdle SIdle WSleeping
    [5 \<mapsto> ctx_ex 1 0 (mq_ex 2 1 [send_msg x 11, send_msg y 12]) 1] (cxq_ex 1 1 [Some 5, None]) {}
    [(5, send_msg x 11), (5, send_msg y 12)] [(5, send_msg x 11)])"
proof -
  note step = wp_ex_act [where race = race]
  let ?x = "send_msg x 11" and ?y = "send_msg y 12"
  let ?q0 = "cxq_ex 1 0 [Some 5, None]" and ?q = "cxq_ex 1 1 [Some 5, None]"
  let ?m1 = "mq_ex 1 0 [?x, message0]" and ?m2 = "mq_ex 1 1 [?x, message0]" and ?m3 = "mq_ex 2 1 [?x, ?y]"
  have new: "\<not> send_new y" "sa_session y = 12" "sa_from y \<noteq> 0" "sa_to y = 1" "msg_type ?x \<noteq> MSG_TYPE_EXIT_CONTEXT"
    by (simp_all add: x_def y_def send_new_def send_msg_def MSG_TYPE_NEWSESSION_def MSG_TYPE_EXIT_CONTEXT_def)
  from step [OF wp_ex_delivered _ wp_act.pop_some [where t = 0 and a = 5 and q = ?q]]
  have "wp_reach 4 race 1 4 (wp_ex SIdle SIdle (WHave 5) [5 \<mapsto> ctx_ex 2 1 ?m1 1] ?q {} [(5, ?x)] [])"
    by (simp add: x_def)
  from step [OF this _ wp_act.disp_call [where t = 0 and a = 5 and r = 0 and msg = ?x and h = "[5 \<mapsto> ctx_ex 2 1 ?m2 1]"]] new
  have "wp_reach 4 race 1 4 (wp_ex SIdle SIdle (WRun 5 ?x) [5 \<mapsto> ctx_ex 2 1 ?m2 1] ?q {} [(5, ?x)] [(5, ?x)])"
    by (simp add: contextDispatchMessage_def)
  from step [OF this _ wp_act.returned [where t = 0 and a = 5 and msg = ?x]]
  have "wp_reach 4 race 1 4 (wp_ex SIdle SIdle (WMore 5) [5 \<mapsto> ctx_ex 2 1 ?m2 1] ?q {} [(5, ?x)] [(5, ?x)])"
    by simp
  from step [OF this _ wp_act.more [where t = 0 and a = 5]]
  have "wp_reach 4 race 1 4 (wp_ex SIdle SIdle (WHave 5) [5 \<mapsto> ctx_ex 2 1 ?m2 1] ?q {} [(5, ?x)] [(5, ?x)])"
    by (simp add: workerPoolHaveWork_def)
  from step [OF this _ wp_act.disp_none [where t = 0 and a = 5 and r = "-1" and h = "[5 \<mapsto> ctx_ex 2 1 ?m2 1]"]]
  have "wp_reach 4 race 1 4 (wp_ex SIdle SIdle (WCas 5) [5 \<mapsto> ctx_ex 2 1 ?m2 1] ?q {} [(5, ?x)] [(5, ?x)])"
    by (simp add: contextDispatchMessage_def)
  from step [OF this _ wp_act.send_call [where t = 2 and x = y and x' = y]] new
  have "wp_reach 4 race 1 4 (wp_ex (SLook y) SIdle (WCas 5) [5 \<mapsto> ctx_ex 2 1 ?m2 1] ?q {} [(5, ?x)] [(5, ?x)])"
    by (auto simp: send_from_def)
  from step [OF this _ wp_act.send_some [where t = 2 and x = y and a = 5]] new
  have "wp_reach 4 race 1 4 (wp_ex (SFound 5 y) SIdle (WCas 5) [5 \<mapsto> ctx_ex 2 1 ?m2 1] ?q {} [(5, ?x)] [(5, ?x)])"
    by simp
  from step [OF this _ wp_act.retain [where t = 2 and a = 5 and x = y and c = "ctx_ex 2 1 ?m2 1"]]
  have "wp_reach 4 race 1 4 (wp_ex (SRetained 5 y) SIdle (WCas 5) [5 \<mapsto> ctx_ex 3 1 ?m2 1] ?q {} [(5, ?x)] [(5, ?x)])"
    by simp
  from step [OF this _ wp_act.build [where t = 2 and a = 5 and x = y]] new
  have "wp_reach 4 race 1 4 (wp_ex (SBuilt 5 ?y) SIdle (WCas 5) [5 \<mapsto> ctx_ex 3 1 ?m2 1] ?q {} [(5, ?x)] [(5, ?x)])"
    by simp
  from step [OF this _ wp_act.push [where t = 2 and a = 5 and msg = ?y and c = "ctx_ex 3 1 ?m2 1" and q = ?m3]]
  have "wp_reach 4 race 1 4 (wp_ex (SPushed 5) SIdle (WCas 5) [5 \<mapsto> ctx_ex 3 1 ?m3 1] ?q {} [(5, ?x), (5, ?y)] [(5, ?x)])"
    by simp
  from step [OF this _ wp_act.cas_lost [where t = 2 and a = 5 and c = "ctx_ex 3 1 ?m3 1"]]
  have "wp_reach 4 race 1 4 (wp_ex (SLost 5) SIdle (WCas 5) [5 \<mapsto> ctx_ex 3 1 ?m3 1] ?q {} [(5, ?x), (5, ?y)] [(5, ?x)])"
    by simp
  from step [OF this _ wp_act.release [where t = 2 and a = 5 and alive = True and c = "ctx_ex 3 1 ?m3 1" and h = "[5 \<mapsto> ctx_ex 2 1 ?m3 1]"]]
  have "wp_reach 4 race 1 4 (wp_ex SIdle SIdle (WCas 5) [5 \<mapsto> ctx_ex 2 1 ?m3 1] ?q {} [(5, ?x), (5, ?y)] [(5, ?x)])"
    by (simp add: contextRelease_def)
  from step [OF this _ wp_act.cas [where t = 0 and a = 5 and c = "ctx_ex 2 1 ?m3 1"]]
  have "wp_reach 4 race 1 4 (wp_ex SIdle SIdle (WRel 5) [5 \<mapsto> ctx_ex 2 0 ?m3 1] ?q {} [(5, ?x), (5, ?y)] [(5, ?x)])"
    by simp
  from step [OF this _ wp_act.wrelease [where t = 0 and a = 5 and alive = True and c = "ctx_ex 2 0 ?m3 1" and h = "[5 \<mapsto> ctx_ex 1 0 ?m3 1]"]]
  have "wp_reach 4 race 1 4 (wp_ex SIdle SIdle (WNum True) [5 \<mapsto> ctx_ex 1 0 ?m3 1] ?q {} [(5, ?x), (5, ?y)] [(5, ?x)])"
    by (simp add: contextRelease_def)
  from step [OF this _ wp_act.num_go [where t = 0 and sl = True]]
  have "wp_reach 4 race 1 4 (wp_ex SIdle SIdle WSleepTest [5 \<mapsto> ctx_ex 1 0 ?m3 1] ?q {} [(5, ?x), (5, ?y)] [(5, ?x)])"
    by simp
  from step [OF this _ wp_act.sleep [where t = 0]] show ?thesis
    by (simp add: workerPoolHaveWork_def)
qed

text \<open>
  Thread 3 has looked the context up and not yet retained it when the context, told to exit by
  thread 2, is freed.
\<close>

lemma wp_ex_retain_freed:
  "\<exists>s x. wp_reach 4 race 1 4 s \<and> wp_s s 3 = SFound 5 x \<and> wp_heap s 5 = None \<and> wp_fault s = None \<and> \<not> wp_twice s"
proof -
  note step = wp_ex_act [where race = race]
  define e where "e = send_ex (Some 5) MSG_TYPE_EXIT_CONTEXT 0"
  define y where "y = send_ex None 1 12"
  let ?e = "send_msg e 1"
  let ?p = "SFound 5 y"
  have new: "send_new e" "sa_ctx e = Some 5" "sa_from e \<noteq> 0" "sa_to e = 1" "msg_type ?e = MSG_TYPE_EXIT_CONTEXT"
    "sa_from y \<noteq> 0" "sa_to y = 1"
    by (simp_all add: e_def y_def send_new_def send_msg_def MSG_TYPE_NEWSESSION_def MSG_TYPE_EXIT_CONTEXT_def)
  let ?q0 = "cxq_ex 0 0 [None, None]" and ?q1 = "cxq_ex 1 0 [Some 5, None]" and ?q2 = "cxq_ex 1 1 [Some 5, None]"
  let ?m0 = "mq_ex 0 0 [message0, message0]" and ?m1 = "mq_ex 1 0 [?e, message0]" and ?m2 = "mq_ex 1 1 [?e, message0]"
  from step [OF wp_ex_create _ wp_act.send_call [where t = 3 and x = y and x' = y]] new
  have "wp_reach 4 race 1 4 (wp_ex SIdle (SLook y) WTop [5 \<mapsto> ctx_ex 1 0 ?m0 1] ?q0 {} [] [])"
    by (auto simp: send_from_def)
  from step [OF this _ wp_act.send_some [where t = 3 and x = y and a = 5]] new
  have "wp_reach 4 race 1 4 (wp_ex SIdle ?p WTop [5 \<mapsto> ctx_ex 1 0 ?m0 1] ?q0 {} [] [])" by simp
  from step [OF this _ wp_act.send_call [where t = 2 and x = e and x' = e]] new
  have "wp_reach 4 race 1 4 (wp_ex (SLook e) ?p WTop [5 \<mapsto> ctx_ex 1 0 ?m0 1] ?q0 {} [] [])"
    by (auto simp: send_from_def)
  from step [OF this _ wp_act.send_some [where t = 2 and x = e and a = 5]] new
  have "wp_reach 4 race 1 4 (wp_ex (SFound 5 e) ?p WTop [5 \<mapsto> ctx_ex 1 0 ?m0 1] ?q0 {} [] [])" by simp
  from step [OF this _ wp_act.retain [where t = 2 and a = 5 and x = e and c = "ctx_ex 1 0 ?m0 1"]]
  have "wp_reach 4 race 1 4 (wp_ex (SRetained 5 e) ?p WTop [5 \<mapsto> ctx_ex 2 0 ?m0 1] ?q0 {} [] [])" by simp
  from step [OF this _ wp_act.build_new [where t = 2 and a = 5 and x = e and b = 5 and c = "ctx_ex 2 0 ?m0 1"
      and i = 1 and c' = "ctx_ex 2 0 ?m0 2"]] new
  have "wp_reach 4 race 1 4 (wp_ex (SBuilt 5 ?e) ?p WTop [5 \<mapsto> ctx_ex 2 0 ?m0 2] ?q0 {} [] [])" by simp
  from step [OF this _ wp_act.push [where t = 2 and a = 5 and msg = ?e and c = "ctx_ex 2 0 ?m0 2" and q = ?m1]]
  have "wp_reach 4 race 1 4 (wp_ex (SPushed 5) ?p WTop [5 \<mapsto> ctx_ex 2 0 ?m1 2] ?q0 {} [(5, ?e)] [])" by simp
  from step [OF this _ wp_act.cas_won [where t = 2 and a = 5 and c = "ctx_ex 2 0 ?m1 2"]]
  have "wp_reach 4 race 1 4 (wp_ex (SWon 5) ?p WTop [5 \<mapsto> ctx_ex 2 1 ?m1 2] ?q0 {} [(5, ?e)] [])" by simp
  from step [OF this _ wp_act.global [where t = 2 and a = 5 and ok = True and q = ?q1]]
  have "wp_reach 4 race 1 4 (wp_ex SWake ?p WTop [5 \<mapsto> ctx_ex 2 1 ?m1 2] ?q1 {} [(5, ?e)] [])" by simp
  then have "wp_reach 4 race 1 4 (wp_ex SIdle ?p WTop [5 \<mapsto> ctx_ex 2 1 ?m1 2] ?q1 {} [(5, ?e)] [])"
    using wp_ex_wakeup by simp
  from step [OF this _ wp_act.pop_some [where t = 0 and a = 5 and q = ?q2]]
  have "wp_reach 4 race 1 4 (wp_ex SIdle ?p (WHave 5) [5 \<mapsto> ctx_ex 2 1 ?m1 2] ?q2 {} [(5, ?e)] [])" by simp
  from step [OF this _ wp_act.disp_exit [where t = 0 and a = 5 and r = "-2" and msg = ?e and h = "[5 \<mapsto> ctx_ex 1 1 ?m2 2]"]] new
  have "wp_reach 4 race 1 4 (wp_ex SIdle ?p (WCas 5) [5 \<mapsto> ctx_ex 1 1 ?m2 2] ?q2 {5} [(5, ?e)] [(5, ?e)])"
    by (simp add: contextDispatchMessage_def contextRelease_def)
  from step [OF this _ wp_act.cas [where t = 0 and a = 5 and c = "ctx_ex 1 1 ?m2 2"]]
  have "wp_reach 4 race 1 4 (wp_ex SIdle ?p (WRel 5) [5 \<mapsto> ctx_ex 1 0 ?m2 2] ?q2 {5} [(5, ?e)] [(5, ?e)])" by simp
  from step [OF this _ wp_act.wrelease [where t = 0 and a = 5 and alive = False and c = "ctx_ex 1 0 ?m2 2" and h = "\<lambda>_. None"]]
  have "wp_reach 4 race 1 4 (wp_ex SIdle ?p (WRemove 1) (\<lambda>_. None) ?q2 {5} [(5, ?e)] [(5, ?e)])"
    by (simp add: contextRelease_def)
  then show ?thesis by (intro exI conjI) (assumption, simp_all)
qed

subsection \<open>Properties\<close>

text \<open>
  C1: an actor is never run twice at the same time, and its messages are handled in the order
  in which its mailbox accepted them. In every reachable state of any number of workers and
  senders, at most one thread runs the callback of a context, and for every living context the
  accepted messages are the handled ones followed by those still in the mailbox.
\<close>
theorem worker_exclusive_fifo:
  assumes "wp_reach n race k z s"
  shows "(\<forall>t u a m m'. t < n \<and> u < n \<and> wp_w s t = WRun a m \<and> wp_w s u = WRun a m' \<longrightarrow> t = u) \<and>
    (\<forall>a c. wp_heap s a = Some c \<longrightarrow> wp_of a (wp_sent s) = wp_of a (wp_handled s) @ mq_list (ctx_queue c))"
  using wp_reach_exclusive [OF assms] wp_inv_at(5) [OF wp_reach_inv [OF assms]] by blast

lemma worker_exclusive_fifo_witness:
  "\<exists>s c m. wp_reach 4 False 1 4 s \<and> wp_heap s 5 = Some c \<and>
     wp_of 5 (wp_sent s) = wp_of 5 (wp_handled s) @ mq_list (ctx_queue c) \<and> wp_of 5 (wp_handled s) = [m]"
proof -
  note r = wp_ex_stranded [of False]
  from worker_exclusive_fifo [OF r] show ?thesis using r by (intro exI conjI) (assumption, auto)
qed

text \<open>
  C3: references protect. As long as no context handles a second exit message, a thread that
  holds a reference to a context (a sender after contextRetain, a worker from contextQueuePop to
  ctxMgrReleaseContext) never finds it freed, the asserts on the swap of inGlobal and on
  contextRelease never fail, and the count of a living context is exact: one for its
  registration until it exits, one for being scheduled, one for each other holder.
\<close>
theorem worker_references:
  assumes "wp_reach n race k z s" "n < 2 ^ 30" "\<not> wp_twice s"
  shows "wp_fault s \<notin> {Some HolderFreed, Some CasFailed, Some ExitFailed} \<and>
    (\<forall>a c. wp_heap s a = Some c \<longrightarrow>
       unat (ctx_ref c) = (if a \<in> wp_exited s then 0 else 1) + nat (ctx_inGlobal c) + wp_ext n s a)"
proof -
  have "wp_rinv n s" "wp_excusable s" using wp_reach_rinv [OF assms] by auto
  with wp_rinv_at(1) show ?thesis by (auto simp: wp_excusable_def)
qed

lemma worker_references_witness:
  "\<exists>s c. wp_reach 4 False 1 4 s \<and> wp_heap s 5 = Some c \<and>
     unat (ctx_ref c) = (if 5 \<in> wp_exited s then 0 else 1) + nat (ctx_inGlobal c) + wp_ext 4 s 5 \<and> wp_fault s \<noteq> Some CasFailed"
proof -
  note r = wp_ex_stranded [of False]
  let ?x = "send_msg (send_ex None 1 11) 11" and ?y = "send_msg (send_ex None 1 12) 12"
  from worker_references [OF r]
  have "unat (ctx_ref c) = (if a \<in> {} then 0 else 1) + nat (ctx_inGlobal c) + wp_ext 4
      (wp_ex SIdle SIdle WSleeping [5 \<mapsto> ctx_ex 1 0 (mq_ex 2 1 [?x, ?y]) 1] (cxq_ex 1 1 [Some 5, None]) {}
      [(5, ?x), (5, ?y)] [(5, ?x)]) a" if "[5 \<mapsto> ctx_ex 1 0 (mq_ex 2 1 [?x, ?y]) 1] a = Some c" for a c
    using that by simp
  from this [of 5 "ctx_ex 1 0 (mq_ex 2 1 [?x, ?y]) 1"] r show ?thesis
    by (intro exI [of _ "wp_ex SIdle SIdle WSleeping [5 \<mapsto> ctx_ex 1 0 (mq_ex 2 1 [?x, ?y]) 1] (cxq_ex 1 1 [Some 5, None]) {}
      [(5, ?x), (5, ?y)] [(5, ?x)]"] exI [of _ "ctx_ex 1 0 (mq_ex 2 1 [?x, ?y]) 1"]) simp
qed

text \<open>
  C7: no work is left to sleeping workers. While a worker sleeps, each context in the global queue
  has a thread of its own that will see to it without waiting for a callback: there are at least as many threads about to signal,
  and workers on their way to the queue outside any callback, as contexts are queued. (A sender's
  push is followed by a signal, and a worker that pushes its context back comes to the queue itself.)
\<close>
theorem worker_no_lost_wakeup:
  assumes "wp_reach n race k z s" "wp_w s u = WSleeping"
  shows "length (cxq_list (wp_queue s)) \<le>
    card {t. t < n \<and> wp_s s t = SWake} + card {t. t < n \<and> heading (wp_w s t)}"
  using wp_reach_sleep [OF assms(1)] assms(2) by (auto simp: wp_sleep_inv_def simp flip: wp_coming_card)

lemma worker_no_lost_wakeup_witness:
  "\<exists>s. wp_reach 4 False 1 4 s \<and> wp_w s 0 = WSleeping \<and> cxq_list (wp_queue s) = [5] \<and>
     1 \<le> card {t. t < 4 \<and> wp_s s t = SWake} + card {t. t < 4 \<and> heading (wp_w s t)}"
proof -
  let ?q = "cxq_ex 0 0 [None, None]" and ?h = "[5 \<mapsto> ctx_ex 1 0 (mq_ex 0 0 [message0, message0]) 1]"
  have "contextQueuePop ?q = (None, ?q)" by (simp add: cxq_ex_def contextQueuePop_def cxq_countToIndex_def)
  with wp_ex_act [OF wp_ex_create _ wp_act.pop_none [where t = 0 and q = ?q]]
  have "wp_reach 4 False 1 4 (wp_ex SIdle SIdle (WNum True) ?h ?q {} [] [])" by simp
  from wp_ex_act [OF this _ wp_act.num_go [where t = 0 and sl = True]]
  have "wp_reach 4 False 1 4 (wp_ex SIdle SIdle WSleepTest ?h ?q {} [] [])" by simp
  from wp_ex_act [OF this _ wp_act.sleep [where t = 0]]
  have "wp_reach 4 False 1 4 (wp_ex SIdle SIdle WSleeping ?h ?q {} [] [])" by (simp add: workerPoolHaveWork_def)
  note r = wp_ex_scheduled [OF this]
  have q: "cxq_list (cxq_ex 1 0 [Some 5, None]) = [5]"
    by (simp add: cxq_list_def cxq_ring_def lfq_contents_def lfq_list_def cxq_ex_def window_def upt_rec)
  let ?x = "send_msg (send_ex None 1 11) 11"
  let ?s = "wp_ex SWake SIdle WSleeping [5 \<mapsto> ctx_ex 2 1 (mq_ex 1 0 [?x, message0]) 1]
    (cxq_ex 1 0 [Some 5, None]) {} [(5, ?x)] []"
  have w: "wp_w ?s 0 = WSleeping" "cxq_list (wp_queue ?s) = [5]" using q by simp_all
  from worker_no_lost_wakeup [OF r w(1)] w(2)
  have "1 \<le> card {t. t < 4 \<and> wp_s ?s t = SWake} + card {t. t < 4 \<and> heading (wp_w ?s t)}"
    by (simp only: list.size)
  with r w show ?thesis by blast
qed

text \<open>
  C39: a message can be left behind. The worker finds the mailbox empty, a second message
  arrives while inGlobal is still 1, so its sender does not schedule the context, and then the
  worker swaps inGlobal to 0. The worker sleeps and every thread is idle beside an unscheduled
  context with a message in its mailbox; no queue call has failed.
\<close>
theorem worker_stranded_message:
  "\<exists>s c m. wp_reach 4 False 1 4 s \<and> (\<forall>t. wp_s s t = SIdle) \<and> wp_w s 0 = WSleeping \<and>
     cxq_list (wp_queue s) = [] \<and> wp_heap s 5 = Some c \<and> ctx_cb c \<noteq> None \<and>
     ctx_inGlobal c = 0 \<and> mq_list (ctx_queue c) = [m] \<and> wp_fault s = None"
proof -
  let ?x = "send_msg (send_ex None 1 11) 11" and ?y = "send_msg (send_ex None 1 12) 12"
  let ?s = "wp_ex SIdle SIdle WSleeping [5 \<mapsto> ctx_ex 1 0 (mq_ex 2 1 [?x, ?y]) 1] (cxq_ex 1 1 [Some 5, None]) {}
    [(5, ?x), (5, ?y)] [(5, ?x)]"
  have "wp_s ?s t = SIdle" for t by (cases "t = 2"; cases "t = 3") auto
  moreover have "cxq_list (cxq_ex 1 1 [Some 5, None]) = []"
    by (simp add: cxq_list_def cxq_ring_def lfq_contents_def lfq_list_def cxq_ex_def)
  moreover have "mq_list (mq_ex 2 1 [?x, ?y]) = [?y]"
    by (simp add: mq_list_def mq_ring_def lfq_contents_def lfq_list_def mq_ex_def window_def upt_rec)
  ultimately show ?thesis
    using wp_ex_stranded [of False]
    by (intro exI [of _ ?s] exI [of _ "ctx_ex 1 0 (mq_ex 2 1 [?x, ?y]) 1"] exI [of _ ?y]) simp
qed

text \<open>
  C40: ctxMgrGetContext retains too late. A sender that has read the pointer under the rwlock and
  released the lock can find the context freed by the time it calls contextRetain, although
  every context handled at most one exit message: workerPoolSend then uses freed memory.
\<close>
theorem worker_retain_freed:
  "\<exists>s. wp_reach 4 False 1 4 s \<and> wp_fault s = Some RetainFreed \<and> \<not> wp_twice s"
proof -
  obtain s x where s: "wp_reach 4 False 1 4 s" "wp_s s 3 = SFound 5 x" "wp_heap s 5 = None"
    "wp_fault s = None" "\<not> wp_twice s"
    using wp_ex_retain_freed by blast
  have "wp_reach 4 False 1 4 (wp_crash RetainFreed s)"
    by (rule wp_reach_act [OF s(1,4) _ wp_act.retain_freed [OF s(2,3)]]) simp
  with s(5) show ?thesis by (intro exI conjI) (assumption, simp_all)
qed

end
