(* ===== verification/Buffer.thy ===== *)
theory Buffer
  imports Prelude
begin

section \<open>The network buffer (src/buffer.c)\<close>

text \<open>
  \<open>struct buffer\<close>: a heap block and two indices. The block is the list of its bytes, so an
  access beyond its end, undefined behaviour in C, is \<open>None\<close>; \<open>fill\<close> is the byte that
  happens to be in fresh memory, and the theorems hold for every value of it. An allocation of a
  negative or zero size is \<open>None\<close> as well (zmalloc.c aborts on the first, the second frees).

  The abstraction \<open>buf_bytes\<close> is the unread bytes. The theorems: bufferAppend appends to them,
  whichever of its three ways it takes, exactly when the data fits the buffer after one
  doubling, and writes beyond the block otherwise; a buffer created with size 0 writes beyond
  its block on the second append; bufferPrepend does nothing when there is room, and writes
  before the block when there is none.
\<close>

record buffer =
  bf_writeIndex :: u32
  bf_readIndex :: u32
  bf_initSize :: u32
  bf_size :: u32
  bf_data :: "byte list ptr"

definition kCheapPrepend :: u32 where "kCheapPrepend = 0"

definition zmalloc_block :: "byte \<Rightarrow> nat \<Rightarrow> byte list" where
  "zmalloc_block fill n = replicate n fill"

text \<open>memcpy of \<open>src\<close> to \<open>off\<close>, which must stay inside the block.\<close>

definition mem_write :: "byte list ptr \<Rightarrow> nat \<Rightarrow> byte list \<Rightarrow> byte list option" where
  "mem_write p off src =
     (case p of
        None \<Rightarrow> if src = [] then Some [] else None
      | Some d \<Rightarrow> if off + length src \<le> length d
                  then Some (take off d @ src @ drop (off + length src) d) else None)"

definition mem_read :: "byte list ptr \<Rightarrow> nat \<Rightarrow> nat \<Rightarrow> byte list option" where
  "mem_read p off n =
     (case p of
        None \<Rightarrow> if n = 0 then Some [] else None
      | Some d \<Rightarrow> if off + n \<le> length d then Some (take n (drop off d)) else None)"

definition bufferCreate :: "byte \<Rightarrow> u32 \<Rightarrow> buffer" where
  "bufferCreate fill initSize =
     \<lparr>bf_writeIndex = kCheapPrepend, bf_readIndex = kCheapPrepend, bf_initSize = initSize, bf_size = initSize,
      bf_data = (if initSize = 0 then None
                 else Some (zmalloc_block fill (unat (kCheapPrepend + initSize))))\<rparr>"

definition bufferReset :: "byte \<Rightarrow> buffer \<Rightarrow> buffer" where
  "bufferReset fill buf = buf\<lparr>bf_size := bf_initSize buf,
     bf_data := Some (zmalloc_block fill (unat (kCheapPrepend + bf_initSize buf))),
     bf_readIndex := kCheapPrepend, bf_writeIndex := kCheapPrepend\<rparr>"

definition bufferWriteableBytes :: "buffer \<Rightarrow> u32" where
  "bufferWriteableBytes buf = bf_size buf - bf_writeIndex buf"

definition bufferReadableBytes :: "buffer \<Rightarrow> u32" where
  "bufferReadableBytes buf = bf_writeIndex buf - bf_readIndex buf"

definition bufferPrependableBytes :: "buffer \<Rightarrow> u32" where
  "bufferPrependableBytes buf = bf_readIndex buf"

definition bufferGetSize :: "buffer \<Rightarrow> u32" where
  "bufferGetSize buf = bf_size buf"

definition bufferMoveWriteIndex :: "buffer \<Rightarrow> u32 \<Rightarrow> buffer" where
  "bufferMoveWriteIndex buf moveLen = buf\<lparr>bf_writeIndex := bf_writeIndex buf + moveLen\<rparr>"

definition bufferSetWriteIndex :: "buffer \<Rightarrow> u32 \<Rightarrow> buffer" where
  "bufferSetWriteIndex buf index = buf\<lparr>bf_writeIndex := index\<rparr>"

definition bufferRetrieveAll :: "buffer \<Rightarrow> buffer" where
  "bufferRetrieveAll buf = buf\<lparr>bf_writeIndex := kCheapPrepend, bf_readIndex := kCheapPrepend\<rparr>"

definition bufferMoveReadIndex :: "buffer \<Rightarrow> u32 \<Rightarrow> buffer" where
  "bufferMoveReadIndex buf moveLen =
     (if moveLen < bufferReadableBytes buf then buf\<lparr>bf_readIndex := bf_readIndex buf + moveLen\<rparr>
      else bufferRetrieveAll buf)"

text \<open>zrealloc keeps the common prefix. \<open>reallocSize\<close> is an int.\<close>

definition bufferExpand :: "byte \<Rightarrow> buffer \<Rightarrow> buffer option" where
  "bufferExpand fill buf =
     (let reallocSize = push_bit 1 (bf_size buf);
          d = (case bf_data buf of None \<Rightarrow> [] | Some d \<Rightarrow> d)
      in if sint reallocSize \<le> 0 then None
         else Some (buf\<lparr>bf_size := reallocSize,
                bf_data := Some (take (unat reallocSize) d @ zmalloc_block fill (unat reallocSize - length d))\<rparr>))"

definition bufferMakeSpace :: "byte \<Rightarrow> buffer \<Rightarrow> u32 \<Rightarrow> buffer option" where
  "bufferMakeSpace fill buf need =
     (case bf_data buf of
        None \<Rightarrow> Some (buf\<lparr>bf_data := Some (zmalloc_block fill (unat (need + kCheapPrepend))),
                         bf_writeIndex := kCheapPrepend, bf_readIndex := kCheapPrepend\<rparr>)
      | Some d \<Rightarrow>
          if bufferWriteableBytes buf + bufferPrependableBytes buf < need + kCheapPrepend
          then bufferExpand fill buf
          else (let used = bufferReadableBytes buf
                in case mem_read (bf_data buf) (unat (bf_readIndex buf)) (unat used) of
                     None \<Rightarrow> None
                   | Some bs \<Rightarrow>
                       (case mem_write (bf_data buf) (unat kCheapPrepend) bs of
                          None \<Rightarrow> None
                        | Some d' \<Rightarrow> Some (buf\<lparr>bf_data := Some d', bf_readIndex := kCheapPrepend,
                                             bf_writeIndex := kCheapPrepend + used\<rparr>))))"

text \<open>\<open>dataLen\<close> is the length of the data, as uint32_t.\<close>

definition bufferAppend :: "byte \<Rightarrow> buffer \<Rightarrow> byte list \<Rightarrow> buffer option" where
  "bufferAppend fill buf bs =
     (let dataLen = of_nat (length bs)
      in case (if dataLen > bufferWriteableBytes buf then bufferMakeSpace fill buf dataLen else Some buf) of
           None \<Rightarrow> None
         | Some b1 \<Rightarrow>
             (case mem_write (bf_data b1) (unat (bf_writeIndex b1)) (take (unat dataLen) bs) of
                None \<Rightarrow> None
              | Some d \<Rightarrow> Some (b1\<lparr>bf_data := Some d, bf_writeIndex := bf_writeIndex b1 + dataLen\<rparr>)))"

definition bufferPrepend :: "buffer \<Rightarrow> byte list \<Rightarrow> buffer option" where
  "bufferPrepend buf bs =
     (let dataLen = of_nat (length bs)
      in if dataLen \<le> bufferPrependableBytes buf then Some buf
         else (let readIndex = bf_readIndex buf - dataLen
               in case mem_write (bf_data buf) (unat readIndex) (take (unat dataLen) bs) of
                    None \<Rightarrow> None
                  | Some d \<Rightarrow> Some (buf\<lparr>bf_data := Some d, bf_readIndex := readIndex\<rparr>)))"

text \<open>The integers are copied from the bytes, least significant first on the machines the server runs on.\<close>

definition bufferPeekInt32 :: "buffer \<Rightarrow> u32 option" where
  "bufferPeekInt32 buf =
     map_option (\<lambda>bs. of_nat (le_val bs)) (mem_read (bf_data buf) (unat (bf_readIndex buf)) 4)"

definition bufferPeekInt16 :: "buffer \<Rightarrow> u16 option" where
  "bufferPeekInt16 buf =
     map_option (\<lambda>bs. of_nat (le_val bs)) (mem_read (bf_data buf) (unat (bf_readIndex buf)) 2)"

definition bufferReadInt32 :: "buffer \<Rightarrow> (u32 \<times> buffer) option" where
  "bufferReadInt32 buf = map_option (\<lambda>ret. (ret, bufferMoveReadIndex buf 4)) (bufferPeekInt32 buf)"

subsection \<open>Invariant and abstraction\<close>

definition buf_ok :: "buffer \<Rightarrow> bool" where
  "buf_ok buf \<longleftrightarrow> (\<exists>d. bf_data buf = Some d \<and> length d = unat (bf_size buf)) \<and> 0 < unat (bf_size buf) \<and>
     unat (bf_size buf) < 2 ^ 31 \<and> unat (bf_readIndex buf) \<le> unat (bf_writeIndex buf) \<and>
     unat (bf_writeIndex buf) \<le> unat (bf_size buf)"

definition buf_bytes :: "buffer \<Rightarrow> byte list" where
  "buf_bytes buf = (case bf_data buf of None \<Rightarrow> []
     | Some d \<Rightarrow> take (unat (bf_writeIndex buf) - unat (bf_readIndex buf)) (drop (unat (bf_readIndex buf)) d))"

lemma buf_okE:
  assumes "buf_ok buf"
  obtains d where "bf_data buf = Some d" "length d = unat (bf_size buf)" "0 < unat (bf_size buf)"
    "unat (bf_size buf) < 2 ^ 31" "unat (bf_readIndex buf) \<le> unat (bf_writeIndex buf)"
    "unat (bf_writeIndex buf) \<le> unat (bf_size buf)"
  using assms by (auto simp: buf_ok_def)

lemma buf_counts:
  assumes "buf_ok buf"
  shows "unat (bufferWriteableBytes buf) = unat (bf_size buf) - unat (bf_writeIndex buf)"
    "unat (bufferReadableBytes buf) = length (buf_bytes buf)"
    "length (buf_bytes buf) = unat (bf_writeIndex buf) - unat (bf_readIndex buf)"
    "unat (bufferWriteableBytes buf + bufferPrependableBytes buf) = unat (bf_size buf) - length (buf_bytes buf)"
proof -
  obtain d where d: "bf_data buf = Some d" "length d = unat (bf_size buf)" "unat (bf_size buf) < 2 ^ 31"
    "unat (bf_readIndex buf) \<le> unat (bf_writeIndex buf)" "unat (bf_writeIndex buf) \<le> unat (bf_size buf)"
    using assms by (rule buf_okE) blast
  show w: "unat (bufferWriteableBytes buf) = unat (bf_size buf) - unat (bf_writeIndex buf)"
    using d by (simp add: bufferWriteableBytes_def unat_sub32)
  show l: "length (buf_bytes buf) = unat (bf_writeIndex buf) - unat (bf_readIndex buf)"
    using d by (simp add: buf_bytes_def)
  then show "unat (bufferReadableBytes buf) = length (buf_bytes buf)"
    using d by (simp add: bufferReadableBytes_def unat_sub32)
  have "unat (bufferWriteableBytes buf) + unat (bf_readIndex buf) < 2 ^ 32" using w d by simp
  then show "unat (bufferWriteableBytes buf + bufferPrependableBytes buf) = unat (bf_size buf) - length (buf_bytes buf)"
    using w l d by (simp add: bufferPrependableBytes_def unat_word_ariths)
qed

lemma mem_write_len: "mem_write (Some d) off src = Some d' \<Longrightarrow> length d' = length d"
  by (auto simp: mem_write_def split: if_splits)

text \<open>A write at the write index of an ok buffer that has the room.\<close>

lemma buf_write:
  assumes ok: "buf_ok buf" and room: "unat (bf_writeIndex buf) + length bs \<le> unat (bf_size buf)"
  shows "\<exists>d. mem_write (bf_data buf) (unat (bf_writeIndex buf)) bs = Some d \<and>
    buf_ok (buf\<lparr>bf_data := Some d, bf_writeIndex := bf_writeIndex buf + of_nat (length bs)\<rparr>) \<and>
    buf_bytes (buf\<lparr>bf_data := Some d, bf_writeIndex := bf_writeIndex buf + of_nat (length bs)\<rparr>) = buf_bytes buf @ bs"
proof -
  obtain d where d: "bf_data buf = Some d" "length d = unat (bf_size buf)" "0 < unat (bf_size buf)"
    "unat (bf_size buf) < 2 ^ 31"
    "unat (bf_readIndex buf) \<le> unat (bf_writeIndex buf)" "unat (bf_writeIndex buf) \<le> unat (bf_size buf)"
    using ok by (rule buf_okE)
  let ?w = "unat (bf_writeIndex buf)" and ?r = "unat (bf_readIndex buf)"
  let ?d = "take ?w d @ bs @ drop (?w + length bs) d"
  have w: "mem_write (bf_data buf) ?w bs = Some ?d" using d room by (simp add: mem_write_def)
  have u: "unat (bf_writeIndex buf + of_nat (length bs)) = ?w + length bs"
    using room d by (simp add: unat_word_ariths unat_of_nat)
  have e: "drop ?r ?d = (take (?w - ?r) (drop ?r d) @ bs) @ drop (?w + length bs) d"
    using d by (simp add: drop_take)
  have "length (take (?w - ?r) (drop ?r d) @ bs) = ?w + length bs - ?r" using d by simp
  then have "take (?w + length bs - ?r) (drop ?r ?d) = take (?w - ?r) (drop ?r d) @ bs"
    unfolding e by simp
  with w u d room show ?thesis by (auto simp: buf_ok_def buf_bytes_def)
qed

lemma bufferExpand_ok:
  assumes ok: "buf_ok buf" and sz: "unat (bf_size buf) < 2 ^ 30"
  shows "\<exists>b. bufferExpand fill buf = Some b \<and> buf_ok b \<and> buf_bytes b = buf_bytes buf \<and>
    unat (bf_size b) = 2 * unat (bf_size buf) \<and> bf_writeIndex b = bf_writeIndex buf \<and> bf_readIndex b = bf_readIndex buf"
proof -
  obtain d where d: "bf_data buf = Some d" "length d = unat (bf_size buf)" "0 < unat (bf_size buf)"
    "unat (bf_readIndex buf) \<le> unat (bf_writeIndex buf)" "unat (bf_writeIndex buf) \<le> unat (bf_size buf)"
    using ok by (rule buf_okE) blast
  have n: "unat (push_bit 1 (bf_size buf)) = 2 * unat (bf_size buf)"
    using sz by (intro unat_double32) simp
  then have "sint (push_bit 1 (bf_size buf)) = int (2 * unat (bf_size buf))"
    using sint_unat32 [of "push_bit 1 (bf_size buf)"] sz by simp
  then have s: "\<not> sint (push_bit 1 (bf_size buf)) \<le> 0" using d(3) by linarith
  show ?thesis
    using d n s sz by (auto simp: bufferExpand_def Let_def buf_ok_def buf_bytes_def zmalloc_block_def)
qed

lemma buffer_compact_ok:
  assumes ok: "buf_ok buf" and room: "\<not> bufferWriteableBytes buf + bufferPrependableBytes buf < need"
  shows "\<exists>b. bufferMakeSpace fill buf need = Some b \<and> buf_ok b \<and> buf_bytes b = buf_bytes buf \<and>
    bf_size b = bf_size buf \<and> unat (bf_writeIndex b) = length (buf_bytes buf)"
proof -
  obtain d where d: "bf_data buf = Some d" "length d = unat (bf_size buf)" "0 < unat (bf_size buf)"
    "unat (bf_size buf) < 2 ^ 31"
    "unat (bf_readIndex buf) \<le> unat (bf_writeIndex buf)" "unat (bf_writeIndex buf) \<le> unat (bf_size buf)"
    using ok by (rule buf_okE)
  note n = buf_counts [OF ok]
  have rd: "mem_read (bf_data buf) (unat (bf_readIndex buf)) (unat (bufferReadableBytes buf)) = Some (buf_bytes buf)"
    using d n(2,3) by (simp add: mem_read_def buf_bytes_def)
  have wr: "mem_write (bf_data buf) 0 (buf_bytes buf) = Some (buf_bytes buf @ drop (length (buf_bytes buf)) d)"
    using d n(3) by (simp add: mem_write_def)
  show ?thesis
    using room d n rd wr
    by (auto simp: bufferMakeSpace_def kCheapPrepend_def Let_def buf_ok_def) (simp add: buf_bytes_def)
qed

lemma bufferAppend_unfold:
  assumes ok: "buf_ok buf" and len: "length bs < 2 ^ 32"
  shows "bufferAppend fill buf bs =
    (case (if unat (bf_size buf) - unat (bf_writeIndex buf) < length bs
           then bufferMakeSpace fill buf (of_nat (length bs)) else Some buf) of
       None \<Rightarrow> None
     | Some b1 \<Rightarrow> (case mem_write (bf_data b1) (unat (bf_writeIndex b1)) bs of None \<Rightarrow> None
         | Some d \<Rightarrow> Some (b1\<lparr>bf_data := Some d, bf_writeIndex := bf_writeIndex b1 + of_nat (length bs)\<rparr>)))"
proof -
  have u: "unat (of_nat (length bs) :: u32) = length bs" using len by (simp add: unat_of_nat)
  have "of_nat (length bs) > bufferWriteableBytes buf \<longleftrightarrow> unat (bf_size buf) - unat (bf_writeIndex buf) < length bs"
    using buf_counts(1) [OF ok] u by (simp add: word_less_nat_alt)
  then show ?thesis by (simp add: bufferAppend_def Let_def u split: option.split)
qed

text \<open>When the data fits, with the three ways in one condition.\<close>

definition buf_fits :: "buffer \<Rightarrow> nat \<Rightarrow> bool" where
  "buf_fits buf n \<longleftrightarrow> length (buf_bytes buf) + n \<le> unat (bf_size buf) \<or>
     unat (bf_writeIndex buf) + n \<le> 2 * unat (bf_size buf)"

lemma bufferAppend_ok:
  assumes ok: "buf_ok buf" and sz: "unat (bf_size buf) < 2 ^ 30" and fit: "buf_fits buf (length bs)"
  shows "\<exists>b. bufferAppend fill buf bs = Some b \<and> buf_ok b \<and> buf_bytes b = buf_bytes buf @ bs \<and>
    unat (bf_size b) \<le> 2 * unat (bf_size buf) \<and>
    (length (buf_bytes buf) + length bs \<le> unat (bf_size buf) \<longrightarrow> bf_size b = bf_size buf)"
proof -
  have len: "length bs < 2 ^ 32" using fit sz by (auto simp: buf_fits_def)
  then have u: "unat (of_nat (length bs) :: u32) = length bs" by (simp add: unat_of_nat)
  note n = buf_counts [OF ok] and unf = bufferAppend_unfold [OF ok len]
  have bnd: "length (buf_bytes buf) \<le> unat (bf_size buf)" using ok n(3) by (auto simp: buf_ok_def)
  consider "unat (bf_writeIndex buf) + length bs \<le> unat (bf_size buf)"
    | "unat (bf_size buf) < unat (bf_writeIndex buf) + length bs" "length (buf_bytes buf) + length bs \<le> unat (bf_size buf)"
    | "unat (bf_size buf) < unat (bf_writeIndex buf) + length bs" "unat (bf_size buf) < length (buf_bytes buf) + length bs"
    by linarith
  then show ?thesis
  proof cases
    case 1
    then have "\<not> unat (bf_size buf) - unat (bf_writeIndex buf) < length bs" by linarith
    with buf_write [OF ok 1] unf show ?thesis by auto
  next
    case 2
    have "\<not> bufferWriteableBytes buf + bufferPrependableBytes buf < of_nat (length bs)"
      using 2 n(4) u bnd by (simp add: word_less_nat_alt)
    from buffer_compact_ok [OF ok this] obtain b where
      b: "bufferMakeSpace fill buf (of_nat (length bs)) = Some b" "buf_ok b" "buf_bytes b = buf_bytes buf"
      "bf_size b = bf_size buf" "unat (bf_writeIndex b) = length (buf_bytes buf)" by blast
    have "unat (bf_size buf) - unat (bf_writeIndex buf) < length bs" using 2 ok by (auto simp: buf_ok_def)
    with buf_write [OF b(2), of bs] b 2 unf show ?thesis by auto
  next
    case 3
    have "bufferWriteableBytes buf + bufferPrependableBytes buf < of_nat (length bs) + kCheapPrepend"
      using 3 n(4) u bnd by (simp add: word_less_nat_alt kCheapPrepend_def)
    moreover obtain d where "bf_data buf = Some d" using ok by (rule buf_okE)
    ultimately have ms: "bufferMakeSpace fill buf (of_nat (length bs)) = bufferExpand fill buf"
      by (simp add: bufferMakeSpace_def)
    obtain b where b: "bufferExpand fill buf = Some b" "buf_ok b" "buf_bytes b = buf_bytes buf"
      "unat (bf_size b) = 2 * unat (bf_size buf)" "bf_writeIndex b = bf_writeIndex buf"
      using bufferExpand_ok [OF ok sz] by blast
    have "unat (bf_writeIndex b) + length bs \<le> unat (bf_size b)"
      using fit 3 b(4,5) by (auto simp: buf_fits_def)
    moreover have "unat (bf_size buf) - unat (bf_writeIndex buf) < length bs" using 3 ok by (auto simp: buf_ok_def)
    ultimately show ?thesis using buf_write [OF b(2), of bs] b ms unf 3 by auto
  qed
qed

lemma bufferAppend_overflow:
  assumes ok: "buf_ok buf" and sz: "unat (bf_size buf) < 2 ^ 30" and fit: "\<not> buf_fits buf (length bs)"
    and len: "length bs < 2 ^ 32"
  shows "bufferAppend fill buf bs = None"
proof -
  have u: "unat (of_nat (length bs) :: u32) = length bs" using len by (simp add: unat_of_nat)
  note n = buf_counts [OF ok] and unf = bufferAppend_unfold [OF ok len]
  have bnd: "length (buf_bytes buf) \<le> unat (bf_size buf)" "unat (bf_writeIndex buf) \<le> unat (bf_size buf)"
    using ok n(3) by (auto simp: buf_ok_def)
  have "bufferWriteableBytes buf + bufferPrependableBytes buf < of_nat (length bs) + kCheapPrepend"
    using fit n(4) u bnd by (simp add: buf_fits_def word_less_nat_alt kCheapPrepend_def) arith
  moreover obtain d where "bf_data buf = Some d" using ok by (rule buf_okE)
  ultimately have ms: "bufferMakeSpace fill buf (of_nat (length bs)) = bufferExpand fill buf"
    by (simp add: bufferMakeSpace_def)
  obtain b where b: "bufferExpand fill buf = Some b" "buf_ok b"
    "unat (bf_size b) = 2 * unat (bf_size buf)" "bf_writeIndex b = bf_writeIndex buf"
    using bufferExpand_ok [OF ok sz] by blast
  obtain d where "bf_data b = Some d" "length d = unat (bf_size b)" using b(2) by (rule buf_okE)
  then have "mem_write (bf_data b) (unat (bf_writeIndex b)) bs = None"
    using fit b(3,4) by (auto simp: mem_write_def buf_fits_def)
  moreover have "unat (bf_size buf) - unat (bf_writeIndex buf) < length bs"
    using fit bnd by (auto simp: buf_fits_def)
  ultimately show ?thesis using ms b(1) unf by simp
qed

subsection \<open>Reading\<close>

text \<open>Whatever the size: an append that stays inside the block appends.\<close>

lemma bufferAppend_some:
  assumes ok: "buf_ok buf" and len: "length bs < 2 ^ 32" and a: "bufferAppend fill buf bs = Some b"
  shows "buf_ok b \<and> buf_bytes b = buf_bytes buf @ bs"
proof (cases "unat (bf_size buf) < 2 ^ 30")
  case True
  then show ?thesis
    using bufferAppend_ok [OF ok True, of bs fill] bufferAppend_overflow [OF ok True _ len, of fill] a
    by (cases "buf_fits buf (length bs)") auto
next
  case False
  note n = buf_counts [OF ok] and unf = bufferAppend_unfold [OF ok len]
  have u: "unat (of_nat (length bs) :: u32) = length bs" using len by (simp add: unat_of_nat)
  obtain d where d: "bf_data buf = Some d" "unat (bf_size buf) < 2 ^ 31"
    using ok by (rule buf_okE)
  show ?thesis
  proof (cases "unat (bf_size buf) - unat (bf_writeIndex buf) < length bs")
    case False
    then have "unat (bf_writeIndex buf) + length bs \<le> unat (bf_size buf)" using ok by (auto simp: buf_ok_def)
    then show ?thesis using buf_write [OF ok, of bs] unf [of fill] a False by auto
  next
    case True
    have "bufferExpand fill buf = None"
    proof -
      have "unat (push_bit 1 (bf_size buf)) = 2 * unat (bf_size buf)" using d(2) by (simp add: push_bit_eq_mult unat_word_ariths)
      then have "2 ^ 31 \<le> unat (push_bit 1 (bf_size buf))" using \<open>\<not> unat (bf_size buf) < 2 ^ 30\<close> by simp
      then have "sint (push_bit 1 (bf_size buf)) < 0"
        using sint_lt [of "push_bit 1 (bf_size buf)"] sint_neg32 by blast
      then show ?thesis by (simp add: bufferExpand_def Let_def)
    qed
    then have "\<not> bufferWriteableBytes buf + bufferPrependableBytes buf < of_nat (length bs)"
      using a True unf d(1) by (auto simp: bufferMakeSpace_def kCheapPrepend_def)
    then obtain b1 where b1: "bufferMakeSpace fill buf (of_nat (length bs)) = Some b1" "buf_ok b1" "buf_bytes b1 = buf_bytes buf"
        "bf_size b1 = bf_size buf" "unat (bf_writeIndex b1) = length (buf_bytes buf)"
      using buffer_compact_ok [OF ok, of "of_nat (length bs)" fill] by auto
    have "length bs \<le> unat (bf_size buf) - length (buf_bytes buf)"
      using \<open>\<not> _ < of_nat (length bs)\<close> n(4) u by (simp add: word_less_nat_alt not_less)
    moreover have "length (buf_bytes buf) \<le> unat (bf_size buf)" using ok n(3) by (auto simp: buf_ok_def)
    ultimately have "unat (bf_writeIndex b1) + length bs \<le> unat (bf_size b1)" using b1(4,5) by simp
    then show ?thesis using buf_write [OF b1(2), of bs] unf [of fill] a True b1 by auto
  qed
qed

lemma bufferRetrieveAll_ok: "buf_ok b \<Longrightarrow> buf_ok (bufferRetrieveAll b)" "buf_bytes (bufferRetrieveAll b) = []"
  by (auto simp: bufferRetrieveAll_def buf_ok_def buf_bytes_def kCheapPrepend_def split: option.splits)

lemma mem_read_bytes:
  assumes "buf_ok buf" "off + n \<le> length (buf_bytes buf)"
  shows "mem_read (bf_data buf) (unat (bf_readIndex buf) + off) n = Some (take n (drop off (buf_bytes buf)))"
proof -
  obtain d where d: "bf_data buf = Some d" "length d = unat (bf_size buf)"
    "unat (bf_readIndex buf) \<le> unat (bf_writeIndex buf)" "unat (bf_writeIndex buf) \<le> unat (bf_size buf)"
    using assms(1) by (rule buf_okE)
  let ?m = "unat (bf_writeIndex buf) - unat (bf_readIndex buf)"
  have b: "buf_bytes buf = take ?m (drop (unat (bf_readIndex buf)) d)" using d(1) by (simp add: buf_bytes_def)
  have m: "off + n \<le> ?m" using assms(2) buf_counts(3) [OF assms(1)] by simp
  then have "take n (drop off (buf_bytes buf)) = take n (drop (unat (bf_readIndex buf) + off) d)"
    unfolding b by (simp add: drop_take min_absorb1 add.commute)
  then show ?thesis using d m by (simp add: mem_read_def)
qed

lemma bufferPeekInt32_ok:
  assumes "buf_ok buf" "4 \<le> length (buf_bytes buf)"
  shows "bufferPeekInt32 buf = Some (of_nat (le_val (take 4 (buf_bytes buf))))"
proof -
  obtain d where d: "bf_data buf = Some d" "length d = unat (bf_size buf)"
    "unat (bf_readIndex buf) \<le> unat (bf_writeIndex buf)" "unat (bf_writeIndex buf) \<le> unat (bf_size buf)"
    using assms(1) by (rule buf_okE)
  then show ?thesis
    using assms(2) buf_counts(3) [OF assms(1)]
    by (simp add: bufferPeekInt32_def mem_read_def) (simp add: buf_bytes_def min_def)
qed

lemma bufferMoveReadIndex_ok:
  assumes "buf_ok buf" "unat n \<le> length (buf_bytes buf)"
  shows "buf_ok (bufferMoveReadIndex buf n) \<and> buf_bytes (bufferMoveReadIndex buf n) = drop (unat n) (buf_bytes buf)"
proof -
  obtain d where d: "bf_data buf = Some d" "length d = unat (bf_size buf)" "0 < unat (bf_size buf)"
    "unat (bf_size buf) < 2 ^ 31"
    "unat (bf_readIndex buf) \<le> unat (bf_writeIndex buf)" "unat (bf_writeIndex buf) \<le> unat (bf_size buf)"
    using assms(1) by (rule buf_okE)
  note c = buf_counts [OF assms(1)]
  show ?thesis
  proof (cases "n < bufferReadableBytes buf")
    case True
    then have "unat n < length (buf_bytes buf)" using c(2) by (simp add: word_less_nat_alt)
    moreover from this have "unat (bf_readIndex buf + n) = unat (bf_readIndex buf) + unat n"
      using c(3) d by (simp add: unat_word_ariths)
    ultimately show ?thesis
      using True d c(3) by (auto simp: bufferMoveReadIndex_def buf_ok_def buf_bytes_def drop_take add.commute)
  next
    case False
    then have "length (buf_bytes buf) \<le> unat n" using c(2) by (simp add: word_less_nat_alt not_less)
    then have "drop (unat n) (buf_bytes buf) = []" by simp
    then show ?thesis
      using False d by (simp add: bufferMoveReadIndex_def bufferRetrieveAll_def kCheapPrepend_def buf_ok_def)
        (simp add: buf_bytes_def)
  qed
qed

lemma bufferCreate_ok:
  assumes "0 < unat n" "unat n < 2 ^ 31"
  shows "buf_ok (bufferCreate fill n)" "buf_bytes (bufferCreate fill n) = []"
proof -
  have "n \<noteq> 0" using assms(1) by auto
  then show "buf_ok (bufferCreate fill n)" "buf_bytes (bufferCreate fill n) = []"
    using assms by (simp_all add: bufferCreate_def buf_ok_def buf_bytes_def kCheapPrepend_def zmalloc_block_def)
qed

lemma bufferPrepend_inverted:
  assumes "buf_ok buf" "length bs < 2 ^ 31" "bs \<noteq> []"
  shows "bufferPrepend buf bs = (if length bs \<le> unat (bf_readIndex buf) then Some buf else None)"
proof -
  have u: "unat (of_nat (length bs) :: u32) = length bs" using assms(2) by (simp add: unat_of_nat)
  obtain d where d: "bf_data buf = Some d" "length d = unat (bf_size buf)" "unat (bf_size buf) < 2 ^ 31"
    using assms(1) by (rule buf_okE)
  show ?thesis
  proof (cases "length bs \<le> unat (bf_readIndex buf)")
    case True
    then show ?thesis by (simp add: bufferPrepend_def bufferPrependableBytes_def Let_def word_le_nat_alt u)
  next
    case False
    then have "unat (bf_readIndex buf - of_nat (length bs)) = 2 ^ 32 + unat (bf_readIndex buf) - length bs"
      using u by (simp add: unat_sub_if')
    then have "mem_write (bf_data buf) (unat (bf_readIndex buf - of_nat (length bs))) (take (length bs) bs) = None"
      using d assms(2) by (simp add: mem_write_def)
    then show ?thesis
      using False by (simp add: bufferPrepend_def bufferPrependableBytes_def Let_def word_le_nat_alt u)
  qed
qed

text \<open>
  A buffer created with size 0 gets a block on the first append, but its size stays 0: the
  room behind the write index is computed as almost 2 to the 32, and the second append writes
  beyond the block.
\<close>

lemma buffer_unsized:
  assumes "xs \<noteq> []" "ys \<noteq> []" "length xs + length ys < 2 ^ 32"
  shows "\<exists>b. bufferAppend fill (bufferCreate fill 0) xs = Some b \<and> bufferAppend fill b ys = None"
proof -
  have u: "unat (of_nat (length xs) :: u32) = length xs" "unat (of_nat (length ys) :: u32) = length ys"
    using assms(3) by (simp_all add: unat_of_nat)
  have "(0 :: u32) < of_nat (length xs)" using u assms(1) by (simp add: word_less_nat_alt)
  then have a: "bufferAppend fill (bufferCreate fill 0) xs =
    Some \<lparr>bf_writeIndex = of_nat (length xs), bf_readIndex = 0, bf_initSize = 0, bf_size = 0, bf_data = Some xs\<rparr>"
    using u by (simp add: bufferAppend_def bufferCreate_def bufferWriteableBytes_def bufferMakeSpace_def
      kCheapPrepend_def Let_def mem_write_def zmalloc_block_def)
  have "unat (0 - of_nat (length xs) :: u32) = 2 ^ 32 - length xs"
    using u assms(1) by (subst unat_sub_if') simp
  then have "\<not> of_nat (length ys) > (0 - of_nat (length xs) :: u32)"
    using u assms(3) by (simp add: word_less_nat_alt)
  then have "bufferAppend fill \<lparr>bf_writeIndex = of_nat (length xs), bf_readIndex = 0, bf_initSize = 0, bf_size = 0,
      bf_data = Some xs\<rparr> ys = None"
    using u assms(2) by (simp add: bufferAppend_def bufferWriteableBytes_def Let_def mem_write_def)
  with a show ?thesis by blast
qed

subsection \<open>Properties\<close>

text \<open>
  BufferAppend appends the data to the unread bytes and keeps the buffer well formed, whether
  it finds room at the end, moves the unread bytes to the front or doubles the block, exactly
  when the data fits the block or, behind the write index, twice the block. Otherwise it has
  doubled only once and its memcpy writes beyond the end of the block.
\<close>
theorem buffer_append:
  assumes "buf_ok buf" "unat (bf_size buf) < 2 ^ 30" "length bs < 2 ^ 32"
  shows "if buf_fits buf (length bs)
    then \<exists>b. bufferAppend fill buf bs = Some b \<and> buf_ok b \<and> buf_bytes b = buf_bytes buf @ bs \<and>
      unat (bf_size b) \<le> 2 * unat (bf_size buf)
    else bufferAppend fill buf bs = None"
  using bufferAppend_ok [OF assms(1,2), of bs fill] bufferAppend_overflow [OF assms(1,2) _ assms(3), of fill] by auto

lemma buffer_append_witness:
  "(\<exists>b. bufferAppend 0 (bufferCreate 0 4) [1, 2, 3, 4, 5] = Some b \<and> buf_bytes b = [1, 2, 3, 4, 5]) \<and>
    bufferAppend 0 (bufferCreate 0 4) [1, 2, 3, 4, 5, 6, 7, 8, 9] = None"
proof -
  have ok: "buf_ok (bufferCreate 0 4)" "buf_bytes (bufferCreate 0 4) = []"
    using bufferCreate_ok [of 4 0] by simp_all
  have sz: "unat (bf_size (bufferCreate 0 4)) = 4" "unat (bf_writeIndex (bufferCreate 0 4)) = 0"
    by (simp_all add: bufferCreate_def kCheapPrepend_def)
  show ?thesis
    using buffer_append [OF ok(1), of "[1, 2, 3, 4, 5]" 0] buffer_append [OF ok(1), of "[1, 2, 3, 4, 5, 6, 7, 8, 9]" 0]
    by (simp add: buf_fits_def ok(2) sz) auto
qed

end
