(* ===== verification/Framing.thy ===== *)
theory Framing
  imports Buffer
begin

section \<open>Message framing (src/proto.c, src/protocol.c)\<close>

text \<open>
  A message on the wire is a 4-byte little-endian length and that many bytes. Both files
  have a headMessageCallback that takes the complete messages out of the read buffer, proto.c
  for a \<open>struct socket\<close> and protocol.c for a \<open>struct session\<close> (which delivers only if the
  session has a callback); a length above 10 MB closes the connection. The bodies handed to
  the receiver are the result here, with whether the connection was closed.

  \<open>frames\<close> is the specification on byte strings. The theorems: the callback takes exactly the
  frames of the unread bytes out of the buffer and leaves the rest; the frames of an encoded
  sequence of messages are those messages, however the network cuts the bytes into pieces.
\<close>

definition kHeaderLen :: u32 where "kHeaderLen = 4"
definition kMinMessageLen :: u32 where "kMinMessageLen = 0"
definition kMaxMessageLen :: u32 where "kMaxMessageLen = 10 * 1024 * 1024"

datatype head_step =
    HStop                       \<comment> \<open>too few bytes\<close>
  | HClose                      \<comment> \<open>illegal length\<close>
  | HMessage "byte list" buffer \<comment> \<open>body, and the buffer behind it\<close>

text \<open>One round of the loop; \<open>None\<close> is a read outside the block.\<close>

definition head_round :: "buffer \<Rightarrow> head_step option" where
  "head_round buf =
     (if \<not> bufferReadableBytes buf \<ge> kMinMessageLen + kHeaderLen then Some HStop
      else case bufferPeekInt32 buf of
             None \<Rightarrow> None
           | Some len \<Rightarrow>
               if len > kMaxMessageLen \<or> len < kMinMessageLen then Some HClose
               else if bufferReadableBytes buf \<ge> len + kHeaderLen
               then (case mem_read (bf_data buf) (unat (bf_readIndex buf) + unat kHeaderLen) (unat len) of
                       None \<Rightarrow> None
                     | Some body \<Rightarrow> Some (HMessage body (bufferMoveReadIndex buf (len + kHeaderLen))))
               else Some HStop)"

text \<open>
  The loop of proto.c: the bodies, the buffer, whether socketForceClose was called. Each round
  but the last consumes a header, so \<open>n\<close> rounds suffice for \<open>n\<close> unread bytes; running out of
  rounds is \<open>None\<close>.
\<close>

fun head_loop :: "nat \<Rightarrow> buffer \<Rightarrow> (byte list list \<times> buffer \<times> bool) option" where
  "head_loop 0 buf = None"
| "head_loop (Suc n) buf =
     (case head_round buf of
        None \<Rightarrow> None
      | Some HStop \<Rightarrow> Some ([], buf, False)
      | Some HClose \<Rightarrow> Some ([], buf, True)
      | Some (HMessage body buf') \<Rightarrow> map_option (\<lambda>(bs, b, c). (body # bs, b, c)) (head_loop n buf'))"

definition headMessageCallback :: "buffer \<Rightarrow> (byte list list \<times> buffer \<times> bool) option" where
  "headMessageCallback buf = head_loop (unat (bufferReadableBytes buf) + 1) buf"

text \<open>The one of protocol.c; \<open>hasCb\<close> is whether \<open>cb->onProtoMessage\<close> is set.\<close>

definition sessionHeadMessageCallback :: "bool \<Rightarrow> buffer \<Rightarrow> (byte list list \<times> buffer \<times> bool) option" where
  "sessionHeadMessageCallback hasCb buf =
     map_option (\<lambda>(bs, b, c). (if hasCb then bs else [], b, c)) (headMessageCallback buf)"

text \<open>
  httpMessageCallback hands all unread bytes over, as they lie in the block, and gives the
  buffer a fresh block.
\<close>

definition httpMessageCallback :: "byte \<Rightarrow> buffer \<Rightarrow> (byte list \<times> buffer) option" where
  "httpMessageCallback fill buf =
     map_option (\<lambda>bs. (bs, bufferReset fill buf))
       (mem_read (bf_data buf) (unat (bf_readIndex buf)) (unat (bufferReadableBytes buf)))"

text \<open>The table \<open>protocbs\<close> indexed by protoType; entry 0 and a wrong index are asserted away.\<close>

definition onMessageCallback :: "byte \<Rightarrow> int \<Rightarrow> buffer \<Rightarrow> (byte list list \<times> buffer \<times> bool) option" where
  "onMessageCallback fill protoType buf =
     (if \<not> (0 < protoType \<and> protoType < 3) then None
      else if protoType = 1 then headMessageCallback buf
      else map_option (\<lambda>(bs, b). ([bs], b, False)) (httpMessageCallback fill buf))"

subsection \<open>The specification\<close>

definition max_len :: nat where "max_len = 10 * 1024 * 1024"

text \<open>The frames of a byte string, the bytes left over, and whether an illegal length stopped it.\<close>

function frames :: "byte list \<Rightarrow> byte list list \<times> byte list \<times> bool" where
  "frames s =
     (if length s < 4 then ([], s, False)
      else let len = le_val (take 4 s)
           in if len > max_len then ([], s, True)
              else if length s < len + 4 then ([], s, False)
              else case frames (drop (len + 4) s) of
                     (bs, r, c) \<Rightarrow> (take len (drop 4 s) # bs, r, c))"
  by pat_completeness auto
termination by (relation "measure length") auto

declare frames.simps [simp del]

definition frame :: "byte list \<Rightarrow> byte list" where
  "frame body = le_bytes 4 (length body) @ body"

subsection \<open>Refinement\<close>

lemma head_round_ok:
  assumes ok: "buf_ok buf"
  shows "head_round buf = Some
    (if length (buf_bytes buf) < 4 then HStop
     else let len = le_val (take 4 (buf_bytes buf))
          in if len > max_len then HClose
             else if length (buf_bytes buf) < len + 4 then HStop
             else HMessage (take len (drop 4 (buf_bytes buf))) (bufferMoveReadIndex buf (of_nat (len + 4))))"
proof (cases "length (buf_bytes buf) < 4")
  case True
  then show ?thesis using buf_counts(2) [OF ok]
    by (simp add: head_round_def kMinMessageLen_def kHeaderLen_def word_le_nat_alt)
next
  case False
  let ?s = "buf_bytes buf"
  let ?len = "le_val (take 4 ?s)"
  have l4: "?len < 2 ^ 32" using le_val_bound [of "take 4 ?s"] False by simp
  then have u: "unat (of_nat ?len :: u32) = ?len" by (simp add: unat_of_nat)
  have pk: "bufferPeekInt32 buf = Some (of_nat ?len)" using bufferPeekInt32_ok [OF ok] False by simp
  have gt: "(of_nat ?len :: u32) > kMaxMessageLen \<longleftrightarrow> ?len > max_len"
    using u by (simp add: kMaxMessageLen_def max_len_def word_less_nat_alt)
  have g4: "bufferReadableBytes buf \<ge> kMinMessageLen + kHeaderLen"
    using False buf_counts(2) [OF ok] by (simp add: kMinMessageLen_def kHeaderLen_def word_le_nat_alt)
  show ?thesis
  proof (cases "?len > max_len")
    case True
    then show ?thesis using pk gt g4 False by (simp add: head_round_def Let_def)
  next
    case len: False
    then have s4: "unat (of_nat ?len + kHeaderLen :: u32) = ?len + 4"
      using u by (simp add: kHeaderLen_def max_len_def unat_word_ariths)
    have ge: "bufferReadableBytes buf \<ge> of_nat ?len + kHeaderLen \<longleftrightarrow> \<not> length ?s < ?len + 4"
      using s4 buf_counts(2) [OF ok] by (simp add: word_le_nat_alt not_less)
    show ?thesis
    proof (cases "length ?s < ?len + 4")
      case True
      then show ?thesis using pk gt g4 False len ge by (simp add: head_round_def Let_def kMinMessageLen_def)
    next
      case fit: False
      have "mem_read (bf_data buf) (unat (bf_readIndex buf) + unat kHeaderLen) ?len = Some (take ?len (drop 4 ?s))"
        using mem_read_bytes [OF ok, of 4 ?len] fit by (simp add: kHeaderLen_def)
      then show ?thesis using pk gt g4 False len ge fit u
        by (simp add: head_round_def Let_def kMinMessageLen_def kHeaderLen_def)
    qed
  qed
qed

text \<open>The loop follows the specification, round by round.\<close>

lemma head_loop_ok:
  assumes "buf_ok buf" "length (buf_bytes buf) < n"
  shows "\<exists>b. head_loop n buf = Some (fst (frames (buf_bytes buf)), b, snd (snd (frames (buf_bytes buf)))) \<and>
    buf_ok b \<and> buf_bytes b = fst (snd (frames (buf_bytes buf))) \<and> bf_size b = bf_size buf"
  using assms
proof (induction n arbitrary: buf)
  case (Suc n)
  let ?s = "buf_bytes buf"
  let ?len = "le_val (take 4 ?s)"
  note hr = head_round_ok [OF Suc.prems(1)] and fr = frames.simps [of ?s]
  show ?case
  proof (cases "length ?s < 4 \<or> ?len > max_len \<or> length ?s < ?len + 4")
    case True
    then show ?thesis using hr fr Suc.prems(1) by (auto simp: Let_def)
  next
    case False
    let ?b = "bufferMoveReadIndex buf (of_nat (?len + 4))"
    have "unat (of_nat (?len + 4) :: u32) = (?len + 4) mod 2 ^ 32" by (subst unat_of_nat) simp
    also have "\<dots> = ?len + 4" using False by (simp add: max_len_def)
    finally have "unat (of_nat (?len + 4) :: u32) = ?len + 4" .
    then have b: "buf_ok ?b" "buf_bytes ?b = drop (?len + 4) ?s"
      using bufferMoveReadIndex_ok [OF Suc.prems(1), of "of_nat (?len + 4)"] False by auto
    have sz: "bf_size ?b = bf_size buf" by (simp add: bufferMoveReadIndex_def bufferRetrieveAll_def)
    have "length (buf_bytes ?b) < n" unfolding b(2) length_drop using Suc.prems(2) False by arith
    from Suc.IH [OF b(1) this] obtain b' where
      "head_loop n ?b = Some (fst (frames (drop (?len + 4) ?s)), b', snd (snd (frames (drop (?len + 4) ?s))))"
      "buf_ok b'" "buf_bytes b' = fst (snd (frames (drop (?len + 4) ?s)))" "bf_size b' = bf_size ?b"
      unfolding b(2) by blast
    then show ?thesis using hr fr False sz
      by (cases "frames (drop (?len + 4) ?s)") (auto simp: Let_def)
  qed
qed simp

lemma headMessageCallback_ok:
  assumes "buf_ok buf" "frames (buf_bytes buf) = (bs, rest, closed)"
  shows "\<exists>b. headMessageCallback buf = Some (bs, b, closed) \<and> buf_ok b \<and> buf_bytes b = rest \<and> bf_size b = bf_size buf"
  using head_loop_ok [OF assms(1), of "unat (bufferReadableBytes buf) + 1"] buf_counts(2) [OF assms(1)] assms(2)
  by (simp add: headMessageCallback_def)

subsection \<open>Frames of a stream\<close>

lemma frames_frame:
  assumes "length body \<le> max_len"
  shows "frames (frame body @ s) = (case frames s of (bs, r, c) \<Rightarrow> (body # bs, r, c))"
proof -
  have "le_val (le_bytes 4 (length body)) = length body"
    using assms by (simp add: le_val_le_bytes max_len_def)
  then show ?thesis using assms by (subst frames.simps) (simp add: frame_def Let_def)
qed

text \<open>Small frames, for evaluation.\<close>

lemma le_bytes_small:
  assumes "v < 256"
  shows "le_bytes 4 v = [of_nat v, 0, 0, 0]"
proof -
  have four: "(4 :: nat) = Suc (Suc (Suc (Suc 0)))" by simp
  show ?thesis unfolding four using assms by simp
qed

lemma frames_short: "length s < 4 \<Longrightarrow> frames s = ([], s, False)"
  by (subst frames.simps) simp

text \<open>More bytes never change what has been recognised.\<close>

lemma frames_append:
  "frames (s @ s') = (case frames s of
     (bs, r, True) \<Rightarrow> (bs, r @ s', True)
   | (bs, r, False) \<Rightarrow> (case frames (r @ s') of (bs', r', c) \<Rightarrow> (bs @ bs', r', c)))"
proof (induction s rule: frames.induct)
  case (1 s)
  let ?len = "le_val (take 4 s)"
  show ?case
  proof (cases "length s < 4")
    case True
    then show ?thesis by (simp add: frames_short)
  next
    case n4: False
    then have tk: "take 4 (s @ s') = take 4 s" by simp
    show ?thesis
    proof (cases "?len > max_len")
      case True
      then show ?thesis using n4 tk by (simp add: frames.simps [of "s @ s'"] frames.simps [of s] Let_def)
    next
      case small: False
      show ?thesis
      proof (cases "length s < ?len + 4")
        case True
        then have "frames s = ([], s, False)" using n4 small by (simp add: frames.simps [of s] Let_def)
        then show ?thesis by (cases "frames (s @ s')") simp
      next
        case fit: False
        have "frames (s @ s') = (case frames (drop (?len + 4) s @ s') of (bs, r, c) \<Rightarrow> (take ?len (drop 4 s) # bs, r, c))"
          using n4 small fit tk by (simp add: frames.simps [of "s @ s'"] Let_def)
        moreover have "frames s = (case frames (drop (?len + 4) s) of (bs, r, c) \<Rightarrow> (take ?len (drop 4 s) # bs, r, c))"
          using n4 small fit by (simp add: frames.simps [of s] Let_def)
        ultimately show ?thesis using "1.IH" [OF n4 refl small fit]
          by (auto split: prod.splits bool.splits)
      qed
    qed
  qed
qed

lemma frames_stream:
  assumes "\<forall>m \<in> set ms. length m \<le> max_len"
  shows "frames (concat (map frame ms) @ s) = (case frames s of (bs, r, c) \<Rightarrow> (ms @ bs, r, c))"
  using assms
proof (induction ms)
  case Nil
  then show ?case by (cases "frames s") simp
next
  case (Cons m ms)
  then show ?case by (cases "frames s") (simp add: frames_frame)
qed

text \<open>A prefix of an encoded sequence: whole messages, and less than a frame behind them.\<close>

lemma frames_prefix:
  assumes "p @ q = concat (map frame ms)" "\<forall>m \<in> set ms. length m \<le> M" "M \<le> max_len"
  shows "\<exists>k r. frames p = (take k ms, r, False) \<and> r @ q = concat (map frame (drop k ms)) \<and> length r < M + 4"
  using assms(1,2)
proof (induction ms arbitrary: p)
  case Nil
  then show ?case by (intro exI [of _ 0]) (simp add: frames_short)
next
  case (Cons m ms)
  have m: "length m \<le> M" "length m \<le> max_len" using Cons.prems(2) assms(3) by auto
  show ?case
  proof (cases "length p < 4 + length m")
    case True
    have "take (length p) (p @ q) = take (length p) (frame m)"
      using Cons.prems(1) True by (simp add: frame_def)
    then have p: "p = take (length p) (frame m)" by simp
    have "frames p = ([], p, False)"
    proof (cases "length p < 4")
      case False
      have "take 4 p = le_bytes 4 (length m)" using False by (subst p) (simp add: frame_def min_def)
      then have "le_val (take 4 p) = length m" using m by (simp add: le_val_le_bytes max_len_def)
      then show ?thesis using True False m by (subst frames.simps) simp
    qed (simp add: frames_short)
    then show ?thesis using Cons.prems(1) True m by (intro exI [of _ 0] exI [of _ p]) simp
  next
    case False
    define p' where "p' = drop (length (frame m)) p"
    have "take (length (frame m)) (p @ q) = frame m" using Cons.prems(1) by simp
    then have p: "p = frame m @ p'"
      using False append_take_drop_id [of "length (frame m)" p] by (simp add: p'_def frame_def)
    then have p2: "p' @ q = concat (map frame ms)" using Cons.prems(1) by simp
    obtain k r where "frames p' = (take k ms, r, False)" "r @ q = concat (map frame (drop k ms))" "length r < M + 4"
      using Cons.IH [OF p2] Cons.prems(2) by auto
    then show ?thesis using m p by (intro exI [of _ "Suc k"] exI [of _ r]) (simp add: frames_frame)
  qed
qed

subsection \<open>Feeding the network's chunks\<close>

text \<open>What onRead does for each chunk: append it, then call the callback.\<close>

fun feed :: "byte \<Rightarrow> buffer \<Rightarrow> byte list list \<Rightarrow> (byte list list \<times> buffer \<times> bool) option" where
  "feed fill buf [] = Some ([], buf, False)"
| "feed fill buf (c # cs) =
     (case bufferAppend fill buf c of
        None \<Rightarrow> None
      | Some b \<Rightarrow>
          (case headMessageCallback b of
             None \<Rightarrow> None
           | Some (bs, b', closed) \<Rightarrow>
               if closed then Some (bs, b', True)
               else map_option (\<lambda>(bs', b'', cl). (bs @ bs', b'', cl)) (feed fill b' cs)))"

lemma feed_ok:
  assumes "buf_ok buf" "unat (bf_size buf) < 2 ^ 30" "\<forall>m \<in> set ms. length m \<le> M" "M \<le> max_len"
    "\<forall>c \<in> set cs. length c + M + 4 \<le> unat (bf_size buf)"
    "buf_bytes buf @ concat cs = concat (map frame ms)" "length (buf_bytes buf) < M + 4"
    "frames (buf_bytes buf) = ([], buf_bytes buf, False)"
  shows "\<exists>b. feed fill buf cs = Some (ms, b, False) \<and> buf_bytes b = []"
  using assms
proof (induction cs arbitrary: buf ms)
  case Nil
  have "concat (map frame ms) = buf_bytes buf" using Nil.prems(6) by simp
  then have "frames (buf_bytes buf) = (ms, [], False)"
    using frames_stream [of ms "[]"] Nil.prems(3,4) by (simp add: frames_short) fastforce
  then show ?case using Nil.prems(8) by simp
next
  case (Cons c cs)
  have "length (buf_bytes buf) + length c \<le> unat (bf_size buf)" using Cons.prems(5,7) by auto
  moreover from this have "buf_fits buf (length c)" by (simp add: buf_fits_def)
  ultimately obtain b where b: "bufferAppend fill buf c = Some b" "buf_ok b" "buf_bytes b = buf_bytes buf @ c"
    "bf_size b = bf_size buf"
    using bufferAppend_ok [OF Cons.prems(1,2), of c fill] by blast
  have pre: "buf_bytes b @ concat cs = concat (map frame ms)" using Cons.prems(6) b(3) by simp
  obtain k r where k: "frames (buf_bytes b) = (take k ms, r, False)"
    "r @ concat cs = concat (map frame (drop k ms))" "length r < M + 4"
    using frames_prefix [OF pre Cons.prems(3,4)] by blast
  obtain b' where b': "headMessageCallback b = Some (take k ms, b', False)" "buf_ok b'" "buf_bytes b' = r"
    "bf_size b' = bf_size b"
    using headMessageCallback_ok [OF b(2) k(1)] by blast
  have "frames r = ([], r, False)"
    using frames_append [of "buf_bytes b" "[]"] k(1) by (cases "frames r") auto
  moreover have "\<forall>m \<in> set (drop k ms). length m \<le> M" using Cons.prems(3) by (meson in_set_dropD)
  ultimately have "\<exists>b''. feed fill b' cs = Some (drop k ms, b'', False) \<and> buf_bytes b'' = []"
    using Cons.IH [of b' "drop k ms"] Cons.prems(2,4,5) b b' k by auto
  then show ?case using b(1) b'(1) by auto
qed

subsection \<open>Properties\<close>

text \<open>
  HeadMessageCallback delivers exactly the complete frames of the unread bytes, in order,
  leaves exactly the bytes behind them in the buffer, closes the connection exactly when the
  next frame announces more than 10 MB, always returns, and never reads outside the block.
\<close>
theorem head_message_frames:
  assumes "buf_ok buf"
  shows "\<exists>b. headMessageCallback buf = Some (fst (frames (buf_bytes buf)), b, snd (snd (frames (buf_bytes buf)))) \<and>
    buf_ok b \<and> buf_bytes b = fst (snd (frames (buf_bytes buf)))"
  using headMessageCallback_ok [OF assms, of "fst (frames (buf_bytes buf))"] by (metis prod.collapse)

definition buf_frame_example :: buffer where
  "buf_frame_example = \<lparr>bf_writeIndex = 7, bf_readIndex = 1, bf_initSize = 8, bf_size = 8,
     bf_data = Some [9, 1, 0, 0, 0, 65, 2, 0]\<rparr>"

lemma head_message_frames_witness:
  "\<exists>b. headMessageCallback buf_frame_example = Some ([[65]], b, False) \<and> buf_bytes b = [2]"
proof -
  have ok: "buf_ok buf_frame_example" by (simp add: buf_ok_def buf_frame_example_def)
  have bytes: "buf_bytes buf_frame_example = frame [65] @ [2]"
    by (simp add: buf_bytes_def buf_frame_example_def frame_def le_bytes_small)
  have "frames (buf_bytes buf_frame_example) = ([[65]], [2], False)"
    unfolding bytes by (subst frames_frame) (simp_all add: max_len_def frames_short)
  with head_message_frames [OF ok] show ?thesis by auto
qed

text \<open>
  C9: framing is independent of how the network cuts the stream. If the pieces a peer's encoded
  messages arrive in are appended and handled one by one, in a buffer that has room for one
  piece behind an incomplete message, then exactly those messages are delivered, in order, and
  the buffer ends empty.
\<close>
theorem head_message_chunks:
  assumes "unat sz < 2 ^ 30" "0 < unat sz" "\<forall>m \<in> set ms. length m \<le> M" "M \<le> max_len"
    "\<forall>c \<in> set cs. length c + M + 4 \<le> unat sz" "concat cs = concat (map frame ms)"
  shows "\<exists>b. feed fill (bufferCreate fill sz) cs = Some (ms, b, False) \<and> buf_bytes b = []"
proof -
  note c = bufferCreate_ok [of sz fill]
  have sz: "bf_size (bufferCreate fill sz) = sz" by (simp add: bufferCreate_def)
  show ?thesis
    by (rule feed_ok) (use assms c sz in \<open>simp_all add: frames_short\<close>)
qed

lemma head_message_chunks_witness:
  "\<exists>b. feed 0 (bufferCreate 0 64) [[2, 0], [0, 0, 72], [105, 0, 0, 0], [0]] = Some ([[72, 105], []], b, False) \<and>
     buf_bytes b = []"
proof -
  have "concat [[2, 0], [0, 0, 72], [105, 0, 0, 0], [0]] = concat (map frame [[72, 105], []])"
    by (simp add: frame_def le_bytes_small)
  then show ?thesis
    by (intro head_message_chunks [where M = 2]) (simp_all add: max_len_def)
qed

end
