(* ===== verification/Dict.thy ===== *)
theory Dict
  imports Prelude "HOL-Library.Multiset"
begin

section \<open>The hash table (src/dict.c)\<close>

text \<open>
  dict.c is a chained hash table with two tables, so that growing moves one bucket per
  operation. A chain is the list of its entries, a table the list of its chains, and a table
  that was never allocated is \<open>None\<close>; an index outside a table, a failed assert and a chain
  followed from a missing entry are \<open>None\<close> results.

  Keys are passed by their contents. The functions of \<open>dictType\<close> that hash and compare them
  are the record \<open>dictType\<close>, under the contract \<open>dict_type\<close>: comparing is an equivalence
  and hashes agree on equal keys. The copying functions are NULL in every type of the program,
  and the destructors only free. Sizes, masks and counts (unsigned long) are natural numbers,
  since they are bounded by the memory, with the conversion to int of a bucket index written
  out; \<open>cr\<close> is the global dict_can_resize.

  The invariant \<open>dict_ok\<close> is kept by every operation, none of them goes wrong, and each acts
  on the entries, whatever the state of the move between the tables, as its counterpart on
  maps: this is \<open>kv_store\<close>, the interface the users of the table rely on.
\<close>

unbundle bit_operations_syntax

subsection \<open>Hash functions\<close>

definition dictIntHashFunction :: "u32 \<Rightarrow> u32" where
  "dictIntHashFunction key0 =
     (let key1 = key0 + NOT (push_bit 15 key0);
          key2 = key1 XOR drop_bit 10 key1;
          key3 = key2 + push_bit 3 key2;
          key4 = key3 XOR drop_bit 6 key3;
          key5 = key4 + NOT (push_bit 11 key4)
      in key5 XOR drop_bit 16 key5)"

definition dictIdentityHashFunction :: "u32 \<Rightarrow> u32" where
  "dictIdentityHashFunction key = key"

definition dict_hash_function_seed :: u32 where "dict_hash_function_seed = 5381"

definition murmur_m :: u32 where "murmur_m = 0x5bd1e995"

text \<open>The loop over groups of four bytes: the hash, and the up to three bytes left.\<close>

fun murmur_loop :: "u32 \<Rightarrow> byte list \<Rightarrow> u32 \<times> byte list" where
  "murmur_loop h (a # b # c # d # data) =
     (let k1 = of_nat (le_val [a, b, c, d]) * murmur_m;
          k2 = k1 XOR drop_bit 24 k1;
          k3 = k2 * murmur_m
      in murmur_loop ((h * murmur_m) XOR k3) data)"
| "murmur_loop h data = (h, data)"

definition murmur_tail :: "u32 \<Rightarrow> byte list \<Rightarrow> u32" where
  "murmur_tail h data =
     (case data of
        [a, b, c] \<Rightarrow> ((h XOR push_bit 16 (ucast c) XOR push_bit 8 (ucast b)) XOR ucast a) * murmur_m
      | [a, b] \<Rightarrow> ((h XOR push_bit 8 (ucast b)) XOR ucast a) * murmur_m
      | [a] \<Rightarrow> (h XOR ucast a) * murmur_m
      | _ \<Rightarrow> h)"

definition dictGenHashFunction :: "u32 \<Rightarrow> byte list \<Rightarrow> u32" where
  "dictGenHashFunction seed key =
     (let h0 = seed XOR of_nat (length key);
          h1 = (case murmur_loop h0 key of (h, data) \<Rightarrow> murmur_tail h data);
          h2 = h1 XOR drop_bit 13 h1;
          h3 = h2 * murmur_m
      in h3 XOR drop_bit 15 h3)"

text \<open>tolower of the C locale.\<close>

definition tolower_c :: "byte \<Rightarrow> u32" where
  "tolower_c c = (if 65 \<le> c \<and> c \<le> 90 then ucast c + 32 else ucast c)"

definition dictGenCaseHashFunction :: "u32 \<Rightarrow> byte list \<Rightarrow> u32" where
  "dictGenCaseHashFunction seed buf = foldl (\<lambda>h c. push_bit 5 h + h + tolower_c c) seed buf"

subsection \<open>Data\<close>

record 'k dictType =
  hashFunction :: "'k \<Rightarrow> u32"
  keyCompare :: "'k \<Rightarrow> 'k \<Rightarrow> bool"

record ('k, 'v) dictht =
  ht_table :: "('k \<times> 'v) list list ptr"
  ht_size :: nat
  ht_sizemask :: nat
  ht_used :: nat

record ('k, 'v) dict =
  d_ht0 :: "('k, 'v) dictht"
  d_ht1 :: "('k, 'v) dictht"
  d_rehashidx :: int
  d_iterators :: int

definition DICT_HT_INITIAL_SIZE :: nat where "DICT_HT_INITIAL_SIZE = 4"
definition dict_force_resize_ratio :: nat where "dict_force_resize_ratio = 5"
definition LONG_MAX :: nat where "LONG_MAX = 2 ^ 63 - 1"

definition dictReset :: "('k, 'v) dictht" where
  "dictReset = \<lparr>ht_table = None, ht_size = 0, ht_sizemask = 0, ht_used = 0\<rparr>"

definition dictCreate :: "('k, 'v) dict" where
  "dictCreate = \<lparr>d_ht0 = dictReset, d_ht1 = dictReset, d_rehashidx = - 1, d_iterators = 0\<rparr>"

definition dictIsRehashing :: "('k, 'v) dict \<Rightarrow> bool" where
  "dictIsRehashing d \<longleftrightarrow> d_rehashidx d \<noteq> - 1"

definition dictSize :: "('k, 'v) dict \<Rightarrow> nat" where
  "dictSize d = ht_used (d_ht0 d) + ht_used (d_ht1 d)"

definition dictHashKey :: "'k dictType \<Rightarrow> 'k \<Rightarrow> nat" where
  "dictHashKey ty k = unat (hashFunction ty k)"

subsection \<open>Growing\<close>

text \<open>The doubling loop stops at the first power of two that is large enough.\<close>

function next_power_from :: "nat \<Rightarrow> nat \<Rightarrow> nat" where
  "next_power_from i n = (if i \<ge> n \<or> i = 0 then i else next_power_from (i * 2) n)"
  by pat_completeness auto
termination by (relation "measure (\<lambda>(i, n). n - i)") auto

declare next_power_from.simps [simp del]

definition dictNextPower :: "nat \<Rightarrow> nat" where
  "dictNextPower n = (if n \<ge> LONG_MAX then LONG_MAX else next_power_from DICT_HT_INITIAL_SIZE n)"

text \<open>The first component is DICT_OK.\<close>

definition dictExpand :: "('k, 'v) dict \<Rightarrow> nat \<Rightarrow> bool \<times> ('k, 'v) dict" where
  "dictExpand d n =
     (let realsize = dictNextPower n
      in if dictIsRehashing d \<or> ht_used (d_ht0 d) > n then (False, d)
         else let t = \<lparr>ht_table = Some (replicate realsize []), ht_size = realsize, ht_sizemask = realsize - 1, ht_used = 0\<rparr>
              in if ht_table (d_ht0 d) = None then (True, d\<lparr>d_ht0 := t\<rparr>)
                 else (True, d\<lparr>d_ht1 := t, d_rehashidx := 0\<rparr>))"

definition dictResize :: "bool \<Rightarrow> ('k, 'v) dict \<Rightarrow> bool \<times> ('k, 'v) dict" where
  "dictResize cr d =
     (if \<not> cr \<or> dictIsRehashing d then (False, d)
      else dictExpand d (max DICT_HT_INITIAL_SIZE (ht_used (d_ht0 d))))"

definition dictExpandIfNeeded :: "bool \<Rightarrow> ('k, 'v) dict \<Rightarrow> bool \<times> ('k, 'v) dict" where
  "dictExpandIfNeeded cr d =
     (if dictIsRehashing d then (True, d)
      else if ht_size (d_ht0 d) = 0 then dictExpand d DICT_HT_INITIAL_SIZE
      else if ht_used (d_ht0 d) \<ge> ht_size (d_ht0 d) \<and>
          (cr \<or> ht_used (d_ht0 d) div ht_size (d_ht0 d) > dict_force_resize_ratio)
      then dictExpand d (ht_used (d_ht0 d) * 2)
      else (True, d))"

subsection \<open>Moving a bucket\<close>

text \<open>The loop that skips empty buckets; running off the table is \<open>None\<close>.\<close>

function skip_empty :: "'a list list \<Rightarrow> nat \<Rightarrow> nat option" where
  "skip_empty t i = (if i \<ge> length t then None else if t ! i \<noteq> [] then Some i else skip_empty t (Suc i))"
  by pat_completeness auto
termination by (relation "measure (\<lambda>(t, i). length t - i)") auto

declare skip_empty.simps [simp del]

text \<open>One entry is put at the head of its chain in table \<open>ht\<close>.\<close>

definition ht_link :: "nat \<Rightarrow> 'k \<times> 'v \<Rightarrow> ('k, 'v) dictht \<Rightarrow> ('k, 'v) dictht option" where
  "ht_link h e ht =
     (case ht_table ht of
        None \<Rightarrow> None
      | Some t \<Rightarrow> if h < length t
                  then Some (ht\<lparr>ht_table := Some (t[h := e # t ! h]), ht_used := ht_used ht + 1\<rparr>) else None)"

fun move_chain :: "'k dictType \<Rightarrow> ('k \<times> 'v) list \<Rightarrow> ('k, 'v) dictht \<Rightarrow> ('k, 'v) dictht option" where
  "move_chain ty [] ht = Some ht"
| "move_chain ty (e # es) ht =
     (case ht_link (dictHashKey ty (fst e) AND ht_sizemask ht) e ht of
        None \<Rightarrow> None
      | Some ht' \<Rightarrow> move_chain ty es ht')"

text \<open>The loop of dictRehash; the first component of the result is whether keys are left to move.\<close>

fun rehash_loop :: "'k dictType \<Rightarrow> nat \<Rightarrow> ('k, 'v) dict \<Rightarrow> (bool \<times> ('k, 'v) dict) option" where
  "rehash_loop ty 0 d = Some (True, d)"
| "rehash_loop ty (Suc n) d =
     (if ht_used (d_ht0 d) = 0
      then Some (False, d\<lparr>d_ht0 := d_ht1 d, d_ht1 := dictReset, d_rehashidx := - 1\<rparr>)
      else if \<not> ht_size (d_ht0 d) > nat (d_rehashidx d) then None
      else case ht_table (d_ht0 d) of
             None \<Rightarrow> None
           | Some t \<Rightarrow>
               (case skip_empty t (nat (d_rehashidx d)) of
                  None \<Rightarrow> None
                | Some i \<Rightarrow>
                    (case move_chain ty (t ! i) (d_ht1 d) of
                       None \<Rightarrow> None
                     | Some ht1 \<Rightarrow>
                         rehash_loop ty n
                           (d\<lparr>d_ht0 := (d_ht0 d)\<lparr>ht_table := Some (t[i := []]),
                                                ht_used := ht_used (d_ht0 d) - length (t ! i)\<rparr>,
                              d_ht1 := ht1, d_rehashidx := int i + 1\<rparr>))))"

definition dictRehash :: "'k dictType \<Rightarrow> ('k, 'v) dict \<Rightarrow> nat \<Rightarrow> (bool \<times> ('k, 'v) dict) option" where
  "dictRehash ty d n = (if \<not> dictIsRehashing d then Some (False, d) else rehash_loop ty n d)"

definition dictRehashStep :: "'k dictType \<Rightarrow> ('k, 'v) dict \<Rightarrow> ('k, 'v) dict option" where
  "dictRehashStep ty d = (if d_iterators d = 0 then map_option snd (dictRehash ty d 1) else Some d)"

text \<open>The start of the operations: \<open>if (dictIsRehashing(d)) _dictRehashStep(d)\<close>.\<close>

definition step_if_rehashing :: "'k dictType \<Rightarrow> ('k, 'v) dict \<Rightarrow> ('k, 'v) dict option" where
  "step_if_rehashing ty d = (if dictIsRehashing d then dictRehashStep ty d else Some d)"

subsection \<open>Adding, finding, removing\<close>

text \<open>Walking a chain.\<close>

fun chain_find :: "'k dictType \<Rightarrow> 'k \<Rightarrow> ('k \<times> 'v) list \<Rightarrow> ('k \<times> 'v) option" where
  "chain_find ty k [] = None"
| "chain_find ty k (e # es) = (if keyCompare ty k (fst e) then Some e else chain_find ty k es)"

text \<open>The chain of table \<open>ht\<close> at \<open>h & sizemask\<close>.\<close>

definition ht_chain :: "nat \<Rightarrow> ('k, 'v) dictht \<Rightarrow> ('k \<times> 'v) list option" where
  "ht_chain h ht =
     (case ht_table ht of
        None \<Rightarrow> None
      | Some t \<Rightarrow> if h AND ht_sizemask ht < length t then Some (t ! (h AND ht_sizemask ht)) else None)"

text \<open>The index of the bucket for a new key, \<open>-1\<close> if it is there or the table cannot grow; as an int.\<close>

definition dictKeyIndex :: "bool \<Rightarrow> 'k dictType \<Rightarrow> ('k, 'v) dict \<Rightarrow> 'k \<Rightarrow> (int \<times> ('k, 'v) dict) option" where
  "dictKeyIndex cr ty d0 k =
     (case dictExpandIfNeeded cr d0 of
        (False, d) \<Rightarrow> Some (- 1, d)
      | (True, d) \<Rightarrow>
          (let h = dictHashKey ty k
           in case ht_chain h (d_ht0 d) of
                None \<Rightarrow> None
              | Some c0 \<Rightarrow>
                  if chain_find ty k c0 \<noteq> None then Some (- 1, d)
                  else if \<not> dictIsRehashing d
                  then Some (sint (of_nat (h AND ht_sizemask (d_ht0 d)) :: u32), d)
                  else (case ht_chain h (d_ht1 d) of
                          None \<Rightarrow> None
                        | Some c1 \<Rightarrow>
                            if chain_find ty k c1 \<noteq> None then Some (- 1, d)
                            else Some (sint (of_nat (h AND ht_sizemask (d_ht1 d)) :: u32), d))))"

text \<open>
  dictAddRaw returns the new entry, whose value the caller fills in at once: that value is \<open>v\<close>
  here. The first component of the result is whether there is a new entry.
\<close>

definition dictAddRaw :: "bool \<Rightarrow> 'k dictType \<Rightarrow> ('k, 'v) dict \<Rightarrow> 'k \<Rightarrow> 'v \<Rightarrow> (bool \<times> ('k, 'v) dict) option" where
  "dictAddRaw cr ty d0 k v =
     (case step_if_rehashing ty d0 of
        None \<Rightarrow> None
      | Some d1 \<Rightarrow>
          (case dictKeyIndex cr ty d1 k of
             None \<Rightarrow> None
           | Some (index, d) \<Rightarrow>
               if index = - 1 then Some (False, d)
               else if index < 0 then None
               else if dictIsRehashing d
               then map_option (\<lambda>ht. (True, d\<lparr>d_ht1 := ht\<rparr>)) (ht_link (nat index) (k, v) (d_ht1 d))
               else map_option (\<lambda>ht. (True, d\<lparr>d_ht0 := ht\<rparr>)) (ht_link (nat index) (k, v) (d_ht0 d))))"

definition dictAdd :: "bool \<Rightarrow> 'k dictType \<Rightarrow> ('k, 'v) dict \<Rightarrow> 'k \<Rightarrow> 'v \<Rightarrow> (bool \<times> ('k, 'v) dict) option" where
  "dictAdd cr ty d k v = dictAddRaw cr ty d k v"

text \<open>dictFind: the entry, and the table after the step of the move.\<close>

definition dictFind :: "'k dictType \<Rightarrow> ('k, 'v) dict \<Rightarrow> 'k \<Rightarrow> (('k \<times> 'v) option \<times> ('k, 'v) dict) option" where
  "dictFind ty d0 k =
     (if ht_size (d_ht0 d0) = 0 then Some (None, d0)
      else case step_if_rehashing ty d0 of
             None \<Rightarrow> None
           | Some d \<Rightarrow>
               (case ht_chain (dictHashKey ty k) (d_ht0 d) of
                  None \<Rightarrow> None
                | Some c0 \<Rightarrow>
                    if chain_find ty k c0 \<noteq> None then Some (chain_find ty k c0, d)
                    else if \<not> dictIsRehashing d then Some (None, d)
                    else map_option (\<lambda>c1. (chain_find ty k c1, d)) (ht_chain (dictHashKey ty k) (d_ht1 d))))"

definition dictFetchValue :: "'k dictType \<Rightarrow> ('k, 'v) dict \<Rightarrow> 'k \<Rightarrow> ('v option \<times> ('k, 'v) dict) option" where
  "dictFetchValue ty d k = map_option (\<lambda>(he, d'). (map_option snd he, d')) (dictFind ty d k)"

text \<open>Unlinking the first matching entry of a chain.\<close>

fun chain_unlink :: "'k dictType \<Rightarrow> 'k \<Rightarrow> ('k \<times> 'v) list \<Rightarrow> ('k \<times> 'v) list" where
  "chain_unlink ty k [] = []"
| "chain_unlink ty k (e # es) = (if keyCompare ty k (fst e) then es else e # chain_unlink ty k es)"

text \<open>One turn of the loop over the tables: \<open>Some None\<close> when the key is not in the table.\<close>

definition ht_delete :: "'k dictType \<Rightarrow> 'k \<Rightarrow> ('k, 'v) dictht \<Rightarrow> ('k, 'v) dictht option option" where
  "ht_delete ty k ht =
     (let idx = dictHashKey ty k AND ht_sizemask ht
      in case ht_table ht of
           None \<Rightarrow> None
         | Some t \<Rightarrow>
             if \<not> idx < length t then None
             else if chain_find ty k (t ! idx) = None then Some None
             else Some (Some (ht\<lparr>ht_table := Some (t[idx := chain_unlink ty k (t ! idx)]),
                                 ht_used := ht_used ht - 1\<rparr>)))"

text \<open>The loop over the two tables.\<close>

definition delete_in :: "'k dictType \<Rightarrow> 'k \<Rightarrow> ('k, 'v) dict \<Rightarrow> (bool \<times> ('k, 'v) dict) option" where
  "delete_in ty k d =
     (case ht_delete ty k (d_ht0 d) of
        None \<Rightarrow> None
      | Some (Some ht) \<Rightarrow> Some (True, d\<lparr>d_ht0 := ht\<rparr>)
      | Some None \<Rightarrow>
          if \<not> dictIsRehashing d then Some (False, d)
          else (case ht_delete ty k (d_ht1 d) of
                  None \<Rightarrow> None
                | Some (Some ht) \<Rightarrow> Some (True, d\<lparr>d_ht1 := ht\<rparr>)
                | Some None \<Rightarrow> Some (False, d)))"

definition dictGenericDelete :: "'k dictType \<Rightarrow> ('k, 'v) dict \<Rightarrow> 'k \<Rightarrow> (bool \<times> ('k, 'v) dict) option" where
  "dictGenericDelete ty d0 k =
     (if ht_size (d_ht0 d0) = 0 then Some (False, d0)
      else case step_if_rehashing ty d0 of
             None \<Rightarrow> None
           | Some d \<Rightarrow> delete_in ty k d)"

definition dictDelete :: "'k dictType \<Rightarrow> ('k, 'v) dict \<Rightarrow> 'k \<Rightarrow> (bool \<times> ('k, 'v) dict) option" where
  "dictDelete ty d k = dictGenericDelete ty d k"

subsection \<open>Invariant and abstraction\<close>

definition ht_chains :: "('k, 'v) dictht \<Rightarrow> ('k \<times> 'v) list list" where
  "ht_chains ht = (case ht_table ht of None \<Rightarrow> [] | Some t \<Rightarrow> t)"

definition dict_list :: "('k, 'v) dict \<Rightarrow> ('k \<times> 'v) list" where
  "dict_list d = concat (ht_chains (d_ht0 d)) @ concat (ht_chains (d_ht1 d))"

text \<open>The map a table stands for.\<close>

definition dict_view :: "'k dictType \<Rightarrow> ('k, 'v) dict \<Rightarrow> 'k \<Rightarrow> 'v option" where
  "dict_view ty d k = map_option snd (chain_find ty k (dict_list d))"

text \<open>Every entry in the chain its hash selects; a power of two of chains, not more than 2 to the 31.\<close>

definition ht_ok :: "'k dictType \<Rightarrow> ('k, 'v) dictht \<Rightarrow> bool" where
  "ht_ok ty ht \<longleftrightarrow>
     (case ht_table ht of
        None \<Rightarrow> ht_size ht = 0 \<and> ht_sizemask ht = 0 \<and> ht_used ht = 0
      | Some t \<Rightarrow> (\<exists>n \<in> {2..31}. ht_size ht = 2 ^ n) \<and> ht_sizemask ht = ht_size ht - 1 \<and> length t = ht_size ht \<and>
          ht_used ht = length (concat t) \<and>
          (\<forall>i < length t. \<forall>e \<in> set (t ! i). dictHashKey ty (fst e) AND ht_sizemask ht = i))"

text \<open>No two entries with equal keys.\<close>

definition uniq :: "'k dictType \<Rightarrow> ('k \<times> 'v) multiset \<Rightarrow> bool" where
  "uniq ty M \<longleftrightarrow> (\<forall>e \<in># M. size (filter_mset (\<lambda>f. keyCompare ty (fst e) (fst f)) M) \<le> 1)"

definition dict_ok :: "'k dictType \<Rightarrow> ('k, 'v) dict \<Rightarrow> bool" where
  "dict_ok ty d \<longleftrightarrow> ht_ok ty (d_ht0 d) \<and> ht_ok ty (d_ht1 d) \<and> uniq ty (mset (dict_list d)) \<and>
     (if dictIsRehashing d
      then ht_table (d_ht0 d) \<noteq> None \<and> ht_table (d_ht1 d) \<noteq> None \<and> 0 \<le> d_rehashidx d \<and>
        (\<forall>i < length (ht_chains (d_ht0 d)). i < nat (d_rehashidx d) \<longrightarrow> ht_chains (d_ht0 d) ! i = [])
      else ht_table (d_ht1 d) = None)"

subsection \<open>Lists of chains\<close>

lemma mset_concat_update:
  "i < length t \<Longrightarrow> mset (concat (t[i := c])) + mset (t ! i) = mset (concat t) + mset c"
proof (induction t arbitrary: i)
  case (Cons x t)
  then show ?case by (cases i) (auto simp: ac_simps)
qed simp

lemma concat_split: "i < length t \<Longrightarrow> concat t = concat (take i t) @ t ! i @ concat (drop (Suc i) t)"
  by (subst id_take_nth_drop [of i t]) simp_all

lemma in_concat_nth: "e \<in> set (concat t) \<longleftrightarrow> (\<exists>i < length t. e \<in> set (t ! i))"
  by simp (metis in_set_conv_nth)

lemma length_concat_0: "length (concat t) = 0 \<longleftrightarrow> (\<forall>i < length t. t ! i = [])"
  by (simp add: all_set_conv_all_nth)

lemma nat_and_mask: "h AND (2 ^ n - 1) = (h :: nat) mod 2 ^ n"
  by (metis mask_eq_exp_minus_1 take_bit_eq_mask take_bit_eq_mod)

lemma skip_empty_ok:
  assumes "j \<le> m" "m < length t" "t ! m \<noteq> []"
  shows "\<exists>i. skip_empty t j = Some i \<and> j \<le> i \<and> i < length t \<and> t ! i \<noteq> [] \<and> (\<forall>l. j \<le> l \<and> l < i \<longrightarrow> t ! l = [])"
  using assms
proof (induction t j rule: skip_empty.induct)
  case (1 t j)
  show ?case
  proof (cases "t ! j = []")
    case True
    then have "Suc j \<le> m" using "1.prems" by (metis le_neq_implies_less Suc_leI)
    from "1.IH" [OF _ _ this "1.prems"(2,3)] True "1.prems" obtain i where
      i: "skip_empty t (Suc j) = Some i" "Suc j \<le> i" "i < length t" "t ! i \<noteq> []"
      "\<forall>l. Suc j \<le> l \<and> l < i \<longrightarrow> t ! l = []" by auto
    moreover have "skip_empty t j = skip_empty t (Suc j)"
      using True "1.prems" by (subst skip_empty.simps) simp
    moreover have "\<forall>l. j \<le> l \<and> l < i \<longrightarrow> t ! l = []"
      using i(5) True by (metis Suc_leI le_neq_implies_less)
    ultimately show ?thesis by (intro exI [of _ i]) simp
  next
    case False
    then show ?thesis using "1.prems" by (subst skip_empty.simps) (intro exI [of _ j], auto)
  qed
qed

lemma next_power_from_pow:
  assumes "n \<le> 2 ^ m" "j \<le> m"
  shows "\<exists>l. j \<le> l \<and> l \<le> m \<and> next_power_from (2 ^ j) n = 2 ^ l \<and> n \<le> 2 ^ l"
  using assms
proof (induction "m - j" arbitrary: j)
  case 0
  then show ?case by (subst next_power_from.simps) auto
next
  case (Suc x)
  show ?case
  proof (cases "n \<le> 2 ^ j")
    case True
    then show ?thesis using Suc.prems by (subst next_power_from.simps) auto
  next
    case False
    then have "next_power_from (2 ^ j) n = next_power_from (2 ^ Suc j) n"
      by (subst next_power_from.simps) (simp add: mult.commute)
    then show ?thesis using Suc.hyps(1) [of "Suc j"] Suc.hyps(2) Suc.prems by fastforce
  qed
qed

text \<open>The table doubles to the next power of two.\<close>

lemma dictNextPower_ok:
  assumes "n \<le> 2 ^ 31"
  shows "\<exists>l \<in> {2..31}. dictNextPower n = 2 ^ l \<and> n \<le> 2 ^ l"
  using next_power_from_pow [of n 31 2] assms
  by (auto simp: dictNextPower_def LONG_MAX_def DICT_HT_INITIAL_SIZE_def)

subsection \<open>The contract of a dictType\<close>

locale dict_type =
  fixes ty :: "'k dictType"
  assumes cmp_refl: "keyCompare ty k k"
    and cmp_sym: "keyCompare ty k l \<Longrightarrow> keyCompare ty l k"
    and cmp_trans: "keyCompare ty k l \<Longrightarrow> keyCompare ty l m \<Longrightarrow> keyCompare ty k m"
    and hash_cong: "keyCompare ty k l \<Longrightarrow> hashFunction ty k = hashFunction ty l"
begin

lemma cmp_eq: "keyCompare ty k l \<Longrightarrow> keyCompare ty k m = keyCompare ty l m"
  using cmp_sym cmp_trans by blast

lemma chain_find_None: "chain_find ty k xs = None \<longleftrightarrow> (\<forall>e \<in> set xs. \<not> keyCompare ty k (fst e))"
  by (induction xs) auto

lemma chain_find_append:
  "chain_find ty k (xs @ ys) = (case chain_find ty k xs of None \<Rightarrow> chain_find ty k ys | Some e \<Rightarrow> Some e)"
  by (induction xs) auto

lemma chain_find_SomeD: "chain_find ty k xs = Some e \<Longrightarrow> e \<in> set xs \<and> keyCompare ty k (fst e)"
  by (induction xs) (auto split: if_splits)

text \<open>With distinct keys, the entry found is the only one that matches.\<close>

lemma uniq_same:
  assumes "uniq ty M" "e \<in># M" "f \<in># M" "keyCompare ty (fst e) (fst f)"
  shows "e = f"
proof (rule ccontr)
  assume "e \<noteq> f"
  then have "{#e, f#} \<subseteq># M"
    using assms(2,3) by (simp add: insert_subset_eq_iff in_diff_count)
  then have "filter_mset (\<lambda>g. keyCompare ty (fst e) (fst g)) {#e, f#} \<subseteq># filter_mset (\<lambda>g. keyCompare ty (fst e) (fst g)) M"
    by (rule multiset_filter_mono)
  moreover have "size (filter_mset (\<lambda>g. keyCompare ty (fst e) (fst g)) {#e, f#}) = 2"
    using assms(4) cmp_refl by simp
  ultimately have "2 \<le> size (filter_mset (\<lambda>g. keyCompare ty (fst e) (fst g)) M)"
    by (metis size_mset_mono)
  with assms(1,2) show False by (auto simp: uniq_def)
qed

lemma uniq_add_mset:
  assumes "uniq ty M" "\<forall>f \<in># M. \<not> keyCompare ty (fst e) (fst f)"
  shows "uniq ty (add_mset e M)"
proof -
  have "filter_mset (\<lambda>f. keyCompare ty (fst e) (fst f)) M = {#}"
    using assms(2) by (simp add: filter_mset_eq_conv)
  moreover have "\<not> keyCompare ty (fst f) (fst e)" if "f \<in># M" for f
    using assms(2) that cmp_sym by blast
  ultimately show ?thesis using assms(1) cmp_refl by (auto simp: uniq_def)
qed

lemma uniq_sub:
  assumes "uniq ty M" "N \<subseteq># M"
  shows "uniq ty N"
proof -
  have "size (filter_mset P N) \<le> size (filter_mset P M)" for P
    using multiset_filter_mono [OF assms(2)] by (rule size_mset_mono)
  then show ?thesis using assms mset_subset_eqD [OF assms(2)] unfolding uniq_def
    by (meson order_trans)
qed

lemma chain_find_eq_Some:
  assumes "uniq ty (mset xs)"
  shows "chain_find ty k xs = Some e \<longleftrightarrow> e \<in> set xs \<and> keyCompare ty k (fst e)"
proof
  assume *: "e \<in> set xs \<and> keyCompare ty k (fst e)"
  then obtain f where f: "chain_find ty k xs = Some f"
    using chain_find_None [of k xs] by fastforce
  then have "f \<in> set xs" "keyCompare ty (fst e) (fst f)"
    using chain_find_SomeD [OF f] * cmp_eq by blast+
  then show "chain_find ty k xs = Some e" using uniq_same [OF assms, of e f] * f by simp
qed (rule chain_find_SomeD)

lemma chain_find_mset:
  assumes "uniq ty (mset xs)" "mset xs = mset ys"
  shows "chain_find ty k xs = chain_find ty k ys"
proof -
  have "chain_find ty k xs = Some e \<longleftrightarrow> chain_find ty k ys = Some e" for e
    using chain_find_eq_Some assms mset_eq_setD [OF assms(2)] by metis
  then show ?thesis by (metis option.exhaust)
qed

lemma mset_chain_unlink:
  "chain_find ty k xs = Some e \<Longrightarrow> mset xs = add_mset e (mset (chain_unlink ty k xs))"
  by (induction xs) (auto split: if_splits)

subsection \<open>One table\<close>

lemma ht_okD:
  assumes "ht_ok ty ht" "ht_table ht = Some t"
  shows "\<exists>n \<in> {2..31}. ht_size ht = 2 ^ n \<and> ht_sizemask ht = 2 ^ n - 1 \<and> length t = 2 ^ n"
    "ht_used ht = length (concat t)" "ht_sizemask ht = ht_size ht - 1" "length t = ht_size ht"
    "i < length t \<Longrightarrow> e \<in> set (t ! i) \<Longrightarrow> dictHashKey ty (fst e) AND ht_sizemask ht = i"
    "\<exists>n \<in> {2..31}. ht_size ht = 2 ^ n"
  using assms by (auto simp: ht_ok_def)

lemma ht_table_None: "ht_ok ty ht \<Longrightarrow> ht_table ht = None \<longleftrightarrow> ht_size ht = 0"
  by (cases "ht_table ht") (auto simp: ht_ok_def)

lemma and_mask_less:
  assumes "ht_ok ty ht" "ht_table ht = Some t"
  shows "h AND ht_sizemask ht < length t"
proof -
  obtain n where "ht_sizemask ht = 2 ^ n - 1" "length t = 2 ^ n" using ht_okD(1) [OF assms] by blast
  then show ?thesis using nat_and_mask [of h n] by simp
qed

text \<open>The chain the hash selects holds every entry that matches.\<close>

lemma chain_find_bucket:
  assumes "ht_ok ty ht" "ht_table ht = Some t"
  shows "chain_find ty k (t ! (dictHashKey ty k AND ht_sizemask ht)) = chain_find ty k (concat t)"
proof -
  let ?i = "dictHashKey ty k AND ht_sizemask ht"
  have i: "?i < length t" by (rule and_mask_less [OF assms])
  have other: "\<not> keyCompare ty k (fst e)" if "j < length t" "e \<in> set (t ! j)" "j \<noteq> ?i" for j e
    using ht_okD(5) [OF assms that(1,2)] that(3) hash_cong [of k "fst e"] by (auto simp: dictHashKey_def)
  have "\<not> keyCompare ty k (fst e)" if e: "e \<in> set (concat (take ?i t))" for e
  proof -
    obtain j where "j < length (take ?i t)" "e \<in> set (take ?i t ! j)" using e unfolding in_concat_nth by blast
    then show ?thesis using other [of j e] i by simp
  qed
  then have "chain_find ty k (concat (take ?i t)) = None" by (simp only: chain_find_None) blast
  moreover have "\<not> keyCompare ty k (fst e)" if e: "e \<in> set (concat (drop (Suc ?i) t))" for e
  proof -
    obtain j where "j < length (drop (Suc ?i) t)" "e \<in> set (drop (Suc ?i) t ! j)" using e unfolding in_concat_nth by blast
    then show ?thesis using other [of "Suc (?i + j)" e] i by simp
  qed
  then have "chain_find ty k (concat (drop (Suc ?i) t)) = None" by (simp only: chain_find_None) blast
  ultimately show ?thesis
    by (subst concat_split [OF i]) (simp add: chain_find_append split: option.split)
qed

lemma ht_chain_ok:
  assumes "ht_ok ty ht" "ht_table ht = Some t"
  shows "\<exists>c. ht_chain (dictHashKey ty k) ht = Some c \<and> chain_find ty k c = chain_find ty k (concat (ht_chains ht))"
  using chain_find_bucket [OF assms] and_mask_less [OF assms] assms(2) by (simp add: ht_chain_def ht_chains_def)

lemma ht_link_ok:
  assumes "ht_ok ty ht" "ht_table ht = Some t" "h = dictHashKey ty (fst e) AND ht_sizemask ht"
  shows "\<exists>ht' t'. ht_link h e ht = Some ht' \<and> ht_ok ty ht' \<and> ht_table ht' = Some t' \<and>
    mset (concat t') = add_mset e (mset (concat t)) \<and> ht_size ht' = ht_size ht \<and> ht_sizemask ht' = ht_sizemask ht"
proof -
  have h: "h < length t" using and_mask_less [OF assms(1,2)] assms(3) by simp
  let ?t = "t[h := e # t ! h]"
  have m: "mset (concat ?t) = add_mset e (mset (concat t))"
    using mset_concat_update [OF h, of "e # t ! h"] by simp
  then have "length (concat ?t) = Suc (length (concat t))" by (metis size_mset size_add_mset)
  moreover have "dictHashKey ty (fst f) AND ht_sizemask ht = i" if "i < length t" "f \<in> set (?t ! i)" for i f
    using that assms(3) ht_okD(5) [OF assms(1,2) that(1), of f] by (cases "i = h") auto
  ultimately have "ht_ok ty (ht\<lparr>ht_table := Some ?t, ht_used := ht_used ht + 1\<rparr>)"
    using ht_okD(2,3,4,6) [OF assms(1,2)] by (simp add: ht_ok_def)
  then show ?thesis using assms(2) h m by (simp add: ht_link_def)
qed

lemma ht_clear_bucket:
  assumes "ht_ok ty ht" "ht_table ht = Some t" "i < length t" "set c \<subseteq> set (t ! i)"
  shows "ht_ok ty (ht\<lparr>ht_table := Some (t[i := c]), ht_used := length (concat (t[i := c]))\<rparr>)"
proof -
  have "dictHashKey ty (fst f) AND ht_sizemask ht = j" if "j < length t" "f \<in> set (t[i := c] ! j)" for j f
    using that assms(4) ht_okD(5) [OF assms(1,2) that(1), of f] by (cases "j = i") auto
  then show ?thesis using ht_okD(2,3,4,6) [OF assms(1,2)] by (simp add: ht_ok_def)
qed

lemma ht_delete_ok:
  assumes "ht_ok ty ht" "ht_table ht = Some t"
  shows "case chain_find ty k (concat t) of
      None \<Rightarrow> ht_delete ty k ht = Some None
    | Some e \<Rightarrow> \<exists>ht' t'. ht_delete ty k ht = Some (Some ht') \<and> ht_ok ty ht' \<and> ht_table ht' = Some t' \<and>
        mset (concat t) = add_mset e (mset (concat t')) \<and> length t' = length t \<and>
        (\<forall>i < length t. t ! i = [] \<longrightarrow> t' ! i = [])"
proof -
  let ?i = "dictHashKey ty k AND ht_sizemask ht"
  have i: "?i < length t" by (rule and_mask_less [OF assms])
  note b = chain_find_bucket [OF assms, of k]
  show ?thesis
  proof (cases "chain_find ty k (concat t)")
    case None
    then show ?thesis using b i assms(2) by (simp add: ht_delete_def Let_def)
  next
    case (Some e)
    let ?c = "chain_unlink ty k (t ! ?i)"
    let ?t = "t[?i := ?c]"
    have u: "mset (t ! ?i) = add_mset e (mset ?c)" using b Some by (simp add: mset_chain_unlink)
    then have m: "mset (concat t) = add_mset e (mset (concat ?t))"
      using mset_concat_update [OF i, of ?c] by simp
    then have len: "length (concat t) = Suc (length (concat ?t))" by (metis size_mset size_add_mset)
    have "set ?c \<subseteq> set (t ! ?i)" using u by (metis mset_subset_eq_add_right set_mset_mset set_mset_mono add_mset_add_single mset_subset_eq_add_left)
    from ht_clear_bucket [OF assms i this]
    have ok: "ht_ok ty (ht\<lparr>ht_table := Some ?t, ht_used := ht_used ht - 1\<rparr>)"
      using ht_okD(2) [OF assms] len by simp
    have "ht_delete ty k ht = Some (Some (ht\<lparr>ht_table := Some ?t, ht_used := ht_used ht - 1\<rparr>))"
      using i b Some assms(2) by (simp add: ht_delete_def Let_def)
    moreover have "\<forall>j < length t. t ! j = [] \<longrightarrow> ?t ! j = []"
      using u by (metis add_mset_not_empty mset.simps(1) nth_list_update_neq)
    ultimately show ?thesis using ok m Some by simp
  qed
qed

subsection \<open>The move between the tables\<close>

lemma move_chain_ok:
  assumes "ht_ok ty ht" "ht_table ht = Some t"
  shows "\<exists>ht' t'. move_chain ty es ht = Some ht' \<and> ht_ok ty ht' \<and> ht_table ht' = Some t' \<and>
    mset (concat t') = mset es + mset (concat t)"
  using assms
proof (induction es arbitrary: ht t)
  case (Cons e es)
  obtain ht1 t1 where l: "ht_link (dictHashKey ty (fst e) AND ht_sizemask ht) e ht = Some ht1" "ht_ok ty ht1"
    "ht_table ht1 = Some t1" "mset (concat t1) = add_mset e (mset (concat t))"
    using ht_link_ok [OF Cons.prems refl] by blast
  then show ?case using Cons.IH [OF l(2,3)] by simp
qed simp

lemma dict_okE:
  assumes "dict_ok ty d" "dictIsRehashing d"
  obtains t0 t1 where "ht_table (d_ht0 d) = Some t0" "ht_table (d_ht1 d) = Some t1"
    "ht_ok ty (d_ht0 d)" "ht_ok ty (d_ht1 d)" "uniq ty (mset (concat t0 @ concat t1))" "0 \<le> d_rehashidx d"
    "\<forall>i < length t0. i < nat (d_rehashidx d) \<longrightarrow> t0 ! i = []" "dict_list d = concat t0 @ concat t1"
  using assms by (auto simp: dict_ok_def dict_list_def ht_chains_def)

text \<open>One turn of the loop that moves a bucket.\<close>

lemma rehash_bucket:
  assumes ok: "dict_ok ty d" "dictIsRehashing d" and used: "ht_used (d_ht0 d) \<noteq> 0"
  shows "\<exists>d'. rehash_loop ty (Suc n) d = rehash_loop ty n d' \<and> dict_ok ty d' \<and> dictIsRehashing d' \<and>
    mset (dict_list d') = mset (dict_list d) \<and> d_iterators d' = d_iterators d \<and>
    ht_used (d_ht0 d') < ht_used (d_ht0 d)"
proof -
  obtain t0 t1 where t: "ht_table (d_ht0 d) = Some t0" "ht_table (d_ht1 d) = Some t1"
    "ht_ok ty (d_ht0 d)" "ht_ok ty (d_ht1 d)" "uniq ty (mset (concat t0 @ concat t1))" "0 \<le> d_rehashidx d"
    "\<forall>i < length t0. i < nat (d_rehashidx d) \<longrightarrow> t0 ! i = []" "dict_list d = concat t0 @ concat t1"
    using ok by (rule dict_okE)
  note o0 = ht_okD [OF t(3,1)]
  obtain m where m: "m < length t0" "t0 ! m \<noteq> []" using used o0(2) length_concat_0 [of t0] by auto
  then have jm: "nat (d_rehashidx d) \<le> m" using t(7) by (meson not_le)
  obtain i where i: "skip_empty t0 (nat (d_rehashidx d)) = Some i" "nat (d_rehashidx d) \<le> i" "i < length t0"
    "t0 ! i \<noteq> []" "\<forall>l. nat (d_rehashidx d) \<le> l \<and> l < i \<longrightarrow> t0 ! l = []"
    using skip_empty_ok [of "nat (d_rehashidx d)" m t0] jm m by blast
  obtain ht1 t1' where mv: "move_chain ty (t0 ! i) (d_ht1 d) = Some ht1" "ht_ok ty ht1" "ht_table ht1 = Some t1'"
    "mset (concat t1') = mset (t0 ! i) + mset (concat t1)"
    using move_chain_ok [OF t(4,2)] by blast
  let ?t0 = "t0[i := []]"
  define d' where "d' = d\<lparr>d_ht0 := (d_ht0 d)\<lparr>ht_table := Some ?t0, ht_used := ht_used (d_ht0 d) - length (t0 ! i)\<rparr>,
    d_ht1 := ht1, d_rehashidx := int i + 1\<rparr>"
  have m0: "mset (concat ?t0) + mset (t0 ! i) = mset (concat t0)"
    using mset_concat_update [OF i(3), of "[]"] by simp
  then have len: "length (concat ?t0) + length (t0 ! i) = length (concat t0)"
    by (metis size_mset size_union)
  have "ht_used (d_ht0 d) - length (t0 ! i) = length (concat ?t0)" using len o0(2) by linarith
  then have ok0: "ht_ok ty (d_ht0 d')"
    using ht_clear_bucket [OF t(3,1) i(3), of "[]"] by (simp add: d'_def)
  have list: "dict_list d' = concat ?t0 @ concat t1'" by (simp add: d'_def dict_list_def ht_chains_def mv(3))
  have bag: "mset (dict_list d') = mset (dict_list d)" using m0 by (simp add: list t(8) mv(4) ac_simps)
  have before: "t0 ! l = []" if "l < i" for l
    using that t(7) i(3,5) by (cases "l < nat (d_rehashidx d)") (auto simp: not_less)
  have "dict_ok ty d'"
    using ok0 mv(2) bag t(5,8) mv(3) before
    by (simp add: dict_ok_def dictIsRehashing_def ht_chains_def) (auto simp: d'_def nth_list_update less_Suc_eq nat_add_distrib)
  moreover have "rehash_loop ty (Suc n) d = rehash_loop ty n d'"
    using used t(1) i(1) mv(1) jm m(1) o0(4) by (simp add: d'_def)
  moreover have "ht_used (d_ht0 d') < ht_used (d_ht0 d)"
    using i(4) used by (simp add: d'_def)
  moreover have "dictIsRehashing d'" "d_iterators d' = d_iterators d" by (simp_all add: d'_def dictIsRehashing_def)
  ultimately show ?thesis using bag by blast
qed

lemma rehash_loop_ok:
  assumes "dict_ok ty d" "dictIsRehashing d"
  shows "\<exists>b d'. rehash_loop ty n d = Some (b, d') \<and> dict_ok ty d' \<and> mset (dict_list d') = mset (dict_list d) \<and>
    d_iterators d' = d_iterators d \<and> ht_table (d_ht0 d') \<noteq> None \<and> b = dictIsRehashing d' \<and>
    (ht_used (d_ht0 d) < n \<longrightarrow> \<not> b)"
  using assms
proof (induction n arbitrary: d)
  case 0
  then show ?case using dict_okE [OF 0] by (metis option.distinct(1) rehash_loop.simps(1) not_less_zero)
next
  case (Suc n)
  obtain t0 t1 where t: "ht_table (d_ht0 d) = Some t0" "ht_table (d_ht1 d) = Some t1"
    "ht_ok ty (d_ht0 d)" "ht_ok ty (d_ht1 d)" "uniq ty (mset (concat t0 @ concat t1))"
    "dict_list d = concat t0 @ concat t1"
    using Suc.prems by (elim dict_okE)
  show ?case
  proof (cases "ht_used (d_ht0 d) = 0")
    case True
    then have e: "concat t0 = []" using ht_okD(2) [OF t(3,1)] by simp
    then have "uniq ty (mset (concat t1))" using t(5) by (simp only: append_Nil)
    then show ?thesis using True t(2,4,6) e
      by (simp add: dict_ok_def dict_list_def ht_chains_def dictReset_def ht_ok_def [of ty dictReset, unfolded dictReset_def]
        dictIsRehashing_def) (rule exI [of _ False], simp)
  next
    case False
    obtain d' where d': "rehash_loop ty (Suc n) d = rehash_loop ty n d'" "dict_ok ty d'" "dictIsRehashing d'"
      "mset (dict_list d') = mset (dict_list d)" "d_iterators d' = d_iterators d"
      "ht_used (d_ht0 d') < ht_used (d_ht0 d)"
      using rehash_bucket [OF Suc.prems False] by blast
    obtain b d'' where r: "rehash_loop ty n d' = Some (b, d'')" "dict_ok ty d''"
      "mset (dict_list d'') = mset (dict_list d')" "d_iterators d'' = d_iterators d'" "ht_table (d_ht0 d'') \<noteq> None"
      "b = dictIsRehashing d''" "ht_used (d_ht0 d') < n \<longrightarrow> \<not> b"
      using Suc.IH [OF d'(2,3)] by blast
    have "ht_used (d_ht0 d) < Suc n \<longrightarrow> \<not> b" using r(7) d'(6) by auto
    then show ?thesis unfolding d'(1) using r d'(4,5) by (intro exI [of _ b] exI [of _ d'']) simp
  qed
qed

lemma step_if_rehashing_ok:
  assumes "dict_ok ty d"
  shows "\<exists>d'. step_if_rehashing ty d = Some d' \<and> dict_ok ty d' \<and> mset (dict_list d') = mset (dict_list d) \<and>
    d_iterators d' = d_iterators d \<and> (ht_table (d_ht0 d) \<noteq> None \<longrightarrow> ht_table (d_ht0 d') \<noteq> None) \<and>
    (d_iterators d \<noteq> 0 \<longrightarrow> d' = d)"
proof (cases "dictIsRehashing d \<and> d_iterators d = 0")
  case True
  then show ?thesis using rehash_loop_ok [OF assms, of 1] 
    by (auto simp: step_if_rehashing_def dictRehashStep_def dictRehash_def simp del: rehash_loop.simps)
next
  case False
  then show ?thesis using assms by (auto simp: step_if_rehashing_def dictRehashStep_def)
qed

subsection \<open>The operations\<close>

lemma dict_search:
  assumes ok: "dict_ok ty d" and t: "ht_table (d_ht0 d) \<noteq> None"
  shows "\<exists>c0. ht_chain (dictHashKey ty k) (d_ht0 d) = Some c0 \<and>
    (\<not> dictIsRehashing d \<longrightarrow> chain_find ty k (dict_list d) = chain_find ty k c0) \<and>
    (dictIsRehashing d \<longrightarrow> (\<exists>c1. ht_chain (dictHashKey ty k) (d_ht1 d) = Some c1 \<and>
       chain_find ty k (dict_list d) = (case chain_find ty k c0 of None \<Rightarrow> chain_find ty k c1 | Some e \<Rightarrow> Some e)))"
proof -
  have o: "ht_ok ty (d_ht0 d)" "ht_ok ty (d_ht1 d)" using ok by (simp_all add: dict_ok_def)
  obtain t0 where t0: "ht_table (d_ht0 d) = Some t0" using t by blast
  obtain c0 where c0: "ht_chain (dictHashKey ty k) (d_ht0 d) = Some c0"
    "chain_find ty k c0 = chain_find ty k (concat (ht_chains (d_ht0 d)))"
    using ht_chain_ok [OF o(1) t0] by blast
  show ?thesis
  proof (cases "dictIsRehashing d")
    case True
    then obtain t1 where "ht_table (d_ht1 d) = Some t1" using ok by (auto simp: dict_ok_def)
    from ht_chain_ok [OF o(2) this] obtain c1 where "ht_chain (dictHashKey ty k) (d_ht1 d) = Some c1"
      "chain_find ty k c1 = chain_find ty k (concat (ht_chains (d_ht1 d)))" by blast
    then show ?thesis using c0 True by (simp add: dict_list_def chain_find_append split: option.split)
  next
    case False
    then have "ht_chains (d_ht1 d) = []" using ok by (simp add: dict_ok_def ht_chains_def)
    then show ?thesis using c0 False by (simp add: dict_list_def)
  qed
qed

lemma ht_fresh_ok:
  "l \<in> {2..31} \<Longrightarrow> ht_ok ty \<lparr>ht_table = Some (replicate (2 ^ l) []), ht_size = 2 ^ l, ht_sizemask = 2 ^ l - 1, ht_used = 0\<rparr>"
  by (auto simp: ht_ok_def)

lemma dictExpand_ok:
  fixes d :: "('k, 'v) dict"
  assumes ok: "dict_ok ty d" "\<not> dictIsRehashing d" and n: "ht_used (d_ht0 d) \<le> n" "n \<le> 2 ^ 31"
  shows "\<exists>d'. dictExpand d n = (True, d') \<and> dict_ok ty d' \<and> dict_list d' = dict_list d \<and>
    ht_table (d_ht0 d') \<noteq> None \<and> d_iterators d' = d_iterators d"
proof -
  obtain l where l: "l \<in> {2..31}" "dictNextPower n = 2 ^ l" using dictNextPower_ok [OF n(2)] by blast
  define t :: "('k, 'v) dictht" where
    "t = \<lparr>ht_table = Some (replicate (2 ^ l) []), ht_size = 2 ^ l, ht_sizemask = 2 ^ l - 1, ht_used = 0\<rparr>"
  have t: "ht_ok ty t" "ht_table t = Some (replicate (2 ^ l) [])" using ht_fresh_ok [OF l(1)] by (simp_all add: t_def)
  have "dictExpand d n = (True, if ht_table (d_ht0 d) = None then d\<lparr>d_ht0 := t\<rparr> else d\<lparr>d_ht1 := t, d_rehashidx := 0\<rparr>)"
    using ok(2) n(1) l(2) by (simp add: dictExpand_def t_def not_less Let_def)
  then show ?thesis using ok t
    by (auto simp: dict_ok_def dict_list_def ht_chains_def dictIsRehashing_def)
qed

lemma dictExpandIfNeeded_ok:
  assumes ok: "dict_ok ty d" and room: "dictSize d < 2 ^ 30"
  shows "\<exists>d'. dictExpandIfNeeded cr d = (True, d') \<and> dict_ok ty d' \<and> dict_list d' = dict_list d \<and>
    ht_table (d_ht0 d') \<noteq> None \<and> d_iterators d' = d_iterators d"
proof -
  have used: "ht_used (d_ht0 d) < 2 ^ 30" using room by (simp add: dictSize_def)
  have zero: "ht_table (d_ht0 d) = None \<longleftrightarrow> ht_size (d_ht0 d) = 0"
    using ok ht_table_None by (auto simp: dict_ok_def)
  show ?thesis
  proof (cases "dictIsRehashing d")
    case True
    then show ?thesis using ok by (auto simp: dictExpandIfNeeded_def dict_ok_def)
  next
    case False
    show ?thesis
    proof (cases "ht_size (d_ht0 d) = 0")
      case True
      then have "ht_used (d_ht0 d) = 0" using zero ok by (simp add: dict_ok_def ht_ok_def)
      with dictExpand_ok [OF ok False, of 4] show ?thesis using False True
        by (simp add: dictExpandIfNeeded_def DICT_HT_INITIAL_SIZE_def)
    next
      case size: False
      with dictExpand_ok [OF ok False, of "ht_used (d_ht0 d) * 2"] show ?thesis using False used zero ok
        by (auto simp: dictExpandIfNeeded_def)
    qed
  qed
qed

text \<open>The count of a table is the number of its entries.\<close>

lemma dictSize_eq: "dict_ok ty d \<Longrightarrow> dictSize d = length (dict_list d)"
  by (auto simp: dict_ok_def dictSize_def dict_list_def ht_chains_def ht_ok_def length_concat split: option.splits)

lemma dictSize_bag:
  assumes "dict_ok ty d" "dict_ok ty d'" "mset (dict_list d') = mset (dict_list d)"
  shows "dictSize d' = dictSize d"
  using assms dictSize_eq by (metis size_mset)

lemma int_index: "n < 2 ^ 31 \<Longrightarrow> sint (of_nat n :: u32) = int n"
  by (subst sint_unat32) (simp_all add: unat_of_nat)

lemma int_index_mask:
  assumes "ht_ok ty ht" "ht_table ht \<noteq> None"
  shows "sint (of_nat (h AND ht_sizemask ht) :: u32) = int (h AND ht_sizemask ht)"
proof -
  obtain t where t: "ht_table ht = Some t" using assms(2) by blast
  obtain n where "n \<le> 31" "length t = 2 ^ n" using ht_okD(1) [OF assms(1) t] by auto
  then have "h AND ht_sizemask ht < 2 ^ 31"
    using and_mask_less [OF assms(1) t, of h] power_increasing [of n 31 "2 :: nat"] by simp
  then show ?thesis by (rule int_index)
qed

lemma dict_tables:
  assumes "dict_ok ty d"
  shows "ht_size (d_ht0 d) = 0 \<Longrightarrow> ht_table (d_ht0 d) = None \<and> ht_table (d_ht1 d) = None"
    "ht_size (d_ht0 d) \<noteq> 0 \<Longrightarrow> ht_table (d_ht0 d) \<noteq> None"
  using assms ht_table_None [of "d_ht0 d"] by (auto simp: dict_ok_def split: if_splits)

lemma dictFind_ok:
  assumes ok: "dict_ok ty d"
  shows "\<exists>d'. dictFind ty d k = Some (chain_find ty k (dict_list d), d') \<and> dict_ok ty d' \<and>
    mset (dict_list d') = mset (dict_list d) \<and> (d_iterators d \<noteq> 0 \<longrightarrow> d' = d)"
proof (cases "ht_size (d_ht0 d) = 0")
  case True
  then show ?thesis using dict_tables(1) [OF ok] ok True by (auto simp: dictFind_def dict_list_def ht_chains_def)
next
  case False
  note t = dict_tables(2) [OF ok False]
  obtain d' where d': "step_if_rehashing ty d = Some d'" "dict_ok ty d'" "mset (dict_list d') = mset (dict_list d)"
    "ht_table (d_ht0 d') \<noteq> None" "d_iterators d \<noteq> 0 \<longrightarrow> d' = d"
    using step_if_rehashing_ok [OF ok] t by blast
  have eq: "chain_find ty k (dict_list d) = chain_find ty k (dict_list d')"
    using chain_find_mset d'(2,3) by (metis dict_ok_def)
  obtain c0 where c: "ht_chain (dictHashKey ty k) (d_ht0 d') = Some c0"
    "\<not> dictIsRehashing d' \<longrightarrow> chain_find ty k (dict_list d') = chain_find ty k c0"
    "dictIsRehashing d' \<longrightarrow> (\<exists>c1. ht_chain (dictHashKey ty k) (d_ht1 d') = Some c1 \<and>
       chain_find ty k (dict_list d') = (case chain_find ty k c0 of None \<Rightarrow> chain_find ty k c1 | Some e \<Rightarrow> Some e))"
    using dict_search [OF d'(2,4)] by blast
  have "dictFind ty d k = Some (chain_find ty k (dict_list d'), d')"
    using False c by (cases "dictIsRehashing d'"; cases "chain_find ty k c0") (auto simp: dictFind_def d'(1))
  then show ?thesis using eq d' by simp
qed

lemma dictKeyIndex_ok:
  assumes ok: "dict_ok ty d" and room: "dictSize d < 2 ^ 30"
  shows "\<exists>i d'. dictKeyIndex cr ty d k = Some (i, d') \<and> dict_ok ty d' \<and> dict_list d' = dict_list d \<and>
    d_iterators d' = d_iterators d \<and> (if chain_find ty k (dict_list d) \<noteq> None then i = - 1
     else i = int (dictHashKey ty k AND ht_sizemask (if dictIsRehashing d' then d_ht1 d' else d_ht0 d'))) \<and>
    ht_table (d_ht0 d') \<noteq> None"
proof -
  obtain d' where d': "dictExpandIfNeeded cr d = (True, d')" "dict_ok ty d'" "dict_list d' = dict_list d"
    "ht_table (d_ht0 d') \<noteq> None" "d_iterators d' = d_iterators d"
    using dictExpandIfNeeded_ok [OF ok room] by blast
  obtain c0 where c: "ht_chain (dictHashKey ty k) (d_ht0 d') = Some c0"
    "\<not> dictIsRehashing d' \<longrightarrow> chain_find ty k (dict_list d') = chain_find ty k c0"
    "dictIsRehashing d' \<longrightarrow> (\<exists>c1. ht_chain (dictHashKey ty k) (d_ht1 d') = Some c1 \<and>
       chain_find ty k (dict_list d') = (case chain_find ty k c0 of None \<Rightarrow> chain_find ty k c1 | Some e \<Rightarrow> Some e))"
    using dict_search [OF d'(2,4)] by blast
  note s0 = int_index_mask [of "d_ht0 d'"] and s1 = int_index_mask [of "d_ht1 d'"]
  show ?thesis
  proof (cases "dictIsRehashing d'")
    case True
    then obtain c1 where c1: "ht_chain (dictHashKey ty k) (d_ht1 d') = Some c1"
       "chain_find ty k (dict_list d') = (case chain_find ty k c0 of None \<Rightarrow> chain_find ty k c1 | Some e \<Rightarrow> Some e)"
      using c(3) by blast
    have "ht_ok ty (d_ht1 d')" "ht_table (d_ht1 d') \<noteq> None" using d'(2) True by (auto simp: dict_ok_def)
    from s1 [OF this] show ?thesis using True c(1) c1 d'
      by (cases "chain_find ty k c0") (auto simp: dictKeyIndex_def Let_def)
  next
    case False
    have "ht_ok ty (d_ht0 d')" using d'(2) by (simp add: dict_ok_def)
    from s0 [OF this d'(4)] show ?thesis using False c d'
      by (auto simp: dictKeyIndex_def Let_def)
  qed
qed

lemma dictAddRaw_ok:
  assumes ok: "dict_ok ty d" and room: "dictSize d < 2 ^ 30"
  shows "\<exists>d'. dictAddRaw cr ty d k v = Some (chain_find ty k (dict_list d) = None, d') \<and> dict_ok ty d' \<and>
    mset (dict_list d') = (if chain_find ty k (dict_list d) = None then add_mset (k, v) (mset (dict_list d))
      else mset (dict_list d))"
proof -
  obtain d1 where d1: "step_if_rehashing ty d = Some d1" "dict_ok ty d1" "mset (dict_list d1) = mset (dict_list d)"
    using step_if_rehashing_ok [OF ok] by blast
  have eq: "chain_find ty k (dict_list d) = chain_find ty k (dict_list d1)"
    using chain_find_mset d1(2,3) by (metis dict_ok_def)
  have room1: "dictSize d1 < 2 ^ 30" using room dictSize_bag [OF ok d1(2,3)] by simp
  obtain i d2 where d2: "dictKeyIndex cr ty d1 k = Some (i, d2)" "dict_ok ty d2" "dict_list d2 = dict_list d1"
    "if chain_find ty k (dict_list d1) \<noteq> None then i = - 1
     else i = int (dictHashKey ty k AND ht_sizemask (if dictIsRehashing d2 then d_ht1 d2 else d_ht0 d2))"
    "ht_table (d_ht0 d2) \<noteq> None"
    using dictKeyIndex_ok [OF d1(2) room1] by blast
  show ?thesis
  proof (cases "chain_find ty k (dict_list d1) = None")
    case False
    then show ?thesis using d1 d2 eq by (auto simp: dictAddRaw_def)
  next
    case new: True
    then have fresh: "\<forall>f \<in># mset (dict_list d2). \<not> keyCompare ty (fst (k, v)) (fst f)"
      using d2(3) by (simp only: chain_find_None) simp
    have u: "uniq ty (mset (dict_list d2))" and o: "ht_ok ty (d_ht0 d2)" "ht_ok ty (d_ht1 d2)"
      using d2(2) by (simp_all add: dict_ok_def)
    note ua = uniq_add_mset [OF u fresh]
    show ?thesis
    proof (cases "dictIsRehashing d2")
      case True
      then obtain t where t: "ht_table (d_ht1 d2) = Some t" using d2(2) by (auto simp: dict_ok_def)
      obtain ht' t' where l: "ht_link (dictHashKey ty k AND ht_sizemask (d_ht1 d2)) (k, v) (d_ht1 d2) = Some ht'"
        "ht_ok ty ht'" "ht_table ht' = Some t'" "mset (concat t') = add_mset (k, v) (mset (concat t))"
        using ht_link_ok [OF o(2) t, of _ "(k, v)"] by auto
      have b: "mset (dict_list (d2\<lparr>d_ht1 := ht'\<rparr>)) = add_mset (k, v) (mset (dict_list d2))"
        using t l(3,4) by (simp add: dict_list_def ht_chains_def)
      then have "dict_ok ty (d2\<lparr>d_ht1 := ht'\<rparr>)"
        using d2(2) l(2,3) ua True by (auto simp: dict_ok_def dictIsRehashing_def)
      then show ?thesis using d1 d2 l(1) True new eq b by (simp add: dictAddRaw_def)
    next
      case False
      obtain t where t: "ht_table (d_ht0 d2) = Some t" using d2(5) by blast
      obtain ht' t' where l: "ht_link (dictHashKey ty k AND ht_sizemask (d_ht0 d2)) (k, v) (d_ht0 d2) = Some ht'"
        "ht_ok ty ht'" "ht_table ht' = Some t'" "mset (concat t') = add_mset (k, v) (mset (concat t))"
        using ht_link_ok [OF o(1) t, of _ "(k, v)"] by auto
      have b: "mset (dict_list (d2\<lparr>d_ht0 := ht'\<rparr>)) = add_mset (k, v) (mset (dict_list d2))"
        using t l(3,4) by (simp add: dict_list_def ht_chains_def)
      then have "dict_ok ty (d2\<lparr>d_ht0 := ht'\<rparr>)"
        using d2(2) l(2,3) ua False by (auto simp: dict_ok_def dictIsRehashing_def)
      then show ?thesis using d1 d2 l(1) False new eq b by (simp add: dictAddRaw_def)
    qed
  qed
qed

lemma delete_in_ok:
  assumes ok: "dict_ok ty d" and t0: "ht_table (d_ht0 d) = Some t0"
  shows "\<exists>d'. delete_in ty k d = Some (chain_find ty k (dict_list d) \<noteq> None, d') \<and> dict_ok ty d' \<and>
    (case chain_find ty k (dict_list d) of None \<Rightarrow> d' = d
     | Some e \<Rightarrow> mset (dict_list d) = add_mset e (mset (dict_list d')))"
proof -
  have u: "uniq ty (mset (dict_list d))" and o: "ht_ok ty (d_ht0 d)" "ht_ok ty (d_ht1 d)"
    using ok by (simp_all add: dict_ok_def)
  note del0 = ht_delete_ok [OF o(1) t0, of k]
  have list: "chain_find ty k (dict_list d) = (case chain_find ty k (concat t0) of
      None \<Rightarrow> chain_find ty k (concat (ht_chains (d_ht1 d))) | Some e \<Rightarrow> Some e)"
    using t0 by (simp add: dict_list_def ht_chains_def chain_find_append split: option.split)
  show ?thesis
  proof (cases "chain_find ty k (concat t0)")
    case (Some e)
    then obtain ht' t' where l: "ht_delete ty k (d_ht0 d) = Some (Some ht')" "ht_ok ty ht'" "ht_table ht' = Some t'"
      "mset (concat t0) = add_mset e (mset (concat t'))" "length t' = length t0"
      "\<forall>i < length t0. t0 ! i = [] \<longrightarrow> t' ! i = []" using del0 by auto
    have b: "mset (dict_list d) = add_mset e (mset (dict_list (d\<lparr>d_ht0 := ht'\<rparr>)))"
      using t0 l(3,4) by (simp add: dict_list_def ht_chains_def)
    then have "uniq ty (mset (dict_list (d\<lparr>d_ht0 := ht'\<rparr>)))"
      by (intro uniq_sub [OF u]) simp
    then have "dict_ok ty (d\<lparr>d_ht0 := ht'\<rparr>)"
      using ok t0 l(2,3,5,6) by (auto simp: dict_ok_def dictIsRehashing_def ht_chains_def)
    then show ?thesis using l(1) list b Some by (simp add: delete_in_def)
  next
    case none0: None
    then have l0: "ht_delete ty k (d_ht0 d) = Some None" using del0 by simp
    show ?thesis
    proof (cases "dictIsRehashing d")
      case False
      then have "ht_chains (d_ht1 d) = []" using ok by (simp add: dict_ok_def ht_chains_def)
      then show ?thesis using l0 list ok none0 False by (simp add: delete_in_def)
    next
      case True
      then obtain t1 where t1: "ht_table (d_ht1 d) = Some t1" using ok by (auto simp: dict_ok_def)
      note del1 = ht_delete_ok [OF o(2) t1, of k]
      have list1: "chain_find ty k (dict_list d) = chain_find ty k (concat t1)"
        using list none0 t1 by (simp add: ht_chains_def)
      show ?thesis
      proof (cases "chain_find ty k (concat t1)")
        case None
        then show ?thesis using l0 del1 list1 ok True by (simp add: delete_in_def)
      next
        case (Some e)
        then obtain ht' t' where l: "ht_delete ty k (d_ht1 d) = Some (Some ht')" "ht_ok ty ht'" "ht_table ht' = Some t'"
          "mset (concat t1) = add_mset e (mset (concat t'))" using del1 by auto
        have b: "mset (dict_list d) = add_mset e (mset (dict_list (d\<lparr>d_ht1 := ht'\<rparr>)))"
          using t1 l(3,4) by (simp add: dict_list_def ht_chains_def)
        then have "uniq ty (mset (dict_list (d\<lparr>d_ht1 := ht'\<rparr>)))"
          by (intro uniq_sub [OF u]) simp
        then have "dict_ok ty (d\<lparr>d_ht1 := ht'\<rparr>)"
          using ok l(2,3) True by (auto simp: dict_ok_def dictIsRehashing_def)
        then show ?thesis using l0 l(1) list1 b Some True by (simp add: delete_in_def)
      qed
    qed
  qed
qed

lemma dictGenericDelete_ok:
  assumes ok: "dict_ok ty d"
  shows "\<exists>d'. dictGenericDelete ty d k = Some (chain_find ty k (dict_list d) \<noteq> None, d') \<and> dict_ok ty d' \<and>
    (case chain_find ty k (dict_list d) of None \<Rightarrow> mset (dict_list d') = mset (dict_list d)
     | Some e \<Rightarrow> mset (dict_list d) = add_mset e (mset (dict_list d')))"
proof (cases "ht_size (d_ht0 d) = 0")
  case True
  then show ?thesis using dict_tables(1) [OF ok] ok True by (auto simp: dictGenericDelete_def dict_list_def ht_chains_def)
next
  case False
  note t = dict_tables(2) [OF ok False]
  obtain d1 t0 where d1: "step_if_rehashing ty d = Some d1" "dict_ok ty d1" "mset (dict_list d1) = mset (dict_list d)"
    "ht_table (d_ht0 d1) = Some t0"
    using step_if_rehashing_ok [OF ok] t by (metis option.exhaust)
  have eq: "chain_find ty k (dict_list d) = chain_find ty k (dict_list d1)"
    using chain_find_mset d1(2,3) by (metis dict_ok_def)
  have unf: "dictGenericDelete ty d k = delete_in ty k d1"
    using False d1(1) by (simp add: dictGenericDelete_def)
  show ?thesis
    using delete_in_ok [OF d1(2,4), of k] d1(3) unfolding unf eq
    by (cases "chain_find ty k (dict_list d1)") auto
qed

text \<open>What the operations do to the map.\<close>

lemma chain_find_bag:
  "dict_ok ty d \<Longrightarrow> mset (dict_list d') = mset (dict_list d) \<Longrightarrow> chain_find ty k (dict_list d') = chain_find ty k (dict_list d)"
  by (metis chain_find_mset dict_ok_def)

lemma uniq_add_msetD:
  assumes "uniq ty (add_mset e M)" "f \<in># M"
  shows "\<not> keyCompare ty (fst e) (fst f)"
proof
  assume c: "keyCompare ty (fst e) (fst f)"
  have "size (filter_mset (\<lambda>g. keyCompare ty (fst e) (fst g)) M) = 0"
    using assms(1) cmp_refl [of "fst e"] by (simp add: uniq_def)
  then show False using c assms(2) by (simp add: filter_mset_eq_conv)
qed

lemma chain_find_added:
  assumes "uniq ty (mset ys)" "mset ys = add_mset (k, v) (mset xs)"
  shows "chain_find ty l ys = (if keyCompare ty l k then Some (k, v) else chain_find ty l xs)"
  using chain_find_mset [of ys "(k, v) # xs"] assms by simp

lemma chain_find_removed:
  assumes "uniq ty (mset xs)" "mset xs = add_mset e (mset ys)" "keyCompare ty k (fst e)"
  shows "chain_find ty l ys = (if keyCompare ty l k then None else chain_find ty l xs)"
proof -
  have eq: "chain_find ty l xs = chain_find ty l (e # ys)" using assms by (intro chain_find_mset) simp_all
  have "keyCompare ty l k \<longleftrightarrow> keyCompare ty l (fst e)" using assms(3) cmp_sym cmp_trans by blast
  moreover have "chain_find ty l ys = None" if "keyCompare ty l (fst e)"
    unfolding chain_find_None using uniq_add_msetD [of e "mset ys"] assms(1,2) cmp_eq [OF that] by auto
  ultimately show ?thesis using eq by simp
qed

end

lemma dictCreate_ok [simp]: "dict_ok ty dictCreate" "dict_list dictCreate = []" "dictSize dictCreate = 0"
  by (simp_all add: dict_ok_def dictCreate_def dictReset_def ht_ok_def uniq_def dict_list_def ht_chains_def
    dictIsRehashing_def dictSize_def)

subsection \<open>The interface\<close>

text \<open>
  What a key-value table promises its users: finding, adding if absent and removing act on the
  map \<open>view\<close>, nothing goes wrong, and there is room for 2 to the 30 entries. A user's run of
  operations is a list of \<open>kv_op\<close>.
\<close>

datatype ('k, 'v) kv_op = KFind 'k | KAdd 'k 'v | KDel 'k
datatype 'v kv_res = Found "'v option" | Done bool

fun map_step :: "('k \<rightharpoonup> 'v) \<Rightarrow> ('k, 'v) kv_op \<Rightarrow> 'v kv_res \<times> ('k \<rightharpoonup> 'v)" where
  "map_step m (KFind k) = (Found (m k), m)"
| "map_step m (KAdd k v) = (Done (m k = None), if m k = None then m(k \<mapsto> v) else m)"
| "map_step m (KDel k) = (Done (m k \<noteq> None), m(k := None))"

fun map_run :: "('k \<rightharpoonup> 'v) \<Rightarrow> ('k, 'v) kv_op list \<Rightarrow> 'v kv_res list \<times> ('k \<rightharpoonup> 'v)" where
  "map_run m [] = ([], m)"
| "map_run m (a # as) = (case map_step m a of (r, m') \<Rightarrow> (case map_run m' as of (rs, m'') \<Rightarrow> (r # rs, m'')))"

definition kv_step where
  "kv_step lookup add del s a = (case a of
     KFind k \<Rightarrow> map_option (map_prod Found id) (lookup s k)
   | KAdd k v \<Rightarrow> map_option (map_prod Done id) (add s k v)
   | KDel k \<Rightarrow> map_option (map_prod Done id) (del s k))"

fun kv_run where
  "kv_run lookup add del s [] = Some ([], s)"
| "kv_run lookup add del s (a # as) =
     (case kv_step lookup add del s a of
        None \<Rightarrow> None
      | Some (r, s') \<Rightarrow> map_option (map_prod (\<lambda>rs. r # rs) id) (kv_run lookup add del s' as))"

locale kv_store =
  fixes ok :: "'s \<Rightarrow> bool"
    and view :: "'s \<Rightarrow> 'k \<rightharpoonup> 'v"
    and count :: "'s \<Rightarrow> nat"
    and lookup :: "'s \<Rightarrow> 'k \<Rightarrow> ('v option \<times> 's) option"
    and add :: "'s \<Rightarrow> 'k \<Rightarrow> 'v \<Rightarrow> (bool \<times> 's) option"
    and del :: "'s \<Rightarrow> 'k \<Rightarrow> (bool \<times> 's) option"
  assumes lookup_law: "ok s \<Longrightarrow> \<exists>s'. lookup s k = Some (view s k, s') \<and> ok s' \<and> view s' = view s \<and> count s' = count s"
    and add_law: "ok s \<Longrightarrow> count s < 2 ^ 30 \<Longrightarrow> \<exists>s'. add s k v = Some (view s k = None, s') \<and> ok s' \<and>
      view s' = (if view s k = None then (view s)(k \<mapsto> v) else view s) \<and> count s' \<le> count s + 1"
    and del_law: "ok s \<Longrightarrow> \<exists>s'. del s k = Some (view s k \<noteq> None, s') \<and> ok s' \<and> view s' = (view s)(k := None) \<and>
      count s' \<le> count s"
begin

lemma kv_run_ok:
  "ok s \<Longrightarrow> count s + length as < 2 ^ 30 \<Longrightarrow>
    \<exists>s'. kv_run lookup add del s as = Some (fst (map_run (view s) as), s') \<and> ok s' \<and> view s' = snd (map_run (view s) as)"
proof (induction as arbitrary: s)
  case (Cons a as)
  obtain s1 where s1: "kv_step lookup add del s a = Some (fst (map_step (view s) a), s1)" "ok s1"
    "view s1 = snd (map_step (view s) a)" "count s1 \<le> count s + 1"
  proof (cases a)
    case (KFind k)
    then show ?thesis using lookup_law [OF Cons.prems(1), of k] that by (auto simp: kv_step_def)
  next
    case (KAdd k v)
    then show ?thesis using add_law [OF Cons.prems(1), of k v] Cons.prems(2) that by (auto simp: kv_step_def)
  next
    case (KDel k)
    then show ?thesis using del_law [OF Cons.prems(1), of k] that by (auto simp: kv_step_def)
  qed
  have "count s1 + length as < 2 ^ 30" using s1(4) Cons.prems(2) by simp
  from Cons.IH [OF s1(2) this] show ?case using s1 by (auto split: prod.splits)
qed simp

end

text \<open>A type whose keys compare equal only if their contents agree: the table is a key-value store.\<close>

locale dict_keys = dict_type ty for ty :: "'k dictType" +
  assumes cmp_content: "keyCompare ty k l \<longleftrightarrow> k = l"
begin

lemma dict_view_bag: "dict_ok ty d \<Longrightarrow> mset (dict_list d') = mset (dict_list d) \<Longrightarrow> dict_view ty d' = dict_view ty d"
  by (rule ext) (simp add: dict_view_def chain_find_bag [of d d'])

lemma fetch_law:
  assumes "dict_ok ty d"
  shows "\<exists>d'. dictFetchValue ty d k = Some (dict_view ty d k, d') \<and> dict_ok ty d' \<and> dict_view ty d' = dict_view ty d \<and>
    dictSize d' = dictSize d"
proof -
  obtain d' where d': "dictFind ty d k = Some (chain_find ty k (dict_list d), d')" "dict_ok ty d'"
    "mset (dict_list d') = mset (dict_list d)" using dictFind_ok [OF assms] by blast
  then show ?thesis using dict_view_bag [OF assms d'(3)] dictSize_bag [OF assms d'(2,3)]
    by (simp add: dictFetchValue_def) (simp add: dict_view_def)
qed

lemma add_law:
  assumes ok: "dict_ok ty d" and room: "dictSize d < 2 ^ 30"
  shows "\<exists>d'. dictAdd cr ty d k v = Some (dict_view ty d k = None, d') \<and> dict_ok ty d' \<and>
    dict_view ty d' = (if dict_view ty d k = None then (dict_view ty d)(k \<mapsto> v) else dict_view ty d) \<and>
    dictSize d' \<le> dictSize d + 1"
proof -
  obtain d' where d': "dictAddRaw cr ty d k v = Some (chain_find ty k (dict_list d) = None, d')" "dict_ok ty d'"
    "mset (dict_list d') = (if chain_find ty k (dict_list d) = None then add_mset (k, v) (mset (dict_list d))
      else mset (dict_list d))" using dictAddRaw_ok [OF ok room] by blast
  have v: "dict_view ty d k = None \<longleftrightarrow> chain_find ty k (dict_list d) = None" by (simp add: dict_view_def)
  have u: "uniq ty (mset (dict_list d'))" using d'(2) by (simp add: dict_ok_def)
  show ?thesis
  proof (cases "chain_find ty k (dict_list d) = None")
    case True
    then have b: "mset (dict_list d') = add_mset (k, v) (mset (dict_list d))" using d'(3) by simp
    then have "length (dict_list d') = Suc (length (dict_list d))" by (metis size_mset size_add_mset)
    then have "dictSize d' = dictSize d + 1" using dictSize_eq [OF ok] dictSize_eq [OF d'(2)] by simp
    moreover have "dict_view ty d' = (dict_view ty d)(k \<mapsto> v)"
      using chain_find_added [OF u b] by (intro ext) (simp add: dict_view_def cmp_content)
    ultimately show ?thesis using d'(1,2) True v by (simp add: dictAdd_def)
  next
    case False
    then have b: "mset (dict_list d') = mset (dict_list d)" using d'(3) by simp
    show ?thesis using d'(1,2) v False dict_view_bag [OF ok b] dictSize_bag [OF ok d'(2) b] by (auto simp add: dictAdd_def)
  qed
qed

lemma delete_law:
  assumes ok: "dict_ok ty d"
  shows "\<exists>d'. dictDelete ty d k = Some (dict_view ty d k \<noteq> None, d') \<and> dict_ok ty d' \<and>
    dict_view ty d' = (dict_view ty d)(k := None) \<and> dictSize d' \<le> dictSize d"
proof -
  obtain d' where d': "dictGenericDelete ty d k = Some (chain_find ty k (dict_list d) \<noteq> None, d')" "dict_ok ty d'"
    "case chain_find ty k (dict_list d) of None \<Rightarrow> mset (dict_list d') = mset (dict_list d)
     | Some e \<Rightarrow> mset (dict_list d) = add_mset e (mset (dict_list d'))" using dictGenericDelete_ok [OF ok] by blast
  have u: "uniq ty (mset (dict_list d))" using ok by (simp add: dict_ok_def)
  show ?thesis
  proof (cases "chain_find ty k (dict_list d)")
    case None
    then have "dict_view ty d k = None" by (simp add: dict_view_def)
    then have "dict_view ty d = (dict_view ty d)(k := None)" by (simp add: fun_upd_idem)
    moreover have b: "mset (dict_list d') = mset (dict_list d)" using d'(3) None by simp
    ultimately have "dict_view ty d' = (dict_view ty d)(k := None)" using dict_view_bag [OF ok b] by (simp only:)
    then show ?thesis using d'(1,2) None dictSize_bag [OF ok d'(2) b]
      by (simp add: dictDelete_def dict_view_def [of ty d k])
  next
    case (Some e)
    then have b: "mset (dict_list d) = add_mset e (mset (dict_list d'))" using d'(3) by simp
    then have "length (dict_list d) = Suc (length (dict_list d'))" by (metis size_mset size_add_mset)
    then have "dictSize d' \<le> dictSize d" using dictSize_eq [OF ok] dictSize_eq [OF d'(2)] by simp
    moreover have "dict_view ty d' = (dict_view ty d)(k := None)"
      using chain_find_removed [OF u b, of k] chain_find_SomeD [OF Some]
      by (intro ext) (simp add: dict_view_def cmp_content)
    ultimately show ?thesis using d'(1,2) Some by (simp add: dictDelete_def) (simp add: dict_view_def)
  qed
qed

end

sublocale dict_keys \<subseteq> kv: kv_store "dict_ok ty" "dict_view ty" dictSize "dictFetchValue ty" "dictAdd cr ty" "dictDelete ty"
  for cr
  by unfold_locales (rule fetch_law add_law delete_law; assumption)+

lemma dict_view_empty: "dict_view ty dictCreate = Map.empty"
  by (rule ext) (simp add: dict_view_def)

context dict_keys begin

lemmas kv_run_dict = kv.kv_run_ok

end

subsection \<open>Properties\<close>

text \<open>
  C8: the hash table is a map. Any sequence of at most 2 to the 30 lookups, additions and
  deletions on a new table, whatever the hash function, the growth setting and the states of
  the incremental move between the two tables it passes through, returns exactly what the same
  operations return on a map, never fails an assert and never leaves the tables.
\<close>
theorem dict_refines_map:
  assumes "dict_keys ty" "length ops < 2 ^ 30"
  shows "\<exists>d. kv_run (dictFetchValue ty) (dictAdd cr ty) (dictDelete ty) dictCreate ops = Some (fst (map_run Map.empty ops), d) \<and>
    dict_ok ty d \<and> dict_view ty d = snd (map_run Map.empty ops)"
  using dict_keys.kv_run_dict [OF assms(1), of dictCreate ops cr] assms(2) by (simp add: dict_view_empty)

text \<open>Integer keys hashed by dictIdentityHashFunction.\<close>

lemma dict_keys_int: "dict_keys \<lparr>hashFunction = dictIdentityHashFunction, keyCompare = (=)\<rparr>"
  by unfold_locales auto

lemma dict_refines_map_witness:
  "\<exists>d. kv_run (dictFetchValue \<lparr>hashFunction = dictIdentityHashFunction, keyCompare = (=)\<rparr>)
      (dictAdd True \<lparr>hashFunction = dictIdentityHashFunction, keyCompare = (=)\<rparr>)
      (dictDelete \<lparr>hashFunction = dictIdentityHashFunction, keyCompare = (=)\<rparr>) dictCreate
      [KAdd 7 ''a'', KAdd 11 ''b'', KAdd 7 ''c'', KFind 7, KDel 11, KFind 11]
    = Some ([Done True, Done True, Done False, Found (Some ''a''), Done True, Found None], d)"
  using dict_refines_map [OF dict_keys_int, of "[KAdd 7 ''a'', KAdd 11 ''b'', KAdd 7 ''c'', KFind 7, KDel 11, KFind 11]" True]
  by auto


definition dict_rehashing_example :: "(u32, string) dict" where
  "dict_rehashing_example =
     \<lparr>d_ht0 = \<lparr>ht_table = Some [[(4, ''a'')], [], [(6, ''b''), (2, ''c'')], []], ht_size = 4, ht_sizemask = 3, ht_used = 3\<rparr>,
      d_ht1 = \<lparr>ht_table = Some (replicate 8 []), ht_size = 8, ht_sizemask = 7, ht_used = 0\<rparr>,
      d_rehashidx = 0, d_iterators = 0\<rparr>"

lemma dict_rehashing_example_ok: "dict_ok \<lparr>hashFunction = dictIdentityHashFunction, keyCompare = (=)\<rparr> dict_rehashing_example"
proof -
  let ?ty = "\<lparr>hashFunction = dictIdentityHashFunction, keyCompare = (=)\<rparr>"
  have "ht_ok ?ty (d_ht0 dict_rehashing_example)"
    by (simp add: dict_rehashing_example_def ht_ok_def All_less_Suc)
      (auto simp: dictHashKey_def dictIdentityHashFunction_def intro!: bexI [of _ 2])
  moreover have "ht_ok ?ty (d_ht1 dict_rehashing_example)"
    by (auto simp: dict_rehashing_example_def ht_ok_def intro!: bexI [of _ 3])
  ultimately show ?thesis
    by (simp add: dict_ok_def) (simp add: dict_rehashing_example_def dict_list_def ht_chains_def uniq_def dictIsRehashing_def)
qed


end
