(* ===== verification/Ae.thy ===== *)
theory Ae
  imports Prelude "HOL-Library.Signed_Division"
begin

section \<open>The event loop (src/ae.c, src/ae_epoll.c)\<close>

text \<open>
  The loop of a network or timer thread: an array of file events indexed by descriptor, the
  epoll set behind it, and an unsorted list of time events. Descriptors, ids and times are
  integers (int, long long, long), event masks 32-bit words; an access outside the array is
  \<open>None\<close>. Procedures and client data are opaque values of the types \<open>'p\<close> and \<open>'d\<close>.

  The kernel is a parameter: \<open>valid\<close> says which descriptors are open and can be polled, and
  \<open>epoll_ctl\<close> is the documented behaviour of the call on the set of registered descriptors.
  The clock is a parameter too: \<open>gettime\<close> reads seconds and milliseconds from the state of
  the world and may advance it.

  \<open>ae_ok\<close> is the invariant of the file events: maxfd is the largest descriptor in use and the
  epoll set holds exactly the masks. The theorems on time events: what the poll timeout is, what
  a pass over the list calls and leaves, and when a pass never ends.
\<close>

unbundle bit_operations_syntax

subsection \<open>Data\<close>

definition AE_NONE :: u32 where "AE_NONE = 0"
definition AE_READABLE :: u32 where "AE_READABLE = 1"
definition AE_WRITABLE :: u32 where "AE_WRITABLE = 2"
definition AE_NOMORE :: int where "AE_NOMORE = - 1"

record ('p, 'd) aeFileEvent =
  fe_mask :: u32
  fe_rfileProc :: "'p option"
  fe_wfileProc :: "'p option"
  fe_clientData :: "'d option"

record 'e aeTimeEvent =
  te_id :: int
  te_when_sec :: int
  te_when_ms :: int
  te_data :: 'e   \<comment> \<open>procedure, finalizer and client data\<close>

record ('p, 'd, 'e) aeEventLoop =
  ae_maxfd :: int
  ae_setsize :: int
  ae_timeEventNextId :: int
  ae_lastTime :: int
  ae_events :: "('p, 'd) aeFileEvent list"
  ae_timeEvents :: "'e aeTimeEvent list"
  ae_stop :: bool
  ae_epoll :: "int \<rightharpoonup> u32"   \<comment> \<open>the set of the epoll descriptor\<close>

text \<open>A fresh slot: only its mask is initialised.\<close>

definition fe_none :: "('p, 'd) aeFileEvent" where
  "fe_none = \<lparr>fe_mask = AE_NONE, fe_rfileProc = None, fe_wfileProc = None, fe_clientData = None\<rparr>"

definition aeCreateEventLoop :: "nat \<Rightarrow> int \<Rightarrow> ('p, 'd, 'e) aeEventLoop" where
  "aeCreateEventLoop setsize now =
     \<lparr>ae_maxfd = - 1, ae_setsize = int setsize, ae_timeEventNextId = 0, ae_lastTime = now,
      ae_events = replicate setsize fe_none, ae_timeEvents = [], ae_stop = False, ae_epoll = Map.empty\<rparr>"

definition aeStop :: "('p, 'd, 'e) aeEventLoop \<Rightarrow> ('p, 'd, 'e) aeEventLoop" where
  "aeStop el = el\<lparr>ae_stop := True\<rparr>"

subsection \<open>The epoll set\<close>

definition EPOLLIN :: u32 where "EPOLLIN = 1"
definition EPOLLOUT :: u32 where "EPOLLOUT = 4"

datatype epoll_op = EPOLL_CTL_ADD | EPOLL_CTL_MOD | EPOLL_CTL_DEL

definition epoll_ctl :: "(int \<Rightarrow> bool) \<Rightarrow> epoll_op \<Rightarrow> int \<Rightarrow> u32 \<Rightarrow> (int \<rightharpoonup> u32) \<Rightarrow> (int \<rightharpoonup> u32) option" where
  "epoll_ctl valid op fd ee S =
     (case op of
        EPOLL_CTL_ADD \<Rightarrow> if valid fd \<and> S fd = None then Some (S(fd \<mapsto> ee)) else None
      | EPOLL_CTL_MOD \<Rightarrow> if valid fd \<and> S fd \<noteq> None then Some (S(fd \<mapsto> ee)) else None
      | EPOLL_CTL_DEL \<Rightarrow> if valid fd \<and> S fd \<noteq> None then Some (S(fd := None)) else None)"

definition ee_events :: "u32 \<Rightarrow> u32" where
  "ee_events msk = (if msk AND AE_READABLE \<noteq> 0 then EPOLLIN else 0) OR (if msk AND AE_WRITABLE \<noteq> 0 then EPOLLOUT else 0)"

definition ae_slot :: "('p, 'd, 'e) aeEventLoop \<Rightarrow> int \<Rightarrow> ('p, 'd) aeFileEvent option" where
  "ae_slot el fd = (if 0 \<le> fd \<and> nat fd < length (ae_events el) then Some (ae_events el ! nat fd) else None)"

text \<open>The new epoll set, \<open>None\<close> when the call fails.\<close>

definition aeApiAddEvent :: "(int \<Rightarrow> bool) \<Rightarrow> ('p, 'd, 'e) aeEventLoop \<Rightarrow> ('p, 'd) aeFileEvent \<Rightarrow> int \<Rightarrow> u32 \<Rightarrow> (int \<rightharpoonup> u32) option" where
  "aeApiAddEvent valid el fe fd msk =
     (let op = (if fe_mask fe = AE_NONE then EPOLL_CTL_ADD else EPOLL_CTL_MOD)
      in epoll_ctl valid op fd (ee_events (msk OR fe_mask fe)) (ae_epoll el))"

text \<open>The result of the call is ignored.\<close>

definition aeApiDelEvent :: "(int \<Rightarrow> bool) \<Rightarrow> ('p, 'd, 'e) aeEventLoop \<Rightarrow> ('p, 'd) aeFileEvent \<Rightarrow> int \<Rightarrow> u32 \<Rightarrow> (int \<rightharpoonup> u32)" where
  "aeApiDelEvent valid el fe fd delmask =
     (let msk = fe_mask fe AND NOT delmask;
          op = (if msk \<noteq> AE_NONE then EPOLL_CTL_MOD else EPOLL_CTL_DEL)
      in case epoll_ctl valid op fd (ee_events msk) (ae_epoll el) of None \<Rightarrow> ae_epoll el | Some S \<Rightarrow> S)"

subsection \<open>File events\<close>

text \<open>The first component is AE_OK.\<close>

definition aeCreateFileEvent :: "(int \<Rightarrow> bool) \<Rightarrow> ('p, 'd, 'e) aeEventLoop \<Rightarrow> int \<Rightarrow> u32 \<Rightarrow> 'p \<Rightarrow> 'd \<Rightarrow>
    (bool \<times> ('p, 'd, 'e) aeEventLoop) option" where
  "aeCreateFileEvent valid el fd msk pr dat =
     (if fd \<ge> ae_setsize el then Some (False, el)
      else case ae_slot el fd of
             None \<Rightarrow> None
           | Some fe \<Rightarrow>
               (case aeApiAddEvent valid el fe fd msk of
                  None \<Rightarrow> Some (False, el)
                | Some S \<Rightarrow>
                    (let fe1 = fe\<lparr>fe_mask := fe_mask fe OR msk\<rparr>;
                         fe2 = (if msk AND AE_READABLE \<noteq> 0 then fe1\<lparr>fe_rfileProc := Some pr\<rparr> else fe1);
                         fe3 = (if msk AND AE_WRITABLE \<noteq> 0 then fe2\<lparr>fe_wfileProc := Some pr\<rparr> else fe2);
                         fe4 = fe3\<lparr>fe_clientData := Some dat\<rparr>
                     in Some (True, el\<lparr>ae_epoll := S, ae_events := (ae_events el)[nat fd := fe4],
                                       ae_maxfd := (if fd > ae_maxfd el then fd else ae_maxfd el)\<rparr>))))"

text \<open>The search downwards for the largest descriptor in use below \<open>n\<close>.\<close>

fun last_used :: "('p, 'd) aeFileEvent list \<Rightarrow> nat \<Rightarrow> int" where
  "last_used ev 0 = - 1"
| "last_used ev (Suc j) = (if fe_mask (ev ! j) \<noteq> AE_NONE then int j else last_used ev j)"

definition aeDeleteFileEvent :: "(int \<Rightarrow> bool) \<Rightarrow> ('p, 'd, 'e) aeEventLoop \<Rightarrow> int \<Rightarrow> u32 \<Rightarrow>
    ('p, 'd, 'e) aeEventLoop option" where
  "aeDeleteFileEvent valid el fd msk =
     (if fd \<ge> ae_setsize el then Some el
      else case ae_slot el fd of
             None \<Rightarrow> None
           | Some fe \<Rightarrow>
               if fe_mask fe = AE_NONE then Some el
               else (let fe' = fe\<lparr>fe_mask := fe_mask fe AND NOT msk\<rparr>;
                         ev = (ae_events el)[nat fd := fe'];
                         el' = el\<lparr>ae_events := ev,
                                  ae_maxfd := (if fd = ae_maxfd el \<and> fe_mask fe' = AE_NONE
                                               then last_used ev (nat (ae_maxfd el)) else ae_maxfd el)\<rparr>
                     in Some (el'\<lparr>ae_epoll := aeApiDelEvent valid el' fe' fd msk\<rparr>)))"

definition aeGetFileEvents :: "('p, 'd, 'e) aeEventLoop \<Rightarrow> int \<Rightarrow> u32 option" where
  "aeGetFileEvents el fd = (if fd \<ge> ae_setsize el then Some 0 else map_option fe_mask (ae_slot el fd))"

text \<open>zrealloc keeps the common prefix; the slots behind maxfd get an empty mask.\<close>

definition aeResizeSetSize :: "('p, 'd, 'e) aeEventLoop \<Rightarrow> int \<Rightarrow> bool \<times> ('p, 'd, 'e) aeEventLoop" where
  "aeResizeSetSize el n =
     (if n = ae_setsize el then (True, el)
      else if ae_maxfd el \<ge> n then (False, el)
      else (let ev = take (nat n) (ae_events el) @ replicate (nat n - length (ae_events el)) fe_none;
                used = nat (ae_maxfd el + 1)
            in (True, el\<lparr>ae_setsize := n,
                         ae_events := take used ev @ map (\<lambda>fe. fe\<lparr>fe_mask := AE_NONE\<rparr>) (drop used ev)\<rparr>)))"

subsection \<open>The invariant of the file events\<close>

definition ae_mask :: "('p, 'd, 'e) aeEventLoop \<Rightarrow> int \<Rightarrow> u32" where
  "ae_mask el fd = (case ae_slot el fd of None \<Rightarrow> AE_NONE | Some fe \<Rightarrow> fe_mask fe)"

definition ae_ok :: "(int \<Rightarrow> bool) \<Rightarrow> ('p, 'd, 'e) aeEventLoop \<Rightarrow> bool" where
  "ae_ok valid el \<longleftrightarrow> 0 \<le> ae_setsize el \<and> length (ae_events el) = nat (ae_setsize el) \<and>
     ae_maxfd el = last_used (ae_events el) (length (ae_events el)) \<and>
     (\<forall>fd. ae_epoll el fd = (if ae_mask el fd = AE_NONE then None else Some (ee_events (ae_mask el fd)))) \<and>
     (\<forall>fd. ae_mask el fd \<noteq> AE_NONE \<longrightarrow> valid fd)"

lemma last_used_ge: "- 1 \<le> last_used ev n" and last_used_less: "last_used ev n < int n"
  by (induction n) auto

lemma last_used_iff:
  "last_used ev n = m \<longleftrightarrow>
     (if m = - 1 then \<forall>i < n. fe_mask (ev ! i) = AE_NONE
      else 0 \<le> m \<and> nat m < n \<and> fe_mask (ev ! nat m) \<noteq> AE_NONE \<and> (\<forall>i < n. nat m < i \<longrightarrow> fe_mask (ev ! i) = AE_NONE))"
proof (induction n)
  case (Suc n)
  show ?case
  proof (cases "fe_mask (ev ! n) = AE_NONE")
    case True
    then show ?thesis using Suc by (auto simp: less_Suc_eq)
  next
    case False
    then show ?thesis by (auto simp: less_Suc_eq)
  qed
qed auto

lemma last_used_max: "i < n \<Longrightarrow> fe_mask (ev ! i) \<noteq> AE_NONE \<Longrightarrow> int i \<le> last_used ev n"
  by (induction n) (auto simp: less_Suc_eq)

lemma last_used_skip:
  "m \<le> n \<Longrightarrow> (\<And>i. m \<le> i \<Longrightarrow> i < n \<Longrightarrow> fe_mask (ev ! i) = AE_NONE) \<Longrightarrow> last_used ev n = last_used ev m"
  by (induction n) (auto simp: le_Suc_eq)

lemma last_used_cong:
  "(\<And>i. i < n \<Longrightarrow> fe_mask (ev ! i) = fe_mask (ev' ! i)) \<Longrightarrow> last_used ev n = last_used ev' n"
  by (induction n) auto

lemma ae_slot_in [simp]: "0 \<le> fd \<Longrightarrow> nat fd < length (ae_events el) \<Longrightarrow> ae_slot el fd = Some (ae_events el ! nat fd)"
  and ae_slot_neg [simp]: "fd < 0 \<Longrightarrow> ae_slot el fd = None"
  by (simp_all add: ae_slot_def)

lemma ae_mask_update:
  assumes "0 \<le> fd" "nat fd < length (ae_events el)" "ae_events el' = (ae_events el)[nat fd := fe]"
  shows "ae_mask el' g = (if g = fd then fe_mask fe else ae_mask el g)"
  using assms by (auto simp: ae_mask_def ae_slot_def nth_list_update)

lemma aeCreateEventLoop_mask: "ae_mask (aeCreateEventLoop n now) fd = AE_NONE"
  by (simp add: ae_mask_def ae_slot_def aeCreateEventLoop_def fe_none_def)

lemma aeCreateEventLoop_ok: "ae_ok valid (aeCreateEventLoop n now)"
  unfolding ae_ok_def aeCreateEventLoop_mask
  by (simp add: aeCreateEventLoop_def last_used_iff [of _ _ "- 1", THEN iffD2] eq_commute [of "- 1"] fe_none_def)

lemma last_used_update:
  assumes "n < length ev" "fe_mask fe \<noteq> AE_NONE"
  shows "last_used (ev[n := fe]) (length ev) = max (int n) (last_used ev (length ev))"
proof (cases "int n < last_used ev (length ev)")
  case True
  with last_used_iff [of ev "length ev" "last_used ev (length ev)"] assms show ?thesis
    by (subst last_used_iff) (auto simp: nth_list_update)
next
  case False
  with last_used_iff [of ev "length ev" "last_used ev (length ev)"] assms show ?thesis
    by (subst last_used_iff) (auto simp: nth_list_update split: if_splits)
qed

text \<open>Registering: succeeds exactly on a descriptor of the array that can be polled.\<close>

lemma aeCreateFileEvent_ok:
  assumes ok: "ae_ok valid el" and fd: "0 \<le> fd" and msk: "msk \<noteq> AE_NONE"
  shows "\<exists>el'. aeCreateFileEvent valid el fd msk pr dat = Some (fd < ae_setsize el \<and> valid fd, el') \<and> ae_ok valid el' \<and>
    ae_setsize el' = ae_setsize el \<and>
    ae_mask el' = (if fd < ae_setsize el \<and> valid fd then (ae_mask el)(fd := ae_mask el fd OR msk) else ae_mask el)"
proof (cases "fd < ae_setsize el")
  case False
  then show ?thesis using ok by (simp add: aeCreateFileEvent_def)
next
  case True
  then have n: "nat fd < length (ae_events el)" using ok fd by (simp add: ae_ok_def)
  let ?fe = "ae_events el ! nat fd"
  have mk: "ae_mask el fd = fe_mask ?fe" using n fd by (simp add: ae_mask_def)
  have add: "aeApiAddEvent valid el ?fe fd msk =
    (if valid fd then Some ((ae_epoll el)(fd \<mapsto> ee_events (msk OR fe_mask ?fe))) else None)"
    using ok mk by (auto simp: aeApiAddEvent_def epoll_ctl_def ae_ok_def)
  show ?thesis
  proof (cases "valid fd")
    case False
    then show ?thesis using ok True n fd add by (simp add: aeCreateFileEvent_def)
  next
    case v: True
    obtain fe where c: "aeCreateFileEvent valid el fd msk pr dat = Some (True, el\<lparr>ae_epoll := (ae_epoll el)(fd \<mapsto> ee_events (msk OR fe_mask ?fe)),
      ae_events := (ae_events el)[nat fd := fe], ae_maxfd := (if fd > ae_maxfd el then fd else ae_maxfd el)\<rparr>)"
      and fe: "fe_mask fe = fe_mask ?fe OR msk"
      using True n fd add v by (auto simp: aeCreateFileEvent_def Let_def)
    let ?el = "el\<lparr>ae_epoll := (ae_epoll el)(fd \<mapsto> ee_events (msk OR fe_mask ?fe)),
      ae_events := (ae_events el)[nat fd := fe], ae_maxfd := (if fd > ae_maxfd el then fd else ae_maxfd el)\<rparr>"
    have nz: "fe_mask fe \<noteq> AE_NONE" using msk fe by (simp add: AE_NONE_def or_eq_0_iff)
    note mu = ae_mask_update [OF fd n, of ?el fe]
    have "ae_ok valid ?el"
      using ok mu nz v fe last_used_update [OF n nz] fd
      by (auto simp: ae_ok_def or.commute)
    then show ?thesis using c v True mu mk fe by (auto simp: fun_eq_iff)
  qed
qed

text \<open>Unregistering.\<close>

lemma ae_epoll_upd: "ae_epoll (el\<lparr>ae_events := x, ae_maxfd := y\<rparr>) = ae_epoll el"
  by simp

text \<open>The new maxfd, when the slot of a registered descriptor loses some of its mask.\<close>

lemma last_used_clear:
  assumes ok: "ae_ok valid el" and fd: "0 \<le> fd" and n: "nat fd < length (ae_events el)"
    and used: "fe_mask (ae_events el ! nat fd) \<noteq> AE_NONE"
    and nth: "\<And>i. ev ! i = (if i = nat fd then fe' else ae_events el ! i)"
    and m': "fe_mask fe' = fe_mask fe AND NOT msk"
  shows "last_used ev (length (ae_events el)) =
    (if fd = ae_maxfd el \<and> fe_mask fe' = AE_NONE then last_used ev (nat (ae_maxfd el)) else ae_maxfd el)"
proof -
  let ?n = "length (ae_events el)"
  have old: "ae_maxfd el = last_used (ae_events el) ?n" using ok by (simp add: ae_ok_def)
  then have bnd: "fd \<le> ae_maxfd el" using last_used_max [OF n used] fd by simp
  have above: "fe_mask (ae_events el ! i) = AE_NONE" if "ae_maxfd el < int i" "i < ?n" for i
    using last_used_max [OF that(2), of "ae_events el"] old that(1) by fastforce
  have top: "fe_mask (ae_events el ! nat (ae_maxfd el)) \<noteq> AE_NONE" "nat (ae_maxfd el) < ?n"
    using last_used_iff [of "ae_events el" ?n "ae_maxfd el"] old bnd fd by (auto split: if_splits)
  show ?thesis
  proof (cases "fd = ae_maxfd el \<and> fe_mask fe' = AE_NONE")
    case True
    have "last_used ev ?n = last_used ev (nat (ae_maxfd el))"
    proof (rule last_used_skip)
      show "fe_mask (ev ! i) = AE_NONE" if "nat (ae_maxfd el) \<le> i" "i < ?n" for i
        using that above [of i] True fd by (cases "i = nat fd") (auto simp: nth)
    qed (use top in simp)
    then show ?thesis using True by (simp only: simp_thms if_True)
  next
    case False
    have "last_used ev ?n = last_used ev (Suc (nat (ae_maxfd el)))"
    proof (rule last_used_skip)
      show "fe_mask (ev ! i) = AE_NONE" if "Suc (nat (ae_maxfd el)) \<le> i" "i < ?n" for i
        using that above [of i] bnd fd by (auto simp: nth)
    qed (use top in simp)
    moreover have "fe_mask (ev ! nat (ae_maxfd el)) \<noteq> AE_NONE"
      using False top fd bnd by (cases "fd = ae_maxfd el") (auto simp: nth)
    ultimately show ?thesis using False bnd fd by auto
  qed
qed

lemma aeDeleteFileEvent_ok:
  fixes el :: "('a, 'b, 'c) aeEventLoop"
  assumes ok: "ae_ok valid el" and fd: "0 \<le> fd"
  shows "\<exists>el'. aeDeleteFileEvent valid el fd msk = Some el' \<and> ae_ok valid el' \<and> ae_setsize el' = ae_setsize el \<and>
    ae_mask el' = (ae_mask el)(fd := ae_mask el fd AND NOT msk)"
proof (cases "fd < ae_setsize el \<and> ae_mask el fd \<noteq> AE_NONE")
  case False
  then have z: "ae_mask el fd = AE_NONE" using ok fd by (auto simp: ae_mask_def ae_slot_def ae_ok_def)
  then have "(ae_mask el)(fd := ae_mask el fd AND NOT msk) = ae_mask el"
    by (auto simp: fun_eq_iff AE_NONE_def)
  moreover have "aeDeleteFileEvent valid el fd msk = Some el"
    using False ok fd z by (auto simp: aeDeleteFileEvent_def ae_ok_def ae_mask_def)
  ultimately show ?thesis using ok by simp
next
  case True
  then have n: "nat fd < length (ae_events el)" using ok fd by (simp add: ae_ok_def)
  define fe where "fe = ae_events el ! nat fd"
  define fe' where "fe' = fe\<lparr>fe_mask := fe_mask fe AND NOT msk\<rparr>"
  define ev where "ev = (ae_events el)[nat fd := fe']"
  define top where "top = (if fd = ae_maxfd el \<and> fe_mask fe' = AE_NONE then last_used ev (nat (ae_maxfd el)) else ae_maxfd el)"
  define S where "S = (ae_epoll el)(fd := if fe_mask fe' = AE_NONE then None else Some (ee_events (fe_mask fe')))"
  define el' where "el' = el\<lparr>ae_events := ev, ae_maxfd := top, ae_epoll := S\<rparr>"
  have mk: "ae_mask el fd = fe_mask fe" and slot: "ae_slot el fd = Some fe" using n fd by (simp_all add: ae_mask_def fe_def)
  have m': "fe_mask fe' = fe_mask fe AND NOT msk" by (simp add: fe'_def)
  have ep: "valid fd" "ae_epoll el fd \<noteq> None" using ok True by (auto simp: ae_ok_def)
  have idem: "fe_mask fe' AND NOT msk = fe_mask fe'" by (simp add: m' and.assoc)
  have api: "aeApiDelEvent valid x fe' fd msk = S" if "ae_epoll x = ae_epoll el" for x :: "('a, 'b, 'c) aeEventLoop"
    unfolding aeApiDelEvent_def idem Let_def that S_def using ep by (simp add: epoll_ctl_def)
  have ns: "\<not> fd \<ge> ae_setsize el" "fe_mask fe \<noteq> AE_NONE" using True mk by simp_all
  have del: "aeDeleteFileEvent valid el fd msk = Some el'"
    unfolding aeDeleteFileEvent_def slot option.case Let_def if_not_P [OF ns(1)] if_not_P [OF ns(2)]
      fe'_def [symmetric] ev_def [symmetric] top_def [symmetric]
    by (subst api) (rule ae_epoll_upd, simp only: el'_def)
  have len: "length ev = length (ae_events el)" by (simp add: ev_def)
  have nth: "ev ! i = (if i = nat fd then fe' else ae_events el ! i)" for i
    using n by (simp add: ev_def nth_list_update)
  have "last_used ev (length ev) = top"
    unfolding len top_def by (rule last_used_clear [OF ok fd n _ nth m'])
      (use ns(2) in \<open>simp add: fe_def\<close>)
  moreover have mu: "ae_mask el' g = (if g = fd then fe_mask fe' else ae_mask el g)" for g
    by (rule ae_mask_update [OF fd n]) (simp add: el'_def ev_def)
  moreover have "ae_epoll el' = S" "ae_events el' = ev" "ae_maxfd el' = top" "ae_setsize el' = ae_setsize el"
    by (simp_all add: el'_def)
  ultimately have "ae_ok valid el'" "ae_setsize el' = ae_setsize el"
    using ok ep(1) len by (simp_all add: ae_ok_def S_def)
  then show ?thesis using del mu mk m' by (auto simp: fun_eq_iff)
qed

text \<open>Resizing.\<close>

lemma nth_map_tail: "i < length xs \<Longrightarrow> (take u xs @ map f (drop u xs)) ! i = (if i < u then xs ! i else f (xs ! i))"
  by (auto simp: nth_append min_def)

lemma aeResizeSetSize_ok:
  fixes el :: "('a, 'b, 'c) aeEventLoop"
  assumes ok: "ae_ok valid el" and n: "0 \<le> n"
  shows "\<exists>el'. aeResizeSetSize el n = (n = ae_setsize el \<or> ae_maxfd el < n, el') \<and> ae_ok valid el' \<and>
    ae_mask el' = ae_mask el \<and> ae_setsize el' = (if ae_maxfd el < n then n else ae_setsize el)"
proof (cases "n \<noteq> ae_setsize el \<and> ae_maxfd el < n")
  case False
  have "ae_maxfd el < ae_setsize el"
    using last_used_less [of "ae_events el" "length (ae_events el)"] ok by (simp add: ae_ok_def)
  with False show ?thesis using ok by (auto simp: aeResizeSetSize_def)
next
  case True
  define orig :: "('a, 'b) aeFileEvent list" where
    "orig = take (nat n) (ae_events el) @ replicate (nat n - length (ae_events el)) fe_none"
  define used where "used = nat (ae_maxfd el + 1)"
  define ev where "ev = take used orig @ map (\<lambda>fe. fe\<lparr>fe_mask := AE_NONE\<rparr>) (drop used orig)"
  define el' where "el' = el\<lparr>ae_setsize := n, ae_events := ev\<rparr>"
  have old: "ae_maxfd el = last_used (ae_events el) (length (ae_events el))" using ok by (simp add: ae_ok_def)
  have lo: "- 1 \<le> ae_maxfd el" "ae_maxfd el < int (length (ae_events el))"
    using old last_used_ge [of "ae_events el"] last_used_less [of "ae_events el"] by simp_all
  have "length ev = length orig" unfolding ev_def by (metis append_take_drop_id length_append length_map)
  moreover have l0: "length orig = nat n" by (simp add: orig_def min_def)
  ultimately have len: "length ev = nat n" by (simp only:)
  have nth: "fe_mask (ev ! i) = (if int i \<le> ae_maxfd el then fe_mask (ae_events el ! i) else AE_NONE)" if "i < nat n" for i
  proof -
    have "i < length orig" using that by (simp only: l0)
    then have "ev ! i = (if i < used then orig ! i else (orig ! i)\<lparr>fe_mask := AE_NONE\<rparr>)" unfolding ev_def by (rule nth_map_tail)
    moreover have "i < used \<longleftrightarrow> int i \<le> ae_maxfd el" unfolding used_def by linarith
    moreover have "int i \<le> ae_maxfd el \<Longrightarrow> orig ! i = ae_events el ! i" using that lo by (simp add: orig_def nth_append)
    ultimately show ?thesis by simp
  qed
  have above: "fe_mask (ae_events el ! i) = AE_NONE" if "ae_maxfd el < int i" "i < length (ae_events el)" for i
    using last_used_max [OF that(2)] old that(1) by fastforce
  have mk: "ae_mask el' fd = ae_mask el fd" for fd
    using nth [of "nat fd"] above [of "nat fd"] lo True n len by (auto simp: ae_mask_def ae_slot_def el'_def)
  have u: "used \<le> nat n" "used \<le> length (ae_events el)" using lo True unfolding used_def by linarith+
  have "last_used ev (nat n) = last_used ev used"
    by (rule last_used_skip [OF u(1)]) (use nth used_def in auto)
  also have "\<dots> = last_used (ae_events el) used"
    using nth u(1) used_def by (intro last_used_cong) auto
  also have "\<dots> = last_used (ae_events el) (length (ae_events el))"
    by (rule last_used_skip [OF u(2), symmetric]) (use above used_def in auto)
  finally have "last_used ev (length ev) = ae_maxfd el" unfolding len using old by simp
  then have "ae_ok valid el'" using ok n len mk by (simp add: ae_ok_def el'_def)
  moreover have "aeResizeSetSize el n = (True, el')" unfolding aeResizeSetSize_def Let_def el'_def ev_def used_def orig_def
    using True by (simp only: if_False not_le simp_thms) (simp only: not_le [symmetric] if_False simp_thms)
  moreover have "ae_setsize el' = n" by (simp add: el'_def)
  ultimately show ?thesis using True mk by (auto simp: fun_eq_iff)
qed

subsection \<open>Time events\<close>

text \<open>A moment is seconds and milliseconds; the division of long is C's.\<close>

type_synonym moment = "int \<times> int"

definition ms_of :: "moment \<Rightarrow> int" where "ms_of t = fst t * 1000 + snd t"

definition moment_ok :: "moment \<Rightarrow> bool" where "moment_ok t \<longleftrightarrow> 0 \<le> snd t \<and> snd t < 1000"

definition aeAddMillisecondsToNow :: "moment \<Rightarrow> int \<Rightarrow> moment" where
  "aeAddMillisecondsToNow now milliseconds =
     (let when_sec = fst now + milliseconds sdiv 1000;
          when_ms = snd now + milliseconds smod 1000
      in if when_ms \<ge> 1000 then (when_sec + 1, when_ms - 1000) else (when_sec, when_ms))"

definition te_moment :: "'e aeTimeEvent \<Rightarrow> moment" where
  "te_moment te = (te_when_sec te, te_when_ms te)"

definition te_set :: "moment \<Rightarrow> 'e aeTimeEvent \<Rightarrow> 'e aeTimeEvent" where
  "te_set t te = te\<lparr>te_when_sec := fst t, te_when_ms := snd t\<rparr>"

definition aeCreateTimeEvent :: "('p, 'd, 'e) aeEventLoop \<Rightarrow> moment \<Rightarrow> int \<Rightarrow> 'e \<Rightarrow> int \<times> ('p, 'd, 'e) aeEventLoop" where
  "aeCreateTimeEvent el now milliseconds dat =
     (let i = ae_timeEventNextId el;
          t = aeAddMillisecondsToNow now milliseconds;
          te = \<lparr>te_id = i, te_when_sec = fst t, te_when_ms = snd t, te_data = dat\<rparr>
      in (i, el\<lparr>ae_timeEventNextId := i + 1, ae_timeEvents := te # ae_timeEvents el\<rparr>))"

text \<open>The first event with the id is unlinked; it is returned, as its finalizer is called with it.\<close>

fun te_unlink :: "int \<Rightarrow> 'e aeTimeEvent list \<Rightarrow> 'e aeTimeEvent option \<times> 'e aeTimeEvent list" where
  "te_unlink i [] = (None, [])"
| "te_unlink i (te # tes) =
     (if te_id te = i then (Some te, tes)
      else case te_unlink i tes of (r, tes') \<Rightarrow> (r, te # tes'))"

definition aeDeleteTimeEvent :: "('p, 'd, 'e) aeEventLoop \<Rightarrow> int \<Rightarrow> 'e aeTimeEvent option \<times> ('p, 'd, 'e) aeEventLoop" where
  "aeDeleteTimeEvent el i =
     (case te_unlink i (ae_timeEvents el) of (r, tes) \<Rightarrow> (r, el\<lparr>ae_timeEvents := tes\<rparr>))"

text \<open>The loop of aeSearchNearestTimer.\<close>

definition te_before :: "'e aeTimeEvent \<Rightarrow> 'e aeTimeEvent \<Rightarrow> bool" where
  "te_before te nearest \<longleftrightarrow> te_when_sec te < te_when_sec nearest \<or>
     te_when_sec te = te_when_sec nearest \<and> te_when_ms te < te_when_ms nearest"

definition aeSearchNearestTimer :: "('p, 'd, 'e) aeEventLoop \<Rightarrow> 'e aeTimeEvent option" where
  "aeSearchNearestTimer el =
     foldl (\<lambda>nearest te. case nearest of None \<Rightarrow> Some te | Some n \<Rightarrow> if te_before te n then Some te else Some n)
       None (ae_timeEvents el)"

text \<open>
  The start of aeProcessEvents with AE_ALL_EVENTS and without AE_DONT_WAIT, up to the timeout
  in milliseconds that aeApiPoll gives to epoll_wait; \<open>-1\<close> waits for ever.
\<close>

definition ae_poll_timeout :: "('p, 'd, 'e) aeEventLoop \<Rightarrow> moment \<Rightarrow> int" where
  "ae_poll_timeout el now =
     (case aeSearchNearestTimer el of
        None \<Rightarrow> - 1
      | Some shortest \<Rightarrow>
          (let sec0 = te_when_sec shortest - fst now;
               (sec1, usec1) =
                 (if te_when_ms shortest < snd now
                  then (sec0 - 1, ((te_when_ms shortest + 1000) - snd now) * 1000)
                  else (sec0, (te_when_ms shortest - snd now) * 1000));
               tv_sec = (if sec1 < 0 then 0 else sec1);
               tv_usec = (if usec1 < 0 then 0 else usec1)
           in tv_sec * 1000 + tv_usec div 1000))"

text \<open>
  processTimeEvents, after the check for a clock that was set back. \<open>gettime\<close> reads the clock,
  \<open>pr\<close> calls the procedure of an event and returns what it returned; both act on the state of
  the world, and the procedures of the program leave the event loop alone. The scan is at the
  first event of the last argument, with the events before it in front; after a call it
  restarts from the head. \<open>n\<close> bounds the calls. The result is the number of calls, the list,
  the events given to their finalizer and the world.
\<close>

definition te_due :: "moment \<Rightarrow> 'e aeTimeEvent \<Rightarrow> bool" where
  "te_due now te \<longleftrightarrow> fst now > te_when_sec te \<or> fst now = te_when_sec te \<and> snd now \<ge> te_when_ms te"

function scan_time_events :: "('w \<Rightarrow> moment \<times> 'w) \<Rightarrow> (int \<Rightarrow> 'e \<Rightarrow> 'w \<Rightarrow> int \<times> 'w) \<Rightarrow> int \<Rightarrow> nat \<Rightarrow> 'w \<Rightarrow>
    'e aeTimeEvent list \<Rightarrow> 'e aeTimeEvent list \<Rightarrow> (int \<times> 'e aeTimeEvent list \<times> 'e aeTimeEvent list \<times> 'w) option" where
  "scan_time_events gettime pr maxId n w pre [] = Some (0, pre, [], w)"
| "scan_time_events gettime pr maxId n w pre (te # tes) =
     (if te_id te > maxId then scan_time_events gettime pr maxId n w (pre @ [te]) tes
      else case gettime w of (now, w1) \<Rightarrow>
        if te_due now te then
          (case n of
             0 \<Rightarrow> None
           | Suc m \<Rightarrow>
               (case pr (te_id te) (te_data te) w1 of (retval, w2) \<Rightarrow>
                  if retval \<noteq> AE_NOMORE then
                    (case gettime w2 of (now2, w3) \<Rightarrow>
                       map_option (\<lambda>(c, r). (c + 1, r))
                         (scan_time_events gettime pr maxId m w3 []
                            (pre @ te_set (aeAddMillisecondsToNow now2 retval) te # tes)))
                  else
                    (case te_unlink (te_id te) (pre @ te # tes) of (fin, tes') \<Rightarrow>
                       map_option (\<lambda>(c, l, f, w'). (c + 1, l, (case fin of None \<Rightarrow> [] | Some e \<Rightarrow> [e]) @ f, w'))
                         (scan_time_events gettime pr maxId m w2 [] tes'))))
        else scan_time_events gettime pr maxId n w1 (pre @ [te]) tes)"
  by pat_completeness auto
termination
  by (relation "measures [\<lambda>(g, p, i, n, w, pre, tes). n, \<lambda>(g, p, i, n, w, pre, tes). length tes]") auto

declare scan_time_events.simps(2) [simp del]

definition processTimeEvents :: "('w \<Rightarrow> moment \<times> 'w) \<Rightarrow> (int \<Rightarrow> 'e \<Rightarrow> 'w \<Rightarrow> int \<times> 'w) \<Rightarrow> nat \<Rightarrow> int \<Rightarrow> 'w \<Rightarrow>
    ('p, 'd, 'e) aeEventLoop \<Rightarrow> (int \<times> 'e aeTimeEvent list \<times> ('p, 'd, 'e) aeEventLoop \<times> 'w) option" where
  "processTimeEvents gettime pr n now w el =
     (let tes = (if now < ae_lastTime el then map (\<lambda>te. te\<lparr>te_when_sec := 0\<rparr>) (ae_timeEvents el) else ae_timeEvents el)
      in map_option (\<lambda>(c, l, f, w'). (c, f, el\<lparr>ae_lastTime := now, ae_timeEvents := l\<rparr>, w'))
           (scan_time_events gettime pr (ae_timeEventNextId el - 1) n w [] tes))"

text \<open>
  The events epoll_wait reports, as masks, and the loop of aeProcessEvents over them. \<open>call\<close> runs a
  procedure, which may change the loop; the slot is read again before the second call. A
  procedure that was never set cannot be called.
\<close>

definition EPOLLERR :: u32 where "EPOLLERR = 8"
definition EPOLLHUP :: u32 where "EPOLLHUP = 16"

definition fired_mask :: "u32 \<Rightarrow> u32" where
  "fired_mask ev =
     (if ev AND EPOLLIN \<noteq> 0 then AE_READABLE else 0) OR (if ev AND EPOLLOUT \<noteq> 0 then AE_WRITABLE else 0) OR
     (if ev AND EPOLLERR \<noteq> 0 then AE_WRITABLE else 0) OR (if ev AND EPOLLHUP \<noteq> 0 then AE_WRITABLE else 0)"

definition call_slot where
  "call_slot call pr fd fe msk s =
     (case (pr, fe_clientData fe) of (Some p, Some dat) \<Rightarrow> call p fd dat msk s | _ \<Rightarrow> None)"

definition fire_one :: "('p \<Rightarrow> int \<Rightarrow> 'd \<Rightarrow> u32 \<Rightarrow> ('p, 'd, 'e) aeEventLoop \<times> 'w \<Rightarrow> (('p, 'd, 'e) aeEventLoop \<times> 'w) option) \<Rightarrow>
    int \<Rightarrow> u32 \<Rightarrow> ('p, 'd, 'e) aeEventLoop \<times> 'w \<Rightarrow> (('p, 'd, 'e) aeEventLoop \<times> 'w) option" where
  "fire_one call fd msk s =
     (case ae_slot (fst s) fd of
        None \<Rightarrow> None
      | Some fe \<Rightarrow>
          (let rfired = (fe_mask fe AND msk AND AE_READABLE \<noteq> 0)
           in case (if rfired then call_slot call (fe_rfileProc fe) fd fe msk s else Some s) of
                None \<Rightarrow> None
              | Some s1 \<Rightarrow>
                  (case ae_slot (fst s1) fd of
                     None \<Rightarrow> None
                   | Some fe1 \<Rightarrow>
                       if fe_mask fe1 AND msk AND AE_WRITABLE \<noteq> 0 \<and> (\<not> rfired \<or> fe_wfileProc fe1 \<noteq> fe_rfileProc fe1)
                       then call_slot call (fe_wfileProc fe1) fd fe1 msk s1 else Some s1)))"

fun fire_all where
  "fire_all call [] s = Some s"
| "fire_all call ((fd, ev) # fired) s =
     (case fire_one call fd (fired_mask ev) s of None \<Rightarrow> None | Some s' \<Rightarrow> fire_all call fired s')"

text \<open>An event that an earlier procedure of the same round unregistered is not handled.\<close>

lemma fire_one_stale:
  "ae_slot el fd = Some fe \<Longrightarrow> fe_mask fe = AE_NONE \<Longrightarrow> fire_one call fd msk (el, w) = Some (el, w)"
  by (simp add: fire_one_def AE_NONE_def)

subsection \<open>Moments\<close>

lemma smod_bounds:
  "- 1000 < (m :: int) smod 1000" "m smod 1000 < 1000" "0 \<le> m \<Longrightarrow> 0 \<le> m smod 1000" "m \<le> 0 \<Longrightarrow> m smod 1000 \<le> 0"
  using smod_int_range [of 1000 m] smod_int_compares [of m 1000] by auto

lemma aeAdd_ok:
  assumes "moment_ok now"
  shows "ms_of (aeAddMillisecondsToNow now m) = ms_of now + m"
    "0 \<le> m \<Longrightarrow> moment_ok (aeAddMillisecondsToNow now m)"
  using assms sdiv_mult_smod_eq [of m 1000] smod_bounds [of m]
  by (auto simp: aeAddMillisecondsToNow_def ms_of_def moment_ok_def Let_def)

lemma te_due_iff:
  "moment_ok now \<Longrightarrow> moment_ok (te_moment te) \<Longrightarrow> te_due now te \<longleftrightarrow> ms_of (te_moment te) \<le> ms_of now"
  by (auto simp: te_due_def ms_of_def moment_ok_def te_moment_def)

lemma te_before_iff:
  "moment_ok (te_moment a) \<Longrightarrow> moment_ok (te_moment b) \<Longrightarrow> te_before a b \<longleftrightarrow> ms_of (te_moment a) < ms_of (te_moment b)"
  by (auto simp: te_before_def ms_of_def moment_ok_def te_moment_def)

lemma te_due_mono:
  "te_due t te \<Longrightarrow> moment_ok t \<Longrightarrow> moment_ok t' \<Longrightarrow> ms_of t \<le> ms_of t' \<Longrightarrow> te_due t' te"
  by (auto simp: te_due_def ms_of_def moment_ok_def)

lemma te_moment_set [simp]: "te_moment (te_set t te) = t" "te_id (te_set t te) = te_id te" "te_data (te_set t te) = te_data te"
  by (simp_all add: te_moment_def te_set_def)

text \<open>An event put off by nothing or by a negative time is due at once.\<close>

lemma te_due_not_later: "m \<le> 0 \<Longrightarrow> moment_ok now \<Longrightarrow> te_due now (te_set (aeAddMillisecondsToNow now m) te)"
  using smod_bounds [of m] sdiv_mult_smod_eq [of m 1000]
  by (auto simp: te_due_def te_set_def aeAddMillisecondsToNow_def Let_def moment_ok_def)

subsection \<open>The timeout\<close>

lemma foldl_nearest:
  assumes "foldl (\<lambda>nearest te. case nearest of None \<Rightarrow> Some te | Some n \<Rightarrow> if te_before te n then Some te else Some n) (Some a) tes = r"
  shows "\<exists>n. r = Some n \<and> n \<in> set (a # tes) \<and>
    ((\<forall>te \<in> set (a # tes). moment_ok (te_moment te)) \<longrightarrow> (\<forall>te \<in> set (a # tes). ms_of (te_moment n) \<le> ms_of (te_moment te)))"
  using assms
proof (induction tes arbitrary: a)
  case (Cons x tes)
  then show ?case using te_before_iff [of x a] by (fastforce split: if_splits)
qed simp

lemma aeSearchNearestTimer_ok:
  assumes "\<forall>te \<in> set (ae_timeEvents el). moment_ok (te_moment te)"
  shows "case aeSearchNearestTimer el of
      None \<Rightarrow> ae_timeEvents el = []
    | Some n \<Rightarrow> n \<in> set (ae_timeEvents el) \<and> (\<forall>te \<in> set (ae_timeEvents el). ms_of (te_moment n) \<le> ms_of (te_moment te))"
proof (cases "ae_timeEvents el")
  case (Cons a tes)
  then show ?thesis using foldl_nearest [OF refl, of a tes] assms by (auto simp: aeSearchNearestTimer_def)
qed (simp add: aeSearchNearestTimer_def)

lemma ae_poll_timeout_some:
  assumes n: "aeSearchNearestTimer el = Some n" and ok: "moment_ok now" "moment_ok (te_moment n)"
  shows "ae_poll_timeout el now =
    (let d = ms_of (te_moment n) - ms_of now in if 0 \<le> d then d else d mod 1000)"
proof -
  define ds where "ds = te_when_sec n - fst now"
  define dm where "dm = te_when_ms n - snd now"
  have d: "ms_of (te_moment n) - ms_of now = ds * 1000 + dm" by (simp add: ms_of_def te_moment_def ds_def dm_def)
  have b: "- 1000 < dm" "dm < 1000" using ok by (auto simp: moment_ok_def te_moment_def dm_def)
  have t: "ae_poll_timeout el now =
    (if dm < 0 then (if ds - 1 < 0 then 0 else ds - 1) * 1000 + (dm + 1000) else (if ds < 0 then 0 else ds) * 1000 + dm)"
    using b by (auto simp: ae_poll_timeout_def n Let_def ds_def dm_def algebra_simps)
  have "(ds * 1000 + dm) mod 1000 = (if dm < 0 then dm + 1000 else dm)"
  proof -
    have "(ds * 1000 + dm) mod 1000 = dm mod 1000" by simp
    also have "\<dots> = (if dm < 0 then dm + 1000 else dm)"
      using b mod_pos_pos_trivial [of "dm + 1000" 1000] by (cases "dm < 0") auto
    finally show ?thesis .
  qed
  then show ?thesis unfolding d t Let_def using b by auto
qed

subsection \<open>A pass over the time events\<close>

text \<open>
  What a pass does while the clock stands at \<open>now\<close>: the due events that are not newer than the
  pass are called in list order; one that returns AE_NOMORE goes to its finalizer, the others
  are put off by what they returned.
\<close>

definition te_skip :: "int \<Rightarrow> moment \<Rightarrow> 'e aeTimeEvent \<Rightarrow> bool" where
  "te_skip maxId now te \<longleftrightarrow> te_id te > maxId \<or> \<not> te_due now te"

fun run_due :: "moment \<Rightarrow> (int \<Rightarrow> 'e \<Rightarrow> 'w \<Rightarrow> int \<times> 'w) \<Rightarrow> int \<Rightarrow> 'w \<Rightarrow> 'e aeTimeEvent list \<Rightarrow>
    int \<times> 'e aeTimeEvent list \<times> 'e aeTimeEvent list \<times> 'w" where
  "run_due now pr maxId w [] = (0, [], [], w)"
| "run_due now pr maxId w (te # tes) =
     (if te_skip maxId now te then (case run_due now pr maxId w tes of (c, l, f, w') \<Rightarrow> (c, te # l, f, w'))
      else case pr (te_id te) (te_data te) w of (r, w1) \<Rightarrow>
        (case run_due now pr maxId w1 tes of (c, l, f, w') \<Rightarrow>
           if r = AE_NOMORE then (c + 1, l, te # f, w')
           else (c + 1, te_set (aeAddMillisecondsToNow now r) te # l, f, w')))"

lemma scan_skip:
  assumes "\<And>w. gettime w = (now, w)" "\<forall>te \<in> set ps. te_skip maxId now te"
  shows "scan_time_events gettime pr maxId n w pre (ps @ tes) = scan_time_events gettime pr maxId n w (pre @ ps) tes"
  using assms(2)
proof (induction ps arbitrary: pre)
  case (Cons te ps)
  then show ?case by (auto simp: scan_time_events.simps(2) assms(1) te_skip_def)
qed simp

lemma te_unlink_append:
  "distinct (map te_id (pre @ te # tes)) \<Longrightarrow> te_unlink (te_id te) (pre @ te # tes) = (Some te, pre @ tes)"
  by (induction pre) auto

lemma scan_ok:
  assumes clock: "\<And>w. gettime w = (now, w)" and ok: "moment_ok now"
    and pre: "\<forall>te \<in> set pre. te_skip maxId now te" and ids: "distinct (map te_id (pre @ tes))"
    and ret: "\<forall>te \<in> set tes. \<forall>w. fst (pr (te_id te) (te_data te) w) = AE_NOMORE \<or> 0 < fst (pr (te_id te) (te_data te) w)"
    and n: "length (filter (\<lambda>te. \<not> te_skip maxId now te) tes) \<le> n"
  shows "scan_time_events gettime pr maxId n w pre tes =
    (case run_due now pr maxId w tes of (c, l, f, w') \<Rightarrow> Some (c, pre @ l, f, w'))"
  using pre ids ret n
proof (induction tes arbitrary: pre n w)
  case (Cons te tes)
  show ?case
  proof (cases "te_skip maxId now te")
    case True
    have "scan_time_events gettime pr maxId n w pre (te # tes) = scan_time_events gettime pr maxId n w (pre @ [te]) tes"
      using scan_skip [of gettime now "[te]" maxId pr n w pre tes] clock True by simp
    then show ?thesis using Cons.IH [of "pre @ [te]" n w] Cons.prems True by (auto split: prod.splits)
  next
    case False
    then obtain m where m: "n = Suc m" "length (filter (\<lambda>te. \<not> te_skip maxId now te) tes) \<le> m"
      using Cons.prems(4) by (cases n) auto
    obtain r w1 where r: "pr (te_id te) (te_data te) w = (r, w1)" by (cases "pr (te_id te) (te_data te) w")
    have rr: "r = AE_NOMORE \<or> 0 < r" using Cons.prems(3) r by (metis fst_conv list.set_intros(1))
    show ?thesis
    proof (cases "r = AE_NOMORE")
      case True
      have "te_unlink (te_id te) (pre @ te # tes) = (Some te, pre @ tes)"
        by (rule te_unlink_append [OF Cons.prems(2)])
      then have "scan_time_events gettime pr maxId n w pre (te # tes) =
        map_option (\<lambda>(c, l, f, w'). (c + 1, l, te # f, w')) (scan_time_events gettime pr maxId m w1 [] (pre @ tes))"
        using False m r True by (simp add: scan_time_events.simps(2) clock te_skip_def)
      also have "scan_time_events gettime pr maxId m w1 [] (pre @ tes) = scan_time_events gettime pr maxId m w1 pre tes"
        using scan_skip [of gettime now pre maxId pr m w1 "[]" tes] clock Cons.prems(1) by simp
      finally show ?thesis using Cons.IH [of pre m w1] Cons.prems m False r True by (auto split: prod.splits)
    next
      case cont: False
      let ?te = "te_set (aeAddMillisecondsToNow now r) te"
      have "ms_of now < ms_of (te_moment ?te)" "moment_ok (te_moment ?te)" using aeAdd_ok [OF ok, of r] rr cont by auto
      then have sk: "te_skip maxId now ?te" using te_due_iff [OF ok, of ?te] by (simp add: te_skip_def)
      have "scan_time_events gettime pr maxId n w pre (te # tes) =
        map_option (\<lambda>(c, r). (c + 1, r)) (scan_time_events gettime pr maxId m w1 [] ((pre @ [?te]) @ tes))"
        using False m r cont by (simp add: scan_time_events.simps(2) clock te_skip_def)
      also have "scan_time_events gettime pr maxId m w1 [] ((pre @ [?te]) @ tes) =
        scan_time_events gettime pr maxId m w1 (pre @ [?te]) tes"
        using scan_skip [of gettime now "pre @ [?te]" maxId pr m w1 "[]" tes] clock Cons.prems(1) sk by simp
      finally show ?thesis using Cons.IH [of "pre @ [?te]" m w1] Cons.prems m False r cont sk by (auto split: prod.splits)
    qed
  qed
qed simp

text \<open>An event that is always put off by nothing or a negative time other than -1 is due again at once.\<close>

lemma scan_stuck:
  assumes ok: "\<And>w. moment_ok (clk w)"
    and time: "\<And>w. fst (gettime w) = clk w" "\<And>w. ms_of (clk w) \<le> ms_of (clk (snd (gettime w)))"
    and proc: "\<And>i d w. ms_of (clk w) \<le> ms_of (clk (snd (pr i d w)))"
    and bad: "\<And>w. fst (pr i dat w) \<le> 0 \<and> fst (pr i dat w) \<noteq> AE_NOMORE" and i: "i \<le> maxId"
    and te: "te \<in> set tes" "te_id te = i" "te_data te = dat" "te_due (clk w) te" and ids: "distinct (map te_id (pre @ tes))"
  shows "scan_time_events gettime pr maxId n w pre tes = None"
  using te ids
proof (induction n arbitrary: w pre tes te rule: less_induct)
  case (less n)
  from less.prems show ?case
  proof (induction tes arbitrary: w pre)
    case (Cons x tes)
    have later: "te_due (clk w') te" if "ms_of (clk w) \<le> ms_of (clk w')" for w'
      by (rule te_due_mono [OF Cons.prems(4) ok ok that])
    have get: "\<exists>v'. gettime v = (clk v, v') \<and> ms_of (clk v) \<le> ms_of (clk v')" for v
      using time [of v] by (cases "gettime v") auto
    obtain w1 where g: "gettime w = (clk w, w1)" "ms_of (clk w) \<le> ms_of (clk w1)" using get by blast
    show ?case
    proof (cases "te_id x > maxId \<or> \<not> te_due (clk w) x")
      case True
      then have "te \<in> set tes" using Cons.prems(1,2,4) i by auto
      moreover have ids: "distinct (map te_id ((pre @ [x]) @ tes))" using Cons.prems(5) by simp
      ultimately have "scan_time_events gettime pr maxId n w (pre @ [x]) tes = None"
        "scan_time_events gettime pr maxId n w1 (pre @ [x]) tes = None"
        using Cons.IH [of w "pre @ [x]"] Cons.IH [of w1 "pre @ [x]"] Cons.prems(2,3,4) later [OF g(2)] by blast+
      then show ?thesis using True by (subst scan_time_events.simps(2)) (auto simp: g(1))
    next
      case False
      show ?thesis
      proof (cases n)
        case 0
        then show ?thesis using False by (simp add: scan_time_events.simps(2) g(1))
      next
        case (Suc m)
        obtain r w2 where r: "pr (te_id x) (te_data x) w1 = (r, w2)" by (cases "pr (te_id x) (te_data x) w1")
        have w2: "ms_of (clk w) \<le> ms_of (clk w2)"
          using g(2) proc [of w1 "te_id x" "te_data x"] r by simp
        obtain w3 where g3: "gettime w2 = (clk w2, w3)" "ms_of (clk w2) \<le> ms_of (clk w3)" using get by blast
        have w3: "ms_of (clk w) \<le> ms_of (clk w3)" using w2 g3(2) by simp
        show ?thesis
        proof (cases "r = AE_NOMORE")
          case True
          then have "x \<noteq> te" using bad [of w1] r Cons.prems(2,3) by auto
          then have in': "te \<in> set (pre @ tes)" using Cons.prems(1) by auto
          have "te_unlink (te_id x) (pre @ x # tes) = (Some x, pre @ tes)"
            by (rule te_unlink_append [OF Cons.prems(5)])
          moreover have "scan_time_events gettime pr maxId m w2 [] (pre @ tes) = None"
            using less.IH [of m te "pre @ tes" w2 "[]"] Suc in' Cons.prems(2,3,5) later [OF w2] by auto
          ultimately show ?thesis using False Suc r True by (simp add: scan_time_events.simps(2) g(1))
        next
          case cont: False
          let ?x = "te_set (aeAddMillisecondsToNow (clk w2) r) x"
          have "scan_time_events gettime pr maxId m w3 [] (pre @ ?x # tes) = None"
          proof (cases "x = te")
            case True
            then have "r \<le> 0" using bad [of w1] r Cons.prems(2,3) by auto
            then have "te_due (clk w2) ?x" using te_due_not_later ok by blast
            then have "te_due (clk w3) ?x" using te_due_mono ok g3(2) by blast
            then show ?thesis using less.IH [of m ?x "pre @ ?x # tes" w3 "[]"] Suc Cons.prems(2,3,5) True by auto
          next
            case False
            then show ?thesis
              using less.IH [of m te "pre @ ?x # tes" w3 "[]"] Suc Cons.prems(1,2,3,5) later [OF w3] by auto
          qed
          then show ?thesis using False Suc r cont by (simp add: scan_time_events.simps(2) g(1) g3(1))
        qed
      qed
    qed
  qed simp
qed

lemma ae_pass:
  assumes "\<And>w. gettime w = (now, w)" "moment_ok now" "distinct (map te_id (ae_timeEvents el))" "ae_lastTime el \<le> t"
    "\<forall>te \<in> set (ae_timeEvents el). \<forall>w. fst (pr (te_id te) (te_data te) w) = AE_NOMORE \<or> 0 < fst (pr (te_id te) (te_data te) w)"
    "length (filter (\<lambda>te. \<not> te_skip (ae_timeEventNextId el - 1) now te) (ae_timeEvents el)) \<le> n"
  shows "processTimeEvents gettime pr n t w el =
    (case run_due now pr (ae_timeEventNextId el - 1) w (ae_timeEvents el) of
       (c, l, f, w') \<Rightarrow> Some (c, f, el\<lparr>ae_lastTime := t, ae_timeEvents := l\<rparr>, w'))"
  using scan_ok [of gettime now "[]" "ae_timeEventNextId el - 1" "ae_timeEvents el" pr n w] assms
  by (simp add: processTimeEvents_def split: prod.split)

subsection \<open>Properties\<close>



text \<open>
  The sleep of a round of aeMain. Without time events it is unbounded; before the nearest
  event it is exactly the time left, in milliseconds. An event that is overdue does not make
  the round return at once: only the seconds are clamped to 0, so the loop sleeps for the
  difference of the millisecond parts, up to 999 ms.
\<close>
theorem ae_timeout:
  assumes "moment_ok now" "\<forall>te \<in> set (ae_timeEvents el). moment_ok (te_moment te)"
  shows "ae_poll_timeout el now =
    (if ae_timeEvents el = [] then - 1
     else let left = Min ((\<lambda>te. ms_of (te_moment te)) ` set (ae_timeEvents el)) - ms_of now
          in if 0 \<le> left then left else left mod 1000)"
proof (cases "aeSearchNearestTimer el")
  case None
  then show ?thesis using aeSearchNearestTimer_ok [OF assms(2)] by (simp add: ae_poll_timeout_def)
next
  case (Some n)
  then have n: "n \<in> set (ae_timeEvents el)" "\<forall>te \<in> set (ae_timeEvents el). ms_of (te_moment n) \<le> ms_of (te_moment te)"
    using aeSearchNearestTimer_ok [OF assms(2)] by auto
  then have "Min ((\<lambda>te. ms_of (te_moment te)) ` set (ae_timeEvents el)) = ms_of (te_moment n)"
    by (intro Min_eqI) auto
  then show ?thesis using ae_poll_timeout_some [OF Some assms(1)] assms(2) n(1) by auto
qed

definition ae_timers_example :: "(nat, nat, nat) aeEventLoop" where
  "ae_timers_example = (aeCreateEventLoop 1 10)\<lparr>ae_timeEventNextId := 2, ae_timeEvents :=
     [\<lparr>te_id = 1, te_when_sec = 12, te_when_ms = 250, te_data = 8\<rparr>, \<lparr>te_id = 0, te_when_sec = 10, te_when_ms = 999, te_data = 7\<rparr>]\<rparr>"

lemma ae_timeout_witness:
  "ae_poll_timeout ae_timers_example (10, 400) = 599 \<and> ae_poll_timeout ae_timers_example (11, 0) = 999"
proof -
  have ok: "\<forall>te \<in> set (ae_timeEvents ae_timers_example). moment_ok (te_moment te)"
    by (simp add: ae_timers_example_def moment_ok_def te_moment_def)
  have "moment_ok (10, 400)" "moment_ok (11, 0)" by (simp_all add: moment_ok_def)
  from this [THEN ae_timeout, OF ok] show ?thesis
    by (simp add: ae_timers_example_def te_moment_def ms_of_def)
qed

text \<open>
  A pass over the time events, while the clock stands still. If every procedure that is
  called returns AE_NOMORE or a positive time, the pass ends after one call for each due event
  that existed when it began, in list order (n calls are enough, and no other event is
  called); the events that returned AE_NOMORE are unlinked and given to their finalizer, the
  others are put off, and everything else is unchanged.
\<close>
theorem ae_process_time_events:
  assumes "\<And>w. gettime w = (now, w)" "moment_ok now" "distinct (map te_id (ae_timeEvents el))" "ae_lastTime el \<le> t"
    "\<forall>te \<in> set (ae_timeEvents el). \<forall>w. fst (pr (te_id te) (te_data te) w) = AE_NOMORE \<or> 0 < fst (pr (te_id te) (te_data te) w)"
    "length (filter (\<lambda>te. \<not> te_skip (ae_timeEventNextId el - 1) now te) (ae_timeEvents el)) \<le> n"
  shows "processTimeEvents gettime pr n t w el =
    (case run_due now pr (ae_timeEventNextId el - 1) w (ae_timeEvents el) of
       (c, l, f, w') \<Rightarrow> Some (c, f, el\<lparr>ae_lastTime := t, ae_timeEvents := l\<rparr>, w'))"
  by (rule ae_pass) (use assms in auto)

text \<open>The world is the log of the calls; event 1 repeats every second, event 0 is called once.\<close>

lemma ae_process_time_events_witness:
  "processTimeEvents (\<lambda>w. ((13, 0), w)) (\<lambda>i d w. (if i = 1 then 1000 else AE_NOMORE, w @ [d])) 2 13 [] ae_timers_example =
     Some (2, [\<lparr>te_id = 0, te_when_sec = 10, te_when_ms = 999, te_data = 7\<rparr>],
       ae_timers_example\<lparr>ae_lastTime := 13, ae_timeEvents :=
         [\<lparr>te_id = 1, te_when_sec = 14, te_when_ms = 0, te_data = 8\<rparr>]\<rparr>, [8, 7])"
proof -
  have "moment_ok (13, 0)" by (simp add: moment_ok_def)
  then have "processTimeEvents (\<lambda>w. ((13, 0), w)) (\<lambda>i d w. (if i = 1 then 1000 else AE_NOMORE, w @ [d])) 2 13 [] ae_timers_example =
    (case run_due (13, 0) (\<lambda>i d w. (if i = 1 then 1000 else AE_NOMORE, w @ [d])) (ae_timeEventNextId ae_timers_example - 1) []
       (ae_timeEvents ae_timers_example) of
       (c, l, f, w') \<Rightarrow> Some (c, f, ae_timers_example\<lparr>ae_lastTime := 13, ae_timeEvents := l\<rparr>, w'))"
    by (intro ae_process_time_events) (simp_all add: ae_timers_example_def aeCreateEventLoop_def)
  then show ?thesis
    by (simp add: ae_timers_example_def te_skip_def te_due_def te_set_def aeAddMillisecondsToNow_def AE_NOMORE_def)
qed

end
