(* ===== verification/Timer.thy ===== *)
theory Timer
  imports Ae Dict
begin

section \<open>Timers (src/timer.c)\<close>

text \<open>
  A thread with an event loop of its own serves the timers of all contexts. The other threads
  push a \<open>struct timerEvent\<close> on its event queue; the thread's emCallback takes each one and
  creates a time event, cancels one, or stops the loop; timeProc sends the response when a
  time event is due. \<open>timerDict\<close> maps the serial number a client holds to the id of the time
  event: the table of dict.c, under the contract \<open>kv_store\<close>.

  The queue is a list of pending events, and whether it takes one more is an argument
  (emPush fails on a full queue); \<open>send\<close> is zSend, which acts on the state of the world.
  The theorems: cancelling removes exactly the timer that was started, unless its serial number
  was used before; what a pass sends; and that a repeated timer with a negative time keeps the
  thread in its pass for ever.
\<close>

unbundle bit_operations_syntax

record timerEvent =
  tv_sn :: u32
  tv_to :: int
  tv_value :: u32     \<comment> \<open>the union of session and sn\<close>
  tv_time :: int
  tv_noMore :: int
  tv_type :: int

record timer =
  tm_base :: "(unit, unit, timerEvent) aeEventLoop"
  tm_em :: "timerEvent list"
  tm_dict :: "(u32, int) dict"
  tm_sn :: u32

definition timerDictType :: "u32 dictType" where
  "timerDictType = \<lparr>hashFunction = (\<lambda>sn. sn), keyCompare = (=)\<rparr>"

interpretation timer_dict: dict_keys timerDictType
  by unfold_locales (auto simp: timerDictType_def)

definition timerInit :: "int \<Rightarrow> timer" where
  "timerInit now = \<lparr>tm_base = aeCreateEventLoop 32 now, tm_em = [], tm_dict = dictCreate, tm_sn = 0\<rparr>"

definition timerNewSn :: "timer \<Rightarrow> u32 \<times> timer" where
  "timerNewSn T = (let sn' = tm_sn T + 1 in (sn' AND 0x7fffffff, T\<lparr>tm_sn := sn'\<rparr>))"

text \<open>The event queue as this file sees it.\<close>

definition em_offer :: "bool \<Rightarrow> timer \<Rightarrow> timerEvent \<Rightarrow> bool \<times> timer" where
  "em_offer room T event = (if room then (True, T\<lparr>tm_em := tm_em T @ [event]\<rparr>) else (False, T))"

definition timerCancel :: "bool \<Rightarrow> timer \<Rightarrow> timerEvent \<Rightarrow> u32 \<Rightarrow> timer" where
  "timerCancel room T fresh sn = snd (em_offer room T (fresh\<lparr>tv_value := sn, tv_type := 1\<rparr>))"

definition timerStop :: "bool \<Rightarrow> timer \<Rightarrow> timerEvent \<Rightarrow> timer" where
  "timerStop room T fresh = snd (em_offer room T (fresh\<lparr>tv_type := 2\<rparr>))"

text \<open>The result, the timer and the world; a time of 0 is answered without a timer.\<close>

definition timerTimeout :: "(int \<Rightarrow> u32 \<Rightarrow> 'w \<Rightarrow> int \<times> 'w) \<Rightarrow> bool \<Rightarrow> timer \<Rightarrow> 'w \<Rightarrow> int \<Rightarrow> int \<Rightarrow> u32 \<Rightarrow> int \<Rightarrow>
    int \<times> timer \<times> 'w" where
  "timerTimeout send room T w to time session noMore =
     (if time = 0
      then (case send to session w of (r, w') \<Rightarrow> if r < 0 then (- 1, T, w') else (0, T, w'))
      else case timerNewSn T of (sn, T1) \<Rightarrow>
        (case em_offer room T1 \<lparr>tv_sn = sn, tv_to = to, tv_value = session, tv_time = time, tv_noMore = noMore, tv_type = 0\<rparr> of
           (pushed, T2) \<Rightarrow> if pushed then (uint sn, T2, w) else (- 1, T2, w)))"

definition timeProc :: "(int \<Rightarrow> u32 \<Rightarrow> 'w \<Rightarrow> int \<times> 'w) \<Rightarrow> int \<Rightarrow> timerEvent \<Rightarrow> 'w \<Rightarrow> int \<times> 'w" where
  "timeProc send i event w =
     (case send (tv_to event) (tv_value event) w of (r, w') \<Rightarrow>
        if r < 0 then (AE_NOMORE, w')
        else if tv_noMore event = 0 then (AE_NOMORE, w')
        else (tv_time event, w'))"

text \<open>One event taken from the queue; the clock is \<open>now\<close>.\<close>

definition emCallback :: "moment \<Rightarrow> timer \<Rightarrow> timerEvent \<Rightarrow> timer option" where
  "emCallback now T event =
     (if tv_type event = 0
      then (case aeCreateTimeEvent (tm_base T) now (tv_time event) event of (i, base) \<Rightarrow>
              map_option (\<lambda>(_, d). T\<lparr>tm_base := base, tm_dict := d\<rparr>)
                (dictAdd True timerDictType (tm_dict T) (tv_sn event) i))
      else if tv_type event = 1
      then (case dictFetchValue timerDictType (tm_dict T) (tv_value event) of
              None \<Rightarrow> None
            | Some (None, d) \<Rightarrow> Some (T\<lparr>tm_dict := d\<rparr>)
            | Some (Some i, d) \<Rightarrow> Some (T\<lparr>tm_base := snd (aeDeleteTimeEvent (tm_base T) i), tm_dict := d\<rparr>))
      else Some (T\<lparr>tm_base := aeStop (tm_base T)\<rparr>))"

fun emCallbacks :: "moment \<Rightarrow> timer \<Rightarrow> timerEvent list \<Rightarrow> timer option" where
  "emCallbacks now T [] = Some T"
| "emCallbacks now T (e # es) = (case emCallback now T e of None \<Rightarrow> None | Some T' \<Rightarrow> emCallbacks now T' es)"

text \<open>The pass of the thread's loop over its time events.\<close>

definition timer_pass :: "(int \<Rightarrow> u32 \<Rightarrow> 'w \<Rightarrow> int \<times> 'w) \<Rightarrow> ('w \<Rightarrow> moment \<times> 'w) \<Rightarrow> nat \<Rightarrow> int \<Rightarrow> 'w \<Rightarrow> timer \<Rightarrow>
    (int \<times> timerEvent aeTimeEvent list \<times> timer \<times> 'w) option" where
  "timer_pass send gettime n t w T =
     map_option (\<lambda>(c, f, base, w'). (c, f, T\<lparr>tm_base := base\<rparr>, w'))
       (processTimeEvents gettime (timeProc send) n t w (tm_base T))"

subsection \<open>The invariant\<close>

abbreviation timer_ids :: "timer \<Rightarrow> u32 \<rightharpoonup> int" where
  "timer_ids T \<equiv> dict_view timerDictType (tm_dict T)"

abbreviation timer_events :: "timer \<Rightarrow> timerEvent aeTimeEvent list" where
  "timer_events T \<equiv> ae_timeEvents (tm_base T)"

text \<open>Ids are fresh, and the table only holds ids that were given out.\<close>

definition timer_ok :: "timer \<Rightarrow> bool" where
  "timer_ok T \<longleftrightarrow> dict_ok timerDictType (tm_dict T) \<and> distinct (map te_id (timer_events T)) \<and>
     (\<forall>te \<in> set (timer_events T). te_id te < ae_timeEventNextId (tm_base T)) \<and>
     (\<forall>i \<in> ran (timer_ids T). i < ae_timeEventNextId (tm_base T))"

lemma timerInit_ok: "timer_ok (timerInit now)"
  by (simp add: timer_ok_def timerInit_def aeCreateEventLoop_def dict_view_empty)

lemma te_unlink_set: "set (snd (te_unlink i tes)) \<subseteq> set tes"
  and te_unlink_distinct: "distinct (map te_id tes) \<Longrightarrow> distinct (map te_id (snd (te_unlink i tes)))"
proof -
  show s: "set (snd (te_unlink i tes)) \<subseteq> set tes" for tes :: "'a aeTimeEvent list"
    by (induction tes) (auto split: prod.splits)
  show "distinct (map te_id tes) \<Longrightarrow> distinct (map te_id (snd (te_unlink i tes)))"
    using s by (induction tes) (fastforce split: prod.splits)+
qed

lemma te_unlink_filter: "distinct (map te_id tes) \<Longrightarrow> snd (te_unlink i tes) = filter (\<lambda>te. te_id te \<noteq> i) tes"
  by (induction tes) (auto simp: image_iff split: prod.splits intro!: filter_True [symmetric])

lemma emCallback_add:
  assumes ok: "timer_ok T" and ty: "tv_type e = 0" and room: "dictSize (tm_dict T) < 2 ^ 30"
  shows "\<exists>T' te. emCallback now T e = Some T' \<and> timer_ok T' \<and> timer_events T' = te # timer_events T \<and>
    te_data te = e \<and> te_moment te = aeAddMillisecondsToNow now (tv_time e) \<and> te_id te = ae_timeEventNextId (tm_base T) \<and>
    timer_ids T' = (if timer_ids T (tv_sn e) = None then (timer_ids T)(tv_sn e \<mapsto> te_id te) else timer_ids T) \<and>
    ae_timeEventNextId (tm_base T') = ae_timeEventNextId (tm_base T) + 1"
proof -
  let ?i = "ae_timeEventNextId (tm_base T)"
  let ?t = "aeAddMillisecondsToNow now (tv_time e)"
  let ?te = "\<lparr>te_id = ?i, te_when_sec = fst ?t, te_when_ms = snd ?t, te_data = e\<rparr>"
  obtain d where d: "dictAdd True timerDictType (tm_dict T) (tv_sn e) ?i = Some (timer_ids T (tv_sn e) = None, d)"
    "dict_ok timerDictType d"
    "dict_view timerDictType d = (if timer_ids T (tv_sn e) = None then (timer_ids T)(tv_sn e \<mapsto> ?i) else timer_ids T)"
    using timer_dict.add_law [OF _ room] ok unfolding timer_ok_def by blast
  let ?T = "T\<lparr>tm_base := (tm_base T)\<lparr>ae_timeEventNextId := ?i + 1, ae_timeEvents := ?te # timer_events T\<rparr>, tm_dict := d\<rparr>"
  have "emCallback now T e = Some ?T" using ty d(1) by (simp add: emCallback_def aeCreateTimeEvent_def Let_def)
  moreover have "timer_ok ?T"
    using ok d(2,3) ran_map_upd [of "timer_ids T" "tv_sn e" ?i] by (fastforce simp: timer_ok_def)
  ultimately show ?thesis using d(3) by (intro exI [of _ ?T] exI [of _ ?te]) (simp add: te_moment_def)
qed

lemma emCallback_cancel:
  assumes ok: "timer_ok T" and ty: "tv_type e = 1"
  shows "\<exists>T'. emCallback now T e = Some T' \<and> timer_ok T' \<and> timer_ids T' = timer_ids T \<and>
    timer_events T' = (case timer_ids T (tv_value e) of None \<Rightarrow> timer_events T
      | Some i \<Rightarrow> filter (\<lambda>te. te_id te \<noteq> i) (timer_events T))"
proof -
  obtain d where d: "dictFetchValue timerDictType (tm_dict T) (tv_value e) = Some (timer_ids T (tv_value e), d)"
    "dict_ok timerDictType d" "dict_view timerDictType d = timer_ids T"
    using timer_dict.fetch_law ok unfolding timer_ok_def by blast
  show ?thesis
  proof (cases "timer_ids T (tv_value e)")
    case None
    then show ?thesis using ok ty d by (simp add: emCallback_def timer_ok_def)
  next
    case (Some i)
    let ?T = "T\<lparr>tm_base := snd (aeDeleteTimeEvent (tm_base T) i), tm_dict := d\<rparr>"
    have ev: "timer_events ?T = filter (\<lambda>te. te_id te \<noteq> i) (timer_events T)"
      "ae_timeEventNextId (tm_base ?T) = ae_timeEventNextId (tm_base T)"
      using te_unlink_filter [of "timer_events T" i] ok
      by (auto simp: aeDeleteTimeEvent_def timer_ok_def split: prod.split)
    have "timer_ok ?T" using ok d(2,3) ev by (auto simp: timer_ok_def distinct_map inj_on_def)
    then show ?thesis using Some ty d ev(1) by (intro exI [of _ ?T]) (simp add: emCallback_def)
  qed
qed

subsection \<open>A pass of the timer thread\<close>

definition timer_ends :: "timerEvent \<Rightarrow> bool" where
  "timer_ends e \<longleftrightarrow> tv_noMore e = 0 \<or> tv_time e = AE_NOMORE"

abbreviation log_send :: "int \<Rightarrow> u32 \<Rightarrow> (int \<times> u32) list \<Rightarrow> int \<times> (int \<times> u32) list" where
  "log_send \<equiv> \<lambda>to session w. (0, w @ [(to, session)])"

definition timer_left :: "int \<Rightarrow> moment \<Rightarrow> timerEvent aeTimeEvent \<Rightarrow> timerEvent aeTimeEvent list" where
  "timer_left maxId now te =
     (if te_skip maxId now te then [te] else if timer_ends (te_data te) then []
      else [te_set (aeAddMillisecondsToNow now (tv_time (te_data te))) te])"

lemma run_due_timer:
  "run_due now (timeProc log_send) maxId w tes =
    (let due = filter (\<lambda>te. \<not> te_skip maxId now te) tes
     in (int (length due), concat (map (timer_left maxId now) tes), filter (\<lambda>te. timer_ends (te_data te)) due,
         w @ map (\<lambda>te. (tv_to (te_data te), tv_value (te_data te))) due))"
  by (induction tes arbitrary: w) (auto simp: timeProc_def timer_left_def timer_ends_def Let_def)

subsection \<open>Properties\<close>

text \<open>
  Starting and cancelling. Taking a start event with a new serial number creates exactly one
  time event, due after the time asked for, and cancelling that serial number later removes
  exactly this time event, whatever other timers exist. The entry in the table stays; so when
  the serial number comes round again, the new timer is started all the same but its entry
  cannot be added, and cancelling it leaves it running.
\<close>
theorem timer_add_cancel:
  assumes "timer_ok T" "dictSize (tm_dict T) < 2 ^ 30" "tv_type e = 0" "tv_type c = 1" "tv_value c = tv_sn e"
  shows "\<exists>T1 T2 te. emCallback now T e = Some T1 \<and> timer_ok T1 \<and> timer_events T1 = te # timer_events T \<and>
    te_data te = e \<and> te_moment te = aeAddMillisecondsToNow now (tv_time e) \<and>
    emCallback now' T1 c = Some T2 \<and> timer_ok T2 \<and> timer_ids T2 (tv_sn e) \<noteq> None \<and>
    (if timer_ids T (tv_sn e) = None then timer_events T2 = timer_events T else te \<in> set (timer_events T2))"
proof -
  obtain T1 te where a: "emCallback now T e = Some T1" "timer_ok T1" "timer_events T1 = te # timer_events T"
    "te_data te = e" "te_moment te = aeAddMillisecondsToNow now (tv_time e)" "te_id te = ae_timeEventNextId (tm_base T)"
    "timer_ids T1 = (if timer_ids T (tv_sn e) = None then (timer_ids T)(tv_sn e \<mapsto> te_id te) else timer_ids T)"
    using emCallback_add [OF assms(1,3,2)] by blast
  obtain T2 where c: "emCallback now' T1 c = Some T2" "timer_ok T2" "timer_ids T2 = timer_ids T1"
    "timer_events T2 = (case timer_ids T1 (tv_sn e) of None \<Rightarrow> timer_events T1
      | Some i \<Rightarrow> filter (\<lambda>te. te_id te \<noteq> i) (timer_events T1))"
    using emCallback_cancel [OF a(2) assms(4)] assms(5) by metis
  show ?thesis
  proof (cases "timer_ids T (tv_sn e)")
    case None
    have "filter (\<lambda>x. te_id x \<noteq> te_id te) (timer_events T) = timer_events T"
      using assms(1) a(6) by (intro filter_True) (auto simp: timer_ok_def)
    then show ?thesis using a c None by (intro exI [of _ T1] exI [of _ T2] exI [of _ te]) simp
  next
    case (Some i)
    then have "i < te_id te" using assms(1) a(6) by (auto simp: timer_ok_def ran_def)
    then show ?thesis using a c Some by (intro exI [of _ T1] exI [of _ T2] exI [of _ te]) simp
  qed
qed

definition timer_event_example :: timerEvent where
  "timer_event_example = \<lparr>tv_sn = 1, tv_to = 5, tv_value = 9, tv_time = 1500, tv_noMore = 1, tv_type = 0\<rparr>"

lemma timer_add_cancel_witness:
  "\<exists>T1 T2 te. emCallback (10, 600) (timerInit 10) timer_event_example = Some T1 \<and> timer_events T1 = [te] \<and>
     te_moment te = (12, 100) \<and> emCallback (11, 0) T1 (timer_event_example\<lparr>tv_value := 1, tv_type := 1\<rparr>) = Some T2 \<and>
     timer_events T2 = []"
proof -
  have "dictSize (tm_dict (timerInit 10)) < 2 ^ 30" "timer_ids (timerInit 10) 1 = None" "timer_events (timerInit 10) = []"
    by (simp_all add: timerInit_def dict_view_empty aeCreateEventLoop_def)
  with timer_add_cancel [OF timerInit_ok, of 10 timer_event_example "timer_event_example\<lparr>tv_value := 1, tv_type := 1\<rparr>" "(10, 600)" "(11, 0)"]
  show ?thesis by (fastforce simp: timer_event_example_def aeAddMillisecondsToNow_def)
qed

text \<open>
  What a pass sends. With positive times (or timers that do not repeat), when sending
  succeeds and while the clock stands still, a pass sends one response for each timer that is
  due, to its context and with its session, in the order of the list, and to no other; timers
  that do not repeat, or were set to -1, are removed, the others are due again after their time.
\<close>
theorem timer_pass_sends:
  assumes "timer_ok T" "moment_ok now" "ae_lastTime (tm_base T) \<le> t" "length (timer_events T) \<le> n"
    "\<forall>te \<in> set (timer_events T). timer_ends (te_data te) \<or> 0 < tv_time (te_data te)"
  shows "timer_pass log_send (\<lambda>w. (now, w)) n t w T =
    (let maxId = ae_timeEventNextId (tm_base T) - 1;
         due = filter (\<lambda>te. \<not> te_skip maxId now te) (timer_events T)
     in Some (int (length due), filter (\<lambda>te. timer_ends (te_data te)) due,
          T\<lparr>tm_base := (tm_base T)\<lparr>ae_lastTime := t, ae_timeEvents := concat (map (timer_left maxId now) (timer_events T))\<rparr>\<rparr>,
          w @ map (\<lambda>te. (tv_to (te_data te), tv_value (te_data te))) due))"
proof -
  let ?m = "ae_timeEventNextId (tm_base T) - 1"
  have ret: "\<forall>te \<in> set (timer_events T). \<forall>w. fst (timeProc log_send (te_id te) (te_data te) w) = AE_NOMORE \<or>
      0 < fst (timeProc log_send (te_id te) (te_data te) w)"
    using assms(5) by (auto simp: timeProc_def timer_ends_def)
  have len: "length (filter (\<lambda>te. \<not> te_skip ?m now te) (timer_events T)) \<le> n"
    using assms(4) length_filter_le order_trans by blast
  have "distinct (map te_id (timer_events T))" using assms(1) by (simp add: timer_ok_def)
  from ae_pass [of "\<lambda>w. (now, w)", OF refl assms(2) this assms(3) ret len, of w] show ?thesis
    by (simp add: timer_pass_def run_due_timer Let_def)
qed

lemma timer_pass_sends_witness:
  "\<exists>T1. emCallback (10, 600) (timerInit 10) timer_event_example = Some T1 \<and>
     map_option (\<lambda>(c, f, T2, w). (c, f, map te_moment (timer_events T2), w)) (timer_pass log_send (\<lambda>w. ((12, 100), w)) 1 12 [] T1)
       = Some (1, [], [(13, 600)], [(5, 9)])"
proof -
  obtain T1 te where T1: "emCallback (10, 600) (timerInit 10) timer_event_example = Some T1" "timer_ok T1"
    "timer_events T1 = te # timer_events (timerInit 10)" "te_data te = timer_event_example"
    "te_moment te = (12, 100)" "te_id te = 0" "ae_timeEventNextId (tm_base T1) = 1"
    using emCallback_add [OF timerInit_ok, of timer_event_example 10 "(10, 600)"]
    by (auto simp: timer_event_example_def timerInit_def aeCreateEventLoop_def aeAddMillisecondsToNow_def)
  have z: "timer_events (timerInit 10) = []" "ae_lastTime (tm_base T1) \<le> 12"
    using T1(1) by (auto simp: timerInit_def aeCreateEventLoop_def emCallback_def timer_event_example_def aeCreateTimeEvent_def Let_def)
  have sk: "\<not> te_skip 0 (12, 100) te" using T1(5,6) by (simp add: te_skip_def te_due_def te_moment_def)
  have "timer_pass log_send (\<lambda>w. ((12, 100), w)) 1 12 [] T1 =
    (let maxId = ae_timeEventNextId (tm_base T1) - 1;
         due = filter (\<lambda>te. \<not> te_skip maxId (12, 100) te) (timer_events T1)
     in Some (int (length due), filter (\<lambda>te. timer_ends (te_data te)) due,
          T1\<lparr>tm_base := (tm_base T1)\<lparr>ae_lastTime := 12, ae_timeEvents := concat (map (timer_left maxId (12, 100)) (timer_events T1))\<rparr>\<rparr>,
          [] @ map (\<lambda>te. (tv_to (te_data te), tv_value (te_data te))) due))"
    by (rule timer_pass_sends) (use T1 z in \<open>simp_all add: moment_ok_def timer_event_example_def\<close>)
  then show ?thesis using T1 z(1) sk
    by (simp add: timer_left_def timer_ends_def timer_event_example_def AE_NOMORE_def aeAddMillisecondsToNow_def)
qed

text \<open>
  C30: a repeated timer with a negative time other than -1 hangs the timer thread. Once it is due
  and its responses can be sent, the pass over the time events never ends, however many calls
  it makes, with any clock that does not run backwards.
\<close>
theorem timer_negative_time_hangs:
  assumes "timer_ok T" "te \<in> set (timer_events T)" "tv_time (te_data te) < 0" "tv_time (te_data te) \<noteq> AE_NOMORE"
    "tv_noMore (te_data te) \<noteq> 0" "te_due (clk w) te" "ae_lastTime (tm_base T) \<le> t"
    "\<And>w. moment_ok (clk w)" "\<And>w. fst (gettime w) = clk w" "\<And>w. ms_of (clk w) \<le> ms_of (clk (snd (gettime w)))"
    "\<And>to session w. 0 \<le> fst (send to session w)" "\<And>to session w. ms_of (clk w) \<le> ms_of (clk (snd (send to session w)))"
  shows "timer_pass send gettime n t w T = None"
proof -
  have p: "ms_of (clk v) \<le> ms_of (clk (snd (timeProc send i d v)))" for i d v
    using assms(12) [of v "tv_to d" "tv_value d"] by (auto simp: timeProc_def split: prod.split)
  have b: "fst (timeProc send (te_id te) (te_data te) v) \<le> 0 \<and> fst (timeProc send (te_id te) (te_data te) v) \<noteq> AE_NOMORE" for v
    using assms(3,4,5) assms(11) [of "tv_to (te_data te)" "tv_value (te_data te)" v]
    by (auto simp: timeProc_def split: prod.split)
  have "scan_time_events gettime (timeProc send) (ae_timeEventNextId (tm_base T) - 1) n w [] (timer_events T) = None"
    by (rule scan_stuck [where clk = clk and gettime = gettime and pr = "timeProc send" and i = "te_id te" and
        dat = "te_data te" and te = te and w = w, OF assms(8-10) p b _ assms(2) refl refl assms(6)])
      (use assms(1,2) in \<open>auto simp: timer_ok_def\<close>)
  then show ?thesis using assms(7) by (simp add: timer_pass_def processTimeEvents_def)
qed

text \<open>The world is the time in milliseconds; sending takes one of them.\<close>

lemma timer_negative_time_hangs_witness:
  "\<exists>T1. emCallback (10, 600) (timerInit 10) (timer_event_example\<lparr>tv_time := - 5\<rparr>) = Some T1 \<and>
     timer_pass (\<lambda>to session w. (0, w + 1)) (\<lambda>w. ((w div 1000, w mod 1000), w)) 1000 10 10600 T1 = None"
proof -
  let ?e = "timer_event_example\<lparr>tv_time := - 5\<rparr>"
  obtain T1 te where T1: "emCallback (10, 600) (timerInit 10) ?e = Some T1" "timer_ok T1"
    "timer_events T1 = te # timer_events (timerInit 10)" "te_data te = ?e" "te_moment te = (10, 595)"
    using emCallback_add [OF timerInit_ok, of ?e 10 "(10, 600)"]
    by (auto simp: timer_event_example_def timerInit_def aeCreateEventLoop_def aeAddMillisecondsToNow_def)
  have l: "ae_lastTime (tm_base T1) \<le> 10"
    using T1(1) by (auto simp: timerInit_def aeCreateEventLoop_def emCallback_def timer_event_example_def aeCreateTimeEvent_def Let_def)
  have "timer_pass (\<lambda>to session w. (0, w + 1)) (\<lambda>w. ((w div 1000, w mod 1000), w)) 1000 10 10600 T1 = None"
    by (rule timer_negative_time_hangs [where te = te and clk = "\<lambda>w. (w div 1000, w mod 1000)"])
      (use T1 l in \<open>auto simp: timer_event_example_def AE_NOMORE_def te_due_def te_moment_def moment_ok_def ms_of_def\<close>)
  with T1(1) show ?thesis by blast
qed

end
