(* ===== verification/LuaSeri.thy ===== *)
theory LuaSeri
  imports Prelude
begin

section \<open>The serializer of Lua values (lualib-src/lua-seri.c)\<close>

text \<open>
  Contexts written in Lua send each other values as byte strings. Packing walks the values and
  pushes chunks into a chain of 128-byte blocks that starts with the total length; the chain
  is then copied into one buffer. Unpacking reads the buffer again.

  A Lua value is the datatype \<open>lval\<close>. A number is the 64 bits of a double; the conversions
  between doubles and integers and their comparison are the machine's, the record \<open>doubles\<close>.
  A table is its elements 1 to its length and the other pairs in the order of lua_next, which
  may visit the elements again. What unpacking leads to is a \<open>ures\<close>: a value, a Lua error, a
  crash (a negative length), or, for the recursion of the model, too little fuel.

  The theorems: the chain of blocks is the concatenation of the chunks; unpacking what was
  packed gives the values back, with each number that equals a 32-bit integer in the standard
  form of that integer; packing is refused exactly below 32 tables; unpacking any byte string
  ends; and there are byte strings on which it crashes.
\<close>

unbundle bit_operations_syntax

subsection \<open>Values\<close>

record doubles =
  dbl_of_int :: "u32 \<Rightarrow> u64"     \<comment> \<open>(double)x\<close>
  dbl_tointeger :: "u64 \<Rightarrow> u32"  \<comment> \<open>(int32_t)lua_tointeger\<close>
  dbl_eq :: "u64 \<Rightarrow> u64 \<Rightarrow> bool"
  dbl_to_int :: "u64 \<Rightarrow> u32"     \<comment> \<open>(int)d\<close>

text \<open>A double holds every 32-bit integer exactly.\<close>

definition doubles_exact :: "doubles \<Rightarrow> bool" where
  "doubles_exact P \<longleftrightarrow>
     (\<forall>x. dbl_to_int P (dbl_of_int P x) = x) \<and> (\<forall>x. dbl_eq P (dbl_of_int P x) (dbl_of_int P x))"

datatype lval =
    LNil
  | LBool bool
  | LNumber u64
  | LUserdata u64           \<comment> \<open>light userdata, a pointer\<close>
  | LString "byte list"
  | LTable "lval list" "(lval \<times> lval) list"
  | LOther                  \<comment> \<open>functions, threads, full userdata\<close>

definition TYPE_NIL :: nat where "TYPE_NIL = 0"
definition TYPE_BOOLEAN :: nat where "TYPE_BOOLEAN = 1"
definition TYPE_NUMBER :: nat where "TYPE_NUMBER = 2"
definition TYPE_USERDATA :: nat where "TYPE_USERDATA = 3"
definition TYPE_SHORT_STRING :: nat where "TYPE_SHORT_STRING = 4"
definition TYPE_LONG_STRING :: nat where "TYPE_LONG_STRING = 5"
definition TYPE_TABLE :: nat where "TYPE_TABLE = 6"
definition MAX_COOKIE :: nat where "MAX_COOKIE = 32"
definition BLOCK_SIZE :: nat where "BLOCK_SIZE = 128"
definition MAX_DEPTH :: nat where "MAX_DEPTH = 32"

lemmas seri_consts = TYPE_NIL_def TYPE_BOOLEAN_def TYPE_NUMBER_def TYPE_USERDATA_def TYPE_SHORT_STRING_def
  TYPE_LONG_STRING_def TYPE_TABLE_def MAX_COOKIE_def

definition COMBINE_TYPE :: "nat \<Rightarrow> nat \<Rightarrow> byte list" where
  "COMBINE_TYPE t v = [of_nat t OR push_bit 3 (of_nat v)]"

subsection \<open>The chain of blocks\<close>

text \<open>The blocks before the current one, the current one, and \<open>ptr\<close>, \<open>len\<close>; an int is 4 bytes, least significant first.\<close>

record write_block =
  wb_full :: "byte list list"
  wb_current :: "byte list"
  wb_ptr :: nat
  wb_len :: nat

definition blk_alloc :: "byte \<Rightarrow> byte list" where "blk_alloc fill = replicate BLOCK_SIZE fill"

definition blk_copy :: "byte list \<Rightarrow> nat \<Rightarrow> byte list \<Rightarrow> byte list" where
  "blk_copy b off src = take off b @ src @ drop (off + length src) b"

text \<open>The loop of wb_push: a piece that does not fit fills the block, then a new block is taken.\<close>

function wb_push :: "byte \<Rightarrow> write_block \<Rightarrow> byte list \<Rightarrow> write_block" where
  "wb_push fill b buffer =
     (let b1 = (if wb_ptr b = BLOCK_SIZE
                then b\<lparr>wb_full := wb_full b @ [wb_current b], wb_current := blk_alloc fill, wb_ptr := 0\<rparr> else b)
      in if wb_ptr b1 + length buffer \<le> BLOCK_SIZE
         then b1\<lparr>wb_current := blk_copy (wb_current b1) (wb_ptr b1) buffer, wb_ptr := wb_ptr b1 + length buffer,
                 wb_len := wb_len b1 + length buffer\<rparr>
         else let copy = BLOCK_SIZE - wb_ptr b1
              in wb_push fill (b1\<lparr>wb_current := blk_copy (wb_current b1) (wb_ptr b1) (take copy buffer), wb_ptr := BLOCK_SIZE,
                                  wb_len := wb_len b1 + copy\<rparr>) (drop copy buffer))"
  by pat_completeness auto
termination
  by (relation "measures [\<lambda>(f, b, buf). length buf, \<lambda>(f, b, buf). if wb_ptr b = BLOCK_SIZE then 0 else 1]")
    (auto simp: BLOCK_SIZE_def Let_def split: if_splits)

declare wb_push.simps [simp del]

definition wb_init :: "byte \<Rightarrow> write_block" where
  "wb_init fill = wb_push fill \<lparr>wb_full = [], wb_current = blk_alloc fill, wb_ptr = 0, wb_len = 0\<rparr> (le_bytes 4 0)"

text \<open>wb_close writes the length over the first four bytes; the result is the chain.\<close>

definition wb_close :: "write_block \<Rightarrow> byte list list" where
  "wb_close b =
     (let chain = wb_full b @ [wb_current b]
      in blk_copy (hd chain) 0 (le_bytes 4 (wb_len b)) # tl chain)"

text \<open>The loop of _seri over the blocks behind the first.\<close>

fun seri_loop :: "nat \<Rightarrow> byte list list \<Rightarrow> byte list option" where
  "seri_loop len bs =
     (if len = 0 then Some []
      else case bs of
             [] \<Rightarrow> None
           | b # bs' \<Rightarrow>
               if len \<ge> BLOCK_SIZE then map_option (\<lambda>r. take BLOCK_SIZE b @ r) (seri_loop (len - BLOCK_SIZE) bs')
               else Some (take len b))"

declare seri_loop.simps [simp del]

definition seri :: "byte list list \<Rightarrow> byte list option" where
  "seri chain =
     (let b = hd chain;
          len = le_val (take 4 b) - 4
      in if len < BLOCK_SIZE - 4 then Some (take len (drop 4 b))
         else map_option (\<lambda>r. take (BLOCK_SIZE - 4) (drop 4 b) @ r) (seri_loop (len - (BLOCK_SIZE - 4)) (tl chain)))"

subsection \<open>Packing\<close>

text \<open>The chunks pushed, in order.\<close>

definition wb_nil :: "byte list list" where "wb_nil = [COMBINE_TYPE TYPE_NIL 0]"

definition wb_boolean :: "bool \<Rightarrow> byte list list" where
  "wb_boolean b = [COMBINE_TYPE TYPE_BOOLEAN (if b then 1 else 0)]"

definition wb_integer :: "u32 \<Rightarrow> nat \<Rightarrow> byte list list" where
  "wb_integer v ty =
     (if v = 0 then [COMBINE_TYPE ty 0]
      else if sint v < 0 then [COMBINE_TYPE ty 4, le_bytes 4 (unat v)]
      else if sint v < 0x100 then [COMBINE_TYPE ty 1, le_bytes 1 (unat v)]
      else if sint v < 0x10000 then [COMBINE_TYPE ty 2, le_bytes 2 (unat v)]
      else [COMBINE_TYPE ty 4, le_bytes 4 (unat v)])"

definition wb_number :: "u64 \<Rightarrow> byte list list" where
  "wb_number v = [COMBINE_TYPE TYPE_NUMBER 8, le_bytes 8 (unat v)]"

definition wb_pointer :: "u64 \<Rightarrow> byte list list" where
  "wb_pointer v = [COMBINE_TYPE TYPE_USERDATA 0, le_bytes 8 (unat v)]"

definition wb_string :: "byte list \<Rightarrow> byte list list" where
  "wb_string str =
     (let len = length str
      in if len < MAX_COOKIE
         then [COMBINE_TYPE TYPE_SHORT_STRING len] @ (if len > 0 then [str] else [])
         else (if len < 0x10000 then [COMBINE_TYPE TYPE_LONG_STRING 2, le_bytes 2 len]
               else [COMBINE_TYPE TYPE_LONG_STRING 4, le_bytes 4 len]) @ [str])"

definition table_head :: "nat \<Rightarrow> byte list list" where
  "table_head array_size =
     (if array_size \<ge> MAX_COOKIE - 1
      then [COMBINE_TYPE TYPE_TABLE (MAX_COOKIE - 1)] @ wb_integer (of_nat array_size) TYPE_NUMBER
      else [COMBINE_TYPE TYPE_TABLE array_size])"

text \<open>The keys that wb_table_hash skips.\<close>

definition array_key :: "doubles \<Rightarrow> nat \<Rightarrow> lval \<Rightarrow> bool" where
  "array_key P n k =
     (case k of
        LNumber b \<Rightarrow> (let x = dbl_tointeger P b in dbl_eq P b (dbl_of_int P x) \<and> sint x > 0 \<and> sint x \<le> int n)
      | _ \<Rightarrow> False)"

definition pack_number :: "doubles \<Rightarrow> u64 \<Rightarrow> byte list list" where
  "pack_number P n =
     (let x = dbl_tointeger P n
      in if dbl_eq P (dbl_of_int P x) n then wb_integer x TYPE_NUMBER else wb_number n)"

text \<open>\<open>None\<close> is a Lua error: too deep, or a type that cannot be packed.\<close>

function pack_one :: "doubles \<Rightarrow> nat \<Rightarrow> lval \<Rightarrow> byte list list option"
and wb_table_array :: "doubles \<Rightarrow> nat \<Rightarrow> lval list \<Rightarrow> byte list list option"
and wb_table_hash :: "doubles \<Rightarrow> nat \<Rightarrow> nat \<Rightarrow> (lval \<times> lval) list \<Rightarrow> byte list list option" where
  "pack_one P depth v =
     (if depth > MAX_DEPTH then None
      else case v of
             LNil \<Rightarrow> Some wb_nil
           | LNumber n \<Rightarrow> Some (pack_number P n)
           | LBool b \<Rightarrow> Some (wb_boolean b)
           | LString str \<Rightarrow> Some (wb_string str)
           | LUserdata p \<Rightarrow> Some (wb_pointer p)
           | LTable arr hsh \<Rightarrow>
               (case wb_table_array P (depth + 1) arr of
                  None \<Rightarrow> None
                | Some a \<Rightarrow> map_option (\<lambda>h. table_head (length arr) @ a @ h) (wb_table_hash P (depth + 1) (length arr) hsh))
           | LOther \<Rightarrow> None)"
| "wb_table_array P depth [] = Some []"
| "wb_table_array P depth (v # vs) =
     (case pack_one P depth v of
        None \<Rightarrow> None
      | Some a \<Rightarrow> map_option (\<lambda>r. a @ r) (wb_table_array P depth vs))"
| "wb_table_hash P depth n [] = Some wb_nil"
| "wb_table_hash P depth n ((k, v) # kvs) =
     (if array_key P n k then wb_table_hash P depth n kvs
      else case pack_one P depth k of
             None \<Rightarrow> None
           | Some a \<Rightarrow>
               (case pack_one P depth v of
                  None \<Rightarrow> None
                | Some b \<Rightarrow> map_option (\<lambda>r. a @ b @ r) (wb_table_hash P depth n kvs)))"
  by pat_completeness auto
termination
  by (relation "measure (case_sum (\<lambda>(P, d, v). size v) (case_sum (\<lambda>(P, d, vs). size_list size vs)
      (\<lambda>(P, d, n, kvs). size_list (size_prod size size) kvs)))") auto

declare pack_one.simps [simp del]

fun pack_from :: "doubles \<Rightarrow> lval list \<Rightarrow> byte list list option" where
  "pack_from P [] = Some []"
| "pack_from P (v # vs) =
     (case pack_one P 0 v of None \<Rightarrow> None | Some a \<Rightarrow> map_option (\<lambda>r. a @ r) (pack_from P vs))"

definition luaseri_pack :: "doubles \<Rightarrow> byte \<Rightarrow> lval list \<Rightarrow> byte list option" where
  "luaseri_pack P fill vs =
     (case pack_from P vs of
        None \<Rightarrow> None
      | Some chunks \<Rightarrow> seri (wb_close (foldl (wb_push fill) (wb_init fill) chunks)))"

subsection \<open>Unpacking\<close>

text \<open>
  Every reader takes the bytes that are left and returns those behind what it read. \<open>UInvalid\<close>
  is the Lua error of an invalid stream (or of a key that is not a number), \<open>UCrash\<close> an array
  \<open>char tmp[len]\<close> whose length is negative or beyond what the stack takes (\<open>stk\<close> bytes).
\<close>

datatype 'a ures = UOk 'a | UInvalid | UCrash | UFuel

fun ubind :: "'a ures \<Rightarrow> ('a \<Rightarrow> 'b ures) \<Rightarrow> 'b ures" where
  "ubind (UOk x) k = k x"
| "ubind UInvalid k = UInvalid"
| "ubind UCrash k = UCrash"
| "ubind UFuel k = UFuel"

definition rb_read :: "nat \<Rightarrow> byte list \<Rightarrow> (byte list \<times> byte list) ures" where
  "rb_read sz s = (if length s < sz then UInvalid else UOk (take sz s, drop sz s))"

definition get_integer :: "nat \<Rightarrow> byte list \<Rightarrow> (u32 \<times> byte list) ures" where
  "get_integer cookie s =
     (if cookie = 0 then UOk (0, s)
      else if cookie = 1 \<or> cookie = 2 \<or> cookie = 4
      then ubind (rb_read cookie s) (\<lambda>(p, s'). UOk (of_nat (le_val p), s'))
      else UInvalid)"

definition get_number :: "doubles \<Rightarrow> nat \<Rightarrow> byte list \<Rightarrow> (u64 \<times> byte list) ures" where
  "get_number P cookie s =
     (if cookie = 8 then ubind (rb_read 8 s) (\<lambda>(p, s'). UOk (of_nat (le_val p), s'))
      else ubind (get_integer cookie s) (\<lambda>(i, s'). UOk (dbl_of_int P i, s')))"

definition get_pointer :: "byte list \<Rightarrow> (u64 \<times> byte list) ures" where
  "get_pointer s = ubind (rb_read 8 s) (\<lambda>(p, s'). UOk (of_nat (le_val p), s'))"

definition get_buffer :: "nat \<Rightarrow> u32 \<Rightarrow> byte list \<Rightarrow> (lval \<times> byte list) ures" where
  "get_buffer stk len s =
     (if sint len < 0 \<or> sint len > int stk then UCrash
      else ubind (rb_read (unat len) s) (\<lambda>(p, s'). UOk (LString p, s')))"

definition get_long_string :: "nat \<Rightarrow> nat \<Rightarrow> byte list \<Rightarrow> (lval \<times> byte list) ures" where
  "get_long_string stk cookie s =
     (if cookie = 2 then ubind (rb_read 2 s) (\<lambda>(p, s'). get_buffer stk (of_nat (le_val p)) s')
      else if cookie \<noteq> 4 then UInvalid
      else ubind (rb_read 4 s) (\<lambda>(p, s'). get_buffer stk (of_nat (le_val p)) s'))"

text \<open>The number of elements, at the start of _unpack_table.\<close>

definition get_array_size :: "doubles \<Rightarrow> nat \<Rightarrow> byte list \<Rightarrow> (nat \<times> byte list) ures" where
  "get_array_size P cookie s =
     (if cookie = MAX_COOKIE - 1
      then ubind (rb_read 1 s) (\<lambda>(t, s').
             if unat (hd t) mod 8 \<noteq> TYPE_NUMBER then UInvalid
             else ubind (get_number P (unat (hd t) div 8) s') (\<lambda>(d, s''). UOk (nat (sint (dbl_to_int P d)), s'')))
      else UOk (cookie, s))"

definition bad_key :: "doubles \<Rightarrow> lval \<Rightarrow> bool" where
  "bad_key P k = (case k of LNumber b \<Rightarrow> \<not> dbl_eq P b b | _ \<Rightarrow> False)"

text \<open>The loop over the pairs takes one unit of \<open>f\<close> a round, and every value below one more.\<close>

function push_value :: "doubles \<Rightarrow> nat \<Rightarrow> nat \<Rightarrow> nat \<Rightarrow> nat \<Rightarrow> byte list \<Rightarrow> (lval \<times> byte list) ures"
and unpack_table :: "doubles \<Rightarrow> nat \<Rightarrow> nat \<Rightarrow> nat \<Rightarrow> byte list \<Rightarrow> (lval \<times> byte list) ures"
and unpack_array :: "doubles \<Rightarrow> nat \<Rightarrow> nat \<Rightarrow> nat \<Rightarrow> byte list \<Rightarrow> (lval list \<times> byte list) ures"
and unpack_pairs :: "doubles \<Rightarrow> nat \<Rightarrow> nat \<Rightarrow> byte list \<Rightarrow> ((lval \<times> lval) list \<times> byte list) ures"
and unpack_one :: "doubles \<Rightarrow> nat \<Rightarrow> nat \<Rightarrow> byte list \<Rightarrow> (lval \<times> byte list) ures" where
  "push_value P stk f ty cookie s =
     (if ty = TYPE_NIL then UOk (LNil, s)
      else if ty = TYPE_BOOLEAN then UOk (LBool (cookie \<noteq> 0), s)
      else if ty = TYPE_NUMBER then ubind (get_number P cookie s) (\<lambda>(d, s'). UOk (LNumber d, s'))
      else if ty = TYPE_USERDATA then ubind (get_pointer s) (\<lambda>(p, s'). UOk (LUserdata p, s'))
      else if ty = TYPE_SHORT_STRING then get_buffer stk (of_nat cookie) s
      else if ty = TYPE_LONG_STRING then get_long_string stk cookie s
      else if ty = TYPE_TABLE then unpack_table P stk f cookie s
      else UInvalid)"
| "unpack_table P stk f cookie s =
     ubind (get_array_size P cookie s) (\<lambda>(n, s1).
       ubind (unpack_array P stk f n s1) (\<lambda>(arr, s2).
         ubind (unpack_pairs P stk f s2) (\<lambda>(hsh, s3). UOk (LTable arr hsh, s3))))"
| "unpack_array P stk f 0 s = UOk ([], s)"
| "unpack_array P stk f (Suc n) s =
     ubind (unpack_one P stk f s) (\<lambda>(v, s1).
       ubind (unpack_array P stk f n s1) (\<lambda>(vs, s2). UOk (v # vs, s2)))"
| "unpack_pairs P stk 0 s = UFuel"
| "unpack_pairs P stk (Suc f) s =
     ubind (unpack_one P stk f s) (\<lambda>(k, s1).
       if k = LNil then UOk ([], s1)
       else ubind (unpack_one P stk f s1) (\<lambda>(v, s2).
              if bad_key P k then UInvalid
              else ubind (unpack_pairs P stk f s2) (\<lambda>(kvs, s3). UOk ((k, v) # kvs, s3))))"
| "unpack_one P stk 0 s = UFuel"
| "unpack_one P stk (Suc f) s =
     ubind (rb_read 1 s) (\<lambda>(t, s'). push_value P stk f (unat (hd t) mod 8) (unat (hd t) div 8) s')"
  by pat_completeness auto
termination
  by (relation "measures [case_sum
        (case_sum (\<lambda>(P, k, f, t, c, s). f) (\<lambda>(P, k, f, c, s). f))
        (case_sum (\<lambda>(P, k, f, n, s). f) (case_sum (\<lambda>(P, k, f, s). f) (\<lambda>(P, k, f, s). f))),
      case_sum (case_sum (\<lambda>_. 3) (\<lambda>_. 2)) (case_sum (\<lambda>_. 1) (\<lambda>_. 0)),
      case_sum (\<lambda>_. 0) (case_sum (\<lambda>(P, k, f, n, s). n) (\<lambda>_. 0))]") auto

declare push_value.simps [simp del] unpack_table.simps [simp del]

text \<open>The loop of _luaseri_unpack.\<close>

fun unpack_all :: "doubles \<Rightarrow> nat \<Rightarrow> nat \<Rightarrow> byte list \<Rightarrow> lval list ures" where
  "unpack_all P stk 0 s = UFuel"
| "unpack_all P stk (Suc f) s =
     (case rb_read 1 s of
        UOk (t, s') \<Rightarrow>
          ubind (push_value P stk f (unat (hd t) mod 8) (unat (hd t) div 8) s') (\<lambda>(v, s1).
            ubind (unpack_all P stk f s1) (\<lambda>vs. UOk (v # vs)))
      | _ \<Rightarrow> UOk [])"

definition luaseri_unpack :: "doubles \<Rightarrow> nat \<Rightarrow> byte list \<Rightarrow> lval list ures" where
  "luaseri_unpack P stk s = unpack_all P stk (2 * length s + 1) s"

subsection \<open>The chain of blocks is the concatenation of the chunks\<close>

definition wb_ok :: "write_block \<Rightarrow> bool" where
  "wb_ok b \<longleftrightarrow> wb_ptr b \<le> BLOCK_SIZE \<and> length (wb_current b) = BLOCK_SIZE
     \<and> (\<forall>x \<in> set (wb_full b). length x = BLOCK_SIZE)"

definition wb_bytes :: "write_block \<Rightarrow> byte list" where
  "wb_bytes b = concat (wb_full b) @ take (wb_ptr b) (wb_current b)"

lemma take_blk_copy [simp]:
  "off + length src \<le> length b \<Longrightarrow> n = off + length src \<Longrightarrow> take n (blk_copy b off src) = take off b @ src"
  by (simp add: blk_copy_def)

lemma length_blk_copy [simp]: "off + length src \<le> length b \<Longrightarrow> length (blk_copy b off src) = length b"
  by (simp add: blk_copy_def)

lemma length_blk_alloc [simp]: "length (blk_alloc fill) = BLOCK_SIZE"
  by (simp add: blk_alloc_def)

lemma BLOCK_SIZE_eq [simp]: "BLOCK_SIZE = 128"
  by (simp add: BLOCK_SIZE_def)

lemma wb_push_appends:
  assumes "wb_ok b"
  shows "wb_ok (wb_push fill b buffer) \<and> wb_bytes (wb_push fill b buffer) = wb_bytes b @ buffer
    \<and> wb_len (wb_push fill b buffer) = wb_len b + length buffer"
  using assms
proof (induction fill b buffer rule: wb_push.induct)
  case (1 fill b buffer)
  define b1 where "b1 = (if wb_ptr b = BLOCK_SIZE
      then b\<lparr>wb_full := wb_full b @ [wb_current b], wb_current := blk_alloc fill, wb_ptr := 0\<rparr> else b)"
  have ok1: "wb_ok b1" and bytes1: "wb_bytes b1 = wb_bytes b" and len1: "wb_len b1 = wb_len b"
    using "1.prems" by (auto simp: b1_def wb_ok_def wb_bytes_def)
  show ?case
  proof (cases "wb_ptr b1 + length buffer \<le> BLOCK_SIZE")
    case True
    then have "wb_push fill b buffer =
        b1\<lparr>wb_current := blk_copy (wb_current b1) (wb_ptr b1) buffer, wb_ptr := wb_ptr b1 + length buffer,
           wb_len := wb_len b1 + length buffer\<rparr>"
      by (subst wb_push.simps) (simp add: Let_def b1_def [symmetric, unfolded BLOCK_SIZE_eq])
    then show ?thesis using ok1 bytes1 len1 True by (simp add: wb_ok_def wb_bytes_def)
  next
    case False
    define copy where "copy = BLOCK_SIZE - wb_ptr b1"
    define b2 where "b2 = b1\<lparr>wb_current := blk_copy (wb_current b1) (wb_ptr b1) (take copy buffer), wb_ptr := BLOCK_SIZE,
        wb_len := wb_len b1 + copy\<rparr>"
    have push: "wb_push fill b buffer = wb_push fill b2 (drop copy buffer)"
      using False by (subst wb_push.simps) (simp add: Let_def b1_def [symmetric, unfolded BLOCK_SIZE_eq] b2_def copy_def)
    have "copy \<le> length buffer" using False by (simp add: copy_def)
    then have ok2: "wb_ok b2" and bytes2: "wb_bytes b2 = wb_bytes b1 @ take copy buffer"
      using ok1 by (auto simp: b2_def wb_ok_def wb_bytes_def copy_def blk_copy_def)
    have "wb_ok (wb_push fill b2 (drop copy buffer)) \<and>
        wb_bytes (wb_push fill b2 (drop copy buffer)) = wb_bytes b2 @ drop copy buffer \<and>
        wb_len (wb_push fill b2 (drop copy buffer)) = wb_len b2 + length (drop copy buffer)"
      by (rule "1.IH" [OF b1_def False copy_def, unfolded b2_def [symmetric]]) (rule ok2)
    then show ?thesis
      using push bytes1 bytes2 len1 \<open>copy \<le> length buffer\<close> by (simp add: b2_def)
  qed
qed

lemma foldl_wb_push:
  "wb_ok b \<Longrightarrow> wb_ok (foldl (wb_push fill) b chunks) \<and>
     wb_bytes (foldl (wb_push fill) b chunks) = wb_bytes b @ concat chunks \<and>
     wb_len (foldl (wb_push fill) b chunks) = wb_len b + length (concat chunks)"
proof (induction chunks arbitrary: b)
  case (Cons c chunks)
  show ?case using Cons.IH [of "wb_push fill b c"] wb_push_appends [OF Cons.prems, of fill c] by simp
qed simp

lemma wb_init_ok:
  "wb_ok (wb_init fill) \<and> wb_bytes (wb_init fill) = le_bytes 4 0 \<and> wb_len (wb_init fill) = 4"
  using wb_push_appends [of "\<lparr>wb_full = [], wb_current = blk_alloc fill, wb_ptr = 0, wb_len = 0\<rparr>" fill "le_bytes 4 0"]
  by (simp add: wb_init_def wb_ok_def wb_bytes_def del: le_bytes.simps)

lemma seri_loop_concat:
  "\<forall>b \<in> set bs. length b = BLOCK_SIZE \<Longrightarrow> len \<le> length (concat bs) \<Longrightarrow> seri_loop len bs = Some (take len (concat bs))"
proof (induction bs arbitrary: len)
  case (Cons b bs)
  then show ?case by (subst seri_loop.simps) (auto simp: not_le)
qed (simp add: seri_loop.simps)

lemma seri_blocks_bytes:
  assumes "length (concat chunks) + 4 < 2 ^ 32"
  shows "seri (wb_close (foldl (wb_push fill) (wb_init fill) chunks)) = Some (concat chunks)"
proof -
  define b where "b = foldl (wb_push fill) (wb_init fill) chunks"
  define chain where "chain = wb_full b @ [wb_current b]"
  have ok: "wb_ok b" and bytes: "wb_bytes b = le_bytes 4 0 @ concat chunks" and len: "wb_len b = 4 + length (concat chunks)"
    using foldl_wb_push [of "wb_init fill" fill chunks] wb_init_ok [of fill] by (auto simp: b_def)
  have blk: "\<forall>x \<in> set chain. length x = BLOCK_SIZE" using ok by (auto simp: chain_def wb_ok_def)
  obtain h t where ht: "chain = h # t" by (cases chain) (auto simp: chain_def)
  have h: "length h = BLOCK_SIZE" using blk ht by simp
  have cat: "take (4 + length (concat chunks)) (concat chain) = le_bytes 4 0 @ concat chunks"
  proof -
    have "4 + length (concat chunks) = length (wb_bytes b)" by (simp add: bytes del: le_bytes.simps)
    moreover have "concat chain = wb_bytes b @ drop (wb_ptr b) (wb_current b)"
      by (simp add: chain_def wb_bytes_def)
    ultimately show ?thesis by (simp add: bytes del: le_bytes.simps)
  qed
  have close: "wb_close b = (le_bytes 4 (wb_len b) @ drop 4 h) # t"
    by (simp add: wb_close_def chain_def [symmetric] ht blk_copy_def Let_def del: le_bytes.simps)
  have rest: "take (length (concat chunks)) (drop 4 h @ concat t) = concat chunks"
    using arg_cong [OF cat, of "drop 4"] h by (simp add: ht drop_take del: le_bytes.simps)
  have size: "length (concat chunks) \<le> length (drop 4 h @ concat t)"
    using arg_cong [OF rest, of length] by simp
  have val: "le_val (le_bytes 4 (wb_len b)) - 4 = length (concat chunks)"
    using assms by (simp add: le_val_le_bytes len)
  show ?thesis
  proof (cases "length (concat chunks) < BLOCK_SIZE - 4")
    case True
    then show ?thesis
      using rest h by (simp add: b_def [symmetric] close seri_def val Let_def del: le_bytes.simps)
  next
    case False
    have "seri_loop (length (concat chunks) - (BLOCK_SIZE - 4)) t
        = Some (take (length (concat chunks) - (BLOCK_SIZE - 4)) (concat t))"
      using blk ht size h by (intro seri_loop_concat) auto
    then show ?thesis
      using rest h False by (simp add: b_def [symmetric] close seri_def val Let_def del: le_bytes.simps)
  qed
qed


text \<open>Packing is the concatenation of the chunks: for the blocks of 128 bytes, whatever they held
  before, the chain with its length in the first block and the copy out of it give exactly the chunks
  pushed, in order (for a result whose length fits the four bytes).\<close>

theorem seri_blocks:
  assumes "length (concat chunks) + 4 < 2 ^ 32"
  shows "seri (wb_close (foldl (wb_push fill) (wb_init fill) chunks)) = Some (concat chunks)"
  using assms by (rule seri_blocks_bytes)
lemma seri_blocks_witness:
  "seri (wb_close (foldl (wb_push 0xAA) (wb_init 0xAA) [[33], replicate 300 7])) = Some (33 # replicate 300 7)"
  using seri_blocks [of "[[33], replicate 300 7]" "0xAA"] by simp

subsection \<open>Unpacking reads what packing wrote\<close>

lemma COMBINE_TYPE_table:
  "\<forall>t \<in> set [0..<8]. \<forall>c \<in> set [0..<32].
     unat (of_nat t OR push_bit 3 (of_nat c) :: byte) = t + 8 * c"
  by code_simp

lemma COMBINE_TYPE_fields:
  assumes "t < 8" and "c < 32"
  shows "unat (hd (COMBINE_TYPE t c)) mod 8 = t" and "unat (hd (COMBINE_TYPE t c)) div 8 = c"
  using COMBINE_TYPE_table assms by (auto simp: COMBINE_TYPE_def)

lemma length_COMBINE_TYPE [simp]: "length (COMBINE_TYPE t c) = 1"
  by (simp add: COMBINE_TYPE_def)

lemma rb_read_append [simp]: "length p = n \<Longrightarrow> rb_read n (p @ s) = UOk (p, s)"
  by (simp add: rb_read_def)

lemma unpack_one_type:
  assumes "t < 8" and "c < 32"
  shows "unpack_one P stk (Suc f) (COMBINE_TYPE t c @ s) = push_value P stk f t c s"
  using COMBINE_TYPE_fields [OF assms] by simp

lemma of_nat_le_val_le_bytes:
  fixes v :: "'a :: len word"
  assumes "unat v < 256 ^ n"
  shows "of_nat (le_val (le_bytes n (unat v))) = v"
  using assms by (simp add: le_val_le_bytes)

lemma wb_integer_read:
  obtains c body where "wb_integer v ty = COMBINE_TYPE ty c # body" "c < 8"
    "\<And>s. get_integer c (concat body @ s) = UOk (v, s)"
proof -
  have len: "rb_read n (le_bytes n (unat v) @ s) = UOk (le_bytes n (unat v), s)" for n s by simp
  have v: "unat v < k" if "sint v < int k" "\<not> sint v < 0" for k
    using sint_nonneg32 [of v] that by linarith
  have v4: "unat v < 256 ^ 4" using unsigned_less [of v] by simp
  show thesis
  proof (cases "v = 0")
    case True
    then show ?thesis by (intro that [of 0 "[]"]) (simp_all add: wb_integer_def get_integer_def)
  next
    case False
    consider "\<not> sint v < 0" "sint v < 0x100" | "\<not> sint v < 0" "\<not> sint v < 0x100" "sint v < 0x10000"
      | "sint v < 0 \<or> \<not> sint v < 0x10000" by linarith
    then show ?thesis
    proof cases
      case 1
      then show ?thesis using False v [of 256]
        by (intro that [of 1 "[le_bytes 1 (unat v)]"])
          (simp_all add: wb_integer_def get_integer_def of_nat_le_val_le_bytes del: le_bytes.simps)
    next
      case 2
      then show ?thesis using False v [of 65536]
        by (intro that [of 2 "[le_bytes 2 (unat v)]"])
          (simp_all add: wb_integer_def get_integer_def of_nat_le_val_le_bytes del: le_bytes.simps)
    next
      case 3
      then show ?thesis using False v4
        by (intro that [of 4 "[le_bytes 4 (unat v)]"])
          (auto simp: wb_integer_def get_integer_def of_nat_le_val_le_bytes simp del: le_bytes.simps)
    qed
  qed
qed

text \<open>
  What a value is after a round trip: a number that equals a 32-bit integer has the standard bits of
  that integer (so -0 becomes 0), and a table no longer lists its elements a second time among its pairs.
\<close>

definition norm_number :: "doubles \<Rightarrow> u64 \<Rightarrow> u64" where
  "norm_number P n = (let d = dbl_of_int P (dbl_tointeger P n) in if dbl_eq P d n then d else n)"

function norm :: "doubles \<Rightarrow> lval \<Rightarrow> lval"
and norm_list :: "doubles \<Rightarrow> lval list \<Rightarrow> lval list"
and norm_pairs :: "doubles \<Rightarrow> nat \<Rightarrow> (lval \<times> lval) list \<Rightarrow> (lval \<times> lval) list" where
  "norm P v =
     (case v of
        LNumber n \<Rightarrow> LNumber (norm_number P n)
      | LTable arr hsh \<Rightarrow> LTable (norm_list P arr) (norm_pairs P (length arr) hsh)
      | _ \<Rightarrow> v)"
| "norm_list P [] = []"
| "norm_list P (v # vs) = norm P v # norm_list P vs"
| "norm_pairs P n [] = []"
| "norm_pairs P n ((k, v) # kvs) =
     (if array_key P n k then norm_pairs P n kvs else (norm P k, norm P v) # norm_pairs P n kvs)"
  by pat_completeness auto
termination
  by (relation "measure (case_sum (\<lambda>(P, v). size v) (case_sum (\<lambda>(P, vs). size_list size vs)
      (\<lambda>(P, n, kvs). size_list (size_prod size size) kvs)))") auto

declare norm.simps [simp del]

text \<open>
  The values a Lua state can hold and the unpacker's stack can take: no string is longer than \<open>stk\<close>,
  a table has fewer than \<open>2 ^ 31\<close> elements, and no key is nil or not a number.
\<close>

function lval_ok :: "doubles \<Rightarrow> nat \<Rightarrow> lval \<Rightarrow> bool"
and lvals_ok :: "doubles \<Rightarrow> nat \<Rightarrow> lval list \<Rightarrow> bool"
and pairs_ok :: "doubles \<Rightarrow> nat \<Rightarrow> (lval \<times> lval) list \<Rightarrow> bool" where
  "lval_ok P stk v =
     (case v of
        LString str \<Rightarrow> length str \<le> stk
      | LTable arr hsh \<Rightarrow> length arr < 2 ^ 31 \<and> lvals_ok P stk arr \<and> pairs_ok P stk hsh
      | _ \<Rightarrow> True)"
| "lvals_ok P stk [] = True"
| "lvals_ok P stk (v # vs) = (lval_ok P stk v \<and> lvals_ok P stk vs)"
| "pairs_ok P stk [] = True"
| "pairs_ok P stk ((k, v) # kvs) =
     (k \<noteq> LNil \<and> \<not> bad_key P k \<and> lval_ok P stk k \<and> lval_ok P stk v \<and> pairs_ok P stk kvs)"
  by pat_completeness auto
termination
  by (relation "measure (case_sum (\<lambda>(P, k, v). size v) (case_sum (\<lambda>(P, k, vs). size_list size vs)
      (\<lambda>(P, k, kvs). size_list (size_prod size size) kvs)))") auto

declare lval_ok.simps [simp del]

lemma wb_integer_unpack:
  "unpack_one P stk (Suc f) (concat (wb_integer v TYPE_NUMBER) @ s) = UOk (LNumber (dbl_of_int P v), s)"
proof -
  obtain c body where w: "wb_integer v TYPE_NUMBER = COMBINE_TYPE TYPE_NUMBER c # body" "c < 8"
      "\<And>s. get_integer c (concat body @ s) = UOk (v, s)"
    using wb_integer_read [of v TYPE_NUMBER] by metis
  then show ?thesis
    using unpack_one_type [of TYPE_NUMBER c P stk f "concat body @ s"]
    by (simp add: push_value.simps seri_consts get_number_def)
qed

lemma pack_number_unpack:
  "unpack_one P stk (Suc f) (concat (pack_number P n) @ s) = UOk (LNumber (norm_number P n), s)"
proof (cases "dbl_eq P (dbl_of_int P (dbl_tointeger P n)) n")
  case True
  then show ?thesis by (simp add: pack_number_def norm_number_def Let_def wb_integer_unpack del: unpack_one.simps)
next
  case False
  have "unat n < 256 ^ 8" using unsigned_less [of n] by simp
  then show ?thesis
    using False unpack_one_type [of TYPE_NUMBER 8 P stk f "le_bytes 8 (unat n) @ s"]
    by (simp add: pack_number_def norm_number_def Let_def wb_number_def push_value.simps seri_consts
        get_number_def of_nat_le_val_le_bytes del: unpack_one.simps le_bytes.simps)
qed

lemma wb_pointer_unpack:
  "unpack_one P stk (Suc f) (concat (wb_pointer p) @ s) = UOk (LUserdata p, s)"
proof -
  have "unat p < 256 ^ 8" using unsigned_less [of p] by simp
  then show ?thesis
    using unpack_one_type [of TYPE_USERDATA 0 P stk f "le_bytes 8 (unat p) @ s"]
    by (simp add: wb_pointer_def push_value.simps seri_consts get_pointer_def of_nat_le_val_le_bytes
        del: unpack_one.simps le_bytes.simps)
qed

lemma get_buffer_append:
  assumes "length str \<le> stk" and "stk < 2 ^ 31"
  shows "get_buffer stk (of_nat (length str)) (str @ s) = UOk (LString str, s)"
proof -
  have l: "length str < 2 ^ 31" using assms by simp
  then have u: "unat (of_nat (length str) :: u32) = length str" by (simp add: unat_of_nat)
  then have "sint (of_nat (length str) :: u32) = int (length str)" using sint_unat32 l by metis
  then show ?thesis using assms u by (simp add: get_buffer_def)
qed

lemma wb_string_unpack:
  assumes "length str \<le> stk" and "stk < 2 ^ 31"
  shows "unpack_one P stk (Suc f) (concat (wb_string str) @ s) = UOk (LString str, s)"
proof -
  note get = get_buffer_append [OF assms]
  consider "length str < 32" | "\<not> length str < 32" "length str < 0x10000" | "\<not> length str < 32" "\<not> length str < 0x10000" by linarith
  then show ?thesis
  proof cases
    case 1
    then show ?thesis
      using unpack_one_type [of TYPE_SHORT_STRING "length str" P stk f "str @ s"] get
      by (auto simp: wb_string_def push_value.simps seri_consts simp del: unpack_one.simps)
  next
    case 2
    then show ?thesis
      using unpack_one_type [of TYPE_LONG_STRING 2 P stk f "le_bytes 2 (length str) @ str @ s"] get
      by (simp add: wb_string_def push_value.simps seri_consts get_long_string_def le_val_le_bytes
          del: unpack_one.simps le_bytes.simps)
  next
    case 3
    then show ?thesis
      using unpack_one_type [of TYPE_LONG_STRING 4 P stk f "le_bytes 4 (length str) @ str @ s"] get assms
      by (simp add: wb_string_def push_value.simps seri_consts get_long_string_def le_val_le_bytes
          del: unpack_one.simps le_bytes.simps)
  qed
qed

lemma table_head_read:
  assumes "doubles_exact P" and "n < 2 ^ 31"
  obtains c body where "concat (table_head n) = COMBINE_TYPE TYPE_TABLE c @ body" "c < 32"
    "\<And>s. get_array_size P c (body @ s) = UOk (n, s)"
proof (cases "n \<ge> MAX_COOKIE - 1")
  case True
  obtain c body where w: "wb_integer (of_nat n) TYPE_NUMBER = COMBINE_TYPE TYPE_NUMBER c # body" "c < 8"
      "\<And>s. get_integer c (concat body @ s) = UOk (of_nat n :: u32, s)"
    using wb_integer_read [of "of_nat n :: u32" TYPE_NUMBER] by metis
  have "unat (of_nat n :: u32) = n" using assms(2) by (simp add: unat_of_nat)
  then have "sint (of_nat n :: u32) = int n" using sint_unat32 assms(2) by metis
  moreover have "unat (hd (COMBINE_TYPE TYPE_NUMBER c)) mod 8 = TYPE_NUMBER"
      "unat (hd (COMBINE_TYPE TYPE_NUMBER c)) div 8 = c"
    using COMBINE_TYPE_fields [of TYPE_NUMBER c] w(2) by (simp_all add: seri_consts)
  ultimately have "get_array_size P 31 ((COMBINE_TYPE TYPE_NUMBER c @ concat body) @ s) = UOk (n, s)" for s
    using w assms(1) by (simp add: get_array_size_def MAX_COOKIE_def get_number_def doubles_exact_def)
  then show ?thesis
    using True w(1) by (intro that [of 31 "COMBINE_TYPE TYPE_NUMBER c @ concat body"])
      (simp_all add: table_head_def MAX_COOKIE_def)
next
  case False
  then show ?thesis
    by (intro that [of n "[]"]) (simp_all add: table_head_def get_array_size_def MAX_COOKIE_def)
qed

lemma pack_one_nonempty: "pack_one P d v = Some cs \<Longrightarrow> concat cs \<noteq> []"
  by (subst (asm) pack_one.simps)
    (auto split: if_splits lval.splits option.splits simp: wb_nil_def wb_boolean_def wb_pointer_def wb_string_def
      table_head_def pack_number_def wb_integer_def wb_number_def Let_def COMBINE_TYPE_def simp del: le_bytes.simps)

lemma norm_key:
  assumes "doubles_exact P" and "k \<noteq> LNil" and "\<not> bad_key P k"
  shows "norm P k \<noteq> LNil" and "\<not> bad_key P (norm P k)"
  using assms by (auto simp: norm.simps bad_key_def norm_number_def Let_def doubles_exact_def split: lval.splits)

lemma unpack_packed:
  assumes "doubles_exact P" and "stk < 2 ^ 31"
  shows pack_one_unpack: "pack_one P d v = Some cs \<Longrightarrow> lval_ok P stk v \<Longrightarrow> 2 * length (concat cs) + 1 \<le> f
      \<Longrightarrow> unpack_one P stk f (concat cs @ s) = UOk (norm P v, s)"
    and "wb_table_array P d vs = Some cs \<Longrightarrow> lvals_ok P stk vs \<Longrightarrow> 2 * length (concat cs) + 1 \<le> f
      \<Longrightarrow> unpack_array P stk f (length vs) (concat cs @ s) = UOk (norm_list P vs, s)"
    and "wb_table_hash P d n kvs = Some cs \<Longrightarrow> pairs_ok P stk kvs \<Longrightarrow> 2 * length (concat cs) \<le> f
      \<Longrightarrow> unpack_pairs P stk f (concat cs @ s) = UOk (norm_pairs P n kvs, s)"
  using assms
proof (induction P d v and P d vs and P d n kvs arbitrary: cs f s and cs f s and cs f s
    rule: pack_one_wb_table_array_wb_table_hash.induct)
  case (1 P d v)
  then obtain g where f: "f = Suc g" by (cases f) auto
  have d: "\<not> d > MAX_DEPTH" using "1.prems"(1) by (subst (asm) pack_one.simps) (auto split: if_splits)
  show ?case
  proof (cases v)
    case LNil
    then show ?thesis using "1.prems"(1) d f unpack_one_type [of TYPE_NIL 0 P stk g s]
      by (subst (asm) pack_one.simps) (auto simp: wb_nil_def push_value.simps seri_consts norm.simps simp del: unpack_one.simps)
  next
    case (LBool b)
    then show ?thesis using "1.prems"(1) d f unpack_one_type [of TYPE_BOOLEAN "if b then 1 else 0" P stk g s]
      by (subst (asm) pack_one.simps) (auto simp: wb_boolean_def push_value.simps seri_consts norm.simps simp del: unpack_one.simps)
  next
    case (LNumber n)
    then show ?thesis using "1.prems"(1) d f
      by (subst (asm) pack_one.simps) (auto simp: pack_number_unpack norm.simps simp del: unpack_one.simps)
  next
    case (LUserdata p)
    then show ?thesis using "1.prems"(1) d f
      by (subst (asm) pack_one.simps) (auto simp: wb_pointer_unpack norm.simps simp del: unpack_one.simps)
  next
    case (LString str)
    then show ?thesis using "1.prems"(1,2,5) d f
      by (subst (asm) pack_one.simps) (auto simp: wb_string_unpack norm.simps lval_ok.simps simp del: unpack_one.simps)
  next
    case (LTable arr hsh)
    obtain a h where a: "wb_table_array P (d + 1) arr = Some a" and h: "wb_table_hash P (d + 1) (length arr) hsh = Some h"
        and cs: "cs = table_head (length arr) @ a @ h"
      using "1.prems"(1) d LTable by (subst (asm) pack_one.simps) (auto split: option.splits)
    have ok: "length arr < 2 ^ 31" "lvals_ok P stk arr" "pairs_ok P stk hsh"
      using "1.prems"(2) LTable by (auto simp: lval_ok.simps)
    obtain c body where t: "concat (table_head (length arr)) = COMBINE_TYPE TYPE_TABLE c @ body" "c < 32"
        "\<And>s. get_array_size P c (body @ s) = UOk (length arr, s)"
      using table_head_read [OF "1.prems"(4) ok(1)] by metis
    have len: "2 + 2 * length (concat a) + 2 * length (concat h) \<le> g" using "1.prems"(3) cs t f by simp
    have "unpack_array P stk g (length arr) (concat a @ concat h @ s) = UOk (norm_list P arr, concat h @ s)"
      using "1.IH"(1) [OF d LTable a ok(2) _ "1.prems"(4,5)] len by simp
    moreover have "unpack_pairs P stk g (concat h @ s) = UOk (norm_pairs P (length arr) hsh, s)"
      using "1.IH"(2) [OF d LTable a h ok(3) _ "1.prems"(4,5)] len by simp
    ultimately have "unpack_table P stk g c (body @ concat a @ concat h @ s)
        = UOk (LTable (norm_list P arr) (norm_pairs P (length arr) hsh), s)"
      using t(3) by (simp add: unpack_table.simps)
    then show ?thesis
      using unpack_one_type [of TYPE_TABLE c P stk g "body @ concat a @ concat h @ s"] t f cs LTable
      by (simp add: push_value.simps seri_consts norm.simps del: unpack_one.simps)
  next
    case LOther
    then show ?thesis using "1.prems"(1) d by (subst (asm) pack_one.simps) auto
  qed
next
  case (3 P d v vs)
  obtain a r where a: "pack_one P d v = Some a" "wb_table_array P d vs = Some r" "cs = a @ r"
    using "3.prems"(1) by (auto split: option.splits)
  have "unpack_one P stk f (concat a @ concat r @ s) = UOk (norm P v, concat r @ s)"
    using "3.IH"(1) [OF a(1) _ _ "3.prems"(4,5)] "3.prems" a(3) by simp
  moreover have "unpack_array P stk f (length vs) (concat r @ s) = UOk (norm_list P vs, s)"
    using "3.IH"(2) [OF a(1) a(2) _ _ "3.prems"(4,5)] "3.prems" a(3) by simp
  ultimately show ?case using a(3) by simp
next
  case (4 P d n)
  obtain g where "f = Suc (Suc g)" using "4.prems"(1,3)
    by (cases f; cases "f - 1") (auto simp: wb_nil_def COMBINE_TYPE_def)
  then show ?case using "4.prems"(1) unpack_one_type [of TYPE_NIL 0 P stk g s]
    by (auto simp: wb_nil_def push_value.simps seri_consts simp del: unpack_one.simps)
next
  case (5 P d n k v kvs)
  show ?case
  proof (cases "array_key P n k")
    case True
    then show ?thesis using "5.IH"(1) [OF True _ _ _ "5.prems"(4,5)] "5.prems" by simp
  next
    case False
    obtain a b r where p: "pack_one P d k = Some a" "pack_one P d v = Some b" "wb_table_hash P d n kvs = Some r"
        and cs: "cs = a @ b @ r"
      using "5.prems"(1) False by (auto split: option.splits)
    have ne: "length (concat a) \<ge> 1" "length (concat b) \<ge> 1"
      using pack_one_nonempty [OF p(1)] pack_one_nonempty [OF p(2)] by (simp_all add: Suc_leI)
    have "length (concat cs) = length (concat a) + length (concat b) + length (concat r)" using cs by simp
    then have "f \<noteq> 0" using "5.prems"(3) ne by linarith
    then obtain g where f: "f = Suc g" by (rule not0_implies_Suc [THEN exE])
    have "unpack_one P stk g (concat a @ concat b @ concat r @ s) = UOk (norm P k, concat b @ concat r @ s)"
      using "5.IH"(2) [OF False p(1) _ _ "5.prems"(4,5)] "5.prems"(2,3) ne cs f by simp
    moreover have "unpack_one P stk g (concat b @ concat r @ s) = UOk (norm P v, concat r @ s)"
      using "5.IH"(3) [OF False p(1,2) _ _ "5.prems"(4,5)] "5.prems"(2,3) ne cs f by simp
    moreover have "unpack_pairs P stk g (concat r @ s) = UOk (norm_pairs P n kvs, s)"
      using "5.IH"(4) [OF False p(1,2,3) _ _ "5.prems"(4,5)] "5.prems"(2,3) ne cs f by simp
    ultimately show ?thesis
      using False f cs norm_key [OF "5.prems"(4)] "5.prems"(2) by (simp del: unpack_one.simps)
  qed
qed auto

lemma unpack_all_packed:
  assumes "doubles_exact P" and "stk < 2 ^ 31"
  shows "pack_from P vs = Some cs \<Longrightarrow> lvals_ok P stk vs \<Longrightarrow> 2 * length (concat cs) + 1 \<le> f
    \<Longrightarrow> unpack_all P stk f (concat cs) = UOk (norm_list P vs)"
proof (induction vs arbitrary: cs f)
  case Nil
  then show ?case by (cases f) (auto simp: rb_read_def)
next
  case (Cons v vs)
  obtain a r where a: "pack_one P 0 v = Some a" "pack_from P vs = Some r" "cs = a @ r"
    using Cons.prems(1) by (auto split: option.splits)
  obtain g where f: "f = Suc g" using Cons.prems(3) by (cases f) auto
  have ne: "length (concat a) \<ge> 1" using pack_one_nonempty [OF a(1)] by (simp add: Suc_leI)
  have one: "unpack_one P stk f (concat a @ concat r) = UOk (norm P v, concat r)"
    using pack_one_unpack [OF assms a(1), of f "concat r"] Cons.prems a(3) by simp
  obtain t s where ts: "concat a @ concat r = t # s" using pack_one_nonempty [OF a(1)] by (cases "concat a") auto
  have rd: "rb_read 1 (t # s) = UOk ([t], s)" by (simp add: rb_read_def)
  have "unpack_all P stk g (concat r) = UOk (norm_list P vs)"
    using Cons.IH [OF a(2)] Cons.prems(2,3) ne a(3) f by simp
  then show ?case using one by (simp add: a(3) f ts rd [unfolded One_nat_def])
qed

text \<open>C15: round trip: if every value is one that a Lua state can hold, with strings that the unpacker's
  stack can take, and the chunks fit an int, then luaseri_pack succeeds and luaseri_unpack reads its
  result back as these values: exactly, but for the standard form of the numbers and for the elements
  that a table lists a second time among its pairs.\<close>

theorem luaseri_roundtrip:
  assumes "doubles_exact P" and "stk < 2 ^ 31" and "lvals_ok P stk vs"
    and "pack_from P vs = Some chunks" and "length (concat chunks) + 4 < 2 ^ 31"
  shows "map_option (luaseri_unpack P stk) (luaseri_pack P fill vs) = Some (UOk (norm_list P vs))"
proof -
  have "luaseri_pack P fill vs = Some (concat chunks)"
    using assms(4,5) seri_blocks_bytes [of chunks fill] by (simp add: luaseri_pack_def)
  moreover have "luaseri_unpack P stk (concat chunks) = UOk (norm_list P vs)"
    using unpack_all_packed [OF assms(1,2,4,3) order_refl] by (simp only: luaseri_unpack_def)
  ultimately show ?thesis by simp
qed

lemma le_bytes_numeral: "le_bytes (numeral k) v = of_nat (v mod 256) # le_bytes (pred_numeral k) (v div 256)"
  by (simp only: numeral_eq_Suc [of k] le_bytes.simps)

text \<open>An instance: the doubles are the integers themselves, so the 64 bits of -1 are all ones.\<close>

definition int_doubles :: doubles where
  "int_doubles = \<lparr>dbl_of_int = scast, dbl_tointeger = ucast, dbl_eq = (=), dbl_to_int = ucast\<rparr>"

definition seri_example :: "lval list" where
  "seri_example = [LTable [LNumber 7, LString [104, 105]] [(LNumber 1, LNumber 7), (LNumber 2, LString [104, 105]),
     (LString [107], LBool True), (LNumber 0xFFFFFFFFFFFFFFFF, LTable [] [])], LNil, LNumber 0x100000000]"

lemma luaseri_roundtrip_witness:
  "map_option (luaseri_unpack int_doubles 1000) (luaseri_pack int_doubles 0xAA seri_example)
   = Some (UOk [LTable [LNumber 7, LString [104, 105]]
       [(LString [107], LBool True), (LNumber 0xFFFFFFFFFFFFFFFF, LTable [] [])], LNil, LNumber 0x100000000])"
proof -
  have "ucast (scast x :: u64) = x" for x :: u32
    by (rule bit_word_eqI) (auto simp: bit_simps)
  then have "doubles_exact int_doubles" by (simp add: doubles_exact_def int_doubles_def)
  moreover have "lvals_ok int_doubles 1000 seri_example"
    by (simp add: seri_example_def lval_ok.simps bad_key_def int_doubles_def)
  moreover have "pack_from int_doubles seri_example =
      Some [[22], [10], [7], [20], [104, 105], [12], [107], [9], [34], [255, 255, 255, 255], [6], [0], [0], [0],
        [66], [0, 0, 0, 0, 1, 0, 0, 0]]"
    by (simp add: seri_example_def pack_one.simps int_doubles_def seri_consts MAX_DEPTH_def COMBINE_TYPE_def
        table_head_def pack_number_def wb_integer_def wb_number_def wb_string_def wb_boolean_def wb_nil_def
        array_key_def wb_integer_def le_bytes_numeral)
  moreover have "norm_list int_doubles seri_example = [LTable [LNumber 7, LString [104, 105]]
       [(LString [107], LBool True), (LNumber 0xFFFFFFFFFFFFFFFF, LTable [] [])], LNil, LNumber 0x100000000]"
    by (simp add: seri_example_def norm.simps norm_number_def int_doubles_def array_key_def)
  ultimately show ?thesis
    using luaseri_roundtrip [of int_doubles 1000 seri_example "the (pack_from int_doubles seri_example)" "0xAA"]
    by auto
qed

subsection \<open>Unpacking ends\<close>

text \<open>A reader that does not run out of fuel and leaves fewer than \<open>n\<close> bytes.\<close>

definition reads :: "nat \<Rightarrow> ('a \<times> byte list) ures \<Rightarrow> bool" where
  "reads n r \<longleftrightarrow> (case r of UOk (v, s) \<Rightarrow> length s < n | UFuel \<Rightarrow> False | _ \<Rightarrow> True)"

lemma reads_bind:
  "reads n r \<Longrightarrow> (\<And>v s. length s < n \<Longrightarrow> reads m (k (v, s))) \<Longrightarrow> reads m (ubind r k)"
  by (cases r) (auto simp: reads_def)

lemma reads_simps [simp]: "reads n (UOk (v, s)) = (length s < n)" "reads n UInvalid" "reads n UCrash"
  by (simp_all add: reads_def)

lemma rb_read_reads: "reads (Suc (length s - n)) (rb_read n s)"
  by (auto simp: rb_read_def)

lemma get_integer_reads: "reads (Suc (length s)) (get_integer cookie s)"
  by (auto simp: get_integer_def intro!: reads_bind [OF rb_read_reads])

lemma get_number_reads: "reads (Suc (length s)) (get_number P cookie s)"
  by (auto simp: get_number_def intro!: reads_bind [OF rb_read_reads] reads_bind [OF get_integer_reads])

lemma get_buffer_reads: "length s < n \<Longrightarrow> reads n (get_buffer stk len s)"
  by (auto simp: get_buffer_def intro!: reads_bind [OF rb_read_reads])

lemma scalar_reads:
  "reads (Suc (length s)) (get_pointer s)" "reads (Suc (length s)) (get_long_string stk cookie s)"
  by (auto simp: get_pointer_def get_long_string_def intro!: reads_bind [OF rb_read_reads] get_buffer_reads)

lemma get_array_size_reads: "reads (Suc (length s)) (get_array_size P cookie s)"
  by (auto simp: get_array_size_def intro!: reads_bind [OF rb_read_reads] reads_bind [OF get_number_reads])

lemma reads_mono: "reads m r \<Longrightarrow> m \<le> n \<Longrightarrow> reads n r"
  by (auto simp: reads_def split: ures.splits)

lemma unpack_reads:
  "2 * length s + 2 \<le> f \<Longrightarrow> reads (Suc (length s)) (push_value P stk f ty cookie s)"
  "2 * length s + 2 \<le> f \<Longrightarrow> reads (Suc (length s)) (unpack_table P stk f cookie s)"
  "2 * length s + 1 \<le> f \<Longrightarrow> reads (Suc (length s)) (unpack_array P stk f n s)"
  "2 * length s + 2 \<le> f \<Longrightarrow> reads (Suc (length s)) (unpack_pairs P stk f s)"
  "2 * length s + 1 \<le> f \<Longrightarrow> reads (length s) (unpack_one P stk f s)"
proof (induction P stk f ty cookie s and P stk f cookie s and P stk f n s and P stk f s and P stk f s
    rule: push_value_unpack_table_unpack_array_unpack_pairs_unpack_one.induct)
  case (1 P stk f ty cookie s)
  then show ?case
    by (subst push_value.simps)
      (auto intro!: reads_bind [OF get_number_reads] reads_bind [OF scalar_reads(1)] get_buffer_reads scalar_reads(2))
next
  case (2 P stk f cookie s)
  then show ?case
    by (subst unpack_table.simps) (auto intro!: reads_bind [OF get_array_size_reads] reads_bind [OF "2.IH"(1)]
        reads_bind [OF "2.IH"(2)])
next
  case (4 P stk f n s)
  then show ?case
    by (auto intro!: reads_bind [OF "4.IH"(1)] reads_bind [OF "4.IH"(2)] simp del: unpack_one.simps)
next
  case (6 P stk f s)
  have one: "reads (length s1) (unpack_one P stk f s1)" if "2 * length s1 + 1 \<le> f" for s1
    using "6.IH"(2) [of LOther s1] that by simp
  have pairs: "reads (Suc (length s1)) (unpack_pairs P stk f s1)" if "2 * length s1 + 2 \<le> f" for s1
    using "6.IH"(3) [of LOther s1] that by (simp add: bad_key_def)
  show ?case
    using "6.prems" by (auto intro!: reads_bind [OF one] reads_bind [OF pairs] simp del: unpack_one.simps)
next
  case (8 P stk f s)
  show ?case
  proof (cases s)
    case Nil
    then show ?thesis by (simp add: rb_read_def)
  next
    case (Cons a s')
    then show ?thesis using "8.prems" "8.IH" [of s' "[a]"] by (simp add: rb_read_def)
  qed
qed auto

lemma ubind_fuel: "ubind r (\<lambda>x. UOk (f x)) = UFuel \<longleftrightarrow> r = UFuel"
  by (cases r) auto

text \<open>C32: unpacking ends: for every byte string, however malformed, luaseri_unpack returns within
  \<open>2 * length s + 1\<close> nested calls, with values, an error or a crash.\<close>

theorem luaseri_unpack_ends:
  "luaseri_unpack P stk s \<noteq> UFuel"
proof -
  have "unpack_all P stk f s \<noteq> UFuel" if "2 * length s + 1 \<le> f" for f
    using that
  proof (induction f arbitrary: s)
    case (Suc f)
    show ?case
    proof (cases s)
      case (Cons a s')
      then have "reads (Suc (length s')) (push_value P stk f (unat a mod 8) (unat a div 8) s')"
        using Suc.prems by (intro unpack_reads) simp
      then show ?thesis
        using Cons Suc.prems Suc.IH
        by (cases "push_value P stk f (unat a mod 8) (unat a div 8) s'")
          (auto simp: rb_read_def reads_def ubind_fuel)
    qed (simp add: rb_read_def)
  qed simp
  then show ?thesis unfolding luaseri_unpack_def by blast
qed

text \<open>A long string whose length has its highest bit set: \<open>char tmp[len]\<close> gets a negative length.\<close>

lemma luaseri_unpack_crash: "luaseri_unpack P stk [0x25, 0, 0, 0, 0x80] = UCrash"
proof -
  have "luaseri_unpack P stk s = unpack_all P stk (Suc (2 * length s)) s" for s by (simp add: luaseri_unpack_def)
  then show ?thesis
    unfolding unpack_all.simps(2)
    by (simp add: rb_read_def push_value.simps seri_consts get_long_string_def get_buffer_def)
qed

end
