(* ===== verification/Socket.thy ===== *)
theory Socket
  imports Ae Framing
begin

section \<open>Sockets (src/socket.c, and the table of src/tcp.c)\<close>

text \<open>
  The table of sockets of tcp.c, \<open>struct tcp\<close>, and what socket.c does with one of them. A socket is
  addressed by its slot in the table, which is also the client data of its file events; an id is
  found in the slot of its low bits. The event loop is the one of theory Ae, with the four callbacks
  as procedures.

  The kernel: what a system call returns is an argument (an \<open>io_res\<close>, the bytes read, the new
  descriptor); the state keeps the open descriptors, and for every descriptor the bytes the kernel took
  to send. Closing a descriptor takes it out of the epoll set, not out of the array of events. The
  messages that zSendx hands over are collected in order; the text of an error is left out.

  A failed assertion and an access outside a block or an array are \<open>None\<close>.
\<close>

subsection \<open>Data\<close>

datatype socketTypeE = kSocketNoneType | kReserveType | kAcceptType | kSocketType | kConnectType

datatype socketStateE = kSocketDisconnected | kSocketConnecting | kSocketConnected | kSocketDisConnecting

datatype sock_proc = OnAccept | OnConnecting | OnRead | OnWrite

record socket =
  sk_from :: u32
  sk_protoType :: int
  sk_id :: u32
  sk_fd :: int
  sk_type :: socketTypeE
  sk_state :: socketStateE
  sk_readBuffer :: "buffer option"
  sk_sendBuffer :: "buffer option"

text \<open>The receiver, the session, the type word, the body and the user data of a message.\<close>

record sock_msg =
  sm_to :: u32
  sm_session :: u32
  sm_type :: u32
  sm_body :: "byte list"
  sm_ud :: u32

record tcp =
  tcp_allocId :: u32
  tcp_setsize :: u32
  tcp_sockets :: "socket list"
  tcp_loop :: "(sock_proc, nat, unit) aeEventLoop"
  tcp_open :: "int set"                   \<comment> \<open>the open descriptors\<close>
  tcp_wire :: "int \<Rightarrow> byte list"          \<comment> \<open>the bytes taken by the kernel\<close>
  tcp_sent :: "sock_msg list"

definition MSG_TYPE_PROTO_SOCKET :: u32 where "MSG_TYPE_PROTO_SOCKET = 4"
definition MSG_TYPE_SOCK_DATA :: u32 where "MSG_TYPE_SOCK_DATA = 2"
definition MSG_TYPE_SOCK_CLOSE :: u32 where "MSG_TYPE_SOCK_CLOSE = 3"
definition MSG_TYPE_SOCK_ACCEPT :: u32 where "MSG_TYPE_SOCK_ACCEPT = 4"
definition MSG_TYPE_SOCK_CONNECT :: u32 where "MSG_TYPE_SOCK_CONNECT = 5"
definition MSG_TYPE_SOCK_ERROR :: u32 where "MSG_TYPE_SOCK_ERROR = 6"
definition READ_BUFFER_INITIAL :: u32 where "READ_BUFFER_INITIAL = 64"
definition SEND_BUFFER_INITIAL :: u32 where "SEND_BUFFER_INITIAL = 64"

text \<open>zSendx with the context NULL and from 0.\<close>

definition send_msg :: "u32 \<Rightarrow> u32 \<Rightarrow> u32 \<Rightarrow> byte list \<Rightarrow> u32 \<Rightarrow> tcp \<Rightarrow> tcp" where
  "send_msg to session ty body ud T =
     T\<lparr>tcp_sent := tcp_sent T @ [\<lparr>sm_to = to, sm_session = session,
         sm_type = push_bit 16 (ty AND 0xFFFF) OR MSG_TYPE_PROTO_SOCKET, sm_body = body, sm_ud = ud\<rparr>]\<rparr>"

definition sock :: "tcp \<Rightarrow> nat \<Rightarrow> socket" where "sock T i = tcp_sockets T ! i"

definition sock_upd :: "nat \<Rightarrow> (socket \<Rightarrow> socket) \<Rightarrow> tcp \<Rightarrow> tcp" where
  "sock_upd i f T = T\<lparr>tcp_sockets := (tcp_sockets T)[i := f (sock T i)]\<rparr>"

text \<open>close(fd): the kernel drops the descriptor from the epoll set.\<close>

definition sys_close :: "int \<Rightarrow> tcp \<Rightarrow> tcp" where
  "sys_close fd T = T\<lparr>tcp_open := tcp_open T - {fd},
     tcp_loop := (tcp_loop T)\<lparr>ae_epoll := (ae_epoll (tcp_loop T))(fd := None)\<rparr>\<rparr>"

definition create_event :: "int \<Rightarrow> u32 \<Rightarrow> sock_proc \<Rightarrow> nat \<Rightarrow> tcp \<Rightarrow> (bool \<times> tcp) option" where
  "create_event fd msk pr i T =
     map_option (\<lambda>(ok, el). (ok, T\<lparr>tcp_loop := el\<rparr>))
       (aeCreateFileEvent (\<lambda>fd. fd \<in> tcp_open T) (tcp_loop T) fd msk pr i)"

definition delete_event :: "int \<Rightarrow> u32 \<Rightarrow> tcp \<Rightarrow> tcp option" where
  "delete_event fd msk T =
     map_option (\<lambda>el. T\<lparr>tcp_loop := el\<rparr>) (aeDeleteFileEvent (\<lambda>fd. fd \<in> tcp_open T) (tcp_loop T) fd msk)"

subsection \<open>The table\<close>

definition socketInit :: socket where
  "socketInit = \<lparr>sk_from = 0, sk_protoType = 0, sk_id = 0, sk_fd = 0, sk_type = kSocketNoneType,
     sk_state = kSocketDisconnected, sk_readBuffer = None, sk_sendBuffer = None\<rparr>"

definition tcpInit :: "(sock_proc, nat, unit) aeEventLoop \<Rightarrow> u32 \<Rightarrow> tcp" where
  "tcpInit el setsize =
     (let n = nextpow2 setsize
      in \<lparr>tcp_allocId = 1, tcp_setsize = n, tcp_sockets = replicate (unat n) socketInit, tcp_loop = el,
          tcp_open = {}, tcp_wire = (\<lambda>_. []), tcp_sent = []\<rparr>)"

definition getIndex :: "tcp \<Rightarrow> u32 \<Rightarrow> nat" where
  "getIndex T i = unat (i AND (tcp_setsize T - 1))"

definition tcpGetSocket :: "tcp \<Rightarrow> u32 \<Rightarrow> nat option" where
  "tcpGetSocket T i = (if sk_id (sock T (getIndex T i)) = i then Some (getIndex T i) else None)"

definition tcpError :: "u32 \<Rightarrow> u32 \<Rightarrow> tcp \<Rightarrow> tcp" where
  "tcpError to i T = send_msg to 0 MSG_TYPE_SOCK_ERROR [] i T"

text \<open>It does not compare the id of the slot with \<open>i\<close>.\<close>

definition tcpRecoverId :: "u32 \<Rightarrow> tcp \<Rightarrow> tcp option" where
  "tcpRecoverId i T =
     (if sint i < 0 then Some T
      else if sk_state (sock T (getIndex T i)) \<noteq> kSocketDisconnected then None
      else Some (sock_upd (getIndex T i) (\<lambda>s. s\<lparr>sk_type := kSocketNoneType\<rparr>) T))"

text \<open>At most \<open>n\<close> rounds; the compare-and-swap of a caller that runs alone succeeds.\<close>

fun reserve_loop :: "nat \<Rightarrow> tcp \<Rightarrow> (u32 \<times> tcp) option" where
  "reserve_loop 0 T = None"
| "reserve_loop (Suc n) T =
     (let prev = tcp_allocId T;
          T1 = T\<lparr>tcp_allocId := prev + 1\<rparr>;
          T2 = (if sint prev < 0 then T1\<lparr>tcp_allocId := tcp_allocId T1 AND 0x7FFFFFFF\<rparr> else T1);
          i = (if sint prev < 0 then tcp_allocId T2 else prev)
      in if sk_type (sock T2 (getIndex T2 i)) = kSocketNoneType
         then Some (i, sock_upd (getIndex T2 i) (\<lambda>s. s\<lparr>sk_type := kReserveType, sk_id := i, sk_fd := - 1\<rparr>) T2)
         else reserve_loop n T2)"

definition tcpGetReserveId :: "tcp \<Rightarrow> (u32 \<times> tcp) option" where
  "tcpGetReserveId T = reserve_loop (unat (tcp_setsize T)) T"

subsection \<open>Closing\<close>

definition socketStop :: "nat \<Rightarrow> tcp \<Rightarrow> tcp option" where
  "socketStop i T =
     (let T1 = (if sk_fd (sock T i) > 0 then sys_close (sk_fd (sock T i)) T else T);
          T2 = sock_upd i (\<lambda>s. s\<lparr>sk_state := kSocketDisconnected\<rparr>) T1
      in tcpRecoverId (sk_id (sock T i)) T2)"

definition handleClose :: "nat \<Rightarrow> tcp \<Rightarrow> tcp option" where
  "handleClose i T =
     (case delete_event (sk_fd (sock T i)) AE_READABLE T of
        None \<Rightarrow> None
      | Some T1 \<Rightarrow>
          (case delete_event (sk_fd (sock T1 i)) AE_WRITABLE T1 of
             None \<Rightarrow> None
           | Some T2 \<Rightarrow>
               (let T3 = sys_close (sk_fd (sock T2 i)) T2;
                    T4 = sock_upd i (\<lambda>s. s\<lparr>sk_state := kSocketDisconnected\<rparr>) T3
                in map_option (\<lambda>T5. send_msg (sk_from (sock T5 i)) 0 MSG_TYPE_SOCK_CLOSE [] (sk_id (sock T5 i)) T5)
                     (tcpRecoverId (sk_id (sock T4 i)) T4))))"

definition handleError :: "nat \<Rightarrow> tcp \<Rightarrow> tcp option" where
  "handleError i T = map_option (\<lambda>T1. tcpError (sk_from (sock T1 i)) (sk_id (sock T1 i)) T1) (handleClose i T)"

definition socketForceClose :: "nat \<Rightarrow> tcp \<Rightarrow> tcp option" where
  "socketForceClose i T =
     (if sk_state (sock T i) = kSocketConnected \<or> sk_state (sock T i) = kSocketConnecting
      then handleClose i T else tcpRecoverId (sk_id (sock T i)) T)"

subsection \<open>Opening\<close>

definition socketAccept :: "nat \<Rightarrow> tcp \<Rightarrow> (bool \<times> tcp) option" where
  "socketAccept i T =
     (if sk_fd (sock T i) > 0 then create_event (sk_fd (sock T i)) AE_READABLE OnAccept i T else None)"

definition socketStart :: "nat \<Rightarrow> tcp \<Rightarrow> (bool \<times> tcp) option" where
  "socketStart i T =
     (if sk_fd (sock T i) \<noteq> - 1
      then create_event (sk_fd (sock T i)) AE_READABLE OnRead i (sock_upd i (\<lambda>s. s\<lparr>sk_state := kSocketConnected\<rparr>) T)
      else None)"

definition socketConnect :: "nat \<Rightarrow> tcp \<Rightarrow> (bool \<times> tcp) option" where
  "socketConnect i T = create_event (sk_fd (sock T i)) AE_WRITABLE OnConnecting i T"

text \<open>\<open>acc\<close> is the descriptor of anetTcpAccept; \<open>ip\<close> is what the uninitialised copy of the address holds.\<close>

definition onAccept :: "int option \<Rightarrow> byte list \<Rightarrow> nat \<Rightarrow> tcp \<Rightarrow> tcp option" where
  "onAccept acc ip i T =
     (case acc of
        None \<Rightarrow> Some (tcpError (sk_from (sock T i)) (sk_id (sock T i)) T)
      | Some cfd \<Rightarrow>
          (case tcpGetReserveId (T\<lparr>tcp_open := insert cfd (tcp_open T)\<rparr>) of
             None \<Rightarrow> None
           | Some (n, T1) \<Rightarrow>
               (case tcpGetSocket T1 n of
                  None \<Rightarrow> None
                | Some j \<Rightarrow>
                    (let T2 = sock_upd j (\<lambda>s. s\<lparr>sk_from := 0, sk_fd := cfd, sk_protoType := sk_protoType (sock T1 i),
                                sk_type := kSocketType, sk_state := kSocketConnecting,
                                sk_readBuffer := map_option bufferRetrieveAll (sk_readBuffer s),
                                sk_sendBuffer := map_option bufferRetrieveAll (sk_sendBuffer s)\<rparr>) T1
                     in Some (send_msg (sk_from (sock T2 i)) (sk_id (sock T2 i)) MSG_TYPE_SOCK_ACCEPT ip
                                (sk_id (sock T2 j)) T2)))))"

text \<open>\<open>ok\<close>: getsockopt succeeded and reported no error.\<close>

definition onConnecting :: "bool \<Rightarrow> int \<Rightarrow> nat \<Rightarrow> tcp \<Rightarrow> tcp option" where
  "onConnecting ok fd i T =
     (case delete_event fd AE_WRITABLE T of
        None \<Rightarrow> None
      | Some T1 \<Rightarrow>
          if ok
          then (let T2 = sock_upd i (\<lambda>s. s\<lparr>sk_state := kSocketConnecting\<rparr>) T1
                in Some (send_msg (sk_from (sock T2 i)) 0 MSG_TYPE_SOCK_CONNECT [] (sk_id (sock T2 i)) T2))
          else socketStop i (tcpError (sk_from (sock T1 i)) (sk_id (sock T1 i)) T1))"

subsection \<open>Reading\<close>

text \<open>
  \<open>bs\<close> is what readv returned: it fills the free part of the buffer first, then the 65536 bytes of
  \<open>extrabuf\<close>, which are appended.
\<close>

definition socketRead :: "byte \<Rightarrow> byte list \<Rightarrow> nat \<Rightarrow> tcp \<Rightarrow> tcp option" where
  "socketRead fill bs i T =
     (let buf = (case sk_readBuffer (sock T i) of None \<Rightarrow> bufferCreate fill READ_BUFFER_INITIAL | Some b \<Rightarrow> b);
          writeable = unat (bufferWriteableBytes buf)
      in case mem_write (bf_data buf) (unat (bf_writeIndex buf)) (take writeable bs) of
           None \<Rightarrow> None
         | Some d \<Rightarrow>
             (let buf1 = buf\<lparr>bf_data := Some d\<rparr>
              in map_option (\<lambda>b. sock_upd i (\<lambda>s. s\<lparr>sk_readBuffer := Some b\<rparr>) T)
                   (if length bs \<le> writeable then Some (bufferMoveWriteIndex buf1 (of_nat (length bs)))
                    else bufferAppend fill (bufferSetWriteIndex buf1 (bufferGetSize buf1)) (drop writeable bs))))"

definition protoMessageCallback :: "nat \<Rightarrow> tcp \<Rightarrow> byte list \<Rightarrow> tcp" where
  "protoMessageCallback i T body = send_msg (sk_from (sock T i)) 0 MSG_TYPE_SOCK_DATA body (sk_id (sock T i)) T"

text \<open>onMessageCallback of proto.c on the socket: the bodies are sent on, a bad length closes.\<close>

definition sock_messages :: "byte \<Rightarrow> nat \<Rightarrow> tcp \<Rightarrow> tcp option" where
  "sock_messages fill i T =
     (case sk_readBuffer (sock T i) of
        None \<Rightarrow> None
      | Some buf \<Rightarrow>
          (case onMessageCallback fill (sk_protoType (sock T i)) buf of
             None \<Rightarrow> None
           | Some (bodies, buf', closed) \<Rightarrow>
               (let T1 = foldl (protoMessageCallback i) (sock_upd i (\<lambda>s. s\<lparr>sk_readBuffer := Some buf'\<rparr>) T) bodies
                in if closed then socketForceClose i T1 else Some T1)))"

text \<open>\<open>None\<close> is an error of readv, the empty string the end of the stream.\<close>

definition onRead :: "byte \<Rightarrow> byte list option \<Rightarrow> nat \<Rightarrow> tcp \<Rightarrow> tcp option" where
  "onRead fill r i T =
     (case r of
        None \<Rightarrow> handleError i T
      | Some bs \<Rightarrow>
          if bs = [] then handleClose i T
          else (case socketRead fill bs i T of None \<Rightarrow> None | Some T1 \<Rightarrow> sock_messages fill i T1))"

subsection \<open>Writing\<close>

text \<open>The result of write and send: a count, EAGAIN, EPIPE or ECONNRESET, another error.\<close>

datatype io_res = IoDone nat | IoAgain | IoReset | IoOther

definition sys_took :: "int \<Rightarrow> byte list \<Rightarrow> tcp \<Rightarrow> tcp" where
  "sys_took fd bs T = T\<lparr>tcp_wire := (tcp_wire T)(fd := tcp_wire T fd @ bs)\<rparr>"

definition hasSendBuffer :: "socket \<Rightarrow> bool" where
  "hasSendBuffer s = (case sk_sendBuffer s of None \<Rightarrow> False | Some b \<Rightarrow> bufferReadableBytes b \<noteq> 0)"

definition socketWrite :: "byte \<Rightarrow> io_res \<Rightarrow> byte list \<Rightarrow> nat \<Rightarrow> tcp \<Rightarrow> tcp option" where
  "socketWrite fill r buf i T =
     (if sk_state (sock T i) \<noteq> kSocketConnected then Some T
      else let direct = \<not> hasSendBuffer (sock T i);
               nwrote = (if direct then case r of IoDone n \<Rightarrow> n | _ \<Rightarrow> 0 else 0);
               faultError = (direct \<and> r = IoReset);
               T1 = sys_took (sk_fd (sock T i)) (take nwrote buf) T;
               remaining = drop nwrote buf
           in if faultError then handleError i T1
              else if remaining = [] then Some T1
              else let b = (case sk_sendBuffer (sock T i) of None \<Rightarrow> bufferCreate fill SEND_BUFFER_INITIAL | Some b \<Rightarrow> b)
                   in case bufferAppend fill b remaining of
                        None \<Rightarrow> None
                      | Some b' \<Rightarrow>
                          map_option snd (create_event (sk_fd (sock T i)) AE_WRITABLE OnWrite i
                            (sock_upd i (\<lambda>s. s\<lparr>sk_sendBuffer := Some b'\<rparr>) T1)))"

text \<open>
  The loop of onWrite; \<open>send w bs\<close> is the result of the send of \<open>bs\<close> in the state \<open>w\<close> of the kernel.
  Returns the bytes taken, the buffer and how it ended: all sent, blocked, an error.
\<close>

datatype flush_end = FlushAll | FlushBlocked | FlushError

lemma flush_less:
  fixes n :: u32
  assumes "0 < n"
  shows "bufferReadableBytes (bufferMoveReadIndex b n) < bufferReadableBytes b \<or>
    bufferReadableBytes (bufferMoveReadIndex b n) = 0"
proof (cases "n < bufferReadableBytes b")
  case True
  have "(bf_writeIndex b - bf_readIndex b) - n < bf_writeIndex b - bf_readIndex b"
    using True assms unfolding bufferReadableBytes_def word_less_nat_alt by (simp add: unat_sub_if')
  then show ?thesis using True by (simp add: bufferMoveReadIndex_def bufferReadableBytes_def diff_diff_eq)
next
  case False
  then show ?thesis by (simp add: bufferMoveReadIndex_def bufferReadableBytes_def bufferRetrieveAll_def)
qed

function flush :: "('w \<Rightarrow> byte list \<Rightarrow> io_res \<times> 'w) \<Rightarrow> 'w \<Rightarrow> buffer \<Rightarrow> (byte list \<times> buffer \<times> flush_end \<times> 'w) option" where
  "flush send w b =
     (case mem_read (bf_data b) (unat (bf_readIndex b)) (unat (bufferReadableBytes b)) of
        None \<Rightarrow> None
      | Some bs \<Rightarrow>
          (case send w bs of
             (IoDone n, w1) \<Rightarrow>
               if (of_nat n :: u32) = 0 then Some ([], b, FlushBlocked, w1)
               else let b1 = bufferMoveReadIndex b (of_nat n)
                    in if bufferReadableBytes b1 = 0 then Some (take n bs, b1, FlushAll, w1)
                       else map_option (\<lambda>(out, r). (take n bs @ out, r)) (flush send w1 b1)
           | (IoAgain, w1) \<Rightarrow> Some ([], b, FlushBlocked, w1)
           | (_, w1) \<Rightarrow> Some ([], b, FlushError, w1)))"
  by pat_completeness auto
termination
proof (relation "measure (\<lambda>(s, w, b). unat (bufferReadableBytes b))")
  fix n :: nat and b b1
  assume "(of_nat n :: u32) \<noteq> 0" "b1 = bufferMoveReadIndex b (of_nat n)" "bufferReadableBytes b1 \<noteq> 0"
  then have "bufferReadableBytes b1 < bufferReadableBytes b"
    using flush_less [of "of_nat n" b] by (simp add: word_gt_0)
  then show "((s, w, b1), s, w', b) \<in> measure (\<lambda>(s, w, b). unat (bufferReadableBytes b))" for s w w'
    by (simp add: word_less_nat_alt)
qed simp

declare flush.simps [simp del]

definition onWrite :: "('w \<Rightarrow> byte list \<Rightarrow> io_res \<times> 'w) \<Rightarrow> 'w \<Rightarrow> nat \<Rightarrow> tcp \<Rightarrow> (tcp \<times> 'w) option" where
  "onWrite send w i T =
     (case sk_sendBuffer (sock T i) of
        None \<Rightarrow> None
      | Some b \<Rightarrow>
          (case flush send w b of
             None \<Rightarrow> None
           | Some (out, b1, how, w1) \<Rightarrow>
               (let T1 = sock_upd i (\<lambda>s. s\<lparr>sk_sendBuffer := Some b1\<rparr>) (sys_took (sk_fd (sock T i)) out T)
                in case how of
                     FlushError \<Rightarrow> map_option (\<lambda>T2. (T2, w1)) (handleError i T1)
                   | FlushBlocked \<Rightarrow> Some (T1, w1)
                   | FlushAll \<Rightarrow>
                       map_option (\<lambda>T2. (T2, w1)) (delete_event (sk_fd (sock T i)) AE_WRITABLE
                         (sock_upd i (\<lambda>s. s\<lparr>sk_sendBuffer := Some (bufferRetrieveAll b1)\<rparr>) T1)))))"

subsection \<open>What a read can take\<close>

definition read_buffer :: "byte \<Rightarrow> socket \<Rightarrow> buffer" where
  "read_buffer fill s = (case sk_readBuffer s of None \<Rightarrow> bufferCreate fill READ_BUFFER_INITIAL | Some b \<Rightarrow> b)"

lemma sock_read_fits:
  assumes "buf_ok buf" "unat (bf_writeIndex buf) = unat (bf_size buf)"
  shows "buf_fits buf n \<longleftrightarrow> n \<le> unat (bf_size buf)"
proof -
  obtain d where "unat (bf_readIndex buf) \<le> unat (bf_writeIndex buf)" using assms(1) by (rule buf_okE)
  then show ?thesis using assms buf_counts(3) [OF assms(1)] by (auto simp: buf_fits_def)
qed

text \<open>C28: a read appends what readv returned to the unread bytes exactly when it is no longer than the
  free part and the size of the buffer together, and writes beyond the buffer otherwise: the 65536
  bytes of the second vector do not fit a buffer that is doubled once.\<close>

theorem socket_read:
  assumes "i < length (tcp_sockets T)" "buf_ok (read_buffer fill (sock T i))" "unat (bf_size (read_buffer fill (sock T i))) < 2 ^ 30"
    and "length bs < 2 ^ 32"
  shows "if length bs \<le> unat (bufferWriteableBytes (read_buffer fill (sock T i))) + unat (bf_size (read_buffer fill (sock T i)))
    then \<exists>T' b. socketRead fill bs i T = Some T' \<and> sk_readBuffer (sock T' i) = Some b \<and> buf_ok b \<and>
      buf_bytes b = buf_bytes (read_buffer fill (sock T i)) @ bs
    else socketRead fill bs i T = None"
proof -
  define buf where "buf = read_buffer fill (sock T i)"
  have ok: "buf_ok buf" and sz: "unat (bf_size buf) < 2 ^ 30" using assms(2,3) by (simp_all add: buf_def)
  define w where "w = unat (bufferWriteableBytes buf)"
  have w: "w = unat (bf_size buf) - unat (bf_writeIndex buf)" "unat (bf_writeIndex buf) \<le> unat (bf_size buf)"
    using buf_counts(1) [OF ok] ok by (auto simp: w_def buf_ok_def)
  have room: "unat (bf_writeIndex buf) + length (take w bs) \<le> unat (bf_size buf)" using w by simp
  obtain d where d: "mem_write (bf_data buf) (unat (bf_writeIndex buf)) (take w bs) = Some d"
      and b1: "buf_ok (buf\<lparr>bf_data := Some d, bf_writeIndex := bf_writeIndex buf + of_nat (length (take w bs))\<rparr>)"
        "buf_bytes (buf\<lparr>bf_data := Some d, bf_writeIndex := bf_writeIndex buf + of_nat (length (take w bs))\<rparr>) = buf_bytes buf @ take w bs"
    using buf_write [OF ok room] by blast
  have run: "socketRead fill bs i T = map_option (\<lambda>b. sock_upd i (\<lambda>s. s\<lparr>sk_readBuffer := Some b\<rparr>) T)
      (if length bs \<le> w then Some (bufferMoveWriteIndex (buf\<lparr>bf_data := Some d\<rparr>) (of_nat (length bs)))
       else bufferAppend fill (bufferSetWriteIndex (buf\<lparr>bf_data := Some d\<rparr>) (bf_size buf)) (drop w bs))"
    using d by (simp add: socketRead_def read_buffer_def [symmetric] buf_def [symmetric] w_def [symmetric] Let_def bufferGetSize_def)
  have upd: "sk_readBuffer (sock (sock_upd i (\<lambda>s. s\<lparr>sk_readBuffer := Some b\<rparr>) T) i) = Some b" for b
    using assms(1) by (simp add: sock_def sock_upd_def)
  show ?thesis
  proof (cases "length bs \<le> w")
    case True
    then have "bufferMoveWriteIndex (buf\<lparr>bf_data := Some d\<rparr>) (of_nat (length bs))
        = buf\<lparr>bf_data := Some d, bf_writeIndex := bf_writeIndex buf + of_nat (length (take w bs))\<rparr>"
      by (simp add: bufferMoveWriteIndex_def)
    then show ?thesis using True run b1 upd by (simp add: buf_def [symmetric] w_def [symmetric])
  next
    case False
    let ?b1 = "bufferSetWriteIndex (buf\<lparr>bf_data := Some d\<rparr>) (bf_size buf)"
    have "bf_writeIndex buf + of_nat w = bf_size buf" by (simp add: w_def bufferWriteableBytes_def)
    then have e: "?b1 = buf\<lparr>bf_data := Some d, bf_writeIndex := bf_writeIndex buf + of_nat (length (take w bs))\<rparr>"
      using False by (simp add: bufferSetWriteIndex_def)
    have ok1: "buf_ok ?b1" "buf_bytes ?b1 = buf_bytes buf @ take w bs" using b1 by (simp_all only: e)
    have sz1: "bf_size ?b1 = bf_size buf" "unat (bf_writeIndex ?b1) = unat (bf_size ?b1)" by (simp_all add: bufferSetWriteIndex_def)
    have fits: "buf_fits ?b1 (length (drop w bs)) \<longleftrightarrow> length bs \<le> w + unat (bf_size buf)"
      unfolding sock_read_fits [OF ok1(1) sz1(2)] sz1(1) length_drop using False by linarith
    show ?thesis
    proof (cases "length bs \<le> w + unat (bf_size buf)")
      case True
      then obtain b where "bufferAppend fill ?b1 (drop w bs) = Some b" "buf_ok b" "buf_bytes b = buf_bytes buf @ bs"
        using bufferAppend_ok [OF ok1(1), of "drop w bs" fill] fits sz sz1(1) ok1(2) by auto
      then show ?thesis using True False run upd by (auto simp: buf_def [symmetric] w_def [symmetric])
    next
      case big: False
      then have "bufferAppend fill ?b1 (drop w bs) = None"
        using bufferAppend_overflow [OF ok1(1), of "drop w bs" fill] fits sz sz1(1) assms(4) by simp
      then show ?thesis using big False run by (simp add: buf_def [symmetric] w_def [symmetric])
    qed
  qed
qed

text \<open>The first read of a connection: 128 bytes fit, 129 do not.\<close>

lemma socket_read_witness:
  "socketRead 0 (replicate 128 7) 0 (tcpInit (aeCreateEventLoop 8 0) 2) \<noteq> None \<and>
   socketRead 0 (replicate 129 7) 0 (tcpInit (aeCreateEventLoop 8 0) 2) = None"
proof -
  let ?T = "tcpInit (aeCreateEventLoop 8 0) 2"
  have l: "0 < length (tcp_sockets ?T)" and n: "sk_readBuffer (sock ?T 0) = None" by code_simp+
  have r: "read_buffer 0 (sock ?T 0) = bufferCreate 0 64" by (simp add: read_buffer_def n READ_BUFFER_INITIAL_def)
  have b: "buf_ok (bufferCreate 0 64)" "unat (bf_size (bufferCreate 0 64)) = 64" "unat (bufferWriteableBytes (bufferCreate 0 64)) = 64"
    using bufferCreate_ok(1) [of 64 0] by (simp_all add: bufferCreate_def bufferWriteableBytes_def kCheapPrepend_def)
  show ?thesis
    using socket_read [OF l, of 0 "replicate 128 7"] socket_read [OF l, of 0 "replicate 129 7"] b by (simp add: r) blast
qed

end
