(* ===== verification/Tcp.thy ===== *)
theory Tcp
  imports Socket
begin

section \<open>The network thread (src/tcp.c)\<close>

text \<open>
  Contexts reserve an id in the table of sockets and post requests to the queue of the network thread,
  which handles them in order and runs the callbacks of the file events. The queue is a list here (its
  concurrency is the subject of theory EventQueue), addresses and ports go to the kernel only, and a
  call that a context makes is one step.

  \<open>tcp_step\<close> are the steps of the system, with every outcome of the system calls; an accepted or
  connected descriptor is positive and was not open before. \<open>tcp_inv\<close> is the invariant. The theorems:
  the events in the loop belong to open connections and every callback finds its own socket; the
  requests of a connection's life never fail an assertion in the network thread; reserving finds a free
  slot if there is one, until the counter of ids wraps; the bytes of a connection leave in order and none
  is lost or forgotten, but a slot used again sends the bytes that the connection before it left behind.
\<close>

subsection \<open>Requests\<close>

datatype tcpRequest =
    ReqListen u32 u32 int             \<comment> \<open>from, id, protoType\<close>
  | ReqStart u32 u32
  | ReqConnect u32 u32 int
  | ReqAsyncConnect u32 u32 int
  | ReqClose u32 u32
  | ReqSend u32 "u32 list" "byte list option"
  | ReqStop

text \<open>What the system calls of a request return: the new descriptors, whether errno is EINPROGRESS, the writes.\<close>

record net =
  nt_server :: "int option"
  nt_connect :: "int option"
  nt_nonblock :: "(int \<times> bool) option"
  nt_write :: "nat \<Rightarrow> io_res"

definition sys_open :: "int \<Rightarrow> tcp \<Rightarrow> tcp" where
  "sys_open fd T = T\<lparr>tcp_open := insert fd (tcp_open T)\<rparr>"

definition handleTcpSocketListen :: "net \<Rightarrow> u32 \<Rightarrow> u32 \<Rightarrow> int \<Rightarrow> tcp \<Rightarrow> tcp option" where
  "handleTcpSocketListen N from i protoType T =
     (case nt_server N of
        None \<Rightarrow> Some (tcpError from i T)
      | Some fd \<Rightarrow>
          (case tcpGetSocket T i of
             None \<Rightarrow> Some (tcpError from i (sys_open fd T))
           | Some j \<Rightarrow> Some (sock_upd j (\<lambda>s. s\<lparr>sk_state := kSocketConnecting, sk_type := kAcceptType, sk_fd := fd,
                          sk_protoType := protoType\<rparr>) (sys_open fd T))))"

definition handleTcpSocketStart :: "u32 \<Rightarrow> u32 \<Rightarrow> tcp \<Rightarrow> tcp option" where
  "handleTcpSocketStart from i T =
     (case tcpGetSocket T i of
        None \<Rightarrow> Some (tcpError from i T)
      | Some j \<Rightarrow>
          if sk_state (sock T j) \<noteq> kSocketConnecting then Some (tcpError from i T)
          else (let T1 = sock_upd j (\<lambda>s. s\<lparr>sk_from := from\<rparr>) T
                in case (if sk_type (sock T1 j) = kAcceptType then socketAccept j T1
                         else if sk_type (sock T1 j) = kSocketType \<or> sk_type (sock T1 j) = kConnectType then socketStart j T1
                         else Some (False, T1)) of
                     None \<Rightarrow> None
                   | Some (ok, T2) \<Rightarrow> if ok then Some T2 else map_option (tcpError from i) (socketStop j T2)))"

definition handleTcpSocketConnect :: "net \<Rightarrow> u32 \<Rightarrow> u32 \<Rightarrow> int \<Rightarrow> tcp \<Rightarrow> tcp option" where
  "handleTcpSocketConnect N from i protoType T =
     (case tcpGetSocket T i of
        None \<Rightarrow> Some (tcpError from i T)
      | Some j \<Rightarrow>
          (case nt_connect N of
             None \<Rightarrow> Some (tcpError from i T)
           | Some fd \<Rightarrow> Some (sock_upd j (\<lambda>s. s\<lparr>sk_type := kConnectType, sk_protoType := protoType,
                           sk_state := kSocketConnecting, sk_fd := fd\<rparr>) (sys_open fd T))))"

definition handleTcpSocketAsyncConnect :: "net \<Rightarrow> u32 \<Rightarrow> u32 \<Rightarrow> int \<Rightarrow> tcp \<Rightarrow> tcp option" where
  "handleTcpSocketAsyncConnect N from i protoType T =
     (case tcpGetSocket T i of
        None \<Rightarrow> Some (tcpError from i T)
      | Some j \<Rightarrow>
          (let T1 = sock_upd j (\<lambda>s. s\<lparr>sk_from := from\<rparr>) T;
               failed = (\<lambda>T. map_option (\<lambda>T'. tcpError from (sk_id (sock T' j)) T') (tcpRecoverId i T))
           in case nt_nonblock N of
                None \<Rightarrow> failed T1
              | Some (fd, False) \<Rightarrow> failed (sys_open fd T1)
              | Some (fd, True) \<Rightarrow>
                  (case socketConnect j (sys_open fd T1) of
                     None \<Rightarrow> None
                   | Some (False, T2) \<Rightarrow> failed T2
                   | Some (True, T2) \<Rightarrow> Some (sock_upd j (\<lambda>s. s\<lparr>sk_state := kSocketConnecting, sk_fd := fd,
                        sk_type := kConnectType, sk_protoType := protoType\<rparr>) T2))))"

definition handleTcpSocketClose :: "u32 \<Rightarrow> u32 \<Rightarrow> tcp \<Rightarrow> tcp option" where
  "handleTcpSocketClose from i T =
     (case tcpGetSocket T i of None \<Rightarrow> Some (tcpError from i T) | Some j \<Rightarrow> socketForceClose j T)"

fun send_all :: "byte \<Rightarrow> (nat \<Rightarrow> io_res) \<Rightarrow> u32 \<Rightarrow> byte list \<Rightarrow> u32 list \<Rightarrow> tcp \<Rightarrow> tcp option" where
  "send_all fill res from buf [] T = Some T"
| "send_all fill res from buf (i # ids) T =
     (case (case tcpGetSocket T i of
              None \<Rightarrow> Some (tcpError from i T)
            | Some j \<Rightarrow> socketWrite fill (res 0) buf j T) of
        None \<Rightarrow> None
      | Some T1 \<Rightarrow> send_all fill (\<lambda>k. res (Suc k)) from buf ids T1)"

definition handleTcpSocketSend :: "byte \<Rightarrow> net \<Rightarrow> u32 \<Rightarrow> u32 list \<Rightarrow> byte list option \<Rightarrow> tcp \<Rightarrow> tcp option" where
  "handleTcpSocketSend fill N from ids dat T =
     (case dat of None \<Rightarrow> Some T | Some buf \<Rightarrow> send_all fill (nt_write N) from buf ids T)"

definition handleEvent :: "byte \<Rightarrow> net \<Rightarrow> tcpRequest \<Rightarrow> tcp \<Rightarrow> tcp option" where
  "handleEvent fill N req T =
     (case req of
        ReqListen from i p \<Rightarrow> handleTcpSocketListen N from i p T
      | ReqStart from i \<Rightarrow> handleTcpSocketStart from i T
      | ReqConnect from i p \<Rightarrow> handleTcpSocketConnect N from i p T
      | ReqAsyncConnect from i p \<Rightarrow> handleTcpSocketAsyncConnect N from i p T
      | ReqClose from i \<Rightarrow> handleTcpSocketClose from i T
      | ReqSend from ids dat \<Rightarrow> handleTcpSocketSend fill N from ids dat T
      | ReqStop \<Rightarrow> Some (T\<lparr>tcp_loop := aeStop (tcp_loop T)\<rparr>))"

subsection \<open>The calls of a context\<close>

text \<open>\<open>room\<close>: emPush accepts the request. The result is the id or -1, and the table with the queue.\<close>

type_synonym server = "tcp \<times> tcpRequest list"

definition tcpPostRequest :: "bool \<Rightarrow> u32 \<Rightarrow> tcpRequest \<Rightarrow> server \<Rightarrow> (u32 \<times> server) option" where
  "tcpPostRequest room i req S =
     (case S of (T, q) \<Rightarrow>
        if room then Some (i, T, q @ [req]) else map_option (\<lambda>T'. (- 1, T', q)) (tcpRecoverId i T))"

definition with_id :: "bool \<Rightarrow> (u32 \<Rightarrow> tcpRequest) \<Rightarrow> server \<Rightarrow> (u32 \<times> server) option" where
  "with_id room req S =
     (case tcpGetReserveId (fst S) of None \<Rightarrow> None | Some (i, T) \<Rightarrow> tcpPostRequest room i (req i) (T, snd S))"

definition tcpSocketListen :: "bool \<Rightarrow> u32 \<Rightarrow> int \<Rightarrow> server \<Rightarrow> (u32 \<times> server) option" where
  "tcpSocketListen room ctx protoType S = with_id room (\<lambda>i. ReqListen ctx i protoType) S"

definition tcpSocketConnect :: "bool \<Rightarrow> u32 \<Rightarrow> int \<Rightarrow> server \<Rightarrow> (u32 \<times> server) option" where
  "tcpSocketConnect room ctx protoType S = with_id room (\<lambda>i. ReqConnect ctx i protoType) S"

definition tcpSocketAsyncConnect :: "bool \<Rightarrow> u32 \<Rightarrow> int \<Rightarrow> server \<Rightarrow> (u32 \<times> server) option" where
  "tcpSocketAsyncConnect room ctx protoType S = with_id room (\<lambda>i. ReqAsyncConnect ctx i protoType) S"

definition tcpSocketStart :: "bool \<Rightarrow> u32 \<Rightarrow> u32 \<Rightarrow> server \<Rightarrow> (u32 \<times> server) option" where
  "tcpSocketStart room ctx i S = tcpPostRequest room i (ReqStart ctx i) S"

definition tcpSocketClose :: "bool \<Rightarrow> u32 \<Rightarrow> u32 \<Rightarrow> server \<Rightarrow> (u32 \<times> server) option" where
  "tcpSocketClose room ctx i S = tcpPostRequest room i (ReqClose ctx i) S"

definition tcpSocketSend :: "bool \<Rightarrow> u32 \<Rightarrow> u32 list option \<Rightarrow> byte list option \<Rightarrow> server \<Rightarrow> (u32 \<times> server) option" where
  "tcpSocketSend room ctx ids dat S =
     tcpPostRequest room (- 1) (ReqSend ctx (case ids of None \<Rightarrow> [] | Some l \<Rightarrow> l) dat) S"

definition tcpStop :: "bool \<Rightarrow> server \<Rightarrow> (u32 \<times> server) option" where
  "tcpStop room S = tcpPostRequest room (- 1) ReqStop S"

subsection \<open>The steps\<close>

text \<open>
  What the system calls of a callback return; \<open>ev_sends\<close> are the results of the sends of onWrite, in
  order, and send blocks behind them.
\<close>

record event =
  ev_accept :: "int option"
  ev_ip :: "byte list"
  ev_connected :: bool
  ev_read :: "byte list option"
  ev_sends :: "io_res list"

fun next_send :: "io_res list \<Rightarrow> byte list \<Rightarrow> io_res \<times> io_res list" where
  "next_send [] bs = (IoAgain, [])"
| "next_send (r # rs) bs = (r, rs)"

definition fire :: "byte \<Rightarrow> event \<Rightarrow> sock_proc \<Rightarrow> int \<Rightarrow> nat \<Rightarrow> tcp \<Rightarrow> tcp option" where
  "fire fill E pr fd i T =
     (case pr of
        OnAccept \<Rightarrow> onAccept (ev_accept E) (ev_ip E) i T
      | OnConnecting \<Rightarrow> onConnecting (ev_connected E) fd i T
      | OnRead \<Rightarrow> onRead fill (ev_read E) i T
      | OnWrite \<Rightarrow> map_option fst (onWrite next_send (ev_sends E) i T))"

definition new_fd :: "tcp \<Rightarrow> int option \<Rightarrow> bool" where
  "new_fd T r = (case r of None \<Rightarrow> True | Some fd \<Rightarrow> 0 < fd \<and> fd \<notin> tcp_open T)"

text \<open>No id has been given twice: the counter is below \<open>2 ^ 31\<close> for the next search.\<close>

definition ids_left :: "tcp \<Rightarrow> bool" where
  "ids_left T \<longleftrightarrow> unat (tcp_allocId T) + unat (tcp_setsize T) < 2 ^ 31"

inductive tcp_step :: "byte \<Rightarrow> server \<Rightarrow> server \<Rightarrow> bool" for fill where
  listen: "ids_left (fst S) \<Longrightarrow> tcpSocketListen room ctx p S = Some (i, S') \<Longrightarrow> tcp_step fill S S'"
| connect: "ids_left (fst S) \<Longrightarrow> tcpSocketConnect room ctx p S = Some (i, S') \<Longrightarrow> tcp_step fill S S'"
| async: "ids_left (fst S) \<Longrightarrow> tcpSocketAsyncConnect room ctx p S = Some (i, S') \<Longrightarrow> tcp_step fill S S'"
| start: "tcpSocketStart room ctx j S = Some (i, S') \<Longrightarrow> tcp_step fill S S'"
| close: "tcpSocketClose room ctx j S = Some (i, S') \<Longrightarrow> tcp_step fill S S'"
| send: "tcpSocketSend room ctx ids dat S = Some (i, S') \<Longrightarrow> tcp_step fill S S'"
| stop: "tcpStop room S = Some (i, S') \<Longrightarrow> tcp_step fill S S'"
| handle: "new_fd T (nt_server N) \<Longrightarrow> new_fd T (nt_connect N) \<Longrightarrow> new_fd T (map_option fst (nt_nonblock N)) \<Longrightarrow>
    handleEvent fill N req T = Some T' \<Longrightarrow> tcp_step fill (T, req # q) (T', q)"
| readable: "ae_mask (tcp_loop T) fd AND AE_READABLE \<noteq> 0 \<Longrightarrow> ae_slot (tcp_loop T) fd = Some fe \<Longrightarrow>
    fe_rfileProc fe = Some pr \<Longrightarrow> fe_clientData fe = Some i \<Longrightarrow>
    ids_left T \<Longrightarrow> new_fd T (ev_accept E) \<Longrightarrow> fire fill E pr fd i T = Some T' \<Longrightarrow> tcp_step fill (T, q) (T', q)"
| writable: "ae_mask (tcp_loop T) fd AND AE_WRITABLE \<noteq> 0 \<Longrightarrow> ae_slot (tcp_loop T) fd = Some fe \<Longrightarrow>
    fe_wfileProc fe = Some pr \<Longrightarrow> fe_clientData fe = Some i \<Longrightarrow>
    ids_left T \<Longrightarrow> new_fd T (ev_accept E) \<Longrightarrow> fire fill E pr fd i T = Some T' \<Longrightarrow> tcp_step fill (T, q) (T', q)"

inductive tcp_reach :: "byte \<Rightarrow> server \<Rightarrow> server \<Rightarrow> bool" for fill S where
  init: "tcp_reach fill S S"
| more: "tcp_reach fill S S1 \<Longrightarrow> tcp_step fill S1 S2 \<Longrightarrow> tcp_reach fill S S2"

subsection \<open>The invariant\<close>

definition live :: "socket \<Rightarrow> bool" where
  "live s \<longleftrightarrow> sk_state s = kSocketConnecting \<or> sk_state s = kSocketConnected"

definition ae_data :: "('p, 'd, 'e) aeEventLoop \<Rightarrow> int \<Rightarrow> 'd option" where
  "ae_data el fd = (case ae_slot el fd of None \<Rightarrow> None | Some fe \<Rightarrow> fe_clientData fe)"

text \<open>No event waits for a connection: see \<open>async_connect_lost\<close>.\<close>

definition quiet :: "(sock_proc, 'd, 'e) aeEventLoop \<Rightarrow> bool" where
  "quiet el \<longleftrightarrow> (\<forall>fd fe. ae_slot el fd = Some fe \<longrightarrow>
     fe_rfileProc fe \<noteq> Some OnConnecting \<and> fe_wfileProc fe \<noteq> Some OnConnecting)"

definition ae_valid :: "tcp \<Rightarrow> bool" where
  "ae_valid T \<longleftrightarrow> ae_ok (\<lambda>fd. fd \<in> tcp_open T) (tcp_loop T) \<and> quiet (tcp_loop T) \<and>
     (\<forall>fd. ae_mask (tcp_loop T) fd AND NOT 3 = 0)"

text \<open>What one socket satisfies, and what two of them do; \<open>n\<close> is the size of the table.\<close>

definition sock_ok :: "u32 \<Rightarrow> int set \<Rightarrow> nat \<Rightarrow> socket \<Rightarrow> bool" where
  "sock_ok n fds i s \<longleftrightarrow> sk_state s \<noteq> kSocketDisConnecting \<and>
     (sk_type s = kSocketNoneType \<or> sk_type s = kReserveType \<longrightarrow> sk_state s = kSocketDisconnected) \<and>
     (live s \<longrightarrow> 0 < sk_fd s \<and> sk_fd s \<in> fds \<and> unat (sk_id s AND (n - 1)) = i)"

definition tcp_inv :: "tcp \<Rightarrow> bool" where
  "tcp_inv T \<longleftrightarrow> pow2_size (tcp_setsize T) \<and> length (tcp_sockets T) = unat (tcp_setsize T) \<and> ae_valid T \<and>
     (\<forall>i < length (tcp_sockets T). sock_ok (tcp_setsize T) (tcp_open T) i (sock T i)) \<and>
     (\<forall>i < length (tcp_sockets T). \<forall>j < length (tcp_sockets T).
        live (sock T i) \<longrightarrow> live (sock T j) \<longrightarrow> sk_fd (sock T i) = sk_fd (sock T j) \<longrightarrow> i = j) \<and>
     (\<forall>fd. ae_mask (tcp_loop T) fd \<noteq> AE_NONE \<longrightarrow>
        (\<exists>i < length (tcp_sockets T). live (sock T i) \<and> sk_fd (sock T i) = fd \<and> ae_data (tcp_loop T) fd = Some i))"

text \<open>A change that opens no connection and gives no id.\<close>

definition calm :: "tcp \<Rightarrow> tcp \<Rightarrow> bool" where
  "calm T T' \<longleftrightarrow> tcp_allocId T' = tcp_allocId T \<and> tcp_setsize T' = tcp_setsize T \<and>
     (\<forall>i. (live (sock T' i) \<longrightarrow> live (sock T i)) \<and> sk_id (sock T' i) = sk_id (sock T i) \<and> sk_fd (sock T' i) = sk_fd (sock T i))"

lemma calm_refl [simp]: "calm T T"
  by (simp add: calm_def)

lemma calm_trans [trans]: "calm T T1 \<Longrightarrow> calm T1 T2 \<Longrightarrow> calm T T2"
  by (auto simp: calm_def)

lemma length_sock_upd [simp]: "length (tcp_sockets (sock_upd i f T)) = length (tcp_sockets T)"
  by (simp add: sock_upd_def)

lemma sock_upd_simps [simp]:
  "tcp_setsize (sock_upd i f T) = tcp_setsize T" "tcp_allocId (sock_upd i f T) = tcp_allocId T"
  "tcp_loop (sock_upd i f T) = tcp_loop T" "tcp_open (sock_upd i f T) = tcp_open T"
  "tcp_wire (sock_upd i f T) = tcp_wire T" "tcp_sent (sock_upd i f T) = tcp_sent T"
  by (simp_all add: sock_upd_def)

lemma sock_sock_upd:
  "sock (sock_upd i f T) j = (if j = i \<and> i < length (tcp_sockets T) then f (sock T i) else sock T j)"
  by (cases "i < length (tcp_sockets T)") (auto simp: sock_def sock_upd_def nth_list_update list_update_beyond)

text \<open>Messages and bytes on the wire are outside the invariant.\<close>

lemma send_msg_simps [simp]:
  "tcp_setsize (send_msg a b c d e T) = tcp_setsize T" "tcp_allocId (send_msg a b c d e T) = tcp_allocId T"
  "tcp_loop (send_msg a b c d e T) = tcp_loop T" "tcp_open (send_msg a b c d e T) = tcp_open T"
  "tcp_sockets (send_msg a b c d e T) = tcp_sockets T" "tcp_wire (send_msg a b c d e T) = tcp_wire T"
  "sock (send_msg a b c d e T) i = sock T i"
  by (simp_all add: send_msg_def sock_def)

lemma tcpError_simps [simp]:
  "tcp_setsize (tcpError a b T) = tcp_setsize T" "tcp_allocId (tcpError a b T) = tcp_allocId T"
  "tcp_loop (tcpError a b T) = tcp_loop T" "tcp_open (tcpError a b T) = tcp_open T"
  "tcp_sockets (tcpError a b T) = tcp_sockets T" "tcp_wire (tcpError a b T) = tcp_wire T" "sock (tcpError a b T) i = sock T i"
  by (simp_all add: tcpError_def)

lemma sys_took_simps [simp]:
  "tcp_setsize (sys_took a b T) = tcp_setsize T" "tcp_allocId (sys_took a b T) = tcp_allocId T"
  "tcp_loop (sys_took a b T) = tcp_loop T" "tcp_open (sys_took a b T) = tcp_open T"
  "tcp_sockets (sys_took a b T) = tcp_sockets T" "sock (sys_took a b T) i = sock T i"
  by (simp_all add: sys_took_def sock_def)

text \<open>The invariant looks at these fields only.\<close>

lemma tcp_inv_cong:
  assumes "tcp_setsize T' = tcp_setsize T" "length (tcp_sockets T') = length (tcp_sockets T)"
    "tcp_loop T' = tcp_loop T" "tcp_open T' = tcp_open T"
    "\<And>i. sk_state (sock T' i) = sk_state (sock T i) \<and> sk_fd (sock T' i) = sk_fd (sock T i) \<and>
       sk_id (sock T' i) = sk_id (sock T i) \<and> sk_type (sock T' i) = sk_type (sock T i)"
  shows "tcp_inv T' = tcp_inv T"
  using assms by (simp add: tcp_inv_def ae_valid_def sock_ok_def live_def)

lemma calm_cong:
  assumes "tcp_setsize T' = tcp_setsize T" "tcp_allocId T' = tcp_allocId T"
    "\<And>i. sk_state (sock T' i) = sk_state (sock T i) \<and> sk_id (sock T' i) = sk_id (sock T i) \<and> sk_fd (sock T' i) = sk_fd (sock T i)"
  shows "calm T0 T' = calm T0 T" "calm T' T0 = calm T T0"
  using assms by (simp_all add: calm_def live_def)

lemma tcp_inv_same [simp]:
  "tcp_inv (send_msg a b c d e T) = tcp_inv T" "tcp_inv (tcpError a b T) = tcp_inv T" "tcp_inv (sys_took fd bs T) = tcp_inv T"
  by (rule tcp_inv_cong; simp)+

lemma calm_same [simp]:
  "calm T0 (send_msg a b c d e T) = calm T0 T" "calm T0 (tcpError a b T) = calm T0 T" "calm T0 (sys_took fd bs T) = calm T0 T"
  by (rule calm_cong; simp)+

text \<open>An update of a socket that keeps its state, descriptor, id and type.\<close>

definition mild :: "(socket \<Rightarrow> socket) \<Rightarrow> bool" where
  "mild f \<longleftrightarrow> (\<forall>s. sk_state (f s) = sk_state s \<and> sk_fd (f s) = sk_fd s \<and> sk_id (f s) = sk_id s \<and> sk_type (f s) = sk_type s)"

lemma mild_upd:
  assumes "mild f"
  shows "tcp_inv (sock_upd i f T) = tcp_inv T" "calm T0 (sock_upd i f T) = calm T0 T"
  using assms by (intro tcp_inv_cong calm_cong; auto simp: mild_def sock_sock_upd)+

lemma mild_simps [simp]:
  "mild (\<lambda>s. s\<lparr>sk_from := a\<rparr>)" "mild (\<lambda>s. s\<lparr>sk_readBuffer := b\<rparr>)" "mild (\<lambda>s. s\<lparr>sk_sendBuffer := c\<rparr>)"
  by (simp_all add: mild_def)

subsection \<open>File events\<close>

lemma aeCreateFileEvent_data:
  assumes "aeCreateFileEvent valid el fd msk pr dat = Some (ok, el')" "0 \<le> fd"
  shows "ae_data el' = (if ok then (ae_data el)(fd := Some dat) else ae_data el)"
  using assms
  by (auto simp: aeCreateFileEvent_def ae_data_def ae_slot_def Let_def nth_list_update fun_eq_iff
      split: if_splits option.splits)

lemma aeDeleteFileEvent_data:
  assumes "aeDeleteFileEvent valid el fd msk = Some el'" "0 \<le> fd"
  shows "ae_data el' = ae_data el"
  using assms
  by (auto simp: aeDeleteFileEvent_def ae_data_def ae_slot_def Let_def nth_list_update fun_eq_iff
      split: if_splits option.splits)

lemma aeCreateFileEvent_quiet:
  assumes "aeCreateFileEvent valid el fd msk pr dat = Some (ok, el')" "0 \<le> fd" "quiet el" "pr \<noteq> OnConnecting"
  shows "quiet el'"
  using assms
  by (auto simp: aeCreateFileEvent_def quiet_def ae_slot_def Let_def nth_list_update split: if_splits option.splits)

lemma aeDeleteFileEvent_quiet:
  assumes "aeDeleteFileEvent valid el fd msk = Some el'" "0 \<le> fd" "quiet el"
  shows "quiet el'"
  using assms
  by (auto simp: aeDeleteFileEvent_def quiet_def ae_slot_def Let_def nth_list_update split: if_splits option.splits)

lemma tcp_invD:
  assumes "tcp_inv T"
  shows "pow2_size (tcp_setsize T)" "length (tcp_sockets T) = unat (tcp_setsize T)" "ae_valid T"
    "i < length (tcp_sockets T) \<Longrightarrow> sock_ok (tcp_setsize T) (tcp_open T) i (sock T i)"
    "i < length (tcp_sockets T) \<Longrightarrow> j < length (tcp_sockets T) \<Longrightarrow> live (sock T i) \<Longrightarrow> live (sock T j) \<Longrightarrow>
       sk_fd (sock T i) = sk_fd (sock T j) \<Longrightarrow> i = j"
    "ae_mask (tcp_loop T) fd \<noteq> AE_NONE \<Longrightarrow>
       \<exists>i < length (tcp_sockets T). live (sock T i) \<and> sk_fd (sock T i) = fd \<and> ae_data (tcp_loop T) fd = Some i"
  using assms by (auto simp: tcp_inv_def)

text \<open>A change that keeps which sockets are live and their descriptors.\<close>

lemma tcp_inv_live_same:
  assumes "tcp_inv T" "tcp_setsize T' = tcp_setsize T" "length (tcp_sockets T') = length (tcp_sockets T)"
    "tcp_loop T' = tcp_loop T" "tcp_open T' = tcp_open T"
    "\<And>i. i < length (tcp_sockets T) \<Longrightarrow> sock_ok (tcp_setsize T) (tcp_open T) i (sock T' i)"
    "\<And>i. live (sock T' i) = live (sock T i)" "\<And>i. sk_fd (sock T' i) = sk_fd (sock T i)"
  shows "tcp_inv T'"
  using assms by (auto simp: tcp_inv_def ae_valid_def)

text \<open>A new loop that keeps the masks and data of the other descriptors.\<close>

lemma tcp_inv_loop:
  assumes inv: "tcp_inv T" and i: "i < length (tcp_sockets T)" "live (sock T i)" "sk_fd (sock T i) = fd"
    and ok: "ae_valid (T\<lparr>tcp_loop := el\<rparr>)"
    and others: "\<And>g. g \<noteq> fd \<Longrightarrow> ae_mask el g = ae_mask (tcp_loop T) g \<and> ae_data el g = ae_data (tcp_loop T) g"
    and own: "ae_mask el fd \<noteq> AE_NONE \<Longrightarrow> ae_data el fd = Some i"
  shows "tcp_inv (T\<lparr>tcp_loop := el\<rparr>)"
proof -
  have "\<exists>j < length (tcp_sockets T). live (sock T j) \<and> sk_fd (sock T j) = g \<and> ae_data el g = Some j"
    if "ae_mask el g \<noteq> AE_NONE" for g
    using that tcp_invD(6) [OF inv, of g] others [of g] own i by (cases "g = fd") auto
  then show ?thesis using inv ok by (simp add: tcp_inv_def sock_def)
qed

lemma create_event_inv:
  assumes inv: "tcp_inv T" and i: "i < length (tcp_sockets T)" "live (sock T i)" and msk: "msk = 1 \<or> msk = 2" and pr: "pr \<noteq> OnConnecting"
  shows "\<exists>el. create_event (sk_fd (sock T i)) msk pr i T = Some (sk_fd (sock T i) < ae_setsize (tcp_loop T), T\<lparr>tcp_loop := el\<rparr>) \<and>
    tcp_inv (T\<lparr>tcp_loop := el\<rparr>) \<and> ae_setsize el = ae_setsize (tcp_loop T) \<and>
    ae_mask el = (if sk_fd (sock T i) < ae_setsize (tcp_loop T)
      then (ae_mask (tcp_loop T))(sk_fd (sock T i) := ae_mask (tcp_loop T) (sk_fd (sock T i)) OR msk) else ae_mask (tcp_loop T))"
proof -
  let ?fd = "sk_fd (sock T i)" and ?el = "tcp_loop T"
  have s: "sock_ok (tcp_setsize T) (tcp_open T) i (sock T i)" using tcp_invD(4) [OF inv i(1)] .
  then have fd: "0 \<le> ?fd" "?fd \<in> tcp_open T" using i(2) by (auto simp: sock_ok_def)
  have v: "ae_ok (\<lambda>fd. fd \<in> tcp_open T) ?el" "\<And>fd. ae_mask ?el fd AND NOT 3 = 0" "quiet ?el"
    using tcp_invD(3) [OF inv] by (auto simp: ae_valid_def)
  obtain el where el: "aeCreateFileEvent (\<lambda>fd. fd \<in> tcp_open T) ?el ?fd msk pr i = Some (?fd < ae_setsize ?el, el)"
      "ae_ok (\<lambda>fd. fd \<in> tcp_open T) el" "ae_setsize el = ae_setsize ?el"
      "ae_mask el = (if ?fd < ae_setsize ?el then (ae_mask ?el)(?fd := ae_mask ?el ?fd OR msk) else ae_mask ?el)"
    using aeCreateFileEvent_ok [OF v(1) fd(1), of msk pr i] fd(2) msk by (auto simp: AE_NONE_def)
  have q: "quiet el" using aeCreateFileEvent_quiet [OF el(1) fd(1) v(3) pr] .
  have dat: "ae_data el = (if ?fd < ae_setsize ?el then (ae_data ?el)(?fd := Some i) else ae_data ?el)"
    using aeCreateFileEvent_data [OF el(1) fd(1)] .
  have "msk AND NOT 3 = 0" using msk by auto
  then have "(ae_mask ?el ?fd OR msk) AND NOT 3 = 0" unfolding bit.conj_disj_distrib2 v(2) by simp
  then have val: "ae_valid (T\<lparr>tcp_loop := el\<rparr>)" using v(2) el q by (auto simp: ae_valid_def)
  have "ae_data el ?fd = Some i" if m: "ae_mask el ?fd \<noteq> AE_NONE"
  proof (cases "?fd < ae_setsize ?el")
    case False
    then obtain j where j: "j < length (tcp_sockets T)" "live (sock T j)" "sk_fd (sock T j) = ?fd" "ae_data ?el ?fd = Some j"
      using m tcp_invD(6) [OF inv, of ?fd] el(4) by auto
    then show ?thesis using False dat tcp_invD(5) [OF inv j(1) i(1) j(2) i(2) j(3)] by simp
  qed (simp add: dat)
  then have "tcp_inv (T\<lparr>tcp_loop := el\<rparr>)"
    using dat el(4) by (intro tcp_inv_loop [OF inv i refl val]) auto
  then show ?thesis using el by (auto simp: create_event_def)
qed

lemma delete_event_inv:
  assumes inv: "tcp_inv T" and i: "i < length (tcp_sockets T)" "live (sock T i)"
  shows "\<exists>el. delete_event (sk_fd (sock T i)) msk T = Some (T\<lparr>tcp_loop := el\<rparr>) \<and> tcp_inv (T\<lparr>tcp_loop := el\<rparr>) \<and>
    ae_setsize el = ae_setsize (tcp_loop T) \<and>
    ae_mask el = (ae_mask (tcp_loop T))(sk_fd (sock T i) := ae_mask (tcp_loop T) (sk_fd (sock T i)) AND NOT msk)"
proof -
  let ?fd = "sk_fd (sock T i)" and ?el = "tcp_loop T"
  have s: "sock_ok (tcp_setsize T) (tcp_open T) i (sock T i)" using tcp_invD(4) [OF inv i(1)] .
  then have fd: "0 \<le> ?fd" using i(2) by (auto simp: sock_ok_def)
  have v: "ae_ok (\<lambda>fd. fd \<in> tcp_open T) ?el" "\<And>fd. ae_mask ?el fd AND NOT 3 = 0" "quiet ?el"
    using tcp_invD(3) [OF inv] by (auto simp: ae_valid_def)
  obtain el where el: "aeDeleteFileEvent (\<lambda>fd. fd \<in> tcp_open T) ?el ?fd msk = Some el"
      "ae_ok (\<lambda>fd. fd \<in> tcp_open T) el" "ae_setsize el = ae_setsize ?el"
      "ae_mask el = (ae_mask ?el)(?fd := ae_mask ?el ?fd AND NOT msk)"
    using aeDeleteFileEvent_ok [OF v(1) fd, of msk] by auto
  have dat: "ae_data el = ae_data ?el" using aeDeleteFileEvent_data [OF el(1) fd] .
  have "ae_mask ?el ?fd AND NOT msk AND NOT 3 = 0" using v(2) [of ?fd] by (metis and.commute and.left_commute and_zero_eq)
  then have val: "ae_valid (T\<lparr>tcp_loop := el\<rparr>)"
    using v(2) el aeDeleteFileEvent_quiet [OF el(1) fd v(3)] by (auto simp: ae_valid_def and.assoc)
  have "ae_data el ?fd = Some i" if m: "ae_mask el ?fd \<noteq> AE_NONE"
  proof -
    have "ae_mask ?el ?fd \<noteq> AE_NONE" using m el(4) by (auto simp: AE_NONE_def)
    then obtain j where j: "j < length (tcp_sockets T)" "live (sock T j)" "sk_fd (sock T j) = ?fd" "ae_data ?el ?fd = Some j"
      using tcp_invD(6) [OF inv, of ?fd] by auto
    then show ?thesis using dat tcp_invD(5) [OF inv j(1) i(1) j(2) i(2) j(3)] by simp
  qed
  then have "tcp_inv (T\<lparr>tcp_loop := el\<rparr>)"
    using dat el(4) by (intro tcp_inv_loop [OF inv i refl val]) auto
  then show ?thesis using el by (auto simp: delete_event_def)
qed

subsection \<open>Closing keeps the invariant\<close>

lemma ae_mask_epoll [simp]:
  "ae_mask (el\<lparr>ae_epoll := S\<rparr>) = ae_mask el" "ae_data (el\<lparr>ae_epoll := S\<rparr>) = ae_data el"
  "quiet (el'\<lparr>ae_epoll := S\<rparr>) = quiet el'"
  by (auto simp: ae_mask_def ae_data_def quiet_def ae_slot_def fun_eq_iff)

lemma sys_close_simps [simp]:
  "tcp_setsize (sys_close fd T) = tcp_setsize T" "tcp_allocId (sys_close fd T) = tcp_allocId T"
  "tcp_sockets (sys_close fd T) = tcp_sockets T" "tcp_open (sys_close fd T) = tcp_open T - {fd}"
  "ae_mask (tcp_loop (sys_close fd T)) = ae_mask (tcp_loop T)" "ae_data (tcp_loop (sys_close fd T)) = ae_data (tcp_loop T)"
  "sock (sys_close fd T) i = sock T i"
  by (simp_all add: sys_close_def sock_def)

lemma tcp_loop_upd_sock [simp]: "sock (T\<lparr>tcp_loop := el\<rparr>) i = sock T i"
  by (simp add: sock_def)

lemma live_simps [simp]: "\<not> live (s\<lparr>sk_state := kSocketDisconnected\<rparr>)"
  by (simp add: live_def)

lemma disconnect_inv:
  assumes inv: "tcp_inv T" and i: "i < length (tcp_sockets T)" "live (sock T i)"
    and m: "ae_mask (tcp_loop T) (sk_fd (sock T i)) = AE_NONE"
  shows "tcp_inv (sock_upd i (\<lambda>s. s\<lparr>sk_state := kSocketDisconnected\<rparr>) (sys_close (sk_fd (sock T i)) T)) \<and>
    calm T (sock_upd i (\<lambda>s. s\<lparr>sk_state := kSocketDisconnected\<rparr>) (sys_close (sk_fd (sock T i)) T))"
proof -
  let ?fd = "sk_fd (sock T i)"
  let ?T = "sock_upd i (\<lambda>s. s\<lparr>sk_state := kSocketDisconnected\<rparr>) (sys_close ?fd T)"
  have sk: "sock ?T j = (if j = i then (sock T i)\<lparr>sk_state := kSocketDisconnected\<rparr> else sock T j)" for j
    using i(1) by (simp add: sock_sock_upd)
  have alive: "sock ?T j = sock T j" if "live (sock ?T j)" for j
    using that sk [of j] by (cases "j = i") simp_all
  have "ae_valid ?T"
    using tcp_invD(3) [OF inv] m by (auto simp: ae_valid_def ae_ok_def sys_close_def)
  moreover have "sock_ok (tcp_setsize ?T) (tcp_open ?T) j (sock ?T j)" if "j < length (tcp_sockets T)" for j
    using tcp_invD(4) [OF inv that] tcp_invD(5) [OF inv that i(1) _ i(2)] sk by (auto simp: sock_ok_def)
  moreover have "\<exists>j < length (tcp_sockets T). live (sock ?T j) \<and> sk_fd (sock ?T j) = g \<and> ae_data (tcp_loop T) g = Some j"
    if g: "ae_mask (tcp_loop T) g \<noteq> AE_NONE" for g
    using tcp_invD(6) [OF inv g] g m sk by metis
  moreover have "j = k" if "j < length (tcp_sockets T)" "k < length (tcp_sockets T)" "live (sock ?T j)" "live (sock ?T k)"
      "sk_fd (sock ?T j) = sk_fd (sock ?T k)" for j k
    using tcp_invD(5) [OF inv that(1,2)] that(3-5) alive [OF that(3)] alive [OF that(4)] by metis
  ultimately have "tcp_inv ?T" using tcp_invD(1,2) [OF inv] by (simp add: tcp_inv_def)
  moreover have "calm T ?T" using sk by (auto simp: calm_def)
  ultimately show ?thesis ..
qed

lemma tcpRecoverId_inv:
  assumes "tcp_inv T" "tcpRecoverId x T = Some T'"
  shows "tcp_inv T' \<and> calm T T' \<and> length (tcp_sockets T') = length (tcp_sockets T)"
proof (cases "sint x < 0")
  case False
  let ?j = "getIndex T x"
  have d: "sk_state (sock T ?j) = kSocketDisconnected"
    and T': "T' = sock_upd ?j (\<lambda>s. s\<lparr>sk_type := kSocketNoneType\<rparr>) T"
    using assms(2) False by (auto simp: tcpRecoverId_def split: if_splits)
  have sk: "sock T' k = sock T k \<or> k = ?j \<and> sock T' k = (sock T k)\<lparr>sk_type := kSocketNoneType\<rparr>" for k
    by (simp add: T' sock_sock_upd)
  have f: "tcp_setsize T' = tcp_setsize T" "tcp_allocId T' = tcp_allocId T" "tcp_loop T' = tcp_loop T"
    "tcp_open T' = tcp_open T" "length (tcp_sockets T') = length (tcp_sockets T)"
    by (simp_all add: T')
  have lv: "live (sock T' k) = live (sock T k)" "sk_fd (sock T' k) = sk_fd (sock T k)" "sk_id (sock T' k) = sk_id (sock T k)" for k
    using sk [of k] by (auto simp: live_def)
  have "sock_ok (tcp_setsize T) (tcp_open T) k (sock T' k)" if "k < length (tcp_sockets T)" for k
    using tcp_invD(4) [OF assms(1) that] sk [of k] d by (auto simp: sock_ok_def live_def)
  then have "tcp_inv T'"
    using lv f by (intro tcp_inv_live_same [OF assms(1)]) auto
  then show ?thesis using lv f by (simp add: calm_def)
qed (use assms in \<open>auto simp: tcpRecoverId_def\<close>)

lemma tcpRecoverId_some:
  assumes "sk_state (sock T (getIndex T x)) = kSocketDisconnected"
  obtains T' where "tcpRecoverId x T = Some T'"
  using assms that by (cases "sint x < 0") (auto simp: tcpRecoverId_def)

lemma live_index:
  assumes "tcp_inv T" "i < length (tcp_sockets T)" "live (sock T i)"
  shows "getIndex T (sk_id (sock T i)) = i" "0 < sk_fd (sock T i)" "sk_fd (sock T i) \<in> tcp_open T"
  using tcp_invD(4) [OF assms(1,2)] assms(3) by (auto simp: sock_ok_def getIndex_def)

lemma stop_inv:
  assumes inv: "tcp_inv T" and i: "i < length (tcp_sockets T)" "live (sock T i)"
    and m: "ae_mask (tcp_loop T) (sk_fd (sock T i)) = AE_NONE"
  shows "\<exists>T'. tcpRecoverId (sk_id (sock T i)) (sock_upd i (\<lambda>s. s\<lparr>sk_state := kSocketDisconnected\<rparr>)
      (sys_close (sk_fd (sock T i)) T)) = Some T' \<and> tcp_inv T' \<and> calm T T' \<and> length (tcp_sockets T') = length (tcp_sockets T)"
proof -
  let ?T = "sock_upd i (\<lambda>s. s\<lparr>sk_state := kSocketDisconnected\<rparr>) (sys_close (sk_fd (sock T i)) T)"
  have T: "tcp_inv ?T" "calm T ?T" using disconnect_inv [OF assms] by blast+
  have "sk_state (sock ?T (getIndex ?T (sk_id (sock T i)))) = kSocketDisconnected"
    using live_index(1) [OF inv i] i(1) by (simp add: getIndex_def sock_sock_upd)
  then obtain T' where T': "tcpRecoverId (sk_id (sock T i)) ?T = Some T'" by (rule tcpRecoverId_some)
  then have "tcp_inv T' \<and> calm ?T T' \<and> length (tcp_sockets T') = length (tcp_sockets T)"
    using tcpRecoverId_inv [OF T(1) T'] by simp
  then show ?thesis using T' calm_trans [OF T(2)] by blast
qed

lemma socketStop_inv:
  assumes "tcp_inv T" "i < length (tcp_sockets T)" "live (sock T i)" "ae_mask (tcp_loop T) (sk_fd (sock T i)) = AE_NONE"
  shows "\<exists>T'. socketStop i T = Some T' \<and> tcp_inv T' \<and> calm T T' \<and> length (tcp_sockets T') = length (tcp_sockets T)"
  using stop_inv [OF assms] live_index(2) [OF assms(1-3)] by (simp add: socketStop_def)

lemma handleClose_inv:
  assumes inv: "tcp_inv T" and i: "i < length (tcp_sockets T)" "live (sock T i)"
  shows "\<exists>T'. handleClose i T = Some T' \<and> tcp_inv T' \<and> calm T T' \<and> length (tcp_sockets T') = length (tcp_sockets T)"
proof -
  let ?fd = "sk_fd (sock T i)"
  obtain el where el: "delete_event ?fd AE_READABLE T = Some (T\<lparr>tcp_loop := el\<rparr>)" "tcp_inv (T\<lparr>tcp_loop := el\<rparr>)"
      "ae_mask el = (ae_mask (tcp_loop T))(?fd := ae_mask (tcp_loop T) ?fd AND NOT AE_READABLE)"
    using delete_event_inv [OF inv i] by blast
  have i1: "i < length (tcp_sockets (T\<lparr>tcp_loop := el\<rparr>))" "live (sock (T\<lparr>tcp_loop := el\<rparr>) i)" using i by simp_all
  obtain el2 where el2: "delete_event ?fd AE_WRITABLE (T\<lparr>tcp_loop := el\<rparr>) = Some (T\<lparr>tcp_loop := el2\<rparr>)"
      "tcp_inv (T\<lparr>tcp_loop := el2\<rparr>)" "ae_mask el2 = (ae_mask el)(?fd := ae_mask el ?fd AND NOT AE_WRITABLE)"
    using delete_event_inv [OF el(2) i1, of AE_WRITABLE] by auto
  have "ae_mask el2 ?fd = ae_mask (tcp_loop T) ?fd AND (NOT AE_READABLE AND NOT AE_WRITABLE)"
    by (simp add: el2(3) el(3) and.assoc)
  moreover have "NOT AE_READABLE AND NOT AE_WRITABLE = NOT 3" by (simp add: AE_READABLE_def AE_WRITABLE_def)
  ultimately have "ae_mask el2 ?fd = AE_NONE"
    using tcp_invD(3) [OF inv] by (simp only: ae_valid_def AE_NONE_def)
  then obtain T' where T': "tcpRecoverId (sk_id (sock T i)) (sock_upd i (\<lambda>s. s\<lparr>sk_state := kSocketDisconnected\<rparr>)
      (sys_close ?fd (T\<lparr>tcp_loop := el2\<rparr>))) = Some T'" "tcp_inv T'" "calm (T\<lparr>tcp_loop := el2\<rparr>) T'"
      "length (tcp_sockets T') = length (tcp_sockets T)"
    using stop_inv [OF el2(2), of i] i by auto
  moreover have "calm T (T\<lparr>tcp_loop := el2\<rparr>)" by (simp add: calm_def)
  ultimately show ?thesis
    using el(1) el2(1) i(1) calm_trans by (simp add: handleClose_def sock_sock_upd)
qed

lemma handleError_inv:
  assumes "tcp_inv T" "i < length (tcp_sockets T)" "live (sock T i)"
  shows "\<exists>T'. handleError i T = Some T' \<and> tcp_inv T' \<and> calm T T' \<and> length (tcp_sockets T') = length (tcp_sockets T)"
  using handleClose_inv [OF assms] by (auto simp: handleError_def)

lemma socketForceClose_inv:
  assumes inv: "tcp_inv T" and i: "i < length (tcp_sockets T)" "getIndex T (sk_id (sock T i)) = i"
  shows "\<exists>T'. socketForceClose i T = Some T' \<and> tcp_inv T' \<and> calm T T' \<and> length (tcp_sockets T') = length (tcp_sockets T)"
proof (cases "live (sock T i)")
  case True
  then show ?thesis using handleClose_inv [OF inv i(1) True] by (auto simp: socketForceClose_def live_def)
next
  case False
  then have d: "sk_state (sock T i) = kSocketDisconnected"
    using tcp_invD(4) [OF inv i(1)] by (cases "sk_state (sock T i)") (auto simp: sock_ok_def live_def)
  then obtain T' where "tcpRecoverId (sk_id (sock T i)) T = Some T'"
    using tcpRecoverId_some [of T "sk_id (sock T i)"] i(2) by auto
  then show ?thesis using tcpRecoverId_inv [OF inv] d by (auto simp: socketForceClose_def)
qed

subsection \<open>Reserving an id\<close>

lemma getIndex_mod: "pow2_size (tcp_setsize T) \<Longrightarrow> getIndex T x = unat x mod unat (tcp_setsize T)"
  by (simp add: getIndex_def ring_mask)

lemma getIndex_less: "tcp_inv T \<Longrightarrow> getIndex T x < length (tcp_sockets T)"
  using tcp_invD(1,2) by (simp add: getIndex_mod)

lemma tcpGetSocket_iff: "tcpGetSocket T x = Some i \<longleftrightarrow> i = getIndex T x \<and> sk_id (sock T i) = x"
  by (auto simp: tcpGetSocket_def)

lemma reserve_loop_ok:
  assumes "pow2_size (tcp_setsize T)" "unat (tcp_allocId T) + n < 2 ^ 31"
  shows "case reserve_loop n T of
      None \<Rightarrow> \<forall>k < n. sk_type (sock T ((unat (tcp_allocId T) + k) mod unat (tcp_setsize T))) \<noteq> kSocketNoneType
    | Some (x, T') \<Rightarrow> unat (tcp_allocId T) \<le> unat x \<and> unat x < unat (tcp_allocId T) + n \<and>
        sk_type (sock T (getIndex T x)) = kSocketNoneType \<and>
        T' = sock_upd (getIndex T x) (\<lambda>s. s\<lparr>sk_type := kReserveType, sk_id := x, sk_fd := - 1\<rparr>) (T\<lparr>tcp_allocId := x + 1\<rparr>)"
  using assms
proof (induction n arbitrary: T)
  case (Suc n)
  let ?a = "tcp_allocId T"
  let ?T = "T\<lparr>tcp_allocId := ?a + 1\<rparr>"
  have a: "unat ?a < 2 ^ 31" "unat (?a + 1) = unat ?a + 1" using Suc.prems(2) by (simp_all add: unat_word_ariths)
  then have s: "\<not> sint ?a < 0" using sint_unat32 [OF a(1)] by simp
  have g: "getIndex ?T x = getIndex T x" "sock ?T k = sock T k" for x k by (simp_all add: getIndex_def sock_def)
  show ?case
  proof (cases "sk_type (sock T (getIndex T ?a)) = kSocketNoneType")
    case True
    then show ?thesis using s g by (simp add: Let_def)
  next
    case False
    then have r: "reserve_loop (Suc n) T = reserve_loop n ?T" using s g by simp
    have IH: "case reserve_loop n ?T of
      None \<Rightarrow> \<forall>k < n. sk_type (sock T ((unat ?a + 1 + k) mod unat (tcp_setsize T))) \<noteq> kSocketNoneType
    | Some (x, T') \<Rightarrow> unat ?a + 1 \<le> unat x \<and> unat x < unat ?a + 1 + n \<and>
        sk_type (sock T (getIndex T x)) = kSocketNoneType \<and>
        T' = sock_upd (getIndex T x) (\<lambda>s. s\<lparr>sk_type := kReserveType, sk_id := x, sk_fd := - 1\<rparr>) (T\<lparr>tcp_allocId := x + 1\<rparr>)"
      using Suc.IH [of ?T] Suc.prems a(2) g by (simp cong: option.case_cong prod.case_cong)
    show ?thesis
    proof (cases "reserve_loop n ?T")
      case None
      then have "sk_type (sock T ((unat ?a + k) mod unat (tcp_setsize T))) \<noteq> kSocketNoneType" if "k < Suc n" for k
        using IH that False getIndex_mod [OF Suc.prems(1), of ?a] by (cases k) auto
      then show ?thesis using r None by simp
    next
      case (Some y)
      then show ?thesis using r IH by (auto split: prod.splits)
    qed
  qed
qed simp

lemma mod_covers:
  fixes n :: nat
  assumes "j < n"
  shows "\<exists>k < n. (a + k) mod n = j"
proof (intro exI conjI)
  show "(j + (n - a mod n)) mod n < n" using assms by simp
  have "(a + (j + (n - a mod n)) mod n) mod n = (a mod n + (j + (n - a mod n))) mod n" by (simp add: mod_simps)
  also have "a mod n + (j + (n - a mod n)) = j + n"
    using mod_less_divisor [of n a] assms by linarith
  finally show "(a + (j + (n - a mod n)) mod n) mod n = j" using assms by simp
qed

lemma tcpGetReserveId_ok:
  assumes inv: "tcp_inv T" and left: "ids_left T"
  shows "case tcpGetReserveId T of
      None \<Rightarrow> \<forall>j < length (tcp_sockets T). sk_type (sock T j) \<noteq> kSocketNoneType
    | Some (x, T') \<Rightarrow> unat (tcp_allocId T) \<le> unat x \<and> unat x < unat (tcp_allocId T) + unat (tcp_setsize T) \<and>
        sk_type (sock T (getIndex T x)) = kSocketNoneType \<and>
        T' = sock_upd (getIndex T x) (\<lambda>s. s\<lparr>sk_type := kReserveType, sk_id := x, sk_fd := - 1\<rparr>) (T\<lparr>tcp_allocId := x + 1\<rparr>)"
proof -
  note r = reserve_loop_ok [OF tcp_invD(1) [OF inv], of "unat (tcp_setsize T)"]
  have b: "unat (tcp_allocId T) + unat (tcp_setsize T) < 2 ^ 31" using left by (simp add: ids_left_def)
  show ?thesis
  proof (cases "tcpGetReserveId T")
    case None
    then have "sk_type (sock T j) \<noteq> kSocketNoneType" if "j < length (tcp_sockets T)" for j
      using r [OF b] mod_covers [of j "unat (tcp_setsize T)" "unat (tcp_allocId T)"] that tcp_invD(2) [OF inv]
      by (auto simp: tcpGetReserveId_def)
    then show ?thesis using None by simp
  next
    case (Some y)
    then show ?thesis using r [OF b] by (simp add: tcpGetReserveId_def)
  qed
qed

lemma reserve_inv:
  assumes inv: "tcp_inv T" and left: "ids_left T" and r: "tcpGetReserveId T = Some (x, T')"
  shows "tcp_inv T' \<and> unat (tcp_allocId T) \<le> unat x \<and> unat (tcp_allocId T') = unat x + 1 \<and> unat x + 1 < 2 ^ 31 \<and>
    tcp_setsize T' = tcp_setsize T \<and> length (tcp_sockets T') = length (tcp_sockets T) \<and>
    tcp_open T' = tcp_open T \<and> tcp_loop T' = tcp_loop T \<and>
    tcpGetSocket T' x = Some (getIndex T x) \<and> \<not> live (sock T (getIndex T x)) \<and> \<not> live (sock T' (getIndex T x)) \<and>
    sk_id (sock T' (getIndex T x)) = x \<and> sk_fd (sock T' (getIndex T x)) = - 1 \<and>
    (\<forall>i. i \<noteq> getIndex T x \<longrightarrow> sock T' i = sock T i)"
proof -
  let ?j = "getIndex T x"
  have x: "unat (tcp_allocId T) \<le> unat x" "unat x < unat (tcp_allocId T) + unat (tcp_setsize T)"
      "sk_type (sock T ?j) = kSocketNoneType"
    and T': "T' = sock_upd ?j (\<lambda>s. s\<lparr>sk_type := kReserveType, sk_id := x, sk_fd := - 1\<rparr>) (T\<lparr>tcp_allocId := x + 1\<rparr>)"
    using tcpGetReserveId_ok [OF inv left] r by auto
  have b: "unat x + 1 < 2 ^ 31" using x(2) left by (simp add: ids_left_def)
  then have x1: "unat (x + 1) = unat x + 1" by (simp add: unat_word_ariths)
  have j: "?j < length (tcp_sockets T)" using getIndex_less [OF inv] .
  have d: "sk_state (sock T ?j) = kSocketDisconnected" using tcp_invD(4) [OF inv j] x(3) by (simp add: sock_ok_def)
  have sk: "sock T' i = (if i = ?j then (sock T i)\<lparr>sk_type := kReserveType, sk_id := x, sk_fd := - 1\<rparr> else sock T i)" for i
    using j by (simp add: T' sock_def sock_upd_def nth_list_update)
  have f: "tcp_setsize T' = tcp_setsize T" "tcp_loop T' = tcp_loop T" "tcp_open T' = tcp_open T" "tcp_allocId T' = x + 1"
      "length (tcp_sockets T') = length (tcp_sockets T)"
    by (simp_all add: T')
  have lv: "live (sock T' i) \<longleftrightarrow> i \<noteq> ?j \<and> live (sock T i)" "live (sock T i) \<longleftrightarrow> i \<noteq> ?j \<and> live (sock T i)" for i
    using sk [of i] d by (auto simp: live_def)
  have "sock_ok (tcp_setsize T) (tcp_open T) i (sock T' i)" if "i < length (tcp_sockets T)" for i
    using tcp_invD(4) [OF inv that] sk [of i] d by (auto simp: sock_ok_def live_def)
  moreover have "\<exists>i < length (tcp_sockets T). live (sock T' i) \<and> sk_fd (sock T' i) = fd \<and> ae_data (tcp_loop T) fd = Some i"
    if "ae_mask (tcp_loop T) fd \<noteq> AE_NONE" for fd
    using tcp_invD(6) [OF inv that] lv sk by metis
  moreover have "i = k" if "i < length (tcp_sockets T)" "k < length (tcp_sockets T)" "live (sock T' i)" "live (sock T' k)"
      "sk_fd (sock T' i) = sk_fd (sock T' k)" for i k
    using tcp_invD(5) [OF inv that(1,2)] that(3-5) lv sk by metis
  ultimately have "tcp_inv T'"
    using tcp_invD(1,2,3) [OF inv] f by (simp add: tcp_inv_def ae_valid_def)
  moreover have "tcpGetSocket T' x = Some ?j" using sk [of ?j] f by (simp add: tcpGetSocket_def getIndex_def)
  moreover have "sk_id (sock T' ?j) = x" "sk_fd (sock T' ?j) = - 1" by (simp_all add: sk)
  moreover have "\<not> live (sock T ?j)" "\<not> live (sock T' ?j)" using lv(1,2) [of ?j] by simp_all
  moreover have "\<forall>i. i \<noteq> ?j \<longrightarrow> sock T' i = sock T i" by (simp add: sk)
  ultimately show ?thesis using x f b x1 by simp
qed

subsection \<open>Opening\<close>

lemma ae_valid_open: "ae_valid T \<Longrightarrow> ae_valid (sys_open fd T)"
  by (auto simp: ae_valid_def ae_ok_def sys_open_def)

lemma sys_open_simps [simp]:
  "tcp_setsize (sys_open fd T) = tcp_setsize T" "tcp_allocId (sys_open fd T) = tcp_allocId T"
  "tcp_sockets (sys_open fd T) = tcp_sockets T" "tcp_open (sys_open fd T) = insert fd (tcp_open T)"
  "tcp_loop (sys_open fd T) = tcp_loop T" "sock (sys_open fd T) i = sock T i"
  by (simp_all add: sys_open_def sock_def)

lemma tcpGetSocket_open [simp]: "tcpGetSocket (sys_open fd T) x = tcpGetSocket T x"
  by (simp add: tcpGetSocket_def getIndex_def)

lemma sys_open_inv: "tcp_inv T \<Longrightarrow> tcp_inv (sys_open fd T)"
  using ae_valid_open [of T fd] by (auto simp: tcp_inv_def sock_ok_def)

lemma sys_open_calm [simp]: "calm T (sys_open fd T)"
  by (simp add: calm_def)

lemma open_inv:
  assumes inv: "tcp_inv T" and j: "tcpGetSocket T x = Some j" "\<not> live (sock T j)" and fd: "0 < fd" "fd \<in> tcp_open T"
    and other: "\<And>i. i < length (tcp_sockets T) \<Longrightarrow> live (sock T i) \<Longrightarrow> sk_fd (sock T i) \<noteq> fd"
    and f: "\<And>s. sk_state (f s) = kSocketConnecting \<and> sk_fd (f s) = fd \<and> sk_id (f s) = sk_id s \<and>
      sk_type (f s) \<noteq> kSocketNoneType \<and> sk_type (f s) \<noteq> kReserveType"
  shows "tcp_inv (sock_upd j f T)"
proof -
  let ?T = "sock_upd j f T"
  have jx: "j = getIndex T x" "sk_id (sock T j) = x" using j(1) by (auto simp: tcpGetSocket_iff)
  then have jl: "j < length (tcp_sockets T)" using getIndex_less [OF inv] by simp
  have sk: "sock ?T i = (if i = j then f (sock T i) else sock T i)" for i using jl by (simp add: sock_sock_upd)
  have lv: "live (sock ?T i) \<longleftrightarrow> i = j \<or> live (sock T i)" for i using sk [of i] f by (auto simp: live_def)
  have "sock_ok (tcp_setsize T) (tcp_open T) i (sock ?T i)" if "i < length (tcp_sockets T)" for i
    using tcp_invD(4) [OF inv that] sk [of i] f fd jx by (auto simp: sock_ok_def getIndex_def)
  moreover have "\<exists>i < length (tcp_sockets T). live (sock ?T i) \<and> sk_fd (sock ?T i) = g \<and> ae_data (tcp_loop T) g = Some i"
    if "ae_mask (tcp_loop T) g \<noteq> AE_NONE" for g
    using tcp_invD(6) [OF inv that] lv sk j(2) by metis
  moreover have "i = k" if "i < length (tcp_sockets T)" "k < length (tcp_sockets T)" "live (sock ?T i)" "live (sock ?T k)"
      "sk_fd (sock ?T i) = sk_fd (sock ?T k)" for i k
  proof (cases "i = j \<or> k = j")
    case True
    moreover have "sk_fd (sock ?T j) = fd" using sk [of j] f by simp
    moreover have "sock ?T m = sock T m" if "m \<noteq> j" for m using sk [of m] that by simp
    ultimately show ?thesis using that other [of i] other [of k] lv by metis
  next
    case False
    then show ?thesis using that tcp_invD(5) [OF inv that(1,2)] lv sk by metis
  qed
  ultimately show ?thesis
    using tcp_invD(1-3) [OF inv] by (simp add: tcp_inv_def ae_valid_def)
qed

subsection \<open>The requests in the queue\<close>

fun req_open :: "tcpRequest \<Rightarrow> u32 list" where
  "req_open (ReqListen from i p) = [i]"
| "req_open (ReqConnect from i p) = [i]"
| "req_open (ReqAsyncConnect from i p) = [i]"
| "req_open r = []"

text \<open>The ids to be opened are different, given before, and still closed.\<close>

definition pend_ok :: "tcp \<Rightarrow> tcpRequest list \<Rightarrow> bool" where
  "pend_ok T q \<longleftrightarrow> distinct (concat (map req_open q)) \<and>
     (\<forall>x \<in> set (concat (map req_open q)). unat x < unat (tcp_allocId T) \<and>
        (\<forall>i. tcpGetSocket T x = Some i \<longrightarrow> \<not> live (sock T i) \<and> sk_fd (sock T i) = - 1))"

text \<open>A change that opens, at most, ids of \<open>X\<close> and new ids.\<close>

definition grows :: "u32 set \<Rightarrow> tcp \<Rightarrow> tcp \<Rightarrow> bool" where
  "grows X T T' \<longleftrightarrow> tcp_setsize T' = tcp_setsize T \<and> unat (tcp_allocId T) \<le> unat (tcp_allocId T') \<and>
     (\<forall>i. sk_id (sock T' i) \<in> X \<or> unat (tcp_allocId T) \<le> unat (sk_id (sock T' i)) \<or>
        (live (sock T' i) \<longrightarrow> live (sock T i)) \<and> sk_id (sock T' i) = sk_id (sock T i) \<and> sk_fd (sock T' i) = sk_fd (sock T i))"

lemma calm_grows: "calm T T' \<Longrightarrow> grows X T T'"
  by (simp add: calm_def grows_def)

lemma grows_calm: "grows X T T1 \<Longrightarrow> calm T1 T2 \<Longrightarrow> grows X T T2"
  by (simp add: calm_def grows_def) metis

lemma pend_mono:
  assumes p: "pend_ok T q" and g: "grows X T T'" and X: "X \<inter> set (concat (map req_open q)) = {}"
  shows "pend_ok T' q"
  unfolding pend_ok_def
proof (intro conjI ballI allI impI)
  show "distinct (concat (map req_open q))" using p by (simp add: pend_ok_def)
  fix x assume x: "x \<in> set (concat (map req_open q))"
  then have less: "unat x < unat (tcp_allocId T)" using p by (auto simp: pend_ok_def)
  then show "unat x < unat (tcp_allocId T')" using g by (simp add: grows_def)
  fix i assume "tcpGetSocket T' x = Some i"
  then have i: "i = getIndex T' x" "sk_id (sock T' i) = x" by (auto simp: tcpGetSocket_iff)
  have "x \<notin> X" using x X by blast
  then have same: "live (sock T' i) \<longrightarrow> live (sock T i)" "sk_id (sock T i) = x" "sk_fd (sock T' i) = sk_fd (sock T i)"
    using g i(2) less by (auto simp: grows_def dest: spec [of _ i])
  have "tcpGetSocket T x = Some i" using same(2) i(1) g by (simp add: tcpGetSocket_iff getIndex_def grows_def)
  then have "\<not> live (sock T i) \<and> sk_fd (sock T i) = - 1" using p x by (auto simp: pend_ok_def)
  then show "\<not> live (sock T' i)" "sk_fd (sock T' i) = - 1" using same by auto
qed

subsection \<open>The handlers\<close>

lemma tcp_inv_msg [simp]: "tcp_inv (T\<lparr>tcp_loop := aeStop (tcp_loop T)\<rparr>) = tcp_inv T"
proof -
  have "ae_mask (aeStop el) = ae_mask el" "ae_data (aeStop el) = ae_data el" "quiet (aeStop el) = quiet el"
      "ae_ok v (aeStop el) = ae_ok v el" for el :: "(sock_proc, nat, unit) aeEventLoop" and v
    by (auto simp: aeStop_def ae_mask_def ae_data_def quiet_def ae_slot_def ae_ok_def fun_eq_iff)
  then show ?thesis by (simp add: tcp_inv_def ae_valid_def)
qed

lemma handleTcpSocketListen_inv:
  assumes inv: "tcp_inv T" and fd: "new_fd T (nt_server N)" and j: "\<And>j. tcpGetSocket T x = Some j \<Longrightarrow> \<not> live (sock T j)"
  shows "\<exists>T'. handleTcpSocketListen N from x p T = Some T' \<and> tcp_inv T' \<and> grows {x} T T'"
proof (cases "nt_server N")
  case None
  then show ?thesis using inv by (simp add: handleTcpSocketListen_def calm_grows)
next
  case (Some fd)
  show ?thesis
  proof (cases "tcpGetSocket T x")
    case None
    then show ?thesis using Some sys_open_inv [OF inv] by (simp add: handleTcpSocketListen_def calm_grows)
  next
    case (Some j)
    let ?f = "\<lambda>s. s\<lparr>sk_state := kSocketConnecting, sk_type := kAcceptType, sk_fd := fd, sk_protoType := p\<rparr>"
    have g: "tcpGetSocket (sys_open fd T) x = Some j" using Some by simp
    have "tcp_inv (sock_upd j ?f (sys_open fd T))"
      using assms Some \<open>nt_server N = _\<close> live_index(3) [OF inv]
      by (intro open_inv [OF sys_open_inv [OF inv] g, of fd]) (auto simp: new_fd_def)
    moreover have "grows {x} T (sock_upd j ?f (sys_open fd T))"
      using Some by (auto simp: grows_def sock_sock_upd tcpGetSocket_iff)
    ultimately show ?thesis using \<open>nt_server N = _\<close> Some by (simp add: handleTcpSocketListen_def)
  qed
qed

lemma handleTcpSocketConnect_inv:
  assumes inv: "tcp_inv T" and fd: "new_fd T (nt_connect N)" and j: "\<And>j. tcpGetSocket T x = Some j \<Longrightarrow> \<not> live (sock T j)"
  shows "\<exists>T'. handleTcpSocketConnect N from x p T = Some T' \<and> tcp_inv T' \<and> grows {x} T T'"
proof (cases "tcpGetSocket T x")
  case None
  then show ?thesis using inv by (simp add: handleTcpSocketConnect_def calm_grows)
next
  case (Some j)
  show ?thesis
  proof (cases "nt_connect N")
    case None
    then show ?thesis using inv Some by (simp add: handleTcpSocketConnect_def calm_grows)
  next
    case fdN: (Some fd)
    let ?f = "\<lambda>s. s\<lparr>sk_type := kConnectType, sk_protoType := p, sk_state := kSocketConnecting, sk_fd := fd\<rparr>"
    have g: "tcpGetSocket (sys_open fd T) x = Some j" using Some by simp
    have "tcp_inv (sock_upd j ?f (sys_open fd T))"
      using assms Some fdN live_index(3) [OF inv]
      by (intro open_inv [OF sys_open_inv [OF inv] g, of fd]) (auto simp: new_fd_def)
    moreover have "grows {x} T (sock_upd j ?f (sys_open fd T))"
      using Some by (auto simp: grows_def sock_sock_upd tcpGetSocket_iff)
    ultimately show ?thesis using fdN Some by (simp add: handleTcpSocketConnect_def)
  qed
qed

text \<open>A connection in the background is lost: the event is asked for on the descriptor -1.\<close>

lemma async_connect_lost:
  assumes "tcp_inv T" "tcpGetSocket T x = Some j" "sk_fd (sock T j) = - 1" "nt_nonblock N = Some (fd, True)"
  shows "handleTcpSocketAsyncConnect N from x p T = None"
proof -
  have "\<not> - 1 \<ge> ae_setsize (tcp_loop T)" using tcp_invD(3) [OF assms(1)] by (auto simp: ae_valid_def ae_ok_def)
  then have "socketConnect j (sys_open fd (sock_upd j (\<lambda>s. s\<lparr>sk_from := from\<rparr>) T)) = None"
    using assms(3) by (simp add: socketConnect_def create_event_def aeCreateFileEvent_def sock_sock_upd)
  then show ?thesis using assms by (simp add: handleTcpSocketAsyncConnect_def)
qed

lemma handleTcpSocketAsyncConnect_inv:
  assumes inv: "tcp_inv T" and j: "\<And>j. tcpGetSocket T x = Some j \<Longrightarrow> \<not> live (sock T j) \<and> sk_fd (sock T j) = - 1"
    and h: "handleTcpSocketAsyncConnect N from x p T = Some T'"
  shows "tcp_inv T' \<and> calm T T'"
proof (cases "tcpGetSocket T x")
  case None
  then show ?thesis using inv h by (auto simp: handleTcpSocketAsyncConnect_def)
next
  case (Some j)
  let ?T1 = "sock_upd j (\<lambda>s. s\<lparr>sk_from := from\<rparr>) T"
  have i1: "tcp_inv ?T1" "calm T ?T1" using inv by (simp_all add: mild_upd)
  have rec: "tcp_inv T'' \<and> calm T T''"
    if "map_option (\<lambda>T'. tcpError from (sk_id (sock T' j)) T') (tcpRecoverId x T2) = Some T''" "tcp_inv T2" "calm T T2" for T2 T''
    using that tcpRecoverId_inv [of T2 x] calm_trans by auto
  show ?thesis
  proof (cases "nt_nonblock N")
    case None
    then show ?thesis using h Some rec [of ?T1 T'] i1 by (simp add: handleTcpSocketAsyncConnect_def)
  next
    case (Some y)
    obtain fd b where y: "y = (fd, b)" by (cases y)
    have nb: "\<not> b" using async_connect_lost [OF inv _ _ , of x j N fd "from" p] j \<open>tcpGetSocket T x = _\<close> Some y h by auto
    have "calm T (sys_open fd ?T1)" using i1(2) calm_trans sys_open_calm by blast
    then show ?thesis
      using h \<open>tcpGetSocket T x = _\<close> Some y nb rec [of "sys_open fd ?T1" T'] sys_open_inv [OF i1(1)]
      by (simp add: handleTcpSocketAsyncConnect_def)
  qed
qed

lemma create_fail_mask:
  assumes "tcp_inv T" "\<not> sk_fd (sock T i) < ae_setsize (tcp_loop T)"
  shows "ae_mask (tcp_loop T) (sk_fd (sock T i)) = AE_NONE"
  using tcp_invD(3) [OF assms(1)] assms(2) by (auto simp: ae_valid_def ae_ok_def ae_mask_def ae_slot_def)

text \<open>socketAccept and socketStart, and what follows when they fail.\<close>

lemma start_or_stop:
  assumes inv: "tcp_inv T" and i: "i < length (tcp_sockets T)" "live (sock T i)" and pr: "pr \<noteq> OnConnecting"
  shows "\<exists>ok T1 T'. create_event (sk_fd (sock T i)) AE_READABLE pr i T = Some (ok, T1) \<and>
    (if ok then Some T1 else map_option (tcpError a b) (socketStop i T1)) = Some T' \<and> tcp_inv T' \<and> calm T T'"
proof -
  obtain el where el: "create_event (sk_fd (sock T i)) AE_READABLE pr i T = Some (sk_fd (sock T i) < ae_setsize (tcp_loop T), T\<lparr>tcp_loop := el\<rparr>)"
      "tcp_inv (T\<lparr>tcp_loop := el\<rparr>)" "ae_setsize el = ae_setsize (tcp_loop T)"
    using create_event_inv [OF inv i _ pr, of AE_READABLE] by (auto simp: AE_READABLE_def)
  have c: "calm T (T\<lparr>tcp_loop := el\<rparr>)" by (simp add: calm_def)
  show ?thesis
  proof (cases "sk_fd (sock T i) < ae_setsize (tcp_loop T)")
    case True
    then show ?thesis using el c by auto
  next
    case False
    then obtain T' where "socketStop i (T\<lparr>tcp_loop := el\<rparr>) = Some T'" "tcp_inv T'" "calm (T\<lparr>tcp_loop := el\<rparr>) T'"
      using socketStop_inv [OF el(2), of i] i create_fail_mask [OF el(2), of i] el(3) by auto
    then show ?thesis using el False calm_trans [OF c] by auto
  qed
qed

lemma handleTcpSocketStart_inv:
  assumes inv: "tcp_inv T"
  shows "\<exists>T'. handleTcpSocketStart from x T = Some T' \<and> tcp_inv T' \<and> calm T T'"
proof (cases "tcpGetSocket T x")
  case None
  then show ?thesis using inv by (simp add: handleTcpSocketStart_def)
next
  case (Some j)
  then have j: "j < length (tcp_sockets T)" using getIndex_less [OF inv] by (auto simp: tcpGetSocket_iff)
  show ?thesis
  proof (cases "sk_state (sock T j) = kSocketConnecting")
    case False
    then show ?thesis using Some inv by (simp add: handleTcpSocketStart_def)
  next
    case True
    let ?T1 = "sock_upd j (\<lambda>s. s\<lparr>sk_from := from\<rparr>) T"
    let ?T2 = "sock_upd j (\<lambda>s. s\<lparr>sk_state := kSocketConnected\<rparr>) ?T1"
    have l: "live (sock T j)" using True by (simp add: live_def)
    have i1: "tcp_inv ?T1" "calm T ?T1" using inv by (simp_all add: mild_upd)
    have s1: "sock ?T1 j = (sock T j)\<lparr>sk_from := from\<rparr>" using j by (simp add: sock_sock_upd)
    have fd: "0 < sk_fd (sock T j)" using live_index(2) [OF inv j l] .
    have tj: "sk_type (sock T j) \<noteq> kSocketNoneType" "sk_type (sock T j) \<noteq> kReserveType"
      using tcp_invD(4) [OF inv j] True by (auto simp: sock_ok_def)
    have sk2: "sock ?T2 k = (if k = j then (sock ?T1 k)\<lparr>sk_state := kSocketConnected\<rparr> else sock ?T1 k)" for k
      using j by (simp add: sock_sock_upd)
    have lv2: "live (sock ?T2 k) = live (sock ?T1 k)" "sk_fd (sock ?T2 k) = sk_fd (sock ?T1 k)" "sk_id (sock ?T2 k) = sk_id (sock ?T1 k)" for k
      using sk2 [of k] True s1 by (auto simp: live_def)
    have "sock_ok (tcp_setsize T) (tcp_open T) k (sock ?T2 k)" if "k < length (tcp_sockets T)" for k
      using tcp_invD(4) [OF i1(1), of k] that sk2 [of k] True s1 tj by (auto simp: sock_ok_def live_def)
    then have i2: "tcp_inv ?T2" using lv2 by (intro tcp_inv_live_same [OF i1(1)]) simp_all
    have c2: "calm T ?T2" using i1(2) lv2 by (simp add: calm_def)
    consider "sk_type (sock T j) = kAcceptType" | "sk_type (sock T j) = kSocketType \<or> sk_type (sock T j) = kConnectType"
      using tj by (cases "sk_type (sock T j)") auto
    then show ?thesis
    proof cases
      case 1
      have j1: "j < length (tcp_sockets ?T1)" "live (sock ?T1 j)" using j l s1 by (simp_all add: live_def)
      obtain ok Ta T' where "create_event (sk_fd (sock ?T1 j)) AE_READABLE OnAccept j ?T1 = Some (ok, Ta)"
          "(if ok then Some Ta else map_option (tcpError from x) (socketStop j Ta)) = Some T'" "tcp_inv T'" "calm ?T1 T'"
        using start_or_stop [OF i1(1) j1(1,2), of OnAccept "from" x] by blast
      then show ?thesis using Some True 1 s1 fd calm_trans [OF i1(2)]
        by (simp add: handleTcpSocketStart_def socketAccept_def)
    next
      case 2
      have j2: "j < length (tcp_sockets ?T2)" using j by simp
      have l2: "live (sock ?T2 j)" using lv2 s1 l by (simp add: live_def)
      obtain ok Ta T' where "create_event (sk_fd (sock ?T2 j)) AE_READABLE OnRead j ?T2 = Some (ok, Ta)"
          "(if ok then Some Ta else map_option (tcpError from x) (socketStop j Ta)) = Some T'" "tcp_inv T'" "calm ?T2 T'"
        using start_or_stop [OF i2 j2 l2, of OnRead "from" x] by blast
      then show ?thesis using Some True 2 s1 fd lv2 calm_trans [OF c2]
        by (auto simp: handleTcpSocketStart_def socketStart_def)
    qed
  qed
qed

lemma handleTcpSocketClose_inv:
  assumes inv: "tcp_inv T"
  shows "\<exists>T'. handleTcpSocketClose from x T = Some T' \<and> tcp_inv T' \<and> calm T T'"
proof (cases "tcpGetSocket T x")
  case None
  then show ?thesis using inv by (simp add: handleTcpSocketClose_def)
next
  case (Some j)
  then have "j < length (tcp_sockets T)" "getIndex T (sk_id (sock T j)) = j"
    using getIndex_less [OF inv] by (auto simp: tcpGetSocket_iff)
  then show ?thesis using socketForceClose_inv [OF inv] Some by (auto simp: handleTcpSocketClose_def)
qed

lemma socketWrite_inv:
  assumes inv: "tcp_inv T" and i: "i < length (tcp_sockets T)" and w: "socketWrite fill r buf i T = Some T'"
  shows "tcp_inv T' \<and> calm T T'"
proof (cases "sk_state (sock T i) = kSocketConnected")
  case False
  then show ?thesis using w inv by (simp add: socketWrite_def)
next
  case True
  then have l: "live (sock T i)" by (simp add: live_def)
  define nwrote where "nwrote = (if \<not> hasSendBuffer (sock T i) then case r of IoDone n \<Rightarrow> n | _ \<Rightarrow> 0 else 0)"
  define T1 where "T1 = sys_took (sk_fd (sock T i)) (take nwrote buf) T"
  have T1: "tcp_inv T1" "calm T T1" "sock T1 k = sock T k" "length (tcp_sockets T1) = length (tcp_sockets T)" for k
    using inv by (simp_all add: T1_def)
  show ?thesis
  proof (cases "(\<not> hasSendBuffer (sock T i) \<and> r = IoReset) \<or> drop nwrote buf = []")
    case True
    then have "handleError i T1 = Some T' \<or> T' = T1"
      using w \<open>sk_state (sock T i) = kSocketConnected\<close> unfolding socketWrite_def Let_def nwrote_def [symmetric] T1_def [symmetric]
      by (auto split: if_splits option.splits)
    then show ?thesis using handleError_inv [OF T1(1), of i] T1 i l calm_trans [OF T1(2)] by auto
  next
    case False
    obtain b' where b': "map_option snd (create_event (sk_fd (sock T i)) AE_WRITABLE OnWrite i
        (sock_upd i (\<lambda>s. s\<lparr>sk_sendBuffer := Some b'\<rparr>) T1)) = Some T'"
      using w False \<open>sk_state (sock T i) = kSocketConnected\<close> unfolding socketWrite_def Let_def nwrote_def [symmetric] T1_def [symmetric]
      by (auto split: if_splits option.splits)
    let ?T2 = "sock_upd i (\<lambda>s. s\<lparr>sk_sendBuffer := Some b'\<rparr>) T1"
    have i2: "tcp_inv ?T2" "calm T ?T2" using T1 by (simp_all add: mild_upd)
    have s2: "sock ?T2 i = (sock T i)\<lparr>sk_sendBuffer := Some b'\<rparr>" using i T1 by (simp add: sock_sock_upd)
    have "live (sock ?T2 i)" "i < length (tcp_sockets ?T2)" using l s2 i T1(4) by (simp_all add: live_def)
    then obtain el where "create_event (sk_fd (sock ?T2 i)) AE_WRITABLE OnWrite i ?T2
        = Some (sk_fd (sock ?T2 i) < ae_setsize (tcp_loop ?T2), ?T2\<lparr>tcp_loop := el\<rparr>)" "tcp_inv (?T2\<lparr>tcp_loop := el\<rparr>)"
      using create_event_inv [OF i2(1), of i AE_WRITABLE OnWrite] by (auto simp: AE_WRITABLE_def)
    moreover have "calm T (?T2\<lparr>tcp_loop := el\<rparr>)" for el using i2(2) by (simp add: calm_def)
    ultimately show ?thesis using b' s2 by auto
  qed
qed

lemma send_all_inv:
  "tcp_inv T \<Longrightarrow> send_all fill res from buf ids T = Some T' \<Longrightarrow> tcp_inv T' \<and> calm T T'"
proof (induction ids arbitrary: T res)
  case (Cons x ids)
  obtain T1 where T1: "(case tcpGetSocket T x of None \<Rightarrow> Some (tcpError from x T)
      | Some j \<Rightarrow> socketWrite fill (res 0) buf j T) = Some T1" "send_all fill (\<lambda>k. res (Suc k)) from buf ids T1 = Some T'"
    using Cons.prems(2) by (auto split: option.splits)
  have "tcp_inv T1 \<and> calm T T1"
  proof (cases "tcpGetSocket T x")
    case None
    then show ?thesis using T1(1) Cons.prems(1) by auto
  next
    case (Some j)
    then have "j < length (tcp_sockets T)" using getIndex_less [OF Cons.prems(1)] by (auto simp: tcpGetSocket_iff)
    then show ?thesis using socketWrite_inv [OF Cons.prems(1)] T1(1) Some by simp
  qed
  then show ?case using Cons.IH [OF _ T1(2)] calm_trans by blast
qed auto

subsection \<open>The callbacks\<close>

lemma onAccept_inv:
  assumes inv: "tcp_inv T" and left: "ids_left T" and fd: "new_fd T acc" and a: "onAccept acc ip i T = Some T'"
  shows "tcp_inv T' \<and> grows {} T T'"
proof (cases acc)
  case None
  then show ?thesis using a inv by (auto simp: onAccept_def calm_grows)
next
  case (Some cfd)
  let ?T0 = "T\<lparr>tcp_open := insert cfd (tcp_open T)\<rparr>"
  have T0: "?T0 = sys_open cfd T" by (simp add: sys_open_def)
  obtain n T1 where r: "tcpGetReserveId (sys_open cfd T) = Some (n, T1)"
    using a Some by (auto simp: onAccept_def T0 split: option.splits)
  have "ids_left (sys_open cfd T)" using left by (simp add: ids_left_def)
  note res = reserve_inv [OF sys_open_inv [OF inv] this r]
  let ?j = "getIndex T n"
  have ix: "getIndex (sys_open cfd T) n = ?j" by (simp add: getIndex_def)
  let ?f = "\<lambda>s. s\<lparr>sk_from := 0, sk_fd := cfd, sk_protoType := sk_protoType (sock T1 i),
      sk_type := kSocketType, sk_state := kSocketConnecting,
      sk_readBuffer := map_option bufferRetrieveAll (sk_readBuffer s),
      sk_sendBuffer := map_option bufferRetrieveAll (sk_sendBuffer s)\<rparr>"
  have T1: "tcp_inv T1" "tcpGetSocket T1 n = Some ?j" "\<not> live (sock T1 ?j)" "sk_id (sock T1 ?j) = n"
      "length (tcp_sockets T1) = length (tcp_sockets T)" "cfd \<in> tcp_open T1" "unat (tcp_allocId T) \<le> unat n"
      "tcp_setsize T1 = tcp_setsize T" "unat (tcp_allocId T1) = unat n + 1"
      "\<And>k. k \<noteq> ?j \<Longrightarrow> sock T1 k = sock T k"
    using res by (simp_all add: ix)
  have T': "T' = send_msg (sk_from (sock (sock_upd ?j ?f T1) i)) (sk_id (sock (sock_upd ?j ?f T1) i)) MSG_TYPE_SOCK_ACCEPT ip
      (sk_id (sock (sock_upd ?j ?f T1) ?j)) (sock_upd ?j ?f T1)"
    using a Some r T1(2) by (simp add: onAccept_def T0 Let_def)
  have other: "sk_fd (sock T1 k) \<noteq> cfd" if "k < length (tcp_sockets T1)" "live (sock T1 k)" for k
  proof -
    have "k \<noteq> ?j" using that(2) T1(3) by auto
    then show ?thesis using that T1(5,10) live_index(3) [OF inv, of k] fd Some by (auto simp: new_fd_def)
  qed
  have "tcp_inv (sock_upd ?j ?f T1)"
    using fd Some T1(6) by (intro open_inv [OF T1(1,2,3), of cfd]) (auto simp: other new_fd_def)
  moreover have "grows {} T (sock_upd ?j ?f T1)"
    using T1 getIndex_less [OF inv, of n] by (auto simp: grows_def sock_sock_upd)
  ultimately show ?thesis by (simp add: T' grows_def)
qed

lemma foldl_messages:
  "tcp_sockets (foldl (protoMessageCallback i) T bodies) = tcp_sockets T \<and>
   tcp_inv (foldl (protoMessageCallback i) T bodies) = tcp_inv T \<and>
   calm T0 (foldl (protoMessageCallback i) T bodies) = calm T0 T \<and>
   tcp_setsize (foldl (protoMessageCallback i) T bodies) = tcp_setsize T"
proof (induction bodies arbitrary: T)
  case (Cons b bodies)
  show ?case using Cons.IH [of "protoMessageCallback i T b"] by (simp add: protoMessageCallback_def)
qed simp

lemma onRead_inv:
  assumes inv: "tcp_inv T" and i: "i < length (tcp_sockets T)" "live (sock T i)" and r: "onRead fill r i T = Some T'"
  shows "tcp_inv T' \<and> calm T T'"
proof (cases "r = None \<or> r = Some []")
  case True
  then show ?thesis using r handleError_inv [OF inv i] handleClose_inv [OF inv i] by (auto simp: onRead_def)
next
  case False
  then obtain bs where bs: "r = Some bs" "bs \<noteq> []" by (cases r) auto
  obtain b where m: "sock_messages fill i (sock_upd i (\<lambda>s. s\<lparr>sk_readBuffer := Some b\<rparr>) T) = Some T'"
    using r bs by (auto simp: onRead_def socketRead_def Let_def split: option.splits if_splits)
  let ?T1 = "sock_upd i (\<lambda>s. s\<lparr>sk_readBuffer := Some b\<rparr>) T"
  obtain bodies buf' closed where cb: "onMessageCallback fill (sk_protoType (sock ?T1 i)) b = Some (bodies, buf', closed)"
    using m i(1) by (auto simp: sock_messages_def sock_sock_upd split: option.splits)
  define T2 where "T2 = sock_upd i (\<lambda>s. s\<lparr>sk_readBuffer := Some buf'\<rparr>) ?T1"
  define T3 where "T3 = foldl (protoMessageCallback i) T2 bodies"
  have e: "(if closed then socketForceClose i T3 else Some T3) = Some T'"
    using m i(1) cb by (auto simp: sock_messages_def sock_sock_upd T3_def T2_def Let_def split: if_splits)
  have "tcp_inv T2" "calm T T2" using inv by (simp_all add: T2_def mild_upd)
  then have T3: "tcp_inv T3" "calm T T3" using foldl_messages [of i T2 bodies T] by (simp_all add: T3_def)
  have "tcp_sockets T3 = tcp_sockets T2" "tcp_setsize T3 = tcp_setsize T"
    using foldl_messages [of i T2 bodies T] by (simp_all add: T3_def T2_def)
  then have "sock T3 i = sock T2 i" "length (tcp_sockets T3) = length (tcp_sockets T)" by (simp_all add: sock_def T2_def)
  then have ix: "i < length (tcp_sockets T3)" "getIndex T3 (sk_id (sock T3 i)) = i"
    using live_index(1) [OF inv i] i(1) \<open>tcp_setsize T3 = _\<close> by (simp_all add: T2_def sock_sock_upd getIndex_def)
  then show ?thesis
    using e socketForceClose_inv [OF T3(1) ix] T3 calm_trans [OF T3(2)] by (auto split: if_splits)
qed

lemma onWrite_inv:
  assumes inv: "tcp_inv T" and i: "i < length (tcp_sockets T)" "live (sock T i)" and w: "onWrite send w i T = Some (T', w')"
  shows "tcp_inv T' \<and> calm T T'"
proof -
  obtain b out b1 how w1 where f: "sk_sendBuffer (sock T i) = Some b" "flush send w b = Some (out, b1, how, w1)"
    using w by (auto simp: onWrite_def split: option.splits)
  define T1 where "T1 = sock_upd i (\<lambda>s. s\<lparr>sk_sendBuffer := Some b1\<rparr>) (sys_took (sk_fd (sock T i)) out T)"
  define T2 where "T2 = sock_upd i (\<lambda>s. s\<lparr>sk_sendBuffer := Some (bufferRetrieveAll b1)\<rparr>) T1"
  have T1: "tcp_inv T1" "calm T T1" "i < length (tcp_sockets T1)" "live (sock T1 i)"
    using inv i by (simp_all add: T1_def mild_upd sock_sock_upd live_def)
  have T2: "tcp_inv T2" "calm T T2" "i < length (tcp_sockets T2)" "live (sock T2 i)" "sk_fd (sock T2 i) = sk_fd (sock T i)"
    using T1 i by (simp_all add: T2_def mild_upd sock_sock_upd live_def T1_def)
  have cases: "handleError i T1 = Some T' \<or> T' = T1 \<or> delete_event (sk_fd (sock T2 i)) AE_WRITABLE T2 = Some T'"
    using w f T2(5) by (auto simp: onWrite_def T1_def [symmetric] T2_def [symmetric] Let_def split: flush_end.splits)
  obtain el where del: "delete_event (sk_fd (sock T2 i)) AE_WRITABLE T2 = Some (T2\<lparr>tcp_loop := el\<rparr>)" "tcp_inv (T2\<lparr>tcp_loop := el\<rparr>)"
    using delete_event_inv [OF T2(1,3,4)] by blast
  moreover have "calm T (T2\<lparr>tcp_loop := el\<rparr>)" using T2(2) by (simp add: calm_def)
  ultimately show ?thesis
    using cases handleError_inv [OF T1(1,3,4)] T1 calm_trans [OF T1(2)] by auto
qed

text \<open>The client data of an event is the slot of the live socket with its descriptor.\<close>

lemma event_sock:
  assumes "tcp_inv T" "ae_mask (tcp_loop T) fd \<noteq> AE_NONE" "ae_slot (tcp_loop T) fd = Some fe" "fe_clientData fe = Some i"
  shows "i < length (tcp_sockets T)" "live (sock T i)" "sk_fd (sock T i) = fd"
  using tcp_invD(6) [OF assms(1,2)] assms(3,4) by (auto simp: ae_data_def)

lemma fire_inv:
  assumes inv: "tcp_inv T" and i: "i < length (tcp_sockets T)" "live (sock T i)" and pr: "pr \<noteq> OnConnecting"
    and left: "ids_left T" and fd: "new_fd T (ev_accept E)" and f: "fire fill E pr fd i T = Some T'"
  shows "tcp_inv T' \<and> grows {} T T'"
proof (cases pr)
  case OnAccept
  then show ?thesis using onAccept_inv [OF inv left fd] f by (auto simp: fire_def)
next
  case OnRead
  then show ?thesis using onRead_inv [OF inv i] f calm_grows by (auto simp: fire_def)
next
  case OnWrite
  then show ?thesis using onWrite_inv [OF inv i] f calm_grows by (fastforce simp: fire_def)
qed (use pr in simp)

subsection \<open>The system\<close>

definition server_inv :: "server \<Rightarrow> bool" where
  "server_inv S \<longleftrightarrow> tcp_inv (fst S) \<and> pend_ok (fst S) (snd S)"

lemma tcpPostRequest_inv:
  assumes inv: "tcp_inv T" and p: "pend_ok T q" and r: "req_open r = []" and post: "tcpPostRequest room x r (T, q) = Some (y, S')"
  shows "server_inv S'"
proof (cases room)
  case True
  then show ?thesis using post inv p r by (auto simp: tcpPostRequest_def server_inv_def pend_ok_def)
next
  case False
  then obtain T' where "tcpRecoverId x T = Some T'" "S' = (T', q)" using post by (auto simp: tcpPostRequest_def)
  then show ?thesis
    using tcpRecoverId_inv [OF inv, of x T'] pend_mono [OF p calm_grows, of T' "{}"] by (simp add: server_inv_def)
qed

lemma with_id_inv:
  assumes inv: "tcp_inv T" and p: "pend_ok T q" and left: "ids_left T" and r: "\<And>x. req_open (req x) = [x]"
    and w: "with_id room req (T, q) = Some (y, S')"
  shows "server_inv S'"
proof -
  obtain x T1 where res: "tcpGetReserveId T = Some (x, T1)" and post: "tcpPostRequest room x (req x) (T1, q) = Some (y, S')"
    using w by (auto simp: with_id_def split: option.splits)
  note R = reserve_inv [OF inv left res]
  have g: "grows {} T T1" using R by (auto simp: grows_def) metis+
  have p1: "pend_ok T1 q" using pend_mono [OF p g] by simp
  show ?thesis
  proof (cases room)
    case False
    then obtain T' where "tcpRecoverId x T1 = Some T'" "S' = (T', q)" using post by (auto simp: tcpPostRequest_def)
    then show ?thesis
      using tcpRecoverId_inv [of T1 x T'] R pend_mono [OF p1 calm_grows, of T' "{}"] by (simp add: server_inv_def)
  next
    case True
    have "unat z < unat (tcp_allocId T)" if "z \<in> set (concat (map req_open q))" for z
      using p that by (auto simp: pend_ok_def)
    then have "x \<notin> set (concat (map req_open q))" using R by (meson not_le)
    moreover have "unat x < unat (tcp_allocId T1)" using R by simp
    moreover have "\<not> live (sock T1 i) \<and> sk_fd (sock T1 i) = - 1" if "tcpGetSocket T1 x = Some i" for i using that R by auto
    ultimately have "pend_ok T1 (q @ [req x])" using p1 by (auto simp: pend_ok_def r)
    then show ?thesis using True post R by (auto simp: tcpPostRequest_def server_inv_def)
  qed
qed

lemma handleEvent_inv:
  assumes inv: "tcp_inv T" and p: "pend_ok T (req # q)"
    and fd: "new_fd T (nt_server N)" "new_fd T (nt_connect N)"
    and h: "handleEvent fill N req T = Some T'"
  shows "tcp_inv T' \<and> pend_ok T' q"
proof -
  have pq: "pend_ok T q" and X: "set (req_open req) \<inter> set (concat (map req_open q)) = {}"
    using p by (auto simp: pend_ok_def)
  have o: "\<not> live (sock T j) \<and> sk_fd (sock T j) = - 1" if "x \<in> set (req_open req)" "tcpGetSocket T x = Some j" for x j
    using p that by (auto simp: pend_ok_def)
  have "tcp_inv T' \<and> grows (set (req_open req)) T T'"
  proof (cases req)
    case (ReqListen frm x pt)
    then show ?thesis using handleTcpSocketListen_inv [OF inv fd(1), of x frm pt] o h by (auto simp: handleEvent_def)
  next
    case (ReqConnect frm x pt)
    then show ?thesis using handleTcpSocketConnect_inv [OF inv fd(2), of x frm pt] o h by (auto simp: handleEvent_def)
  next
    case (ReqAsyncConnect frm x pt)
    then have "tcp_inv T' \<and> calm T T'"
      using handleTcpSocketAsyncConnect_inv [OF inv, of x N frm pt T'] o h by (auto simp: handleEvent_def)
    then show ?thesis using calm_grows by blast
  next
    case (ReqStart frm x)
    then show ?thesis using handleTcpSocketStart_inv [OF inv, of frm x] h calm_grows by (auto simp: handleEvent_def)
  next
    case (ReqClose frm x)
    then show ?thesis using handleTcpSocketClose_inv [OF inv, of frm x] h calm_grows by (auto simp: handleEvent_def)
  next
    case (ReqSend frm ids dat)
    then have "tcp_inv T' \<and> calm T T'"
      using send_all_inv [OF inv] inv h by (auto simp: handleEvent_def handleTcpSocketSend_def split: option.splits)
    then show ?thesis using calm_grows by blast
  next
    case ReqStop
    then have "T' = T\<lparr>tcp_loop := aeStop (tcp_loop T)\<rparr>" using h by (simp add: handleEvent_def)
    then show ?thesis using inv by (simp add: grows_def)
  qed
  then show ?thesis using pend_mono [OF pq _ X] by blast
qed

lemma tcp_step_inv:
  assumes "tcp_step fill S S'" "server_inv S"
  shows "server_inv S'"
  using assms
proof (induction rule: tcp_step.induct)
  case (listen S room ctx p i S')
  then show ?case using with_id_inv [of "fst S" "snd S" "\<lambda>i. ReqListen ctx i p" room i S']
    by (simp add: tcpSocketListen_def server_inv_def)
next
  case (connect S room ctx p i S')
  then show ?case using with_id_inv [of "fst S" "snd S" "\<lambda>i. ReqConnect ctx i p" room i S']
    by (simp add: tcpSocketConnect_def server_inv_def)
next
  case (async S room ctx p i S')
  then show ?case using with_id_inv [of "fst S" "snd S" "\<lambda>i. ReqAsyncConnect ctx i p" room i S']
    by (simp add: tcpSocketAsyncConnect_def server_inv_def)
next
  case (start room ctx j S i S')
  then show ?case using tcpPostRequest_inv [of "fst S" "snd S" "ReqStart ctx j" room j i S']
    by (simp add: tcpSocketStart_def server_inv_def)
next
  case (close room ctx j S i S')
  then show ?case using tcpPostRequest_inv [of "fst S" "snd S" "ReqClose ctx j" room j i S']
    by (simp add: tcpSocketClose_def server_inv_def)
next
  case (send room ctx ids dat S i S')
  then show ?case
    using tcpPostRequest_inv [of "fst S" "snd S" "ReqSend ctx (case ids of None \<Rightarrow> [] | Some l \<Rightarrow> l) dat" room "- 1" i S']
    by (simp add: tcpSocketSend_def server_inv_def)
next
  case (stop room S i S')
  then show ?case using tcpPostRequest_inv [of "fst S" "snd S" ReqStop room "- 1" i S']
    by (simp add: tcpStop_def server_inv_def)
next
  case (handle T N req T' q)
  then show ?case using handleEvent_inv [of T req q N fill T'] by (simp add: server_inv_def)
next
  case (readable T fd fe pr i E T' q)
  have inv: "tcp_inv T" using readable.prems by (simp add: server_inv_def)
  have "ae_mask (tcp_loop T) fd \<noteq> AE_NONE" using readable.hyps(1) by (auto simp: AE_NONE_def)
  note own = event_sock [OF inv this readable.hyps(2,4)]
  have "pr \<noteq> OnConnecting"
    using tcp_invD(3) [OF inv] readable.hyps(2,3) by (auto simp: ae_valid_def quiet_def)
  then have "tcp_inv T' \<and> grows {} T T'" using fire_inv [OF inv own(1,2)] readable.hyps(5-7) by blast
  then show ?case using readable.prems pend_mono [of T q "{}" T'] by (simp add: server_inv_def)
next
  case (writable T fd fe pr i E T' q)
  have inv: "tcp_inv T" using writable.prems by (simp add: server_inv_def)
  have "ae_mask (tcp_loop T) fd \<noteq> AE_NONE" using writable.hyps(1) by (auto simp: AE_NONE_def)
  note own = event_sock [OF inv this writable.hyps(2,4)]
  have "pr \<noteq> OnConnecting"
    using tcp_invD(3) [OF inv] writable.hyps(2,3) by (auto simp: ae_valid_def quiet_def)
  then have "tcp_inv T' \<and> grows {} T T'" using fire_inv [OF inv own(1,2)] writable.hyps(5-7) by blast
  then show ?case using writable.prems pend_mono [of T q "{}" T'] by (simp add: server_inv_def)
qed

lemma tcpInit_inv:
  assumes "pow2_size (nextpow2 n)"
  shows "server_inv (tcpInit (aeCreateEventLoop m now) n, [])"
proof -
  let ?T = "tcpInit (aeCreateEventLoop m now) n"
  have s: "sock ?T i = socketInit" if "i < length (tcp_sockets ?T)" for i
    using that by (simp add: tcpInit_def sock_def Let_def)
  have "quiet (aeCreateEventLoop m now :: (sock_proc, nat, unit) aeEventLoop)"
    by (auto simp: quiet_def aeCreateEventLoop_def ae_slot_def fe_none_def split: if_splits)
  then have "ae_valid ?T"
    by (simp add: ae_valid_def tcpInit_def Let_def aeCreateEventLoop_ok aeCreateEventLoop_mask AE_NONE_def)
  then show ?thesis
    using assms s by (simp add: server_inv_def pend_ok_def tcp_inv_def sock_ok_def live_def socketInit_def)
      (simp add: tcpInit_def Let_def aeCreateEventLoop_mask)
qed

lemma tcp_reach_inv:
  "tcp_reach fill S S' \<Longrightarrow> server_inv S \<Longrightarrow> server_inv S'"
  by (induction rule: tcp_reach.induct) (auto dest: tcp_step_inv)

lemma server_start:
  assumes "0 < unat n" "unat n < 2 ^ 31" "tcp_reach fill (tcpInit (aeCreateEventLoop m now) n, []) (T, q)"
  shows "tcp_inv T" "pend_ok T q"
proof -
  have "pow2_size (nextpow2 n)" using nextpow2_pow [of n] assms(1,2) by (auto simp: pow2_size_def)
  then show "tcp_inv T" "pend_ok T q" using tcp_reach_inv [OF assms(3)] tcpInit_inv by (auto simp: server_inv_def)
qed

text \<open>An example: a table of two sockets, one listens, the other is connected.\<close>

definition ex_net :: "int option \<Rightarrow> int option \<Rightarrow> net" where
  "ex_net l c = \<lparr>nt_server = l, nt_connect = c, nt_nonblock = None, nt_write = (\<lambda>_. IoAgain)\<rparr>"

definition ex_handle :: "net \<Rightarrow> server \<Rightarrow> server" where
  "ex_handle N S = (the (handleEvent 0 N (hd (snd S)) (fst S)), tl (snd S))"

definition ex_S0 :: server where "ex_S0 = (tcpInit (aeCreateEventLoop 8 0) 2, [])"
definition ex_S1 :: server where "ex_S1 = snd (the (tcpSocketListen True 5 1 ex_S0))"
definition ex_S2 :: server where "ex_S2 = ex_handle (ex_net (Some 3) None) ex_S1"
definition ex_S3 :: server where "ex_S3 = snd (the (tcpSocketConnect True 5 1 ex_S2))"
definition ex_S4 :: server where "ex_S4 = ex_handle (ex_net None (Some 4)) ex_S3"
definition ex_S5 :: server where "ex_S5 = snd (the (tcpSocketStart True 5 2 ex_S4))"
definition ex_S6 :: server where "ex_S6 = ex_handle (ex_net None None) ex_S5"
definition ex_SA :: server where "ex_SA = snd (the (tcpSocketAsyncConnect True 5 1 ex_S0))"

lemma ex_call:
  assumes "case r of None \<Rightarrow> False | Some z \<Rightarrow> True"
  obtains i where "r = Some (i, snd (the r))"
  using assms by (cases r) auto

lemma ex_handle_step:
  assumes "case S of (T, q) \<Rightarrow> q \<noteq> [] \<and> new_fd T l \<and> new_fd T c \<and>
    (case handleEvent 0 (ex_net l c) (hd q) T of None \<Rightarrow> False | Some z \<Rightarrow> True)"
  shows "tcp_step 0 S (ex_handle (ex_net l c) S)"
proof -
  obtain T req q where "S = (T, req # q)" using assms by (cases S; cases "snd S") auto
  then show ?thesis
    using assms tcp_step.handle [of T "ex_net l c" 0 req _ q]
    by (auto simp: ex_handle_def ex_net_def new_fd_def split: option.splits)
qed

subsection \<open>The bytes of a connection\<close>

definition pending :: "socket \<Rightarrow> byte list" where
  "pending s = (case sk_sendBuffer s of None \<Rightarrow> [] | Some b \<Rightarrow> buf_bytes b)"

text \<open>An open connection: its buffer is sound, and bytes that wait have an event.\<close>

definition conn_ok :: "tcp \<Rightarrow> nat \<Rightarrow> bool" where
  "conn_ok T i \<longleftrightarrow> tcp_inv T \<and> i < length (tcp_sockets T) \<and> sk_state (sock T i) = kSocketConnected \<and>
     sk_fd (sock T i) < ae_setsize (tcp_loop T) \<and> (\<forall>b. sk_sendBuffer (sock T i) = Some b \<longrightarrow> buf_ok b) \<and>
     (pending (sock T i) \<noteq> [] \<longrightarrow> ae_mask (tcp_loop T) (sk_fd (sock T i)) AND AE_WRITABLE \<noteq> 0)"

text \<open>What happens to a connection: a request to send with the result of its write, the descriptor becomes writable.\<close>

datatype conn_op = ConnSend "byte list" io_res | ConnWritable "io_res list"

fun conn_do :: "byte \<Rightarrow> nat \<Rightarrow> conn_op \<Rightarrow> tcp \<Rightarrow> tcp option" where
  "conn_do fill i (ConnSend dat r) T = socketWrite fill r dat i T"
| "conn_do fill i (ConnWritable rs) T =
     (if ae_mask (tcp_loop T) (sk_fd (sock T i)) AND AE_WRITABLE \<noteq> 0
      then map_option fst (onWrite next_send rs i T) else Some T)"

text \<open>Until the connection is closed.\<close>

fun conn_run :: "byte \<Rightarrow> nat \<Rightarrow> conn_op list \<Rightarrow> tcp \<Rightarrow> tcp option" where
  "conn_run fill i [] T = Some T"
| "conn_run fill i (x # xs) T =
     (case conn_do fill i x T of
        None \<Rightarrow> None
      | Some T1 \<Rightarrow> if sk_state (sock T1 i) = kSocketConnected then conn_run fill i xs T1 else Some T1)"

fun conn_data :: "conn_op list \<Rightarrow> byte list" where
  "conn_data [] = []"
| "conn_data (ConnSend dat r # xs) = dat @ conn_data xs"
| "conn_data (ConnWritable rs # xs) = conn_data xs"

text \<open>The sizes that size_t and int allow here.\<close>

fun conn_sizes :: "conn_op \<Rightarrow> bool" where
  "conn_sizes (ConnSend dat r) = (length dat < 2 ^ 32)"
| "conn_sizes (ConnWritable rs) = (\<forall>n. IoDone n \<in> set rs \<longrightarrow> n < 2 ^ 31)"

lemma flush_ok:
  assumes "buf_ok b" "\<forall>n. IoDone n \<in> set rs \<longrightarrow> n < 2 ^ 31"
    and "flush next_send rs b = Some (out, b1, how, rs1)"
  shows "buf_ok b1 \<and> out @ buf_bytes b1 = buf_bytes b \<and> (how = FlushAll \<longrightarrow> buf_bytes b1 = [])"
  using assms
proof (induction rs arbitrary: b out)
  case Nil
  then show ?case by (subst (asm) flush.simps) (auto split: option.splits)
next
  case (Cons r rs)
  have bytes: "mem_read (bf_data b) (unat (bf_readIndex b)) (unat (bufferReadableBytes b)) = Some (buf_bytes b)"
    using mem_read_bytes [OF Cons.prems(1), of 0 "length (buf_bytes b)"] buf_counts(2) [OF Cons.prems(1)] by simp
  show ?case
  proof (cases r)
    case (IoDone n)
    let ?n = "of_nat n :: u32"
    have n: "unat ?n = n" using Cons.prems(2) IoDone by (auto simp: unat_of_nat)
    show ?thesis
    proof (cases "?n = 0")
      case True
      then show ?thesis using Cons.prems(1,3) IoDone bytes by (subst (asm) flush.simps) auto
    next
      case False
      define b2 where "b2 = bufferMoveReadIndex b ?n"
      have b2: "buf_ok b2 \<and> take n (buf_bytes b) @ buf_bytes b2 = buf_bytes b"
      proof (cases "n \<le> length (buf_bytes b)")
        case True
        then show ?thesis using bufferMoveReadIndex_ok [OF Cons.prems(1), of ?n] n by (simp add: b2_def)
      next
        case False
        then have "b2 = bufferRetrieveAll b"
          using buf_counts(2) [OF Cons.prems(1)] n by (simp add: b2_def bufferMoveReadIndex_def word_less_nat_alt)
        then show ?thesis using bufferRetrieveAll_ok Cons.prems(1) False by simp
      qed
      have e: "bufferReadableBytes b2 = 0 \<longleftrightarrow> buf_bytes b2 = []"
        using buf_counts(2) [of b2] b2 by (metis length_0_conv unat_eq_0)
      have f: "flush next_send (r # rs) b = (if bufferReadableBytes b2 = 0 then Some (take n (buf_bytes b), b2, FlushAll, rs)
          else map_option (\<lambda>(out, z). (take n (buf_bytes b) @ out, z)) (flush next_send rs b2))"
        using IoDone bytes False by (subst flush.simps) (simp add: b2_def Let_def)
      show ?thesis
      proof (cases "bufferReadableBytes b2 = 0")
        case True
        then show ?thesis using Cons.prems(3) f b2 e by auto
      next
        case nz: False
        then obtain out2 where o: "flush next_send rs b2 = Some (out2, b1, how, rs1)" "out = take n (buf_bytes b) @ out2"
          using Cons.prems(3) f by (auto simp: map_option_case split: option.splits)
        then show ?thesis using Cons.IH [of b2 out2] b2 Cons.prems(2) by auto
      qed
    qed
  qed (use Cons.prems(1,3) bytes in \<open>(subst (asm) flush.simps, auto)+\<close>)
qed

lemma conn_ok_live: "conn_ok T i \<Longrightarrow> live (sock T i)"
  by (simp add: conn_ok_def live_def)

lemma handleClose_closes:
  assumes "i < length (tcp_sockets T)" "handleClose i T = Some T'"
  shows "sk_state (sock T' i) = kSocketDisconnected"
  using assms
  by (auto simp: handleClose_def delete_event_def tcpRecoverId_def sock_sock_upd Let_def split: option.splits if_splits)

lemma pending_iff:
  assumes "\<forall>b. sk_sendBuffer s = Some b \<longrightarrow> buf_ok b"
  shows "hasSendBuffer s \<longleftrightarrow> pending s \<noteq> []"
proof (cases "sk_sendBuffer s")
  case (Some b)
  then have "unat (bufferReadableBytes b) = length (buf_bytes b)" using assms buf_counts(2) by blast
  then have "bufferReadableBytes b = 0 \<longleftrightarrow> buf_bytes b = []" by (metis length_0_conv unat_eq_0)
  then show ?thesis using Some by (simp add: hasSendBuffer_def pending_def)
qed (simp add: hasSendBuffer_def pending_def)

lemma conn_send_ok:
  assumes c: "conn_ok T i" and len: "length dat < 2 ^ 32"
    and w: "socketWrite fill r dat i T = Some T'" and s: "sk_state (sock T' i) = kSocketConnected"
  shows "conn_ok T' i \<and> sk_fd (sock T' i) = sk_fd (sock T i) \<and>
    tcp_wire T' (sk_fd (sock T i)) @ pending (sock T' i) = tcp_wire T (sk_fd (sock T i)) @ pending (sock T i) @ dat"
proof -
  have inv: "tcp_inv T" and i: "i < length (tcp_sockets T)" and st: "sk_state (sock T i) = kSocketConnected"
    and fds: "sk_fd (sock T i) < ae_setsize (tcp_loop T)" and bok: "\<forall>b. sk_sendBuffer (sock T i) = Some b \<longrightarrow> buf_ok b"
    using c by (auto simp: conn_ok_def)
  note hs = pending_iff [OF bok]
  define nwrote where "nwrote = (if \<not> hasSendBuffer (sock T i) then case r of IoDone n \<Rightarrow> n | _ \<Rightarrow> 0 else 0)"
  define T1 where "T1 = sys_took (sk_fd (sock T i)) (take nwrote dat) T"
  have T1: "tcp_inv T1" "sock T1 k = sock T k" "length (tcp_sockets T1) = length (tcp_sockets T)" "tcp_loop T1 = tcp_loop T"
      "tcp_wire T1 (sk_fd (sock T i)) = tcp_wire T (sk_fd (sock T i)) @ take nwrote dat" for k
    using inv by (simp_all add: T1_def) (simp add: sys_took_def)
  have nw: "nwrote = 0" if "pending (sock T i) \<noteq> []" using that hs by (simp add: nwrote_def)
  have w': "(if \<not> hasSendBuffer (sock T i) \<and> r = IoReset then handleError i T1
      else if drop nwrote dat = [] then Some T1
      else case bufferAppend fill (case sk_sendBuffer (sock T i) of None \<Rightarrow> bufferCreate fill SEND_BUFFER_INITIAL | Some b \<Rightarrow> b)
          (drop nwrote dat) of
        None \<Rightarrow> None
      | Some b' \<Rightarrow> map_option snd (create_event (sk_fd (sock T i)) AE_WRITABLE OnWrite i
          (sock_upd i (\<lambda>s. s\<lparr>sk_sendBuffer := Some b'\<rparr>) T1))) = Some T'"
    using w st unfolding socketWrite_def Let_def nwrote_def [symmetric] T1_def [symmetric] by simp
  consider "\<not> hasSendBuffer (sock T i) \<and> r = IoReset" | "T' = T1" "drop nwrote dat = []"
    | b' where "bufferAppend fill (case sk_sendBuffer (sock T i) of None \<Rightarrow> bufferCreate fill SEND_BUFFER_INITIAL | Some b \<Rightarrow> b)
          (drop nwrote dat) = Some b'"
        "map_option snd (create_event (sk_fd (sock T i)) AE_WRITABLE OnWrite i
          (sock_upd i (\<lambda>s. s\<lparr>sk_sendBuffer := Some b'\<rparr>) T1)) = Some T'"
    using w' by (auto split: if_splits option.splits)
  then show ?thesis
  proof cases
    case 1
    then obtain T2 where "handleClose i T1 = Some T2" "T' = tcpError (sk_from (sock T2 i)) (sk_id (sock T2 i)) T2"
      using w' by (auto simp: handleError_def)
    then show ?thesis using handleClose_closes [of i T1 T2] i T1(3) s by simp
  next
    case 2
    then have "take nwrote dat = dat" by simp
    moreover have "dat = []" if "pending (sock T i) \<noteq> []" using 2(2) nw [OF that] by simp
    ultimately show ?thesis using 2(1) T1 c by (cases "pending (sock T i) = []") (auto simp: conn_ok_def)
  next
    case (3 b')
    let ?b0 = "case sk_sendBuffer (sock T i) of None \<Rightarrow> bufferCreate fill SEND_BUFFER_INITIAL | Some b \<Rightarrow> b"
    have "buf_ok ?b0 \<and> buf_bytes ?b0 = pending (sock T i)"
      using bok bufferCreate_ok [of SEND_BUFFER_INITIAL fill]
      by (cases "sk_sendBuffer (sock T i)") (auto simp: pending_def SEND_BUFFER_INITIAL_def)
    then have b': "buf_ok b'" "buf_bytes b' = pending (sock T i) @ drop nwrote dat"
      using bufferAppend_some [of ?b0 "drop nwrote dat" fill b'] 3(1) len by auto
    let ?T2 = "sock_upd i (\<lambda>s. s\<lparr>sk_sendBuffer := Some b'\<rparr>) T1"
    have i2: "tcp_inv ?T2" using T1 by (simp add: mild_upd)
    have s2: "sock ?T2 i = (sock T i)\<lparr>sk_sendBuffer := Some b'\<rparr>" using i T1 by (simp add: sock_sock_upd)
    have "live (sock ?T2 i)" "i < length (tcp_sockets ?T2)" using s2 st i T1(3) by (simp_all add: live_def)
    then obtain el where el: "create_event (sk_fd (sock ?T2 i)) AE_WRITABLE OnWrite i ?T2
        = Some (sk_fd (sock ?T2 i) < ae_setsize (tcp_loop ?T2), ?T2\<lparr>tcp_loop := el\<rparr>)" "tcp_inv (?T2\<lparr>tcp_loop := el\<rparr>)"
        "ae_setsize el = ae_setsize (tcp_loop ?T2)"
        "ae_mask el = (ae_mask (tcp_loop ?T2))(sk_fd (sock ?T2 i) := ae_mask (tcp_loop ?T2) (sk_fd (sock ?T2 i)) OR AE_WRITABLE)"
      using create_event_inv [OF i2, of i AE_WRITABLE OnWrite] fds s2 T1(4) by (auto simp: AE_WRITABLE_def)
    have T': "T' = ?T2\<lparr>tcp_loop := el\<rparr>" using 3(2) el(1) s2 by simp
    have "(x OR AE_WRITABLE) AND AE_WRITABLE \<noteq> 0" for x
      by (simp add: bit.conj_disj_distrib2 AE_WRITABLE_def or_eq_0_iff)
    then have "conn_ok T' i"
      using T' el(2,3,4) s2 i T1(3,4) fds b' st by (auto simp: conn_ok_def)
    moreover have "tcp_wire T' (sk_fd (sock T i)) @ pending (sock T' i) = tcp_wire T (sk_fd (sock T i)) @ pending (sock T i) @ dat"
      using T' T1(5) s2 b' nw by (cases "pending (sock T i) = []") (auto simp: pending_def)
    ultimately show ?thesis using T' s2 by simp
  qed
qed

lemma conn_writable_ok:
  assumes c: "conn_ok T i" and sizes: "\<forall>n. IoDone n \<in> set rs \<longrightarrow> n < 2 ^ 31"
    and w: "onWrite next_send rs i T = Some (T', rs')" and s: "sk_state (sock T' i) = kSocketConnected"
  shows "conn_ok T' i \<and> sk_fd (sock T' i) = sk_fd (sock T i) \<and>
    tcp_wire T' (sk_fd (sock T i)) @ pending (sock T' i) = tcp_wire T (sk_fd (sock T i)) @ pending (sock T i)"
proof -
  have inv: "tcp_inv T" and i: "i < length (tcp_sockets T)" and st: "sk_state (sock T i) = kSocketConnected"
    and fds: "sk_fd (sock T i) < ae_setsize (tcp_loop T)" and bok: "\<forall>b. sk_sendBuffer (sock T i) = Some b \<longrightarrow> buf_ok b"
    using c by (auto simp: conn_ok_def)
  obtain b out b1 how rs1 where b: "sk_sendBuffer (sock T i) = Some b" and f: "flush next_send rs b = Some (out, b1, how, rs1)"
    using w by (auto simp: onWrite_def split: option.splits)
  have b1: "buf_ok b1" "out @ buf_bytes b1 = buf_bytes b" "how = FlushAll \<Longrightarrow> buf_bytes b1 = []"
    using flush_ok [OF _ sizes f] bok b by auto
  define T1 where "T1 = sock_upd i (\<lambda>s. s\<lparr>sk_sendBuffer := Some b1\<rparr>) (sys_took (sk_fd (sock T i)) out T)"
  define T2 where "T2 = sock_upd i (\<lambda>s. s\<lparr>sk_sendBuffer := Some (bufferRetrieveAll b1)\<rparr>) T1"
  have T1: "tcp_inv T1" "sock T1 i = (sock T i)\<lparr>sk_sendBuffer := Some b1\<rparr>" "length (tcp_sockets T1) = length (tcp_sockets T)"
      "tcp_loop T1 = tcp_loop T" "tcp_wire T1 (sk_fd (sock T i)) = tcp_wire T (sk_fd (sock T i)) @ out"
    using inv i by (simp_all add: T1_def mild_upd sock_sock_upd) (simp add: sys_took_def)
  have T2: "tcp_inv T2" "sock T2 i = (sock T i)\<lparr>sk_sendBuffer := Some (bufferRetrieveAll b1)\<rparr>"
      "length (tcp_sockets T2) = length (tcp_sockets T)" "tcp_loop T2 = tcp_loop T" "tcp_wire T2 = tcp_wire T1"
    using T1 i by (simp_all add: T2_def mild_upd sock_sock_upd)
  have w': "(case how of
      FlushError \<Rightarrow> map_option (\<lambda>T2. (T2, rs1)) (handleError i T1)
    | FlushBlocked \<Rightarrow> Some (T1, rs1)
    | FlushAll \<Rightarrow> map_option (\<lambda>T2. (T2, rs1)) (delete_event (sk_fd (sock T i)) AE_WRITABLE T2)) = Some (T', rs')"
    using w b f by (cases how) (simp_all add: onWrite_def Let_def T1_def T2_def)
  show ?thesis
  proof (cases how)
    case FlushAll
    have l2: "i < length (tcp_sockets T2)" "live (sock T2 i)" using i T2(2,3) st by (simp_all add: live_def)
    obtain el where el: "delete_event (sk_fd (sock T2 i)) AE_WRITABLE T2 = Some (T2\<lparr>tcp_loop := el\<rparr>)" "tcp_inv (T2\<lparr>tcp_loop := el\<rparr>)"
        "ae_setsize el = ae_setsize (tcp_loop T2)"
      using delete_event_inv [OF T2(1) l2] by blast
    have T': "T' = T2\<lparr>tcp_loop := el\<rparr>" using w' FlushAll el(1) T2(2) by simp
    have "conn_ok T' i"
      using T' el T2 i fds st bufferRetrieveAll_ok b1(1) by (auto simp: conn_ok_def pending_def)
    moreover have "out = buf_bytes b" using b1(2) b1(3) [OF FlushAll] by simp
    ultimately show ?thesis using T' T2 T1 b bufferRetrieveAll_ok(2) by (simp add: pending_def)
  next
    case FlushBlocked
    then have T': "T' = T1" using w' by simp
    have p: "pending (sock T i) \<noteq> []" if "pending (sock T1 i) \<noteq> []" using that b b1(2) T1(2) by (auto simp: pending_def)
    then have "conn_ok T' i" using T' T1 c i fds st b1(1) by (auto simp: conn_ok_def)
    then show ?thesis using T' T1 b b1(2) by (simp add: pending_def)
  next
    case FlushError
    then obtain T3 where "handleClose i T1 = Some T3" "T' = tcpError (sk_from (sock T3 i)) (sk_id (sock T3 i)) T3"
      using w' by (auto simp: handleError_def)
    then show ?thesis using handleClose_closes [of i T1 T3] i T1(3) s by simp
  qed
qed

lemma conn_run_ok:
  "conn_run fill i xs T = Some T' \<Longrightarrow> conn_ok T i \<Longrightarrow> list_all conn_sizes xs \<Longrightarrow> sk_state (sock T' i) = kSocketConnected \<Longrightarrow>
     conn_ok T' i \<and> sk_fd (sock T' i) = sk_fd (sock T i) \<and>
     tcp_wire T' (sk_fd (sock T i)) @ pending (sock T' i) = tcp_wire T (sk_fd (sock T i)) @ pending (sock T i) @ conn_data xs"
proof (induction xs arbitrary: T)
  case (Cons x xs)
  obtain T1 where T1: "conn_do fill i x T = Some T1" using Cons.prems(1) by (auto split: option.splits)
  have s1: "sk_state (sock T1 i) = kSocketConnected" using Cons.prems(1,4) T1 by (auto split: if_splits)
  then have r: "conn_run fill i xs T1 = Some T'" using Cons.prems(1) T1 by simp
  have one: "conn_ok T1 i \<and> sk_fd (sock T1 i) = sk_fd (sock T i) \<and>
     tcp_wire T1 (sk_fd (sock T i)) @ pending (sock T1 i) = tcp_wire T (sk_fd (sock T i)) @ pending (sock T i) @ conn_data [x]"
  proof (cases x)
    case (ConnSend dat res)
    then show ?thesis using conn_send_ok [OF Cons.prems(2), of dat fill res T1] T1 s1 Cons.prems(3) by simp
  next
    case (ConnWritable rs)
    show ?thesis
    proof (cases "ae_mask (tcp_loop T) (sk_fd (sock T i)) AND AE_WRITABLE \<noteq> 0")
      case True
      then obtain rs' where "onWrite next_send rs i T = Some (T1, rs')" using T1 ConnWritable by auto
      then show ?thesis using conn_writable_ok [OF Cons.prems(2), of rs T1 rs'] s1 Cons.prems(3) ConnWritable by simp
    next
      case False
      then show ?thesis using T1 ConnWritable Cons.prems(2) by simp
    qed
  qed
  have "conn_data (x # xs) = conn_data [x] @ conn_data xs" by (cases x) simp_all
  then show ?case using Cons.IH [OF r] one Cons.prems(3,4) by simp
qed simp

subsection \<open>Properties\<close>

text \<open>C6: the network thread never runs a callback on a closed or recycled socket: in every reachable
  state, an event registered for a descriptor has as its client data the slot of the one live socket
  that has this descriptor, the descriptor is open, and the socket's id leads to the slot.\<close>

theorem tcp_events_live:
  assumes "0 < unat n" "unat n < 2 ^ 31" "tcp_reach fill (tcpInit (aeCreateEventLoop m now) n, []) (T, q)"
    and "ae_mask (tcp_loop T) fd \<noteq> AE_NONE"
  shows "\<exists>i. ae_data (tcp_loop T) fd = Some i \<and> fd \<in> tcp_open T \<and> tcpGetSocket T (sk_id (sock T i)) = Some i \<and>
    {j. j < length (tcp_sockets T) \<and> live (sock T j) \<and> sk_fd (sock T j) = fd} = {i}"
proof -
  have inv: "tcp_inv T" using server_start [OF assms(1-3)] by simp
  obtain i where i: "i < length (tcp_sockets T)" "live (sock T i)" "sk_fd (sock T i) = fd" "ae_data (tcp_loop T) fd = Some i"
    using tcp_invD(6) [OF inv assms(4)] by blast
  have "j = i" if "j < length (tcp_sockets T) \<and> live (sock T j) \<and> sk_fd (sock T j) = fd" for j
    by (rule tcp_invD(5) [OF inv]) (use that i in simp_all)
  then have "{j. j < length (tcp_sockets T) \<and> live (sock T j) \<and> sk_fd (sock T j) = fd} = {i}"
    using i(1-3) by blast
  moreover have "tcpGetSocket T (sk_id (sock T i)) = Some i" "fd \<in> tcp_open T"
    using live_index [OF inv i(1,2)] i(3) by (simp_all add: tcpGetSocket_def)
  ultimately show ?thesis using i(4) by blast
qed

lemma ex_reach:
  "tcp_reach 0 ex_S0 ex_S1" "tcp_reach 0 ex_S0 ex_S6" "tcp_reach 0 ex_S0 ex_S5" "tcp_reach 0 ex_S0 ex_SA"
proof -
  have "tcp_allocId (fst ex_S0) = 1 \<and> tcp_setsize (fst ex_S0) = 2" by code_simp
  moreover have "tcp_allocId (fst ex_S2) = 2 \<and> tcp_setsize (fst ex_S2) = 2" by code_simp
  ultimately have left: "ids_left (fst ex_S0)" "ids_left (fst ex_S2)" by (simp_all add: ids_left_def)
  have a: "case tcpSocketListen True 5 1 ex_S0 of None \<Rightarrow> False | Some z \<Rightarrow> True" by code_simp
  have b: "case tcpSocketConnect True 5 1 ex_S2 of None \<Rightarrow> False | Some z \<Rightarrow> True" by code_simp
  have c: "case tcpSocketStart True 5 2 ex_S4 of None \<Rightarrow> False | Some z \<Rightarrow> True" by code_simp
  have s1: "tcp_step 0 ex_S0 ex_S1"
    using ex_call [OF a] tcp_step.listen [OF left(1)] unfolding ex_S1_def by metis
  have s2: "tcp_step 0 ex_S1 ex_S2" unfolding ex_S2_def by (rule ex_handle_step) code_simp
  have s3: "tcp_step 0 ex_S2 ex_S3"
    using ex_call [OF b] tcp_step.connect [OF left(2)] unfolding ex_S3_def by metis
  have s4: "tcp_step 0 ex_S3 ex_S4" unfolding ex_S4_def by (rule ex_handle_step) code_simp
  have s5: "tcp_step 0 ex_S4 ex_S5"
    using ex_call [OF c] tcp_step.start unfolding ex_S5_def by metis
  have s6: "tcp_step 0 ex_S5 ex_S6" unfolding ex_S6_def by (rule ex_handle_step) code_simp
  show "tcp_reach 0 ex_S0 ex_S1" by (rule tcp_reach.more [OF tcp_reach.init s1])
  then show s5: "tcp_reach 0 ex_S0 ex_S5"
    using tcp_reach.more [OF tcp_reach.more [OF tcp_reach.more [OF tcp_reach.more [OF _ s2] s3] s4] s5] by blast
  show "tcp_reach 0 ex_S0 ex_S6" by (rule tcp_reach.more [OF s5 s6])
  have d: "case tcpSocketAsyncConnect True 5 1 ex_S0 of None \<Rightarrow> False | Some z \<Rightarrow> True" by code_simp
  have "tcp_step 0 ex_S0 ex_SA"
    using ex_call [OF d] tcp_step.async [OF left(1)] unfolding ex_SA_def by metis
  then show "tcp_reach 0 ex_S0 ex_SA" by (rule tcp_reach.more [OF tcp_reach.init])
qed

lemma tcp_events_live_witness:
  "\<exists>i. ae_data (tcp_loop (fst ex_S6)) 4 = Some i \<and> tcpGetSocket (fst ex_S6) (sk_id (sock (fst ex_S6) i)) = Some i"
proof -
  have m: "ae_mask (tcp_loop (fst ex_S6)) 4 \<noteq> AE_NONE" by code_simp
  have r: "tcp_reach 0 (tcpInit (aeCreateEventLoop 8 0) 2, []) (fst ex_S6, snd ex_S6)"
    using ex_reach(2) by (simp add: ex_S0_def)
  show ?thesis using tcp_events_live [OF _ _ r m] by auto
qed



text \<open>TcpGetReserveId finds a free slot whenever there is one, and aborts otherwise (as long as the
  counter of ids does not wrap): the id is new, leads to the slot, and no other slot changes.\<close>

theorem tcp_reserve:
  assumes "tcp_inv T" "ids_left T"
  shows "if \<exists>j < length (tcp_sockets T). sk_type (sock T j) = kSocketNoneType
    then \<exists>x T' j. tcpGetReserveId T = Some (x, T') \<and> tcp_inv T' \<and> unat (tcp_allocId T) \<le> unat x \<and>
      unat x < unat (tcp_allocId T') \<and> tcpGetSocket T' x = Some j \<and> sk_type (sock T j) = kSocketNoneType \<and>
      sk_type (sock T' j) = kReserveType \<and> (\<forall>k. k \<noteq> j \<longrightarrow> sock T' k = sock T k)
    else tcpGetReserveId T = None"
proof (cases "tcpGetReserveId T")
  case None
  then show ?thesis using tcpGetReserveId_ok [OF assms] by auto
next
  case (Some y)
  obtain x T' where y: "y = (x, T')" by (cases y)
  have j: "getIndex T x < length (tcp_sockets T)" using getIndex_less [OF assms(1)] .
  have t: "sk_type (sock T (getIndex T x)) = kSocketNoneType"
      "T' = sock_upd (getIndex T x) (\<lambda>s. s\<lparr>sk_type := kReserveType, sk_id := x, sk_fd := - 1\<rparr>) (T\<lparr>tcp_allocId := x + 1\<rparr>)"
    using tcpGetReserveId_ok [OF assms] Some y by auto
  then have "sk_type (sock T' (getIndex T x)) = kReserveType" using j by (simp add: sock_sock_upd)
  then show ?thesis
    using reserve_inv [OF assms, of x T'] Some y t(1) j by (auto intro!: exI [of _ "getIndex T x"])
qed

lemma tcp_reserve_witness:
  "\<exists>x T'. tcpGetReserveId (fst ex_S0) = Some (x, T') \<and> tcpGetSocket T' x \<noteq> None"
proof -
  have "tcp_inv (fst ex_S0)"
    using server_start(1) [of 2 0 8 0 "fst ex_S0" "[]"] tcp_reach.init [of 0 ex_S0] by (simp add: ex_S0_def)
  moreover have "tcp_allocId (fst ex_S0) = 1 \<and> tcp_setsize (fst ex_S0) = 2" by code_simp
  then have "ids_left (fst ex_S0)" by (simp add: ids_left_def)
  moreover have "0 < length (tcp_sockets (fst ex_S0)) \<and> sk_type (sock (fst ex_S0) 0) = kSocketNoneType" by code_simp
  ultimately show ?thesis using tcp_reserve [of "fst ex_S0"] by (auto split: if_splits)
qed

text \<open>
  Where the counter wraps: \<open>__sync_and_and_fetch\<close> gives the id 1 without counting on, so the next round
  looks at its slot again, and the search misses the last slot: it aborts although slot 0 is free.
\<close>

lemma tcp_reserve_wrap:
  "tcpGetReserveId ((fst ex_S0)\<lparr>tcp_allocId := 0x80000000,
     tcp_sockets := [socketInit, socketInit\<lparr>sk_type := kReserveType\<rparr>]\<rparr>) = None"
  by code_simp

text \<open>C13: the bytes of a connection leave in order: whatever the writes and sends take, as long as the
  connection is open, the bytes the kernel took and those in the send buffer are, together, what
  they were before and the data of the requests since; and bytes that wait have an event. (What a
  closed connection left in the buffer of the slot is still there when the slot is used again.)\<close>

theorem tcp_stream:
  assumes "conn_ok T i" "conn_run fill i xs T = Some T'" "list_all conn_sizes xs" "sk_state (sock T' i) = kSocketConnected"
  shows "tcp_wire T' (sk_fd (sock T i)) @ pending (sock T' i) = tcp_wire T (sk_fd (sock T i)) @ pending (sock T i) @ conn_data xs
    \<and> conn_ok T' i"
  using conn_run_ok [OF assms(2,1,3,4)] by blast

lemma tcp_stream_witness:
  "tcp_wire (the (conn_run 0 0 [ConnSend [1, 2, 3] (IoDone 1), ConnWritable [IoDone 1], ConnSend [4] IoAgain, ConnWritable [IoDone 5]]
     (fst ex_S6))) 4 = [1, 2, 3, 4]"
proof -
  let ?xs = "[ConnSend [1, 2, 3] (IoDone 1), ConnWritable [IoDone 1], ConnSend [4] IoAgain, ConnWritable [IoDone 5]]"
  have "tcp_inv (fst ex_S6)"
    using server_start(1) [of 2 0 8 0 "fst ex_S6" "snd ex_S6"] ex_reach(2) by (simp add: ex_S0_def)
  moreover have "0 < length (tcp_sockets (fst ex_S6)) \<and> sk_state (sock (fst ex_S6) 0) = kSocketConnected \<and>
      sk_fd (sock (fst ex_S6) 0) = 4 \<and> 4 < ae_setsize (tcp_loop (fst ex_S6)) \<and> sk_sendBuffer (sock (fst ex_S6) 0) = None \<and>
      tcp_wire (fst ex_S6) 4 = []" by code_simp
  ultimately have c: "conn_ok (fst ex_S6) 0" and f: "sk_fd (sock (fst ex_S6) 0) = 4" "pending (sock (fst ex_S6) 0) = []"
      "tcp_wire (fst ex_S6) 4 = []"
    by (simp_all add: conn_ok_def pending_def)
  have "case conn_run 0 0 ?xs (fst ex_S6) of None \<Rightarrow> False | Some T \<Rightarrow>
      sk_state (sock T 0) = kSocketConnected \<and> pending (sock T 0) = []" by code_simp
  then obtain T where T: "conn_run 0 0 ?xs (fst ex_S6) = Some T" "sk_state (sock T 0) = kSocketConnected" "pending (sock T 0) = []"
    by (auto split: option.splits)
  show ?thesis using tcp_stream [OF c T(1) _ T(2)] T f by auto
qed

end
