(* ===== verification/DictScan.thy ===== *)
theory DictScan
  imports Dict
begin

section \<open>Scanning a table that changes (src/dict.c)\<close>

text \<open>
  dictScan returns the entries of one bucket of the smaller table, and those of all its
  expansions in the larger one while a move is under way, and the cursor of the next call, which
  counts with reversed bits. The model is the function of dict.c, with the entries given to
  \<open>fn\<close> as the list it returns; \<open>rev_bits\<close> is the static function rev. The loop over the
  expansions is a \<open>partial_function\<close>; \<open>scan_expand_ok\<close> shows that it ends.

  The position of a cursor in the order of the scan is \<open>rank\<close>, its reversed bits as a number.
  A call with a table of \<open>2 ^ n\<close> buckets passes the ranks that agree with that of the cursor in the
  leading \<open>n\<close> bits (\<open>dictScan_ok\<close>), so that what has been passed does not depend on the sizes.
\<close>

unbundle bit_operations_syntax

subsection \<open>The reversed cursor\<close>

text \<open>\<open>s\<close> is halved at the head of the loop, which ends when it is 0.\<close>

function rev_loop :: "nat \<Rightarrow> u64 \<Rightarrow> u64 \<Rightarrow> u64" where
  "rev_loop s m v =
     (let s' = s div 2
      in if s' = 0 then v
         else let m' = m XOR push_bit s' m
              in rev_loop s' m' ((drop_bit s' v AND m') OR (push_bit s' v AND NOT m')))"
  by pat_completeness auto
termination by (relation "measure (\<lambda>(s, m, v). s)") auto

declare rev_loop.simps [simp del]

definition rev_bits :: "u64 \<Rightarrow> u64" where
  "rev_bits v = rev_loop 64 (NOT 0) v"

definition rev_round :: "nat \<Rightarrow> u64 \<Rightarrow> u64 \<Rightarrow> u64" where
  "rev_round s m v = (drop_bit s v AND m) OR (push_bit s v AND NOT m)"

lemma rev_loop_step:
  "1 < s \<Longrightarrow> m' = m XOR push_bit (s div 2) m \<Longrightarrow> rev_loop s m v = rev_loop (s div 2) m' (rev_round (s div 2) m' v)"
  by (subst rev_loop.simps) (simp add: rev_round_def Let_def div_eq_0_iff)

lemma rev_rounds:
  "rev_bits v =
     rev_round 1 0x5555555555555555 (rev_round 2 0x3333333333333333 (rev_round 4 0x0F0F0F0F0F0F0F0F
       (rev_round 8 0x00FF00FF00FF00FF (rev_round 16 0x0000FFFF0000FFFF (rev_round 32 0x00000000FFFFFFFF v)))))"
proof -
  have 1: "rev_loop 64 (NOT 0) v = rev_loop 32 0x00000000FFFFFFFF (rev_round 32 0x00000000FFFFFFFF v)" for v
    by (subst rev_loop_step [of 64 "0x00000000FFFFFFFF"]) (simp_all add: mask_eq_exp_minus_1)
  have 2: "rev_loop 32 0x00000000FFFFFFFF v = rev_loop 16 0x0000FFFF0000FFFF (rev_round 16 0x0000FFFF0000FFFF v)" for v
    by (subst rev_loop_step [of 32 "0x0000FFFF0000FFFF"]) simp_all
  have 3: "rev_loop 16 0x0000FFFF0000FFFF v = rev_loop 8 0x00FF00FF00FF00FF (rev_round 8 0x00FF00FF00FF00FF v)" for v
    by (subst rev_loop_step [of 16 "0x00FF00FF00FF00FF"]) simp_all
  have 4: "rev_loop 8 0x00FF00FF00FF00FF v = rev_loop 4 0x0F0F0F0F0F0F0F0F (rev_round 4 0x0F0F0F0F0F0F0F0F v)" for v
    by (subst rev_loop_step [of 8 "0x0F0F0F0F0F0F0F0F"]) simp_all
  have 5: "rev_loop 4 0x0F0F0F0F0F0F0F0F v = rev_loop 2 0x3333333333333333 (rev_round 2 0x3333333333333333 v)" for v
    by (subst rev_loop_step [of 4 "0x3333333333333333"]) simp_all
  have 6: "rev_loop 2 0x3333333333333333 v = rev_round 1 0x5555555555555555 v" for v
    by (subst rev_loop_step [of 2 "0x5555555555555555"]) (simp_all add: rev_loop.simps [of "Suc 0"])
  show ?thesis unfolding rev_bits_def 1 2 3 4 5 6 ..
qed

lemma upt_0_64: "[0..<64] =
  [0, 1, 2, 3, 4, 5, 6, 7, 8, 9, 10, 11, 12, 13, 14, 15, 16, 17, 18, 19, 20, 21, 22, 23, 24, 25, 26, 27, 28, 29, 30, 31,
   32, 33, 34, 35, 36, 37, 38, 39, 40, 41, 42, 43, 44, 45, 46, 47, 48, 49, 50, 51, 52, 53, 54, 55, 56, 57, 58, 59, 60, 61, 62, 63]"
  by code_simp

lemma all_less_64: "list_all P [0..<64] \<Longrightarrow> i < 64 \<Longrightarrow> P (i::nat)"
  by (simp add: list_all_iff)

lemma bit_rev_round:
  assumes "i < 64" "bit m i \<longleftrightarrow> i div s mod 2 = 0"
  shows "bit (rev_round s m v) i = bit v (if i div s mod 2 = 0 then i + s else i - s)"
proof -
  have "s \<le> i" if "i div s mod 2 \<noteq> 0" using that by (metis div_less mod_0 not_le)
  then show ?thesis using assms by (auto simp: rev_round_def bit_simps add.commute)
qed

lemma rev_round_swap:
  "list_all (\<lambda>i. bit (0x00000000FFFFFFFF :: u64) i \<longleftrightarrow> i div 32 mod 2 = 0) [0..<64]"
  "list_all (\<lambda>i. bit (0x0000FFFF0000FFFF :: u64) i \<longleftrightarrow> i div 16 mod 2 = 0) [0..<64]"
  "list_all (\<lambda>i. bit (0x00FF00FF00FF00FF :: u64) i \<longleftrightarrow> i div 8 mod 2 = 0) [0..<64]"
  "list_all (\<lambda>i. bit (0x0F0F0F0F0F0F0F0F :: u64) i \<longleftrightarrow> i div 4 mod 2 = 0) [0..<64]"
  "list_all (\<lambda>i. bit (0x3333333333333333 :: u64) i \<longleftrightarrow> i div 2 mod 2 = 0) [0..<64]"
  "list_all (\<lambda>i. bit (0x5555555555555555 :: u64) i \<longleftrightarrow> i div 1 mod 2 = 0) [0..<64]"
  by (simp_all only: upt_0_64 list.pred_inject) simp_all

text \<open>Each round exchanges the two halves of every block of \<open>2 * s\<close> bits.\<close>

lemma rev_round_bits:
  assumes "i < 64"
  shows "bit (rev_round 32 0x00000000FFFFFFFF v) i = bit v (if i div 32 mod 2 = 0 then i + 32 else i - 32)"
    "bit (rev_round 16 0x0000FFFF0000FFFF v) i = bit v (if i div 16 mod 2 = 0 then i + 16 else i - 16)"
    "bit (rev_round 8 0x00FF00FF00FF00FF v) i = bit v (if i div 8 mod 2 = 0 then i + 8 else i - 8)"
    "bit (rev_round 4 0x0F0F0F0F0F0F0F0F v) i = bit v (if i div 4 mod 2 = 0 then i + 4 else i - 4)"
    "bit (rev_round 2 0x3333333333333333 v) i = bit v (if i div 2 mod 2 = 0 then i + 2 else i - 2)"
    "bit (rev_round 1 0x5555555555555555 v) i = bit v (if i div 1 mod 2 = 0 then i + 1 else i - 1)"
  by (rule bit_rev_round [OF assms], rule all_less_64 [OF _ assms], rule rev_round_swap)+

lemma rev_bits_bit:
  assumes "i < 64"
  shows "bit (rev_bits v) i = bit v (63 - i)"
proof -
  have "list_all (\<lambda>i. bit (rev_bits v) i = bit v (63 - i)) [0..<64]"
    by (simp only: upt_0_64 list.pred_inject rev_rounds) (simp add: rev_round_bits rev_round_bits [unfolded One_nat_def])
  then show ?thesis using assms by (rule all_less_64)
qed

lemma rev_bits_rev_bits [simp]: "rev_bits (rev_bits v) = v"
  by (rule bit_eqI) (simp add: rev_bits_bit)

lemma rev_bits_0 [simp]: "rev_bits 0 = 0"
  by (rule bit_eqI) (simp add: rev_bits_bit)

text \<open>The position of a cursor, or of a hash, in the order in which the buckets are visited.\<close>

definition rank :: "u64 \<Rightarrow> nat" where
  "rank v = unat (rev_bits v)"

lemma rank_0 [simp]: "rank 0 = 0"
  by (simp add: rank_def)

lemma rank_eq_0 [simp]: "rank v = 0 \<longleftrightarrow> v = 0"
  by (metis rank_def rev_bits_0 rev_bits_rev_bits unat_eq_zero)

lemma rank_less: "rank v < 2 ^ 64"
  using unsigned_less [of "rev_bits v"] by (simp add: rank_def)

lemma unat_div_64: "unat (v :: u64) div 2 ^ k = unat (drop_bit k v)"
  by (simp only: unat_drop_bit_eq flip: drop_bit_eq_div)

lemma unat_mod_64: "unat (v :: u64) mod 2 ^ k = unat (take_bit k v)"
  by (simp only: unsigned_take_bit_eq flip: take_bit_eq_mod)

text \<open>Two cursors select the same bucket of a table of \<open>2 ^ n\<close> if the leading parts of their ranks agree.\<close>

lemma same_bucket:
  assumes "n \<le> 64"
  shows "unat a mod 2 ^ n = unat b mod 2 ^ n \<longleftrightarrow> rank a div 2 ^ (64 - n) = rank b div 2 ^ (64 - n)"
proof -
  have "take_bit n a = take_bit n b \<longleftrightarrow> drop_bit (64 - n) (rev_bits a) = drop_bit (64 - n) (rev_bits b)"
  proof
    assume t: "take_bit n a = take_bit n b"
    show "drop_bit (64 - n) (rev_bits a) = drop_bit (64 - n) (rev_bits b)"
    proof (rule bit_eqI)
      fix i
      show "bit (drop_bit (64 - n) (rev_bits a)) i = bit (drop_bit (64 - n) (rev_bits b)) i"
      proof (cases "i < n")
        case True
        then have "bit (take_bit n a) (63 - (64 - n + i)) = bit (take_bit n b) (63 - (64 - n + i))" using t by simp
        then show ?thesis using True assms by (simp add: bit_simps rev_bits_bit)
      next
        case False
        then show ?thesis using assms by (auto simp: bit_simps dest: bit_imp_le_length)
      qed
    qed
  next
    assume d: "drop_bit (64 - n) (rev_bits a) = drop_bit (64 - n) (rev_bits b)"
    show "take_bit n a = take_bit n b"
    proof (rule bit_eqI)
      fix i
      show "bit (take_bit n a) i = bit (take_bit n b) i"
      proof (cases "i < n")
        case True
        then have "bit (drop_bit (64 - n) (rev_bits a)) (n - 1 - i) = bit (drop_bit (64 - n) (rev_bits b)) (n - 1 - i)"
          using d by simp
        then show ?thesis using True assms by (simp add: bit_simps rev_bits_bit)
      qed (simp add: bit_simps)
    qed
  qed
  then show ?thesis by (simp add: rank_def unat_div_64 unat_mod_64 word_unat_eq_iff)
qed

lemma nat_or_mask: "(x :: nat) OR mask k = x div 2 ^ k * 2 ^ k + (2 ^ k - 1)"
proof -
  have "x OR mask k = push_bit k (drop_bit k x) OR mask k"
    by (rule bit_eqI) (auto simp: bit_simps)
  also have "\<dots> = push_bit k (drop_bit k x) + mask k"
    by (rule disjunctive_add_eq_or [symmetric]) (rule bit_eqI, auto simp: bit_simps)
  finally show ?thesis by (simp add: push_bit_eq_mult drop_bit_eq_div mask_eq_exp_minus_1)
qed

text \<open>Adding 1 above the mask.\<close>

lemma unat_or_mask_plus_1:
  assumes "k \<le> 64"
  shows "unat (((v :: u64) OR mask k) + 1) = ((unat v div 2 ^ k + 1) * 2 ^ k) mod 2 ^ 64"
proof -
  have "unat (mask k :: u64) = mask k"
    using assms by (intro bit_eqI) (auto simp: bit_simps)
  then have "unat (v OR mask k) = unat v div 2 ^ k * 2 ^ k + (2 ^ k - 1)"
    by (simp add: unsigned_or_eq nat_or_mask)
  then have "unat (v OR mask k) + 1 = (unat v div 2 ^ k + 1) * 2 ^ k" by simp
  then show ?thesis by (simp add: unat_word_ariths)
qed

subsection \<open>One call\<close>

text \<open>The chain at index \<open>i\<close> of a table.\<close>

definition scan_chain :: "('k, 'v) dictht \<Rightarrow> u64 \<Rightarrow> ('k \<times> 'v) list option" where
  "scan_chain ht i =
     (case ht_table ht of
        None \<Rightarrow> None
      | Some t \<Rightarrow> if unat i < length t then Some (t ! unat i) else None)"

text \<open>The loop over the expansions of the cursor in the larger table; \<open>out\<close> is what \<open>fn\<close> has been given.\<close>

partial_function (option) scan_expand ::
  "('k, 'v) dictht \<Rightarrow> u64 \<Rightarrow> u64 \<Rightarrow> u64 \<Rightarrow> ('k \<times> 'v) list \<Rightarrow> (('k \<times> 'v) list \<times> u64) option" where
  "scan_expand t1 m0 m1 v out =
     (case scan_chain t1 (v AND m1) of
        None \<Rightarrow> None
      | Some c \<Rightarrow>
          (let v' = (((v OR m0) + 1) AND NOT m0) OR (v AND m0)
           in if v' AND (m0 XOR m1) \<noteq> 0 then scan_expand t1 m0 m1 v' (out @ c) else Some (out @ c, v')))"

declare scan_expand.simps [code]

definition sizemask :: "('k, 'v) dictht \<Rightarrow> u64" where
  "sizemask ht = of_nat (ht_sizemask ht)"

definition scan_small :: "('k, 'v) dict \<Rightarrow> ('k, 'v) dictht" where
  "scan_small d = (if dictIsRehashing d \<and> ht_size (d_ht0 d) > ht_size (d_ht1 d) then d_ht1 d else d_ht0 d)"

definition scan_large :: "('k, 'v) dict \<Rightarrow> ('k, 'v) dictht" where
  "scan_large d = (if ht_size (d_ht0 d) > ht_size (d_ht1 d) then d_ht0 d else d_ht1 d)"

definition scan_emit :: "('k, 'v) dict \<Rightarrow> u64 \<Rightarrow> (('k \<times> 'v) list \<times> u64) option" where
  "scan_emit d v =
     (case scan_chain (scan_small d) (v AND sizemask (scan_small d)) of
        None \<Rightarrow> None
      | Some c \<Rightarrow>
          if \<not> dictIsRehashing d then Some (c, v)
          else scan_expand (scan_large d) (sizemask (scan_small d)) (sizemask (scan_large d)) v c)"

definition scan_next :: "u64 \<Rightarrow> u64 \<Rightarrow> u64" where
  "scan_next m0 v = rev_bits (rev_bits (v OR NOT m0) + 1)"

definition dictScan :: "('k, 'v) dict \<Rightarrow> u64 \<Rightarrow> (('k \<times> 'v) list \<times> u64) option" where
  "dictScan d v =
     (if dictSize d = 0 then Some ([], 0)
      else (case scan_emit d v of
              None \<Rightarrow> None
            | Some r \<Rightarrow> Some (fst r, scan_next (sizemask (scan_small d)) (snd r))))"

text \<open>The next cursor is the next bucket of a table of \<open>2 ^ n\<close> in the order of the ranks.\<close>

lemma rank_scan_next:
  assumes "n \<le> 64"
  shows "rank (scan_next (mask n) v) = ((rank v div 2 ^ (64 - n) + 1) * 2 ^ (64 - n)) mod 2 ^ 64"
proof -
  have "rev_bits (v OR NOT (mask n)) = rev_bits v OR mask (64 - n)"
    using assms by (intro bit_eqI) (auto simp: bit_simps rev_bits_bit)
  then show ?thesis using unat_or_mask_plus_1 [of "64 - n" "rev_bits v"] by (simp add: rank_def scan_next_def)
qed

text \<open>One turn of the loop over the expansions.\<close>

lemma unat_expand_step:
  assumes "n \<le> 64" "v' = (((v OR mask n) + 1) AND NOT (mask n)) OR (v AND mask n :: u64)"
  shows "unat v' = ((unat v div 2 ^ n + 1) * 2 ^ n) mod 2 ^ 64 + unat v mod 2 ^ n"
proof -
  define x where "x = (v OR mask n) + 1"
  have ux: "unat x = ((unat v div 2 ^ n + 1) * 2 ^ n) mod 2 ^ 64"
    unfolding x_def by (rule unat_or_mask_plus_1 [OF assms(1)])
  have "(2 :: nat) ^ n dvd 2 ^ 64" by (rule le_imp_power_dvd) (rule assms(1))
  then have "(2 :: nat) ^ n dvd unat x" unfolding ux by (simp add: dvd_mod)
  then have low: "take_bit n (unat x) = 0" by (simp add: take_bit_eq_mod)
  have nb: "\<not> bit (unat x) i" if "i < n" for i
    using arg_cong [OF low, of "\<lambda>z. bit z i"] that by (simp add: bit_simps)
  have "unat v' = unat x OR take_bit n (unat v)"
    using nb by (intro bit_eqI) (auto simp: assms(2) x_def [symmetric] bit_simps dest: bit_imp_le_length)
  also have "\<dots> = unat x + take_bit n (unat v)"
    using nb by (intro disjunctive_add_eq_or [symmetric] bit_eqI) (auto simp: bit_simps)
  finally show ?thesis by (simp add: ux take_bit_eq_mod)
qed

lemma expand_done:
  assumes "n \<le> p"
  shows "(v :: u64) AND (mask n XOR mask p) = 0 \<longleftrightarrow> unat v mod 2 ^ p div 2 ^ n = 0"
proof -
  have "v AND (mask n XOR mask p) = 0 \<longleftrightarrow> drop_bit n (take_bit p v) = 0"
  proof
    assume a: "v AND (mask n XOR mask p) = 0"
    show "drop_bit n (take_bit p v) = 0"
    proof (rule bit_eqI)
      fix i
      have "\<not> bit (v AND (mask n XOR mask p)) (n + i)" using a by simp
      then show "bit (drop_bit n (take_bit p v)) i = bit (0 :: u64) i"
        by (auto simp: bit_simps dest: bit_imp_le_length)
    qed
  next
    assume a: "drop_bit n (take_bit p v) = 0"
    show "v AND (mask n XOR mask p) = 0"
    proof (rule bit_eqI)
      fix i
      have "\<not> bit (drop_bit n (take_bit p v)) (i - n)" using a by simp
      then show "bit (v AND (mask n XOR mask p)) i = bit (0 :: u64) i"
        using assms by (cases "i < n") (auto simp: bit_simps dest: bit_imp_le_length)
    qed
  qed
  then show ?thesis by (simp only: unat_mod_64 unat_div_64 unat_eq_zero)
qed

lemma and_mask_mod: "unat ((v :: u64) AND mask n) = unat v mod 2 ^ n"
  by (simp only: unat_mod_64 take_bit_eq_mask)

lemma block_arith: "r < b \<Longrightarrow> (a * b + r) div b = a" "r < b \<Longrightarrow> (a * b + r) mod b = (r :: nat)" "r < b \<Longrightarrow> a < c \<Longrightarrow> a * b + r < c * b"
proof -
  assume r: "r < b"
  then show "(a * b + r) div b = a" "(a * b + r) mod b = r" by simp_all
  assume "a < c"
  then have "(a + 1) * b \<le> c * b" by (intro mult_le_mono1) simp
  then show "a * b + r < c * b" using r by simp
qed

lemma scan_expand_ok:
  assumes t: "ht_table ht = Some t" "length t = 2 ^ p" and np: "n \<le> p" "p \<le> 64"
  shows "\<exists>w. scan_expand ht (mask n) (mask p) v out =
      Some (out @ concat (map (\<lambda>i. t ! (i * 2 ^ n + unat v mod 2 ^ n)) [unat v mod 2 ^ p div 2 ^ n ..< 2 ^ (p - n)]), w) \<and>
    unat w mod 2 ^ n = unat v mod 2 ^ n"
proof (induction "2 ^ (p - n) - unat v mod 2 ^ p div 2 ^ n" arbitrary: v out rule: less_induct)
  case less
  define j where "j = unat v mod 2 ^ p div 2 ^ n"
  define r where "r = unat v mod 2 ^ n"
  have p: "(2 :: nat) ^ p = 2 ^ (p - n) * 2 ^ n" using np(1) by (simp flip: power_add)
  have r: "unat v mod 2 ^ p mod 2 ^ n = r" unfolding r_def using np(1) by (simp add: le_imp_power_dvd mod_mod_cancel)
  have vp: "unat v mod 2 ^ p = j * 2 ^ n + r" unfolding j_def r [symmetric] by (simp add: div_mult_mod_eq)
  have j: "j < 2 ^ (p - n)" unfolding j_def
    by (rule less_mult_imp_div_less) (simp flip: p)
  define v' where "v' = (((v OR mask n) + 1) AND NOT (mask n)) OR (v AND mask n)"
  have v': "unat v' = ((unat v div 2 ^ n + 1) * 2 ^ n) mod 2 ^ 64 + r"
    unfolding r_def by (rule unat_expand_step [OF _ v'_def]) (use np in simp)
  have d64: "(2 :: nat) ^ p dvd 2 ^ 64" by (rule le_imp_power_dvd) (rule np(2))
  have "unat v' mod 2 ^ p = ((unat v div 2 ^ n + 1) * 2 ^ n + r) mod 2 ^ p"
    unfolding v' by (rule mod_add_cong) (simp_all only: mod_mod_cancel [OF d64])
  also have "(unat v div 2 ^ n + 1) * 2 ^ n + r = unat v + 2 ^ n"
    using div_mult_mod_eq [of "unat v" "2 ^ n"] unfolding r_def by (simp add: algebra_simps)
  also have "(unat v + 2 ^ n) mod 2 ^ p = (j * 2 ^ n + r + 2 ^ n) mod 2 ^ p"
    unfolding vp [symmetric] by (simp add: mod_add_left_eq)
  finally have vp': "unat v' mod 2 ^ p = ((j + 1) * 2 ^ n + r) mod 2 ^ p" by (simp add: algebra_simps)
  have rn: "r < 2 ^ n" by (simp add: r_def)
  have r': "unat v' mod 2 ^ n = r"
  proof -
    have "unat v' mod 2 ^ n = unat v' mod 2 ^ p mod 2 ^ n" using np(1) by (simp add: le_imp_power_dvd mod_mod_cancel)
    also have "\<dots> = ((j + 1) * 2 ^ n + r) mod 2 ^ n" unfolding vp' using np(1) by (simp add: le_imp_power_dvd mod_mod_cancel)
    also have "\<dots> = r" using rn by (simp only: mod_mult_self3 mod_less)
    finally show ?thesis .
  qed
  have ch: "scan_chain ht (v AND mask p) = Some (t ! (j * 2 ^ n + r))"
    using t vp by (simp add: scan_chain_def and_mask_mod) (metis mod_less_divisor zero_less_numeral zero_less_power)
  show ?case
  proof (cases "j + 1 < 2 ^ (p - n)")
    case True
    have "(j + 1) * 2 ^ n + r < 2 ^ p"
    proof -
      have "(j + 1) * 2 ^ n + r < (j + 2) * 2 ^ n" using rn by simp
      also have "\<dots> \<le> 2 ^ (p - n) * 2 ^ n" using True by (intro mult_le_mono1) simp
      finally show ?thesis by (simp only: p)
    qed
    then have "unat v' mod 2 ^ p = (j + 1) * 2 ^ n + r" unfolding vp' by simp
    then have j': "unat v' mod 2 ^ p div 2 ^ n = j + 1" using block_arith(1) [OF rn] by (simp only:)
    have "2 ^ (p - n) - unat v' mod 2 ^ p div 2 ^ n < 2 ^ (p - n) - unat v mod 2 ^ p div 2 ^ n"
      unfolding j' j_def [symmetric] using j by (rule diff_less_mono2 [rotated]) simp
    from less [OF this, of "out @ t ! (j * 2 ^ n + r)"] obtain w where
      w: "scan_expand ht (mask n) (mask p) v' (out @ t ! (j * 2 ^ n + r)) =
        Some ((out @ t ! (j * 2 ^ n + r)) @ concat (map (\<lambda>i. t ! (i * 2 ^ n + r)) [j + 1 ..< 2 ^ (p - n)]), w)"
        "unat w mod 2 ^ n = r" unfolding j' r' by blast
    have "v' AND (mask n XOR mask p) \<noteq> 0" using expand_done [OF np(1), of v'] j' by simp
    then have "scan_expand ht (mask n) (mask p) v out = scan_expand ht (mask n) (mask p) v' (out @ t ! (j * 2 ^ n + r))"
      by (subst scan_expand.simps) (simp add: ch v'_def [symmetric] Let_def)
    then show ?thesis using w j by (simp add: j_def [symmetric] r_def [symmetric] upt_conv_Cons)
  next
    case False
    then have j1: "j + 1 = 2 ^ (p - n)" using j by simp
    have "unat v' mod 2 ^ p = r"
    proof -
      have "r < 2 ^ p" using rn np(1) by (meson less_le_trans one_le_numeral power_increasing)
      then show ?thesis unfolding vp' j1 p [symmetric] by simp
    qed
    then have "v' AND (mask n XOR mask p) = 0" using expand_done [OF np(1), of v'] rn by simp
    then have "scan_expand ht (mask n) (mask p) v out = Some (out @ t ! (j * 2 ^ n + r), v')"
      by (subst scan_expand.simps) (simp add: ch v'_def [symmetric] Let_def)
    then show ?thesis using r' j1 by (auto simp: j_def [symmetric] r_def [symmetric] upt_conv_Cons simp flip: j1)
  qed
qed

text \<open>The chains of a table are its entries sorted by the bucket they belong to.\<close>

lemma mset_bucket:
  assumes "\<And>i e. i < length t \<Longrightarrow> e \<in> set (t ! i) \<Longrightarrow> f e = i" "i < length t"
  shows "mset (t ! i) = filter_mset (\<lambda>e. f e = i) (mset (concat t))"
proof -
  have "filter (\<lambda>e. f e = i) (concat (take i t)) = []" "filter (\<lambda>e. f e = i) (concat (drop (Suc i) t)) = []"
  proof -
    have "f e \<noteq> i" if "e \<in> set (concat (take i t))" for e
    proof -
      obtain k where "k < length (take i t)" "e \<in> set (take i t ! k)"
        using \<open>e \<in> set (concat (take i t))\<close> unfolding in_concat_nth by blast
      then show ?thesis using assms(1) [of k e] by simp
    qed
    then show "filter (\<lambda>e. f e = i) (concat (take i t)) = []" by (simp only: filter_empty_conv) blast
    have "f e \<noteq> i" if "e \<in> set (concat (drop (Suc i) t))" for e
    proof -
      obtain k where "k < length (drop (Suc i) t)" "e \<in> set (drop (Suc i) t ! k)"
        using \<open>e \<in> set (concat (drop (Suc i) t))\<close> unfolding in_concat_nth by blast
      then show ?thesis using assms(1) [of "Suc i + k" e] by simp
    qed
    then show "filter (\<lambda>e. f e = i) (concat (drop (Suc i) t)) = []" by (simp only: filter_empty_conv) blast
  qed
  moreover have "filter (\<lambda>e. f e = i) (t ! i) = t ! i" using assms by (auto simp: filter_id_conv)
  ultimately have "filter (\<lambda>e. f e = i) (concat t) = t ! i"
    using arg_cong [OF concat_split [OF assms(2)], of "filter (\<lambda>e. f e = i)"] by simp
  then show ?thesis by (metis mset_filter)
qed

lemma mset_buckets:
  assumes "\<And>i e. i < length t \<Longrightarrow> e \<in> set (t ! i) \<Longrightarrow> f e = i"
  shows "distinct (map g js) \<Longrightarrow> \<forall>i \<in> set js. g i < length t \<Longrightarrow>
    mset (concat (map (\<lambda>i. t ! g i) js)) = filter_mset (\<lambda>e. f e \<in> g ` set js) (mset (concat t))"
proof (induction js)
  case (Cons i js)
  have "filter_mset (\<lambda>e. f e \<in> g ` set (i # js)) (mset (concat t)) =
      filter_mset (\<lambda>e. f e = g i) (mset (concat t)) + filter_mset (\<lambda>e. f e \<in> g ` set js) (mset (concat t))"
    using Cons.prems(1) by (intro multiset_eqI) auto
  then show ?case using Cons mset_bucket [of t f "g i", OF assms] by simp
qed simp

text \<open>What a well-formed table of the scan looks like.\<close>

definition scan_table :: "'k dictType \<Rightarrow> ('k, 'v) dictht \<Rightarrow> ('k \<times> 'v) list list \<Rightarrow> nat \<Rightarrow> bool" where
  "scan_table ty ht t n \<longleftrightarrow> ht_table ht = Some t \<and> length t = 2 ^ n \<and> sizemask ht = mask n \<and> ht_size ht = 2 ^ n \<and> n \<le> 31 \<and>
     (\<forall>i e. i < length t \<longrightarrow> e \<in> set (t ! i) \<longrightarrow> dictHashKey ty (fst e) mod 2 ^ n = i)"

text \<open>The rank of an entry: that of its hash, as a cursor.\<close>

definition hash_rank :: "'k dictType \<Rightarrow> 'k \<times> 'v \<Rightarrow> nat" where
  "hash_rank ty e = rank (of_nat (dictHashKey ty (fst e)))"

lemma hash_rank_less: "hash_rank ty e < 2 ^ 64"
  by (simp add: hash_rank_def rank_less del: numeral_power_eq_of_nat_cancel_iff power_numeral)

lemma unat_hash: "unat (of_nat (dictHashKey ty k) :: u64) = dictHashKey ty k"
proof -
  have "dictHashKey ty k < 2 ^ 32" using unsigned_less [of "hashFunction ty k"] by (simp add: dictHashKey_def)
  then show ?thesis by (simp add: unat_of_nat)
qed

lemma hash_rank_bucket:
  "n \<le> 64 \<Longrightarrow> dictHashKey ty (fst e) mod 2 ^ n = unat v mod 2 ^ n \<longleftrightarrow> hash_rank ty e div 2 ^ (64 - n) = rank v div 2 ^ (64 - n)"
  using same_bucket [of n "of_nat (dictHashKey ty (fst e))" v] by (simp only: unat_hash hash_rank_def)

text \<open>
  A cursor fits a call if it has no bit between the sizes of the two tables, which happens when it
  comes from a call on a larger table; a larger table of twice the size is also handled.
\<close>

definition scan_exact :: "('k, 'v) dict \<Rightarrow> u64 \<Rightarrow> bool" where
  "scan_exact d v \<longleftrightarrow> (dictIsRehashing d \<longrightarrow> v AND (sizemask (scan_small d) XOR sizemask (scan_large d)) = 0)"

definition scan_fits :: "('k, 'v) dict \<Rightarrow> u64 \<Rightarrow> bool" where
  "scan_fits d v \<longleftrightarrow> scan_exact d v \<or> ht_size (scan_large d) \<le> 2 * ht_size (scan_small d)"

lemma bit_unat: "bit (unat (x :: u64)) i = bit x i"
  by (auto simp: bit_unsigned_iff dest: bit_imp_le_length)

lemma rank_div_bit: "n < 64 \<Longrightarrow> rank x div 2 ^ (63 - n) = 2 * (rank x div 2 ^ (64 - n)) + of_bool (bit x n)"
proof -
  assume n: "n < 64"
  have "bit (rank x) (63 - n) = bit x n" using n by (simp add: rank_def bit_unsigned_iff rev_bits_bit)
  then have "rank x div 2 ^ (63 - n) mod 2 = of_bool (bit x n)" by (simp add: bit_iff_odd mod_2_eq_odd)
  moreover have "rank x div 2 ^ (63 - n) div 2 = rank x div 2 ^ (64 - n)"
  proof -
    have "64 - n = Suc (63 - n)" using n by simp
    then have "(2 :: nat) ^ (64 - n) = 2 ^ (63 - n) * 2" by (simp only: power_Suc2)
    then show ?thesis by (simp only: div_mult2_eq)
  qed
  ultimately show ?thesis by (metis mult_div_mod_eq)
qed

context dict_type begin

lemma scan_table_ok:
  assumes "ht_ok ty ht" "ht_table ht = Some t"
  obtains n where "scan_table ty ht t n"
proof -
  obtain n where n: "n \<in> {2..31}" "ht_size ht = 2 ^ n" "ht_sizemask ht = 2 ^ n - 1" "length t = 2 ^ n"
    using ht_okD(1,3,4) [OF assms] by auto
  have "sizemask ht = mask n"
    by (simp add: sizemask_def n(3) mask_eq_exp_minus_1 of_nat_diff)
  then have "scan_table ty ht t n"
    using ht_okD(5) [OF assms, unfolded n(3) nat_and_mask] n assms(2) unfolding scan_table_def by auto
  then show ?thesis by (rule that)
qed

lemma scan_chain_ok:
  assumes "scan_table ty ht t n"
  shows "\<exists>c. scan_chain ht (v AND sizemask ht) = Some c \<and>
    mset c = filter_mset (\<lambda>e. dictHashKey ty (fst e) mod 2 ^ n = unat v mod 2 ^ n) (mset (concat t))"
  using assms mset_bucket [of t "\<lambda>e. dictHashKey ty (fst e) mod 2 ^ n" "unat v mod 2 ^ n"]
  unfolding scan_table_def scan_chain_def by (simp only: and_mask_mod option.case) simp

lemma scan_expand_mset:
  assumes "scan_table ty ht t p" "n \<le> p"
  shows "\<exists>c w. scan_expand ht (mask n) (sizemask ht) v out = Some (out @ c, w) \<and> unat w mod 2 ^ n = unat v mod 2 ^ n \<and>
    mset c = filter_mset (\<lambda>e. dictHashKey ty (fst e) mod 2 ^ n = unat v mod 2 ^ n \<and>
      unat v mod 2 ^ p div 2 ^ n \<le> dictHashKey ty (fst e) mod 2 ^ p div 2 ^ n) (mset (concat t))"
proof -
  let ?r = "unat v mod 2 ^ n" and ?j = "unat v mod 2 ^ p div 2 ^ n"
  let ?g = "\<lambda>i. i * 2 ^ n + ?r"
  let ?is = "[?j ..< 2 ^ (p - n)]"
  note t = assms(1) [unfolded scan_table_def]
  obtain w where w: "scan_expand ht (mask n) (mask p) v out =
      Some (out @ concat (map (\<lambda>i. t ! ?g i) ?is), w)" "unat w mod 2 ^ n = ?r"
    using scan_expand_ok [of ht t p n v out] t assms(2) by auto
  have p: "(2 :: nat) ^ p = 2 ^ (p - n) * 2 ^ n" using assms(2) by (simp flip: power_add)
  have "?g i < length t" if "i \<in> set ?is" for i
    using block_arith(3) [of ?r "2 ^ n" i "2 ^ (p - n)"] that t p by simp
  then have g: "\<forall>i \<in> set ?is. ?g i < length t" by blast
  have d: "distinct (map ?g ?is)" by (simp add: distinct_map inj_on_def)
  have m: "mset (concat (map (\<lambda>i. t ! ?g i) ?is)) =
      filter_mset (\<lambda>e. dictHashKey ty (fst e) mod 2 ^ p \<in> ?g ` set ?is) (mset (concat t))"
    by (rule mset_buckets [of t "\<lambda>e. dictHashKey ty (fst e) mod 2 ^ p", OF _ d g]) (use t in blast)
  have "h mod 2 ^ p \<in> ?g ` set ?is \<longleftrightarrow> h mod 2 ^ n = ?r \<and> ?j \<le> h mod 2 ^ p div 2 ^ n" for h :: nat
  proof -
    have hn: "h mod 2 ^ p mod 2 ^ n = h mod 2 ^ n" using assms(2) by (simp add: le_imp_power_dvd mod_mod_cancel)
    have hp: "h mod 2 ^ p div 2 ^ n < 2 ^ (p - n)" by (rule less_mult_imp_div_less) (simp flip: p)
    have hd: "h mod 2 ^ p = h mod 2 ^ p div 2 ^ n * 2 ^ n + h mod 2 ^ n" using div_mult_mod_eq [of "h mod 2 ^ p" "2 ^ n"] hn by simp
    show ?thesis
    proof
      assume "h mod 2 ^ p \<in> ?g ` set ?is"
      then obtain i where i: "i \<in> set ?is" "h mod 2 ^ p = ?g i" by blast
      have "h mod 2 ^ p div 2 ^ n = i" "h mod 2 ^ p mod 2 ^ n = ?r" unfolding i(2) by simp_all
      then show "h mod 2 ^ n = ?r \<and> ?j \<le> h mod 2 ^ p div 2 ^ n" using hn i(1) by simp
    next
      assume a: "h mod 2 ^ n = ?r \<and> ?j \<le> h mod 2 ^ p div 2 ^ n"
      then have "h mod 2 ^ p = ?g (h mod 2 ^ p div 2 ^ n)" using hd by simp
      then show "h mod 2 ^ p \<in> ?g ` set ?is" by (rule image_eqI) (use a hp in simp)
    qed
  qed
  then show ?thesis using w m t by simp
qed

text \<open>Every call on a well-formed table returns, whatever the cursor.\<close>

lemma scan_tables:
  assumes "dict_ok ty d" "dictSize d \<noteq> 0 \<or> dictIsRehashing d"
  obtains ts n where "scan_table ty (scan_small d) ts n"
    "dictIsRehashing d \<Longrightarrow> \<exists>tl p. scan_table ty (scan_large d) tl p \<and> n \<le> p \<and> mset (dict_list d) = mset (concat ts) + mset (concat tl)"
    "\<not> dictIsRehashing d \<Longrightarrow> mset (dict_list d) = mset (concat ts)"
proof (cases "dictIsRehashing d")
  case True
  obtain t0 t1 where t: "ht_table (d_ht0 d) = Some t0" "ht_table (d_ht1 d) = Some t1" "ht_ok ty (d_ht0 d)" "ht_ok ty (d_ht1 d)"
    "dict_list d = concat t0 @ concat t1" using dict_okE [OF assms(1) True] by metis
  obtain n0 n1 where n: "scan_table ty (d_ht0 d) t0 n0" "scan_table ty (d_ht1 d) t1 n1"
    using scan_table_ok [OF t(3,1)] scan_table_ok [OF t(4,2)] by metis
  then have s: "ht_size (d_ht0 d) = 2 ^ n0" "ht_size (d_ht1 d) = 2 ^ n1" by (simp_all add: scan_table_def)
  show ?thesis
  proof (cases "n0 > n1")
    case gt: True
    then have "scan_small d = d_ht1 d" "scan_large d = d_ht0 d" using True s by (simp_all add: scan_small_def scan_large_def)
    moreover have "\<exists>tl p. scan_table ty (d_ht0 d) tl p \<and> n1 \<le> p \<and> mset (dict_list d) = mset (concat t1) + mset (concat tl)"
      using n(1) t(5) gt by (intro exI [of _ t0] exI [of _ n0]) simp
    ultimately show ?thesis using that [of t1 n1] n(2) True by (simp only: simp_thms)
  next
    case False
    then have "scan_small d = d_ht0 d" "scan_large d = d_ht1 d" using True s by (simp_all add: scan_small_def scan_large_def)
    then show ?thesis using that [of t0 n0] n t(5) False True by (auto simp: not_less)
  qed
next
  case False
  then have ok: "ht_ok ty (d_ht0 d)" "ht_table (d_ht1 d) = None" using assms(1) by (auto simp: dict_ok_def)
  then obtain t where t: "ht_table (d_ht0 d) = Some t"
    using assms False by (cases "ht_table (d_ht0 d)") (auto simp: dictSize_eq dict_list_def ht_chains_def)
  then obtain n where "scan_table ty (d_ht0 d) t n" using scan_table_ok [OF ok(1) t] by blast
  then show ?thesis using that [of t n] False t ok(2) by (simp add: scan_small_def dict_list_def ht_chains_def)
qed

lemma dictScan_ok:
  assumes ok: "dict_ok ty d" and ne: "dictSize d \<noteq> 0"
  shows "\<exists>out v' n. dictScan d v = Some (out, v') \<and> ht_size (scan_small d) = 2 ^ n \<and> n \<le> 31 \<and>
    rank v' = ((rank v div 2 ^ (64 - n) + 1) * 2 ^ (64 - n)) mod 2 ^ 64 \<and>
    set out \<subseteq> set (dict_list d) \<and>
    (scan_fits d v \<longrightarrow> (\<forall>e \<in> set (dict_list d).
       hash_rank ty e div 2 ^ (64 - n) = rank v div 2 ^ (64 - n) \<longrightarrow> rank v \<le> hash_rank ty e \<longrightarrow> e \<in> set out)) \<and>
    (scan_exact d v \<longrightarrow>
       mset out = filter_mset (\<lambda>e. hash_rank ty e div 2 ^ (64 - n) = rank v div 2 ^ (64 - n)) (mset (dict_list d)))"
proof -
  obtain ts n where n: "scan_table ty (scan_small d) ts n"
    "dictIsRehashing d \<Longrightarrow> \<exists>tl p. scan_table ty (scan_large d) tl p \<and> n \<le> p \<and> mset (dict_list d) = mset (concat ts) + mset (concat tl)"
    "\<not> dictIsRehashing d \<Longrightarrow> mset (dict_list d) = mset (concat ts)"
    using scan_tables [OF ok] ne by blast
  have sz: "ht_size (scan_small d) = 2 ^ n" "n \<le> 31" "sizemask (scan_small d) = mask n" using n(1) by (simp_all add: scan_table_def)
  have n64: "n \<le> 64" using sz(2) by simp
  obtain c where c: "scan_chain (scan_small d) (v AND sizemask (scan_small d)) = Some c"
    "mset c = filter_mset (\<lambda>e. dictHashKey ty (fst e) mod 2 ^ n = unat v mod 2 ^ n) (mset (concat ts))"
    using scan_chain_ok [OF n(1)] by blast
  note c' = c(2) [unfolded hash_rank_bucket [OF n64]]
  show ?thesis
  proof (cases "dictIsRehashing d")
    case False
    have s: "dictScan d v = Some (c, scan_next (mask n) v)" using c(1) ne False sz(3) by (simp add: dictScan_def scan_emit_def)
    have d: "mset (dict_list d) = mset (concat ts)" by (rule n(3) [OF False])
    have m: "mset c = filter_mset (\<lambda>e. hash_rank ty e div 2 ^ (64 - n) = rank v div 2 ^ (64 - n)) (mset (dict_list d))"
      unfolding d by (rule c')
    have sc: "set c = {e \<in> set (dict_list d). hash_rank ty e div 2 ^ (64 - n) = rank v div 2 ^ (64 - n)}"
      using arg_cong [OF m, of set_mset] by simp
    then have sub: "set c \<subseteq> set (dict_list d)" by blast
    have "scan_fits d v \<longrightarrow> (\<forall>e \<in> set (dict_list d).
       hash_rank ty e div 2 ^ (64 - n) = rank v div 2 ^ (64 - n) \<longrightarrow> rank v \<le> hash_rank ty e \<longrightarrow> e \<in> set c)"
      unfolding sc by blast
    moreover have "scan_exact d v \<longrightarrow>
       mset c = filter_mset (\<lambda>e. hash_rank ty e div 2 ^ (64 - n) = rank v div 2 ^ (64 - n)) (mset (dict_list d))"
      by (rule impI) (rule m)
    ultimately show ?thesis using s sz(1,2) rank_scan_next [OF n64, of v] sub
      by (intro exI [of _ c] exI [of _ "scan_next (mask n) v"] exI [of _ n] conjI) assumption+
  next
    case True
    obtain tl p where tl: "scan_table ty (scan_large d) tl p" "n \<le> p" "mset (dict_list d) = mset (concat ts) + mset (concat tl)"
      using n(2) [OF True] by blast
    obtain c1 w where w: "scan_expand (scan_large d) (mask n) (sizemask (scan_large d)) v c = Some (c @ c1, w)"
      "unat w mod 2 ^ n = unat v mod 2 ^ n"
      "mset c1 = filter_mset (\<lambda>e. dictHashKey ty (fst e) mod 2 ^ n = unat v mod 2 ^ n \<and>
        unat v mod 2 ^ p div 2 ^ n \<le> dictHashKey ty (fst e) mod 2 ^ p div 2 ^ n) (mset (concat tl))"
      using scan_expand_mset [OF tl(1,2)] by blast
    note w3 = w(3) [unfolded hash_rank_bucket [OF n64]]
    have s: "dictScan d v = Some (c @ c1, scan_next (mask n) w)"
      using c(1) ne True sz(3) w(1) by (simp add: dictScan_def scan_emit_def)
    have r: "rank (scan_next (mask n) w) = ((rank v div 2 ^ (64 - n) + 1) * 2 ^ (64 - n)) mod 2 ^ 64"
      using rank_scan_next [OF n64, of w] same_bucket [OF n64, of w v] w(2) by simp
    have "set (dict_list d) = set (concat ts) \<union> set (concat tl)"
      using arg_cong [OF tl(3), of set_mset] by simp
    then have sub: "set (c @ c1) \<subseteq> set (dict_list d)" and sets: "set c = {e \<in> set (concat ts). hash_rank ty e div 2 ^ (64 - n) = rank v div 2 ^ (64 - n)}"
      "set c1 = {e \<in> set (concat tl). hash_rank ty e div 2 ^ (64 - n) = rank v div 2 ^ (64 - n) \<and>
        unat v mod 2 ^ p div 2 ^ n \<le> dictHashKey ty (fst e) mod 2 ^ p div 2 ^ n}"
      and un: "set (dict_list d) = set (concat ts) \<union> set (concat tl)"
      using arg_cong [OF c', of set_mset] arg_cong [OF w3, of set_mset] by auto
    have ex: "scan_exact d v \<longleftrightarrow> unat v mod 2 ^ p div 2 ^ n = 0"
      using True sz(3) tl(1) expand_done [OF tl(2), of v] by (simp add: scan_exact_def scan_table_def)
    have m: "mset (c @ c1) = filter_mset (\<lambda>e. hash_rank ty e div 2 ^ (64 - n) = rank v div 2 ^ (64 - n)) (mset (dict_list d))"
      if "scan_exact d v" using that c' w3 by (simp add: ex tl(3))
    have f: "e \<in> set (c @ c1)" if e: "scan_fits d v" "e \<in> set (dict_list d)"
      "hash_rank ty e div 2 ^ (64 - n) = rank v div 2 ^ (64 - n)" "rank v \<le> hash_rank ty e" for e
    proof (cases "unat v mod 2 ^ p div 2 ^ n \<le> dictHashKey ty (fst e) mod 2 ^ p div 2 ^ n")
      case True
      then show ?thesis using e(2,3) un sets by auto
    next
      case False
      then have "\<not> scan_exact d v" by (simp add: ex)
      then have "(2 :: nat) ^ p \<le> 2 ^ Suc n" using e(1) tl(1) sz(1) by (simp add: scan_fits_def scan_table_def)
      then have "p \<le> Suc n" by (rule power_le_imp_le_exp [rotated]) simp
      moreover have "p \<noteq> n" using False by (auto simp: div_less)
      ultimately have p: "p = Suc n" using tl(2) by simp
      have two: "unat x mod 2 ^ p div 2 ^ n = of_bool (bit x n)" for x :: u64
        unfolding p power_Suc2 mod_mult2_eq by (simp add: mod_2_eq_odd bit_unat [symmetric] bit_iff_odd)
      let ?h = "of_nat (dictHashKey ty (fst e)) :: u64"
      have "n < 64" using sz(2) by simp
      moreover have "bit v n" "\<not> bit ?h n" using False two [of v] two [of ?h] by (auto simp: unat_hash)
      ultimately have "rank ?h div 2 ^ (63 - n) < rank v div 2 ^ (63 - n)"
        using e(3) rank_div_bit [of n v] rank_div_bit [of n ?h] by (simp add: hash_rank_def)
      then have "rank ?h < rank v" by (meson div_le_mono not_le)
      then show ?thesis using e(4) by (simp add: hash_rank_def)
    qed
    have "scan_fits d v \<longrightarrow> (\<forall>e \<in> set (dict_list d).
       hash_rank ty e div 2 ^ (64 - n) = rank v div 2 ^ (64 - n) \<longrightarrow> rank v \<le> hash_rank ty e \<longrightarrow> e \<in> set (c @ c1))"
      using f by blast
    moreover have "scan_exact d v \<longrightarrow> mset (c @ c1) =
        filter_mset (\<lambda>e. hash_rank ty e div 2 ^ (64 - n) = rank v div 2 ^ (64 - n)) (mset (dict_list d))"
      using m by (rule impI)
    ultimately show ?thesis using s sz(1,2) r sub
      by (intro exI [of _ "c @ c1"] exI [of _ "scan_next (mask n) w"] exI [of _ n] conjI) assumption+
  qed
qed

end

subsection \<open>A whole iteration\<close>

text \<open>
  The user's loop: \<open>dictScan\<close> is called with the cursor of the call before until it is 0. The table
  may be a different one at each call; they are given as a list, and the loop stops early if the
  list is too short, with a cursor that is not 0.
\<close>

fun scan_run :: "('k, 'v) dict list \<Rightarrow> u64 \<Rightarrow> (('k \<times> 'v) list \<times> u64) option" where
  "scan_run [] v = Some ([], v)"
| "scan_run (d # ds) v =
     (case dictScan d v of
        None \<Rightarrow> None
      | Some r \<Rightarrow>
          if snd r = 0 then Some (fst r, 0)
          else (case scan_run ds (snd r) of None \<Rightarrow> None | Some r' \<Rightarrow> Some (fst r @ fst r', snd r')))"

text \<open>Every call of the loop gets a cursor that fits.\<close>

fun scan_clean :: "('k, 'v) dict list \<Rightarrow> u64 \<Rightarrow> bool" where
  "scan_clean [] v = True"
| "scan_clean (d # ds) v = (scan_fits d v \<and> (case dictScan d v of None \<Rightarrow> True | Some (out, v') \<Rightarrow> v' = 0 \<or> scan_clean ds v'))"

lemma dictScan_empty: "dictSize d = 0 \<Longrightarrow> dictScan d v = Some ([], 0)"
  by (simp add: dictScan_def)

context dict_type begin

lemma scan_run_returns:
  "\<forall>d \<in> set ds. dict_ok ty d \<Longrightarrow>
    \<exists>out w. scan_run ds v = Some (out, w) \<and> set out \<subseteq> (\<Union>d \<in> set ds. set (dict_list d))"
proof (induction ds arbitrary: v)
  case (Cons d ds)
  show ?case
  proof (cases "dictSize d = 0")
    case False
    obtain out v' where "dictScan d v = Some (out, v')" "set out \<subseteq> set (dict_list d)"
      using dictScan_ok [OF _ False, of v] Cons.prems by auto
    moreover obtain out' w where "scan_run ds v' = Some (out', w)" "set out' \<subseteq> (\<Union>d \<in> set ds. set (dict_list d))"
      using Cons by fastforce
    ultimately show ?thesis by auto
  qed (simp add: dictScan_empty)
qed simp

lemma rank_next_bounds:
  assumes "rank v' = ((rank v div 2 ^ k + 1) * 2 ^ k) mod 2 ^ 64" "k \<le> 64"
  shows "v' \<noteq> 0 \<Longrightarrow> rank v' = (rank v div 2 ^ k + 1) * 2 ^ k"
    "v' = 0 \<Longrightarrow> (rank v div 2 ^ k + 1) * 2 ^ k = 2 ^ 64"
proof -
  have p: "(2 :: nat) ^ 64 = 2 ^ (64 - k) * 2 ^ k" using assms(2) by (simp flip: power_add)
  have "rank v div 2 ^ k < 2 ^ (64 - k)" by (rule less_mult_imp_div_less) (simp only: p [symmetric] rank_less)
  then have le: "(rank v div 2 ^ k + 1) * 2 ^ k \<le> 2 ^ 64" unfolding p by (intro mult_le_mono1) simp
  show "rank v' = (rank v div 2 ^ k + 1) * 2 ^ k" if "v' \<noteq> 0"
  proof (rule ccontr)
    assume "rank v' \<noteq> (rank v div 2 ^ k + 1) * 2 ^ k"
    then have "(rank v div 2 ^ k + 1) * 2 ^ k = 2 ^ 64" using le assms(1) by (metis le_neq_implies_less mod_less)
    then have "rank v' = 0" using assms(1) by simp
    then show False using that by simp
  qed
  show "(rank v div 2 ^ k + 1) * 2 ^ k = 2 ^ 64" if "v' = 0"
  proof (rule ccontr)
    assume "(rank v div 2 ^ k + 1) * 2 ^ k \<noteq> 2 ^ 64"
    then have "rank v' = (rank v div 2 ^ k + 1) * 2 ^ k" using le assms(1) by (metis le_neq_implies_less mod_less)
    then show False using that by simp
  qed
qed

text \<open>An entry that is there at every call and has not been passed yet is returned.\<close>

lemma scan_run_complete:
  "\<forall>d \<in> set ds. dict_ok ty d \<and> e \<in> set (dict_list d) \<Longrightarrow> scan_clean ds v \<Longrightarrow> scan_run ds v = Some (out, 0) \<Longrightarrow>
    v \<noteq> 0 \<or> ds \<noteq> [] \<Longrightarrow> rank v \<le> hash_rank ty e \<Longrightarrow> e \<in> set out"
proof (induction ds arbitrary: v out)
  case (Cons d ds)
  have ne: "dictSize d \<noteq> 0" using Cons.prems(1) by (auto simp: dictSize_eq)
  obtain o1 v' n where s: "dictScan d v = Some (o1, v')" "n \<le> 31"
    "rank v' = ((rank v div 2 ^ (64 - n) + 1) * 2 ^ (64 - n)) mod 2 ^ 64"
    "\<forall>e \<in> set (dict_list d). hash_rank ty e div 2 ^ (64 - n) = rank v div 2 ^ (64 - n) \<longrightarrow> rank v \<le> hash_rank ty e \<longrightarrow> e \<in> set o1"
    using dictScan_ok [OF _ ne, of v] Cons.prems(1,2) by auto
  let ?k = "64 - n"
  show ?case
  proof (cases "hash_rank ty e div 2 ^ ?k = rank v div 2 ^ ?k")
    case True
    then have "e \<in> set o1" using s(4) Cons.prems(1,5) by auto
    then show ?thesis using Cons.prems(3) s(1) by (auto split: if_splits option.splits)
  next
    case False
    have "rank v div 2 ^ ?k \<le> hash_rank ty e div 2 ^ ?k" by (rule div_le_mono [OF Cons.prems(5)])
    then have "rank v div 2 ^ ?k + 1 \<le> hash_rank ty e div 2 ^ ?k" using False by simp
    then have le: "(rank v div 2 ^ ?k + 1) * 2 ^ ?k \<le> hash_rank ty e"
      by (meson div_times_less_eq_dividend le_trans mult_le_mono1)
    have v': "v' \<noteq> 0"
      using rank_next_bounds(2) [OF s(3)] le hash_rank_less [of ty e] by (metis diff_le_self not_le)
    then have r: "rank v' \<le> hash_rank ty e" using rank_next_bounds(1) [OF s(3)] le by simp
    obtain o2 where "scan_run ds v' = Some (o2, 0)" "out = o1 @ o2" using Cons.prems(3) s(1) v' by (auto split: option.splits)
    then show ?thesis using Cons.IH [of v' o2] Cons.prems(1,2) s(1) v' r by simp
  qed
qed simp

text \<open>Every call passes at least one bucket of the smallest size in use.\<close>

lemma scan_run_ends:
  "\<forall>d \<in> set ds. dict_ok ty d \<and> ht_size (scan_small d) \<le> 2 ^ m \<Longrightarrow> m \<le> 64 \<Longrightarrow> 2 ^ (64 - m) dvd rank v \<Longrightarrow>
    2 ^ 64 \<le> rank v + length ds * 2 ^ (64 - m) \<Longrightarrow> scan_run ds v = Some (out, w) \<Longrightarrow> w = 0"
proof (induction ds arbitrary: v out)
  case Nil
  then show ?case using rank_less [of v] by simp
next
  case (Cons d ds)
  show ?case
  proof (cases "dictSize d = 0")
    case True
    then show ?thesis using Cons.prems(5) by (simp add: dictScan_empty)
  next
    case ne: False
    obtain o1 v' n where s: "dictScan d v = Some (o1, v')" "ht_size (scan_small d) = 2 ^ n"
      "rank v' = ((rank v div 2 ^ (64 - n) + 1) * 2 ^ (64 - n)) mod 2 ^ 64"
      using dictScan_ok [OF _ ne, of v] Cons.prems(1) by auto
    show ?thesis
    proof (cases "v' = 0")
      case True
      then show ?thesis using Cons.prems(5) s(1) by simp
    next
      case False
      then obtain o2 where o2: "scan_run ds v' = Some (o2, w)" using Cons.prems(5) s(1) by (auto split: option.splits)
      have "(2 :: nat) ^ n \<le> 2 ^ m" using Cons.prems(1) s(2) by simp
      then have nm: "n \<le> m" by (rule power_le_imp_le_exp [rotated]) simp
      have v': "rank v' = (rank v div 2 ^ (64 - n) + 1) * 2 ^ (64 - n)"
        using rank_next_bounds(1) [OF s(3)] False by simp
      have d: "(2 :: nat) ^ (64 - m) dvd 2 ^ (64 - n)" using nm by (simp add: le_imp_power_dvd)
      then have dv: "2 ^ (64 - m) dvd rank v'" unfolding v' by (rule dvd_mult)
      have lt: "rank v < rank v'" unfolding v' using dividend_less_div_times [of "2 ^ (64 - n)" "rank v"] by simp
      then have "2 ^ (64 - m) \<le> rank v' - rank v" using dvd_diff_nat [OF dv Cons.prems(3)] lt by (intro dvd_imp_le) simp_all
      then have "2 ^ 64 \<le> rank v' + length ds * 2 ^ (64 - m)" using Cons.prems(4) lt by simp
      then show ?thesis using Cons.IH [OF _ Cons.prems(2) dv _ o2] Cons.prems(1) by simp
    qed
  qed
qed

text \<open>A cursor of a table that is not larger than the smaller one of the call fits exactly.\<close>

lemma aligned_exact:
  assumes "dict_ok ty d" "\<And>n. ht_size (scan_small d) = 2 ^ n \<Longrightarrow> 2 ^ (64 - n) dvd rank v"
  shows "scan_exact d v"
proof (cases "dictIsRehashing d")
  case True
  obtain ts n tl p where n: "scan_table ty (scan_small d) ts n" "scan_table ty (scan_large d) tl p" "n \<le> p"
    using scan_tables [OF assms(1)] True by metis
  then have n31: "n \<le> 31" and "2 ^ (64 - n) dvd rank v" using assms(2) by (simp_all add: scan_table_def)
  then have z: "take_bit (64 - n) (rank v) = 0" by (simp add: take_bit_eq_mod)
  have "\<not> bit v i" if "n \<le> i" for i
  proof (cases "i < 64")
    case True
    then have "\<not> bit (rank v) (63 - i)" using arg_cong [OF z, of "\<lambda>x. bit x (63 - i)"] that by (simp add: bit_take_bit_iff)
    then show ?thesis using True by (simp add: rank_def bit_unat rev_bits_bit)
  qed (auto dest: bit_imp_le_length)
  then have "v AND (mask n XOR mask p) = 0" using n(3) by (intro bit_eqI) (auto simp: bit_simps not_le [symmetric])
  then show ?thesis using n by (simp add: scan_exact_def scan_table_def)
qed (simp add: scan_exact_def)

text \<open>While the table only grows, every cursor fits.\<close>

lemma scan_clean_growing:
  "\<forall>d \<in> set ds. dict_ok ty d \<Longrightarrow> sorted (map (\<lambda>d. ht_size (scan_small d)) ds) \<Longrightarrow>
    \<forall>d \<in> set ds. \<forall>n. ht_size (scan_small d) = 2 ^ n \<longrightarrow> 2 ^ (64 - n) dvd rank v \<Longrightarrow> scan_clean ds v"
proof (induction ds arbitrary: v)
  case (Cons d ds)
  have f: "scan_fits d v" using aligned_exact [of d v] Cons.prems(1,3) by (simp add: scan_fits_def)
  show ?case
  proof (cases "dictSize d = 0")
    case True
    then show ?thesis using f by (simp add: dictScan_empty)
  next
    case ne: False
    obtain o1 v' n where s: "dictScan d v = Some (o1, v')" "ht_size (scan_small d) = 2 ^ n"
      "rank v' = ((rank v div 2 ^ (64 - n) + 1) * 2 ^ (64 - n)) mod 2 ^ 64"
      using dictScan_ok [OF _ ne, of v] Cons.prems(1) by auto
    have "2 ^ (64 - k) dvd rank v'" if v: "v' \<noteq> 0" and k: "d' \<in> set ds" "ht_size (scan_small d') = 2 ^ k" for d' k
    proof -
      have "(2 :: nat) ^ n \<le> 2 ^ k" using Cons.prems(2) k s(2) by auto
      then have "n \<le> k" by (rule power_le_imp_le_exp [rotated]) simp
      then have "(2 :: nat) ^ (64 - k) dvd 2 ^ (64 - n)" by (simp add: le_imp_power_dvd)
      then show ?thesis unfolding rank_next_bounds(1) [OF s(3) diff_le_self v] by (rule dvd_mult)
    qed
    then show ?thesis using Cons.IH [of v'] Cons.prems(1,2) f s(1) by auto
  qed
qed simp

text \<open>On a table that does not change, the calls from a bucket on return the entries from there on.\<close>

lemma scan_run_exact:
  fixes d :: "('k, 'v) dict"
  assumes ok: "dict_ok ty d" and ne: "dictSize d \<noteq> 0" and n: "ht_size (scan_small d) = 2 ^ n"
  shows "rank v = q * 2 ^ (64 - n) \<Longrightarrow> q + c = 2 ^ n \<Longrightarrow> 0 < c \<Longrightarrow>
    \<exists>out. scan_run (replicate c d) v = Some (out, 0) \<and>
      mset out = filter_mset (\<lambda>e. q \<le> hash_rank ty e div 2 ^ (64 - n)) (mset (dict_list d))"
proof (induction c arbitrary: v q)
  case (Suc c)
  obtain o1 v' m where s: "dictScan d v = Some (o1, v')" "ht_size (scan_small d) = 2 ^ m" "m \<le> 31"
    "rank v' = ((rank v div 2 ^ (64 - m) + 1) * 2 ^ (64 - m)) mod 2 ^ 64"
    "scan_exact d v \<longrightarrow>
       mset o1 = filter_mset (\<lambda>e. hash_rank ty e div 2 ^ (64 - m) = rank v div 2 ^ (64 - m)) (mset (dict_list d))"
    using dictScan_ok [OF ok ne, of v] by blast
  have mn: "m = n" using n s(2) by simp
  have q: "rank v div 2 ^ (64 - n) = q" using Suc.prems(1) by simp
  have "scan_exact d v"
    by (rule aligned_exact [OF ok]) (use n Suc.prems(1) in simp)
  then have o1: "mset o1 = filter_mset (\<lambda>e. hash_rank ty e div 2 ^ (64 - n) = q) (mset (dict_list d))"
    using s(5) unfolding mn q by simp
  note b = rank_next_bounds [OF s(4) diff_le_self, unfolded mn q]
  have p: "(2 :: nat) ^ 64 = 2 ^ n * 2 ^ (64 - n)" using s(3) mn by (simp flip: power_add)
  show ?case
  proof (cases "c = 0")
    case True
    then have q1: "q + 1 = 2 ^ n" using Suc.prems(2) by simp
    have "v' = 0"
    proof (rule ccontr)
      assume "v' \<noteq> 0"
      then have "rank v' = 2 ^ 64" using b(1) unfolding q1 p by simp
      then show False using rank_less [of v'] by simp
    qed
    moreover have "q \<le> hash_rank ty e div 2 ^ (64 - n) \<longleftrightarrow> hash_rank ty e div 2 ^ (64 - n) = q" for e :: "'k \<times> 'v"
    proof -
      have "hash_rank ty e div 2 ^ (64 - n) < 2 ^ n"
        by (rule less_mult_imp_div_less) (use hash_rank_less [of ty e] p in simp)
      then show ?thesis using q1 by auto
    qed
    ultimately show ?thesis using s(1) o1 True by simp
  next
    case False
    have v': "v' \<noteq> 0"
    proof
      assume "v' = 0"
      then have "(q + 1) * 2 ^ (64 - n) = 2 ^ n * 2 ^ (64 - n)" using b(2) p by simp
      then have "q + 1 = 2 ^ n" by (simp only: mult_cancel2) simp
      then show False using Suc.prems(2) False by simp
    qed
    have "q + 1 + c = 2 ^ n" using Suc.prems(2) by simp
    from Suc.IH [OF b(1) [OF v'] this] False obtain o2 where o2: "scan_run (replicate c d) v' = Some (o2, 0)"
      "mset o2 = filter_mset (\<lambda>e. q + 1 \<le> hash_rank ty e div 2 ^ (64 - n)) (mset (dict_list d))" by blast
    have "filter_mset (\<lambda>e. q \<le> hash_rank ty e div 2 ^ (64 - n)) M =
        filter_mset (\<lambda>e. hash_rank ty e div 2 ^ (64 - n) = q) M + filter_mset (\<lambda>e. q + 1 \<le> hash_rank ty e div 2 ^ (64 - n)) M"
      for M :: "('k \<times> 'v) multiset" by (rule multiset_eqI) auto
    then show ?thesis using s(1) o1 o2 v' by simp
  qed
qed simp

lemma scan_complete:
  assumes "\<forall>d \<in> set ds. dict_ok ty d \<and> e \<in> set (dict_list d)"
    "sorted (map (\<lambda>d. ht_size (scan_small d)) ds)" "\<forall>d \<in> set ds. ht_size (scan_small d) \<le> length ds" "ds \<noteq> []"
  shows "\<exists>out. scan_run ds 0 = Some (out, 0) \<and> e \<in> set out"
proof -
  define l where "l = last ds"
  have l: "l \<in> set ds" using assms(4) by (simp add: l_def)
  then have ok: "dict_ok ty l" and "dictSize l \<noteq> 0" using assms(1) by (auto simp: dictSize_eq)
  then obtain m where m: "ht_size (scan_small l) = 2 ^ m" "m \<le> 31" using dictScan_ok [OF ok, of 0] by blast
  have le: "\<forall>d \<in> set ds. dict_ok ty d \<and> ht_size (scan_small d) \<le> 2 ^ m"
  proof
    fix d assume d: "d \<in> set ds"
    then obtain i where "i < length ds" "ds ! i = d" by (auto simp: in_set_conv_nth)
    then have "ht_size (scan_small d) \<le> ht_size (scan_small l)"
      using sorted_nth_mono [OF assms(2), of i "length ds - 1"] assms(4) by (simp add: l_def last_conv_nth)
    then show "dict_ok ty d \<and> ht_size (scan_small d) \<le> 2 ^ m" using assms(1) d m by simp
  qed
  obtain out w where run: "scan_run ds 0 = Some (out, w)" using scan_run_returns [of ds 0] assms(1) by blast
  have "2 ^ m * 2 ^ (64 - m) \<le> length ds * 2 ^ (64 - m)" using assms(3) l m(1) by (intro mult_le_mono1) auto
  then have "2 ^ 64 \<le> rank 0 + length ds * 2 ^ (64 - m)" using m(2) by (simp flip: power_add)
  then have "w = 0" using scan_run_ends [OF le _ _ _ run] m(2) by simp
  moreover have "scan_clean ds 0" using scan_clean_growing [of ds 0] assms(1,2) by simp
  ultimately show ?thesis using scan_run_complete [of ds e 0 out] assms(1,4) run by simp
qed

lemma scan_unchanged:
  assumes "dict_ok ty d" "dictSize d \<noteq> 0"
  shows "\<exists>out. scan_run (replicate (ht_size (scan_small d)) d) 0 = Some (out, 0) \<and> mset out = mset (dict_list d)"
proof -
  obtain m where m: "ht_size (scan_small d) = 2 ^ m" "m \<le> 31" using dictScan_ok [OF assms, of 0] by blast
  then show ?thesis using scan_run_exact [OF assms m(1), of 0 0 "2 ^ m"] by simp
qed

end

subsection \<open>Properties\<close>

lemma dictNextPower_code [code]:
  "dictNextPower n = (if int n \<ge> 9223372036854775807 then LONG_MAX else next_power_from DICT_HT_INITIAL_SIZE n)"
  by (simp add: dictNextPower_def LONG_MAX_def)

abbreviation int_type :: "u32 dictType" where
  "int_type \<equiv> \<lparr>hashFunction = dictIdentityHashFunction, keyCompare = (=)\<rparr>"

text \<open>A table of 4 before it grows to 8, moving, and after the move.\<close>

definition grow_before :: "(u32, string) dict" where
  "grow_before = dict_rehashing_example\<lparr>d_ht1 := dictReset, d_rehashidx := - 1\<rparr>"

definition grow_after :: "(u32, string) dict" where
  "grow_after =
     \<lparr>d_ht0 = \<lparr>ht_table = Some [[], [], [(2, ''c'')], [], [(4, ''a'')], [], [(6, ''b'')], []], ht_size = 8, ht_sizemask = 7, ht_used = 3\<rparr>,
      d_ht1 = dictReset, d_rehashidx = - 1, d_iterators = 0\<rparr>"

lemma grow_ok: "dict_ok int_type grow_before" "dict_ok int_type grow_after"
proof -
  have r: "ht_ok int_type dictReset" by (simp add: ht_ok_def dictReset_def)
  have "ht_ok int_type (d_ht0 grow_before)" using dict_rehashing_example_ok by (simp add: dict_ok_def grow_before_def)
  then show "dict_ok int_type grow_before" using r
    by (simp add: dict_ok_def) (simp add: grow_before_def dict_rehashing_example_def dict_list_def ht_chains_def uniq_def
      dictIsRehashing_def dictReset_def)
  have "ht_ok int_type (d_ht0 grow_after)"
    by (simp add: grow_after_def ht_ok_def All_less_Suc)
      (auto simp: dictHashKey_def dictIdentityHashFunction_def intro!: bexI [of _ 3])
  then show "dict_ok int_type grow_after" using r
    by (simp add: dict_ok_def) (simp add: grow_after_def dict_list_def ht_chains_def uniq_def dictIsRehashing_def dictReset_def)
qed

lemma grow_members: "(6, ''b'') \<in> set (dict_list grow_before)" "(6, ''b'') \<in> set (dict_list dict_rehashing_example)"
  "(6, ''b'') \<in> set (dict_list grow_after)"
  by code_simp+

lemma dict_type_int: "dict_type int_type"
  by unfold_locales auto



text \<open>
  On a table that does not change, moving or not, the loop ends after one call for each bucket
  of the smaller table and returns every entry exactly once.
\<close>
theorem dict_scan_unchanged:
  assumes "dict_type ty" "dict_ok ty d" "dictSize d \<noteq> 0"
  shows "\<exists>out. scan_run (replicate (ht_size (scan_small d)) d) 0 = Some (out, 0) \<and> mset out = mset (dict_list d)"
  using assms by (rule dict_type.scan_unchanged)

lemma dict_scan_unchanged_witness:
  "\<exists>out. scan_run (replicate 4 dict_rehashing_example) 0 = Some (out, 0) \<and>
     mset out = mset [(4, ''a''), (6, ''b''), (2, ''c'')]"
  using dict_scan_unchanged [OF dict_type_int dict_rehashing_example_ok]
  by (simp add: dictSize_def scan_small_def dict_rehashing_example_def dict_list_def ht_chains_def)

text \<open>Additions and deletions that leave one entry in a table of 16, and the start of the move to 4.\<close>

definition shrink_ops :: "(u32, unit) kv_op list" where
  "shrink_ops = map (\<lambda>k. KAdd k ()) [0, 1, 2, 3, 4] @ map KFind [0, 1, 2, 3, 4] @ map (\<lambda>k. KAdd k ()) [5, 6, 7, 8] @
     map KDel [0, 1, 2, 3, 5, 6, 7, 8] @ [KFind 4]"

definition shrink_from :: "(u32, unit) dict" where
  "shrink_from =
     \<lparr>d_ht0 = \<lparr>ht_table = Some [[], [], [], [], [(4, ())], [], [], [], [], [], [], [], [], [], [], []],
                ht_size = 16, ht_sizemask = 15, ht_used = 1\<rparr>,
      d_ht1 = dictReset, d_rehashidx = - 1, d_iterators = 0\<rparr>"

definition shrink_to :: "(u32, unit) dict" where
  "shrink_to = shrink_from\<lparr>d_ht1 := \<lparr>ht_table = Some [[], [], [], []], ht_size = 4, ht_sizemask = 3, ht_used = 0\<rparr>, d_rehashidx := 0\<rparr>"

lemma shrink_from_run:
  "map_option snd (kv_run (dictFetchValue int_type) (dictAdd True int_type) (dictDelete int_type) dictCreate shrink_ops) = Some shrink_from"
  by code_simp

lemma shrink_from_resize: "dictResize True shrink_from = (True, shrink_to)"
  by code_simp

lemma shrink_scans:
  "dictScan shrink_from 0 = Some ([], 8)" "dictScan shrink_to 8 = Some ([], 2)" "dictScan shrink_to 2 = Some ([], 1)"
  "dictScan shrink_to 1 = Some ([], 3)" "dictScan shrink_to 3 = Some ([], 0)"
  by code_simp+

text \<open>
  DictScan breaks its promise when the table shrinks. After nine additions, eight deletions and
  one call of the scan, dictResize starts a move from 16 buckets to 4; the remaining calls return
  nothing, although the last entry was in the table all the time: the cursor kept a bit that the
  smaller table does not have, and the loop over the larger table starts there.
\<close>
theorem dict_scan_misses:
  "\<exists>d d'. map_option snd (kv_run (dictFetchValue int_type) (dictAdd True int_type) (dictDelete int_type) dictCreate shrink_ops) = Some d \<and>
     dictResize True d = (True, d') \<and> (4, ()) \<in> set (dict_list d) \<and> (4, ()) \<in> set (dict_list d') \<and>
     scan_run [d, d', d', d', d'] 0 = Some ([], 0)"
proof (rule exI [of _ shrink_from], rule exI [of _ shrink_to], intro conjI)
  show "(4, ()) \<in> set (dict_list shrink_from)" "(4, ()) \<in> set (dict_list shrink_to)"
    by (simp_all add: shrink_to_def shrink_from_def dict_list_def ht_chains_def)
  show "scan_run [shrink_from, shrink_to, shrink_to, shrink_to, shrink_to] 0 = Some ([], 0)"
    by (simp add: shrink_scans)
qed (rule shrink_from_run shrink_from_resize)+

end
