(* ===== verification/Module.thy ===== *)
theory Module
  imports Prelude
begin

section \<open>Modules (src/module.c)\<close>

text \<open>
  A context runs the code of a module, a shared object found on a search path: templates
  separated by semicolons, in each of which a question mark stands for the name. The manager
  keeps the modules it has opened in an array of 32.

  dlopen, dlerror and dlsym are the system's: they are the parameters \<open>dlopen\<close> and \<open>dlsym\<close>, a
  handle being a number. Strings are without their terminating NUL; the buffer in which a file
  name is put together is a list of its bytes, a write outside it and the reading of a string
  without NUL are \<open>None\<close>.
\<close>

subsection \<open>The search path\<close>

definition NUL :: char where "NUL = CHR 0x00"

text \<open>Writing the string \<open>s\<close> at offset \<open>i\<close> of a buffer; reading the string a buffer holds.\<close>

definition buf_put :: "nat \<Rightarrow> string \<Rightarrow> string \<Rightarrow> string option" where
  "buf_put i s b = (if i + length s \<le> length b then Some (take i b @ s @ drop (i + length s) b) else None)"

definition c_string :: "string \<Rightarrow> string option" where
  "c_string b = (if NUL \<in> set b then Some (takeWhile (\<lambda>c. c \<noteq> NUL) b) else None)"

text \<open>
  One template: the first \<open>len\<close> bytes of \<open>path\<close>. \<open>Some None\<close> is the exit of the program for a
  template without a question mark.
\<close>

definition fill_template :: "nat \<Rightarrow> string \<Rightarrow> string \<Rightarrow> nat \<Rightarrow> string option option" where
  "fill_template sz name path len =
     (let i = length (takeWhile (\<lambda>c. c \<noteq> CHR ''?'') (take len path))
      in case Option.bind (buf_put 0 (take i path) (replicate sz NUL)) (buf_put i name) of
           None \<Rightarrow> None
         | Some tmp \<Rightarrow>
             if \<not> i < len then Some None
             else (case buf_put (i + length name) (take (len - i - 1) (drop (i + 1) path)) tmp of
                     None \<Rightarrow> None
                   | Some tmp' \<Rightarrow> map_option Some (c_string tmp')))"

datatype opened = Opened nat | NotOpened | Exits

lemma dropWhile_hd: "dropWhile P xs = y # ys \<Longrightarrow> \<not> P y"
  using hd_dropWhile [of P xs] by simp

text \<open>The loop of _tryOpen, from the rest \<open>path\<close> of the search path on.\<close>

function try_open :: "(string \<Rightarrow> nat ptr) \<Rightarrow> nat \<Rightarrow> string \<Rightarrow> string \<Rightarrow> opened option" where
  "try_open dlopen sz name path0 =
     (let path = dropWhile (\<lambda>c. c = CHR '';'') path0
      in if path = [] then Some NotOpened
         else let len = length (takeWhile (\<lambda>c. c \<noteq> CHR '';'') path)
              in case fill_template sz name path len of
                   None \<Rightarrow> None
                 | Some None \<Rightarrow> Some Exits
                 | Some (Some tmp) \<Rightarrow>
                     (case dlopen tmp of
                        Some dl \<Rightarrow> Some (Opened dl)
                      | None \<Rightarrow> try_open dlopen sz name (drop len path)))"
  by pat_completeness auto

termination
proof (relation "measure (\<lambda>(dlopen, sz, name, path). length path)", goal_cases)
  case (2 dlopen sz name path0 path len)
  obtain c cs where path: "path = c # cs" using 2(2) by (cases path) auto
  then have "dropWhile (\<lambda>c. c = CHR '';'') path0 = c # cs" using 2(1) by simp
  from dropWhile_hd [OF this] have "c \<noteq> CHR '';''" .
  then have "0 < len" using 2(3) path by simp
  moreover have "length path \<le> length path0" using 2(1) by (simp add: length_dropWhile_le)
  ultimately show ?case using path by simp
qed simp

declare try_open.simps [simp del]

definition tryOpen :: "(string \<Rightarrow> nat ptr) \<Rightarrow> string \<Rightarrow> string \<Rightarrow> opened option" where
  "tryOpen dlopen path name = try_open dlopen (length path + length name) name path"

subsection \<open>What the search is meant to do\<close>

text \<open>The templates of a path, the file names they stand for, and the first that opens.\<close>

fun split_semi :: "string \<Rightarrow> string list" where
  "split_semi [] = [[]]"
| "split_semi (c # cs) = (if c = CHR '';'' then [] # split_semi cs
     else (case split_semi cs of [] \<Rightarrow> [[c]] | t # ts \<Rightarrow> (c # t) # ts))"

definition templates :: "string \<Rightarrow> string list" where
  "templates path = filter (\<lambda>t. t \<noteq> []) (split_semi path)"

fun replace_mark :: "string \<Rightarrow> string \<Rightarrow> string" where
  "replace_mark name [] = []"
| "replace_mark name (c # cs) = (if c = CHR ''?'' then name @ cs else c # replace_mark name cs)"

fun open_first :: "(string \<Rightarrow> nat ptr) \<Rightarrow> string \<Rightarrow> string list \<Rightarrow> opened" where
  "open_first dlopen name [] = NotOpened"
| "open_first dlopen name (t # ts) =
     (if CHR ''?'' \<notin> set t then Exits
      else case dlopen (replace_mark name t) of Some dl \<Rightarrow> Opened dl | None \<Rightarrow> open_first dlopen name ts)"

lemma split_semi_head:
  "split_semi cs = takeWhile (\<lambda>c. c \<noteq> CHR '';'') cs #
     (case dropWhile (\<lambda>c. c \<noteq> CHR '';'') cs of [] \<Rightarrow> [] | _ # r \<Rightarrow> split_semi r)"
  by (induction cs) (auto split: list.splits)

lemma templates_semis: "templates (dropWhile (\<lambda>c. c = CHR '';'') path) = templates path"
  by (induction path) (auto simp: templates_def)

lemma templates_cons:
  assumes "c \<noteq> CHR '';''"
  shows "templates (c # cs) = takeWhile (\<lambda>c. c \<noteq> CHR '';'') (c # cs) # templates (dropWhile (\<lambda>c. c \<noteq> CHR '';'') cs)"
proof -
  have "templates (dropWhile (\<lambda>c. c \<noteq> CHR '';'') cs) =
      filter (\<lambda>t. t \<noteq> []) (case dropWhile (\<lambda>c. c \<noteq> CHR '';'') cs of [] \<Rightarrow> [] | _ # r \<Rightarrow> split_semi r)"
  proof (cases "dropWhile (\<lambda>c. c \<noteq> CHR '';'') cs")
    case (Cons d ds)
    then have "d = CHR '';''" using dropWhile_hd by fast
    then show ?thesis using Cons by (simp add: templates_def)
  next
    case Nil
    then show ?thesis unfolding Nil by (simp add: templates_def)
  qed
  then show ?thesis
    unfolding templates_def by (subst split_semi_head) (use assms in simp)
qed

lemma replace_mark_append:
  "CHR ''?'' \<notin> set xs \<Longrightarrow> replace_mark name (xs @ CHR ''?'' # ys) = xs @ name @ ys"
  by (induction xs) auto

text \<open>The buffer is large enough, and what is left of it ends the file name.\<close>

lemma fill_template_ok:
  assumes "NUL \<notin> set path" "NUL \<notin> set name" "len \<le> length path" "length path + length name \<le> sz"
  shows "fill_template sz name path len =
    Some (if CHR ''?'' \<in> set (take len path) then Some (replace_mark name (take len path)) else None)"
proof -
  define t where "t = take len path"
  define i where "i = length (takeWhile (\<lambda>c. c \<noteq> CHR ''?'') t)"
  have lt: "length t = len" using assms(3) by (simp add: t_def)
  have i: "i \<le> len" unfolding i_def lt [symmetric] by (rule length_takeWhile_le)
  have ti: "take i path = take i t" using i by (simp add: t_def min_def)
  have put: "Option.bind (buf_put 0 (take i path) (replicate sz NUL)) (buf_put i name) =
      Some (take i t @ name @ replicate (sz - i - length name) NUL)"
    using i lt assms(3,4) unfolding ti by (simp add: buf_put_def)
  show ?thesis
  proof (cases "i < len")
    case False
    then have "takeWhile (\<lambda>c. c \<noteq> CHR ''?'') t = t" using i i_def lt
      by (metis le_neq_implies_less takeWhile_eq_take take_all_iff order_refl)
    then have "CHR ''?'' \<notin> set t" by (metis (full_types) takeWhile_eq_all_conv)
    then show ?thesis using False put by (simp add: fill_template_def t_def [symmetric] i_def [symmetric])
  next
    case True
    have q: "t ! i = CHR ''?''" using nth_length_takeWhile [of "\<lambda>c. c \<noteq> CHR ''?''" t] True lt by (simp add: i_def)
    then have mem: "CHR ''?'' \<in> set t" using True lt by (metis nth_mem)
    have rest: "take (len - i - 1) (drop (i + 1) path) = drop (i + 1) t"
      unfolding t_def by (simp add: drop_take)
    have split: "t = take i t @ CHR ''?'' # drop (i + 1) t" using id_take_nth_drop [of i t] True lt q by simp
    have tw: "take i t = takeWhile (\<lambda>c. c \<noteq> CHR ''?'') t" unfolding i_def by (rule takeWhile_eq_take [symmetric])
    have nq: "CHR ''?'' \<notin> set (take i t)" unfolding tw by (auto dest: set_takeWhileD)
    have rm: "replace_mark name t = take i t @ name @ drop (i + 1) t"
      using replace_mark_append [OF nq, of name "drop (i + 1) t"] split by simp
    have room: "Suc (sz - length t - length name) = sz - i - length name - length (drop (i + 1) t)"
      using True lt assms(3,4) by simp
    have "buf_put (i + length name) (drop (i + 1) t) (take i t @ name @ replicate (sz - i - length name) NUL) =
        Some (replace_mark name t @ replicate (Suc (sz - length t - length name)) NUL)"
      using True lt assms(3,4) unfolding rm room by (simp add: buf_put_def)
    moreover have "set (take i t) \<subseteq> set path" "set (drop (i + 1) t) \<subseteq> set path"
      unfolding t_def by (meson set_take_subset set_drop_subset subset_trans)+
    then have "NUL \<notin> set (replace_mark name t)"
      unfolding rm using assms(1,2) by auto
    then have "c_string (replace_mark name t @ replicate (Suc k) NUL) = Some (replace_mark name t)" for k
      by (simp add: c_string_def) (subst takeWhile_append2, auto)
    ultimately show ?thesis using put rest True mem
      by (simp add: fill_template_def t_def [symmetric] i_def [symmetric])
  qed
qed

text \<open>The loop tries the templates in order.\<close>

lemma try_open_ok:
  assumes "NUL \<notin> set name"
  shows "NUL \<notin> set path \<Longrightarrow> length path + length name \<le> sz \<Longrightarrow>
    try_open dlopen sz name path = Some (open_first dlopen name (templates path))"
proof (induction "length path" arbitrary: path rule: less_induct)
  case less
  define p where "p = dropWhile (\<lambda>c. c = CHR '';'') path"
  have tp: "templates path = templates p" by (simp add: p_def templates_semis)
  show ?case
  proof (cases p)
    case Nil
    then show ?thesis unfolding tp by (subst try_open.simps) (simp add: p_def [symmetric] templates_def)
  next
    case (Cons c cs)
    then have c: "c \<noteq> CHR '';''" using dropWhile_hd [of _ path c cs] unfolding p_def by blast
    define t where "t = takeWhile (\<lambda>c. c \<noteq> CHR '';'') p"
    have len: "length p \<le> length path" "set p \<subseteq> set path"
      unfolding p_def by (rule length_dropWhile_le, meson set_dropWhileD subsetI)
    have tk: "take (length t) p = t" unfolding t_def by (rule takeWhile_eq_take [symmetric])
    have dr: "drop (length t) p = dropWhile (\<lambda>c. c \<noteq> CHR '';'') p" unfolding t_def by (rule dropWhile_eq_drop [symmetric])
    have dc: "dropWhile (\<lambda>c. c \<noteq> CHR '';'') p = dropWhile (\<lambda>c. c \<noteq> CHR '';'') cs" using Cons c by simp
    have ts: "templates p = t # templates (drop (length t) p)"
      unfolding dr dc unfolding t_def Cons by (rule templates_cons [OF c])
    have lt: "length t \<le> length p" unfolding t_def by (rule length_takeWhile_le)
    have pne: "p \<noteq> []" using Cons by simp
    have np: "NUL \<notin> set p" using less.prems(1) len(2) by blast
    have fill: "fill_template sz name p (length t) = Some (if CHR ''?'' \<in> set t then Some (replace_mark name t) else None)"
      using fill_template_ok [of p name "length t" sz] assms less.prems(2) len(1) lt np unfolding tk by simp
    have "length (drop (length t) p) < length path" using len(1) Cons c lt by (simp add: t_def)
    moreover have "NUL \<notin> set (drop (length t) p)" using less.prems(1) len(2) by (auto dest: in_set_dropD)
    ultimately have IH: "try_open dlopen sz name (drop (length t) p) = Some (open_first dlopen name (templates (drop (length t) p)))"
      using less.hyps less.prems(2) by (meson le_trans add_le_mono1 less_imp_le)
    show ?thesis unfolding tp ts
      by (subst try_open.simps) (use pne fill IH in \<open>simp add: p_def [symmetric] t_def [symmetric] Let_def split: option.splits\<close>)
  qed
qed

subsection \<open>The manager\<close>

text \<open>
  A module's name, its handle, and the functions found in it by name; create and release may be
  missing. A slot of the array above \<open>count\<close> holds what an attempt has left there.
\<close>

record module =
  m_name :: string
  m_module :: "nat ptr"
  m_create :: "nat ptr"
  m_init :: "nat ptr"
  m_release :: "nat ptr"

record modules =
  md_count :: nat
  md_lock :: nat
  md_path :: string
  md_m :: "module list"

definition MAX_MODULE_TYPE :: nat where "MAX_MODULE_TYPE = 32"

text \<open>\<open>ms\<close> are the 32 slots as they come from zmalloc.\<close>

definition moduleInit :: "module list \<Rightarrow> string \<Rightarrow> modules" where
  "moduleInit ms path = \<lparr>md_count = 0, md_lock = 0, md_path = path, md_m = ms\<rparr>"

text \<open>The index of the module called \<open>name\<close>, from \<open>i\<close> on.\<close>

function query_from :: "module list \<Rightarrow> nat \<Rightarrow> string \<Rightarrow> nat \<Rightarrow> nat ptr" where
  "query_from ms count name i =
     (if i \<ge> count then None
      else if m_name (ms ! i) = name then Some i
      else query_from ms count name (Suc i))"
  by pat_completeness auto
termination by (relation "measure (\<lambda>(ms, count, name, i). count - i)") auto

declare query_from.simps [simp del]

definition query_module :: "modules \<Rightarrow> string \<Rightarrow> nat ptr" where
  "query_module M name = query_from (md_m M) (md_count M) name 0"

text \<open>The result is whether init is missing.\<close>

definition openSym :: "(nat \<Rightarrow> string \<Rightarrow> nat ptr) \<Rightarrow> module \<Rightarrow> bool \<times> module" where
  "openSym dlsym md =
     (let sym = (\<lambda>s. Option.bind (m_module md) (\<lambda>dl. dlsym dl (m_name md @ s)));
          md' = md\<lparr>m_create := sym ''Create'', m_init := sym ''Init'', m_release := sym ''Release''\<rparr>
      in (m_init md' = None, md'))"

datatype queried = Module nat | NoModule | ProgramExit

text \<open>
  The query repeats the search once it has the lock. \<open>Module i\<close> is the pointer to slot \<open>i\<close>;
  \<open>ProgramExit\<close> the exit in _tryOpen, with the lock held.
\<close>

definition moduleQuery ::
    "(string \<Rightarrow> nat ptr) \<Rightarrow> (nat \<Rightarrow> string \<Rightarrow> nat ptr) \<Rightarrow> modules \<Rightarrow> string \<Rightarrow> (queried \<times> modules) option" where
  "moduleQuery dlopen dlsym M name =
     (case query_module M name of
        Some i \<Rightarrow> Some (Module i, M)
      | None \<Rightarrow>
          if md_count M < MAX_MODULE_TYPE
          then (case tryOpen dlopen (md_path M) name of
                  None \<Rightarrow> None
                | Some NotOpened \<Rightarrow> Some (NoModule, M)
                | Some Exits \<Rightarrow> Some (ProgramExit, M\<lparr>md_lock := 1\<rparr>)
                | Some (Opened dl) \<Rightarrow>
                    let index = md_count M;
                        r = openSym dlsym ((md_m M ! index)\<lparr>m_name := name, m_module := Some dl\<rparr>);
                        M1 = M\<lparr>md_m := (md_m M)[index := snd r]\<rparr>
                    in if fst r then Some (NoModule, M1)
                       else Some (Module index, M1\<lparr>md_count := Suc index\<rparr>))
          else Some (NoModule, M))"

definition moduleInsert :: "modules \<Rightarrow> module \<Rightarrow> modules option" where
  "moduleInsert M md =
     (if query_module M (m_name md) = None \<and> md_count M < MAX_MODULE_TYPE
      then Some (M\<lparr>md_m := (md_m M)[md_count M := md], md_count := Suc (md_count M)\<rparr>)
      else None)"

text \<open>\<open>run\<close> calls the function at an address; the pointer with all bits set is \<open>Some (2 ^ 64 - 1)\<close>.\<close>

definition moduleInstanceCreate :: "(nat \<Rightarrow> nat ptr) \<Rightarrow> module \<Rightarrow> nat ptr" where
  "moduleInstanceCreate run md = (case m_create md of Some f \<Rightarrow> run f | None \<Rightarrow> Some (2 ^ 64 - 1))"

text \<open>A call through a missing init is \<open>None\<close>.\<close>

definition moduleInstanceInit :: "(nat \<Rightarrow> nat ptr \<Rightarrow> nat ptr \<Rightarrow> 's \<Rightarrow> int \<times> 's) \<Rightarrow> module \<Rightarrow> nat ptr \<Rightarrow> nat ptr \<Rightarrow> 's \<Rightarrow> (int \<times> 's) option" where
  "moduleInstanceInit run md inst ctx s = map_option (\<lambda>f. run f inst ctx s) (m_init md)"

definition moduleInstanceRelease :: "(nat \<Rightarrow> nat ptr \<Rightarrow> 's \<Rightarrow> 's) \<Rightarrow> module \<Rightarrow> nat ptr \<Rightarrow> 's \<Rightarrow> 's" where
  "moduleInstanceRelease run md inst s = (case m_release md of Some f \<Rightarrow> run f inst s | None \<Rightarrow> s)"

text \<open>moduleUninit closes the modules in order: the handles given to dlclose.\<close>

definition moduleUninit :: "modules \<Rightarrow> nat list" where
  "moduleUninit M = concat (map (\<lambda>md. case m_module md of None \<Rightarrow> [] | Some dl \<Rightarrow> [dl]) (take (md_count M) (md_m M)))"

subsection \<open>The invariant\<close>

text \<open>The modules in use: their names differ and each can be initialised.\<close>

definition md_used :: "modules \<Rightarrow> module list" where
  "md_used M = take (md_count M) (md_m M)"

definition md_inv :: "modules \<Rightarrow> bool" where
  "md_inv M \<longleftrightarrow> length (md_m M) = MAX_MODULE_TYPE \<and> md_count M \<le> MAX_MODULE_TYPE \<and> md_lock M = 0 \<and>
     distinct (map m_name (md_used M)) \<and> (\<forall>md \<in> set (md_used M). m_init md \<noteq> None)"

lemma md_used_simps:
  assumes "md_inv M"
  shows "length (md_used M) = md_count M" "i < md_count M \<Longrightarrow> md_used M ! i = md_m M ! i"
  using assms by (simp_all add: md_inv_def md_used_def)

lemma query_from_ok:
  "case query_from ms count name i of
     None \<Rightarrow> \<forall>j. i \<le> j \<and> j < count \<longrightarrow> m_name (ms ! j) \<noteq> name
   | Some k \<Rightarrow> i \<le> k \<and> k < count \<and> m_name (ms ! k) = name"
proof (induction ms count name i rule: query_from.induct)
  case (1 ms count name i)
  consider "i \<ge> count" | "i < count" "m_name (ms ! i) = name" | "i < count" "m_name (ms ! i) \<noteq> name" by linarith
  then show ?case
  proof cases
    case 1
    then have "query_from ms count name i = None" by (subst query_from.simps) simp
    then show ?thesis using 1 by auto
  next
    case 2
    then have "query_from ms count name i = Some i" by (subst query_from.simps) simp
    then show ?thesis using 2 by simp
  next
    case 3
    then have "query_from ms count name i = query_from ms count name (Suc i)" by (subst query_from.simps) simp
    moreover have "m_name (ms ! j) \<noteq> name" if "\<forall>j. Suc i \<le> j \<and> j < count \<longrightarrow> m_name (ms ! j) \<noteq> name" "i \<le> j" "j < count" for j
      using 3 that by (cases "j = i") auto
    ultimately show ?thesis using "1.IH" 3 by (auto split: option.splits)
  qed
qed

lemma query_module_None: "query_module M name = None \<longleftrightarrow> (\<forall>k < md_count M. m_name (md_m M ! k) \<noteq> name)"
  using query_from_ok [where ms = "md_m M" and count = "md_count M" and name = name and i = 0] by (auto simp: query_module_def split: option.splits)

lemma query_module_Some:
  assumes inv: "md_inv M"
  shows "query_module M name = Some k \<longleftrightarrow> k < md_count M \<and> m_name (md_m M ! k) = name"
proof -
  have inj: "j = k" if "k < md_count M" "j < md_count M" "m_name (md_m M ! j) = m_name (md_m M ! k)" for j k
    using inv that nth_eq_iff_index_eq [of "map m_name (md_used M)" j k] md_used_simps [OF inv]
    by (simp add: md_inv_def)
  show ?thesis
  proof
    assume "query_module M name = Some k"
    then show "k < md_count M \<and> m_name (md_m M ! k) = name"
      using query_from_ok [where ms = "md_m M" and count = "md_count M" and name = name and i = 0] by (simp add: query_module_def)
  next
    assume k: "k < md_count M \<and> m_name (md_m M ! k) = name"
    then obtain j where "query_module M name = Some j" using query_module_None by fastforce
    then show "query_module M name = Some k"
      using query_from_ok [where ms = "md_m M" and count = "md_count M" and name = name and i = 0] k inj [of k j] by (simp add: query_module_def)
  qed
qed

lemma md_inv_insert:
  assumes "md_inv M" "query_module M (m_name md) = None" "md_count M < MAX_MODULE_TYPE" "m_init md \<noteq> None"
  shows "md_inv (M\<lparr>md_m := (md_m M)[md_count M := md], md_count := Suc (md_count M)\<rparr>)"
proof -
  have u: "md_used (M\<lparr>md_m := (md_m M)[md_count M := md], md_count := Suc (md_count M)\<rparr>) = md_used M @ [md]"
    using assms(1,3) by (simp add: md_used_def md_inv_def take_Suc_conv_app_nth)
  have "m_name md \<notin> m_name ` set (md_used M)"
  proof
    assume "m_name md \<in> m_name ` set (md_used M)"
    then obtain k where "k < md_count M" "m_name (md_m M ! k) = m_name md"
      using md_used_simps [OF assms(1)] by (auto simp: in_set_conv_nth)
    then show False using assms(2) by (auto simp: query_module_None)
  qed
  then show ?thesis using assms unfolding md_inv_def u by auto
qed

lemma md_inv_scribble:
  assumes "md_inv M" "md_count M < MAX_MODULE_TYPE"
  shows "md_inv (M\<lparr>md_m := (md_m M)[md_count M := md]\<rparr>)" "md_used (M\<lparr>md_m := (md_m M)[md_count M := md]\<rparr>) = md_used M"
  using assms by (simp_all add: md_inv_def md_used_def)

lemma moduleQuery_found: "query_module M name = Some i \<Longrightarrow> moduleQuery dlopen dlsym M name = Some (Module i, M)"
  by (simp add: moduleQuery_def)

lemma open_first_marks: "\<forall>t \<in> set ts. CHR ''?'' \<in> set t \<Longrightarrow> open_first dlopen name ts \<noteq> Exits"
  by (induction ts) (auto split: option.splits)

lemma moduleQuery_new:
  assumes inv: "md_inv M" and new: "query_module M name = None" and room: "md_count M < MAX_MODULE_TYPE"
    and dl: "tryOpen dlopen (md_path M) name = Some (Opened dl)"
  obtains M' where "md_inv M'" "\<forall>k < md_count M. md_m M' ! k = md_m M ! k"
    "moduleQuery dlopen dlsym M name = Some (Module (md_count M), M') \<and> md_count M' = Suc (md_count M) \<and>
       m_name (md_m M' ! md_count M) = name \<or>
     moduleQuery dlopen dlsym M name = Some (NoModule, M') \<and> md_used M' = md_used M"
proof -
  define md where "md = snd (openSym dlsym ((md_m M ! md_count M)\<lparr>m_name := name, m_module := Some dl\<rparr>))"
  define bad where "bad = fst (openSym dlsym ((md_m M ! md_count M)\<lparr>m_name := name, m_module := Some dl\<rparr>))"
  have md: "m_name md = name" "bad = (m_init md = None)" by (simp_all add: md_def bad_def openSym_def Let_def)
  have len: "md_count M < length (md_m M)" using inv room by (simp add: md_inv_def)
  show ?thesis
  proof (cases bad)
    case True
    then have "moduleQuery dlopen dlsym M name = Some (NoModule, M\<lparr>md_m := (md_m M)[md_count M := md]\<rparr>)"
      using new room dl by (simp add: moduleQuery_def md_def bad_def Let_def)
    then show ?thesis using md_inv_scribble [OF inv room, of md] that [of "M\<lparr>md_m := (md_m M)[md_count M := md]\<rparr>"] by simp
  next
    case False
    let ?M = "M\<lparr>md_m := (md_m M)[md_count M := md], md_count := Suc (md_count M)\<rparr>"
    have "moduleQuery dlopen dlsym M name = Some (Module (md_count M), ?M)"
      using False new room dl by (simp add: moduleQuery_def md_def bad_def Let_def)
    moreover have "md_inv ?M" by (rule md_inv_insert [OF inv _ room]) (use new md False in simp_all)
    ultimately show ?thesis using that [of ?M] len md by simp
  qed
qed

subsection \<open>Properties\<close>

text \<open>
  C22: _tryOpen is the search it is meant to be. On any search path it returns what opening the
  file names of the path's templates in their order gives, empty templates being skipped, and
  exits at a template without a question mark; it never writes outside its buffer, and every file
  name it hands to dlopen is terminated.
\<close>
theorem module_path_search:
  assumes "NUL \<notin> set path" "NUL \<notin> set name"
  shows "tryOpen dlopen path name = Some (open_first dlopen name (templates path))"
  using try_open_ok [OF assms(2,1)] by (simp add: tryOpen_def)

lemma module_path_search_witness:
  "tryOpen (\<lambda>f. if f = ''./cservice/zlua.so'' then Some 7 else None) '';/opt/z/lib?.so;;./cservice/?.so;'' ''zlua'' = Some (Opened 7)"
proof -
  have "open_first (\<lambda>f. if f = ''./cservice/zlua.so'' then Some 7 else None) ''zlua''
      (templates '';/opt/z/lib?.so;;./cservice/?.so;'') = Opened 7"
    by (simp add: templates_def)
  then show ?thesis
    using module_path_search [of "'';/opt/z/lib?.so;;./cservice/?.so;''" "''zlua''" "\<lambda>f. if f = ''./cservice/zlua.so'' then Some 7 else None"]
    by (simp add: NUL_def)
qed

text \<open>
  C19: a module is opened once. On a path whose templates all have a question mark, moduleQuery
  returns; it keeps the table well formed and the modules already in it where they are; the module
  it returns has the name asked for and is what every later query for the name returns, whatever
  the file system holds by then; and when it returns NULL the modules in use are the same.
\<close>
theorem module_query:
  assumes "md_inv M" "NUL \<notin> set (md_path M)" "NUL \<notin> set name" "\<forall>t \<in> set (templates (md_path M)). CHR ''?'' \<in> set t"
  shows "\<exists>r M'. moduleQuery dlopen dlsym M name = Some (r, M') \<and> md_inv M' \<and> (\<forall>k < md_count M. md_m M' ! k = md_m M ! k) \<and>
    (case r of
       Module i \<Rightarrow> i < md_count M' \<and> m_name (md_m M' ! i) = name \<and>
         (\<forall>dlopen' dlsym'. moduleQuery dlopen' dlsym' M' name = Some (Module i, M'))
     | NoModule \<Rightarrow> md_used M' = md_used M
     | ProgramExit \<Rightarrow> False)"
proof (cases "query_module M name")
  case (Some i)
  then show ?thesis using moduleQuery_found [OF Some] assms(1) query_module_Some [OF assms(1), of name i] by auto
next
  case None
  show ?thesis
  proof (cases "md_count M < MAX_MODULE_TYPE \<and> (\<exists>dl. tryOpen dlopen (md_path M) name = Some (Opened dl))")
    case True
    then obtain dl where dl: "md_count M < MAX_MODULE_TYPE" "tryOpen dlopen (md_path M) name = Some (Opened dl)" by blast
    obtain M' where M': "md_inv M'" "\<forall>k < md_count M. md_m M' ! k = md_m M ! k"
      "moduleQuery dlopen dlsym M name = Some (Module (md_count M), M') \<and> md_count M' = Suc (md_count M) \<and>
         m_name (md_m M' ! md_count M) = name \<or>
       moduleQuery dlopen dlsym M name = Some (NoModule, M') \<and> md_used M' = md_used M"
      by (rule moduleQuery_new [OF assms(1) None dl])
    from M'(3) show ?thesis
    proof (elim disjE conjE)
      assume a: "moduleQuery dlopen dlsym M name = Some (Module (md_count M), M')" "md_count M' = Suc (md_count M)"
        "m_name (md_m M' ! md_count M) = name"
      then have "query_module M' name = Some (md_count M)" using query_module_Some [OF M'(1)] by simp
      from moduleQuery_found [OF this] show ?thesis using a M'(1,2) by simp
    next
      assume "moduleQuery dlopen dlsym M name = Some (NoModule, M')" "md_used M' = md_used M"
      then show ?thesis using M'(1,2) by simp
    qed
  next
    case False
    then have "moduleQuery dlopen dlsym M name = Some (NoModule, M)"
      using None try_open_ok [OF assms(3,2), of "length (md_path M) + length name" dlopen]
        open_first_marks [OF assms(4), of dlopen name]
      by (cases "open_first dlopen name (templates (md_path M))") (auto simp: moduleQuery_def tryOpen_def)
    then show ?thesis using assms(1) by simp
  qed
qed

text \<open>An empty table with the default search path.\<close>

definition modules_example :: modules where
  "modules_example =
     moduleInit (replicate 32 \<lparr>m_name = [], m_module = None, m_create = None, m_init = None, m_release = None\<rparr>) ''./cservice/?.so;''"

lemma module_query_witness:
  "\<exists>M'. moduleQuery (\<lambda>f. Some 7) (\<lambda>dl s. if s = ''zluaInit'' then Some 9 else None) modules_example ''zlua'' = Some (Module 0, M') \<and>
    md_inv M' \<and> (\<forall>dlopen' dlsym'. moduleQuery dlopen' dlsym' M' ''zlua'' = Some (Module 0, M'))"
proof -
  have inv: "md_inv modules_example"
    by (simp add: modules_example_def moduleInit_def md_inv_def md_used_def MAX_MODULE_TYPE_def)
  have path: "NUL \<notin> set (md_path modules_example)" "\<forall>t \<in> set (templates (md_path modules_example)). CHR ''?'' \<in> set t"
    by (simp_all add: modules_example_def moduleInit_def NUL_def templates_def)
  have "\<exists>M'. moduleQuery (\<lambda>f. Some 7) (\<lambda>dl s. if s = ''zluaInit'' then Some 9 else None) modules_example ''zlua'' = Some (Module 0, M')"
    by (simp add: moduleQuery_def query_module_def query_from.simps tryOpen_def try_open.simps fill_template_def buf_put_def c_string_def
      modules_example_def moduleInit_def MAX_MODULE_TYPE_def NUL_def openSym_def numeral_eq_Suc Let_def)
  then obtain M' where M': "moduleQuery (\<lambda>f. Some 7) (\<lambda>dl s. if s = ''zluaInit'' then Some 9 else None) modules_example ''zlua'' = Some (Module 0, M')" ..
  then show ?thesis
    using module_query [OF inv path(1) _ path(2), of "''zlua''" "\<lambda>f. Some 7" "\<lambda>dl s. if s = ''zluaInit'' then Some 9 else None"]
    by (auto simp: NUL_def)
qed

end
