(* ===== verification/NameMgr.thy ===== *)
theory NameMgr
  imports Context Dict
begin

section \<open>Names of contexts (src/name_mgr.c)\<close>

text \<open>
  The name manager is a hash table from names to ids. Its keys and values are strings and
  structs on the heap of the process; here a key is the string and a value the struct \<open>name2id\<close>.
  The operations also read and write the contexts the names stand for, so their state is the
  table with the context manager and the heap of contexts. Each holds the lock of the table
  while it uses it; the operations are modelled one at a time.

  The table is used through the interface \<open>kv_store\<close>, interpreted on dict.c in the theory Dict.
\<close>

subsection \<open>Operations\<close>

definition dictHashFunction_name :: "string \<Rightarrow> u32" where
  "dictHashFunction_name key = dictGenHashFunction dict_hash_function_seed (map of_char key)"

text \<open>strcmp gives 0 on equal strings.\<close>

definition nameDictType :: "string dictType" where
  "nameDictType = \<lparr>hashFunction = dictHashFunction_name, keyCompare = (=)\<rparr>"

record name2id =
  n2_name :: string
  n2_id :: u32

record nameMgr =
  nm_dict :: "(string, name2id) dict"
  nm_mgr :: ctxMgr
  nm_heap :: heap

definition nameMgrInit :: "ctxMgr \<Rightarrow> heap \<Rightarrow> nameMgr" where
  "nameMgrInit m h = \<lparr>nm_dict = dictCreate, nm_mgr = m, nm_heap = h\<rparr>"

text \<open>\<open>snprintf(ctx->name, 32, "%s", name)\<close>\<close>

definition set_name :: "heap \<Rightarrow> nat \<Rightarrow> string \<Rightarrow> heap option" where
  "set_name h a name = (case h a of None \<Rightarrow> None | Some c \<Rightarrow> Some (h(a \<mapsto> c\<lparr>ctx_name := snprintf 32 name\<rparr>)))"

text \<open>The growth setting of dict.c is on from the start and nothing turns it off.\<close>

definition nameMgrRegist :: "nameMgr \<Rightarrow> string \<Rightarrow> u32 \<Rightarrow> (int \<times> nameMgr) option" where
  "nameMgrRegist s name i =
     (case ctxMgrGetContext (nm_mgr s) (nm_heap s) i of
        None \<Rightarrow> None
      | Some (None, h1) \<Rightarrow> Some (-2, s\<lparr>nm_heap := h1\<rparr>)
      | Some (Some ctx, h1) \<Rightarrow>
          (case set_name h1 ctx name of
             None \<Rightarrow> None
           | Some h2 \<Rightarrow>
               (case dictAdd True nameDictType (nm_dict s) name \<lparr>n2_name = name, n2_id = i\<rparr> of
                  None \<Rightarrow> None
                | Some (added, d) \<Rightarrow>
                    (case ctxMgrReleaseContext (nm_mgr s) h2 ctx of
                       None \<Rightarrow> None
                     | Some (m, h3) \<Rightarrow> Some (if added then 0 else -1, \<lparr>nm_dict = d, nm_mgr = m, nm_heap = h3\<rparr>)))))"

definition nameMgrGetId :: "nameMgr \<Rightarrow> string \<Rightarrow> (u32 \<times> nameMgr) option" where
  "nameMgrGetId s name =
     map_option (\<lambda>(v, d). (case v of Some n \<Rightarrow> n2_id n | None \<Rightarrow> 0, s\<lparr>nm_dict := d\<rparr>))
       (dictFetchValue nameDictType (nm_dict s) name)"

text \<open>The id is an int: at most 0 means unknown. \<open>dictDelete\<close> gives 0 (DICT_OK) or 1.\<close>

definition nameMgrUnRegist :: "nameMgr \<Rightarrow> string \<Rightarrow> (int \<times> nameMgr) option" where
  "nameMgrUnRegist s0 name =
     (case nameMgrGetId s0 name of
        None \<Rightarrow> None
      | Some (i, s) \<Rightarrow>
          if sint i \<le> 0 then Some (-1, s)
          else (case dictDelete nameDictType (nm_dict s) name of
                  None \<Rightarrow> None
                | Some (False, d) \<Rightarrow> Some (1, s\<lparr>nm_dict := d\<rparr>)
                | Some (True, d) \<Rightarrow>
                    (case ctxMgrGetContext (nm_mgr s) (nm_heap s) i of
                       None \<Rightarrow> None
                     | Some (None, h) \<Rightarrow> Some (0, s\<lparr>nm_dict := d, nm_heap := h\<rparr>)
                     | Some (Some ctx, h) \<Rightarrow>
                         (case h ctx of
                            None \<Rightarrow> None
                          | Some c \<Rightarrow>
                              map_option (\<lambda>h'. (0, s\<lparr>nm_dict := d, nm_heap := h'\<rparr>))
                                (set_name h ctx (''c_'' @ dec_int (sint (ctx_id c))))))))"

subsection \<open>The table of names\<close>

lemma dict_keys_name: "dict_keys nameDictType"
  by unfold_locales (auto simp: nameDictType_def)

interpretation names: dict_keys nameDictType
  by (rule dict_keys_name)

text \<open>The map from names to ids the manager stands for, and its invariant.\<close>

definition name_ids :: "nameMgr \<Rightarrow> string \<rightharpoonup> u32" where
  "name_ids s name = map_option n2_id (dict_view nameDictType (nm_dict s) name)"

definition nm_inv :: "nameMgr \<Rightarrow> bool" where
  "nm_inv s \<longleftrightarrow> dict_ok nameDictType (nm_dict s) \<and> cm_inv (nm_heap s) (nm_mgr s) \<and>
     (\<forall>a c. nm_heap s a = Some c \<longrightarrow> 1 \<le> unat (ctx_ref c))"

lemma name_add:
  assumes "dict_ok nameDictType d" "dictSize d < 2 ^ 30"
  obtains d' where "dictAdd True nameDictType d name v = Some (dict_view nameDictType d name = None, d')"
    "dict_ok nameDictType d'"
    "dict_view nameDictType d' = (if dict_view nameDictType d name = None then (dict_view nameDictType d)(name \<mapsto> v)
       else dict_view nameDictType d)"
    "dictSize d' \<le> dictSize d + 1"
  using names.add_law [OF assms, of True name v] by blast

lemma name_get:
  assumes "dict_ok nameDictType d"
  obtains d' where "dictFetchValue nameDictType d name = Some (dict_view nameDictType d name, d')"
    "dict_ok nameDictType d'" "dict_view nameDictType d' = dict_view nameDictType d"
  using names.fetch_law [OF assms, of name] by blast

lemma name_del:
  assumes "dict_ok nameDictType d"
  obtains d' where "dictDelete nameDictType d name = Some (dict_view nameDictType d name \<noteq> None, d')"
    "dict_ok nameDictType d'" "dict_view nameDictType d' = (dict_view nameDictType d)(name := None)"
  using names.delete_law [OF assms, of name] by blast

lemma name_then_release:
  assumes "h a = Some c" "1 \<le> unat (ctx_ref c)"
  shows "set_name (h(a \<mapsto> c\<lparr>ctx_ref := ctx_ref c + 1\<rparr>)) a name = Some (h(a \<mapsto> c\<lparr>ctx_ref := ctx_ref c + 1, ctx_name := snprintf 32 name\<rparr>))"
    "ctxMgrReleaseContext m (h(a \<mapsto> c\<lparr>ctx_ref := ctx_ref c + 1, ctx_name := snprintf 32 name\<rparr>)) a =
      Some (m, h(a \<mapsto> c\<lparr>ctx_name := snprintf 32 name\<rparr>))"
proof -
  have "ctx_ref c \<noteq> 0" using assms(2) by auto
  then show "ctxMgrReleaseContext m (h(a \<mapsto> c\<lparr>ctx_ref := ctx_ref c + 1, ctx_name := snprintf 32 name\<rparr>)) a =
      Some (m, h(a \<mapsto> c\<lparr>ctx_name := snprintf 32 name\<rparr>))"
    by (cases c) (simp add: ctxMgrReleaseContext_def contextRelease_def)
qed (simp add: set_name_def)

lemma name_ids_eq: "name_ids s name = None \<longleftrightarrow> dict_view nameDictType (nm_dict s) name = None"
  by (simp add: name_ids_def)

lemma nameMgrRegist_ok:
  assumes inv: "nm_inv s" and room: "dictSize (nm_dict s) < 2 ^ 30"
  shows "\<exists>r s'. nameMgrRegist s name i = Some (r, s') \<and> nm_inv s' \<and> nm_mgr s' = nm_mgr s \<and>
    dictSize (nm_dict s') \<le> dictSize (nm_dict s) + 1 \<and>
    (case ctxMgrLookup (nm_mgr s) i of
       None \<Rightarrow> r = -2 \<and> s' = s
     | Some a \<Rightarrow> r = (if name_ids s name = None then 0 else -1) \<and>
         name_ids s' = (if name_ids s name = None then (name_ids s)(name \<mapsto> i) else name_ids s) \<and>
         nm_heap s' = (nm_heap s)(a \<mapsto> (the (nm_heap s a))\<lparr>ctx_name := snprintf 32 name\<rparr>))"
proof (cases "ctxMgrLookup (nm_mgr s) i")
  case None
  then show ?thesis using inv by (simp add: nameMgrRegist_def ctxMgrGetContext_def contextRetain_def Let_def)
next
  case (Some a)
  have cm: "cm_inv (nm_heap s) (nm_mgr s)" and d: "dict_ok nameDictType (nm_dict s)" using inv by (simp_all add: nm_inv_def)
  obtain c where c: "nm_heap s a = Some c" using lookup_regs(2) [OF cm Some] by blast
  have ref: "1 \<le> unat (ctx_ref c)" using inv c by (simp add: nm_inv_def)
  obtain d' where d': "dictAdd True nameDictType (nm_dict s) name \<lparr>n2_name = name, n2_id = i\<rparr> =
      Some (dict_view nameDictType (nm_dict s) name = None, d')" "dict_ok nameDictType d'"
    "dict_view nameDictType d' = (if dict_view nameDictType (nm_dict s) name = None
       then (dict_view nameDictType (nm_dict s))(name \<mapsto> \<lparr>n2_name = name, n2_id = i\<rparr>) else dict_view nameDictType (nm_dict s))"
    "dictSize d' \<le> dictSize (nm_dict s) + 1"
    using name_add [OF d room, of name "\<lparr>n2_name = name, n2_id = i\<rparr>"] by metis
  define s' where "s' = \<lparr>nm_dict = d', nm_mgr = nm_mgr s, nm_heap = (nm_heap s)(a \<mapsto> c\<lparr>ctx_name := snprintf 32 name\<rparr>)\<rparr>"
  have "nameMgrRegist s name i = Some (if dict_view nameDictType (nm_dict s) name = None then 0 else -1, s')"
    using Some c name_then_release [of "nm_heap s" a c, OF c ref] d'(1)
    by (simp add: nameMgrRegist_def ctxMgrGetContext_def contextRetain_def s'_def Let_def)
  moreover have "nm_inv s'"
    using inv d'(2) cm_inv_cong [OF cm, of "nm_heap s'"] c by (auto simp: nm_inv_def s'_def)
  moreover have "name_ids s' = (if name_ids s name = None then (name_ids s)(name \<mapsto> i) else name_ids s)"
    unfolding name_ids_eq by (rule ext) (simp add: name_ids_def s'_def d'(3))
  ultimately show ?thesis using Some c d'(4) by (simp add: name_ids_eq s'_def)
qed

lemma nameMgrGetId_ok:
  assumes "nm_inv s"
  shows "\<exists>s'. nameMgrGetId s name = Some (case name_ids s name of Some i \<Rightarrow> i | None \<Rightarrow> 0, s') \<and> nm_inv s' \<and>
    name_ids s' = name_ids s \<and> nm_mgr s' = nm_mgr s \<and> nm_heap s' = nm_heap s"
proof -
  obtain d' where d': "dictFetchValue nameDictType (nm_dict s) name = Some (dict_view nameDictType (nm_dict s) name, d')"
    "dict_ok nameDictType d'" "dict_view nameDictType d' = dict_view nameDictType (nm_dict s)"
    using name_get [of "nm_dict s" name] assms by (auto simp: nm_inv_def)
  then show ?thesis using assms
    by (intro exI [of _ "s\<lparr>nm_dict := d'\<rparr>"])
      (auto simp: nameMgrGetId_def name_ids_def nm_inv_def fun_eq_iff split: option.splits)
qed

lemma nameMgrUnRegist_ok:
  assumes inv: "nm_inv s" and name: "name_ids s name = Some i" "0 < sint i"
    and ctx: "ctxMgrLookup (nm_mgr s) i = Some a" "nm_heap s a = Some c"
  shows "\<exists>s'. nameMgrUnRegist s name = Some (0, s') \<and> name_ids s' = (name_ids s)(name := None) \<and> nm_mgr s' = nm_mgr s \<and>
    dict_ok nameDictType (nm_dict s') \<and>
    nm_heap s' = (nm_heap s)(a \<mapsto> c\<lparr>ctx_ref := ctx_ref c + 1, ctx_name := snprintf 32 (''c_'' @ dec_int (sint (ctx_id c)))\<rparr>)"
proof -
  obtain s1 where s1: "nameMgrGetId s name = Some (i, s1)" "nm_inv s1" "name_ids s1 = name_ids s" "nm_mgr s1 = nm_mgr s"
    "nm_heap s1 = nm_heap s" using nameMgrGetId_ok [OF inv, of name] name(1) by auto
  obtain d' where d': "dictDelete nameDictType (nm_dict s1) name = Some (dict_view nameDictType (nm_dict s1) name \<noteq> None, d')"
    "dict_ok nameDictType d'" "dict_view nameDictType d' = (dict_view nameDictType (nm_dict s1))(name := None)"
    using name_del [of "nm_dict s1" name] s1(2) by (auto simp: nm_inv_def)
  have "dict_view nameDictType (nm_dict s1) name \<noteq> None" using name(1) s1(3) name_ids_eq [of s1 name] by simp
  then have del: "dictDelete nameDictType (nm_dict s1) name = Some (True, d')" using d'(1) by simp
  define s' where "s' = s1\<lparr>nm_dict := d', nm_heap := (nm_heap s)(a \<mapsto>
    c\<lparr>ctx_ref := ctx_ref c + 1, ctx_name := snprintf 32 (''c_'' @ dec_int (sint (ctx_id c)))\<rparr>)\<rparr>"
  have "nameMgrUnRegist s name = Some (0, s')"
    using s1(1,4,5) del name(2) ctx
    by (simp add: nameMgrUnRegist_def ctxMgrGetContext_def contextRetain_def set_name_def s'_def Let_def)
  moreover have "name_ids s' = (name_ids s)(name := None)"
    unfolding s1(3) [symmetric] by (rule ext) (simp add: name_ids_def s'_def d'(3))
  ultimately show ?thesis using d'(2) s1(4) by (simp add: s'_def)
qed

subsection \<open>Properties\<close>

text \<open>
  C16: names resolve. Registering a free name for the id of a registered context succeeds, keeps
  everything well formed and leaves the other names alone; the id the name then stands for leads
  the context manager to that context.
\<close>
theorem name_resolves:
  assumes "nm_inv s" "dictSize (nm_dict s) < 2 ^ 30" "a \<in> cm_regs (nm_mgr s)" "nm_heap s a = Some c" "name_ids s name = None"
  shows "\<exists>s1 s2. nameMgrRegist s name (ctx_id c) = Some (0, s1) \<and> nameMgrGetId s1 name = Some (ctx_id c, s2) \<and>
    ctxMgrLookup (nm_mgr s2) (ctx_id c) = Some a \<and> nm_inv s2 \<and> name_ids s2 = (name_ids s)(name \<mapsto> ctx_id c)"
proof -
  have look: "ctxMgrLookup (nm_mgr s) (ctx_id c) = Some a"
    using cm_lookup [of "nm_heap s" "nm_mgr s" a] assms(1,3,4) by (simp add: nm_inv_def)
  obtain s1 where s1: "nameMgrRegist s name (ctx_id c) = Some (0, s1)" "nm_inv s1" "nm_mgr s1 = nm_mgr s"
    "name_ids s1 = (name_ids s)(name \<mapsto> ctx_id c)"
    using nameMgrRegist_ok [OF assms(1,2), of name "ctx_id c"] look assms(5) by auto
  then show ?thesis using nameMgrGetId_ok [OF s1(2), of name] look by auto
qed

definition nm_example :: nameMgr where
  "nm_example = nameMgrInit cm_example heap_example"

lemma nm_example_inv: "nm_inv nm_example" "name_ids nm_example = Map.empty"
  using cm_example_inv(1)
  by (auto simp: nm_example_def nameMgrInit_def nm_inv_def heap_example_def name_ids_def dict_view_empty split: if_splits)

lemma name_resolves_witness:
  "\<exists>s1 s2. nameMgrRegist nm_example ''db'' 5 = Some (0, s1) \<and> nameMgrGetId s1 ''db'' = Some (5, s2) \<and>
    ctxMgrLookup (nm_mgr s2) 5 = Some 3"
proof -
  have "nm_heap nm_example 3 = Some (ctx_example 5)" "3 \<in> cm_regs (nm_mgr nm_example)" "dictSize (nm_dict nm_example) < 2 ^ 30"
    using cm_example_inv(2) by (simp_all add: nm_example_def nameMgrInit_def heap_example_def)
  then show ?thesis using name_resolves [OF nm_example_inv(1), of 3 "ctx_example 5" "''db''"] nm_example_inv(2) by auto
qed

text \<open>
  Registering a name that is taken fails, but the name of the context is overwritten all the
  same: the context calls itself by a name that stands for another one.
\<close>
theorem name_taken_renames:
  assumes "nm_inv s" "dictSize (nm_dict s) < 2 ^ 30" "ctxMgrLookup (nm_mgr s) i = Some a" "name_ids s name \<noteq> None"
  shows "\<exists>s'. nameMgrRegist s name i = Some (-1, s') \<and> name_ids s' = name_ids s \<and>
    nm_heap s' = (nm_heap s)(a \<mapsto> (the (nm_heap s a))\<lparr>ctx_name := snprintf 32 name\<rparr>)"
  using nameMgrRegist_ok [OF assms(1,2), of name i] assms(3,4) by auto

definition nm_taken :: nameMgr where
  "nm_taken = snd (the (nameMgrRegist nm_example ''db'' 5))"

lemma nm_taken: "nm_inv nm_taken" "name_ids nm_taken = [''db'' \<mapsto> 5]" "nm_mgr nm_taken = cm_example"
  "nm_heap nm_taken = heap_example(3 \<mapsto> (ctx_example 5)\<lparr>ctx_name := ''db''\<rparr>)" "dictSize (nm_dict nm_taken) \<le> 1"
proof -
  have "ctxMgrLookup (nm_mgr nm_example) 5 = Some 3" "dictSize (nm_dict nm_example) = 0" "nm_mgr nm_example = cm_example"
    "nm_heap nm_example = heap_example" "heap_example 3 = Some (ctx_example 5)"
    by (simp_all add: nm_example_def nameMgrInit_def ctxMgrLookup_def cm_example_def heap_example_def)
  then show "nm_inv nm_taken" "name_ids nm_taken = [''db'' \<mapsto> 5]" "nm_mgr nm_taken = cm_example"
    "nm_heap nm_taken = heap_example(3 \<mapsto> (ctx_example 5)\<lparr>ctx_name := ''db''\<rparr>)" "dictSize (nm_dict nm_taken) \<le> 1"
    using nameMgrRegist_ok [OF nm_example_inv(1), of "''db''" 5] nm_example_inv(2)
    by (auto simp: nm_taken_def snprintf_def)
qed

lemma name_taken_renames_witness:
  "\<exists>s'. nameMgrRegist nm_taken ''db'' 5 = Some (-1, s') \<and> name_ids s' = [''db'' \<mapsto> 5]"
  using name_taken_renames [OF nm_taken(1), of 5 3 "''db''"] nm_taken
  by (auto simp: ctxMgrLookup_def cm_example_def)

text \<open>
  Unregistering a name leaks a reference. nameMgrUnRegist gives the context its old name back
  but keeps the reference taken to find it, so the release of what was the last reference does
  not free the context and does not take it out of the manager's table.
\<close>
theorem name_unregist_leaks:
  assumes "nm_inv s" "name_ids s name = Some i" "0 < sint i" "ctxMgrLookup (nm_mgr s) i = Some a" "nm_heap s a = Some c"
    "ctx_ref c = 1"
  shows "\<exists>s' h. nameMgrUnRegist s name = Some (0, s') \<and> name_ids s' = (name_ids s)(name := None) \<and>
    ctxMgrReleaseContext (nm_mgr s') (nm_heap s') a = Some (nm_mgr s, h) \<and> h a \<noteq> None"
proof -
  obtain s' where s': "nameMgrUnRegist s name = Some (0, s')" "name_ids s' = (name_ids s)(name := None)" "nm_mgr s' = nm_mgr s"
    "nm_heap s' = (nm_heap s)(a \<mapsto> c\<lparr>ctx_ref := ctx_ref c + 1, ctx_name := snprintf 32 (''c_'' @ dec_int (sint (ctx_id c)))\<rparr>)"
    using nameMgrUnRegist_ok [OF assms(1-5)] by blast
  then have "\<exists>h. ctxMgrReleaseContext (nm_mgr s') (nm_heap s') a = Some (nm_mgr s, h) \<and> h a \<noteq> None"
    by (simp add: ctxMgrReleaseContext_def contextRelease_def assms(6))
  then show ?thesis using s' by blast
qed

lemma name_unregist_leaks_witness:
  "\<exists>s' h. nameMgrUnRegist nm_taken ''db'' = Some (0, s') \<and> name_ids s' = Map.empty \<and>
    ctxMgrReleaseContext (nm_mgr s') (nm_heap s') 3 = Some (cm_example, h) \<and> h 3 \<noteq> None"
  using name_unregist_leaks [OF nm_taken(1), of "''db''" 5 3 "(ctx_example 5)\<lparr>ctx_name := ''db''\<rparr>"] nm_taken
  by (simp add: ctxMgrLookup_def cm_example_def)

end
