(* ===== verification/Commands.thy ===== *)
theory Commands
  imports WorkerPool Timer
begin

section \<open>Commands (src/z.c)\<close>

text \<open>
  A context asks the framework for a service by a command: a name and a parameter, both text, as
  z.command of the Lua library passes them. zCommand looks the name up in a table of six
  functions; the answer is a string, written into the context's \<open>result\<close>, or NULL.

  The state holds what the functions reach: the context manager, the contexts, the timers and,
  in \<open>z_sent\<close>, the calls of workerPoolSend (the theory WorkerPool models what a call does).
  \<open>None\<close> is a crash: the text of a NULL parameter, a context that is not there. Not under src/, or
  the code of another thread, are the parameters of \<open>z_env\<close>: the environment (Lua's globals), the
  module functions ctxMgrCreateContext calls with the address it allocates, and whether the
  queue of the timer thread has room.

  The theorems: numbers survive the way through text; TIMEOUT starts exactly the timer it is
  asked for and answers with its session and serial number; EXIT posts the exit message; and
  QLEN crashes on an id that stands for no context.
\<close>

subsection \<open>Text\<close>

definition isspace :: "char \<Rightarrow> bool" where
  "isspace c \<longleftrightarrow> c \<in> {CHR '' '', CHR 0x09, CHR 0x0A, CHR 0x0B, CHR 0x0C, CHR 0x0D}"

definition isdigit :: "char \<Rightarrow> bool" where
  "isdigit c \<longleftrightarrow> (of_char c :: nat) \<in> {48..57}"

definition digits_val :: "string \<Rightarrow> int" where
  "digits_val ds = foldl (\<lambda>v c. 10 * v + (of_char c - 48)) 0 ds"

definition clamp_long :: "int \<Rightarrow> int" where
  "clamp_long v = max (- (2 ^ 63)) (min (2 ^ 63 - 1) v)"

text \<open>strtol with base 10: the long, and the rest the end pointer points to.\<close>

definition strtol :: "string \<Rightarrow> int \<times> string" where
  "strtol s =
     (let s1 = dropWhile isspace s;
          neg = (s1 \<noteq> [] \<and> hd s1 = CHR ''-'');
          s2 = (if s1 \<noteq> [] \<and> (hd s1 = CHR ''-'' \<or> hd s1 = CHR ''+'') then tl s1 else s1);
          ds = takeWhile isdigit s2
      in if ds = [] then (0, s)
         else (clamp_long (if neg then - digits_val ds else digits_val ds), dropWhile isdigit s2))"

text \<open>The conversion of a long to an int.\<close>

definition to_int :: "int \<Rightarrow> int" where
  "to_int v = sint (word_of_int v :: u32)"

text \<open>strsep: the token, and the new value of the string pointer.\<close>

definition strsep :: "string ptr \<Rightarrow> string \<Rightarrow> string ptr \<times> string ptr" where
  "strsep p delim =
     (case p of
        None \<Rightarrow> (None, None)
      | Some s \<Rightarrow>
          let tok = takeWhile (\<lambda>c. c \<notin> set delim) s; rest = dropWhile (\<lambda>c. c \<notin> set delim) s
          in (Some tok, if rest = [] then None else Some (tl rest)))"

definition blanks :: string where "blanks = [CHR '' '', CHR 0x09, CHR 0x0D, CHR 0x0A]"
definition line_ends :: string where "line_ends = [CHR 0x0D, CHR 0x0A]"

subsection \<open>The state\<close>

record zstate =
  z_mgr :: ctxMgr
  z_heap :: heap
  z_timer :: timer
  z_sent :: "send_args list"

record z_env =
  e_get :: "string \<Rightarrow> string ptr"                       \<comment> \<open>the string value of a global\<close>
  e_query :: "string \<Rightarrow> nat ptr"
  e_create :: "nat \<Rightarrow> nat ptr"
  e_init :: "string ptr \<Rightarrow> nat \<Rightarrow> heap \<Rightarrow> int \<times> heap"
  e_addr :: nat
  e_room :: bool                                        \<comment> \<open>the timer queue has room\<close>
  e_event :: timerEvent                                 \<comment> \<open>what a new event's memory holds\<close>
  e_send :: "send_args \<Rightarrow> zstate \<Rightarrow> int"               \<comment> \<open>the result of workerPoolSend\<close>

text \<open>A write to \<open>ctx->result\<close>, 32 bytes.\<close>

definition set_result :: "nat \<Rightarrow> string \<Rightarrow> zstate \<Rightarrow> zstate option" where
  "set_result a r z =
     (case z_heap z a of
        None \<Rightarrow> None
      | Some c \<Rightarrow> Some (z\<lparr>z_heap := (z_heap z)(a \<mapsto> c\<lparr>ctx_result := snprintf 32 r\<rparr>)\<rparr>))"

definition get_result :: "nat \<Rightarrow> zstate \<Rightarrow> string option" where
  "get_result a z = map_option ctx_result (z_heap z a)"

text \<open>The answer of a command that has written the result of context \<open>a\<close>.\<close>

definition answer :: "nat \<Rightarrow> string \<Rightarrow> zstate \<Rightarrow> (string ptr \<times> zstate) option" where
  "answer a r z =
     (case set_result a r z of
        None \<Rightarrow> None
      | Some z' \<Rightarrow> map_option (\<lambda>s. (Some s, z')) (get_result a z'))"

definition worker_send :: "z_env \<Rightarrow> send_args \<Rightarrow> zstate \<Rightarrow> int \<times> zstate" where
  "worker_send e x z = (e_send e x z, z\<lparr>z_sent := z_sent z @ [x]\<rparr>)"

definition MSG_TYPE_RESPONSE :: u32 where "MSG_TYPE_RESPONSE = 1"

subsection \<open>The six functions\<close>

text \<open>\<open>ctx\<close> is the address of the calling context, \<open>param\<close> the parameter.\<close>

definition zLauchCmd :: "z_env \<Rightarrow> nat \<Rightarrow> string ptr \<Rightarrow> zstate \<Rightarrow> (string ptr \<times> zstate) option" where
  "zLauchCmd e ctx param z =
     (case param of
        None \<Rightarrow> None
      | Some p \<Rightarrow>
          (case strsep (Some p) blanks of
             (md, rest) \<Rightarrow>
               (case md of
                  None \<Rightarrow> None
                | Some modname \<Rightarrow>
                    (case ctxMgrCreateContext (e_query e) (e_create e) (e_init e (fst (strsep rest line_ends))) (e_addr e)
                            (z_mgr z) (z_heap z) modname of
                       None \<Rightarrow> None
                     | Some (None, m, h) \<Rightarrow> Some (None, z\<lparr>z_mgr := m, z_heap := h\<rparr>)
                     | Some (Some inst, m, h) \<Rightarrow>
                         (case h inst of
                            None \<Rightarrow> None
                          | Some c \<Rightarrow> answer ctx (dec_int (sint (ctx_id c))) (z\<lparr>z_mgr := m, z_heap := h\<rparr>))))))"

definition zGetEnvCmd :: "z_env \<Rightarrow> nat \<Rightarrow> string ptr \<Rightarrow> zstate \<Rightarrow> (string ptr \<times> zstate) option" where
  "zGetEnvCmd e ctx param z =
     (case param of
        None \<Rightarrow> None
      | Some p \<Rightarrow> Some (Some (case e_get e p of Some s \<Rightarrow> s | None \<Rightarrow> []), z))"

text \<open>
  The two strsep calls only cut a copy that is not read: strtol reads \<open>param\<close>, and its end pointer
  is where the second number starts.
\<close>

definition zTimeoutCmd :: "z_env \<Rightarrow> nat \<Rightarrow> string ptr \<Rightarrow> zstate \<Rightarrow> (string ptr \<times> zstate) option" where
  "zTimeoutCmd e ctx param z =
     (case (param, z_heap z ctx) of
        (Some p, Some c) \<Rightarrow>
          (let r1 = strtol p; r2 = strtol (snd r1); time = to_int (fst r1); noMore = to_int (fst r2);
               s = contextNewsession c; z1 = z\<lparr>z_heap := (z_heap z)(ctx \<mapsto> snd s)\<rparr>;
               t = timerTimeout
                     (\<lambda>to session. worker_send e \<lparr>sa_ctx = None, sa_from = 0, sa_to = word_of_int to, sa_session = session,
                        sa_type = MSG_TYPE_RESPONSE, sa_data = None, sa_sz = 0, sa_ud = 0\<rparr>)
                     (e_room e) (z_timer z1) z1 (sint (ctx_id c)) time (fst s) noMore;
               z2 = (snd (snd t))\<lparr>z_timer := fst (snd t)\<rparr>
           in answer ctx (dec_int (sint (fst s)) @ '' '' @ dec_int (fst t)) z2)
      | _ \<Rightarrow> None)"

definition zTimerCancel :: "z_env \<Rightarrow> nat \<Rightarrow> string ptr \<Rightarrow> zstate \<Rightarrow> (string ptr \<times> zstate) option" where
  "zTimerCancel e ctx param z =
     (case param of
        None \<Rightarrow> None
      | Some p \<Rightarrow> Some (None, z\<lparr>z_timer := timerCancel (e_room e) (z_timer z) (e_event e) (word_of_int (fst (strtol p)))\<rparr>))"

definition zExitCmd :: "z_env \<Rightarrow> nat \<Rightarrow> string ptr \<Rightarrow> zstate \<Rightarrow> (string ptr \<times> zstate) option" where
  "zExitCmd e ctx param z =
     (case param of
        None \<Rightarrow> None
      | Some p \<Rightarrow>
          Some (None, snd (worker_send e \<lparr>sa_ctx = Some ctx, sa_from = 0, sa_to = word_of_int (fst (strtol p)), sa_session = 0,
                  sa_type = MSG_TYPE_EXIT_CONTEXT, sa_data = None, sa_sz = 0, sa_ud = 0\<rparr> z)))"

text \<open>
  The test is of \<open>ctx\<close>, which is not NULL; \<open>toctx\<close> may be, and its mailbox is read all the same.
  The result is that of \<open>toctx\<close>, read after its release.
\<close>

definition zQueueLenCmd :: "z_env \<Rightarrow> nat \<Rightarrow> string ptr \<Rightarrow> zstate \<Rightarrow> (string ptr \<times> zstate) option" where
  "zQueueLenCmd e ctx param z =
     (case param of
        None \<Rightarrow> None
      | Some p \<Rightarrow>
          (case ctxMgrGetContext (z_mgr z) (z_heap z) (word_of_int (fst (strtol p))) of
             None \<Rightarrow> None
           | Some (toctx, h) \<Rightarrow>
               (case toctx of
                  None \<Rightarrow> None
                | Some a \<Rightarrow>
                    (case h a of
                       None \<Rightarrow> None
                     | Some c \<Rightarrow>
                         (case set_result a (dec_int (sint (messageQueueSize (ctx_queue c)))) (z\<lparr>z_heap := h\<rparr>) of
                            None \<Rightarrow> None
                          | Some z1 \<Rightarrow>
                              (case ctxMgrReleaseContext (z_mgr z1) (z_heap z1) a of
                                 None \<Rightarrow> None
                               | Some (m, h2) \<Rightarrow>
                                   let z2 = z1\<lparr>z_mgr := m, z_heap := h2\<rparr>
                                   in map_option (\<lambda>s. (Some s, z2)) (get_result a z2)))))))"

subsection \<open>The table\<close>

definition cmdFunc :: "(string \<times> (z_env \<Rightarrow> nat \<Rightarrow> string ptr \<Rightarrow> zstate \<Rightarrow> (string ptr \<times> zstate) option)) list" where
  "cmdFunc = [(''LAUNCH'', zLauchCmd), (''GETENV'', zGetEnvCmd), (''TIMEOUT'', zTimeoutCmd), (''TIMECANCEL'', zTimerCancel),
     (''EXIT'', zExitCmd), (''QLEN'', zQueueLenCmd)]"

definition zCommand :: "z_env \<Rightarrow> nat \<Rightarrow> string \<Rightarrow> string ptr \<Rightarrow> zstate \<Rightarrow> (string ptr \<times> zstate) option" where
  "zCommand e ctx cmd param z =
     (case map_of cmdFunc cmd of
        None \<Rightarrow> Some (None, z)
      | Some f \<Rightarrow> f e ctx param z)"

subsection \<open>Numbers in text\<close>

lemma of_char_digit: "d < 10 \<Longrightarrow> (of_char (char_of (48 + d :: nat)) :: nat) = 48 + d"
  by simp

lemma isdigit_char: "d < 10 \<Longrightarrow> isdigit (char_of (48 + d :: nat))"
  by (simp add: isdigit_def)

lemma digit_val: "d < 10 \<Longrightarrow> (of_char (char_of (48 + d :: nat)) :: int) - 48 = int d"
proof -
  assume "d < 10"
  then have "(of_char (char_of (48 + d :: nat)) :: nat) = 48 + d" by simp
  then show ?thesis by (simp flip: of_nat_of_char [where 'a = int])
qed

lemma dec_nat_digits: "\<forall>c \<in> set (dec_nat n). isdigit c" "dec_nat n \<noteq> []"
proof (induction n rule: dec_nat.induct)
  case (1 n)
  { case 1 then show ?case using "1.IH"(1) isdigit_char [of n] isdigit_char [of "n mod 10"]
      by (subst dec_nat.simps) (cases "n < 10"; simp) }
  { case 2 then show ?case by (subst dec_nat.simps) simp }
qed

lemma digits_val_snoc: "digits_val (ds @ [c]) = 10 * digits_val ds + (of_char c - 48)"
  by (simp add: digits_val_def)

lemma digits_val_dec: "digits_val (dec_nat n) = int n"
proof (induction n rule: dec_nat.induct)
  case (1 n)
  show ?case
  proof (cases "n < 10")
    case True
    then show ?thesis using digits_val_snoc [of "[]" "char_of (48 + n)"] digit_val [OF True]
      by (subst dec_nat.simps) (simp add: digits_val_def)
  next
    case False
    then have "digits_val (dec_nat n) = 10 * int (n div 10) + int (n mod 10)"
      using 1 digits_val_snoc [of "dec_nat (n div 10)" "char_of (48 + n mod 10)"] digit_val [of "n mod 10"]
      by (subst dec_nat.simps) simp
    also have "\<dots> = int n" by presburger
    finally show ?thesis .
  qed
qed

lemma length_dec_nat: "n < 10 ^ Suc k \<Longrightarrow> length (dec_nat n) \<le> Suc k"
proof (induction k arbitrary: n)
  case 0
  then show ?case by (subst dec_nat.simps) simp
next
  case (Suc k)
  show ?case
  proof (cases "n < 10")
    case False
    have "n div 10 < 10 ^ Suc k" using Suc.prems by simp
    from Suc.IH [OF this] show ?thesis using False by (subst dec_nat.simps) simp
  qed (subst dec_nat.simps, simp)
qed

lemma length_dec_int: "- (2 ^ 31) \<le> i \<Longrightarrow> i < 2 ^ 32 \<Longrightarrow> length (dec_int i) \<le> 11"
proof -
  assume i: "- (2 ^ 31) \<le> i" "i < 2 ^ 32"
  have "length (dec_nat (nat i)) \<le> Suc 9" "length (dec_nat (nat (- i))) \<le> Suc 9"
    by (rule length_dec_nat; use i in simp)+
  then show ?thesis by (simp add: dec_int_def)
qed

lemma not_space_digit: "isdigit c \<Longrightarrow> \<not> isspace c" "isdigit c \<Longrightarrow> c \<noteq> CHR ''-''" "isdigit c \<Longrightarrow> c \<noteq> CHR ''+''"
  by (auto simp: isdigit_def isspace_def)

lemma strtol_sign:
  assumes "\<forall>c \<in> set ds. isdigit c" "ds \<noteq> []" "rest = [] \<or> \<not> isdigit (hd rest)" "digits_val ds < 2 ^ 63" "0 \<le> digits_val ds"
  shows "strtol (ds @ rest) = (digits_val ds, rest)" "strtol (CHR ''-'' # ds @ rest) = (- digits_val ds, rest)"
    "isspace b \<Longrightarrow> strtol (b # ds @ rest) = (digits_val ds, rest)" "isspace b \<Longrightarrow> strtol (b # CHR ''-'' # ds @ rest) = (- digits_val ds, rest)"
proof -
  obtain d ds' where d: "ds = d # ds'" using assms(2) by (cases ds) auto
  then have nd: "\<not> isspace d" "d \<noteq> CHR ''-''" "d \<noteq> CHR ''+''" using assms(1) not_space_digit by auto
  have tk: "takeWhile isdigit (ds @ rest) = ds" "dropWhile isdigit (ds @ rest) = rest"
    using assms(1,3) by (cases rest; simp add: takeWhile_append2 dropWhile_append2 takeWhile_append dropWhile_append)+
  have m: "\<not> isspace CHR ''-''" by (simp add: isspace_def)
  note tk' = tk [unfolded d append_Cons]
  show "strtol (ds @ rest) = (digits_val ds, rest)" "strtol (CHR ''-'' # ds @ rest) = (- digits_val ds, rest)"
    "isspace b \<Longrightarrow> strtol (b # ds @ rest) = (digits_val ds, rest)" "isspace b \<Longrightarrow> strtol (b # CHR ''-'' # ds @ rest) = (- digits_val ds, rest)"
    using assms(4,5) nd m tk' unfolding strtol_def Let_def d append_Cons
    by (simp_all add: clamp_long_def del: takeWhile.simps(2) dropWhile.simps(2)
        add: dropWhile.simps(2) [of isspace])
qed

text \<open>A number printed with \<open>%d\<close> is read back, also behind a blank.\<close>

lemma strtol_dec_int:
  assumes "- (2 ^ 63) < i" "i < 2 ^ 63" "rest = [] \<or> \<not> isdigit (hd rest)"
  shows "strtol (dec_int i @ rest) = (i, rest)" "strtol (CHR '' '' # dec_int i @ rest) = (i, rest)"
proof -
  have b: "isspace CHR '' ''" by (simp add: isspace_def)
  note n = strtol_sign [of "dec_nat (nat (- i))" rest, OF dec_nat_digits assms(3)]
  note p = strtol_sign [of "dec_nat (nat i)" rest, OF dec_nat_digits assms(3)]
  show "strtol (dec_int i @ rest) = (i, rest)" "strtol (CHR '' '' # dec_int i @ rest) = (i, rest)"
    using n(2) n(4) [of "CHR '' ''"] p(1) p(3) [of "CHR '' ''"] assms(1,2) b
    by (auto simp: dec_int_def digits_val_dec)
qed

lemma to_int_id: "- (2 ^ 31) \<le> i \<Longrightarrow> i < 2 ^ 31 \<Longrightarrow> to_int i = i"
  by (simp add: to_int_def signed_of_int signed_take_bit_int_eq_self)

lemma snprintf_dec: "- (2 ^ 31) \<le> i \<Longrightarrow> i < 2 ^ 32 \<Longrightarrow> snprintf 32 (dec_int i) = dec_int i"
  using length_dec_int [of i] by (simp add: snprintf_def)

lemma sint_bounds: "- (2 ^ 31) \<le> sint (w :: u32)" "sint (w :: u32) < 2 ^ 31"
  using sint_greater_eq [of w] sint_less [of w] by simp_all

lemma answer_ok:
  assumes "z_heap z a = Some c" "length r < 32"
  shows "answer a r z = Some (Some r, z\<lparr>z_heap := (z_heap z)(a \<mapsto> c\<lparr>ctx_result := r\<rparr>)\<rparr>)"
  using assms by (simp add: answer_def set_result_def get_result_def snprintf_def)

lemma cmd_simps:
  "zCommand e ctx ''TIMEOUT'' param z = zTimeoutCmd e ctx param z" "zCommand e ctx ''QLEN'' param z = zQueueLenCmd e ctx param z"
  "zCommand e ctx ''LAUNCH'' param z = zLauchCmd e ctx param z" "zCommand e ctx ''EXIT'' param z = zExitCmd e ctx param z"
  by (simp_all add: zCommand_def cmdFunc_def)

text \<open>Any other name has no effect.\<close>

lemma unknown_command: "cmd \<notin> fst ` set cmdFunc \<Longrightarrow> zCommand e ctx cmd param z = Some (None, z)"
  by (simp add: zCommand_def map_of_eq_None_iff [THEN iffD2])

lemma exit_command:
  assumes "- (2 ^ 31) \<le> pid" "pid < 2 ^ 31"
  shows "zCommand e ctx ''EXIT'' (Some (dec_int pid)) z = Some (None, z\<lparr>z_sent := z_sent z @ [\<lparr>sa_ctx = Some ctx, sa_from = 0,
    sa_to = word_of_int pid, sa_session = 0, sa_type = MSG_TYPE_EXIT_CONTEXT, sa_data = None, sa_sz = 0, sa_ud = 0\<rparr>]\<rparr>)"
  using strtol_dec_int(1) [of pid "[]"] assms by (simp add: cmd_simps zExitCmd_def worker_send_def)

subsection \<open>Properties\<close>

text \<open>
  C20: a timer starts as asked. The text z.timeout of the Lua library sends for a time other than 0
  puts exactly one event on the queue of the timer thread, with that time and repeat flag, for
  the calling context and a new session of it; the text of the answer reads back as this session
  and the serial number of the timer, and nothing is sent.
\<close>
theorem timeout_command:
  assumes "z_heap z ctx = Some c" "- (2 ^ 31) \<le> time" "time < 2 ^ 31" "time \<noteq> 0" "- (2 ^ 31) \<le> noMore" "noMore < 2 ^ 31" "e_room e"
  defines "session \<equiv> fst (contextNewsession c)" and "sn \<equiv> fst (timerNewSn (z_timer z))"
  shows "\<exists>r z'. zCommand e ctx ''TIMEOUT'' (Some (dec_int time @ '' '' @ dec_int noMore)) z = Some (Some r, z') \<and>
    strtol r = (sint session, '' '' @ dec_int (uint sn)) \<and> fst (strtol (snd (strtol r))) = uint sn \<and>
    tm_em (z_timer z') = tm_em (z_timer z) @
      [\<lparr>tv_sn = sn, tv_to = sint (ctx_id c), tv_value = session, tv_time = time, tv_noMore = noMore, tv_type = 0\<rparr>] \<and>
    z_sent z' = z_sent z"
proof -
  define r where "r = dec_int (sint session) @ '' '' @ dec_int (uint sn)"
  define c' where "c' = snd (contextNewsession c)"
  define z1 where "z1 = z\<lparr>z_heap := (z_heap z)(ctx \<mapsto> c')\<rparr>"
  define T where "T = snd (em_offer True (snd (timerNewSn (z_timer z)))
    \<lparr>tv_sn = sn, tv_to = sint (ctx_id c), tv_value = session, tv_time = time, tv_noMore = noMore, tv_type = 0\<rparr>)"
  have sep: "'' '' @ dec_int noMore = [] \<or> \<not> isdigit (hd ('' '' @ dec_int noMore))"
    "'' '' @ dec_int (uint sn) = [] \<or> \<not> isdigit (hd ('' '' @ dec_int (uint sn)))" by (simp_all add: isdigit_def)
  have p: "strtol (dec_int time @ '' '' @ dec_int noMore) = (time, '' '' @ dec_int noMore)"
    "fst (strtol ('' '' @ dec_int noMore)) = noMore"
    using strtol_dec_int(1) [OF _ _ sep(1), of time] strtol_dec_int(2) [of noMore "[]"] assms(2,3,5,6) by simp_all
  have sn: "0 \<le> uint sn" "uint sn < 2 ^ 32" using uint_lt2p [of sn] by simp_all
  have rr: "strtol r = (sint session, '' '' @ dec_int (uint sn))" "fst (strtol ('' '' @ dec_int (uint sn))) = uint sn"
    using strtol_dec_int(1) [OF _ _ sep(2), of "sint session"] strtol_dec_int(2) [of "uint sn" "[]"] sn sint_bounds [of session]
    by (simp_all add: r_def)
  have len: "length r < 32"
    using length_dec_int [of "sint session"] length_dec_int [of "uint sn"] sn sint_bounds [of session] by (simp add: r_def)
  have tt: "timerTimeout send True (z_timer z) w (sint (ctx_id c)) time session noMore = (uint sn, T, w)" for send and w :: zstate
    using assms(4) by (simp add: timerTimeout_def sn_def T_def em_offer_def split: prod.splits)
  have "zCommand e ctx ''TIMEOUT'' (Some (dec_int time @ '' '' @ dec_int noMore)) z = answer ctx r (z1\<lparr>z_timer := T\<rparr>)"
    using assms(1,7) to_int_id [OF assms(2,3)] to_int_id [OF assms(5,6)] p tt
    by (simp add: cmd_simps zTimeoutCmd_def Let_def r_def z1_def c'_def session_def)
  also have "\<dots> = Some (Some r, z1\<lparr>z_timer := T, z_heap := (z_heap z1)(ctx \<mapsto> c'\<lparr>ctx_result := r\<rparr>)\<rparr>)"
    by (subst answer_ok [of _ _ c']) (simp_all add: z1_def len)
  finally show ?thesis using rr
    by (simp add: z1_def T_def em_offer_def timerNewSn_def Let_def)
qed

definition z_example :: zstate where
  "z_example = \<lparr>z_mgr = cm_example, z_heap = heap_example, z_timer = timerInit 0, z_sent = []\<rparr>"

definition e_example :: z_env where
  "e_example = \<lparr>e_get = (\<lambda>_. None), e_query = (\<lambda>_. Some 1), e_create = (\<lambda>_. Some 2), e_init = (\<lambda>_ _ h. (0, h)), e_addr = 9,
     e_room = True, e_event = undefined, e_send = (\<lambda>_ _. 0)\<rparr>"

lemma z_example_ctx: "z_heap z_example 3 = Some (ctx_example 5)"
  by (simp add: z_example_def heap_example_def)

lemma timeout_command_witness:
  "\<exists>r z'. zCommand e_example 3 ''TIMEOUT'' (Some ''250 1'') z_example = Some (Some r, z') \<and>
     tm_em (z_timer z') = [\<lparr>tv_sn = 1, tv_to = 5, tv_value = 1, tv_time = 250, tv_noMore = 1, tv_type = 0\<rparr>]"
proof -
  have "dec_int 250 @ '' '' @ dec_int 1 = ''250 1''" by code_simp
  moreover have "fst (timerNewSn (z_timer z_example)) = 1" "tm_em (z_timer z_example) = []" "fst (contextNewsession (ctx_example 5)) = 1"
    by (simp_all add: z_example_def timerInit_def timerNewSn_def contextNewsession_def Let_def)
  ultimately show ?thesis
    using timeout_command [OF z_example_ctx, of 250 1 e_example] by (simp add: e_example_def) blast
qed

text \<open>
  QLEN answers with the length of the mailbox of the context found under the id, keeps the
  reference count and everything else but the result of that context; and it crashes on an id
  under which there is none, for instance that of a context that has exited, because it tests the
  wrong pointer.
\<close>
theorem qlen_command:
  assumes "cm_inv (z_heap z) (z_mgr z)" "- (2 ^ 31) \<le> pid" "pid < 2 ^ 31" "\<forall>a c. z_heap z a = Some c \<longrightarrow> ctx_ref c \<noteq> 0"
  shows "zCommand e ctx ''QLEN'' (Some (dec_int pid)) z =
    (case ctxMgrLookup (z_mgr z) (word_of_int pid) of
       None \<Rightarrow> None
     | Some a \<Rightarrow>
         let c = the (z_heap z a); r = dec_int (sint (messageQueueSize (ctx_queue c)))
         in Some (Some r, z\<lparr>z_heap := (z_heap z)(a \<mapsto> c\<lparr>ctx_result := r\<rparr>)\<rparr>))"
proof -
  have p: "fst (strtol (dec_int pid)) = pid" using strtol_dec_int(1) [of pid "[]"] assms(2,3) by simp
  show ?thesis
  proof (cases "ctxMgrLookup (z_mgr z) (word_of_int pid)")
    case None
    then show ?thesis by (simp add: cmd_simps zQueueLenCmd_def p ctxMgrGetContext_def contextRetain_def Let_def)
  next
    case (Some a)
    obtain c where c: "z_heap z a = Some c" using lookup_regs(2) [OF assms(1) Some] by blast
    have ref: "ctx_ref c \<noteq> 0" using assms(4) c by blast
    have "snprintf 32 (dec_int (sint (messageQueueSize (ctx_queue c)))) = dec_int (sint (messageQueueSize (ctx_queue c)))"
      using sint_bounds [of "messageQueueSize (ctx_queue c)"] by (intro snprintf_dec) simp_all
    then show ?thesis using Some c ref
      by (cases c) (simp add: cmd_simps zQueueLenCmd_def p ctxMgrGetContext_def contextRetain_def Let_def set_result_def get_result_def
        ctxMgrReleaseContext_def contextRelease_def)
  qed
qed

lemma qlen_command_witness:
  "zCommand e_example 3 ''QLEN'' (Some ''6'') z_example = None"
proof -
  have "dec_int 6 = ''6''" by code_simp
  moreover have "ctxMgrLookup (z_mgr z_example) 6 = None" by (simp add: ctxMgrLookup_def z_example_def cm_example_def)
  ultimately show ?thesis
    using qlen_command [of z_example 6 e_example 3] cm_example_inv(1)
    by (simp add: z_example_def heap_example_def split: if_splits)
qed

text \<open>Cutting the parameter of LAUNCH.\<close>

lemma strsep_at:
  assumes "\<forall>c \<in> set tok. c \<notin> set delim" "d \<in> set delim"
  shows "strsep (Some (tok @ d # rest)) delim = (Some tok, Some rest)"
  using assms by (simp add: strsep_def Let_def takeWhile_append2 dropWhile_append2)

text \<open>
  What the Init of a module may do to the contexts: anything that leaves each where it is, under its id. It may set callbacks,
  send messages (mailboxes, reference counts, marks of scheduling) and write results, as zluaInit and loggerInit do.
\<close>

definition init_keeps_ids :: "z_env \<Rightarrow> string ptr \<Rightarrow> bool" where
  "init_keeps_ids e args \<longleftrightarrow> (\<forall>h. h (e_addr e) \<noteq> None \<longrightarrow>
     fst (e_init e args (e_addr e) h) = 0 \<and> map_option ctx_id \<circ> snd (e_init e args (e_addr e) h) = map_option ctx_id \<circ> h)"

text \<open>
  C27: LAUNCH starts a context. On the text z.spawn of the Lua library sends, the module named
  first is instantiated and initialised with the rest of the line as its parameter. If its Init succeeds and keeps the ids
  of the contexts, the answer
  reads back as the new context's id, under which the manager finds it, every context that
  was there is still found under its own, the table is well formed, and the new context is as Init left it.
\<close>
theorem launch_command:
  assumes "cm_inv (z_heap z) (z_mgr z)" "unat (cm_setsize (z_mgr z)) < 2 ^ 30" "cm_allocId (z_mgr z) = 0 \<Longrightarrow> cm_regs (z_mgr z) = {}"
    "unat (cm_allocId (z_mgr z)) + 2 * unat (cm_setsize (z_mgr z)) < 2 ^ 31"
    "z_heap z (e_addr e) = None" "e_addr e \<notin> cm_regs (z_mgr z)" "z_heap z ctx = Some c"
    "\<forall>x \<in> set modname. x \<notin> set blanks" "\<forall>x \<in> set args. x \<notin> set line_ends"
    "e_query e modname = Some m" "e_create e m = Some inst" "init_keeps_ids e (Some args)"
  shows "\<exists>r i z' h. zCommand e ctx ''LAUNCH'' (Some (modname @ '' '' @ args @ line_ends)) z = Some (Some r, z') \<and>
    fst (strtol r) = int (unat i) \<and> ctxMgrLookup (z_mgr z') i = Some (e_addr e) \<and>
    map_option ctx_id (z_heap z' (e_addr e)) = Some i \<and>
    z_heap z' (e_addr e) = snd (e_init e (Some args) (e_addr e) h) (e_addr e) \<and>
    (\<forall>b. b \<noteq> e_addr e \<longrightarrow> h b = z_heap z b) \<and>
    cm_inv (z_heap z') (z_mgr z') \<and> cm_regs (z_mgr z') = insert (e_addr e) (cm_regs (z_mgr z)) \<and>
    (\<forall>b \<in> cm_regs (z_mgr z). ctxMgrLookup (z_mgr z') (ctx_id (the (z_heap z b))) = Some b)"
proof -
  let ?a = "e_addr e"
  have sep: "strsep (Some (modname @ '' '' @ args @ line_ends)) blanks = (Some modname, Some (args @ line_ends))"
    "fst (strsep (Some (args @ line_ends)) line_ends) = Some args"
    using strsep_at [OF assms(8), of "CHR '' ''" "args @ line_ends"] strsep_at [OF assms(9), of "CHR 0x0D" "[CHR 0x0A]"]
    by (simp_all add: blanks_def line_ends_def)
  define c0 where "c0 = the (snd (contextCreate (e_query e) (e_create e) ?a (z_heap z) modname) ?a)"
  have cc: "contextCreate (e_query e) (e_create e) ?a (z_heap z) modname = (Some ?a, (z_heap z)(?a \<mapsto> c0))"
    using assms(10,11) by (simp add: c0_def contextCreate_def)
  let ?h = "(z_heap z)(?a \<mapsto> c0)"
  have inv: "cm_inv ?h (z_mgr z)"
    using assms(1,5) unfolding cm_inv_def cm_slot_def by auto
  obtain i m' where add: "unat i < unat (cm_allocId (z_mgr z)) + 2 * unat (cm_setsize (z_mgr z))"
    "ctxMgrAddContext (z_mgr z) ?h ?a = Some (sint i, m', ?h(?a \<mapsto> c0\<lparr>ctx_id := i\<rparr>))"
    "cm_inv (?h(?a \<mapsto> c0\<lparr>ctx_id := i\<rparr>)) m'" "cm_regs m' = insert ?a (cm_regs (z_mgr z))"
    using ctxMgrAddContext_ok [OF inv _ assms(6,2,3), of c0] assms(4) by auto
  have i: "unat i < 2 ^ 31" "sint i = int (unat i)" using add(1) assms(4) sint_unat32 [of i] by simp_all
  define c1 where "c1 = c0\<lparr>ctx_id := i, ctx_name := snprintf 32 (''c_'' @ dec_int (sint i))\<rparr>"
  define h1 where "h1 = (z_heap z)(?a \<mapsto> c1)"
  define h2 where "h2 = snd (e_init e (Some args) ?a h1)"
  have init: "e_init e (Some args) ?a h1 = (0, h2)" "map_option ctx_id \<circ> h2 = map_option ctx_id \<circ> h1"
    using assms(12) by (simp_all add: init_keeps_ids_def h2_def h1_def prod_eq_iff)
  then have ids: "map_option ctx_id (h2 b) = map_option ctx_id (h1 b)" for b by (metis comp_apply)
  have create: "ctxMgrCreateContext (e_query e) (e_create e) (e_init e (Some args)) ?a (z_mgr z) (z_heap z) modname = Some (Some ?a, m', h2)"
    using add(2) i init(1) by (simp add: ctxMgrCreateContext_def cc h1_def c1_def)
  obtain c2 where c2: "h2 ?a = Some c2" "ctx_id c2 = i" using ids [of ?a] by (auto simp: h1_def c1_def)
  have ne: "ctx \<noteq> ?a" using assms(5,7) by auto
  obtain cx where cx: "h2 ctx = Some cx" "ctx_id cx = ctx_id c" using ids [of ctx] ne assms(7) by (auto simp: h1_def)
  define r where "r = dec_int (sint i)"
  have len: "length r < 32" using length_dec_int [of "sint i"] sint_bounds [of i] by (simp add: r_def)
  define z' where "z' = z\<lparr>z_mgr := m', z_heap := h2(ctx \<mapsto> cx\<lparr>ctx_result := r\<rparr>)\<rparr>"
  have "zCommand e ctx ''LAUNCH'' (Some (modname @ '' '' @ args @ line_ends)) z = answer ctx r (z\<lparr>z_mgr := m', z_heap := h2\<rparr>)"
    by (simp only: cmd_simps zLauchCmd_def option.case sep prod.case create) (simp add: c2 r_def)
  also have "\<dots> = Some (Some r, z')"
    using answer_ok [of "z\<lparr>z_mgr := m', z_heap := h2\<rparr>" ctx cx r] cx len by (simp add: z'_def)
  finally have run: "zCommand e ctx ''LAUNCH'' (Some (modname @ '' '' @ args @ line_ends)) z = Some (Some r, z')" .
  have "fst (strtol r) = int (unat i)" using strtol_dec_int(1) [of "sint i" "[]"] sint_bounds [of i] i(2) by (simp add: r_def)
  moreover have "ctxMgrLookup (z_mgr z') i = Some ?a" using cm_lookup [OF add(3), of ?a] add(4) by (simp add: z'_def)
  moreover have "ctxMgrLookup (z_mgr z') (ctx_id (the (z_heap z b))) = Some b" if "b \<in> cm_regs (z_mgr z)" for b
  proof -
    have "b \<noteq> ?a" using that assms(6) by auto
    then show ?thesis using cm_lookup [OF add(3), of b] add(4) that by (simp add: z'_def)
  qed
  moreover have "cm_inv (z_heap z') (z_mgr z')"
  proof -
    have "map_option ctx_id (z_heap z' b) = map_option ctx_id ((?h(?a \<mapsto> c0\<lparr>ctx_id := i\<rparr>)) b)" for b
      using ids [of b] cx by (cases "b = ctx") (auto simp: z'_def h1_def c1_def)
    then show ?thesis using cm_inv_cong [OF add(3)] by (simp add: z'_def)
  qed
  moreover have "cm_regs (z_mgr z') = insert ?a (cm_regs (z_mgr z))" "z_heap z' ?a = snd (e_init e (Some args) ?a h1) ?a"
    "map_option ctx_id (z_heap z' ?a) = Some i" "\<forall>b. b \<noteq> ?a \<longrightarrow> h1 b = z_heap z b"
    using ne c2 add(4) by (simp_all add: z'_def h1_def flip: h2_def [unfolded h1_def])
  ultimately show ?thesis using run by blast
qed

text \<open>
  A module whose Init does what zluaInit does (lemma \<open>zluaInit_effect\<close> of the theory Zlua): it sets the callback of its context and sends a
  message to it.
\<close>

definition spawn_init :: "message \<Rightarrow> nat \<Rightarrow> heap \<Rightarrow> int \<times> heap" where
  "spawn_init msg a h =
     (case h a of
        None \<Rightarrow> (1, h)
      | Some c \<Rightarrow> (0, h(a \<mapsto> c\<lparr>ctx_cb := Some 1, ctx_ud := Some 2, ctx_queue := snd (mq_enq msg (ctx_queue c)),
                               ctx_ref := ctx_ref c + 1, ctx_inGlobal := 1\<rparr>)))"

definition e_spawn :: z_env where
  "e_spawn = e_example\<lparr>e_init := (\<lambda>_. spawn_init msg_example)\<rparr>"

lemma e_spawn_keeps_ids: "init_keeps_ids e_spawn args"
  by (auto simp: init_keeps_ids_def e_spawn_def spawn_init_def fun_eq_iff)

lemma launch_command_witness:
  "\<exists>r i z' c'. zCommand e_spawn 3 ''LAUNCH'' (Some (''zlua'' @ '' '' @ ''chat 7 '' @ line_ends)) z_example = Some (Some r, z') \<and>
    fst (strtol r) = int (unat i) \<and> ctxMgrLookup (z_mgr z') i = Some 9 \<and> ctxMgrLookup (z_mgr z') 5 = Some 3 \<and>
    z_heap z' 9 = Some c' \<and> ctx_cb c' = Some 1 \<and> ctx_inGlobal c' = 1"
proof -
  have "\<exists>r i z' h. zCommand e_spawn 3 ''LAUNCH'' (Some (''zlua'' @ '' '' @ ''chat 7 '' @ line_ends)) z_example = Some (Some r, z') \<and>
    fst (strtol r) = int (unat i) \<and> ctxMgrLookup (z_mgr z') i = Some (e_addr e_spawn) \<and>
    map_option ctx_id (z_heap z' (e_addr e_spawn)) = Some i \<and>
    z_heap z' (e_addr e_spawn) = snd (e_init e_spawn (Some ''chat 7 '') (e_addr e_spawn) h) (e_addr e_spawn) \<and>
    (\<forall>b. b \<noteq> e_addr e_spawn \<longrightarrow> h b = z_heap z_example b) \<and>
    cm_inv (z_heap z') (z_mgr z') \<and> cm_regs (z_mgr z') = insert (e_addr e_spawn) (cm_regs (z_mgr z_example)) \<and>
    (\<forall>b \<in> cm_regs (z_mgr z_example). ctxMgrLookup (z_mgr z') (ctx_id (the (z_heap z_example b))) = Some b)"
    by (rule launch_command [where c = "ctx_example 5", OF _ _ _ _ _ _ _ _ _ _ _ e_spawn_keeps_ids])
      (use cm_example_inv in \<open>simp_all add: z_example_def e_example_def e_spawn_def, simp_all add: cm_example_def heap_example_def blanks_def line_ends_def\<close>)
  moreover have ad: "e_addr e_spawn = 9" "e_init e_spawn (Some ''chat 7 '') = spawn_init msg_example"
    by (simp_all add: e_spawn_def e_example_def)
  ultimately obtain r i z' h where *: "zCommand e_spawn 3 ''LAUNCH'' (Some (''zlua'' @ '' '' @ ''chat 7 '' @ line_ends)) z_example = Some (Some r, z')"
    "fst (strtol r) = int (unat i)" "ctxMgrLookup (z_mgr z') i = Some 9" "map_option ctx_id (z_heap z' 9) = Some i"
    "z_heap z' 9 = snd (spawn_init msg_example 9 h) 9"
    "\<forall>b \<in> cm_regs (z_mgr z_example). ctxMgrLookup (z_mgr z') (ctx_id (the (z_heap z_example b))) = Some b"
    unfolding ad by blast
  have "ctx_id (the (z_heap z_example 3)) = 5" "3 \<in> cm_regs (z_mgr z_example)"
    using cm_example_inv(2) by (simp_all add: z_example_ctx) (simp add: z_example_def)
  then have "ctxMgrLookup (z_mgr z') 5 = Some 3" using *(6) by fastforce
  moreover have "\<exists>c'. z_heap z' 9 = Some c' \<and> ctx_cb c' = Some 1 \<and> ctx_inGlobal c' = 1"
    using *(4,5) by (auto simp: spawn_init_def split: option.splits)
  ultimately show ?thesis using *(1-3) by blast
qed

end
