(* ===== verification/NetPack.thy ===== *)
theory NetPack
  imports Framing
begin

section \<open>Packets of the game protocol (src/lualib-src/lua-z.c)\<close>

text \<open>
  net_pack and net_unpack of the Lua library encode a call: a 4-byte length, a sequence
  number, the length of a name, the name and a body. The length is the one the framing of
  proto.c takes off again (theory Framing), so that net_unpack gets the packet without it, in
  a block that is one byte longer than the message. \<open>None\<close> is an access outside a block, an
  allocation that fails because its size is negative, or an array on the stack that does not
  fit into the \<open>stack\<close> bytes there are.

  The theorems: packets that go through the framing, cut into any pieces, are unpacked to what
  was packed; and a message whose name length is larger than the message makes net_unpack
  read outside its block before it looks at the length.
\<close>

subsection \<open>Packing\<close>

text \<open>
  \<open>buffer\<close> and \<open>bufferLen\<close> are the third and fourth argument; the result is the block and the
  integer pushed with it. The lengths are size_t, \<open>len\<close> is an int32_t.
\<close>

definition netpack_len :: "byte list \<Rightarrow> nat \<Rightarrow> u32" where
  "netpack_len name bufferLen = of_nat (length name + 8 + bufferLen)"

definition netpack :: "byte \<Rightarrow> int \<Rightarrow> byte list \<Rightarrow> byte list ptr \<Rightarrow> nat \<Rightarrow> (byte list \<times> int) option" where
  "netpack fill seq name buffer bufferLen =
     (let len = netpack_len name bufferLen; sz = sint len + 4
      in if sz < 0 then None
         else case mem_write (Some (replicate (nat sz) fill)) 0 (le_bytes 4 (unat len)) of
                None \<Rightarrow> None
              | Some b1 \<Rightarrow>
         (case mem_write (Some b1) 4 (le_bytes 4 (nat (seq mod 2 ^ 32))) of
                None \<Rightarrow> None
              | Some b2 \<Rightarrow>
         (case mem_write (Some b2) 8 (le_bytes 4 (length name)) of
                None \<Rightarrow> None
              | Some b3 \<Rightarrow>
         (case mem_write (Some b3) 12 name of
                None \<Rightarrow> None
              | Some b4 \<Rightarrow>
         (case mem_read buffer 0 bufferLen of
                None \<Rightarrow> None
              | Some src \<Rightarrow>
                  map_option (\<lambda>b. (b, sz)) (mem_write (Some b4) (12 + length name) src))))))"

subsection \<open>Unpacking\<close>

text \<open>What is pushed: an error text, or the numbers, the name, and the offset of the body with its length.\<close>

datatype net_result = NetError | NetMsg int "byte list" nat int

definition int32_at :: "byte list ptr \<Rightarrow> nat \<Rightarrow> int option" where
  "int32_at block off = map_option (\<lambda>bs. sint (of_nat (le_val bs) :: u32)) (mem_read block off 4)"

definition netunpack :: "nat \<Rightarrow> byte list ptr \<Rightarrow> int \<Rightarrow> net_result option" where
  "netunpack stack block len =
     (case (int32_at block 0, int32_at block 4) of
        (Some seq, Some nameLen) \<Rightarrow>
          if nameLen < 0 \<or> stack < nat nameLen + 1 then None
          else (case mem_read block 8 (nat nameLen) of
                  None \<Rightarrow> None
                | Some name \<Rightarrow>
                    let headLen = 8 + nameLen; bodyLen = len - headLen
                    in if bodyLen < 0 then Some NetError else Some (NetMsg seq name (nat headLen) bodyLen))
      | _ \<Rightarrow> None)"

subsection \<open>Round trip\<close>

text \<open>The message the framing delivers for a packet.\<close>

definition net_body :: "int \<Rightarrow> byte list \<Rightarrow> byte list \<Rightarrow> byte list" where
  "net_body seq name body = le_bytes 4 (nat (seq mod 2 ^ 32)) @ le_bytes 4 (length name) @ name @ body"

lemma length_net_body [simp]: "length (net_body seq name body) = 8 + length name + length body"
  by (simp add: net_body_def)

lemma mem_write_prefix:
  "length p = off \<Longrightarrow> mem_write (Some (p @ replicate (length src + k) fill)) off src = Some (p @ src @ replicate k fill)"
  by (simp add: mem_write_def)

lemma netpack_frame:
  assumes "8 + length name + length body \<le> max_len"
  shows "netpack fill seq name (Some body) (length body) = Some (frame (net_body seq name body), 12 + int (length name + length body))"
proof -
  define n where "n = length name + 8 + length body"
  have n: "n < 2 ^ 31" using assms by (simp add: n_def max_len_def)
  have len: "unat (netpack_len name (length body)) = n" "sint (netpack_len name (length body)) = int n"
  proof -
    have l: "netpack_len name (length body) = of_nat n" by (simp only: netpack_len_def n_def)
    show u: "unat (netpack_len name (length body)) = n" unfolding l using n by (simp add: unat_of_nat)
    show "sint (netpack_len name (length body)) = int n"
      using sint_unat32 [of "netpack_len name (length body)"] n unfolding u by simp
  qed
  note w = mem_write_prefix [of _ _ _ _ fill]
  have r: "replicate (n + 4) fill = [] @ replicate (length (le_bytes 4 n) + (n - 0)) fill" by simp
  have 1: "mem_write (Some (replicate (nat (int n + 4)) fill)) 0 (le_bytes 4 n) = Some (le_bytes 4 n @ replicate n fill)"
    using w [of "[]" 0 "le_bytes 4 n" n] by (simp add: nat_add_distrib add.commute)
  have 2: "mem_write (Some (le_bytes 4 n @ replicate n fill)) 4 (le_bytes 4 s) = Some (le_bytes 4 n @ le_bytes 4 s @ replicate (n - 4) fill)" for s
  proof -
    have "n = length (le_bytes 4 s) + (n - 4)" by (simp add: n_def)
    then show ?thesis using w [of "le_bytes 4 n" 4 "le_bytes 4 s" "n - 4"] by (simp only: length_le_bytes)
  qed
  have 3: "mem_write (Some (le_bytes 4 n @ le_bytes 4 s @ replicate (n - 4) fill)) 8 (le_bytes 4 l) =
      Some (le_bytes 4 n @ le_bytes 4 s @ le_bytes 4 l @ replicate (length name + length body) fill)" for s l
  proof -
    have "n - 4 = length (le_bytes 4 l) + (length name + length body)" by (simp add: n_def)
    then show ?thesis using w [of "le_bytes 4 n @ le_bytes 4 s" 8 "le_bytes 4 l" "length name + length body"]
      by (simp only: append_assoc length_append length_le_bytes)
  qed
  have 4: "mem_write (Some (le_bytes 4 n @ le_bytes 4 s @ le_bytes 4 l @ replicate (length name + length body) fill)) 12 name =
      Some (le_bytes 4 n @ le_bytes 4 s @ le_bytes 4 l @ name @ replicate (length body) fill)" for s l
    using w [of "le_bytes 4 n @ le_bytes 4 s @ le_bytes 4 l" 12 name "length body"] by simp
  have 5: "mem_write (Some (le_bytes 4 n @ le_bytes 4 s @ le_bytes 4 l @ name @ replicate (length body) fill)) (12 + length name) body =
      Some (le_bytes 4 n @ le_bytes 4 s @ le_bytes 4 l @ name @ body)" for s l
    using w [of "le_bytes 4 n @ le_bytes 4 s @ le_bytes 4 l @ name" "12 + length name" body 0] by simp
  have rd: "mem_read (Some body) 0 (length body) = Some body" by (simp add: mem_read_def)
  have "frame (net_body seq name body) = le_bytes 4 n @ le_bytes 4 (nat (seq mod 2 ^ 32)) @ le_bytes 4 (length name) @ name @ body"
    by (simp add: frame_def net_body_def n_def add.commute add.left_commute)
  then show ?thesis
    by (simp only: netpack_def Let_def len 1 2 3 4 5 rd option.case option.map) (simp add: n_def)
qed

lemma le_val_4: "v < 2 ^ 32 \<Longrightarrow> le_val (le_bytes 4 v) = v"
  by (simp add: le_val_le_bytes)

lemma netunpack_body:
  assumes "8 + length name + length body \<le> max_len" "length name < stack" "- (2 ^ 31) \<le> seq" "seq < 2 ^ 31"
  shows "netunpack stack (Some (net_body seq name body @ [x])) (int (length (net_body seq name body))) =
      Some (NetMsg seq name (8 + length name) (int (length body)))"
    "take (length body) (drop (8 + length name) (net_body seq name body)) = body"
proof -
  have l: "length name < 2 ^ 31" using assms(1) by (simp add: max_len_def)
  have s: "sint (of_nat (nat (seq mod 2 ^ 32)) :: u32) = seq"
  proof -
    have "(of_nat (nat (seq mod 2 ^ 32)) :: u32) = word_of_int (seq mod 2 ^ 32)" by simp
    also have "\<dots> = word_of_int seq" by (rule word_of_int_eq_iff [THEN iffD2]) (simp add: take_bit_eq_mod)
    finally show ?thesis using assms(3,4) by (simp add: signed_of_int signed_take_bit_int_eq_self)
  qed
  have 1: "int32_at (Some (net_body seq name body @ [x])) 0 = Some seq"
    using le_val_4 [of "nat (seq mod 2 ^ 32)"] s by (simp add: int32_at_def mem_read_def net_body_def nat_less_iff)
  have 2: "int32_at (Some (net_body seq name body @ [x])) 4 = Some (int (length name))"
    using le_val_4 [of "length name"] l sint_unat32 [of "of_nat (length name) :: u32"]
    by (simp add: int32_at_def mem_read_def net_body_def unat_of_nat)
  have 3: "mem_read (Some (net_body seq name body @ [x])) 8 (length name) = Some name"
    by (simp add: mem_read_def net_body_def)
  show "netunpack stack (Some (net_body seq name body @ [x])) (int (length (net_body seq name body))) =
      Some (NetMsg seq name (8 + length name) (int (length body)))"
    using assms(2) by (simp add: netunpack_def 1 2 3 Let_def nat_add_distrib)
  show "take (length body) (drop (8 + length name) (net_body seq name body)) = body"
    by (simp add: net_body_def)
qed

text \<open>
  The bytes a sender hands to the socket for a call, and what the receiver gets from a
  delivered message: the call, if net_unpack pushes one.
\<close>

definition net_bytes :: "byte \<Rightarrow> int \<times> byte list \<times> byte list \<Rightarrow> byte list option" where
  "net_bytes fill p = (case p of (seq, name, body) \<Rightarrow>
     map_option (\<lambda>(b, sz). take (nat sz) b) (netpack fill seq name (Some body) (length body)))"

definition net_receive :: "nat \<Rightarrow> byte \<Rightarrow> byte list \<Rightarrow> (int \<times> byte list \<times> byte list) option" where
  "net_receive stack x m =
     (case netunpack stack (Some (m @ [x])) (int (length m)) of
        Some (NetMsg seq name off len) \<Rightarrow> Some (seq, name, take (nat len) (drop off m))
      | _ \<Rightarrow> None)"

text \<open>A call that fits a message of at most \<open>M\<close> bytes, and the receiver's stack.\<close>

definition net_ok :: "nat \<Rightarrow> nat \<Rightarrow> int \<times> byte list \<times> byte list \<Rightarrow> bool" where
  "net_ok M stack p = (case p of (seq, name, body) \<Rightarrow>
     8 + length name + length body \<le> M \<and> length name < stack \<and> - (2 ^ 31) \<le> seq \<and> seq < 2 ^ 31)"

lemma net_bytes_frame:
  assumes "net_ok M stack p" "M \<le> max_len"
  shows "net_bytes fill p = Some (frame (case p of (seq, name, body) \<Rightarrow> net_body seq name body))"
proof -
  obtain seq name body where p: "p = (seq, name, body)" by (cases p)
  have "8 + length name + length body \<le> max_len" using assms by (simp add: net_ok_def p)
  then show ?thesis by (simp add: net_bytes_def p netpack_frame frame_def)
qed

lemma net_receive_body:
  assumes "net_ok M stack p" "M \<le> max_len"
  shows "net_receive stack x (case p of (seq, name, body) \<Rightarrow> net_body seq name body) = Some p"
proof -
  obtain seq name body where p: "p = (seq, name, body)" by (cases p)
  have "8 + length name + length body \<le> max_len" "length name < stack" "- (2 ^ 31) \<le> seq" "seq < 2 ^ 31"
    using assms by (simp_all add: net_ok_def p)
  note u = netunpack_body [OF this]
  show ?thesis by (simp add: net_receive_def p u(1) u(2) del: length_net_body)
qed

subsection \<open>Properties\<close>

text \<open>
  C5: a remote call arrives as it was sent. Calls that net_pack encodes (numbers in the 32-bit
  range, a packet of at most 10 MB), however the network cuts their bytes into pieces that fit
  the read buffer, are delivered by the framing one message per call, in order, and net_unpack
  gives the number, the name and the body of each.
\<close>
theorem net_call_roundtrip:
  assumes "unat sz < 2 ^ 30" "0 < unat sz" "\<forall>p \<in> set ps. net_ok M stack p" "M \<le> max_len"
    "\<forall>c \<in> set cs. length c + M + 4 \<le> unat sz" "map Some pkts = map (net_bytes fill) ps" "concat cs = concat pkts"
  shows "\<exists>ms b. feed fill' (bufferCreate fill' sz) cs = Some (ms, b, False) \<and> buf_bytes b = [] \<and>
    map (net_receive stack x) ms = map Some ps"
proof -
  let ?body = "\<lambda>p. case p of (seq, name, body) \<Rightarrow> net_body seq name body"
  let ?ms = "map ?body ps"
  have fr: "net_bytes fill p = Some (frame (?body p))" if "p \<in> set ps" for p
    using net_bytes_frame assms(3,4) that by blast
  have "map (net_bytes fill) ps = map Some (map frame ?ms)" using fr by simp
  then have "map Some pkts = map Some (map frame ?ms)" using assms(6) by simp
  then have pk: "pkts = map frame ?ms" by (metis inj_Some inj_map_eq_map)
  have len: "\<forall>m \<in> set ?ms. length m \<le> M" using assms(3) by (auto simp: net_ok_def)
  have "concat cs = concat (map frame ?ms)" using assms(7) pk by (simp only:)
  then have cs: "\<forall>c \<in> set cs. length c + M + 4 \<le> unat (bf_size (bufferCreate fill' sz))"
    "buf_bytes (bufferCreate fill' sz) @ concat cs = concat (map frame ?ms)"
    using assms(5) bufferCreate_ok [of sz fill'] assms(1,2) by (simp_all add: bufferCreate_def)
  have "\<exists>b. feed fill' (bufferCreate fill' sz) cs = Some (?ms, b, False) \<and> buf_bytes b = []"
    by (rule feed_ok [OF _ _ len assms(4) cs])
      (use bufferCreate_ok [of sz fill'] assms(1,2) in \<open>simp_all add: frames_short bufferCreate_def\<close>)
  moreover have "map (net_receive stack x) ?ms = map Some ps"
    using net_receive_body assms(3,4) by (simp add: comp_def) blast
  ultimately show ?thesis by blast
qed

lemma net_call_roundtrip_witness:
  "\<exists>ms b. feed 0 (bufferCreate 0 64) [[9, 0, 0, 0, 7], [0, 0, 0, 1, 0, 0, 0, 65]] = Some (ms, b, False) \<and>
     buf_bytes b = [] \<and> map (net_receive 4096 0) ms = [Some (7, [65], [])]"
proof -
  have ok: "\<forall>p \<in> set [(7, [65], [])]. net_ok 20 4096 p" by (simp add: net_ok_def)
  have "net_body 7 [65] [] = [7, 0, 0, 0, 1, 0, 0, 0, 65]" by (simp add: net_body_def le_bytes_small)
  then have "map Some [[9, 0, 0, 0, 7, 0, 0, 0, 1, 0, 0, 0, 65]] = map (net_bytes 0) [(7, [65], [])]"
    using net_bytes_frame [of 20 4096 "(7, [65], [])" 0] ok by (simp add: frame_def le_bytes_small max_len_def)
  from net_call_roundtrip [OF _ _ ok _ _ this, of 64 "[[9, 0, 0, 0, 7], [0, 0, 0, 1, 0, 0, 0, 65]]" 0 0]
  show ?thesis by (simp add: max_len_def)
qed

text \<open>
  C29: net_unpack trusts the length of the name that the peer sent. For a delivered message whose
  second word is negative, or larger than what is left of the block behind the first two words,
  it copies from outside the block (or makes an array of no size) and only then compares the
  lengths, so the "body len error" it has for this case comes too late.
\<close>
theorem net_unpack_trusts_peer:
  assumes "8 \<le> length m" "int32_at (Some m) 4 = Some nameLen" "nameLen < 0 \<or> int (length m) + 1 < 8 + nameLen"
  shows "netunpack stack (Some (m @ [x])) (int (length m)) = None"
proof -
  have "int32_at (Some (m @ [x])) 4 = Some nameLen" using assms(1,2) by (simp add: int32_at_def mem_read_def)
  moreover obtain seq where "int32_at (Some (m @ [x])) 0 = Some seq"
    using assms(1) by (simp add: int32_at_def mem_read_def)
  moreover have "mem_read (Some (m @ [x])) 8 (nat nameLen) = None" if "\<not> nameLen < 0"
    using that assms(3) by (simp add: mem_read_def)
  ultimately show ?thesis by (simp add: netunpack_def)
qed

lemma net_unpack_trusts_peer_witness:
  "netunpack 8192 (Some ([7, 0, 0, 0, 200, 0, 0, 0, 65] @ [0])) 9 = None \<and>
   frames [9, 0, 0, 0, 7, 0, 0, 0, 200, 0, 0, 0, 65] = ([[7, 0, 0, 0, 200, 0, 0, 0, 65]], [], False)"
proof
  have "le_val [200, 0, 0, 0] = 200" by simp
  then have "int32_at (Some [7, 0, 0, 0, 200, 0, 0, 0, 65]) 4 = Some 200"
    by (simp add: int32_at_def mem_read_def numeral_eq_Suc)
  from net_unpack_trusts_peer [OF _ this, of 8192 0]
  show "netunpack 8192 (Some ([7, 0, 0, 0, 200, 0, 0, 0, 65] @ [0])) 9 = None" by simp
  have "frames (frame [7, 0, 0, 0, 200, 0, 0, 0, 65] @ []) = ([[7, 0, 0, 0, 200, 0, 0, 0, 65]], [], False)"
    by (subst frames_frame) (simp_all add: max_len_def frames_short)
  then show "frames [9, 0, 0, 0, 7, 0, 0, 0, 200, 0, 0, 0, 65] = ([[7, 0, 0, 0, 200, 0, 0, 0, 65]], [], False)"
    by (simp add: frame_def le_bytes_small)
qed

end
