(* ===== verification/LuaZ.thy ===== *)
theory LuaZ
  imports WorkerPool NameMgr Socket
begin

section \<open>Messages of Lua contexts (src/lualib-src/lua-z.c, zSend of src/z.c)\<close>

text \<open>
  A Lua service sends with z.send and z.redirect, which take the receiver by id or by name, and
  gets messages as a call of its callback: kind, sender, session, data and size, and for a message of the
  network thread the event and the socket besides. This theory has these functions on the
  arguments of a Lua call, and workerPoolSend run to its end by one thread (the theory WorkerPool
  has its steps among those of other threads, and what can go wrong between them).

  The state is the name manager, with the context manager and the contexts in it, the run queue,
  and in \<open>zl_lost\<close> the data blocks that workerPoolSend was given and neither queued nor freed.
  \<open>None\<close> is a crash. The conversion of a text to an integer is Lua's (\<open>toint\<close>); numbers are
  integers.

  The theorems: a message sent to a name ends in the mailbox of the context of that name, and
  its callback gets the sender, the kind, the session that z.send returned and the data; a message
  of the network thread reaches the callback with its event and socket; and a send to an unknown
  name leaks the copy of its data.
\<close>

subsection \<open>Lua values\<close>

datatype lua_value =
    LNil
  | LBool bool
  | LNum int
  | LStr string
  | LLight "byte list ptr"       \<comment> \<open>light userdata: a block\<close>
  | LTable "lua_value list"

datatype lua_ret = LuaError | LuaRet "lua_value list"

text \<open>The argument at an index from 0 on; \<open>None\<close> is LUA_TNONE.\<close>

definition lua_arg :: "lua_value list \<Rightarrow> nat \<Rightarrow> lua_value option" where
  "lua_arg args i = (if i < length args then Some (args ! i) else None)"

definition luaL_checkinteger :: "(string \<Rightarrow> int option) \<Rightarrow> lua_value option \<Rightarrow> int option" where
  "luaL_checkinteger toint v =
     (case v of Some (LNum i) \<Rightarrow> Some i | Some (LStr s) \<Rightarrow> toint s | _ \<Rightarrow> None)"

text \<open>The C string that lua_tolstring gives.\<close>

definition lua_cstring :: "lua_value option \<Rightarrow> string option" where
  "lua_cstring v =
     (case v of Some (LStr s) \<Rightarrow> Some (takeWhile (\<lambda>c. c \<noteq> CHR 0x00) s) | Some (LNum i) \<Rightarrow> Some (dec_int i) | _ \<Rightarrow> None)"

definition str_bytes :: "string \<Rightarrow> byte list" where
  "str_bytes s = map (\<lambda>c. of_nat (of_char c)) s"

subsection \<open>workerPoolSend\<close>

record zl =
  zl_names :: nameMgr
  zl_run :: "nat contextQueue"
  zl_lost :: "byte list list"

definition zl_heap :: "zl \<Rightarrow> heap" where "zl_heap s = nm_heap (zl_names s)"

definition set_heap :: "heap \<Rightarrow> zl \<Rightarrow> zl" where
  "set_heap h s = s\<lparr>zl_names := (zl_names s)\<lparr>nm_heap := h\<rparr>\<rparr>"

text \<open>The session of the message, and the heap behind contextNewsession.\<close>

definition send_session :: "send_args \<Rightarrow> heap \<Rightarrow> (u32 \<times> heap) option" where
  "send_session x h =
     (if send_new x
      then (case sa_ctx x of
              None \<Rightarrow> None
            | Some b \<Rightarrow> (case h b of
                None \<Rightarrow> None
              | Some c \<Rightarrow> (case contextNewsession c of (i, c') \<Rightarrow> Some (i, h(b \<mapsto> c')))))
      else Some (sa_session x, h))"

text \<open>The part behind messageQueuePush: the context is scheduled, or the reference given back.\<close>

definition send_schedule :: "nat \<Rightarrow> zl \<Rightarrow> zl option" where
  "send_schedule a s =
     (case zl_heap s a of
        None \<Rightarrow> None
      | Some c \<Rightarrow>
          if ctx_inGlobal c = 0
          then Some ((set_heap ((zl_heap s)(a \<mapsto> c\<lparr>ctx_inGlobal := 1\<rparr>)) s)\<lparr>zl_run := snd (cxq_enq a (zl_run s))\<rparr>)
          else (case ctxMgrReleaseContext (nm_mgr (zl_names s)) (zl_heap s) a of
                  None \<Rightarrow> None
                | Some (m, h) \<Rightarrow> Some (s\<lparr>zl_names := (zl_names s)\<lparr>nm_mgr := m, nm_heap := h\<rparr>\<rparr>)))"

definition workerPoolSend :: "send_args \<Rightarrow> zl \<Rightarrow> (int \<times> zl) option" where
  "workerPoolSend x0 s =
     (case send_from (zl_heap s) x0 of
        None \<Rightarrow> None
      | Some x \<Rightarrow>
          if sa_to x = 0
          then Some (-1, s\<lparr>zl_lost := zl_lost s @ (case sa_data x of None \<Rightarrow> [] | Some b \<Rightarrow> [b])\<rparr>)
          else (case ctxMgrGetContext (nm_mgr (zl_names s)) (zl_heap s) (sa_to x) of
                  None \<Rightarrow> None
                | Some (None, h) \<Rightarrow> Some (-1, s)
                | Some (Some a, h1) \<Rightarrow>
          (case send_session x h1 of
             None \<Rightarrow> None
           | Some (ses, h2) \<Rightarrow>
          (case h2 a of
             None \<Rightarrow> None
           | Some c \<Rightarrow>
          (case mq_enq (WorkerPool.send_msg x ses) (ctx_queue c) of
             (ok, q) \<Rightarrow>
               if \<not> ok then None
               else map_option (\<lambda>s'. (sint ses, s')) (send_schedule a (set_heap (h2(a \<mapsto> c\<lparr>ctx_queue := q\<rparr>)) s)))))))"

definition zSend :: "nat ptr \<Rightarrow> u32 \<Rightarrow> u32 \<Rightarrow> u32 \<Rightarrow> u32 \<Rightarrow> byte list ptr \<Rightarrow> u64 \<Rightarrow> zl \<Rightarrow> (int \<times> zl) option" where
  "zSend ctx from1 to1 session ty dat sz s =
     workerPoolSend \<lparr>sa_ctx = ctx, sa_from = from1, sa_to = to1, sa_session = session, sa_type = ty,
       sa_data = dat, sa_sz = sz, sa_ud = 0\<rparr> s"

definition zSendx :: "nat ptr \<Rightarrow> u32 \<Rightarrow> u32 \<Rightarrow> u32 \<Rightarrow> u32 \<Rightarrow> byte list ptr \<Rightarrow> u64 \<Rightarrow> u32 \<Rightarrow> zl \<Rightarrow> (int \<times> zl) option" where
  "zSendx ctx from1 to1 session ty dat sz ud s =
     workerPoolSend \<lparr>sa_ctx = ctx, sa_from = from1, sa_to = to1, sa_session = session, sa_type = ty,
       sa_data = dat, sa_sz = sz, sa_ud = ud\<rparr> s"

subsection \<open>Sending\<close>

text \<open>A receiver: a number, or a name (0 when it is unknown); anything else is an error.\<close>

definition lua_target :: "lua_value option \<Rightarrow> zl \<Rightarrow> (u32 option \<times> zl) option" where
  "lua_target v s =
     (case v of
        Some (LNum i) \<Rightarrow> Some (Some (word_of_int i), s)
      | Some (LStr t) \<Rightarrow>
          map_option (\<lambda>(i, n). (Some i, s\<lparr>zl_names := n\<rparr>)) (nameMgrGetId (zl_names s) (takeWhile (\<lambda>c. c \<noteq> CHR 0x00) t))
      | _ \<Rightarrow> Some (None, s))"

text \<open>
  The data: a copy of a string in a block one byte longer, whose last byte is \<open>x\<close>, or a block with a size.
\<close>

definition lua_data :: "(string \<Rightarrow> int option) \<Rightarrow> byte \<Rightarrow> lua_value option \<Rightarrow> lua_value option \<Rightarrow> (byte list ptr \<times> u64) option" where
  "lua_data toint x v w =
     (case v of
        Some (LStr t) \<Rightarrow> Some (Some (str_bytes t @ [x]), of_nat (length t))
      | Some (LLight p) \<Rightarrow> map_option (\<lambda>i. (p, word_of_int i)) (luaL_checkinteger toint w)
      | _ \<Rightarrow> None)"

definition lua_send :: "(string \<Rightarrow> int option) \<Rightarrow> byte \<Rightarrow> nat \<Rightarrow> lua_value list \<Rightarrow> zl \<Rightarrow> (lua_ret \<times> zl) option" where
  "lua_send toint x ctx args s =
     (case lua_target (lua_arg args 0) s of
        None \<Rightarrow> None
      | Some (None, s1) \<Rightarrow> Some (LuaError, s1)
      | Some (Some to1, s1) \<Rightarrow>
          (case (luaL_checkinteger toint (lua_arg args 2),
                 if lua_arg args 1 = Some LNil then Some None
                 else map_option Some (luaL_checkinteger toint (lua_arg args 1)),
                 if lua_arg args 3 = Some LNil then Some (None, 0)
                 else lua_data toint x (lua_arg args 3) (lua_arg args 4)) of
             (Some ty, Some ses, Some (dat, sz)) \<Rightarrow>
               map_option (\<lambda>(r, s2). (LuaRet (if r < 0 then [] else [LNum r]), s2))
                 (zSend (Some ctx) 0 to1
                    (case ses of None \<Rightarrow> 0 | Some i \<Rightarrow> word_of_int i)
                    (case ses of None \<Rightarrow> word_of_int ty OR MSG_TYPE_NEWSESSION | Some i \<Rightarrow> word_of_int ty) dat sz s1)
           | _ \<Rightarrow> Some (LuaError, s1)))"

definition lua_redirect :: "(string \<Rightarrow> int option) \<Rightarrow> byte \<Rightarrow> nat \<Rightarrow> lua_value list \<Rightarrow> zl \<Rightarrow> (lua_ret \<times> zl) option" where
  "lua_redirect toint x ctx args s =
     (case lua_target (lua_arg args 0) s of
        None \<Rightarrow> None
      | Some (None, s1) \<Rightarrow> Some (LuaError, s1)
      | Some (Some from1, s1) \<Rightarrow>
     (case lua_target (lua_arg args 1) s1 of
        None \<Rightarrow> None
      | Some (None, s2) \<Rightarrow> Some (LuaError, s2)
      | Some (Some to1, s2) \<Rightarrow>
          (case (luaL_checkinteger toint (lua_arg args 2), luaL_checkinteger toint (lua_arg args 3),
                 lua_data toint x (lua_arg args 4) (lua_arg args 5)) of
             (Some ses, Some ty, Some (dat, sz)) \<Rightarrow>
               map_option (\<lambda>(r, s3). (LuaRet [], s3))
                 (zSend (Some ctx) from1 to1 (word_of_int ses) (word_of_int ty) dat sz s2)
           | _ \<Rightarrow> Some (LuaError, s2))))"

subsection \<open>Receiving\<close>

text \<open>What _cb pushes for the call of the callback.\<close>

definition cb_args :: "message \<Rightarrow> lua_value list" where
  "cb_args msg =
     (let proto_type = uint (msg_type msg AND 0x0000FFFF)
      in [LNum proto_type, LNum (uint (msg_from msg)), LNum (uint (msg_session msg)), LLight (msg_data msg),
          LNum (uint (msg_sz msg))] @
         (if proto_type \<noteq> uint MSG_TYPE_PROTO_SOCKET then []
          else [LNum (uint (drop_bit 16 (msg_type msg) AND 0xFFFF)), LNum (uint (msg_ud msg))]))"

definition lua_sockettostring :: "(string \<Rightarrow> int option) \<Rightarrow> lua_value list \<Rightarrow> lua_ret option" where
  "lua_sockettostring toint args =
     (case lua_arg args 0 of
        None \<Rightarrow> Some (LuaRet [])
      | Some LNil \<Rightarrow> Some (LuaRet [])
      | Some (LLight (Some blk)) \<Rightarrow>
          (case luaL_checkinteger toint (lua_arg args 1) of
             None \<Rightarrow> Some LuaError
           | Some n \<Rightarrow>
               if n < 0 then None
               else map_option (\<lambda>bs. LuaRet [LStr (map (\<lambda>b. char_of (unat b)) bs)]) (mem_read (Some blk) 0 (nat n)))
      | _ \<Rightarrow> Some LuaError)"

subsection \<open>Names\<close>

definition lua_regist :: "(string \<Rightarrow> int option) \<Rightarrow> nat \<Rightarrow> lua_value list \<Rightarrow> zl \<Rightarrow> (lua_ret \<times> zl) option" where
  "lua_regist toint ctx args s =
     (case zl_heap s ctx of
        None \<Rightarrow> None
      | Some c \<Rightarrow>
          (case (case lua_arg args 1 of
                   Some (LNum i) \<Rightarrow> Some (word_of_int i)
                 | Some LNil \<Rightarrow> Some (ctx_id c)
                 | _ \<Rightarrow> None) of
             None \<Rightarrow> Some (LuaError, s)
           | Some i \<Rightarrow>
               (case lua_cstring (lua_arg args 0) of
                  None \<Rightarrow> None
                | Some name \<Rightarrow>
                    map_option (\<lambda>(r, n). (LuaRet [LNum r], s\<lparr>zl_names := n\<rparr>)) (nameMgrRegist (zl_names s) name i))))"

definition lua_unregist :: "lua_value list \<Rightarrow> zl \<Rightarrow> (lua_ret \<times> zl) option" where
  "lua_unregist args s =
     (case lua_cstring (lua_arg args 0) of
        None \<Rightarrow> None
      | Some name \<Rightarrow>
          map_option (\<lambda>(r, n). (LuaRet [LNum r], s\<lparr>zl_names := n\<rparr>)) (nameMgrUnRegist (zl_names s) name))"

definition lua_name2id :: "lua_value list \<Rightarrow> zl \<Rightarrow> (lua_ret \<times> zl) option" where
  "lua_name2id args s =
     (case lua_cstring (lua_arg args 0) of
        None \<Rightarrow> None
      | Some name \<Rightarrow>
          map_option (\<lambda>(i, n). (LuaRet (if 0 < sint i then [LNum (sint i)] else []), s\<lparr>zl_names := n\<rparr>))
            (nameMgrGetId (zl_names s) name))"

definition lua_self :: "nat \<Rightarrow> zl \<Rightarrow> lua_ret option" where
  "lua_self ctx s = map_option (\<lambda>c. LuaRet [LNum (uint (ctx_id c))]) (zl_heap s ctx)"

subsection \<open>A send to a live context\<close>

text \<open>A context that can take another message, and how it is behind the send.\<close>

definition takes :: "zl \<Rightarrow> nat \<Rightarrow> bool" where
  "takes s a \<longleftrightarrow> (\<exists>c. zl_heap s a = Some c \<and> mq_wf (ctx_queue c) \<and> mq_room (ctx_queue c))"

definition mailbox :: "zl \<Rightarrow> nat \<Rightarrow> message list" where
  "mailbox s a = mq_list (ctx_queue (the (zl_heap s a)))"

text \<open>
  From \<open>s\<close> to \<open>s'\<close> the context at \<open>a\<close> has been scheduled: it carries the mark, and if it had none, it has become the last
  entry of the run queue. A run queue without room refuses it; workerPoolSend does not look at that.
\<close>

definition scheduled :: "zl \<Rightarrow> zl \<Rightarrow> nat \<Rightarrow> bool" where
  "scheduled s s' a \<longleftrightarrow> (\<exists>c c'. zl_heap s a = Some c \<and> zl_heap s' a = Some c' \<and> ctx_inGlobal c' \<noteq> 0 \<and>
     cxq_list (zl_run s') = cxq_list (zl_run s) @ (if ctx_inGlobal c = 0 \<and> cxq_room (zl_run s) then [a] else []))"

lemma cxq_list_enq:
  "cxq_wf q \<Longrightarrow> cxq_list (snd (cxq_enq a q)) = cxq_list q @ (if cxq_room q then [a] else [])"
  by (cases "cxq_enq a q") (auto dest: cxq.push_room cxq.push_full)

lemma zl_heap_set [simp]: "zl_heap (set_heap h s) = h" "zl_names (set_heap h s) = (zl_names s)\<lparr>nm_heap := h\<rparr>"
  "zl_lost (set_heap h s) = zl_lost s" "zl_run (set_heap h s) = zl_run s"
  by (simp_all add: zl_heap_def set_heap_def)

lemma send_schedule_ok:
  assumes "zl_heap s a = Some c" "ctx_ref c \<noteq> 1"
  shows "\<exists>s' c'. send_schedule a s = Some s' \<and> zl_lost s' = zl_lost s \<and> zl_heap s' = (zl_heap s)(a \<mapsto> c') \<and>
    ctx_inGlobal c' \<noteq> 0 \<and> zl_run s' = (if ctx_inGlobal c = 0 then snd (cxq_enq a (zl_run s)) else zl_run s) \<and>
    ctx_queue c' = ctx_queue c \<and> ctx_cb c' = ctx_cb c \<and> ctx_id c' = ctx_id c \<and> nm_mgr (zl_names s') = nm_mgr (zl_names s) \<and>
    nm_dict (zl_names s') = nm_dict (zl_names s)"
  using assms
  by (cases "ctx_inGlobal c = 0")
    (auto simp: send_schedule_def ctxMgrReleaseContext_def contextRelease_def zl_heap_def set_heap_def)

text \<open>
  The message is the next that contextDispatchMessage hands to the callback, if the mailbox was empty, there is a
  callback and it is not the exit message.
\<close>

definition handles :: "zl \<Rightarrow> zl \<Rightarrow> nat \<Rightarrow> message \<Rightarrow> bool" where
  "handles s s' a msg \<longleftrightarrow>
     (mailbox s a = [] \<and> ctx_cb (the (zl_heap s a)) \<noteq> None \<and> msg_type msg \<noteq> MSG_TYPE_EXIT_CONTEXT \<longrightarrow>
        (\<exists>h. contextDispatchMessage (zl_heap s') a = Some (0, Called msg, h)))"

lemma handlesI:
  assumes "zl_heap s' a = Some c'" "ctx_cb c' = ctx_cb (the (zl_heap s a))" "mq_wf (ctx_queue c')"
    "mq_list (ctx_queue c') = mailbox s a @ [msg]"
  shows "handles s s' a msg"
  using context_dispatch [of "zl_heap s'" a, OF assms(1,3)] assms(2,4) by (auto simp: handles_def)

text \<open>The session: a fresh one of the sender's, or the one given.\<close>

lemma workerPoolSend_ok:
  assumes from1: "send_from (zl_heap s) x0 = Some x" and to1: "sa_to x \<noteq> 0"
    and look: "ctxMgrLookup (nm_mgr (zl_names s)) (sa_to x) = Some a" and tk: "takes s a"
    and run: "cxq_wf (zl_run s)"
    and ref: "\<And>c. zl_heap s a = Some c \<Longrightarrow> ctx_ref c \<noteq> 0"
    and new: "send_new x \<Longrightarrow> sa_ctx x = Some b \<and> zl_heap s b = Some cb"
    and ses: "ses = (if send_new x then fst (contextNewsession cb) else sa_session x)"
  shows "\<exists>s'. workerPoolSend x0 s = Some (sint ses, s') \<and> scheduled s s' a \<and> zl_lost s' = zl_lost s \<and>
    mailbox s' a = mailbox s a @ [WorkerPool.send_msg x ses] \<and> handles s s' a (WorkerPool.send_msg x ses) \<and>
    map_option ctx_cb (zl_heap s' a) = map_option ctx_cb (zl_heap s a) \<and>
    nm_dict (zl_names s') = nm_dict (zl_names s)"
proof -
  obtain ca where ca: "zl_heap s a = Some ca" "mq_wf (ctx_queue ca)" "mq_room (ctx_queue ca)" using tk by (auto simp: takes_def)
  let ?h1 = "(zl_heap s)(a \<mapsto> ca\<lparr>ctx_ref := ctx_ref ca + 1\<rparr>)"
  have get: "ctxMgrGetContext (nm_mgr (zl_names s)) (zl_heap s) (sa_to x) = Some (Some a, ?h1)"
    using look ca(1) by (simp add: ctxMgrGetContext_def contextRetain_def Let_def)
  have "\<exists>h2 c2. send_session x ?h1 = Some (ses, h2) \<and> h2 a = Some c2 \<and> ctx_queue c2 = ctx_queue ca \<and> ctx_cb c2 = ctx_cb ca \<and>
      ctx_ref c2 = ctx_ref ca + 1 \<and> ctx_inGlobal c2 = ctx_inGlobal ca"
  proof (cases "send_new x")
    case True
    then show ?thesis using new ses ca(1)
      by (cases "a = b") (auto simp: send_session_def contextNewsession_def Let_def)
  next
    case False
    then show ?thesis using ses by (simp add: send_session_def)
  qed
  then obtain h2 c2 where h2: "send_session x ?h1 = Some (ses, h2)" "h2 a = Some c2" "ctx_queue c2 = ctx_queue ca"
    "ctx_cb c2 = ctx_cb ca" "ctx_ref c2 = ctx_ref ca + 1" "ctx_inGlobal c2 = ctx_inGlobal ca" by blast
  obtain ok q where q: "mq_enq (WorkerPool.send_msg x ses) (ctx_queue c2) = (ok, q)" by (cases "mq_enq (WorkerPool.send_msg x ses) (ctx_queue c2)")
  then have qs: "ok" "mq_list q = mq_list (ctx_queue ca) @ [WorkerPool.send_msg x ses]" "mq_wf q"
    using mq.push_room [of "ctx_queue ca" "WorkerPool.send_msg x ses" ok q]
      mq.invar_push [of "ctx_queue ca" "WorkerPool.send_msg x ses" ok q] ca(2,3) h2(3) by auto
  let ?s = "set_heap (h2(a \<mapsto> c2\<lparr>ctx_queue := q\<rparr>)) s"
  have "ctx_ref (c2\<lparr>ctx_queue := q\<rparr>) \<noteq> 1" using h2(5) ref [OF ca(1)] by simp
  then obtain s' c' where s': "send_schedule a ?s = Some s'" "zl_lost s' = zl_lost s"
    "ctx_inGlobal c' \<noteq> 0" "zl_run s' = (if ctx_inGlobal ca = 0 then snd (cxq_enq a (zl_run s)) else zl_run s)"
    "zl_heap s' = (zl_heap ?s)(a \<mapsto> c')" "ctx_queue c' = q" "ctx_cb c' = ctx_cb ca" "nm_dict (zl_names s') = nm_dict (zl_names s)"
    using send_schedule_ok [of ?s a "c2\<lparr>ctx_queue := q\<rparr>"] h2(4,6) by auto
  have "scheduled s s' a"
    using s'(3-5) ca(1) cxq_list_enq [OF run, of a] by (auto simp: scheduled_def)
  moreover have "handles s s' a (WorkerPool.send_msg x ses)"
    using s'(5-7) ca(1) qs(2,3) by (auto simp: mailbox_def intro!: handlesI)
  moreover have "workerPoolSend x0 s = Some (sint ses, s')"
    using from1 to1 get h2(1,2) q qs(1) s'(1) by (simp add: workerPoolSend_def)
  ultimately show ?thesis using s' qs(2) ca(1) by (auto simp: mailbox_def)
qed

subsection \<open>Well-formed states\<close>

definition heap_ok :: "heap \<Rightarrow> bool" where
  "heap_ok h \<longleftrightarrow> (\<forall>a c. h a = Some c \<longrightarrow> 1 \<le> unat (ctx_ref c) \<and> mq_wf (ctx_queue c))"

definition zl_ok :: "zl \<Rightarrow> bool" where
  "zl_ok s \<longleftrightarrow> nm_inv (zl_names s) \<and> heap_ok (zl_heap s) \<and> cxq_wf (zl_run s)"

text \<open>
  The run queue is exact: it has each context at most once, the marked contexts are those in it and those
  that a worker runs (\<open>R\<close>), and they are alive.
\<close>

definition sched_ok :: "nat set \<Rightarrow> zl \<Rightarrow> bool" where
  "sched_ok R s \<longleftrightarrow> distinct (cxq_list (zl_run s)) \<and> R \<inter> set (cxq_list (zl_run s)) = {} \<and>
     (\<forall>a. a \<in> R \<union> set (cxq_list (zl_run s)) \<longleftrightarrow> (\<exists>c. zl_heap s a = Some c \<and> ctx_inGlobal c \<noteq> 0))"

text \<open>What a send leaves: a well-formed state with the same names and the same table of contexts.\<close>

definition zl_after :: "nat set \<Rightarrow> zl \<Rightarrow> zl \<Rightarrow> bool" where
  "zl_after R s s' \<longleftrightarrow> zl_ok s' \<and> name_ids (zl_names s') = name_ids (zl_names s) \<and>
     nm_mgr (zl_names s') = nm_mgr (zl_names s) \<and> (sched_ok R s \<and> cxq_room (zl_run s) \<longrightarrow> sched_ok R s')"

lemma name_ids_heap [simp]: "name_ids (n\<lparr>nm_heap := h\<rparr>) = name_ids n"
  by (simp add: name_ids_def fun_eq_iff)

lemma sched_ok_heap:
  assumes "\<And>a. map_option ctx_inGlobal (h a) = map_option ctx_inGlobal (zl_heap s a)"
  shows "sched_ok R (set_heap h s) = sched_ok R s"
proof -
  have "(\<exists>c. h a = Some c \<and> ctx_inGlobal c \<noteq> 0) \<longleftrightarrow> (\<exists>c. zl_heap s a = Some c \<and> ctx_inGlobal c \<noteq> 0)" for a
    using assms [of a] by (cases "h a"; cases "zl_heap s a") auto
  then show ?thesis by (simp add: sched_ok_def)
qed

text \<open>No reference count is about to wrap around.\<close>

definition refs_left :: "zl \<Rightarrow> bool" where
  "refs_left s \<longleftrightarrow> (\<forall>a c. zl_heap s a = Some c \<longrightarrow> unat (ctx_ref c) < 2 ^ 32 - 1)"

definition mailbox_full :: "zl \<Rightarrow> bool" where
  "mailbox_full s \<longleftrightarrow> (\<exists>a c. zl_heap s a = Some c \<and> \<not> mq_room (ctx_queue c))"

lemma zl_ok_heap:
  assumes "zl_ok s" "heap_ok h" "\<And>a. map_option ctx_id (h a) = map_option ctx_id (zl_heap s a)"
  shows "zl_ok (set_heap h s)"
proof -
  have "cm_inv h (nm_mgr (zl_names s))"
    using cm_inv_cong [of "zl_heap s"] assms(1,3) by (auto simp: zl_ok_def nm_inv_def zl_heap_def)
  then show ?thesis using assms(1,2) by (auto simp: zl_ok_def nm_inv_def heap_ok_def)
qed

lemma heap_ok_upd: "heap_ok h \<Longrightarrow> 1 \<le> unat (ctx_ref c) \<Longrightarrow> mq_wf (ctx_queue c) \<Longrightarrow> heap_ok (h(a \<mapsto> c))"
  by (simp add: heap_ok_def)

lemma cxq_wf_enq: "cxq_wf q \<Longrightarrow> cxq_wf (snd (cxq_enq a q))"
  by (cases "cxq_enq a q") (auto dest: cxq.invar_push)

lemma ref_up: "unat (ctx_ref c) < 2 ^ 32 - 1 \<Longrightarrow> unat (ctx_ref c + 1) = unat (ctx_ref c) + 1"
  by (simp add: unat_word_ariths)

lemma send_schedule_wf:
  assumes "zl_ok s" "zl_heap s a = Some c" "2 \<le> unat (ctx_ref c)"
  shows "\<exists>s'. send_schedule a s = Some s' \<and> zl_after R s s'"
proof (cases "ctx_inGlobal c = 0")
  case True
  let ?h = "(zl_heap s)(a \<mapsto> c\<lparr>ctx_inGlobal := 1\<rparr>)"
  let ?s = "(set_heap ?h s)\<lparr>zl_run := snd (cxq_enq a (zl_run s))\<rparr>"
  have hp: "heap_ok (zl_heap s)" and cx: "cxq_wf (zl_run s)" using assms(1) by (simp_all add: zl_ok_def)
  have "heap_ok ?h" using hp assms(2) by (auto intro!: heap_ok_upd simp: heap_ok_def)
  then have "zl_ok (set_heap ?h s)" by (rule zl_ok_heap [OF assms(1)]) (simp add: assms(2))
  then have "zl_ok ?s"
    using cxq_wf_enq [OF cx] by (simp add: zl_ok_def zl_heap_def)
  moreover have "sched_ok R ?s" if "sched_ok R s" "cxq_room (zl_run s)"
  proof -
    have "zl_heap ?s = ?h" by (simp add: zl_heap_def set_heap_def)
    moreover have "a \<notin> R \<union> set (cxq_list (zl_run s))"
      using that(1) True assms(2) unfolding sched_ok_def by auto
    ultimately show ?thesis using that cxq_list_enq [OF cx, of a] unfolding sched_ok_def by auto
  qed
  ultimately show ?thesis using True assms(2)
    by (intro exI [of _ ?s]) (simp add: send_schedule_def zl_after_def)
next
  case False
  let ?h = "(zl_heap s)(a \<mapsto> c\<lparr>ctx_ref := ctx_ref c - 1\<rparr>)"
  have r: "ctx_ref c \<noteq> 1" using assms(3) by auto
  have "unat (ctx_ref c - 1) = unat (ctx_ref c) - 1" using assms(3) by (simp add: unat_sub word_le_nat_alt)
  then have "heap_ok ?h" using assms by (auto intro!: heap_ok_upd simp: heap_ok_def zl_ok_def)
  then have "zl_ok (set_heap ?h s)" by (rule zl_ok_heap [OF assms(1)]) (simp add: assms(2))
  moreover have "sched_ok R (set_heap ?h s) = sched_ok R s" by (rule sched_ok_heap) (simp add: assms(2))
  moreover have "send_schedule a s = Some (set_heap ?h s)"
    using False assms(2) r by (simp add: send_schedule_def ctxMgrReleaseContext_def contextRelease_def set_heap_def)
  ultimately show ?thesis by (auto simp: zl_after_def)
qed

lemma workerPoolSend_wf:
  assumes ok: "zl_ok s" and refs: "refs_left s" and b: "sa_ctx x0 = Some b" "zl_heap s b = Some cb"
  shows "case workerPoolSend x0 s of None \<Rightarrow> mailbox_full s | Some (r, s') \<Rightarrow> zl_after R s s'"
proof -
  have same: "zl_after R s s" if "zl_ok s" for s using that by (simp add: zl_after_def)
  define x where "x = (if sa_from x0 = 0 then x0\<lparr>sa_from := ctx_id cb\<rparr> else x0)"
  then have x: "send_from (zl_heap s) x0 = Some x" "sa_ctx x = Some b"
    using b by (simp_all add: send_from_def)
  have cm: "cm_inv (zl_heap s) (nm_mgr (zl_names s))" using ok by (simp add: zl_ok_def nm_inv_def zl_heap_def)
  have hp: "heap_ok (zl_heap s)" using ok by (simp add: zl_ok_def)
  show ?thesis
  proof (cases "sa_to x = 0")
    case True
    then show ?thesis using x ok by (simp add: workerPoolSend_def zl_after_def sched_ok_def zl_ok_def zl_heap_def)
  next
    case to1: False
    show ?thesis
    proof (cases "ctxMgrLookup (nm_mgr (zl_names s)) (sa_to x)")
      case None
      then show ?thesis using x to1 same [OF ok] by (simp add: workerPoolSend_def ctxMgrGetContext_def contextRetain_def Let_def)
    next
      case (Some a)
      obtain ca where ca: "zl_heap s a = Some ca" using lookup_regs(2) [OF cm Some] by blast
      let ?h1 = "(zl_heap s)(a \<mapsto> ca\<lparr>ctx_ref := ctx_ref ca + 1\<rparr>)"
      have get: "ctxMgrGetContext (nm_mgr (zl_names s)) (zl_heap s) (sa_to x) = Some (Some a, ?h1)"
        using Some ca by (simp add: ctxMgrGetContext_def contextRetain_def Let_def)
      have up: "unat (ctx_ref ca + 1) = unat (ctx_ref ca) + 1" "1 \<le> unat (ctx_ref ca)" "mq_wf (ctx_queue ca)"
        using refs ca hp ref_up [of ca] by (auto simp: refs_left_def heap_ok_def)
      have h1: "heap_ok ?h1" using hp up by (auto intro: heap_ok_upd)
      have "\<exists>ses h2 c2. send_session x ?h1 = Some (ses, h2) \<and> h2 a = Some c2 \<and> ctx_queue c2 = ctx_queue ca \<and>
          ctx_ref c2 = ctx_ref ca + 1 \<and> ctx_id c2 = ctx_id ca \<and> heap_ok h2 \<and>
          (\<forall>y. map_option ctx_id (h2 y) = map_option ctx_id (zl_heap s y)) \<and>
          (\<forall>y. map_option ctx_inGlobal (h2 y) = map_option ctx_inGlobal (zl_heap s y))"
      proof (cases "send_new x")
        case True
        obtain c1 where c1: "?h1 b = Some c1" using b(2) by (cases "a = b") auto
        obtain i c' where c': "contextNewsession c1 = (i, c')" by (cases "contextNewsession c1")
        then have same: "ctx_id c' = ctx_id c1" "ctx_ref c' = ctx_ref c1" "ctx_queue c' = ctx_queue c1"
          "ctx_inGlobal c' = ctx_inGlobal c1"
          by (auto simp: contextNewsession_def Let_def split: if_splits)
        have "1 \<le> unat (ctx_ref c1) \<and> mq_wf (ctx_queue c1)" using h1 c1 unfolding heap_ok_def by blast
        then have "heap_ok (?h1(b \<mapsto> c'))" using heap_ok_upd [OF h1, of c' b] same by simp
        moreover have "send_session x ?h1 = Some (i, ?h1(b \<mapsto> c'))" using True x(2) c1 c' by (simp add: send_session_def)
        ultimately show ?thesis using same c1 ca
          by (intro exI [of _ i] exI [of _ "?h1(b \<mapsto> c')"]) (cases "a = b"; auto)
      next
        case False
        then show ?thesis using h1 ca by (simp add: send_session_def)
      qed
      then obtain ses h2 c2 where h2: "send_session x ?h1 = Some (ses, h2)" "h2 a = Some c2" "ctx_queue c2 = ctx_queue ca"
        "ctx_ref c2 = ctx_ref ca + 1" "ctx_id c2 = ctx_id ca" "heap_ok h2"
        "\<And>y. map_option ctx_id (h2 y) = map_option ctx_id (zl_heap s y)"
        "\<And>y. map_option ctx_inGlobal (h2 y) = map_option ctx_inGlobal (zl_heap s y)" by blast
      obtain okb q where q: "mq_enq (WorkerPool.send_msg x ses) (ctx_queue c2) = (okb, q)"
        by (cases "mq_enq (WorkerPool.send_msg x ses) (ctx_queue c2)")
      show ?thesis
      proof (cases okb)
        case False
        have "\<not> mq_room (ctx_queue ca)" using mq.push_room [OF up(3) _ q [unfolded h2(3)]] False by blast
        then have "mailbox_full s" using ca by (auto simp: mailbox_full_def)
        then show ?thesis using x(1) to1 get h2(1,2) q False by (simp add: workerPoolSend_def)
      next
        case True
        have qwf: "mq_wf q" using mq_push_cases [OF up(3) q [unfolded h2(3)]] by blast
        let ?h = "h2(a \<mapsto> c2\<lparr>ctx_queue := q\<rparr>)"
        have "zl_ok (set_heap ?h s)"
          by (rule zl_ok_heap [OF ok]) (use h2 up qwf ca in \<open>auto intro!: heap_ok_upd\<close>)
        then obtain s' where s': "send_schedule a (set_heap ?h s) = Some s'" "zl_after R (set_heap ?h s) s'"
          using send_schedule_wf [of "set_heap ?h s" a "c2\<lparr>ctx_queue := q\<rparr>" R] h2(4) up by auto
        have "map_option ctx_inGlobal (?h y) = map_option ctx_inGlobal (zl_heap s y)" for y
          using h2(8) [of y] h2(2) by (cases "y = a") auto
        then have "sched_ok R (set_heap ?h s) = sched_ok R s" by (rule sched_ok_heap)
        with s'(2) have "zl_after R s s'" by (simp add: zl_after_def)
        then show ?thesis using x(1) to1 get h2(1,2) q True s'(1) by (simp add: workerPoolSend_def)
      qed
    qed
  qed
qed

lemma lua_target_wf:
  assumes "zl_ok s"
  shows "\<exists>r s'. lua_target v s = Some (r, s') \<and> zl_ok s' \<and> zl_heap s' = zl_heap s \<and> zl_run s' = zl_run s \<and>
    name_ids (zl_names s') = name_ids (zl_names s) \<and> nm_mgr (zl_names s') = nm_mgr (zl_names s)"
proof (cases "\<exists>t. v = Some (LStr t)")
  case True
  then obtain t where v: "v = Some (LStr t)" by blast
  have nm: "nm_inv (zl_names s)" using assms by (simp add: zl_ok_def)
  obtain i n where n: "nameMgrGetId (zl_names s) (takeWhile (\<lambda>c. c \<noteq> CHR 0x00) t) = Some (i, n)" "nm_inv n"
    "nm_heap n = nm_heap (zl_names s)" "name_ids n = name_ids (zl_names s)" "nm_mgr n = nm_mgr (zl_names s)" using nameMgrGetId_ok [OF nm] by blast
  show ?thesis
    by (intro exI [of _ "Some i"] exI [of _ "s\<lparr>zl_names := n\<rparr>"])
      (use assms n in \<open>simp add: v lua_target_def zl_ok_def zl_heap_def\<close>)
next
  case False
  then show ?thesis using assms by (auto simp: lua_target_def split: option.splits lua_value.splits)
qed

subsection \<open>The type word\<close>

lemma and_ffff: "w AND 0xFFFF = take_bit 16 (w :: u32)"
  by (simp add: take_bit_eq_mask mask_eq_exp_minus_1)

lemma uint_kind:
  assumes "0 \<le> ty" "ty < 2 ^ 16"
  shows "uint ((word_of_int ty OR MSG_TYPE_NEWSESSION :: u32) AND 0xFFFF) = ty"
proof -
  have "(word_of_int ty OR MSG_TYPE_NEWSESSION :: u32) AND 0xFFFF = take_bit 16 (word_of_int ty)"
    by (simp add: bit.conj_disj_distrib2 MSG_TYPE_NEWSESSION_def flip: and_ffff)
  also have "uint \<dots> = take_bit 16 (take_bit 32 ty)"
    by (simp only: unsigned_take_bit_eq uint_word_of_int_eq) simp
  also have "\<dots> = ty" using assms by (simp add: take_bit_eq_mod)
  finally show ?thesis .
qed

lemma send_new_or: "sa_type x = w OR MSG_TYPE_NEWSESSION \<Longrightarrow> send_new x"
  by (simp add: send_new_def bit.conj_disj_distrib2 MSG_TYPE_NEWSESSION_def)

text \<open>Bit 20 is set in the exit type only.\<close>

lemma kind_not_exit:
  assumes "0 \<le> ty" "ty < 2 ^ 16"
  shows "(word_of_int ty OR MSG_TYPE_NEWSESSION :: u32) \<noteq> MSG_TYPE_EXIT_CONTEXT"
proof -
  have "take_bit 16 ty = ty" using assms by (simp add: take_bit_eq_mod)
  moreover have "\<not> bit (take_bit 16 ty) 20" by (simp add: bit_take_bit_iff)
  ultimately have "\<not> bit ty 20" by simp
  then have "\<not> bit (word_of_int ty OR MSG_TYPE_NEWSESSION :: u32) 20"
    by (simp add: bit_or_iff bit_word_of_int_iff MSG_TYPE_NEWSESSION_def bit_numeral_rec)
  moreover have "bit MSG_TYPE_EXIT_CONTEXT 20" by (simp add: MSG_TYPE_EXIT_CONTEXT_def bit_numeral_rec)
  ultimately show ?thesis by metis
qed

lemma scheduledD:
  assumes "scheduled s s' a"
  shows "ctx_inGlobal (the (zl_heap s' a)) \<noteq> 0"
    "cxq_list (zl_run s') = cxq_list (zl_run s) @
      (if ctx_inGlobal (the (zl_heap s a)) = 0 \<and> cxq_room (zl_run s) then [a] else [])"
  using assms by (auto simp: scheduled_def)

text \<open>The word of a network message: its two halves, and that it never asks for a new session.\<close>

lemma socket_type:
  assumes "unat (ty :: u32) < 8"
  shows "(push_bit 16 (ty AND 0xFFFF) OR MSG_TYPE_PROTO_SOCKET) AND 0xFFFF = MSG_TYPE_PROTO_SOCKET"
    "drop_bit 16 (push_bit 16 (ty AND 0xFFFF) OR MSG_TYPE_PROTO_SOCKET) AND 0xFFFF = ty"
    "(push_bit 16 (ty AND 0xFFFF) OR MSG_TYPE_PROTO_SOCKET) AND MSG_TYPE_NEWSESSION = 0"
proof -
  have "ty \<in> {0, 1, 2, 3, 4, 5, 6, 7}"
  proof -
    have "unat ty \<in> {0, 1, 2, 3, 4, 5, 6, 7}" using assms by auto
    then have "(of_nat (unat ty) :: u32) \<in> of_nat ` {0, 1, 2, 3, 4, 5, 6, 7}" by (rule imageI)
    then show ?thesis by simp
  qed
  then show "(push_bit 16 (ty AND 0xFFFF) OR MSG_TYPE_PROTO_SOCKET) AND 0xFFFF = MSG_TYPE_PROTO_SOCKET"
    "drop_bit 16 (push_bit 16 (ty AND 0xFFFF) OR MSG_TYPE_PROTO_SOCKET) AND 0xFFFF = ty"
    "(push_bit 16 (ty AND 0xFFFF) OR MSG_TYPE_PROTO_SOCKET) AND MSG_TYPE_NEWSESSION = 0"
    by (auto simp: MSG_TYPE_PROTO_SOCKET_def MSG_TYPE_NEWSESSION_def)
qed

lemma lua_target_name:
  assumes "nm_inv (zl_names s)" "CHR 0x00 \<notin> set name"
  shows "\<exists>n. lua_target (Some (LStr name)) s =
      Some (Some (case name_ids (zl_names s) name of Some i \<Rightarrow> i | None \<Rightarrow> 0), s\<lparr>zl_names := n\<rparr>) \<and>
    nm_mgr n = nm_mgr (zl_names s) \<and> nm_heap n = nm_heap (zl_names s)"
proof -
  have nul: "takeWhile (\<lambda>c. c \<noteq> CHR 0x00) name = name" unfolding takeWhile_eq_all_conv using assms(2) by blast
  obtain n where n: "nameMgrGetId (zl_names s) name = Some (case name_ids (zl_names s) name of Some i \<Rightarrow> i | None \<Rightarrow> 0, n)"
    "nm_mgr n = nm_mgr (zl_names s)" "nm_heap n = nm_heap (zl_names s)" using nameMgrGetId_ok [OF assms(1), of name] by blast
  show ?thesis
    by (intro exI [of _ n] conjI n(2,3)) (simp only: lua_target_def nul n(1) option.case lua_value.case option.map prod.case)
qed


subsection \<open>Properties\<close>

text \<open>
  C2: a message sent by name arrives. If a context sends a string under a registered name with a
  session to be made (a nil session, as z.call does), and the mailbox of the context of that name
  has room, then the mailbox gets one message behind the others and the context is marked as scheduled; if it was not,
  it becomes the last entry of the run queue, provided that has room (workerPoolSend ignores a
  refused push, and then the context is never run). If the mailbox was empty, the next dispatch of the context
  calls its callback on the message, and the callback gets the kind, the sender's id, the new session, the
  string's bytes and their number.
  The sender gets that session, except that from 2^31 on it is taken for an error and nothing is
  returned although the message is on its way.
\<close>
theorem lua_send_delivers:
  assumes "nm_inv (zl_names s)" "name_ids (zl_names s) name = Some i" "i \<noteq> 0" "CHR 0x00 \<notin> set name"
    "ctxMgrLookup (nm_mgr (zl_names s)) i = Some a" "takes s a" "zl_heap s b = Some cb"
    "0 \<le> ty" "ty < 2 ^ 16" "ty \<noteq> 4" "length dat < 2 ^ 64" "ses = fst (contextNewsession cb)" "cxq_wf (zl_run s)"
  shows "\<exists>s' msg. lua_send toint x b [LStr name, LNil, LNum ty, LStr dat] s =
      Some (LuaRet (if unat ses < 2 ^ 31 then [LNum (uint ses)] else []), s') \<and>
    mailbox s' a = mailbox s a @ [msg] \<and> ctx_inGlobal (the (zl_heap s' a)) \<noteq> 0 \<and>
    cxq_list (zl_run s') = cxq_list (zl_run s) @
      (if ctx_inGlobal (the (zl_heap s a)) = 0 \<and> cxq_room (zl_run s) then [a] else []) \<and>
    (mailbox s a = [] \<and> ctx_cb (the (zl_heap s a)) \<noteq> None \<longrightarrow>
      (\<exists>h. contextDispatchMessage (zl_heap s') a = Some (0, Called msg, h))) \<and>
    cb_args msg = [LNum ty, LNum (uint (ctx_id cb)), LNum (uint ses), LLight (Some (str_bytes dat @ [x])), LNum (int (length dat))]"
proof -
  obtain n where n: "lua_target (Some (LStr name)) s = Some (Some i, s\<lparr>zl_names := n\<rparr>)"
    "nm_mgr n = nm_mgr (zl_names s)" "nm_heap n = nm_heap (zl_names s)"
    using lua_target_name [OF assms(1,4)] assms(2) by auto
  let ?s = "s\<lparr>zl_names := n\<rparr>"
  let ?raw = "\<lparr>sa_ctx = Some b, sa_from = 0, sa_to = i, sa_session = 0, sa_type = word_of_int ty OR MSG_TYPE_NEWSESSION,
    sa_data = Some (str_bytes dat @ [x]), sa_sz = of_nat (length dat), sa_ud = 0\<rparr>"
  let ?x = "?raw\<lparr>sa_from := ctx_id cb\<rparr>"
  have hp: "zl_heap ?s = zl_heap s" using n(3) by (simp add: zl_heap_def)
  have new: "send_new ?x" by (rule send_new_or) simp
  have ref: "ctx_ref c \<noteq> 0" if "zl_heap s a = Some c" for c
    using assms(1) that by (fastforce simp: nm_inv_def zl_heap_def)
  obtain s' where s': "workerPoolSend ?raw ?s = Some (sint ses, s')" "scheduled s s' a"
    "mailbox s' a = mailbox s a @ [WorkerPool.send_msg ?x ses]" "handles s s' a (WorkerPool.send_msg ?x ses)"
  proof -
    have from1: "send_from (zl_heap ?s) ?raw = Some ?x" using assms(7) hp by (simp add: send_from_def)
    have look: "ctxMgrLookup (nm_mgr (zl_names ?s)) (sa_to ?x) = Some a" using assms(5) n(2) by simp
    have tk: "takes ?s a" using assms(6) hp by (simp add: takes_def)
    have mb: "mailbox ?s a = mailbox s a" using hp by (simp add: mailbox_def)
    have sc: "scheduled ?s t a = scheduled s t a" "handles ?s t a m = handles s t a m" for t m
      using hp mb by (simp_all add: scheduled_def handles_def)
    show thesis
      using workerPoolSend_ok [OF from1 _ look tk, of b cb ses] that new assms(3,7,12,13) ref unfolding hp mb sc by fastforce
  qed
  have r0: "lua_send toint x b [LStr name, LNil, LNum ty, LStr dat] s =
      Some (LuaRet (if sint ses < 0 then [] else [LNum (sint ses)]), s')"
    using n(1) s'(1) by (simp add: lua_send_def lua_arg_def luaL_checkinteger_def lua_data_def zSend_def)
  have "sint ses < 0 \<longleftrightarrow> \<not> unat ses < 2 ^ 31" using sint_unat32 [of ses] sint_neg32 [of ses] by fastforce
  moreover have "sint ses = uint ses" if "unat ses < 2 ^ 31" using sint_unat32 [OF that] by simp
  ultimately have r: "lua_send toint x b [LStr name, LNil, LNum ty, LStr dat] s =
      Some (LuaRet (if unat ses < 2 ^ 31 then [LNum (uint ses)] else []), s')"
    unfolding r0 by (cases "unat ses < 2 ^ 31") simp_all
  have cb: "cb_args (WorkerPool.send_msg ?x ses) =
      [LNum ty, LNum (uint (ctx_id cb)), LNum (uint ses), LLight (Some (str_bytes dat @ [x])), LNum (int (length dat))]"
    using uint_kind [OF assms(8,9)] assms(10,11)
    by (simp add: cb_args_def WorkerPool.send_msg_def MSG_TYPE_PROTO_SOCKET_def unsigned_of_nat take_bit_eq_mod Let_def)
  have ne: "msg_type (WorkerPool.send_msg ?x ses) \<noteq> MSG_TYPE_EXIT_CONTEXT"
    using kind_not_exit [OF assms(8,9)] by (simp add: WorkerPool.send_msg_def)
  show ?thesis
    by (intro exI [of _ s'] exI [of _ "WorkerPool.send_msg ?x ses"] conjI r s'(3) scheduledD [OF s'(2)] cb)
      (use s'(4) ne in \<open>simp add: handles_def\<close>)
qed

text \<open>
  C18: z.send is safe. Whatever the arguments, in a well-formed state (positive reference counts, mailboxes, the run queue,
  the table of contexts and that of names in order) z.send of a live context gives an
  error or a result and leaves a well-formed state, in which every name has the id it had and the
  table of contexts is the same. If the run queue has room and held exactly the scheduled contexts that no
  worker runs, each once, it still does. The only exception is a mailbox
  without room, where workerPoolSend stops the program with assert(0).
\<close>
theorem lua_send_wf:
  assumes "zl_ok s" "refs_left s" "zl_heap s b = Some cb"
  shows "case lua_send toint x b args s of None \<Rightarrow> mailbox_full s
    | Some (r, s') \<Rightarrow> zl_ok s' \<and> name_ids (zl_names s') = name_ids (zl_names s) \<and> nm_mgr (zl_names s') = nm_mgr (zl_names s) \<and>
        (\<forall>R. sched_ok R s \<and> cxq_room (zl_run s) \<longrightarrow> sched_ok R s')"
proof -
  obtain r s1 where s1: "lua_target (lua_arg args 0) s = Some (r, s1)" "zl_ok s1" "zl_heap s1 = zl_heap s"
    "zl_run s1 = zl_run s" "name_ids (zl_names s1) = name_ids (zl_names s)" "nm_mgr (zl_names s1) = nm_mgr (zl_names s)"
    using lua_target_wf [OF assms(1)] by blast
  have refs: "refs_left s1" using assms(2) s1(3) by (simp add: refs_left_def)
  have full: "mailbox_full s1 = mailbox_full s" using s1(3) by (simp add: mailbox_full_def)
  have after: "zl_after R s1 t = zl_after R s t" for R t
    using s1(3-6) by (simp add: zl_after_def sched_ok_def)
  define ok where "ok t \<longleftrightarrow> (\<forall>R. zl_after R s t)" for t
  have zs: "case zSend (Some b) 0 to1 ses ty dat sz s1 of None \<Rightarrow> mailbox_full s | Some (r, s') \<Rightarrow> ok s'" for to1 ses ty dat sz
  proof -
    have "case zSend (Some b) 0 to1 ses ty dat sz s1 of None \<Rightarrow> mailbox_full s | Some (r, s') \<Rightarrow> zl_after R s s'" for R
      unfolding full [symmetric] after [symmetric] zSend_def
      by (rule workerPoolSend_wf [OF s1(2) refs, of _ b cb]) (simp_all add: s1(3) assms(3))
    then show ?thesis by (cases "zSend (Some b) 0 to1 ses ty dat sz s1") (auto simp: ok_def)
  qed
  have err: "ok s1" using s1(2) by (simp add: ok_def after [symmetric]) (simp add: zl_after_def)
  have "case (case (P, Q, R) of
      (Some ty, Some ses, Some (dat, sz)) \<Rightarrow>
        map_option (\<lambda>(r, s2). (LuaRet (if r < 0 then [] else [LNum r]), s2))
          (zSend (Some b) 0 to1 (f ses) (g ses ty) dat sz s1)
      | _ \<Rightarrow> Some (LuaError, s1)) of None \<Rightarrow> mailbox_full s | Some (r, s') \<Rightarrow> ok s'"
    for P :: "int option" and Q :: "int option option" and R :: "(byte list ptr \<times> u64) option" and to1 f g
  proof (cases "\<exists>ty ses dat sz. P = Some ty \<and> Q = Some ses \<and> R = Some (dat, sz)")
    case True
    then obtain ty ses dat sz where "P = Some ty" "Q = Some ses" "R = Some (dat, sz)" by blast
    then show ?thesis using zs [of to1 "f ses" "g ses ty" dat sz]
      by (cases "zSend (Some b) 0 to1 (f ses) (g ses ty) dat sz s1") auto
  next
    case False
    then show ?thesis using err by (auto split: option.split)
  qed
  then have "case lua_send toint x b args s of None \<Rightarrow> mailbox_full s | Some (r, s') \<Rightarrow> ok s'"
    using err by (cases r) (simp_all only: lua_send_def s1(1) option.case prod.case)
  then show ?thesis by (auto simp: ok_def zl_after_def split: option.splits prod.splits)
qed

definition zl_example :: zl where
  "zl_example = \<lparr>zl_names = nm_taken, zl_run = contextQueueCreate 1024, zl_lost = []\<rparr>"

lemma zl_example: "nm_inv (zl_names zl_example)" "name_ids (zl_names zl_example) = [''db'' \<mapsto> 5]"
  "ctxMgrLookup (nm_mgr (zl_names zl_example)) 5 = Some 3" "takes zl_example 3" "mailbox zl_example 3 = []"
  "zl_heap zl_example 3 = Some ((ctx_example 5)\<lparr>ctx_name := ''db''\<rparr>)" "zl_lost zl_example = []"
proof -
  have q: "mq_wf (messageQueueCreate 1024)" "mq_list (messageQueueCreate 1024) = []"
    using messageQueueCreate_wf [of 1024] by simp_all
  have "mq_room (messageQueueCreate 1024)"
    by (simp add: mq_room_def lfq_room_def mq_ring_def messageQueueCreate_def nextpow2_1024)
  with q nm_taken show "nm_inv (zl_names zl_example)" "name_ids (zl_names zl_example) = [''db'' \<mapsto> 5]"
    "ctxMgrLookup (nm_mgr (zl_names zl_example)) 5 = Some 3" "takes zl_example 3" "mailbox zl_example 3 = []"
    "zl_heap zl_example 3 = Some ((ctx_example 5)\<lparr>ctx_name := ''db''\<rparr>)" "zl_lost zl_example = []"
    by (simp_all add: zl_example_def takes_def mailbox_def zl_heap_def ctxMgrLookup_def cm_example_def del: mq_ex_simps)
qed

lemma zl_example_ok: "zl_ok zl_example" "refs_left zl_example"
proof -
  have q: "mq_wf (messageQueueCreate 1024)" using messageQueueCreate_wf [of 1024] by simp
  have hp: "zl_heap zl_example = heap_example(3 \<mapsto> (ctx_example 5)\<lparr>ctx_name := ''db''\<rparr>)"
    using nm_taken by (simp add: zl_example_def zl_heap_def)
  have "cxq_wf (zl_run zl_example)" by (simp only: zl_example_def zl.simps cxq_create_wf)
  moreover have "heap_ok (zl_heap zl_example)" unfolding hp heap_ok_def
    using q by (simp add: heap_example_def del: mq_ex_simps)
  ultimately show "zl_ok zl_example" using zl_example(1) by (simp add: zl_ok_def)
  show "refs_left zl_example" unfolding refs_left_def hp by (simp add: heap_example_def)
qed


lemma zl_example_run: "cxq_wf (zl_run zl_example)" "cxq_room (zl_run zl_example)" "cxq_list (zl_run zl_example) = []"
  "sched_ok {} zl_example"
proof -
  show "cxq_wf (zl_run zl_example)" by (simp only: zl_example_def zl.simps cxq_create_wf)
  show l: "cxq_list (zl_run zl_example) = []"
    by (simp add: zl_example_def cxq_list_def cxq_ring_def lfq_contents_def lfq_list_def contextQueueCreate_def)
  show "cxq_room (zl_run zl_example)"
    by (simp add: zl_example_def cxq_room_def lfq_room_def cxq_ring_def contextQueueCreate_def nextpow2_1024)
  have hp: "zl_heap zl_example = heap_example(3 \<mapsto> (ctx_example 5)\<lparr>ctx_name := ''db''\<rparr>)"
    using nm_taken by (simp add: zl_example_def zl_heap_def)
  show "sched_ok {} zl_example"
    unfolding sched_ok_def l hp by (simp add: heap_example_def ctx_example_def contextCreate_def)
qed

lemma lua_send_wf_witness:
  "case lua_send (\<lambda>_. None) 0 3 [LStr ''db'', LNil, LNum 2, LStr ''hi''] zl_example of
     None \<Rightarrow> mailbox_full zl_example | Some (r, s') \<Rightarrow> zl_ok s' \<and> sched_ok {} s'"
  using lua_send_wf [OF zl_example_ok zl_example(6), of "\<lambda>_. None" 0 "[LStr ''db'', LNil, LNum 2, LStr ''hi'']"] zl_example_run
  by (auto split: option.splits)

lemma lua_send_delivers_witness:
  "\<exists>s' msg. lua_send (\<lambda>_. None) 0 3 [LStr ''db'', LNil, LNum 2, LStr ''hi''] zl_example = Some (LuaRet [LNum 1], s') \<and>
    mailbox s' 3 = [msg] \<and> cxq_list (zl_run s') = [3] \<and>
    cb_args msg = [LNum 2, LNum 5, LNum 1, LLight (Some [104, 105, 0]), LNum 2]"
proof -
  have ses: "fst (contextNewsession ((ctx_example 5)\<lparr>ctx_name := ''db''\<rparr>)) = 1"
    by (simp add: contextNewsession_def Let_def)
  have idle: "ctx_inGlobal ((ctx_example 5)\<lparr>ctx_name := ''db''\<rparr>) = 0" by (simp add: ctx_example_def contextCreate_def)
  show ?thesis
    using lua_send_delivers [OF zl_example(1) _ _ _ zl_example(3,4,6), of "''db''" 2 "''hi''" 1 "\<lambda>_. None" 0] zl_example_run idle
    by (simp add: ses zl_example str_bytes_def) blast
qed

text \<open>
  The block that a message of the network thread is posted with: NULL for CLOSE and CONNECT; otherwise a block one byte longer than
  its bytes, whose last byte is not set (a body of the framing, the text of an error, the address of an accepted
  connection). This is so under the protocol with a head; httpMessageCallback posts a pointer
  into the read buffer.
\<close>

definition sock_block :: "byte \<Rightarrow> u32 \<Rightarrow> byte list \<Rightarrow> byte list ptr" where
  "sock_block x ev body = (if ev = MSG_TYPE_SOCK_CLOSE \<or> ev = MSG_TYPE_SOCK_CONNECT then None else Some (body @ [x]))"

definition post_message :: "byte \<Rightarrow> sock_msg \<Rightarrow> zl \<Rightarrow> (int \<times> zl) option" where
  "post_message x m s =
     zSendx None 0 (sm_to m) (sm_session m) (sm_type m) (sock_block x (drop_bit 16 (sm_type m)) (sm_body m))
       (of_nat (length (sm_body m))) (sm_ud m) s"

definition sock_events :: "u32 set" where
  "sock_events = {MSG_TYPE_SOCK_DATA, MSG_TYPE_SOCK_CLOSE, MSG_TYPE_SOCK_ACCEPT, MSG_TYPE_SOCK_CONNECT, MSG_TYPE_SOCK_ERROR}"

lemma sock_event_word:
  assumes "ev \<in> sock_events"
  shows "unat ev < 8" "drop_bit 16 (push_bit 16 (ev AND 0xFFFF) OR MSG_TYPE_PROTO_SOCKET) = ev"
    "push_bit 16 (ev AND 0xFFFF) OR MSG_TYPE_PROTO_SOCKET \<noteq> MSG_TYPE_EXIT_CONTEXT"
  using assms
  by (auto simp: sock_events_def MSG_TYPE_SOCK_DATA_def MSG_TYPE_SOCK_CLOSE_def MSG_TYPE_SOCK_ACCEPT_def
      MSG_TYPE_SOCK_CONNECT_def MSG_TYPE_SOCK_ERROR_def MSG_TYPE_PROTO_SOCKET_def MSG_TYPE_EXIT_CONTEXT_def)

text \<open>
  C14: what the network thread posts, a Lua callback can tell apart. The message of an event of a
  socket joins the mailbox of its context, which is marked as scheduled and, if it was not, put into the run queue when that has room.
  If the mailbox was empty, the next dispatch calls the callback on it. The callback sees the socket kind with the event, the
  session, the block (nil for CLOSE and CONNECT), its number of bytes and the socket's id, and sending it never
  asks the absent sender for a session.
\<close>
theorem network_message_to_lua:
  assumes "T' = Socket.send_msg to1 session ev body ud T" "ev \<in> sock_events" "to1 \<noteq> 0"
    "nm_inv (zl_names s)" "ctxMgrLookup (nm_mgr (zl_names s)) to1 = Some a" "takes s a" "length body < 2 ^ 64"
    "cxq_wf (zl_run s)"
  shows "\<exists>m r s' msg. tcp_sent T' = tcp_sent T @ [m] \<and> post_message x m s = Some (r, s') \<and>
    mailbox s' a = mailbox s a @ [msg] \<and> ctx_inGlobal (the (zl_heap s' a)) \<noteq> 0 \<and>
    cxq_list (zl_run s') = cxq_list (zl_run s) @
      (if ctx_inGlobal (the (zl_heap s a)) = 0 \<and> cxq_room (zl_run s) then [a] else []) \<and>
    (mailbox s a = [] \<and> ctx_cb (the (zl_heap s a)) \<noteq> None \<longrightarrow>
      (\<exists>h. contextDispatchMessage (zl_heap s') a = Some (0, Called msg, h))) \<and>
    cb_args msg = [LNum 4, LNum 0, LNum (uint session), LLight (sock_block x ev body), LNum (int (length body)),
      LNum (uint ev), LNum (uint ud)]"
proof -
  let ?m = "\<lparr>sm_to = to1, sm_session = session, sm_type = push_bit 16 (ev AND 0xFFFF) OR MSG_TYPE_PROTO_SOCKET,
      sm_body = body, sm_ud = ud\<rparr>"
  have m: "tcp_sent T' = tcp_sent T @ [?m]" using assms(1) by (simp add: Socket.send_msg_def)
  let ?x = "\<lparr>sa_ctx = None, sa_from = 0, sa_to = to1, sa_session = session,
    sa_type = push_bit 16 (ev AND 0xFFFF) OR MSG_TYPE_PROTO_SOCKET,
    sa_data = sock_block x ev body, sa_sz = of_nat (length body), sa_ud = ud\<rparr>"
  let ?msg = "WorkerPool.send_msg ?x session"
  note ev = sock_event_word [OF assms(2)]
  note st = socket_type [OF ev(1)]
  have new: "\<not> send_new ?x" using st(3) by (simp add: send_new_def)
  have ref: "ctx_ref c \<noteq> 0" if "zl_heap s a = Some c" for c
    using assms(4) that by (fastforce simp: nm_inv_def zl_heap_def)
  obtain s' where s': "workerPoolSend ?x s = Some (sint session, s')" "scheduled s s' a"
    "mailbox s' a = mailbox s a @ [?msg]" "handles s s' a ?msg"
    using workerPoolSend_ok [of s ?x ?x a _ _ session] new assms(3,5,6,8) ref by (auto simp: send_from_def)
  have cb: "cb_args ?msg = [LNum 4, LNum 0, LNum (uint session), LLight (sock_block x ev body),
      LNum (int (length body)), LNum (uint ev), LNum (uint ud)]"
    using st(1,2) assms(7)
    by (simp only: cb_args_def WorkerPool.send_msg_def message.simps send_args.simps Let_def)
      (simp add: MSG_TYPE_PROTO_SOCKET_def unsigned_of_nat take_bit_eq_mod)
  have "post_message x ?m s = Some (sint session, s')"
    using s'(1) by (simp only: post_message_def zSendx_def sock_msg.simps ev(2))
  then show ?thesis
    by (intro exI [of _ ?m] exI [of _ "sint session"] exI [of _ s'] exI [of _ ?msg] conjI m s'(3) scheduledD [OF s'(2)] cb)
      (assumption, use s'(4) ev(3) in \<open>simp add: handles_def WorkerPool.send_msg_def\<close>)
qed

lemma network_message_to_lua_witness:
  "(\<exists>m r s' msg. post_message 0 m zl_example = Some (r, s') \<and> mailbox s' 3 = [msg] \<and> cxq_list (zl_run s') = [3] \<and>
     cb_args msg = [LNum 4, LNum 0, LNum 0, LLight (Some [65, 0]), LNum 1, LNum 2, LNum 7]) \<and>
   (\<exists>m r s' msg. post_message 0 m zl_example = Some (r, s') \<and> mailbox s' 3 = [msg] \<and> cxq_list (zl_run s') = [3] \<and>
     cb_args msg = [LNum 4, LNum 0, LNum 0, LLight None, LNum 0, LNum 3, LNum 7])"
proof -
  have idle: "ctx_inGlobal ((ctx_example 5)\<lparr>ctx_name := ''db''\<rparr>) = 0" by (simp add: ctx_example_def contextCreate_def)
  have ev: "MSG_TYPE_SOCK_DATA \<in> sock_events" "MSG_TYPE_SOCK_CLOSE \<in> sock_events" by (simp_all add: sock_events_def)
  note * = network_message_to_lua [OF refl _ _ zl_example(1,3,4) _ zl_example_run(1), where session = 0 and ud = 7 and x = 0]
  show ?thesis
    using * [OF ev(1), where body = "[65]"] * [OF ev(2), where body = "[]"] idle zl_example_run
    by (simp add: zl_example sock_block_def MSG_TYPE_SOCK_DATA_def MSG_TYPE_SOCK_CLOSE_def MSG_TYPE_SOCK_CONNECT_def) blast
qed

text \<open>
  A send to an unknown name loses memory. z.send copies the string before it sends;
  workerPoolSend returns early for the id 0 that an unknown name has, without the zfree it
  has for an id without a context, so each such call leaks the copy.
\<close>
theorem lua_send_unknown_leaks:
  assumes "nm_inv (zl_names s)" "name_ids (zl_names s) name = None" "CHR 0x00 \<notin> set name" "zl_heap s b = Some cb"
  shows "\<exists>s'. lua_send toint x b [LStr name, LNil, LNum ty, LStr dat] s = Some (LuaRet [], s') \<and>
    zl_heap s' = zl_heap s \<and> zl_lost s' = zl_lost s @ [str_bytes dat @ [x]]"
proof -
  obtain n where n: "lua_target (Some (LStr name)) s = Some (Some 0, s\<lparr>zl_names := n\<rparr>)" "nm_heap n = nm_heap (zl_names s)"
    using lua_target_name [OF assms(1,3)] assms(2) by auto
  then show ?thesis using assms(4)
    by (simp add: lua_send_def lua_arg_def luaL_checkinteger_def lua_data_def zSend_def workerPoolSend_def send_from_def zl_heap_def)
qed

lemma lua_send_unknown_leaks_witness:
  "\<exists>s'. lua_send (\<lambda>_. None) 0 3 [LStr ''no'', LNil, LNum 2, LStr ''hi''] zl_example = Some (LuaRet [], s') \<and>
    zl_lost s' = [[104, 105, 0]]"
  using lua_send_unknown_leaks [OF zl_example(1) _ _ zl_example(6), of "''no''" "\<lambda>_. None" 0 2 "''hi''"]
  by (simp add: zl_example str_bytes_def) blast

end
