(* ===== verification/Zlua.thy ===== *)
theory Zlua
  imports LuaZ Commands
begin

section \<open>Lua services (service-src/service_zlua.c)\<close>

text \<open>
  The module zlua starts a context that runs Lua. zluaInit does not run any Lua: it makes \<open>_launch\<close> the
  callback and sends the arguments of the service to its own context; the worker that handles this message
  calls \<open>_launch\<close>, which takes the callback away, runs the loader on the arguments (it installs the
  callback of the service with z.callback) and, if the loader fails, sends its context the exit message.

  The functions of a context are the addresses \<open>CB_LAUNCH\<close> and \<open>CB_LUA\<close> (_cb of lua-z.c). The
  loader and the service's Lua function are parameters: the loader gets the bytes, the context and the
  state and gives whether it succeeded; the state is that of theory LuaZ. \<open>None\<close> is a crash or a failed
  assertion.

  The theorems: the loader runs exactly once, on exactly the arguments, before any message of others; but
  a message that gets into the mailbox before the arguments stops the program; and a service whose
  loader fails is never released, because its exit message is dropped for want of a callback.
\<close>

subsection \<open>The functions\<close>

definition CB_LAUNCH :: nat where "CB_LAUNCH = 1"
definition CB_LUA :: nat where "CB_LUA = 2"

text \<open>zSetCallback, as _callback of lua-z.c and this module use it.\<close>

definition zSetCallback :: "nat \<Rightarrow> nat ptr \<Rightarrow> nat ptr \<Rightarrow> zl \<Rightarrow> zl option" where
  "zSetCallback ctx cb ud s = map_option (\<lambda>h. set_heap h s) (contextSetCallback (zl_heap s) ctx cb ud)"

definition lua_callback :: "nat \<Rightarrow> nat ptr \<Rightarrow> zl \<Rightarrow> zl option" where
  "lua_callback ctx gL s = zSetCallback ctx (Some CB_LUA) gL s"

definition zluaInit :: "byte \<Rightarrow> nat \<Rightarrow> nat \<Rightarrow> string ptr \<Rightarrow> zl \<Rightarrow> (int \<times> zl) option" where
  "zluaInit x l ctx args s =
     (case args of
        None \<Rightarrow> None
      | Some t \<Rightarrow>
          (case zSetCallback ctx (Some CB_LAUNCH) (Some l) s of
             None \<Rightarrow> None
           | Some s1 \<Rightarrow>
               (case zl_heap s1 ctx of
                  None \<Rightarrow> None
                | Some c \<Rightarrow>
                    map_option (\<lambda>(r, s2). (0, s2))
                      (zSend (Some ctx) 0 (ctx_id c) 0 0 (Some (str_bytes t @ [x])) (of_nat (length t)) s1))))"

text \<open>The command EXIT with the text of the context's id (theory Commands).\<close>

definition exit_self :: "nat \<Rightarrow> zl \<Rightarrow> zl option" where
  "exit_self ctx s =
     (case zl_heap s ctx of
        None \<Rightarrow> None
      | Some c \<Rightarrow>
          map_option snd (zSend (Some ctx) 0 (word_of_int (to_int (fst (strtol (snprintf 32 (dec_int (sint (ctx_id c))))))))
            0 MSG_TYPE_EXIT_CONTEXT None 0 s))"

type_synonym loader = "byte list \<Rightarrow> nat \<Rightarrow> zl \<Rightarrow> (bool \<times> zl) option"

definition zlua_launch :: "loader \<Rightarrow> nat \<Rightarrow> message \<Rightarrow> zl \<Rightarrow> zl option" where
  "zlua_launch load ctx msg s =
     (if \<not> (msg_session msg = 0 \<and> msg_type msg AND 0x0000FFFF = 0) then None
      else (case zSetCallback ctx None None s of
              None \<Rightarrow> None
            | Some s1 \<Rightarrow>
                (case mem_read (msg_data msg) 0 (unat (msg_sz msg)) of
                   None \<Rightarrow> None
                 | Some dat \<Rightarrow>
                     (case load dat ctx s1 of
                        None \<Rightarrow> None
                      | Some (ok, s2) \<Rightarrow> if ok then Some s2 else exit_self ctx s2))))"

text \<open>A worker's dispatch: the callback that runs is the one the context has at that moment.\<close>

definition zlua_dispatch ::
    "loader \<Rightarrow> (lua_value list \<Rightarrow> nat \<Rightarrow> zl \<Rightarrow> zl option) \<Rightarrow> nat \<Rightarrow> zl \<Rightarrow> (int \<times> dispatched \<times> zl) option" where
  "zlua_dispatch load call a s =
     (case contextDispatchMessage (zl_heap s) a of
        None \<Rightarrow> None
      | Some (r, Called msg, h) \<Rightarrow>
          map_option (\<lambda>s'. (r, Called msg, s'))
            (if ctx_cb (the (h a)) = Some CB_LAUNCH then zlua_launch load a msg (set_heap h s)
             else call (cb_args msg) a (set_heap h s))
      | Some (r, d, h) \<Rightarrow> Some (r, d, set_heap h s))"

subsection \<open>What a send does to the state\<close>

lemma mq_room_less:
  assumes "Suc (length (mq_list q)) < unat (mq_size q)"
  shows "mq_room q"
  using assms by (simp add: mq_list_def lfq_contents_def length_lfq_list mq_room_def lfq_room_def mq_ring_def)

lemma mq_size_enq: "mq_enq m q = (ok, q') \<Longrightarrow> mq_size q' = mq_size q"
  by (auto simp: mq_enq_def messageQueuePush_def Let_def split: if_splits)

lemma mq_size_pop: "mq_size (snd (messageQueuePop q)) = mq_size q"
  by (simp add: messageQueuePop_def Let_def)

text \<open>The dispatch of the oldest message, not the exit message, to a callback; and without a callback.\<close>

lemma dispatch_head:
  assumes "h a = Some c" "mq_wf (ctx_queue c)" "mq_list (ctx_queue c) = m # ms"
  shows "\<exists>q. mq_wf q \<and> mq_list q = ms \<and> mq_size q = mq_size (ctx_queue c) \<and>
    (ctx_cb c = None \<longrightarrow> contextDispatchMessage h a = Some (-1, Dropped m, h(a \<mapsto> c\<lparr>ctx_queue := q\<rparr>))) \<and>
    (ctx_cb c \<noteq> None \<longrightarrow> msg_type m \<noteq> MSG_TYPE_EXIT_CONTEXT \<longrightarrow>
       contextDispatchMessage h a = Some (0, Called m, h(a \<mapsto> c\<lparr>ctx_queue := q\<rparr>)))"
proof -
  obtain r q where p: "messageQueuePop (ctx_queue c) = (r, q)" by (cases "messageQueuePop (ctx_queue c)")
  have "r = Some m" "mq_list q = ms" "mq_wf q" "mq_size q = mq_size (ctx_queue c)"
    using mq.pop_cons [OF assms(2,3) p] mq.invar_pop [OF assms(2) p] mq_size_pop [of "ctx_queue c"] p by auto
  then show ?thesis using assms(1) p by (auto simp: contextDispatchMessage_def Let_def intro!: exI [of _ q])
qed

lemma set_heap_twice: "set_heap h' (set_heap h s) = set_heap h' s"
  by (simp add: set_heap_def)

definition sent_to :: "zcontext \<Rightarrow> messageQueue \<Rightarrow> zcontext" where
  "sent_to c q = (if ctx_inGlobal c = 0 then c\<lparr>ctx_queue := q, ctx_ref := ctx_ref c + 1, ctx_inGlobal := 1\<rparr> else c\<lparr>ctx_queue := q\<rparr>)"

lemma sent_to_simps [simp]:
  "ctx_queue (sent_to c q) = q" "ctx_id (sent_to c q) = ctx_id c" "ctx_cb (sent_to c q) = ctx_cb c"
  "ctx_inGlobal (sent_to c q) \<noteq> 0" "ctx_sessionid (sent_to c q) = ctx_sessionid c"
  by (simp_all add: sent_to_def)

lemma sent_to_ordered:
  "(if ctx_inGlobal c = 0 then c\<lparr>ctx_ref := ctx_ref c + 1, ctx_queue := q, ctx_inGlobal := 1\<rparr> else c\<lparr>ctx_queue := q\<rparr>) = sent_to c q"
  by (cases c) (simp add: sent_to_def)

text \<open>A context sends to itself, \<open>c1\<close> is the context behind the choice of the session.\<close>

lemma workerPoolSend_self:
  assumes "send_from (zl_heap s) raw = Some x" "sa_to x \<noteq> 0" "sa_ctx x = Some a"
    "ctxMgrLookup (nm_mgr (zl_names s)) (sa_to x) = Some a" "zl_heap s a = Some c" "ctx_ref c \<noteq> 0"
    "mq_wf (ctx_queue c)" "mq_room (ctx_queue c)"
    "(ses, c1) = (if send_new x then contextNewsession c else (sa_session x, c))"
  shows "\<exists>s' q. workerPoolSend raw s = Some (sint ses, s') \<and> zl_heap s' = (zl_heap s)(a \<mapsto> sent_to c1 q) \<and>
    mq_wf q \<and> mq_list q = mq_list (ctx_queue c) @ [WorkerPool.send_msg x ses] \<and> mq_size q = mq_size (ctx_queue c) \<and>
    nm_mgr (zl_names s') = nm_mgr (zl_names s)"
proof -
  let ?m = "WorkerPool.send_msg x ses"
  obtain ok q where q: "mq_enq ?m (ctx_queue c) = (ok, q)" by (cases "mq_enq ?m (ctx_queue c)")
  have ok: "ok" "mq_wf q" "mq_list q = mq_list (ctx_queue c) @ [?m]"
    using mq.push_room [OF assms(7,8) q] mq.invar_push [OF assms(7) q] by simp_all
  have c1: "ctx_ref c1 = ctx_ref c" "ctx_queue c1 = ctx_queue c" "ctx_id c1 = ctx_id c" "ctx_inGlobal c1 = ctx_inGlobal c"
    using assms(9) by (auto simp: contextNewsession_def Let_def split: if_splits)
  let ?h1 = "(zl_heap s)(a \<mapsto> c\<lparr>ctx_ref := ctx_ref c + 1\<rparr>)"
  let ?h2 = "(zl_heap s)(a \<mapsto> c1\<lparr>ctx_ref := ctx_ref c1 + 1\<rparr>)"
  let ?h3 = "(zl_heap s)(a \<mapsto> c1\<lparr>ctx_ref := ctx_ref c1 + 1, ctx_queue := q\<rparr>)"
  have get: "ctxMgrGetContext (nm_mgr (zl_names s)) (zl_heap s) (sa_to x) = Some (Some a, ?h1)"
    using assms(4,5) by (simp add: ctxMgrGetContext_def contextRetain_def Let_def)
  have ses: "send_session x ?h1 = Some (ses, ?h2)"
    using assms(3,9) by (cases c) (auto simp: send_session_def contextNewsession_def Let_def split: if_splits)
  have "\<exists>s'. send_schedule a (set_heap ?h3 s) = Some s' \<and> zl_heap s' = (zl_heap s)(a \<mapsto> sent_to c1 q) \<and>
      nm_mgr (zl_names s') = nm_mgr (zl_names s) \<and> zl_lost s' = zl_lost s"
  proof (cases "ctx_inGlobal c1 = 0")
    case True
    have "c1\<lparr>ctx_ref := ctx_ref c1 + 1, ctx_queue := q, ctx_inGlobal := 1\<rparr> = sent_to c1 q"
      using sent_to_ordered [of c1 q] True by simp
    then show ?thesis using True by (simp add: send_schedule_def zl_heap_def set_heap_def)
  next
    case False
    have "(c1\<lparr>ctx_ref := ctx_ref c1 + 1, ctx_queue := q\<rparr>)\<lparr>ctx_ref := ctx_ref c1\<rparr> = sent_to c1 q"
      using False by (cases c1) (simp add: sent_to_def)
    then show ?thesis using False c1 assms(6)
      by (simp add: send_schedule_def ctxMgrReleaseContext_def contextRelease_def zl_heap_def set_heap_def)
  qed
  then obtain s' where s': "send_schedule a (set_heap ?h3 s) = Some s'" "zl_heap s' = (zl_heap s)(a \<mapsto> sent_to c1 q)"
    "nm_mgr (zl_names s') = nm_mgr (zl_names s)" "zl_lost s' = zl_lost s" by blast
  have "workerPoolSend raw s = Some (sint ses, s')"
    using assms(1,2) get ses q ok(1) c1 s'(1) by (simp add: workerPoolSend_def)
  then show ?thesis using ok(2,3) s'(2-4) mq_size_enq [OF q] by blast
qed

subsection \<open>Starting a service\<close>

text \<open>A context that can be started: registered, with room for two messages.\<close>

definition startable :: "zl \<Rightarrow> nat \<Rightarrow> zcontext \<Rightarrow> bool" where
  "startable s a c \<longleftrightarrow> zl_heap s a = Some c \<and> ctx_id c \<noteq> 0 \<and> ctxMgrLookup (nm_mgr (zl_names s)) (ctx_id c) = Some a \<and>
     ctx_ref c \<noteq> 0 \<and> mq_wf (ctx_queue c) \<and> mq_room (ctx_queue c)"

definition launch_msg :: "byte \<Rightarrow> u32 \<Rightarrow> string \<Rightarrow> message" where
  "launch_msg x i t = \<lparr>msg_from = i, msg_session = 0, msg_type = 0, msg_ud = 0, msg_sz = of_nat (length t),
     msg_data = Some (str_bytes t @ [x])\<rparr>"

lemma zluaInit_ok:
  assumes "startable s a c"
  shows "\<exists>s' q. zluaInit x l a (Some t) s = Some (0, s') \<and>
    zl_heap s' = (zl_heap s)(a \<mapsto> sent_to (c\<lparr>ctx_cb := Some CB_LAUNCH, ctx_ud := Some l\<rparr>) q) \<and>
    mq_wf q \<and> mq_list q = mq_list (ctx_queue c) @ [launch_msg x (ctx_id c) t] \<and> mq_size q = mq_size (ctx_queue c) \<and>
    nm_mgr (zl_names s') = nm_mgr (zl_names s)"
proof -
  let ?c = "c\<lparr>ctx_cb := Some CB_LAUNCH, ctx_ud := Some l\<rparr>"
  let ?s = "set_heap ((zl_heap s)(a \<mapsto> ?c)) s"
  let ?raw = "\<lparr>sa_ctx = Some a, sa_from = 0, sa_to = ctx_id c, sa_session = 0, sa_type = 0,
    sa_data = Some (str_bytes t @ [x]), sa_sz = of_nat (length t), sa_ud = 0\<rparr>"
  let ?y = "?raw\<lparr>sa_from := ctx_id c\<rparr>"
  have cb: "zSetCallback a (Some CB_LAUNCH) (Some l) s = Some ?s"
    using assms by (simp add: zSetCallback_def contextSetCallback_def startable_def)
  have m: "WorkerPool.send_msg ?y 0 = launch_msg x (ctx_id c) t"
    by (simp add: WorkerPool.send_msg_def launch_msg_def)
  obtain s' q where s': "workerPoolSend ?raw ?s = Some (sint (0 :: u32), s')" "zl_heap s' = (zl_heap ?s)(a \<mapsto> sent_to ?c q)"
    "mq_wf q" "mq_list q = mq_list (ctx_queue ?c) @ [WorkerPool.send_msg ?y 0]" "mq_size q = mq_size (ctx_queue ?c)" "nm_mgr (zl_names s') = nm_mgr (zl_names ?s)"
    using workerPoolSend_self [of ?s ?raw ?y a ?c 0 ?c] assms
    by (auto simp: startable_def send_from_def send_new_def)
  have "zluaInit x l a (Some t) s = Some (0, s')"
    using s'(1) cb by (simp add: zluaInit_def zSend_def)
  then show ?thesis using s' m by auto
qed

text \<open>It keeps every context under its id, as launch\_command of the theory Commands asks of a module.\<close>

lemma zluaInit_effect:
  assumes "startable s a c"
  shows "\<exists>s'. zluaInit x l a (Some t) s = Some (0, s') \<and> (\<forall>b. map_option ctx_id (zl_heap s' b) = map_option ctx_id (zl_heap s b))"
proof -
  obtain s' q where "zluaInit x l a (Some t) s = Some (0, s')"
    "zl_heap s' = (zl_heap s)(a \<mapsto> sent_to (c\<lparr>ctx_cb := Some CB_LAUNCH, ctx_ud := Some l\<rparr>) q)"
    using zluaInit_ok [OF assms] by blast
  moreover have "zl_heap s a = Some c" using assms by (simp add: startable_def)
  ultimately show ?thesis by simp
qed

text \<open>The worker takes the launch message: the loader runs on the arguments.\<close>

lemma launch_dispatch:
  assumes "zl_heap s a = Some c" "ctx_cb c = Some CB_LAUNCH" "mq_wf (ctx_queue c)"
    "mq_list (ctx_queue c) = launch_msg x i t # ms" "length t < 2 ^ 64"
  shows "\<exists>q. mq_wf q \<and> mq_list q = ms \<and> mq_size q = mq_size (ctx_queue c) \<and> zlua_dispatch load call a s =
    map_option (\<lambda>s'. (0, Called (launch_msg x i t), s'))
      (case load (str_bytes t) a (set_heap ((zl_heap s)(a \<mapsto> c\<lparr>ctx_queue := q, ctx_cb := None, ctx_ud := None\<rparr>)) s) of
         None \<Rightarrow> None | Some (ok, s2) \<Rightarrow> if ok then Some s2 else exit_self a s2)"
proof -
  have ty: "msg_type (launch_msg x i t) \<noteq> MSG_TYPE_EXIT_CONTEXT" by (simp add: launch_msg_def MSG_TYPE_EXIT_CONTEXT_def)
  obtain q where q: "mq_wf q" "mq_list q = ms" "mq_size q = mq_size (ctx_queue c)"
    "contextDispatchMessage (zl_heap s) a = Some (0, Called (launch_msg x i t), (zl_heap s)(a \<mapsto> c\<lparr>ctx_queue := q\<rparr>))"
    using dispatch_head [of "zl_heap s" a c, OF assms(1,3,4)] assms(2) ty by auto
  have rd: "mem_read (msg_data (launch_msg x i t)) 0 (unat (msg_sz (launch_msg x i t))) = Some (str_bytes t)"
    using assms(5) by (simp add: mem_read_def launch_msg_def str_bytes_def unat_of_nat)
  let ?s = "set_heap ((zl_heap s)(a \<mapsto> c\<lparr>ctx_queue := q\<rparr>)) s"
  have cb: "zSetCallback a None None ?s = Some (set_heap ((zl_heap s)(a \<mapsto> c\<lparr>ctx_queue := q, ctx_cb := None, ctx_ud := None\<rparr>)) s)"
    by (simp add: zSetCallback_def contextSetCallback_def set_heap_twice)
  have "zlua_launch load a (launch_msg x i t) ?s =
      (case load (str_bytes t) a (set_heap ((zl_heap s)(a \<mapsto> c\<lparr>ctx_queue := q, ctx_cb := None, ctx_ud := None\<rparr>)) s) of
         None \<Rightarrow> None | Some (ok, s2) \<Rightarrow> if ok then Some s2 else exit_self a s2)"
    unfolding zlua_launch_def rd cb option.case by (simp add: launch_msg_def)
  then show ?thesis using q assms(2) by (intro exI [of _ q]) (simp add: zlua_dispatch_def)
qed

text \<open>The exit message of a context to itself.\<close>

lemma exit_self_ok:
  assumes "startable s a c"
  shows "\<exists>s' q c1 m. exit_self a s = Some s' \<and> zl_heap s' = (zl_heap s)(a \<mapsto> sent_to c1 q) \<and> mq_wf q \<and>
    mq_list q = mq_list (ctx_queue c) @ [m] \<and> msg_type m = MSG_TYPE_EXIT_CONTEXT \<and>
    c1 = snd (contextNewsession c) \<and> nm_mgr (zl_names s') = nm_mgr (zl_names s)"
proof -
  let ?raw = "\<lparr>sa_ctx = Some a, sa_from = 0, sa_to = ctx_id c, sa_session = 0, sa_type = MSG_TYPE_EXIT_CONTEXT,
    sa_data = None, sa_sz = 0, sa_ud = 0\<rparr>"
  let ?y = "?raw\<lparr>sa_from := ctx_id c\<rparr>"
  obtain ses c1 where c1: "contextNewsession c = (ses, c1)" by (cases "contextNewsession c")
  have new: "send_new ?y" by (simp add: send_new_def MSG_TYPE_EXIT_CONTEXT_def MSG_TYPE_NEWSESSION_def)
  have "word_of_int (to_int (fst (strtol (snprintf 32 (dec_int (sint (ctx_id c))))))) = ctx_id c"
    using sint_bounds [of "ctx_id c"] strtol_dec_int [of "sint (ctx_id c)" "[]"] by (simp add: snprintf_dec to_int_id)
  then have "exit_self a s = map_option snd (workerPoolSend ?raw s)"
    using assms by (simp add: exit_self_def startable_def zSend_def)
  moreover have "\<exists>s' q. workerPoolSend ?raw s = Some (sint ses, s') \<and> zl_heap s' = (zl_heap s)(a \<mapsto> sent_to c1 q) \<and>
    mq_wf q \<and> mq_list q = mq_list (ctx_queue c) @ [WorkerPool.send_msg ?y ses] \<and>
    mq_size q = mq_size (ctx_queue c) \<and> nm_mgr (zl_names s') = nm_mgr (zl_names s)"
    by (rule workerPoolSend_self [of s ?raw ?y a c ses c1]) (use assms new c1 in \<open>simp_all add: startable_def send_from_def\<close>)
  ultimately show ?thesis using c1 by (fastforce simp: WorkerPool.send_msg_def)
qed

subsection \<open>Properties\<close>

text \<open>
  C17: a Lua service starts with its own arguments. After zluaInit on a registered context with an
  empty mailbox, the first message a worker dispatches is the launch message: the loader runs on exactly
  the bytes of the arguments, with the callback taken away and the mailbox empty, and the
  dispatch ends as the loader does, with the exit message sent if it failed.
\<close>
theorem zlua_starts:
  assumes "startable s a c" "mq_list (ctx_queue c) = []" "length t < 2 ^ 64"
  shows "\<exists>s1 s2 c2. zluaInit x l a (Some t) s = Some (0, s1) \<and>
    zl_heap s2 = (zl_heap s)(a \<mapsto> c2) \<and> ctx_cb c2 = None \<and> mq_list (ctx_queue c2) = [] \<and> ctx_inGlobal c2 \<noteq> 0 \<and>
    nm_mgr (zl_names s2) = nm_mgr (zl_names s) \<and>
    zlua_dispatch load call a s1 = map_option (\<lambda>s3. (0, Called (launch_msg x (ctx_id c) t), s3))
      (case load (str_bytes t) a s2 of None \<Rightarrow> None | Some (ok, s3) \<Rightarrow> if ok then Some s3 else exit_self a s3)"
proof -
  let ?c = "c\<lparr>ctx_cb := Some CB_LAUNCH, ctx_ud := Some l\<rparr>"
  obtain s1 q where s1: "zluaInit x l a (Some t) s = Some (0, s1)" "zl_heap s1 = (zl_heap s)(a \<mapsto> sent_to ?c q)" "mq_wf q"
    "mq_list q = [launch_msg x (ctx_id c) t]" "nm_mgr (zl_names s1) = nm_mgr (zl_names s)"
    using zluaInit_ok [OF assms(1), of x l t] assms(2) by auto
  have c1: "zl_heap s1 a = Some (sent_to ?c q)" using s1(2) by simp
  obtain q2 where q2: "mq_list q2 = []" "zlua_dispatch load call a s1 = map_option (\<lambda>s3. (0, Called (launch_msg x (ctx_id c) t), s3))
      (case load (str_bytes t) a (set_heap ((zl_heap s1)(a \<mapsto> (sent_to ?c q)\<lparr>ctx_queue := q2, ctx_cb := None, ctx_ud := None\<rparr>)) s1) of
         None \<Rightarrow> None | Some (ok, s2) \<Rightarrow> if ok then Some s2 else exit_self a s2)"
    using launch_dispatch [OF c1, of x "ctx_id c" t "[]" load call] s1(3,4) assms(3) by auto
  show ?thesis
    by (rule exI [of _ s1], rule exI [of _ "set_heap ((zl_heap s1)(a \<mapsto> (sent_to ?c q)\<lparr>ctx_queue := q2, ctx_cb := None, ctx_ud := None\<rparr>)) s1"],
        rule exI [of _ "(sent_to ?c q)\<lparr>ctx_queue := q2, ctx_cb := None, ctx_ud := None\<rparr>"])
      (use s1 q2 in \<open>simp add: sent_to_def\<close>)
qed

lemma zl_example_startable:
  "startable zl_example 3 ((ctx_example 5)\<lparr>ctx_name := ''db''\<rparr>)" "mq_list (messageQueueCreate 1024) = []"
  "mq_size (messageQueueCreate 1024) = 1024" "ctx_inGlobal (ctx_example 5) = 0"
proof -
  show q: "mq_list (messageQueueCreate 1024) = []" "mq_size (messageQueueCreate 1024) = 1024"
    using messageQueueCreate_wf [of 1024] by (simp_all add: messageQueueCreate_def nextpow2_1024)
  have "mq_wf (messageQueueCreate 1024)" "mq_room (messageQueueCreate 1024)"
    using messageQueueCreate_wf [of 1024] mq_room_less [of "messageQueueCreate 1024"] q by (simp_all del: mq_ex_simps)
  then show "startable zl_example 3 ((ctx_example 5)\<lparr>ctx_name := ''db''\<rparr>)"
    using zl_example(3,6) by (simp add: startable_def del: mq_ex_simps)
  show "ctx_inGlobal (ctx_example 5) = 0" by (simp add: ctx_example_def contextCreate_def)
qed

lemma zlua_starts_witness:
  "\<exists>s1 s2. zluaInit 0 9 3 (Some ''bot'') zl_example = Some (0, s1) \<and>
    zlua_dispatch (\<lambda>d a s. Some (True, s)) (\<lambda>args a s. Some s) 3 s1 = Some (0, Called (launch_msg 0 5 ''bot''), s2) \<and>
    mailbox s2 3 = []"
proof -
  let ?load = "\<lambda>d a s. Some (True, s)" and ?call = "\<lambda>args a s. Some s"
  have e: "mq_list (ctx_queue ((ctx_example 5)\<lparr>ctx_name := ''db''\<rparr>)) = []" using zl_example_startable(2) by (simp del: mq_ex_simps)
  obtain s1 s2 c2 where "zluaInit 0 9 3 (Some ''bot'') zl_example = Some (0, s1)"
    "zl_heap s2 = (zl_heap zl_example)(3 \<mapsto> c2)" "mq_list (ctx_queue c2) = []"
    "zlua_dispatch ?load ?call 3 s1 = Some (0, Called (launch_msg 0 5 ''bot''), s2)"
    using zlua_starts [OF zl_example_startable(1) e, of "''bot''" 0 9 ?load ?call] by auto
  then show ?thesis by (intro exI [of _ s1] exI [of _ s2]) (simp add: mailbox_def)
qed

text \<open>
  A Lua service that does not start stays for good. When the loader fails (a file that is not
  there, an error before z.callback), \<open>_launch\<close> sends the context its exit message, but it has
  taken the callback away, and contextDispatchMessage drops every message of a context without callback,
  this one too: the reference of the exit is never given up, and the context stays in the table.
\<close>
theorem zlua_failed_stays:
  assumes "startable s a c" "mq_list (ctx_queue c) = []" "length t < 2 ^ 64" "ctx_inGlobal c = 0" "unat (ctx_ref c) < 2 ^ 31"
    "1 < unat (mq_size (ctx_queue c))" "\<And>s2. load (str_bytes t) a s2 = Some (False, s2)"
  shows "\<exists>s1 s2 s3 m c3 h. zluaInit x l a (Some t) s = Some (0, s1) \<and>
    zlua_dispatch load call a s1 = Some (0, Called (launch_msg x (ctx_id c) t), s2) \<and>
    zlua_dispatch load call a s2 = Some (-1, Dropped m, s3) \<and> msg_type m = MSG_TYPE_EXIT_CONTEXT \<and>
    mailbox s3 a = [] \<and> ctxMgrLookup (nm_mgr (zl_names s3)) (ctx_id c) = Some a \<and>
    ctxMgrReleaseContext (nm_mgr (zl_names s3)) (zl_heap s3) a = Some (nm_mgr (zl_names s3), h) \<and>
    h a = Some c3 \<and> ctx_ref c3 = ctx_ref c \<and> ctx_cb c3 = None"
proof -
  let ?c = "c\<lparr>ctx_cb := Some CB_LAUNCH, ctx_ud := Some l\<rparr>"
  obtain s1 q where s1: "zluaInit x l a (Some t) s = Some (0, s1)" "zl_heap s1 = (zl_heap s)(a \<mapsto> sent_to ?c q)" "mq_wf q"
    "mq_list q = [launch_msg x (ctx_id c) t]" "mq_size q = mq_size (ctx_queue c)" "nm_mgr (zl_names s1) = nm_mgr (zl_names s)"
    using zluaInit_ok [OF assms(1), of x l t] assms(2) by auto
  let ?c1 = "\<lambda>q2. (sent_to ?c q)\<lparr>ctx_queue := q2, ctx_cb := None, ctx_ud := None\<rparr>"
  let ?s1 = "\<lambda>q2. set_heap ((zl_heap s1)(a \<mapsto> ?c1 q2)) s1"
  have c1: "zl_heap s1 a = Some (sent_to ?c q)" using s1(2) by simp
  obtain q2 where q2: "mq_wf q2" "mq_list q2 = []" "mq_size q2 = mq_size (ctx_queue c)" "zlua_dispatch load call a s1 =
      map_option (\<lambda>s3. (0, Called (launch_msg x (ctx_id c) t), s3)) (exit_self a (?s1 q2))"
    using launch_dispatch [OF c1, of x "ctx_id c" t "[]" load call] s1(3-5) assms(3,7) by auto
  have ref1: "ctx_ref (?c1 q2) = ctx_ref c + 1" "ctx_inGlobal (?c1 q2) = 1" using assms(4) by (simp_all add: sent_to_def)
  have up: "unat (ctx_ref c + 1) = unat (ctx_ref c) + 1" using assms(5) by (simp add: unat_word_ariths)
  have "ctx_ref c \<noteq> 0" using assms(1) by (simp add: startable_def)
  then have nz: "ctx_ref c + 1 \<noteq> 0" "ctx_ref c + 1 \<noteq> 1" using up by auto
  have room: "mq_room q2" using mq_room_less [of q2] q2(2,3) assms(6) by simp
  have "startable (?s1 q2) a (?c1 q2)"
    using assms(1) s1(6) ref1 nz q2(1) room by (simp add: startable_def)
  from exit_self_ok [OF this] obtain s2 q3 c2 m where s2: "exit_self a (?s1 q2) = Some s2"
    "zl_heap s2 = (zl_heap (?s1 q2))(a \<mapsto> sent_to c2 q3)" "mq_wf q3" "mq_list q3 = [m]" "msg_type m = MSG_TYPE_EXIT_CONTEXT"
    "c2 = snd (contextNewsession (?c1 q2))" "nm_mgr (zl_names s2) = nm_mgr (zl_names s)" using q2(2) s1(6) by auto
  have c2: "ctx_cb c2 = None" "ctx_ref c2 = ctx_ref c + 1" "ctx_inGlobal c2 = 1"
    using s2(6) ref1 by (simp_all add: contextNewsession_def Let_def)
  then have c3: "sent_to c2 q3 = c2\<lparr>ctx_queue := q3\<rparr>" by (simp add: sent_to_def)
  have "zl_heap s2 a = Some (c2\<lparr>ctx_queue := q3\<rparr>)" using s2(2) c3 by simp
  from dispatch_head [of "zl_heap s2" a, OF this, of m "[]"] obtain q4 where q4: "mq_list q4 = []"
    "contextDispatchMessage (zl_heap s2) a = Some (-1, Dropped m, (zl_heap s2)(a \<mapsto> c2\<lparr>ctx_queue := q4\<rparr>))"
    using s2(3,4) c2(1) by auto
  have look: "ctxMgrLookup (nm_mgr (zl_names s2)) (ctx_id c) = Some a" using s2(7) assms(1) by (simp add: startable_def)
  let ?s3 = "set_heap ((zl_heap s2)(a \<mapsto> c2\<lparr>ctx_queue := q4\<rparr>)) s2"
  have "zlua_dispatch load call a s2 = Some (-1, Dropped m, ?s3)" using q4(2) by (simp add: zlua_dispatch_def)
  moreover have "mailbox ?s3 a = []" using q4(1) by (simp add: mailbox_def)
  moreover have "ctxMgrReleaseContext (nm_mgr (zl_names ?s3)) (zl_heap ?s3) a =
      Some (nm_mgr (zl_names ?s3), (zl_heap ?s3)(a \<mapsto> c2\<lparr>ctx_queue := q4, ctx_ref := ctx_ref c\<rparr>))"
    using c2(2) nz by (simp add: ctxMgrReleaseContext_def contextRelease_def)
  ultimately show ?thesis using s1(1) q2(4) s2(1,5) look c2(1)
    by (intro exI [of _ s1] exI [of _ s2] exI [of _ ?s3] exI [of _ m] exI [of _ "c2\<lparr>ctx_queue := q4, ctx_ref := ctx_ref c\<rparr>"]
        exI [of _ "(zl_heap ?s3)(a \<mapsto> c2\<lparr>ctx_queue := q4, ctx_ref := ctx_ref c\<rparr>)"]) simp
qed

lemma zlua_failed_stays_witness:
  "\<exists>s1 s2 s3 m. zluaInit 0 9 3 (Some ''bot'') zl_example = Some (0, s1) \<and>
    zlua_dispatch (\<lambda>d a s. Some (False, s)) (\<lambda>args a s. Some s) 3 s1 = Some (0, Called (launch_msg 0 5 ''bot''), s2) \<and>
    zlua_dispatch (\<lambda>d a s. Some (False, s)) (\<lambda>args a s. Some s) 3 s2 = Some (-1, Dropped m, s3) \<and>
    msg_type m = MSG_TYPE_EXIT_CONTEXT \<and> ctxMgrLookup (nm_mgr (zl_names s3)) 5 = Some 3"
proof -
  have e: "mq_list (ctx_queue ((ctx_example 5)\<lparr>ctx_name := ''db''\<rparr>)) = []"
    "1 < unat (mq_size (ctx_queue ((ctx_example 5)\<lparr>ctx_name := ''db''\<rparr>)))"
    using zl_example_startable(2,3) by (simp_all del: mq_ex_simps)
  show ?thesis
    using zlua_failed_stays [OF zl_example_startable(1) e(1) _ _ _ e(2), of "''bot''" "\<lambda>d a s. Some (False, s)" 0 9 "\<lambda>args a s. Some s"]
    by (simp add: zl_example_startable(4)) blast
qed

text \<open>
  A service can be killed before it lives. The context is registered before zluaInit sends the launch
  message, so a message of another context (sent to an id that was this slot's before, or guessed) can
  be in the mailbox first; if it has a session or a kind, the assertion of \<open>_launch\<close> fails and
  the whole program stops.
\<close>
theorem zlua_early_message:
  assumes "startable s a c" "mq_list (ctx_queue c) = m # ms" "msg_type m \<noteq> MSG_TYPE_EXIT_CONTEXT"
    "msg_session m \<noteq> 0 \<or> msg_type m AND 0xFFFF \<noteq> 0"
  shows "\<exists>s1. zluaInit x l a (Some t) s = Some (0, s1) \<and> zlua_dispatch load call a s1 = None"
proof -
  obtain s1 q where s1: "zluaInit x l a (Some t) s = Some (0, s1)"
    "zl_heap s1 = (zl_heap s)(a \<mapsto> sent_to (c\<lparr>ctx_cb := Some CB_LAUNCH, ctx_ud := Some l\<rparr>) q)" "mq_wf q"
    "mq_list q = m # ms @ [launch_msg x (ctx_id c) t]"
    using zluaInit_ok [OF assms(1), of x l t] assms(2) by auto
  have "zl_heap s1 a = Some (sent_to (c\<lparr>ctx_cb := Some CB_LAUNCH, ctx_ud := Some l\<rparr>) q)" using s1(2) by simp
  from dispatch_head [of "zl_heap s1" a, OF this, of m "ms @ [launch_msg x (ctx_id c) t]"] obtain q' where
    "contextDispatchMessage (zl_heap s1) a = Some (0, Called m, (zl_heap s1)(a \<mapsto> (sent_to (c\<lparr>ctx_cb := Some CB_LAUNCH, ctx_ud := Some l\<rparr>) q)\<lparr>ctx_queue := q'\<rparr>))"
    using s1(3,4) assms(3) by auto
  then have "zlua_dispatch load call a s1 = None" using assms(4) by (auto simp: zlua_dispatch_def zlua_launch_def)
  then show ?thesis using s1(1) by blast
qed

lemma zlua_early_message_witness:
  "\<exists>s r s1. zSend (Some 3) 0 5 7 2 None 0 zl_example = Some (r, s) \<and> zluaInit 0 9 3 (Some ''bot'') s = Some (0, s1) \<and>
    zlua_dispatch (\<lambda>d a s. Some (True, s)) (\<lambda>args a s. Some s) 3 s1 = None"
proof -
  let ?c = "(ctx_example 5)\<lparr>ctx_name := ''db''\<rparr>"
  let ?raw = "\<lparr>sa_ctx = Some 3, sa_from = 0, sa_to = 5, sa_session = 7, sa_type = 2, sa_data = None, sa_sz = 0, sa_ud = 0\<rparr>"
  let ?y = "?raw\<lparr>sa_from := 5\<rparr>"
  have st: "startable zl_example 3 ?c" by (rule zl_example_startable(1))
  have f: "send_from (zl_heap zl_example) ?raw = Some ?y" using st by (simp add: send_from_def startable_def)
  have "\<exists>s q. workerPoolSend ?raw zl_example = Some (sint (7 :: u32), s) \<and> zl_heap s = (zl_heap zl_example)(3 \<mapsto> sent_to ?c q) \<and>
    mq_wf q \<and> mq_list q = mq_list (ctx_queue ?c) @ [WorkerPool.send_msg ?y 7] \<and> mq_size q = mq_size (ctx_queue ?c) \<and>
    nm_mgr (zl_names s) = nm_mgr (zl_names zl_example)"
    by (rule workerPoolSend_self [OF f]) (use st in \<open>simp_all add: startable_def send_new_def MSG_TYPE_NEWSESSION_def\<close>)
  then obtain s q where s: "workerPoolSend ?raw zl_example = Some (sint (7 :: u32), s)"
    "zl_heap s = (zl_heap zl_example)(3 \<mapsto> sent_to ?c q)" "mq_wf q" "mq_list q = [WorkerPool.send_msg ?y 7]"
    "mq_size q = 1024" "nm_mgr (zl_names s) = nm_mgr (zl_names zl_example)"
    using zl_example_startable(2,3) by (auto simp del: mq_ex_simps)
  have "mq_room q" using mq_room_less [of q] s(4,5) by simp
  then have "startable s 3 (sent_to ?c q)" using s(2,3,6) st by (simp add: startable_def sent_to_def)
  from zlua_early_message [OF this, of "WorkerPool.send_msg ?y 7" "[]" 0 9 "''bot''" "\<lambda>d a s. Some (True, s)" "\<lambda>args a s. Some s"]
  show ?thesis using s(1,4) by (auto simp: zSend_def WorkerPool.send_msg_def MSG_TYPE_EXIT_CONTEXT_def)
qed

end
