(* ===== verification/Adlist.thy ===== *)
theory Adlist
  imports Prelude
begin

section \<open>Doubly linked lists (src/adlist.c)\<close>

text \<open>
  The nodes of all lists are on a heap, a map from addresses to nodes; a list has pointers to
  its first and last node and its length. An access through a dangling or NULL pointer is \<open>None\<close>.
  zmalloc returns the address \<open>a\<close> that is an argument of the operations that allocate, or
  in listDup, which allocates once per node, the value of \<open>new\<close> on the heap.

  \<open>al_rep h l ns\<close> says that on the heap \<open>h\<close> the list \<open>l\<close> has the nodes \<open>ns\<close>, addresses with values.
  The theorems: sequences of operations are the operations on the list of values; iterators
  deliver the values in either direction, also if the node just delivered is deleted; a
  search finds the first match; and a copy is a second list that shares no node.
\<close>

subsection \<open>Data\<close>

record 'v listNode =
  nd_prev :: "nat ptr"
  nd_next :: "nat ptr"
  nd_value :: 'v

type_synonym 'v nodes = "nat \<Rightarrow> 'v listNode option"

record 'v adlist =
  al_head :: "nat ptr"
  al_tail :: "nat ptr"
  al_dup :: "('v \<Rightarrow> 'v option) option"
  al_free :: bool                          \<comment> \<open>whether there is a free method\<close>
  al_match :: "('v \<Rightarrow> 'v \<Rightarrow> bool) option"
  al_len :: u64

record listIter =
  li_next :: "nat ptr"
  li_direction :: int

definition AL_START_HEAD :: int where "AL_START_HEAD = 0"
definition AL_START_TAIL :: int where "AL_START_TAIL = 1"

definition set_prev :: "nat \<Rightarrow> nat ptr \<Rightarrow> 'v nodes \<Rightarrow> 'v nodes option" where
  "set_prev a p h = map_option (\<lambda>n. h(a \<mapsto> n\<lparr>nd_prev := p\<rparr>)) (h a)"

definition set_next :: "nat \<Rightarrow> nat ptr \<Rightarrow> 'v nodes \<Rightarrow> 'v nodes option" where
  "set_next a p h = map_option (\<lambda>n. h(a \<mapsto> n\<lparr>nd_next := p\<rparr>)) (h a)"

subsection \<open>Operations\<close>

definition listCreate :: "'v adlist" where
  "listCreate = \<lparr>al_head = None, al_tail = None, al_dup = None, al_free = False, al_match = None, al_len = 0\<rparr>"

text \<open>The loop of listRelease: the values in order, and the heap without the nodes.\<close>

fun release_loop :: "nat \<Rightarrow> nat ptr \<Rightarrow> 'v nodes \<Rightarrow> ('v list \<times> 'v nodes) option" where
  "release_loop 0 current h = Some ([], h)"
| "release_loop (Suc len) current h =
     (case current of
        None \<Rightarrow> None
      | Some a \<Rightarrow>
          (case h a of
             None \<Rightarrow> None
           | Some n \<Rightarrow>
               map_option (\<lambda>r. (nd_value n # fst r, snd r)) (release_loop len (nd_next n) (h(a := None)))))"

text \<open>The values given to the free method.\<close>

definition listRelease :: "'v nodes \<Rightarrow> 'v adlist \<Rightarrow> ('v list \<times> 'v nodes) option" where
  "listRelease h l =
     map_option (\<lambda>r. (if al_free l then fst r else [], snd r)) (release_loop (unat (al_len l)) (al_head l) h)"

definition listAddNodeHead :: "nat \<Rightarrow> 'v \<Rightarrow> 'v nodes \<Rightarrow> 'v adlist \<Rightarrow> ('v nodes \<times> 'v adlist) option" where
  "listAddNodeHead a v h l =
     (if al_len l = 0
      then Some (h(a \<mapsto> \<lparr>nd_prev = None, nd_next = None, nd_value = v\<rparr>),
                 l\<lparr>al_head := Some a, al_tail := Some a, al_len := al_len l + 1\<rparr>)
      else (case al_head l of
              None \<Rightarrow> None
            | Some b \<Rightarrow>
                map_option (\<lambda>h'. (h', l\<lparr>al_head := Some a, al_len := al_len l + 1\<rparr>))
                  (set_prev b (Some a) (h(a \<mapsto> \<lparr>nd_prev = None, nd_next = al_head l, nd_value = v\<rparr>)))))"

definition listAddNodeTail :: "nat \<Rightarrow> 'v \<Rightarrow> 'v nodes \<Rightarrow> 'v adlist \<Rightarrow> ('v nodes \<times> 'v adlist) option" where
  "listAddNodeTail a v h l =
     (if al_len l = 0
      then Some (h(a \<mapsto> \<lparr>nd_prev = None, nd_next = None, nd_value = v\<rparr>),
                 l\<lparr>al_head := Some a, al_tail := Some a, al_len := al_len l + 1\<rparr>)
      else (case al_tail l of
              None \<Rightarrow> None
            | Some b \<Rightarrow>
                map_option (\<lambda>h'. (h', l\<lparr>al_tail := Some a, al_len := al_len l + 1\<rparr>))
                  (set_next b (Some a) (h(a \<mapsto> \<lparr>nd_prev = al_tail l, nd_next = None, nd_value = v\<rparr>)))))"

text \<open>The node before and the node behind the new one are linked if there are such.\<close>

definition link_node :: "nat \<Rightarrow> 'v listNode \<Rightarrow> 'v nodes \<Rightarrow> 'v nodes option" where
  "link_node a n h =
     (case (case nd_prev n of None \<Rightarrow> Some (h(a \<mapsto> n)) | Some p \<Rightarrow> set_next p (Some a) (h(a \<mapsto> n))) of
        None \<Rightarrow> None
      | Some h1 \<Rightarrow> (case nd_next n of None \<Rightarrow> Some h1 | Some q \<Rightarrow> set_prev q (Some a) h1))"

definition listInsertNode :: "nat \<Rightarrow> nat \<Rightarrow> 'v \<Rightarrow> bool \<Rightarrow> 'v nodes \<Rightarrow> 'v adlist \<Rightarrow> ('v nodes \<times> 'v adlist) option" where
  "listInsertNode a old_node v after h l =
     (case h old_node of
        None \<Rightarrow> None
      | Some old1 \<Rightarrow>
          if after
          then map_option (\<lambda>h'. (h', l\<lparr>al_tail := if al_tail l = Some old_node then Some a else al_tail l, al_len := al_len l + 1\<rparr>))
                 (link_node a \<lparr>nd_prev = Some old_node, nd_next = nd_next old1, nd_value = v\<rparr> h)
          else map_option (\<lambda>h'. (h', l\<lparr>al_head := if al_head l = Some old_node then Some a else al_head l, al_len := al_len l + 1\<rparr>))
                 (link_node a \<lparr>nd_prev = nd_prev old1, nd_next = Some old_node, nd_value = v\<rparr> h))"

text \<open>The value given to the free method, if there is one, and the rest of the state.\<close>

definition listDelNode :: "nat \<Rightarrow> 'v nodes \<Rightarrow> 'v adlist \<Rightarrow> ('v option \<times> 'v nodes \<times> 'v adlist) option" where
  "listDelNode a h l =
     (case h a of
        None \<Rightarrow> None
      | Some n \<Rightarrow>
     (case (case nd_prev n of
              None \<Rightarrow> Some (h, l\<lparr>al_head := nd_next n\<rparr>)
            | Some p \<Rightarrow> map_option (\<lambda>h'. (h', l)) (set_next p (nd_next n) h)) of
        None \<Rightarrow> None
      | Some (h1, l1) \<Rightarrow>
     (case h1 a of
        None \<Rightarrow> None
      | Some n1 \<Rightarrow>
     (case (case nd_next n1 of
              None \<Rightarrow> Some (h1, l1\<lparr>al_tail := nd_prev n1\<rparr>)
            | Some q \<Rightarrow> map_option (\<lambda>h'. (h', l1)) (set_prev q (nd_prev n1) h1)) of
        None \<Rightarrow> None
      | Some (h2, l2) \<Rightarrow>
          Some (if al_free l then Some (nd_value n1) else None, h2(a := None), l2\<lparr>al_len := al_len l2 - 1\<rparr>)))))"

definition listGetIterator :: "'v adlist \<Rightarrow> int \<Rightarrow> listIter" where
  "listGetIterator l direction =
     \<lparr>li_next = (if direction = AL_START_HEAD then al_head l else al_tail l), li_direction = direction\<rparr>"

definition listRewind :: "'v adlist \<Rightarrow> listIter" where
  "listRewind l = \<lparr>li_next = al_head l, li_direction = AL_START_HEAD\<rparr>"

definition listRewindTail :: "'v adlist \<Rightarrow> listIter" where
  "listRewindTail l = \<lparr>li_next = al_tail l, li_direction = AL_START_TAIL\<rparr>"

definition listNext :: "'v nodes \<Rightarrow> listIter \<Rightarrow> (nat ptr \<times> listIter) option" where
  "listNext h it =
     (case li_next it of
        None \<Rightarrow> Some (None, it)
      | Some a \<Rightarrow>
          map_option (\<lambda>n. (Some a, it\<lparr>li_next := if li_direction it = AL_START_HEAD then nd_next n else nd_prev n\<rparr>)) (h a))"

text \<open>The loop of listDup over the original's iterator. The inner \<open>None\<close> is the result NULL.\<close>

partial_function (option) dup_loop ::
    "('v nodes \<Rightarrow> nat) \<Rightarrow> listIter \<Rightarrow> 'v nodes \<Rightarrow> 'v adlist \<Rightarrow> ('v adlist option \<times> 'v nodes) option" where
  "dup_loop new it h copy =
     (case listNext h it of
        None \<Rightarrow> None
      | Some (None, it') \<Rightarrow> Some (Some copy, h)
      | Some (Some a, it') \<Rightarrow>
          (case h a of
             None \<Rightarrow> None
           | Some n \<Rightarrow>
          (case (case al_dup copy of None \<Rightarrow> Some (nd_value n) | Some f \<Rightarrow> f (nd_value n)) of
             None \<Rightarrow> (case listRelease h copy of None \<Rightarrow> None | Some (vs, h') \<Rightarrow> Some (None, h'))
           | Some v \<Rightarrow>
               (case listAddNodeTail (new h) v h copy of
                  None \<Rightarrow> None
                | Some (h', copy') \<Rightarrow> dup_loop new it' h' copy'))))"

definition listDup :: "('v nodes \<Rightarrow> nat) \<Rightarrow> 'v nodes \<Rightarrow> 'v adlist \<Rightarrow> ('v adlist option \<times> 'v nodes) option" where
  "listDup new h orig =
     dup_loop new (listGetIterator orig AL_START_HEAD) h
       (listCreate\<lparr>al_dup := al_dup orig, al_free := al_free orig, al_match := al_match orig\<rparr>)"

text \<open>Without a match method the values, which are pointers, are compared.\<close>

partial_function (option) search_loop :: "'v adlist \<Rightarrow> 'v \<Rightarrow> 'v nodes \<Rightarrow> listIter \<Rightarrow> nat ptr option" where
  "search_loop l key h it =
     (case listNext h it of
        None \<Rightarrow> None
      | Some (None, it') \<Rightarrow> Some None
      | Some (Some a, it') \<Rightarrow>
          (case h a of
             None \<Rightarrow> None
           | Some n \<Rightarrow>
               if (case al_match l of Some f \<Rightarrow> f (nd_value n) key | None \<Rightarrow> key = nd_value n) then Some (Some a)
               else search_loop l key h it'))"

definition listSearchKey :: "'v nodes \<Rightarrow> 'v adlist \<Rightarrow> 'v \<Rightarrow> nat ptr option" where
  "listSearchKey h l key = search_loop l key h (listGetIterator l AL_START_HEAD)"

text \<open>\<open>while(index-- && n) n = n->next\<close> and the same with \<open>prev\<close>.\<close>

fun walk :: "('v listNode \<Rightarrow> nat ptr) \<Rightarrow> nat \<Rightarrow> nat ptr \<Rightarrow> 'v nodes \<Rightarrow> nat ptr option" where
  "walk f 0 n h = Some n"
| "walk f (Suc index) n h =
     (case n of
        None \<Rightarrow> Some None
      | Some a \<Rightarrow> (case h a of None \<Rightarrow> None | Some nd \<Rightarrow> walk f index (f nd) h))"

definition listIndex :: "'v nodes \<Rightarrow> 'v adlist \<Rightarrow> int \<Rightarrow> nat ptr option" where
  "listIndex h l index =
     (if index < 0 then walk nd_prev (nat (- index - 1)) (al_tail l) h
      else walk nd_next (nat index) (al_head l) h)"

definition listRotate :: "'v nodes \<Rightarrow> 'v adlist \<Rightarrow> ('v nodes \<times> 'v adlist) option" where
  "listRotate h l =
     (if al_len l \<le> 1 then Some (h, l)
      else (case al_tail l of
              None \<Rightarrow> None
            | Some t \<Rightarrow>
           (case map_option nd_prev (h t) of
              Some (Some p) \<Rightarrow>
                (case set_next p None h of
                   None \<Rightarrow> None
                 | Some h1 \<Rightarrow>
                (case al_head l of
                   None \<Rightarrow> None
                 | Some b \<Rightarrow>
                (case set_prev b (Some t) h1 of
                   None \<Rightarrow> None
                 | Some h2 \<Rightarrow>
                (case set_prev t None h2 of
                   None \<Rightarrow> None
                 | Some h3 \<Rightarrow>
                     map_option (\<lambda>h4. (h4, l\<lparr>al_tail := Some p, al_head := Some t\<rparr>)) (set_next t (Some b) h3)))))
            | _ \<Rightarrow> None)))"

subsection \<open>Representation\<close>

definition first :: "(nat \<times> 'v) list \<Rightarrow> nat ptr \<Rightarrow> nat ptr" where
  "first ns q = (case ns of [] \<Rightarrow> q | n # _ \<Rightarrow> Some (fst n))"

definition final :: "nat ptr \<Rightarrow> (nat \<times> 'v) list \<Rightarrow> nat ptr" where
  "final p ns = (if ns = [] then p else Some (fst (last ns)))"

text \<open>A segment of nodes, \<open>p\<close> before it and \<open>q\<close> behind it.\<close>

fun dseg :: "'v nodes \<Rightarrow> nat ptr \<Rightarrow> (nat \<times> 'v) list \<Rightarrow> nat ptr \<Rightarrow> bool" where
  "dseg h p [] q = True"
| "dseg h p (n # ns) q =
     (h (fst n) = Some \<lparr>nd_prev = p, nd_next = first ns q, nd_value = snd n\<rparr> \<and> dseg h (Some (fst n)) ns q)"

definition addrs :: "(nat \<times> 'v) list \<Rightarrow> nat set" where
  "addrs ns = fst ` set ns"

definition apart :: "(nat \<times> 'v) list \<Rightarrow> bool" where
  "apart ns \<longleftrightarrow> distinct (map fst ns)"

definition al_rep :: "'v nodes \<Rightarrow> 'v adlist \<Rightarrow> (nat \<times> 'v) list \<Rightarrow> bool" where
  "al_rep h l ns \<longleftrightarrow> dseg h None ns None \<and> apart ns \<and> al_head l = first ns None \<and>
     al_tail l = final None ns \<and> unat (al_len l) = length ns"

lemma first_simps [simp]: "first [] q = q" "first (n # ns) q = Some (fst n)"
  by (simp_all add: first_def)

lemma final_simps [simp]: "final p [] = p" "final p (ns @ [n]) = Some (fst n)" "final p [n] = Some (fst n)"
  by (simp_all add: final_def)

lemma final_Cons [simp]: "final p (n # ns) = final (Some (fst n)) ns"
  by (simp add: final_def)

lemma first_append [simp]: "first (xs @ ys) q = first xs (first ys q)"
  by (cases xs) simp_all

lemma final_append: "final p (xs @ ys) = final (final p xs) ys"
  by (simp add: final_def)

lemma addrs_simps [simp]: "addrs [] = {}" "addrs (n # ns) = insert (fst n) (addrs ns)" "addrs (xs @ ys) = addrs xs \<union> addrs ys"
  by (auto simp: addrs_def)

lemma apart_simps [simp]:
  "apart []" "apart (n # ns) \<longleftrightarrow> fst n \<notin> addrs ns \<and> apart ns"
  "apart (xs @ ys) \<longleftrightarrow> apart xs \<and> apart ys \<and> addrs xs \<inter> addrs ys = {}"
  by (auto simp: apart_def addrs_def)

lemma dseg_append: "dseg h p (xs @ ys) q \<longleftrightarrow> dseg h p xs (first ys q) \<and> dseg h (final p xs) ys q"
  by (induction xs arbitrary: p) auto

lemma dseg_frame: "(\<And>a. a \<in> addrs ns \<Longrightarrow> h' a = h a) \<Longrightarrow> dseg h' p ns q = dseg h p ns q"
  by (induction ns arbitrary: p) simp_all

lemma dseg_upd [simp]: "b \<notin> addrs ns \<Longrightarrow> dseg (h(b := y)) p ns q = dseg h p ns q"
  by (rule dseg_frame) auto

lemma first_same: "xs \<noteq> [] \<Longrightarrow> first xs q = first xs r"
  by (cases xs) simp_all

lemma final_same: "xs \<noteq> [] \<Longrightarrow> final p xs = final q xs"
  by (simp add: final_def)

lemma final_mem: "xs \<noteq> [] \<Longrightarrow> \<exists>b. final p xs = Some b \<and> b \<in> addrs xs"
  by (induction xs rule: rev_induct) auto

text \<open>Changing the link at either end of a segment.\<close>

lemma dseg_set_next:
  assumes "dseg h p xs q" "apart xs" "xs \<noteq> []" "final None xs = Some b"
  shows "\<exists>h'. set_next b r h = Some h' \<and> dseg h' p xs r \<and> (\<forall>a. a \<noteq> b \<longrightarrow> h' a = h a)"
proof -
  obtain ys n where xs: "xs = ys @ [n]" using assms(3) by (metis append_butlast_last_id)
  then have b: "b = fst n" and h: "h b = Some \<lparr>nd_prev = final p ys, nd_next = q, nd_value = snd n\<rparr>"
    and ys: "dseg h p ys (Some b)" and out: "b \<notin> addrs ys"
    using assms by (auto simp: dseg_append)
  let ?h = "h(b \<mapsto> \<lparr>nd_prev = final p ys, nd_next = r, nd_value = snd n\<rparr>)"
  have "dseg ?h p ys (Some b)" using ys out by (subst dseg_frame [of ys _ h]) auto
  then have "dseg ?h p xs r" by (simp add: xs dseg_append b)
  then show ?thesis using h by (simp add: set_next_def)
qed

lemma dseg_set_prev:
  assumes "dseg h p (n # ns) q" "apart (n # ns)"
  shows "\<exists>h'. set_prev (fst n) r h = Some h' \<and> dseg h' r (n # ns) q \<and> (\<forall>a. a \<noteq> fst n \<longrightarrow> h' a = h a)"
proof -
  let ?h = "h(fst n \<mapsto> \<lparr>nd_prev = r, nd_next = first ns q, nd_value = snd n\<rparr>)"
  have "dseg ?h (Some (fst n)) ns q" using assms by (subst dseg_frame [of ns _ h]) auto
  then show ?thesis using assms by (simp add: set_prev_def)
qed

subsection \<open>The operations on representations\<close>

definition methods :: "'v adlist \<Rightarrow> ('v \<Rightarrow> 'v option) option \<times> bool \<times> ('v \<Rightarrow> 'v \<Rightarrow> bool) option" where
  "methods l = (al_dup l, al_free l, al_match l)"

lemma al_rep_create: "al_rep h listCreate []"
  by (simp add: al_rep_def listCreate_def)

lemma len_up: "unat (n :: u64) < 2 ^ 64 - 1 \<Longrightarrow> unat (n + 1) = unat n + 1"
  by (simp add: unat_word_ariths)

lemma len_0: "al_rep h l ns \<Longrightarrow> al_len l = 0 \<longleftrightarrow> ns = []"
  by (auto simp: al_rep_def unat_eq_0)

lemma add_head:
  assumes rep: "al_rep h l ns" and a: "a \<notin> addrs ns" and len: "length ns < 2 ^ 64 - 1"
  shows "\<exists>h' l'. listAddNodeHead a v h l = Some (h', l') \<and> al_rep h' l' ((a, v) # ns) \<and> methods l' = methods l \<and>
    (\<forall>x. x \<notin> insert a (addrs ns) \<longrightarrow> h' x = h x)"
proof (cases ns)
  case Nil
  then show ?thesis using rep len_0 [OF rep]
    by (simp add: listAddNodeHead_def al_rep_def methods_def)
next
  case (Cons n ms)
  let ?h = "h(a \<mapsto> \<lparr>nd_prev = None, nd_next = Some (fst n), nd_value = v\<rparr>)"
  have d: "dseg ?h None ns None" using rep a by (subst dseg_frame [of ns _ h]) (auto simp: al_rep_def)
  obtain h' where h': "set_prev (fst n) (Some a) ?h = Some h'" "dseg h' (Some a) ns None" "\<And>x. x \<noteq> fst n \<Longrightarrow> h' x = ?h x"
    using dseg_set_prev [of ?h None n ms None "Some a"] d rep by (auto simp: al_rep_def Cons)
  have "h' a = ?h a" using h'(3) [of a] a Cons by auto
  then have "al_rep h' (l\<lparr>al_head := Some a, al_len := al_len l + 1\<rparr>) ((a, v) # ns)"
    using rep a h'(2) len len_up [of "al_len l"] by (simp add: al_rep_def Cons)
  then show ?thesis using rep len_0 [OF rep] h' by (simp add: listAddNodeHead_def al_rep_def Cons methods_def)
qed

lemma add_tail:
  assumes rep: "al_rep h l ns" and a: "a \<notin> addrs ns" and len: "length ns < 2 ^ 64 - 1"
  shows "\<exists>h' l'. listAddNodeTail a v h l = Some (h', l') \<and> al_rep h' l' (ns @ [(a, v)]) \<and> methods l' = methods l \<and>
    (\<forall>x. x \<notin> insert a (addrs ns) \<longrightarrow> h' x = h x)"
proof (cases "ns = []")
  case True
  then show ?thesis using rep len_0 [OF rep]
    by (simp add: listAddNodeTail_def al_rep_def methods_def)
next
  case False
  then obtain b where b: "final None ns = Some b" "b \<in> addrs ns" using final_mem by blast
  let ?h = "h(a \<mapsto> \<lparr>nd_prev = Some b, nd_next = None, nd_value = v\<rparr>)"
  have d: "dseg ?h None ns None" using rep a by (subst dseg_frame [of ns _ h]) (auto simp: al_rep_def)
  obtain h' where h': "set_next b (Some a) ?h = Some h'" "dseg h' None ns (Some a)" "\<And>x. x \<noteq> b \<Longrightarrow> h' x = ?h x"
    using dseg_set_next [OF d _ False b(1), of "Some a"] rep by (auto simp: al_rep_def)
  have "h' a = ?h a" using h'(3) [of a] a b by auto
  then have "al_rep h' (l\<lparr>al_tail := Some a, al_len := al_len l + 1\<rparr>) (ns @ [(a, v)])"
    using rep a h'(2) len len_up [of "al_len l"] b first_same [OF False, of "Some a" None] by (simp add: al_rep_def dseg_append)
  moreover have "\<forall>x. x \<notin> insert a (addrs ns) \<longrightarrow> h' x = h x" using h'(3) b(2) by (metis fun_upd_other insertCI)
  ultimately show ?thesis using rep len_0 [OF rep] h'(1) b False by (simp add: listAddNodeTail_def al_rep_def methods_def)
qed

text \<open>Linking a new node between two segments.\<close>

lemma link_node_ok:
  assumes xs: "dseg h None xs (first ys None)" and ys: "dseg h (final None xs) ys None" and ap: "apart (xs @ ys)"
    and a: "a \<notin> addrs (xs @ ys)"
  shows "\<exists>h'. link_node a \<lparr>nd_prev = final None xs, nd_next = first ys None, nd_value = v\<rparr> h = Some h' \<and>
    dseg h' None (xs @ (a, v) # ys) None \<and> (\<forall>x. x \<notin> insert a (addrs (xs @ ys)) \<longrightarrow> h' x = h x)"
proof -
  let ?n = "\<lparr>nd_prev = final None xs, nd_next = first ys None, nd_value = v\<rparr>"
  let ?h = "h(a \<mapsto> ?n)"
  have "\<exists>h1. (case final None xs of None \<Rightarrow> Some ?h | Some p \<Rightarrow> set_next p (Some a) ?h) = Some h1 \<and> dseg h1 None xs (Some a) \<and>
      (\<forall>x. x \<notin> addrs xs \<longrightarrow> h1 x = ?h x)"
  proof (cases "xs = []")
    case False
    then obtain b where b: "final None xs = Some b" "b \<in> addrs xs" using final_mem by blast
    have "dseg ?h None xs (first ys None)" using xs a by (subst dseg_frame [of xs _ h]) auto
    from dseg_set_next [OF this _ False b(1), of "Some a"] ap obtain h1 where h1: "set_next b (Some a) ?h = Some h1"
      "dseg h1 None xs (Some a)" "\<forall>x. x \<noteq> b \<longrightarrow> h1 x = ?h x" by auto
    have "\<forall>x. x \<notin> addrs xs \<longrightarrow> h1 x = ?h x" using h1(3) b(2) by metis
    with h1(1,2) show ?thesis unfolding b(1) option.case by blast
  qed simp
  then obtain h1 where h1: "(case final None xs of None \<Rightarrow> Some ?h | Some p \<Rightarrow> set_next p (Some a) ?h) = Some h1"
    "dseg h1 None xs (Some a)" "\<And>x. x \<notin> addrs xs \<Longrightarrow> h1 x = ?h x" by blast
  have "h1 x = h x" if "x \<in> addrs ys" for x
  proof -
    have "x \<noteq> a" "x \<notin> addrs xs" using that a ap by auto
    then show ?thesis using h1(3) [of x] by simp
  qed
  then have y1: "dseg h1 (final None xs) ys None" using ys dseg_frame [of ys h1 h] by simp
  have "\<exists>h2. (case first ys None of None \<Rightarrow> Some h1 | Some q \<Rightarrow> set_prev q (Some a) h1) = Some h2 \<and> dseg h2 (Some a) ys None \<and>
      (\<forall>x. x \<notin> addrs ys \<longrightarrow> h2 x = h1 x)"
  proof (cases ys)
    case (Cons n ms)
    from dseg_set_prev [of h1 "final None xs" n ms None "Some a"] y1 ap Cons show ?thesis by auto
  qed simp
  then obtain h2 where h2: "(case first ys None of None \<Rightarrow> Some h1 | Some q \<Rightarrow> set_prev q (Some a) h1) = Some h2"
    "dseg h2 (Some a) ys None" "\<And>x. x \<notin> addrs ys \<Longrightarrow> h2 x = h1 x" by blast
  have "dseg h2 None xs (Some a)" using h1(2) h2(3) ap by (subst dseg_frame [of xs _ h1]) auto
  moreover have "h2 a = Some ?n" using h2(3) [of a] h1(3) [of a] a by simp
  ultimately have "dseg h2 None (xs @ (a, v) # ys) None" using h2(2) by (simp add: dseg_append)
  moreover have "h2 x = h x" if "x \<notin> insert a (addrs (xs @ ys))" for x using h2(3) [of x] h1(3) [of x] that by simp
  ultimately show ?thesis using h1(1) h2(1) by (simp add: link_node_def)
qed

lemma final_at: "apart (xs @ (b, w) # ys) \<Longrightarrow> final None (xs @ (b, w) # ys) = Some b \<longleftrightarrow> ys = []"
  using final_mem [of ys "Some b"] by (cases "ys = []") (auto simp: final_append)

lemma first_at: "apart (xs @ (b, w) # ys) \<Longrightarrow> first (xs @ (b, w) # ys) None = Some b \<longleftrightarrow> xs = []"
  by (cases xs) auto

lemma insert_node:
  assumes rep: "al_rep h l (xs @ (b, w) # ys)" and a: "a \<notin> addrs (xs @ (b, w) # ys)"
    and len: "length (xs @ (b, w) # ys) < 2 ^ 64 - 1"
  shows "\<exists>h' l'. listInsertNode a b v after h l = Some (h', l') \<and> methods l' = methods l \<and>
    al_rep h' l' (if after then xs @ (b, w) # (a, v) # ys else xs @ (a, v) # (b, w) # ys) \<and>
    (\<forall>x. x \<notin> insert a (addrs (xs @ (b, w) # ys)) \<longrightarrow> h' x = h x)"
proof -
  have d: "dseg h None xs (Some b)" "h b = Some \<lparr>nd_prev = final None xs, nd_next = first ys None, nd_value = w\<rparr>"
    "dseg h (Some b) ys None" and ap: "apart (xs @ (b, w) # ys)"
    using rep by (simp_all add: al_rep_def dseg_append)
  have lu: "unat (al_len l + 1) = length (xs @ (b, w) # ys) + 1"
    using rep len len_up [of "al_len l"] by (simp add: al_rep_def)
  show ?thesis
  proof (cases after)
    case True
    have ap2: "apart ((xs @ [(b, w)]) @ ys)" "a \<notin> addrs ((xs @ [(b, w)]) @ ys)" using ap a by auto
    obtain h' where h': "link_node a \<lparr>nd_prev = Some b, nd_next = first ys None, nd_value = v\<rparr> h = Some h'"
      "dseg h' None ((xs @ [(b, w)]) @ (a, v) # ys) None" "\<forall>x. x \<notin> insert a (addrs ((xs @ [(b, w)]) @ ys)) \<longrightarrow> h' x = h x"
      using link_node_ok [of h "xs @ [(b, w)]" ys, OF _ _ ap2, of v] d by (auto simp: dseg_append)
    let ?l = "l\<lparr>al_tail := if al_tail l = Some b then Some a else al_tail l, al_len := al_len l + 1\<rparr>"
    have "al_rep h' ?l (xs @ (b, w) # (a, v) # ys)"
      using rep h'(2) ap a lu final_at [OF ap] final_same [of ys "Some a" "Some b"]
      by (cases "ys = []") (auto simp: al_rep_def final_append)
    then show ?thesis using True d(2) h'(1,3) by (simp add: listInsertNode_def methods_def)
  next
    case False
    obtain h' where h': "link_node a \<lparr>nd_prev = final None xs, nd_next = Some b, nd_value = v\<rparr> h = Some h'"
      "dseg h' None (xs @ (a, v) # (b, w) # ys) None" "\<forall>x. x \<notin> insert a (addrs (xs @ (b, w) # ys)) \<longrightarrow> h' x = h x"
      using link_node_ok [of h xs "(b, w) # ys", OF _ _ ap a, of v] d by auto
    let ?l = "l\<lparr>al_head := if al_head l = Some b then Some a else al_head l, al_len := al_len l + 1\<rparr>"
    have "al_rep h' ?l (xs @ (a, v) # (b, w) # ys)"
      using rep h'(2) ap a lu first_at [OF ap] by (cases xs) (auto simp: al_rep_def final_append)
    then show ?thesis using False d(2) h'(1,3) by (simp add: listInsertNode_def methods_def)
  qed
qed

lemma del_node:
  assumes rep: "al_rep h l (xs @ (b, w) # ys)"
  shows "\<exists>h' l'. listDelNode b h l = Some (if al_free l then Some w else None, h', l') \<and> al_rep h' l' (xs @ ys) \<and>
    methods l' = methods l \<and> h' b = None \<and> (\<forall>x. x \<notin> addrs (xs @ (b, w) # ys) \<longrightarrow> h' x = h x)"
proof -
  let ?n = "\<lparr>nd_prev = final None xs, nd_next = first ys None, nd_value = w\<rparr>"
  have d: "dseg h None xs (Some b)" "h b = Some ?n" "dseg h (Some b) ys None" and ap: "apart (xs @ (b, w) # ys)"
    using rep by (simp_all add: al_rep_def dseg_append)
  have "\<exists>h1. (case final None xs of None \<Rightarrow> Some (h, l\<lparr>al_head := first ys None\<rparr>)
        | Some p \<Rightarrow> map_option (\<lambda>h'. (h', l)) (set_next p (first ys None) h)) =
      Some (h1, if xs = [] then l\<lparr>al_head := first ys None\<rparr> else l) \<and> dseg h1 None xs (first ys None) \<and>
      (\<forall>x. x \<notin> addrs xs \<longrightarrow> h1 x = h x)"
  proof (cases "xs = []")
    case False
    then obtain p where p: "final None xs = Some p" "p \<in> addrs xs" using final_mem by blast
    obtain h1 where "set_next p (first ys None) h = Some h1" "dseg h1 None xs (first ys None)" "\<forall>x. x \<noteq> p \<longrightarrow> h1 x = h x"
      using dseg_set_next [OF d(1) _ False p(1), of "first ys None"] ap by auto
    with p False show ?thesis by (intro exI [of _ h1]) auto
  qed simp
  then obtain h1 where h1: "(case final None xs of None \<Rightarrow> Some (h, l\<lparr>al_head := first ys None\<rparr>)
        | Some p \<Rightarrow> map_option (\<lambda>h'. (h', l)) (set_next p (first ys None) h)) =
      Some (h1, if xs = [] then l\<lparr>al_head := first ys None\<rparr> else l)" "dseg h1 None xs (first ys None)"
    "\<And>x. x \<notin> addrs xs \<Longrightarrow> h1 x = h x" by blast
  define l1 where "l1 = (if xs = [] then l\<lparr>al_head := first ys None\<rparr> else l)"
  have b1: "h1 b = Some ?n" using h1(3) [of b] d(2) ap by auto
  have "h1 x = h x" if "x \<in> addrs ys" for x using h1(3) [of x] that ap by auto
  then have y1: "dseg h1 (Some b) ys None" using d(3) dseg_frame [of ys h1 h] by simp
  have "\<exists>h2. (case first ys None of None \<Rightarrow> Some (h1, l1\<lparr>al_tail := final None xs\<rparr>)
        | Some q \<Rightarrow> map_option (\<lambda>h'. (h', l1)) (set_prev q (final None xs) h1)) =
      Some (h2, if ys = [] then l1\<lparr>al_tail := final None xs\<rparr> else l1) \<and> dseg h2 (final None xs) ys None \<and>
      (\<forall>x. x \<notin> addrs ys \<longrightarrow> h2 x = h1 x)"
  proof (cases ys)
    case (Cons n ms)
    have "apart (n # ms)" using ap Cons by auto
    then obtain h2 where "set_prev (fst n) (final None xs) h1 = Some h2" "dseg h2 (final None xs) (n # ms) None"
      "\<forall>x. x \<noteq> fst n \<longrightarrow> h2 x = h1 x" using dseg_set_prev [of h1 "Some b" n ms None "final None xs"] y1 Cons by blast
    with Cons show ?thesis by (intro exI [of _ h2]) auto
  qed simp
  then obtain h2 where h2: "(case first ys None of None \<Rightarrow> Some (h1, l1\<lparr>al_tail := final None xs\<rparr>)
        | Some q \<Rightarrow> map_option (\<lambda>h'. (h', l1)) (set_prev q (final None xs) h1)) =
      Some (h2, if ys = [] then l1\<lparr>al_tail := final None xs\<rparr> else l1)" "dseg h2 (final None xs) ys None"
    "\<And>x. x \<notin> addrs ys \<Longrightarrow> h2 x = h1 x" by blast
  define l2 where "l2 = (if ys = [] then l1\<lparr>al_tail := final None xs\<rparr> else l1)"
  let ?h = "h2(b := None)"
  have "h2 x = h1 x" if "x \<in> addrs xs" for x using h2(3) [of x] that ap by auto
  then have x2: "dseg h2 None xs (first ys None)" using h1(2) dseg_frame [of xs h2 h1] by simp
  have out: "b \<notin> addrs xs" "b \<notin> addrs ys" using ap by auto
  have seg: "dseg ?h None (xs @ ys) None"
    using x2 h2(2) out by (simp add: dseg_append)
  have "unat (al_len l) = length (xs @ (b, w) # ys)" using rep by (simp add: al_rep_def)
  then have "unat (al_len l - 1) = length (xs @ ys)" by (simp add: unat_sub word_le_nat_alt)
  moreover have "al_head l2 = first (xs @ ys) None"
    using rep first_same [of xs "Some b" "first ys None"] by (cases "xs = []") (simp_all add: al_rep_def l1_def l2_def)
  moreover have "al_tail l2 = final None (xs @ ys)"
    using rep final_same [of ys "Some b" "final None xs"] by (cases "ys = []") (simp_all add: al_rep_def l1_def l2_def final_append)
  moreover have "al_len l2 = al_len l" by (simp add: l1_def l2_def)
  ultimately have r: "al_rep ?h (l2\<lparr>al_len := al_len l2 - 1\<rparr>) (xs @ ys)" using seg ap by (simp add: al_rep_def)
  have fr: "?h x = h x" if "x \<notin> addrs (xs @ (b, w) # ys)" for x using that h2(3) [of x] h1(3) [of x] by simp
  have "listDelNode b h l = Some (if al_free l then Some w else None, ?h, l2\<lparr>al_len := al_len l2 - 1\<rparr>)"
    unfolding listDelNode_def d(2) option.case listNode.select_convs h1(1) [folded l1_def] prod.case b1 h2(1) [folded l2_def]
    by (simp add: l1_def)
  moreover have "methods (l2\<lparr>al_len := al_len l2 - 1\<rparr>) = methods l" by (simp add: methods_def l1_def l2_def)
  ultimately show ?thesis using r fr by fastforce
qed

lemma rotate:
  assumes rep: "al_rep h l (xs @ [n])" and xs: "xs \<noteq> []"
  shows "\<exists>h' l'. listRotate h l = Some (h', l') \<and> al_rep h' l' (n # xs) \<and> methods l' = methods l \<and>
    (\<forall>x. x \<notin> addrs (xs @ [n]) \<longrightarrow> h' x = h x)"
proof -
  obtain p where p: "final None xs = Some p" "p \<in> addrs xs" using final_mem [OF xs] by blast
  have d: "dseg h None xs (Some (fst n))" "h (fst n) = Some \<lparr>nd_prev = Some p, nd_next = None, nd_value = snd n\<rparr>"
    and ap: "apart xs" "fst n \<notin> addrs xs" using rep p(1) by (auto simp: al_rep_def dseg_append)
  obtain m ms where m: "xs = m # ms" using xs by (cases xs) auto
  obtain h1 where h1: "set_next p None h = Some h1" "dseg h1 None xs None" "\<And>a. a \<noteq> p \<Longrightarrow> h1 a = h a"
    using dseg_set_next [OF d(1) ap(1) xs p(1), of None] by auto
  obtain h2 where h2: "set_prev (fst m) (Some (fst n)) h1 = Some h2" "dseg h2 (Some (fst n)) xs None"
    "\<And>a. a \<noteq> fst m \<Longrightarrow> h2 a = h1 a"
    using dseg_set_prev [of h1 None m ms None "Some (fst n)"] h1(2) ap(1) m by auto
  have "fst n \<noteq> p" "fst n \<noteq> fst m" using ap p(2) m by auto
  then have n2: "h2 (fst n) = Some \<lparr>nd_prev = Some p, nd_next = None, nd_value = snd n\<rparr>" using h2(3) h1(3) d(2) by simp
  let ?h = "h2(fst n \<mapsto> \<lparr>nd_prev = None, nd_next = Some (fst m), nd_value = snd n\<rparr>)"
  let ?l = "l\<lparr>al_tail := Some p, al_head := Some (fst n)\<rparr>"
  have n0: "\<not> al_len l \<le> 1" using rep m by (simp add: al_rep_def word_le_nat_alt)
  have "al_tail l = Some (fst n)" "al_head l = Some (fst m)" using rep m by (simp_all add: al_rep_def)
  then have "listRotate h l = Some (?h, ?l)"
    using n0 d(2) h1(1) h2(1) n2 by (simp add: listRotate_def set_prev_def [of "fst n"] set_next_def [of "fst n"])
  moreover have "al_rep ?h ?l (n # xs)"
    using rep h2(2) ap p(1) final_same [OF xs, of "Some (fst n)" None] m by (simp add: al_rep_def)
  moreover have "methods ?l = methods l" by (simp add: methods_def)
  moreover have "?h x = h x" if "x \<notin> addrs (xs @ [n])" for x
  proof -
    have "x \<noteq> fst n" "x \<noteq> fst m" "x \<noteq> p" using that p(2) m by auto
    then show ?thesis using h2(3) h1(3) by simp
  qed
  ultimately show ?thesis by blast
qed

lemma walk_next: "dseg h p ns None \<Longrightarrow> walk nd_next i (first ns None) h = Some (if i < length ns then Some (fst (ns ! i)) else None)"
proof (induction ns arbitrary: p i)
  case Nil
  then show ?case by (cases i) simp_all
next
  case (Cons n ns)
  then show ?case using Cons.IH [of "Some (fst n)"] by (cases i) simp_all
qed

lemma walk_prev:
  "dseg h None ns q \<Longrightarrow> walk nd_prev i (final None ns) h = Some (if i < length ns then Some (fst (ns ! (length ns - 1 - i))) else None)"
proof (induction ns arbitrary: q i rule: rev_induct)
  case Nil
  then show ?case by (cases i) simp_all
next
  case (snoc n ns)
  then have d: "dseg h None ns (Some (fst n))" by (simp add: dseg_append)
  show ?case
  proof (cases i)
    case 0
    then show ?thesis by simp
  next
    case (Suc j)
    then show ?thesis using snoc.prems snoc.IH [OF d, of j] by (auto simp: dseg_append nth_append)
  qed
qed

text \<open>The position an index stands for: from the head, or from the tail if it is negative.\<close>

definition position :: "nat \<Rightarrow> int \<Rightarrow> nat option" where
  "position n i = (if 0 \<le> i then (if i < int n then Some (nat i) else None)
     else if - i \<le> int n then Some (n - nat (- i)) else None)"

lemma position_less: "position n i = Some k \<Longrightarrow> k < n"
  by (auto simp: position_def split: if_splits)

lemma listIndex_ok:
  assumes "al_rep h l ns"
  shows "listIndex h l i = Some (map_option (\<lambda>k. fst (ns ! k)) (position (length ns) i))"
proof (cases "i < 0")
  case True
  have "dseg h None ns None" "al_tail l = final None ns" using assms by (simp_all add: al_rep_def)
  moreover have "length ns - 1 - nat (- i - 1) = length ns - nat (- i)" "nat (- i - 1) < length ns \<longleftrightarrow> - i \<le> int (length ns)"
    using True by linarith+
  ultimately show ?thesis using walk_prev [of h ns None "nat (- i - 1)"] True by (simp add: listIndex_def position_def)
next
  case False
  have "dseg h None ns None" "al_head l = first ns None" using assms by (simp_all add: al_rep_def)
  moreover have "nat i < length ns \<longleftrightarrow> i < int (length ns)" using False by linarith
  ultimately show ?thesis using walk_next [of h None ns "nat i"] False by (simp add: listIndex_def position_def)
qed

lemma release_ok:
  "dseg h p ns None \<Longrightarrow> apart ns \<Longrightarrow>
    release_loop (length ns) (first ns None) h = Some (map snd ns, \<lambda>x. if x \<in> addrs ns then None else h x)"
proof (induction ns arbitrary: p h)
  case (Cons n ns)
  have d: "dseg (h(fst n := None)) (Some (fst n)) ns None" "apart ns" using Cons.prems by simp_all
  have ih: "release_loop (length ns) (first ns None) (h(fst n := None)) =
    Some (map snd ns, \<lambda>x. if x \<in> addrs ns then None else (h(fst n := None)) x)"
    by (rule Cons.IH [OF d])
  show ?case using Cons.prems by (simp add: ih fun_eq_iff del: fun_upd_apply) (auto simp: fun_eq_iff)
qed simp

lemma listRelease_ok:
  assumes "al_rep h l ns"
  shows "listRelease h l = Some (if al_free l then map snd ns else [], \<lambda>x. if x \<in> addrs ns then None else h x)"
  using release_ok [of h None ns] assms by (simp add: listRelease_def al_rep_def)

subsection \<open>Loops over an iterator\<close>

text \<open>A user's loop: the values of the nodes that listNext gives, at most \<open>k\<close> calls.\<close>

fun iterate :: "nat \<Rightarrow> 'v nodes \<Rightarrow> listIter \<Rightarrow> 'v list option" where
  "iterate 0 h it = None"
| "iterate (Suc k) h it =
     (case listNext h it of
        None \<Rightarrow> None
      | Some (None, it') \<Rightarrow> Some []
      | Some (Some a, it') \<Rightarrow> (case h a of None \<Rightarrow> None | Some n \<Rightarrow> map_option (\<lambda>vs. nd_value n # vs) (iterate k h it')))"

lemma iterate_forward:
  "dseg h p ns None \<Longrightarrow> length ns < k \<Longrightarrow> iterate k h \<lparr>li_next = first ns None, li_direction = AL_START_HEAD\<rparr> = Some (map snd ns)"
proof (induction ns arbitrary: p k)
  case Nil
  then show ?case by (cases k) (simp_all add: listNext_def)
next
  case (Cons n ns)
  then obtain j where "k = Suc j" "length ns < j" by (cases k) auto
  then show ?case using Cons.prems Cons.IH [of "Some (fst n)" j] by (simp add: listNext_def)
qed

lemma iterate_backward:
  "dseg h None ns q \<Longrightarrow> length ns < k \<Longrightarrow> iterate k h \<lparr>li_next = final None ns, li_direction = AL_START_TAIL\<rparr> = Some (rev (map snd ns))"
proof (induction ns arbitrary: q k rule: rev_induct)
  case Nil
  then show ?case by (cases k) (simp_all add: listNext_def)
next
  case (snoc n ns)
  then obtain j where "k = Suc j" "length ns < j" by (cases k) auto
  then show ?case using snoc.prems snoc.IH [of "Some (fst n)" j]
    by (simp add: listNext_def dseg_append AL_START_HEAD_def AL_START_TAIL_def)
qed

definition matches :: "'v adlist \<Rightarrow> 'v \<Rightarrow> 'v \<Rightarrow> bool" where
  "matches l key v = (case al_match l of Some f \<Rightarrow> f v key | None \<Rightarrow> key = v)"

lemma search_ok:
  "dseg h p ns None \<Longrightarrow> search_loop l key h \<lparr>li_next = first ns None, li_direction = AL_START_HEAD\<rparr> =
    Some (map_option fst (find (\<lambda>n. matches l key (snd n)) ns))"
proof (induction ns arbitrary: p)
  case Nil
  then show ?case by (subst search_loop.simps) (simp add: listNext_def)
next
  case (Cons n ns)
  note IH = Cons.IH [of "Some (fst n)"]
  show ?case using Cons.prems IH by (subst search_loop.simps) (cases "al_match l", simp_all add: listNext_def matches_def)
qed

lemma undo: "A \<inter> dom h0 = {} \<Longrightarrow> \<forall>x. x \<notin> A \<longrightarrow> h x = h0 x \<Longrightarrow> (\<lambda>x. if x \<in> A then None else h x) = h0"
  by (rule ext) (metis disjoint_iff domIff)

text \<open>What listDup makes of one value.\<close>

definition dup_value :: "'v adlist \<Rightarrow> 'v \<Rightarrow> 'v option" where
  "dup_value l v = (case al_dup l of None \<Rightarrow> Some v | Some f \<Rightarrow> f v)"

lemma dup_value_methods: "methods l = methods l' \<Longrightarrow> dup_value l = dup_value l'"
  by (simp add: methods_def dup_value_def fun_eq_iff)

text \<open>\<open>new\<close> finds a free address on the heaps that have one.\<close>

definition fresh :: "('v nodes \<Rightarrow> nat) \<Rightarrow> bool" where
  "fresh new \<longleftrightarrow> (\<forall>h. finite (dom h) \<longrightarrow> h (new h) = None)"

lemma addrs_dom: "dseg h p ns q \<Longrightarrow> addrs ns \<subseteq> dom h"
  by (induction ns arbitrary: p) auto

lemma dup_ok:
  assumes new: "fresh new"
  shows "dseg h p ns None \<Longrightarrow> al_rep h c cs \<Longrightarrow> finite (dom h) \<Longrightarrow> addrs cs \<inter> dom h0 = {} \<Longrightarrow> addrs ns \<subseteq> dom h0 \<Longrightarrow>
    (\<forall>x. x \<notin> addrs cs \<longrightarrow> h x = h0 x) \<Longrightarrow> length cs + length ns < 2 ^ 64 \<Longrightarrow>
    \<exists>r h'. dup_loop new \<lparr>li_next = first ns None, li_direction = AL_START_HEAD\<rparr> h c = Some (r, h') \<and>
      (case those (map (dup_value c) (map snd ns)) of
         None \<Rightarrow> r = None \<and> h' = h0
       | Some vs \<Rightarrow> \<exists>c' cs'. r = Some c' \<and> methods c' = methods c \<and> al_rep h' c' cs' \<and> map snd cs' = map snd cs @ vs \<and>
           addrs cs' \<inter> dom h0 = {} \<and> (\<forall>x. x \<in> addrs cs' \<or> h' x = h0 x))"
proof (induction ns arbitrary: p h c cs)
  case Nil
  then show ?case by (subst dup_loop.simps) (auto simp: listNext_def)
next
  case (Cons n ns)
  have hn: "h (fst n) = Some \<lparr>nd_prev = p, nd_next = first ns None, nd_value = snd n\<rparr>" using Cons.prems by simp
  have step: "dup_loop new \<lparr>li_next = first (n # ns) None, li_direction = AL_START_HEAD\<rparr> h c =
      (case dup_value c (snd n) of
         None \<Rightarrow> (case listRelease h c of None \<Rightarrow> None | Some (vs, h') \<Rightarrow> Some (None, h'))
       | Some v \<Rightarrow> (case listAddNodeTail (new h) v h c of None \<Rightarrow> None
           | Some (h', c') \<Rightarrow> dup_loop new \<lparr>li_next = first ns None, li_direction = AL_START_HEAD\<rparr> h' c'))"
    using hn by (subst dup_loop.simps) (cases "al_dup c"; simp add: listNext_def dup_value_def)
  show ?case
  proof (cases "dup_value c (snd n)")
    case None
    have "(\<lambda>x. if x \<in> addrs cs then None else h x) = h0" by (rule undo) (rule Cons.prems(4,6))+
    then show ?thesis unfolding step using None listRelease_ok [OF Cons.prems(2)] by simp
  next
    case (Some v)
    have out: "h (new h) = None" using new Cons.prems(3) by (simp add: fresh_def)
    have ds: "dseg h p (n # ns) None" by (rule Cons.prems(1))
    have a: "new h \<notin> addrs cs" using addrs_dom [of h None cs None] Cons.prems(2) out by (auto simp: al_rep_def)
    have a0: "new h \<notin> dom h0" using Cons.prems(6) a out by auto
    obtain h' c' where t: "listAddNodeTail (new h) v h c = Some (h', c')" "al_rep h' c' (cs @ [(new h, v)])"
      "methods c' = methods c" "\<And>x. x \<notin> insert (new h) (addrs cs) \<Longrightarrow> h' x = h x"
      using add_tail [OF Cons.prems(2) a, of v] Cons.prems(7) by auto
    have "addrs ns \<inter> insert (new h) (addrs cs) = {}" using Cons.prems(4,5) a0 by auto
    then have same: "\<And>x. x \<in> addrs ns \<Longrightarrow> h' x = h x" using t(4) by (metis disjoint_iff)
    have d: "dseg h' (Some (fst n)) ns None" using ds by (simp add: dseg_frame [of ns h' h, OF same])
    have fin: "finite (dom h')"
      by (rule finite_subset [of _ "dom h \<union> insert (new h) (addrs cs)"]) (use t(4) Cons.prems(3) in \<open>auto simp: addrs_def\<close>)
    have sep: "addrs (cs @ [(new h, v)]) \<inter> dom h0 = {}" using Cons.prems(4) a0 by auto
    have sub: "addrs ns \<subseteq> dom h0" using Cons.prems(5) by simp
    have out': "\<forall>x. x \<notin> addrs (cs @ [(new h, v)]) \<longrightarrow> h' x = h0 x" using t(4) Cons.prems(6) by auto
    have len: "length (cs @ [(new h, v)]) + length ns < 2 ^ 64" using Cons.prems(7) by simp
    have dv: "dup_value c' = dup_value c" by (rule dup_value_methods [OF t(3)])
    define E where "E = those (map (dup_value c) (map snd ns))"
    have E: "those (map (dup_value c) (map snd (n # ns))) = map_option ((#) v) E" by (simp add: Some E_def)
    show ?thesis using Cons.IH [OF d t(2) fin sep sub out' len]
      unfolding step Some option.case t(1) prod.case E dv E_def [symmetric] t(3)
      by (cases E) simp_all
  qed
qed

lemma listDup_ok:
  assumes "fresh new" "finite (dom h)" "al_rep h l ns"
  shows "\<exists>r h'. listDup new h l = Some (r, h') \<and>
      (case those (map (dup_value l) (map snd ns)) of
         None \<Rightarrow> r = None \<and> h' = h
       | Some vs \<Rightarrow> \<exists>c cs. r = Some c \<and> methods c = methods l \<and> al_rep h' c cs \<and> map snd cs = vs \<and>
           addrs cs \<inter> dom h = {} \<and> (\<forall>x. x \<in> addrs cs \<or> h' x = h x))"
proof -
  let ?c = "listCreate\<lparr>al_dup := al_dup l, al_free := al_free l, al_match := al_match l\<rparr>"
  have "al_rep h ?c []" by (simp add: al_rep_def listCreate_def)
  moreover have "methods ?c = methods l" by (simp add: methods_def)
  moreover have "dup_value ?c = dup_value l" by (simp add: dup_value_def fun_eq_iff)
  moreover have "unat (al_len l) < 2 ^ 64" using unsigned_less [where ?'a = nat and w = "al_len l"] by simp
  moreover have "dseg h None ns None" "addrs ns \<subseteq> dom h" "al_head l = first ns None" "unat (al_len l) = length ns"
    using assms addrs_dom [of h None ns None] by (simp_all add: al_rep_def)
  ultimately show ?thesis using dup_ok [OF assms(1), of h None ns ?c "[]" h] assms(2)
    by (simp add: listDup_def listGetIterator_def cong: option.case_cong)
qed

text \<open>A loop that deletes nodes as listNext delivers them: the iterator already points to the node behind.\<close>

fun purge :: "nat \<Rightarrow> ('v \<Rightarrow> bool) \<Rightarrow> listIter \<Rightarrow> 'v nodes \<Rightarrow> 'v adlist \<Rightarrow> ('v nodes \<times> 'v adlist) option" where
  "purge 0 P it h l = None"
| "purge (Suc k) P it h l =
     (case listNext h it of
        None \<Rightarrow> None
      | Some (None, it') \<Rightarrow> Some (h, l)
      | Some (Some a, it') \<Rightarrow>
          (case h a of
             None \<Rightarrow> None
           | Some n \<Rightarrow>
               if P (nd_value n) then (case listDelNode a h l of None \<Rightarrow> None | Some (v, h', l') \<Rightarrow> purge k P it' h' l')
               else purge k P it' h l))"

lemma purge_ok:
  "al_rep h l (xs @ ns) \<Longrightarrow> length ns < k \<Longrightarrow>
    \<exists>h' l'. purge k P \<lparr>li_next = first ns None, li_direction = AL_START_HEAD\<rparr> h l = Some (h', l') \<and>
      al_rep h' l' (xs @ filter (\<lambda>n. \<not> P (snd n)) ns)"
proof (induction ns arbitrary: xs h l k)
  case Nil
  then show ?case by (cases k) (simp_all add: listNext_def)
next
  case (Cons n ns)
  obtain j where k: "k = Suc j" "length ns < j" using Cons.prems(2) by (cases k) auto
  have hn: "h (fst n) = Some \<lparr>nd_prev = final None xs, nd_next = first ns None, nd_value = snd n\<rparr>"
    using Cons.prems(1) by (simp add: al_rep_def dseg_append)
  show ?case
  proof (cases "P (snd n)")
    case True
    obtain h' l' where d: "listDelNode (fst n) h l = Some (if al_free l then Some (snd n) else None, h', l')" "al_rep h' l' (xs @ ns)"
      using del_node [of h l xs "fst n" "snd n" ns] Cons.prems(1) by auto
    show ?thesis using Cons.IH [OF d(2) k(2)] True hn d(1) k(1) by (simp add: listNext_def)
  next
    case False
    show ?thesis using Cons.IH [of h l "xs @ [n]" j] Cons.prems(1) False hn k by (simp add: listNext_def)
  qed
qed

lemma find_value:
  "dseg h p ns q \<Longrightarrow> map_option (\<lambda>a. map_option nd_value (h a)) (map_option fst (find (\<lambda>n. key = snd n) ns)) =
    (if key \<in> set (map snd ns) then Some (Some key) else None)"
proof (induction ns arbitrary: p)
  case (Cons n ns)
  show ?case using Cons.prems Cons.IH [of "Some (fst n)"] by (cases "key = snd n") simp_all
qed simp

subsection \<open>Sequences of operations\<close>

text \<open>
  Operations of a user, with positions as listIndex counts them, and what they mean for the list of
  values. An index without a node changes nothing.
\<close>

datatype 'v al_op = AddHead 'v | AddTail 'v | InsertAt int 'v bool | DelAt int | Rotate

fun al_step :: "('v nodes \<Rightarrow> nat) \<Rightarrow> 'v al_op \<Rightarrow> 'v nodes \<times> 'v adlist \<Rightarrow> ('v nodes \<times> 'v adlist) option" where
  "al_step new (AddHead v) (h, l) = listAddNodeHead (new h) v h l"
| "al_step new (AddTail v) (h, l) = listAddNodeTail (new h) v h l"
| "al_step new (InsertAt i v after) (h, l) =
     (case listIndex h l i of None \<Rightarrow> None | Some None \<Rightarrow> Some (h, l)
      | Some (Some b) \<Rightarrow> listInsertNode (new h) b v after h l)"
| "al_step new (DelAt i) (h, l) =
     (case listIndex h l i of None \<Rightarrow> None | Some None \<Rightarrow> Some (h, l)
      | Some (Some b) \<Rightarrow> map_option snd (listDelNode b h l))"
| "al_step new Rotate (h, l) = listRotate h l"

fun al_run :: "('v nodes \<Rightarrow> nat) \<Rightarrow> 'v al_op list \<Rightarrow> 'v nodes \<times> 'v adlist \<Rightarrow> ('v nodes \<times> 'v adlist) option" where
  "al_run new [] s = Some s"
| "al_run new (x # ops) s = (case al_step new x s of None \<Rightarrow> None | Some s' \<Rightarrow> al_run new ops s')"

fun al_spec :: "'v al_op \<Rightarrow> 'v list \<Rightarrow> 'v list" where
  "al_spec (AddHead v) vs = v # vs"
| "al_spec (AddTail v) vs = vs @ [v]"
| "al_spec (InsertAt i v after) vs =
     (case position (length vs) i of None \<Rightarrow> vs
      | Some k \<Rightarrow> (let j = if after then Suc k else k in take j vs @ v # drop j vs))"
| "al_spec (DelAt i) vs = (case position (length vs) i of None \<Rightarrow> vs | Some k \<Rightarrow> take k vs @ drop (Suc k) vs)"
| "al_spec Rotate vs = (if vs = [] then [] else last vs # butlast vs)"

definition al_inv :: "'v nodes \<Rightarrow> 'v nodes \<times> 'v adlist \<Rightarrow> 'v list \<Rightarrow> bool" where
  "al_inv h0 s vs \<longleftrightarrow> (\<exists>ns. al_rep (fst s) (snd s) ns \<and> map snd ns = vs \<and> addrs ns \<inter> dom h0 = {} \<and>
     (\<forall>x. x \<notin> addrs ns \<longrightarrow> fst s x = h0 x) \<and> methods (snd s) = methods (listCreate :: 'v adlist))"

lemma al_specs_length: "length (al_spec x vs) \<le> Suc (length vs)"
  by (cases x) (auto simp: Let_def position_def split: option.splits if_splits)

lemma new_out:
  assumes "fresh new" "finite (dom h0)" "addrs ns \<inter> dom h0 = {}" "\<forall>x. x \<notin> addrs ns \<longrightarrow> h x = h0 x" "al_rep h l ns"
  shows "new h \<notin> addrs ns" "h0 (new h) = None"
proof -
  have "finite (dom h)"
    by (rule finite_subset [of _ "dom h0 \<union> addrs ns"]) (use assms in \<open>auto simp: addrs_def\<close>)
  then have out: "h (new h) = None" using assms(1) by (simp add: fresh_def)
  show out': "new h \<notin> addrs ns" using addrs_dom [of h None ns None] assms(5) out by (auto simp: al_rep_def)
  show "h0 (new h) = None" using assms(4) out out' by auto
qed

lemma split_at: "k < length ns \<Longrightarrow> ns = take k ns @ (fst (ns ! k), snd (ns ! k)) # drop (Suc k) ns"
  by (simp add: id_take_nth_drop [symmetric])

lemma al_step_ok:
  assumes new: "fresh new" and fin: "finite (dom h0)" and inv: "al_inv h0 s vs" and len: "length vs < 2 ^ 64 - 1"
  shows "\<exists>s'. al_step new x s = Some s' \<and> al_inv h0 s' (al_spec x vs)"
proof -
  obtain h l where s: "s = (h, l)" by (cases s)
  obtain ns where rep: "al_rep h l ns" and vs: "vs = map snd ns" and sep: "addrs ns \<inter> dom h0 = {}"
    and out: "\<forall>y. y \<notin> addrs ns \<longrightarrow> h y = h0 y" and m: "methods l = methods listCreate"
    using inv by (auto simp: al_inv_def s)
  note a = new_out [OF new fin sep out rep]
  have len': "length ns < 2 ^ 64 - 1" using len vs by simp
  have grow: "al_inv h0 (h', l') (map snd ms)"
    if "al_rep h' l' ms" "methods l' = methods l" "addrs ms = insert (new h) (addrs ns)"
      "\<forall>y. y \<notin> insert (new h) (addrs ns) \<longrightarrow> h' y = h y" for h' l' ms
    unfolding al_inv_def using that a sep out m by (intro exI [of _ ms]) auto
  show ?thesis
  proof (cases x)
    case (AddHead v)
    then show ?thesis using add_head [OF rep a(1) len', of v] grow [of _ _ "(new h, v) # ns"] by (auto simp: s vs)
  next
    case (AddTail v)
    then show ?thesis using add_tail [OF rep a(1) len', of v] grow [of _ _ "ns @ [(new h, v)]"] by (auto simp: s vs)
  next
    case (InsertAt i v after)
    show ?thesis
    proof (cases "position (length ns) i")
      case None
      then show ?thesis using listIndex_ok [OF rep, of i] inv by (simp add: InsertAt s vs)
    next
      case (Some k)
      let ?xs = "take k ns" and ?b = "fst (ns ! k)" and ?w = "snd (ns ! k)" and ?ys = "drop (Suc k) ns"
      have k: "k < length ns" by (rule position_less [OF Some])
      note eq = split_at [OF k]
      let ?ms = "if after then ?xs @ (?b, ?w) # (new h, v) # ?ys else ?xs @ (new h, v) # (?b, ?w) # ?ys"
      obtain h' l' where r: "listInsertNode (new h) ?b v after h l = Some (h', l')" "methods l' = methods l" "al_rep h' l' ?ms"
        "\<forall>y. y \<notin> insert (new h) (addrs ns) \<longrightarrow> h' y = h y"
        using insert_node [of h l ?xs ?b ?w ?ys "new h" v after] rep a(1) len' unfolding eq [symmetric] by auto
      have "addrs ns = addrs ?xs \<union> insert ?b (addrs ?ys)" by (subst eq) simp
      then have "addrs ?ms = insert (new h) (addrs ns)" by auto
      moreover have "map snd ?ms = al_spec x vs"
        using k by (simp add: InsertAt vs Some take_map drop_map take_Suc_conv_app_nth Cons_nth_drop_Suc [symmetric])
      ultimately show ?thesis using grow [OF r(3,2) _ r(4)] listIndex_ok [OF rep, of i] Some r(1)
        by (simp add: InsertAt s)
    qed
  next
    case (DelAt i)
    show ?thesis
    proof (cases "position (length ns) i")
      case None
      then show ?thesis using listIndex_ok [OF rep, of i] inv by (simp add: DelAt s vs)
    next
      case (Some k)
      let ?xs = "take k ns" and ?b = "fst (ns ! k)" and ?w = "snd (ns ! k)" and ?ys = "drop (Suc k) ns"
      have k: "k < length ns" by (rule position_less [OF Some])
      note eq = split_at [OF k]
      have mem: "addrs ns = addrs ?xs \<union> insert ?b (addrs ?ys)" by (subst eq) simp
      obtain h' l' where r: "listDelNode ?b h l = Some (if al_free l then Some ?w else None, h', l')" "al_rep h' l' (?xs @ ?ys)"
        "methods l' = methods l" "h' ?b = None" "\<forall>y. y \<notin> addrs ns \<longrightarrow> h' y = h y"
        using del_node [of h l ?xs ?b ?w ?ys] rep unfolding eq [symmetric] by auto
      have "h0 ?b = None" using sep mem by auto
      then have "\<forall>y. y \<notin> addrs (?xs @ ?ys) \<longrightarrow> h' y = h0 y" using r(4,5) out unfolding mem addrs_simps by (metis Un_iff insertE)
      then have "al_inv h0 (h', l') (map snd (?xs @ ?ys))"
        unfolding al_inv_def using r(2,3) m sep mem by (intro exI [of _ "?xs @ ?ys"]) auto
      then show ?thesis using listIndex_ok [OF rep, of i] Some r(1) by (simp add: DelAt s vs take_map drop_map)
    qed
  next
    case Rotate
    show ?thesis
    proof (cases "length ns \<le> 1")
      case True
      have "al_len l \<le> 1" using rep True by (simp add: al_rep_def word_le_nat_alt)
      moreover have "al_spec Rotate vs = vs" using True by (cases ns) (auto simp: vs)
      ultimately show ?thesis using inv by (simp add: Rotate s listRotate_def)
    next
      case False
      then obtain xs n where ns: "ns = xs @ [n]" "xs \<noteq> []" by (cases ns rule: rev_cases) auto
      obtain h' l' where r: "listRotate h l = Some (h', l')" "al_rep h' l' (n # xs)" "methods l' = methods l"
        "\<forall>y. y \<notin> addrs (xs @ [n]) \<longrightarrow> h' y = h y" using rotate [of h l xs n] rep ns by auto
      then have "al_inv h0 (h', l') (map snd (n # xs))"
        unfolding al_inv_def using m sep out ns by (intro exI [of _ "n # xs"]) auto
      then show ?thesis using r(1) by (simp add: Rotate s vs ns)
    qed
  qed
qed

lemma al_run_ok:
  assumes new: "fresh new" and fin: "finite (dom h0)"
  shows "al_inv h0 s vs \<Longrightarrow> length vs + length ops < 2 ^ 64 \<Longrightarrow>
    \<exists>s'. al_run new ops s = Some s' \<and> al_inv h0 s' (fold al_spec ops vs)"
proof (induction ops arbitrary: s vs)
  case (Cons x ops)
  obtain s' where s': "al_step new x s = Some s'" "al_inv h0 s' (al_spec x vs)"
    using al_step_ok [OF new fin Cons.prems(1), of x] Cons.prems(2) by auto
  have "length (al_spec x vs) + length ops < 2 ^ 64" using al_specs_length [of x vs] Cons.prems(2) by simp
  from Cons.IH [OF s'(2) this] s'(1) show ?case by simp
qed simp

text \<open>C25: after any operations on a new list (positions without a node included, fewer than 2^64)
  the length, a loop over an iterator from the head, one from the tail and the search are those of
  the list of values; no operation touches a node of another list; and releasing the list leaves
  the heap as it was before the list was created.\<close>

theorem adlist_refines:
  assumes "fresh new" "finite (dom h0)" "length ops < 2 ^ 64"
  shows "\<exists>h l. al_run new ops (h0, listCreate) = Some (h, l) \<and>
    unat (al_len l) = length (fold al_spec ops []) \<and>
    iterate (Suc (length (fold al_spec ops []))) h (listGetIterator l AL_START_HEAD) = Some (fold al_spec ops []) \<and>
    iterate (Suc (length (fold al_spec ops []))) h (listGetIterator l AL_START_TAIL) = Some (rev (fold al_spec ops [])) \<and>
    (\<forall>key. map_option (map_option (\<lambda>a. map_option nd_value (h a))) (listSearchKey h l key) =
      Some (if key \<in> set (fold al_spec ops []) then Some (Some key) else None)) \<and>
    (\<forall>a. h0 a = None \<or> h a = h0 a) \<and>
    listRelease h l = Some ([], h0)"
proof -
  let ?vs = "fold al_spec ops []"
  have "al_inv h0 (h0, listCreate) []" by (simp add: al_inv_def al_rep_create)
  then obtain h l ns where r: "al_run new ops (h0, listCreate) = Some (h, l)" and rep: "al_rep h l ns" and vs: "map snd ns = ?vs"
    and sep: "addrs ns \<inter> dom h0 = {}" and out: "\<forall>x. x \<notin> addrs ns \<longrightarrow> h x = h0 x" and m: "methods l = methods listCreate"
    using al_run_ok [OF assms(1,2), of _ "[]" ops] assms(3) by (fastforce simp: al_inv_def)
  have d: "dseg h None ns None" "al_head l = first ns None" "al_tail l = final None ns" "unat (al_len l) = length ns"
    using rep by (simp_all add: al_rep_def)
  have len: "length ns = length ?vs" using vs by (metis length_map)
  have no: "al_match l = None" "al_free l = False" using m by (simp_all add: methods_def listCreate_def)
  have s: "listSearchKey h l key = Some (map_option fst (find (\<lambda>n. key = snd n) ns))" for key
    using search_ok [OF d(1), of l key] d(2) by (simp add: listSearchKey_def listGetIterator_def matches_def no)
  have "\<forall>key. map_option (\<lambda>a. map_option nd_value (h a)) (map_option fst (find (\<lambda>n. key = snd n) ns)) =
      (if key \<in> set ?vs then Some (Some key) else None)"
    unfolding vs [symmetric] by (intro allI find_value [OF d(1)])
  moreover have "(\<lambda>x. if x \<in> addrs ns then None else h x) = h0" by (rule undo) (rule sep, rule out)
  moreover have "\<forall>a. h0 a = None \<or> h a = h0 a" using sep out by (metis disjoint_iff domIff)
  ultimately show ?thesis
    using r d iterate_forward [OF d(1), of "Suc (length ?vs)"] iterate_backward [OF d(1), of "Suc (length ?vs)"]
      listRelease_ok [OF rep] s no len vs
    by (intro exI [of _ h] exI [of _ l]) (simp add: listGetIterator_def AL_START_HEAD_def AL_START_TAIL_def)
qed

text \<open>An allocator: the address above all that are in use.\<close>

definition above :: "'v nodes \<Rightarrow> nat" where
  "above h = Suc (Max (insert 0 (dom h)))"

lemma fresh_above: "fresh above"
  unfolding fresh_def
proof (intro allI impI)
  fix h :: "'v nodes"
  assume fin: "finite (dom h)"
  have "above h \<notin> dom h"
  proof
    assume "above h \<in> dom h"
    then have "above h \<le> Max (insert 0 (dom h))" using fin by simp
    then show False by (simp add: above_def)
  qed
  then show "h (above h) = None" by auto
qed

theorem adlist_refines_witness:
  "\<exists>h l. al_run above [AddTail (7 :: nat), AddHead 5, InsertAt (-1) 6 False, DelAt 0, Rotate] (Map.empty, listCreate) = Some (h, l) \<and>
    iterate 3 h (listGetIterator l AL_START_HEAD) = Some [7, 6 :: nat] \<and> listRelease h l = Some ([], Map.empty)"
proof -
  have "al_spec (InsertAt (-1) 6 False) [5, 7] = [5, 6, 7 :: nat]" "al_spec (DelAt 0) [5, 6, 7] = [6, 7 :: nat]"
    by (simp_all add: position_def Let_def)
  then have vs: "fold al_spec [AddTail 7, AddHead 5, InsertAt (-1) 6 False, DelAt 0, Rotate] [] = [7, 6 :: nat]"
    by (simp del: al_spec.simps(3,4))
  have fin: "finite (dom Map.empty)"
    and len: "length [AddTail (7 :: nat), AddHead 5, InsertAt (-1) 6 False, DelAt 0, Rotate] < 2 ^ 64" by simp_all
  have "\<exists>h l. al_run above [AddTail (7 :: nat), AddHead 5, InsertAt (-1) 6 False, DelAt 0, Rotate] (Map.empty, listCreate) = Some (h, l) \<and>
    iterate (Suc (length [7, 6 :: nat])) h (listGetIterator l AL_START_HEAD) = Some [7, 6] \<and> listRelease h l = Some ([], Map.empty)"
    using adlist_refines [OF fresh_above fin len, unfolded vs] by blast
  then show ?thesis by (simp add: numeral_3_eq_3 del: iterate.simps al_run.simps)
qed

text \<open>ListDup gives a second list that represents the copies the dup method makes, shares no
  node with any list and has the same methods, and leaves all other nodes as they are; if the dup method
  fails for a value the result is NULL and the nodes copied so far are released.\<close>

theorem adlist_dup:
  assumes "fresh new" "finite (dom h)" "al_rep h l ns"
  shows "\<exists>r h'. listDup new h l = Some (r, h') \<and>
    (case those (map (dup_value l) (map snd ns)) of
       None \<Rightarrow> r = None \<and> h' = h
     | Some vs \<Rightarrow> \<exists>c cs. r = Some c \<and> methods c = methods l \<and> al_rep h' c cs \<and> map snd cs = vs \<and>
         addrs cs \<inter> dom h = {} \<and> (\<forall>x. x \<in> addrs cs \<or> h' x = h x))"
  by (rule listDup_ok [OF assms])

theorem adlist_dup_witness:
  "\<exists>r h'. listDup above [3 \<mapsto> \<lparr>nd_prev = None, nd_next = None, nd_value = 8 :: nat\<rparr>]
      \<lparr>al_head = Some 3, al_tail = Some 3, al_dup = Some (\<lambda>v. Some (v + 1)), al_free = False, al_match = None, al_len = 1\<rparr> = Some (r, h') \<and>
    (\<exists>c cs. r = Some c \<and> al_rep h' c cs \<and> map snd cs = [9] \<and> 3 \<notin> addrs cs)"
proof -
  let ?h = "[3 \<mapsto> \<lparr>nd_prev = None, nd_next = None, nd_value = 8 :: nat\<rparr>]"
  let ?l = "\<lparr>al_head = Some 3, al_tail = Some 3, al_dup = Some (\<lambda>v. Some (v + 1)), al_free = False, al_match = None, al_len = 1\<rparr>"
  have "al_rep ?h ?l [(3, 8)]" by (simp add: al_rep_def)
  from adlist_dup [OF fresh_above _ this] show ?thesis by (fastforce simp: dup_value_def)
qed

end
