(* ===== verification/Logs.thy ===== *)
theory Logs
  imports BlockQueue Commands
begin

section \<open>Logs (src/log.c, service-src/service_logger.c)\<close>

text \<open>
  The framework's own log is written by a thread: logInfo formats a line and pushes it on a bounded
  blocking queue, the thread takes the lines and writes them to a file or to the terminal; the
  marker NULL of logExit ends it. The module logger writes the log messages of contexts to a file of its own.
  Both rotate their file by the count of lines: the file is renamed to a path with the time in it,
  and a new one is opened under the old name.

  Files are a map from paths to contents. What the system decides is in \<open>log_env\<close>, one for
  each line: the time, and whether rename and fopen succeed. \<open>None\<close> is undefined behaviour: writing to a file
  that could not be opened, an index outside a table, a format string that asks for more than it is given.

  The theorems: beside any callers every line the queue has taken is written, in the thread's hand or waiting, the thread writes
  what waits around the marker of the exit and ends, each file has at most maxLineNum + 2 lines
  and none of the written ones is lost if the rotated files have different paths; a failed rename loses a file; a percent
  sign in a line is undefined behaviour; and the module rotates as the framework does.
\<close>

subsection \<open>Files and formats\<close>

datatype handle = Stdout | OpenFile string

record files =
  fl_files :: "string \<Rightarrow> string option"
  fl_out :: string                            \<comment> \<open>what has been written to stdout\<close>

definition fwrite :: "handle option \<Rightarrow> string \<Rightarrow> files \<Rightarrow> files option" where
  "fwrite fd text F =
     (case fd of
        None \<Rightarrow> None
      | Some Stdout \<Rightarrow> Some (F\<lparr>fl_out := fl_out F @ text\<rparr>)
      | Some (OpenFile p) \<Rightarrow>
          (case fl_files F p of
             None \<Rightarrow> Some F                    \<comment> \<open>the file has been unlinked\<close>
           | Some c \<Rightarrow> Some (F\<lparr>fl_files := (fl_files F)(p \<mapsto> c @ text)\<rparr>)))"

text \<open>fopen with mode w or w+, which truncates, and rename.\<close>

definition fopen_w :: "bool \<Rightarrow> string \<Rightarrow> files \<Rightarrow> handle option \<times> files" where
  "fopen_w ok p F = (if ok then (Some (OpenFile p), F\<lparr>fl_files := (fl_files F)(p \<mapsto> [])\<rparr>) else (None, F))"

definition rename_file :: "bool \<Rightarrow> string \<Rightarrow> string \<Rightarrow> files \<Rightarrow> files" where
  "rename_file ok old new F =
     (case fl_files F old of
        None \<Rightarrow> F
      | Some c \<Rightarrow> if ok then F\<lparr>fl_files := ((fl_files F)(old := None))(new \<mapsto> c)\<rparr> else F)"

text \<open>Conversions: \<open>%0wd\<close>, \<open>%s\<close> is the string itself. \<open>%d\<close> of a negative number has its sign in the width.\<close>

definition zpad :: "nat \<Rightarrow> int \<Rightarrow> string" where
  "zpad w i =
     (let ds = dec_nat (nat \<bar>i\<bar>); n = (if i < 0 then 1 else 0)
      in (if i < 0 then ''-'' else []) @ replicate (w - n - length ds) (CHR ''0'') @ ds)"

text \<open>
  printf with the one argument \<open>n\<close>, a size_t: percent signs in pairs, and one conversion of a
  size_t. Any other conversion has no argument of its type.
\<close>

fun printf1 :: "string \<Rightarrow> nat option \<Rightarrow> string option" where
  "printf1 [] arg = Some []"
| "printf1 (c # cs) arg =
     (if c \<noteq> CHR ''%'' then map_option ((#) c) (printf1 cs arg)
      else (case cs of
              d # ds \<Rightarrow>
                if d = CHR ''%'' then map_option ((#) d) (printf1 ds arg)
                else (case ds of
                        e # es \<Rightarrow>
                          (case arg of
                             Some n \<Rightarrow>
                               if (d = CHR ''z'' \<or> d = CHR ''l'') \<and> e = CHR ''u''
                               then map_option ((@) (dec_nat n)) (printf1 es None) else None
                           | None \<Rightarrow> None)
                      | [] \<Rightarrow> None)
            | [] \<Rightarrow> None))"

record tm =
  tm_year :: int
  tm_mon :: int
  tm_mday :: int
  tm_hour :: int
  tm_min :: int
  tm_sec :: int

record log_env =
  le_tm :: tm
  le_usec :: int
  le_rename :: bool
  le_open :: bool

definition FILENAME_MAX :: nat where "FILENAME_MAX = 4096"

text \<open>The path of a rotated file, cut to FILENAME\_MAX - 2 characters.\<close>

definition rotate_path :: "string \<Rightarrow> string \<Rightarrow> tm \<Rightarrow> string" where
  "rotate_path dir name tm =
     snprintf (FILENAME_MAX - 1)
       (dir @ ''/'' @ name @ ''_'' @ zpad 4 (tm_year tm + 1900) @ ''_'' @ zpad 2 (tm_mon tm + 1) @ ''_'' @ zpad 2 (tm_mday tm) @
        ''_'' @ zpad 2 (tm_hour tm) @ ''_'' @ zpad 2 (tm_min tm) @ ''_'' @ zpad 2 (tm_sec tm))"

definition time_text :: "tm \<Rightarrow> int \<Rightarrow> string" where
  "time_text tm usec =
     ''['' @ zpad 4 (tm_year tm + 1900) @ ''-'' @ zpad 2 (tm_mon tm + 1) @ ''-'' @ zpad 2 (tm_mday tm) @ '' '' @
     zpad 2 (tm_hour tm) @ '':'' @ zpad 2 (tm_min tm) @ '':'' @ zpad 2 (tm_sec tm) @ '':'' @ zpad 6 usec @ '']''"

subsection \<open>The log of the framework\<close>

definition E_LOG_NULL :: int where "E_LOG_NULL = 0"
definition E_LOG_FILE :: int where "E_LOG_FILE = 1"
definition E_LOG_STDOUT :: int where "E_LOG_STDOUT = 2"

definition SYS_LOG_QUEUE_LEN :: u32 where "SYS_LOG_QUEUE_LEN = 1024"

record syslog =
  lg_handle :: "handle option"
  lg_name :: string
  lg_rotateDir :: string
  lg_maxLineNum :: int
  lg_lineNum :: int
  lg_state :: int
  lg_queue :: "string circQueue"
  lg_exit :: int

text \<open>
  \<open>text\<close> is what the format and its arguments of the call give. vsnprintf cuts it to 1023
  characters. \<open>log_push\<close> is the part behind the tests; it tells whether the queue took the line.
\<close>

definition log_push :: "string \<Rightarrow> syslog \<Rightarrow> (bool \<times> syslog) option" where
  "log_push text L =
     (case blockQueuePush (lg_queue L) (Some (snprintf 1024 text)) of
        None \<Rightarrow> None
      | Some (r, sig, cq') \<Rightarrow> Some (\<not> r < 0, L\<lparr>lg_queue := cq'\<rparr>))"

definition logInfo :: "string \<Rightarrow> syslog \<Rightarrow> syslog option" where
  "logInfo text L =
     (if lg_exit L = 0 then Some L
      else if lg_state L = E_LOG_NULL then Some L
      else map_option snd (log_push text L))"

definition logRotateFile :: "log_env \<Rightarrow> syslog \<Rightarrow> files \<Rightarrow> (syslog \<times> files) option" where
  "logRotateFile e L F =
     (if lg_state L = E_LOG_FILE then
        (if 2 ^ 31 - 1 \<le> lg_lineNum L then None
         else let L1 = L\<lparr>lg_lineNum := lg_lineNum L + 1\<rparr>
              in if lg_lineNum L > lg_maxLineNum L then
                   (let F1 = rename_file (le_rename e) (lg_name L) (rotate_path (lg_rotateDir L) (lg_name L) (le_tm e)) F;
                        r = fopen_w (le_open e) (lg_name L) F1
                    in Some (L1\<lparr>lg_lineNum := 0, lg_handle := fst r\<rparr>, snd r))
                 else Some (L1, F))
      else Some (L, F))"

definition handleLog :: "log_env \<Rightarrow> string \<Rightarrow> syslog \<Rightarrow> files \<Rightarrow> (syslog \<times> files) option" where
  "handleLog e buf L F =
     (case logRotateFile e L F of
        None \<Rightarrow> None
      | Some (L1, F1) \<Rightarrow>
     (case fwrite (lg_handle L1) (time_text (le_tm e) (le_usec e) @ ''[sys]'') F1 of
        None \<Rightarrow> None
      | Some F2 \<Rightarrow>
     (case printf1 buf (Some (length buf)) of
        None \<Rightarrow> None
      | Some text \<Rightarrow>
     (case fwrite (lg_handle L1) text F2 of
        None \<Rightarrow> None
      | Some F3 \<Rightarrow> map_option (\<lambda>F4. (L1, F4)) (fwrite (lg_handle L1) [CHR 0x0A] F3)))))"

definition logExit :: "syslog \<Rightarrow> syslog option" where
  "logExit L = map_option (\<lambda>r. L\<lparr>lg_queue := snd r\<rparr>) (blockQueueExit (lg_queue L))"

text \<open>
  The loop of the thread while no other thread pushes; \<open>e k\<close> is the environment of the line
  \<open>k\<close>. On an empty queue the thread waits for ever.
\<close>

partial_function (option) log_loop :: "(nat \<Rightarrow> log_env) \<Rightarrow> nat \<Rightarrow> syslog \<Rightarrow> files \<Rightarrow> (syslog \<times> files) option" where
  "log_loop e k L F =
     (if circQueueIsEmpty (lg_queue L) then None
      else case circQueuePopHead (lg_queue L) of
        (None, cq) \<Rightarrow>
          if blockQueueLength cq = 0 then Some (L\<lparr>lg_queue := cq, lg_exit := 0\<rparr>, F)
          else (case logExit (L\<lparr>lg_queue := cq\<rparr>) of None \<Rightarrow> None | Some L' \<Rightarrow> log_loop e k L' F)
      | (Some buf, cq) \<Rightarrow>
          (case handleLog (e k) buf (L\<lparr>lg_queue := cq\<rparr>) F of
             None \<Rightarrow> None
           | Some (L', F') \<Rightarrow> log_loop e (Suc k) L' F'))"

text \<open>
  logInit: the file is opened before anything else is set; \<open>raw\<close> is the fresh memory of the struct.
  The result is -1 if the file cannot be opened, and otherwise whether a thread is started.
\<close>

definition envGetInt :: "(string \<Rightarrow> string ptr) \<Rightarrow> string \<Rightarrow> int \<Rightarrow> int" where
  "envGetInt env key dflt = (case env key of None \<Rightarrow> dflt | Some v \<Rightarrow> to_int (fst (strtol v)))"

definition envGet :: "(string \<Rightarrow> string ptr) \<Rightarrow> string \<Rightarrow> string \<Rightarrow> string" where
  "envGet env key dflt = (case env key of None \<Rightarrow> dflt | Some v \<Rightarrow> v)"

definition Z_PROGNAME :: string where "Z_PROGNAME = ''z''"

definition logInit ::
    "(string \<Rightarrow> string ptr) \<Rightarrow> string \<Rightarrow> bool \<Rightarrow> syslog \<Rightarrow> files \<Rightarrow> ((int + syslog \<times> bool) \<times> files) option" where
  "logInit env programName opened raw F =
     (let state = (if programName = Z_PROGNAME then E_LOG_NULL else envGetInt env ''z_log_state'' 0);
          name = envGet env ''z_log_name'' (snprintf FILENAME_MAX (programName @ ''_sys.log''));
          r = fopen_w opened name F;
          L = (if state = E_LOG_FILE
               then raw\<lparr>lg_handle := fst r, lg_name := snprintf FILENAME_MAX name,
                        lg_rotateDir := snprintf FILENAME_MAX (envGet env ''z_log_rotatedir'' []),
                        lg_maxLineNum := envGetInt env ''z_log_maxlinenum'' 200000\<rparr>
               else if state = E_LOG_STDOUT then raw\<lparr>lg_handle := Some Stdout\<rparr> else raw)
      in if state = E_LOG_FILE \<and> fst r = None then Some (Inl (-1), F)
         else (case blockQueueCreate True True True SYS_LOG_QUEUE_LEN of
                 None \<Rightarrow> None
               | Some cq \<Rightarrow>
                   Some (Inr (L\<lparr>lg_exit := 1, lg_lineNum := 0, lg_queue := cq, lg_state := state\<rparr>, state \<noteq> E_LOG_NULL),
                         if state = E_LOG_FILE then snd r else F)))"

subsection \<open>The thread beside its callers\<close>

text \<open>
  The system: the log, the files, where the thread stands, the calls of logInfo that have passed its
  tests and not yet pushed, the lines the queue took so far, and the lines written so far, each with
  its environment. Between any two steps of the thread other threads call logInfo and logExit. The queue's operations are
  steps by its lock (theory BlockQueue); nothing but the thread uses the file and the count of lines.
\<close>

datatype log_pc =
    LTake                                     \<comment> \<open>in blockQueueTake\<close>
  | LLine string                              \<comment> \<open>has taken a line\<close>
  | LNull                                     \<comment> \<open>has taken the marker\<close>
  | LAgain                                    \<comment> \<open>has seen a queue with entries, before logExit\<close>
  | LEnd                                      \<comment> \<open>has seen an empty queue, before exit is cleared\<close>
  | LDone

record log_sys =
  ls_log :: syslog
  ls_files :: files
  ls_pc :: log_pc
  ls_calls :: "string list"
  ls_acc :: "string list"
  ls_done :: "(log_env \<times> string) list"

inductive log_thread :: "log_sys \<Rightarrow> log_sys \<Rightarrow> bool" where
  take_line: "ls_pc s = LTake \<Longrightarrow> \<not> circQueueIsEmpty (lg_queue (ls_log s)) \<Longrightarrow> circQueuePopHead (lg_queue (ls_log s)) = (Some buf, q) \<Longrightarrow>
    log_thread s (s\<lparr>ls_log := (ls_log s)\<lparr>lg_queue := q\<rparr>, ls_pc := LLine buf\<rparr>)"
| take_null: "ls_pc s = LTake \<Longrightarrow> \<not> circQueueIsEmpty (lg_queue (ls_log s)) \<Longrightarrow> circQueuePopHead (lg_queue (ls_log s)) = (None, q) \<Longrightarrow>
    log_thread s (s\<lparr>ls_log := (ls_log s)\<lparr>lg_queue := q\<rparr>, ls_pc := LNull\<rparr>)"
| write_line: "ls_pc s = LLine buf \<Longrightarrow> handleLog e buf (ls_log s) (ls_files s) = Some (L, F) \<Longrightarrow>
    log_thread s (s\<lparr>ls_log := L, ls_files := F, ls_pc := LTake, ls_done := ls_done s @ [(e, buf)]\<rparr>)"
| look: "ls_pc s = LNull \<Longrightarrow>
    log_thread s (s\<lparr>ls_pc := if blockQueueLength (lg_queue (ls_log s)) = 0 then LEnd else LAgain\<rparr>)"
| again: "ls_pc s = LAgain \<Longrightarrow> logExit (ls_log s) = Some L \<Longrightarrow> log_thread s (s\<lparr>ls_log := L, ls_pc := LTake\<rparr>)"
| finish: "ls_pc s = LEnd \<Longrightarrow> log_thread s (s\<lparr>ls_log := (ls_log s)\<lparr>lg_exit := 0\<rparr>, ls_pc := LDone\<rparr>)"

inductive log_step :: "log_sys \<Rightarrow> log_sys \<Rightarrow> bool" where
  thread: "log_thread s s' \<Longrightarrow> log_step s s'"
| call: "lg_exit (ls_log s) \<noteq> 0 \<Longrightarrow> lg_state (ls_log s) \<noteq> E_LOG_NULL \<Longrightarrow> log_step s (s\<lparr>ls_calls := t # ls_calls s\<rparr>)"
| push: "t \<in> set (ls_calls s) \<Longrightarrow> log_push t (ls_log s) = Some (ok, L) \<Longrightarrow>
    log_step s (s\<lparr>ls_log := L, ls_calls := remove1 t (ls_calls s),
      ls_acc := ls_acc s @ (if ok then [snprintf 1024 t] else [])\<rparr>)"
| exit: "logExit (ls_log s) = Some L \<Longrightarrow> log_step s (s\<lparr>ls_log := L\<rparr>)"

definition log_start :: "syslog \<Rightarrow> files \<Rightarrow> log_sys" where
  "log_start L F = \<lparr>ls_log = L, ls_files = F, ls_pc = LTake, ls_calls = [], ls_acc = [], ls_done = []\<rparr>"

inductive log_reach :: "syslog \<Rightarrow> files \<Rightarrow> log_sys \<Rightarrow> bool" for L F where
  start: "log_reach L F (log_start L F)"
| step: "log_reach L F s \<Longrightarrow> log_step s s' \<Longrightarrow> log_reach L F s'"

inductive_cases log_threadE: "log_thread s s'"
inductive_cases log_stepE: "log_step s s'"

subsection \<open>The module logger\<close>

record logger =
  lo_handle :: "handle option"
  lo_name :: string
  lo_rotateDir :: string
  lo_close :: bool
  lo_maxLineNum :: int
  lo_lineNum :: int

definition sLevelMsg :: "string list" where
  "sLevelMsg = [''ERROR'', ''WARN'', ''LOG'', ''MSG'', ''DEBUG'', ''STAT'']"

definition rotateFile :: "log_env \<Rightarrow> logger \<Rightarrow> files \<Rightarrow> (logger \<times> files) option" where
  "rotateFile e I F =
     (if \<not> lo_close I then Some (I, F)
      else if 2 ^ 31 - 1 \<le> lo_lineNum I then None
      else let I1 = I\<lparr>lo_lineNum := lo_lineNum I + 1\<rparr>
           in if lo_lineNum I > lo_maxLineNum I then
                (let F1 = rename_file (le_rename e) (lo_name I) (rotate_path (lo_rotateDir I) (lo_name I) (le_tm e)) F;
                     r = fopen_w (le_open e) (lo_name I) F1
                 in Some (I1\<lparr>lo_lineNum := 0, lo_handle := fst r\<rparr>, snd r))
              else Some (I1, F))"

text \<open>The callback, with the fields \<open>from\<close>, \<open>type\<close> and the data of the message.\<close>

definition logger_cb :: "log_env \<Rightarrow> u32 \<Rightarrow> u32 \<Rightarrow> string \<Rightarrow> logger \<Rightarrow> files \<Rightarrow> (logger \<times> files) option" where
  "logger_cb e from_id mtype payload I F =
     (let kind = unat (mtype AND 0xFFFF)
      in if \<not> kind < 6 then None
         else (case rotateFile e I F of
                 None \<Rightarrow> None
               | Some (I1, F1) \<Rightarrow>
              (case fwrite (lo_handle I1) (time_text (le_tm e) (le_usec e) @ ''['' @ dec_int (sint from_id) @ ''][''
                      @ sLevelMsg ! kind @ '']'') F1 of
                 None \<Rightarrow> None
               | Some F2 \<Rightarrow>
              (case fwrite (lo_handle I1) payload F2 of
                 None \<Rightarrow> None
               | Some F3 \<Rightarrow> map_option (\<lambda>F4. (I1, F4)) (fwrite (lo_handle I1) [CHR 0x0A] F3)))))"

definition loggerCreate :: logger where
  "loggerCreate = \<lparr>lo_handle = None, lo_name = [], lo_rotateDir = [], lo_close = False, lo_maxLineNum = 0, lo_lineNum = 0\<rparr>"

text \<open>
  The parameter is the name of the file, the count of lines and the directory, separated by single
  blanks. The names are copied without a look at the size of the fields (\<open>None\<close> if one does not fit). On the result 0 the callback is set.
\<close>

definition loggerInit :: "bool \<Rightarrow> string ptr \<Rightarrow> logger \<Rightarrow> files \<Rightarrow> (int \<times> logger \<times> files) option" where
  "loggerInit opened parm I F =
     (case parm of
        Some (c # cs) \<Rightarrow>
          (case strsep (Some (c # cs)) blanks of
             (None, _) \<Rightarrow> Some (1, I, F)
           | (Some name, rest) \<Rightarrow>
               (let num = strsep rest blanks; dir = strsep (snd num) blanks;
                    maxLineNum = (case fst num of None \<Rightarrow> 200000 | Some s \<Rightarrow> to_int (fst (strtol s)));
                    rotateDir = (if fst num = None then lo_rotateDir I else case fst dir of None \<Rightarrow> lo_rotateDir I | Some d \<Rightarrow> d);
                    r = fopen_w opened name F
                in if FILENAME_MAX \<le> length name \<or> FILENAME_MAX \<le> length rotateDir then None
                   else if fst r = None
                   then Some (1, I\<lparr>lo_name := name, lo_rotateDir := rotateDir, lo_maxLineNum := maxLineNum, lo_handle := None\<rparr>, snd r)
                   else Some (0, I\<lparr>lo_name := name, lo_rotateDir := rotateDir, lo_maxLineNum := maxLineNum, lo_handle := fst r,
                                   lo_close := True\<rparr>, snd r)))
      | _ \<Rightarrow> Some (0, I\<lparr>lo_handle := Some Stdout\<rparr>, F))"

subsection \<open>What the log should hold\<close>

text \<open>A line in the file, and the lines \<open>xs\<close> split over the files: the first is \<open>cur\<close> with the count
  \<open>k\<close> so far; each file that was rotated comes with the environment of its rotation.\<close>

definition log_line :: "log_env \<times> string \<Rightarrow> string" where
  "log_line x = time_text (le_tm (fst x)) (le_usec (fst x)) @ ''[sys]'' @ snd x @ [CHR 0x0A]"

definition log_lines :: "(log_env \<times> string) list \<Rightarrow> string" where
  "log_lines xs = concat (map log_line xs)"

fun log_split :: "int \<Rightarrow> int \<Rightarrow> (log_env \<times> string) list \<Rightarrow> (log_env \<times> string) list \<Rightarrow>
    (log_env \<times> (log_env \<times> string) list) list \<times> (log_env \<times> string) list" where
  "log_split m k cur [] = ([], cur)"
| "log_split m k cur (x # xs) =
     (if k > m then (case log_split m 0 [x] xs of (ps, c) \<Rightarrow> ((fst x, cur) # ps, c))
      else log_split m (k + 1) (cur @ [x]) xs)"

lemma log_split_all: "log_split m k cur xs = (ps, c) \<Longrightarrow> concat (map snd ps) @ c = cur @ xs"
  by (induction xs arbitrary: k cur ps c) (auto split: if_splits prod.splits)

lemma log_split_bound:
  "log_split m k cur xs = (ps, c) \<Longrightarrow> 0 \<le> m \<Longrightarrow> 0 \<le> k \<Longrightarrow> k \<le> m + 1 \<Longrightarrow> int (length cur) \<le> k + 1 \<Longrightarrow>
    int (length c) \<le> m + 2 \<and> (\<forall>p \<in> set ps. int (length (snd p)) \<le> m + 2)"
proof (induction xs arbitrary: k cur ps c)
  case (Cons x xs)
  show ?case
  proof (cases "k > m")
    case True
    then show ?thesis using Cons.prems Cons.IH [of 0 "[x]"] by (fastforce split: prod.splits)
  next
    case False
    then show ?thesis using Cons.prems Cons.IH [of "k + 1" "cur @ [x]"] by auto
  qed
qed auto

text \<open>A rotation happens when \<open>m + 1 - k\<close> more lines have been written, or later.\<close>

lemma log_split_late:
  "log_split m k cur xs = (ps, c) \<Longrightarrow> p \<in> set ps \<Longrightarrow> 0 \<le> m \<Longrightarrow> k \<le> m + 1 \<Longrightarrow>
    \<exists>i < length xs. m + 1 - k \<le> int i \<and> fst (xs ! i) = fst p"
proof (induction xs arbitrary: k cur ps c)
  case (Cons x xs)
  show ?case
  proof (cases "k > m")
    case True
    then obtain qs where q: "log_split m 0 [x] xs = (qs, c)" "ps = (fst x, cur) # qs"
      using Cons.prems by (auto split: prod.splits)
    show ?thesis
    proof (cases "p = (fst x, cur)")
      case True
      then show ?thesis using \<open>k > m\<close> by (intro exI [of _ 0]) simp
    next
      case False
      then have "p \<in> set qs" using q(2) Cons.prems by simp
      from Cons.IH [OF q(1) this] Cons.prems(3) obtain i where "i < length xs" "fst (xs ! i) = fst p" by auto
      then show ?thesis using \<open>k > m\<close> by (intro exI [of _ "Suc i"]) simp
    qed
  next
    case False
    then obtain i where "i < length xs" "m + 1 - (k + 1) \<le> int i" "fst (xs ! i) = fst p"
      using Cons.IH [of "k + 1" "cur @ [x]" ps c] Cons.prems by auto
    then show ?thesis by (intro exI [of _ "Suc i"]) auto
  qed
qed simp

definition spaced :: "(log_env \<Rightarrow> string) \<Rightarrow> int \<Rightarrow> (log_env \<times> string) list \<Rightarrow> bool" where
  "spaced path m xs \<longleftrightarrow> (\<forall>i j. i < j \<and> j < length xs \<and> m < int j - int i \<longrightarrow> path (fst (xs ! i)) \<noteq> path (fst (xs ! j)))"

lemma spaced_tl: "spaced path m (x # xs) \<Longrightarrow> spaced path m xs"
  unfolding spaced_def
proof (intro allI impI)
  fix i j
  assume a: "\<forall>i j. i < j \<and> j < length (x # xs) \<and> m < int j - int i \<longrightarrow> path (fst ((x # xs) ! i)) \<noteq> path (fst ((x # xs) ! j))"
    and ij: "i < j \<and> j < length xs \<and> m < int j - int i"
  show "path (fst (xs ! i)) \<noteq> path (fst (xs ! j))" using a [rule_format, of "Suc i" "Suc j"] ij by simp
qed

lemma log_split_distinct:
  "log_split m k cur xs = (ps, c) \<Longrightarrow> 0 \<le> m \<Longrightarrow> k \<le> m + 1 \<Longrightarrow> spaced path m xs \<Longrightarrow> distinct (map (\<lambda>p. path (fst p)) ps)"
proof (induction xs arbitrary: k cur ps c)
  case (Cons x xs)
  show ?case
  proof (cases "k > m")
    case True
    then obtain qs where q: "log_split m 0 [x] xs = (qs, c)" "ps = (fst x, cur) # qs"
      using Cons.prems by (auto split: prod.splits)
    have "path (fst x) \<noteq> path (fst p)" if pq: "p \<in> set qs" for p
    proof -
      obtain i where i: "i < length xs" "m + 1 \<le> int i" "fst (xs ! i) = fst p"
        using log_split_late [OF q(1) pq] Cons.prems(2) by auto
      have "path (fst ((x # xs) ! 0)) \<noteq> path (fst ((x # xs) ! Suc i))"
        using Cons.prems(4) [unfolded spaced_def, rule_format, of 0 "Suc i"] i(1,2) Cons.prems(2) by simp
      then show ?thesis using i(3) by simp
    qed
    moreover have "distinct (map (\<lambda>p. path (fst p)) qs)"
      using Cons.IH [OF q(1) Cons.prems(2) _ spaced_tl [OF Cons.prems(4)]] Cons.prems(2) by simp
    ultimately show ?thesis using q(2) by auto
  next
    case False
    then show ?thesis using Cons.IH [OF _ Cons.prems(2) _ spaced_tl [OF Cons.prems(4)], of "k + 1"] Cons.prems by auto
  qed
qed simp

subsection \<open>Lines in files\<close>

lemma printf1_plain: "CHR ''%'' \<notin> set s \<Longrightarrow> printf1 s a = Some s"
  by (induction s) auto

definition log_at :: "syslog \<Rightarrow> files \<Rightarrow> string \<Rightarrow> string \<Rightarrow> int \<Rightarrow> int \<Rightarrow> string \<Rightarrow> bool" where
  "log_at L F n d m k c \<longleftrightarrow> lg_state L = E_LOG_FILE \<and> lg_handle L = Some (OpenFile n) \<and> lg_name L = n \<and> lg_rotateDir L = d \<and>
     lg_maxLineNum L = m \<and> lg_lineNum L = k \<and> fl_files F n = Some c"

lemma handleLog_count:
  assumes "log_at L F n d m k c" "CHR ''%'' \<notin> set t" "k \<le> m" "m < 2 ^ 31 - 2"
  shows "\<exists>F'. handleLog e t L F = Some (L\<lparr>lg_lineNum := k + 1\<rparr>, F') \<and>
    fl_files F' = (fl_files F)(n \<mapsto> c @ log_line (e, t)) \<and> fl_out F' = fl_out F"
  using assms by (simp add: log_at_def handleLog_def logRotateFile_def Let_def fwrite_def printf1_plain log_line_def)

lemma handleLog_rotate:
  assumes "log_at L F n d m k c" "CHR ''%'' \<notin> set t" "m < k" "k < 2 ^ 31 - 1" "le_rename e" "le_open e"
  shows "\<exists>F'. handleLog e t L F = Some (L\<lparr>lg_lineNum := 0, lg_handle := Some (OpenFile n)\<rparr>, F') \<and>
    fl_files F' = (fl_files F)(rotate_path d n (le_tm e) \<mapsto> c, n \<mapsto> log_line (e, t)) \<and> fl_out F' = fl_out F"
  using assms
  by (simp add: log_at_def handleLog_def logRotateFile_def Let_def fwrite_def printf1_plain log_line_def rename_file_def fopen_w_def
      fun_upd_twist fun_eq_iff)

fun handle_all :: "(log_env \<times> string) list \<Rightarrow> syslog \<Rightarrow> files \<Rightarrow> (syslog \<times> files) option" where
  "handle_all [] L F = Some (L, F)"
| "handle_all (x # xs) L F = (case handleLog (fst x) (snd x) L F of None \<Rightarrow> None | Some (L', F') \<Rightarrow> handle_all xs L' F')"

definition rotated :: "(log_env \<Rightarrow> string) \<Rightarrow> (log_env \<times> (log_env \<times> string) list) list \<Rightarrow> (string \<Rightarrow> string option) \<Rightarrow> string \<Rightarrow> string option" where
  "rotated path ps f = foldl (\<lambda>f p. f(path (fst p) \<mapsto> log_lines (snd p))) f ps"

lemma rotated_at: "x \<notin> (\<lambda>p. path (fst p)) ` set ps \<Longrightarrow> rotated path ps f x = f x"
  by (induction ps arbitrary: f) (simp_all add: rotated_def)

lemma rotated_in:
  "distinct (map (\<lambda>p. path (fst p)) ps) \<Longrightarrow> p \<in> set ps \<Longrightarrow> rotated path ps f (path (fst p)) = Some (log_lines (snd p))"
proof (induction ps arbitrary: f)
  case (Cons q ps)
  have r: "rotated path (q # ps) f = rotated path ps (f(path (fst q) \<mapsto> log_lines (snd q)))" by (simp add: rotated_def)
  show ?case
  proof (cases "p = q")
    case True
    show ?thesis using rotated_at [of "path (fst q)" path ps] Cons.prems(1) by (simp add: r True)
  next
    case False
    then show ?thesis using Cons.IH Cons.prems by (simp add: r)
  qed
qed simp

lemma rotated_new: "y \<noteq> n \<Longrightarrow> rotated path ps (f(n \<mapsto> w)) y = rotated path ps f y"
proof (induction ps arbitrary: f rule: rev_induct)
  case (snoc p ps)
  then show ?case by (simp add: rotated_def)
qed (simp add: rotated_def)

lemma handle_all_ok:
  "log_at L F n d m k (log_lines cur) \<Longrightarrow> 0 \<le> m \<Longrightarrow> m < 2 ^ 31 - 2 \<Longrightarrow> k \<le> m + 1 \<Longrightarrow>
    (\<forall>x \<in> set xs. CHR ''%'' \<notin> set (snd x) \<and> le_rename (fst x) \<and> le_open (fst x)) \<Longrightarrow> log_split m k cur xs = (ps, c) \<Longrightarrow>
    \<exists>L' F'. handle_all xs L F = Some (L', F') \<and> fl_out F' = fl_out F \<and>
      fl_files F' n = Some (log_lines c) \<and>
      (\<forall>x. x \<noteq> n \<longrightarrow> fl_files F' x = rotated (\<lambda>e. rotate_path d n (le_tm e)) ps (fl_files F) x)"
proof (induction xs arbitrary: L F k cur ps c)
  case Nil
  then show ?case by (auto simp: log_at_def rotated_def)
next
  case (Cons x xs)
  obtain e t where x: "x = (e, t)" by (cases x)
  have ok: "CHR ''%'' \<notin> set t" "le_rename e" "le_open e" using Cons.prems(5) x by auto
  show ?case
  proof (cases "m < k")
    case True
    then obtain qs where q: "log_split m 0 [x] xs = (qs, c)" "ps = (e, cur) # qs"
      using Cons.prems(6) by (auto simp: x split: prod.splits)
    have "k < 2 ^ 31 - 1" using Cons.prems(3,4) by simp
    from handleLog_rotate [OF Cons.prems(1) ok(1) True this ok(2,3)] obtain F1 where
      F1: "handleLog e t L F = Some (L\<lparr>lg_lineNum := 0, lg_handle := Some (OpenFile n)\<rparr>, F1)"
      "fl_files F1 = (fl_files F)(rotate_path d n (le_tm e) \<mapsto> log_lines cur, n \<mapsto> log_line (e, t))" "fl_out F1 = fl_out F" by auto
    have at: "log_at (L\<lparr>lg_lineNum := 0, lg_handle := Some (OpenFile n)\<rparr>) F1 n d m 0 (log_lines [x])"
      using Cons.prems(1) F1(2) by (simp add: log_at_def log_lines_def x)
    obtain L' F' where IH: "handle_all xs (L\<lparr>lg_lineNum := 0, lg_handle := Some (OpenFile n)\<rparr>) F1 = Some (L', F')" "fl_out F' = fl_out F1"
      "fl_files F' n = Some (log_lines c)"
      "\<forall>x. x \<noteq> n \<longrightarrow> fl_files F' x = rotated (\<lambda>e. rotate_path d n (le_tm e)) qs (fl_files F1) x"
      using Cons.IH [OF at Cons.prems(2,3) _ _ q(1)] Cons.prems(2,5) by auto
    have "rotated path ((e, cur) # qs) f = rotated path qs (f(path e \<mapsto> log_lines cur))" for path f
      by (simp add: rotated_def)
    then show ?thesis using IH F1 by (simp add: x q(2) rotated_new)
  next
    case False
    then have le: "k \<le> m" by simp
    from handleLog_count [OF Cons.prems(1) ok(1) le Cons.prems(3)] obtain F1 where
      F1: "handleLog e t L F = Some (L\<lparr>lg_lineNum := k + 1\<rparr>, F1)"
      "fl_files F1 = (fl_files F)(n \<mapsto> log_lines cur @ log_line (e, t))" "fl_out F1 = fl_out F" by auto
    have at: "log_at (L\<lparr>lg_lineNum := k + 1\<rparr>) F1 n d m (k + 1) (log_lines (cur @ [x]))"
      using Cons.prems(1) F1(2) by (simp add: log_at_def log_lines_def x)
    have s: "log_split m (k + 1) (cur @ [x]) xs = (ps, c)" using Cons.prems(6) le by simp
    obtain L' F' where IH: "handle_all xs (L\<lparr>lg_lineNum := k + 1\<rparr>) F1 = Some (L', F')" "fl_out F' = fl_out F1"
      "fl_files F' n = Some (log_lines c)"
      "\<forall>x. x \<noteq> n \<longrightarrow> fl_files F' x = rotated (\<lambda>e. rotate_path d n (le_tm e)) ps (fl_files F1) x"
      using Cons.IH [OF at Cons.prems(2,3) _ _ s] Cons.prems(5) le by auto
    then show ?thesis using F1 by (simp add: x rotated_new)
  qed
qed

subsection \<open>The thread\<close>

lemma rotate_queue:
  "logRotateFile e (L\<lparr>lg_queue := q\<rparr>) F = map_option (\<lambda>r. ((fst r)\<lparr>lg_queue := q\<rparr>, snd r)) (logRotateFile e L F)"
  by (cases L) (simp add: logRotateFile_def Let_def)

lemma handleLog_queue:
  "handleLog e t (L\<lparr>lg_queue := q\<rparr>) F = map_option (\<lambda>r. ((fst r)\<lparr>lg_queue := q\<rparr>, snd r)) (handleLog e t L F)"
proof (cases "logRotateFile e L F")
  case None
  then show ?thesis by (simp add: handleLog_def rotate_queue)
next
  case (Some r)
  then show ?thesis by (cases r) (simp add: handleLog_def rotate_queue option.map_comp comp_def split: option.split)
qed

fun numbered :: "(nat \<Rightarrow> log_env) \<Rightarrow> nat \<Rightarrow> string list \<Rightarrow> (log_env \<times> string) list" where
  "numbered e k [] = []"
| "numbered e k (t # ts) = (e k, t) # numbered e (Suc k) ts"

lemma numbered_append: "numbered e k (xs @ ys) = numbered e k xs @ numbered e (k + length xs) ys"
  by (induction xs arbitrary: k) simp_all

lemma numbered_simps [simp]: "length (numbered e k ts) = length ts" "snd ` set (numbered e k ts) = set ts"
  by (induction ts arbitrary: k) auto

lemma numbered_nth: "i < length ts \<Longrightarrow> numbered e k ts ! i = (e (k + i), ts ! i)"
  by (induction ts arbitrary: k i) (auto simp: nth_Cons split: nat.split)

lemma handle_all_append:
  "handle_all (xs @ ys) L F = (case handle_all xs L F of None \<Rightarrow> None | Some (L', F') \<Rightarrow> handle_all ys L' F')"
  by (induction xs arbitrary: L F) (auto split: option.splits)

lemma pop_step:
  assumes "cq_inv q" "cq_list q = x # xs"
  shows "\<exists>q'. circQueuePopHead q = (x, q') \<and> cq_inv q' \<and> cq_list q' = xs \<and> cq_maxEntries q' = cq_maxEntries q \<and> \<not> circQueueIsEmpty q"
proof -
  obtain r q' where r: "circQueuePopHead q = (r, q')" by (cases "circQueuePopHead q")
  have "cq_count q \<noteq> 0" using assms by (metis cq_list_empty_iff list.distinct(1))
  then show ?thesis using circQueuePopHead_ok [OF assms(1) r] assms(2) r by (simp add: circQueueIsEmpty_def)
qed

text \<open>The marker at the back: the thread writes what is before it, and ends.\<close>

lemma log_loop_last:
  "cq_inv q \<Longrightarrow> cq_list q = map Some ts @ [None] \<Longrightarrow> handle_all (numbered e k ts) L F = Some (L', F') \<Longrightarrow>
    \<exists>q'. log_loop e k (L\<lparr>lg_queue := q\<rparr>) F = Some (L'\<lparr>lg_queue := q', lg_exit := 0\<rparr>, F') \<and> cq_list q' = []"
proof (induction ts arbitrary: q k L F)
  case Nil
  obtain q' where q': "circQueuePopHead q = (None, q')" "cq_inv q'" "cq_list q' = []" "\<not> circQueueIsEmpty q"
    using pop_step [OF Nil.prems(1), of None "[]"] Nil.prems(2) by auto
  then have "blockQueueLength q' = 0" by (simp add: blockQueueLength_def circQueueLength_def cq_list_empty_iff)
  then have "log_loop e k (L\<lparr>lg_queue := q\<rparr>) F = Some (L\<lparr>lg_queue := q', lg_exit := 0\<rparr>, F)"
    using q' by (subst log_loop.simps) simp
  then show ?case using q'(3) Nil.prems(3) by auto
next
  case (Cons t ts)
  obtain q' where q': "circQueuePopHead q = (Some t, q')" "cq_inv q'" "cq_list q' = map Some ts @ [None]" "\<not> circQueueIsEmpty q"
    using pop_step [OF Cons.prems(1), of "Some t" "map Some ts @ [None]"] Cons.prems(2) by auto
  obtain L1 F1 where h: "handleLog (e k) t L F = Some (L1, F1)" "handle_all (numbered e (Suc k) ts) L1 F1 = Some (L', F')"
    using Cons.prems(3) by (auto split: option.splits)
  have "log_loop e k (L\<lparr>lg_queue := q\<rparr>) F = log_loop e (Suc k) (L1\<lparr>lg_queue := q'\<rparr>) F1"
    using q'(1,4) by (subst log_loop.simps) (simp add: handleLog_queue h(1))
  then show ?case using Cons.IH [OF q'(2,3) h(2)] by simp
qed

lemma logExit_ok:
  assumes "cq_inv (lg_queue L)" "cq_maxEntries (lg_queue L) \<noteq> 0" "cq_count (lg_queue L) < cq_maxEntries (lg_queue L)"
  shows "\<exists>q. logExit L = Some (L\<lparr>lg_queue := q\<rparr>) \<and> cq_inv q \<and> cq_list q = cq_list (lg_queue L) @ [None] \<and>
    cq_maxEntries q = cq_maxEntries (lg_queue L)"
proof -
  let ?q = "lg_queue L"
  have room: "cq_room ?q" using assms by (simp add: cq_room_def word_less_nat_alt)
  obtain ok q where p: "cq_push None ?q = (ok, q)" by (cases "cq_push None ?q")
  have okq: ok using cq_push_room [OF assms(1) room p] by simp
  then have t: "circQueuePushTail True ?q None = Some (0, q)" using p by (auto simp: cq_push_def split: option.splits)
  then have f: "circQueueForcePushTail True ?q None = Some (0, q)" by (simp add: circQueueForcePushTail_def)
  have "logExit L = Some (L\<lparr>lg_queue := q\<rparr>)" by (simp add: logExit_def blockQueueExit_def f)
  with circQueueForcePushTail_ok [OF assms(1) f] show ?thesis by (intro exI [of _ q]) simp
qed

lemma cq_count_list: "cq_inv q \<Longrightarrow> unat (cq_count q) = length (cq_list q)"
  by (simp add: length_cq_list)

text \<open>The marker in the middle: the thread puts it to the back, and goes on with the lines behind it.\<close>

lemma log_loop_all:
  "cq_inv q \<Longrightarrow> cq_maxEntries q \<noteq> 0 \<Longrightarrow> cq_list q = map Some ts1 @ None # map Some ts2 \<Longrightarrow>
    handle_all (numbered e k (ts1 @ ts2)) L F = Some (L', F') \<Longrightarrow>
    \<exists>q'. log_loop e k (L\<lparr>lg_queue := q\<rparr>) F = Some (L'\<lparr>lg_queue := q', lg_exit := 0\<rparr>, F') \<and> cq_list q' = []"
proof (induction ts1 arbitrary: q k L F)
  case Nil
  show ?case
  proof (cases "ts2 = []")
    case True
    then show ?thesis using log_loop_last [OF Nil.prems(1), of "[]" e k L F L' F'] Nil.prems(3,4) by simp
  next
    case False
    obtain q1 where q1: "circQueuePopHead q = (None, q1)" "cq_inv q1" "cq_list q1 = map Some ts2" "cq_maxEntries q1 = cq_maxEntries q"
      "\<not> circQueueIsEmpty q"
      using pop_step [OF Nil.prems(1), of None "map Some ts2"] Nil.prems(3) by auto
    have "unat (cq_count q1) < unat (cq_count q)" using cq_count_list [OF Nil.prems(1)] cq_count_list [OF q1(2)] Nil.prems(3) q1(3) by simp
    also have "\<dots> \<le> unat (cq_maxEntries q)" using Nil.prems(1,2) by (simp add: cq_inv_def)
    finally have c: "cq_count q1 < cq_maxEntries q1" using q1(4) by (simp add: word_less_nat_alt)
    obtain q2 where q2: "logExit (L\<lparr>lg_queue := q1\<rparr>) = Some (L\<lparr>lg_queue := q2\<rparr>)" "cq_inv q2" "cq_list q2 = map Some ts2 @ [None]"
      using logExit_ok [of "L\<lparr>lg_queue := q1\<rparr>"] q1 c Nil.prems(2) by auto
    have "blockQueueLength q1 \<noteq> 0" using False q1(2,3) cq_list_empty_iff [of q1] by (simp add: blockQueueLength_def circQueueLength_def)
    then have "log_loop e k (L\<lparr>lg_queue := q\<rparr>) F = log_loop e k (L\<lparr>lg_queue := q2\<rparr>) F"
      using q1(1,5) by (subst log_loop.simps) (simp add: q2(1))
    then show ?thesis using log_loop_last [OF q2(2,3), of e k L F L' F'] Nil.prems(4) by simp
  qed
next
  case (Cons t ts1)
  obtain q' where q': "circQueuePopHead q = (Some t, q')" "cq_inv q'" "cq_list q' = map Some ts1 @ None # map Some ts2"
    "cq_maxEntries q' = cq_maxEntries q" "\<not> circQueueIsEmpty q"
    using pop_step [OF Cons.prems(1), of "Some t" "map Some ts1 @ None # map Some ts2"] Cons.prems(3) by auto
  obtain L1 F1 where h: "handleLog (e k) t L F = Some (L1, F1)" "handle_all (numbered e (Suc k) (ts1 @ ts2)) L1 F1 = Some (L', F')"
    using Cons.prems(4) by (auto split: option.splits)
  have "log_loop e k (L\<lparr>lg_queue := q\<rparr>) F = log_loop e (Suc k) (L1\<lparr>lg_queue := q'\<rparr>) F1"
    using q'(1,5) by (subst log_loop.simps) (simp add: handleLog_queue h(1))
  then show ?case using Cons.IH [OF q'(2) _ q'(3) h(2)] q'(4) Cons.prems(2) by simp
qed

lemma push_max: "circQueuePushTail True q x = Some (r, q') \<Longrightarrow> cq_maxEntries q \<noteq> 0 \<Longrightarrow> cq_maxEntries q' = cq_maxEntries q"
  by (auto simp: circQueuePushTail_def circQueueStore_def split: if_splits)

lemma logInfo_ok:
  assumes "cq_inv (lg_queue L)" "cq_maxEntries (lg_queue L) \<noteq> 0" "length (cq_list (lg_queue L)) < unat (cq_maxEntries (lg_queue L))"
    "lg_exit L \<noteq> 0" "lg_state L \<noteq> E_LOG_NULL"
  shows "\<exists>q. logInfo t L = Some (L\<lparr>lg_queue := q\<rparr>) \<and> cq_inv q \<and> cq_list q = cq_list (lg_queue L) @ [Some (snprintf 1024 t)] \<and>
    cq_maxEntries q = cq_maxEntries (lg_queue L)"
proof -
  let ?q = "lg_queue L" and ?x = "Some (snprintf 1024 t)"
  have room: "cq_room ?q" using assms(2,3) by (simp add: cq_room_def)
  obtain ok q where p: "cq_push ?x ?q = (ok, q)" by (cases "cq_push ?x ?q")
  note r = cq_push_room [OF assms(1) room p]
  then have c: "circQueuePushTail True ?q ?x = Some (0, q)" using p by (auto simp: cq_push_def split: option.splits)
  have "logInfo t L = Some (L\<lparr>lg_queue := q\<rparr>)" using assms(4,5) by (simp add: logInfo_def log_push_def blockQueuePush_def c)
  with r push_max [OF c assms(2)] show ?thesis by (intro exI [of _ q]) simp
qed

lemma log_queue_create:
  "\<exists>q. blockQueueCreate True True True SYS_LOG_QUEUE_LEN = Some (q :: string circQueue) \<and> cq_inv q \<and> cq_list q = [] \<and> cq_maxEntries q = 1024"
proof -
  obtain q :: "string circQueue" where q: "circQueueCreate True True SYS_LOG_QUEUE_LEN = Some q" "cq_maxEntries q = 1024"
    by (simp add: circQueueCreate_def SYS_LOG_QUEUE_LEN_def Let_def)
  then show ?thesis using circQueueCreate_inv [OF _ q(1)] by (simp add: blockQueueCreate_def SYS_LOG_QUEUE_LEN_def)
qed

text \<open>What a call or an exit does: the invariant and the size stay, a line or the marker is put at the back if there is room.\<close>

lemma logExit_any:
  assumes "cq_inv (lg_queue L)" "logExit L = Some L'"
  shows "\<exists>q. L' = L\<lparr>lg_queue := q\<rparr> \<and> cq_inv q \<and> cq_maxEntries q = cq_maxEntries (lg_queue L) \<and>
    (cq_list q = cq_list (lg_queue L) \<or> cq_list q = cq_list (lg_queue L) @ [None])"
proof -
  obtain r q where f: "circQueueForcePushTail True (lg_queue L) None = Some (r, q)" "L' = L\<lparr>lg_queue := q\<rparr>"
    using assms(2) by (auto simp: logExit_def blockQueueExit_def split: option.splits)
  then show ?thesis using circQueueForcePushTail_ok [OF assms(1) f(1)] by (intro exI [of _ q]) auto
qed

lemma log_push_any:
  assumes "cq_inv (lg_queue L)" "cq_maxEntries (lg_queue L) \<noteq> 0" "log_push t L = Some (ok, L')"
  shows "\<exists>q. L' = L\<lparr>lg_queue := q\<rparr> \<and> cq_inv q \<and> cq_maxEntries q = cq_maxEntries (lg_queue L) \<and>
    cq_list q = cq_list (lg_queue L) @ (if ok then [Some (snprintf 1024 t)] else [])"
proof -
  let ?x = "Some (snprintf 1024 t)"
  obtain r sig q where b: "blockQueuePush (lg_queue L) ?x = Some (r, sig, q)" "ok = (\<not> r < 0)" "L' = L\<lparr>lg_queue := q\<rparr>"
    using assms(3) by (auto simp: log_push_def split: option.splits)
  obtain r' where c: "circQueuePushTail True (lg_queue L) ?x = Some (r', q)"
    using b(1) by (auto simp: blockQueuePush_def split: option.splits if_split_asm)
  have r: "r = 0 \<or> r = -1" using b(1) unfolding blockQueuePush_def c by (cases "r' < 0") simp_all
  have "cq_maxEntries q = cq_maxEntries (lg_queue L)" using push_max [OF c assms(2)] .
  moreover have "cq_inv q \<and> cq_list q = cq_list (lg_queue L) @ (if ok then [?x] else [])"
    using blockQueuePush_ok [OF assms(1) b(1)] r by (auto simp: b(2))
  ultimately show ?thesis using b(3) by blast
qed

lemma handleLog_exit:
  "handleLog e t (L\<lparr>lg_exit := x\<rparr>) F = map_option (\<lambda>r. ((fst r)\<lparr>lg_exit := x\<rparr>, snd r)) (handleLog e t L F)"
proof -
  have r: "logRotateFile e (L\<lparr>lg_exit := x\<rparr>) F = map_option (\<lambda>r. ((fst r)\<lparr>lg_exit := x\<rparr>, snd r)) (logRotateFile e L F)"
    by (cases L) (simp add: logRotateFile_def Let_def)
  show ?thesis
  proof (cases "logRotateFile e L F")
    case None
    then show ?thesis by (simp add: handleLog_def r)
  next
    case (Some a)
    then show ?thesis by (cases a) (simp add: handleLog_def r option.map_comp comp_def split: option.split)
  qed
qed

lemma handleLog_other:
  assumes "handleLog e t L F = Some (L', F')"
  shows "handleLog e t (L\<lparr>lg_queue := q, lg_exit := x\<rparr>) F = Some (L'\<lparr>lg_queue := q, lg_exit := x\<rparr>, F')"
  using handleLog_exit [where L = "L\<lparr>lg_queue := q\<rparr>" and x = x] by (simp add: handleLog_queue assms)

lemma handleLog_keeps:
  assumes "handleLog e t L F = Some (L', F')"
  shows "lg_queue L' = lg_queue L \<and> lg_exit L' = lg_exit L"
proof -
  have "L\<lparr>lg_queue := lg_queue L, lg_exit := lg_exit L\<rparr> = L" by (cases L) simp
  then have "L' = L'\<lparr>lg_queue := lg_queue L, lg_exit := lg_exit L\<rparr>"
    using handleLog_other [OF assms, where q = "lg_queue L" and x = "lg_exit L"] assms by simp
  then have "lg_queue L' = lg_queue (L'\<lparr>lg_queue := lg_queue L, lg_exit := lg_exit L\<rparr>)"
    "lg_exit L' = lg_exit (L'\<lparr>lg_queue := lg_queue L, lg_exit := lg_exit L\<rparr>)" by metis+
  then show ?thesis by simp
qed

lemma handleLog_state: "handleLog e t L F = Some (L', F') \<Longrightarrow> lg_state L' = lg_state L"
  by (auto simp: handleLog_def logRotateFile_def Let_def split: option.splits if_split_asm)

lemma handle_all_state: "handle_all xs L F = Some (L', F') \<Longrightarrow> lg_state L' = lg_state L"
  by (induction xs arbitrary: L F) (auto dest: handleLog_state split: option.splits)

lemma logInfo_full:
  assumes "cq_inv (lg_queue L)" "cq_maxEntries (lg_queue L) \<noteq> 0" "\<not> length (cq_list (lg_queue L)) < unat (cq_maxEntries (lg_queue L))"
  shows "logInfo t L = Some L"
proof -
  let ?q = "lg_queue L" and ?x = "Some (snprintf 1024 t)"
  have "cq_count ?q = cq_maxEntries ?q" using assms cq_invD(6) [OF assms(1,2)] by (simp add: unsigned_word_eqI)
  then have "circQueuePushTail True ?q ?x = Some (-2, ?q)" using assms(2) by (simp add: circQueuePushTail_def)
  then show ?thesis by (simp add: logInfo_def log_push_def blockQueuePush_def)
qed

subsection \<open>The invariant of the log\<close>

definition log_hand :: "log_pc \<Rightarrow> string list" where
  "log_hand p = (case p of LLine t \<Rightarrow> [t] | _ \<Rightarrow> [])"

definition log_queued :: "syslog \<Rightarrow> string list" where
  "log_queued L = List.map_filter (\<lambda>x. x) (cq_list (lg_queue L))"

definition log_sys_inv :: "syslog \<Rightarrow> files \<Rightarrow> log_sys \<Rightarrow> bool" where
  "log_sys_inv L0 F0 s \<longleftrightarrow> cq_inv (lg_queue (ls_log s)) \<and> cq_maxEntries (lg_queue (ls_log s)) = 1024 \<and>
     lg_exit (ls_log s) = (if ls_pc s = LDone then 0 else 1) \<and>
     ls_acc s = map snd (ls_done s) @ log_hand (ls_pc s) @ log_queued (ls_log s) \<and>
     handle_all (ls_done s) L0 F0 = Some ((ls_log s)\<lparr>lg_queue := lg_queue L0, lg_exit := 1\<rparr>, ls_files s)"

lemma log_hand_simps [simp]:
  "log_hand LTake = []" "log_hand (LLine t) = [t]" "log_hand LNull = []" "log_hand LAgain = []" "log_hand LEnd = []" "log_hand LDone = []"
  by (simp_all add: log_hand_def)

lemma log_queued_list:
  "cq_list (lg_queue L) = xs \<Longrightarrow> log_queued L = List.map_filter (\<lambda>x. x) xs"
  by (simp add: log_queued_def)

lemma map_filter_id [simp]:
  "List.map_filter (\<lambda>x. x) [] = []" "List.map_filter (\<lambda>x. x) (None # xs) = List.map_filter (\<lambda>x. x) xs"
  "List.map_filter (\<lambda>x. x) (Some y # xs) = y # List.map_filter (\<lambda>x. x) xs"
  "List.map_filter (\<lambda>x. x) (xs @ zs) = List.map_filter (\<lambda>x. x) xs @ List.map_filter (\<lambda>x. x) zs"
  "List.map_filter (\<lambda>x. x) (map Some ys) = ys"
  by (simp_all add: List.map_filter_def comp_def)

lemma pop_any:
  assumes "cq_inv q" "\<not> circQueueIsEmpty q" "circQueuePopHead q = (x, q')"
  shows "cq_inv q' \<and> cq_list q = x # cq_list q' \<and> cq_maxEntries q' = cq_maxEntries q"
proof -
  have "cq_count q \<noteq> 0" using assms(2) by (simp add: circQueueIsEmpty_def)
  with circQueuePopHead_ok [OF assms(1,3)] cq_list_empty_iff [of q] show ?thesis by (cases "cq_list q") auto
qed

lemma log_thread_inv:
  assumes "log_sys_inv L0 F0 s" "log_thread s s'"
  shows "log_sys_inv L0 F0 s'"
  using assms(2,1)
proof cases
  case (take_line buf q)
  with pop_any [of "lg_queue (ls_log s)" "Some buf" q] assms(1) show ?thesis by (simp add: log_sys_inv_def log_queued_def)
next
  case (take_null q)
  with pop_any [of "lg_queue (ls_log s)" None q] assms(1) show ?thesis by (simp add: log_sys_inv_def log_queued_def)
next
  case (write_line buf e L F)
  have "handleLog e buf ((ls_log s)\<lparr>lg_queue := lg_queue L0, lg_exit := 1\<rparr>) (ls_files s) = Some (L\<lparr>lg_queue := lg_queue L0, lg_exit := 1\<rparr>, F)"
    by (rule handleLog_other [OF write_line(3)])
  then show ?thesis using write_line handleLog_keeps [OF write_line(3)] assms(1) by (simp add: log_sys_inv_def log_queued_def handle_all_append)
next
  case (again L)
  with logExit_any [of "ls_log s" L] assms(1) show ?thesis by (auto simp: log_sys_inv_def log_queued_def)
qed (use assms(1) in \<open>auto simp: log_sys_inv_def log_queued_def\<close>)

lemma log_step_inv:
  assumes "log_sys_inv L0 F0 s" "log_step s s'"
  shows "log_sys_inv L0 F0 s'"
  using assms(2)
proof cases
  case thread
  then show ?thesis by (rule log_thread_inv [OF assms(1)])
next
  case (push t ok L)
  with log_push_any [of "ls_log s" t ok L] assms(1) show ?thesis by (auto simp: log_sys_inv_def log_queued_def)
next
  case (exit L)
  with logExit_any [of "ls_log s" L] assms(1) show ?thesis by (auto simp: log_sys_inv_def log_queued_def)
qed (use assms(1) in \<open>auto simp: log_sys_inv_def log_queued_def\<close>)

lemma log_reach_inv:
  assumes "cq_inv (lg_queue L0)" "cq_list (lg_queue L0) = []" "cq_maxEntries (lg_queue L0) = 1024" "lg_exit L0 = 1"
    and "log_reach L0 F0 s"
  shows "log_sys_inv L0 F0 s"
  using assms(5)
proof induction
  case start
  show ?case using assms(1-4) by (cases L0) (simp add: log_sys_inv_def log_start_def log_queued_def)
qed (rule log_step_inv)

lemma logInit_file:
  assumes "prog \<noteq> Z_PROGNAME" "envGetInt env ''z_log_state'' 0 = E_LOG_FILE"
    and "n = envGet env ''z_log_name'' (snprintf FILENAME_MAX (prog @ ''_sys.log''))" "length n < FILENAME_MAX"
    and "d = snprintf FILENAME_MAX (envGet env ''z_log_rotatedir'' [])" "m = envGetInt env ''z_log_maxlinenum'' 200000"
  shows "\<exists>L. logInit env prog True raw F = Some (Inr (L, True), F\<lparr>fl_files := (fl_files F)(n \<mapsto> [])\<rparr>) \<and>
    log_at L (F\<lparr>fl_files := (fl_files F)(n \<mapsto> [])\<rparr>) n d m 0 (log_lines []) \<and> lg_exit L = 1 \<and>
    cq_inv (lg_queue L) \<and> cq_list (lg_queue L) = [] \<and> cq_maxEntries (lg_queue L) = 1024"
proof -
  obtain q :: "string circQueue" where q: "blockQueueCreate True True True SYS_LOG_QUEUE_LEN = Some q" "cq_inv q" "cq_list q = []" "cq_maxEntries q = 1024"
    using log_queue_create by blast
  define L where "L = raw\<lparr>lg_handle := Some (OpenFile n), lg_name := n, lg_rotateDir := d, lg_maxLineNum := m, lg_exit := 1,
      lg_lineNum := 0, lg_queue := q, lg_state := E_LOG_FILE\<rparr>"
  have n: "snprintf FILENAME_MAX n = n" using assms(4) by (simp add: snprintf_def)
  have "logInit env prog True raw F = Some (Inr (L, True), F\<lparr>fl_files := (fl_files F)(n \<mapsto> [])\<rparr>)"
    using assms(1,2) n by (simp add: logInit_def q(1) fopen_w_def Let_def L_def assms(3) [symmetric] assms(5,6) [symmetric] E_LOG_FILE_def E_LOG_NULL_def)
  then show ?thesis using q by (intro exI [of _ L]) (simp add: L_def log_at_def log_lines_def)
qed

lemma rotate_path_other: "length n < FILENAME_MAX - 2 \<Longrightarrow> rotate_path d n t \<noteq> n"
proof
  assume l: "length n < FILENAME_MAX - 2" and eq: "rotate_path d n t = n"
  have "length (rotate_path d n t) \<ge> min (FILENAME_MAX - 2) (Suc (length n))"
    by (simp add: rotate_path_def snprintf_def)
  then show False using l eq by simp
qed

text \<open>The lines \<open>W\<close> on the disk: the file of the log holds the last of them, each rotated file the ones before.\<close>

definition log_fine :: "log_env \<times> string \<Rightarrow> bool" where
  "log_fine x \<longleftrightarrow> CHR ''%'' \<notin> set (snd x) \<and> le_rename (fst x) \<and> le_open (fst x)"

definition on_disk :: "string \<Rightarrow> string \<Rightarrow> int \<Rightarrow> (log_env \<times> string) list \<Rightarrow> files \<Rightarrow> bool" where
  "on_disk d n m W F \<longleftrightarrow> (\<exists>(ps :: (log_env \<times> (log_env \<times> string) list) list) c. concat (map snd ps) @ c = W \<and> fl_files F n = Some (log_lines c) \<and> int (length c) \<le> m + 2 \<and>
     (\<forall>p \<in> set ps. fl_files F (rotate_path d n (le_tm (fst p))) = Some (log_lines (snd p)) \<and> int (length (snd p)) \<le> m + 2))"

lemma handle_all_some:
  assumes "log_at L F n d m 0 (log_lines [])" "0 \<le> m" "m < 2 ^ 31 - 2" "\<forall>x \<in> set W. log_fine x"
  shows "\<exists>L' F'. handle_all W L F = Some (L', F')"
  using handle_all_ok [OF assms(1-3) _ _ surjective_pairing, of W] assms(2,4) by (fastforce simp: log_fine_def)

lemma handle_on_disk:
  assumes at: "log_at L F n d m 0 (log_lines [])" and n: "length n < FILENAME_MAX - 2" and m: "0 \<le> m" "m < 2 ^ 31 - 2"
    and W: "\<forall>x \<in> set W. log_fine x" "spaced (\<lambda>e. rotate_path d n (le_tm e)) m W" and h: "handle_all W L F = Some (L', F')"
  shows "on_disk d n m W F'"
proof -
  let ?path = "\<lambda>e. rotate_path d n (le_tm e)"
  obtain ps c where s: "log_split m 0 [] W = (ps, c)" by (cases "log_split m 0 [] W")
  have f: "fl_files F' n = Some (log_lines c)" "\<And>x. x \<noteq> n \<Longrightarrow> fl_files F' x = rotated ?path ps (fl_files F) x"
    using handle_all_ok [OF at m _ _ s] m W(1) h by (auto simp: log_fine_def)
  note dist = log_split_distinct [OF s m(1) _ W(2)]
  have "fl_files F' (?path (fst p)) = Some (log_lines (snd p))" if "p \<in> set ps" for p
    using f(2) rotate_path_other [OF n] rotated_in [OF dist that] m(1) by simp
  moreover have "int (length c) \<le> m + 2 \<and> (\<forall>p \<in> set ps. int (length (snd p)) \<le> m + 2)"
    using log_split_bound [OF s m(1)] m(1) by simp
  ultimately show ?thesis using f(1) log_split_all [OF s] unfolding on_disk_def by (intro exI [of _ ps] exI [of _ c]) simp
qed

text \<open>The loop as a function is a run of the thread's steps.\<close>

lemma log_loop_thread:
  assumes "log_loop e k L F = Some r"
  shows "\<forall>s. ls_log s = L \<and> ls_files s = F \<and> ls_pc s = LTake \<longrightarrow>
    (\<exists>s'. log_thread\<^sup>*\<^sup>* s s' \<and> ls_pc s' = LDone \<and> ls_log s' = fst r \<and> ls_files s' = snd r)"
proof (induct rule: log_loop.raw_induct [OF _ assms, case_names 1])
  case (1 loop e k L F r)
  note IH = this(1) and body = this(2)
  obtain x q where p: "circQueuePopHead (lg_queue L) = (x, q)" "\<not> circQueueIsEmpty (lg_queue L)"
    using body by (cases "circQueuePopHead (lg_queue L)") (auto split: if_split_asm)
  show ?case
  proof (intro allI impI)
    fix s :: log_sys
    assume s: "ls_log s = L \<and> ls_files s = F \<and> ls_pc s = LTake"
    show "\<exists>s'. log_thread\<^sup>*\<^sup>* s s' \<and> ls_pc s' = LDone \<and> ls_log s' = fst r \<and> ls_files s' = snd r"
    proof (cases x)
      case None
      let ?s1 = "s\<lparr>ls_log := L\<lparr>lg_queue := q\<rparr>, ls_pc := LNull\<rparr>"
      have 1: "log_thread s ?s1" using log_thread.take_null [of s q] p None s by simp
      show ?thesis
      proof (cases "blockQueueLength q = 0")
        case True
        have 2: "log_thread ?s1 (?s1\<lparr>ls_pc := LEnd\<rparr>)" using log_thread.look [of ?s1] True by simp
        have 3: "log_thread (?s1\<lparr>ls_pc := LEnd\<rparr>) (?s1\<lparr>ls_log := L\<lparr>lg_queue := q, lg_exit := 0\<rparr>, ls_pc := LDone\<rparr>)"
          using log_thread.finish [of "?s1\<lparr>ls_pc := LEnd\<rparr>"] by simp
        have r: "r = (L\<lparr>lg_queue := q, lg_exit := 0\<rparr>, F)" using body p None True by simp
        have "log_thread\<^sup>*\<^sup>* s (?s1\<lparr>ls_log := L\<lparr>lg_queue := q, lg_exit := 0\<rparr>, ls_pc := LDone\<rparr>)"
          using 1 2 3 by (meson converse_rtranclp_into_rtranclp r_into_rtranclp)
        then show ?thesis by (intro exI conjI) (assumption | simp add: r s)+
      next
        case False
        then obtain L1 where L1: "logExit (L\<lparr>lg_queue := q\<rparr>) = Some L1" "loop e k L1 F = Some r"
          using body p None by (auto split: option.splits)
        have 2: "log_thread ?s1 (?s1\<lparr>ls_pc := LAgain\<rparr>)" using log_thread.look [of ?s1] False by simp
        have 3: "log_thread (?s1\<lparr>ls_pc := LAgain\<rparr>) (?s1\<lparr>ls_log := L1, ls_pc := LTake\<rparr>)"
          using log_thread.again [of "?s1\<lparr>ls_pc := LAgain\<rparr>" L1] L1(1) by simp
        obtain s' where "log_thread\<^sup>*\<^sup>* (?s1\<lparr>ls_log := L1, ls_pc := LTake\<rparr>) s'" "ls_pc s' = LDone" "ls_log s' = fst r" "ls_files s' = snd r"
          using IH [OF L1(2), rule_format, of "?s1\<lparr>ls_log := L1, ls_pc := LTake\<rparr>"] s by auto
        then show ?thesis using 1 2 3 by (meson converse_rtranclp_into_rtranclp)
      qed
    next
      case (Some buf)
      let ?s1 = "s\<lparr>ls_log := L\<lparr>lg_queue := q\<rparr>, ls_pc := LLine buf\<rparr>"
      have 1: "log_thread s ?s1" using log_thread.take_line [of s buf q] p Some s by simp
      obtain L1 F1 where L1: "handleLog (e k) buf (L\<lparr>lg_queue := q\<rparr>) F = Some (L1, F1)" "loop e (Suc k) L1 F1 = Some r"
        using body p Some by (auto split: option.splits)
      let ?s2 = "s\<lparr>ls_log := L1, ls_files := F1, ls_pc := LTake, ls_done := ls_done s @ [(e k, buf)]\<rparr>"
      have 2: "log_thread ?s1 ?s2" using log_thread.write_line [of ?s1 buf "e k" L1 F1] L1(1) s by simp
      obtain s' where "log_thread\<^sup>*\<^sup>* ?s2 s'" "ls_pc s' = LDone" "ls_log s' = fst r" "ls_files s' = snd r"
        using IH [OF L1(2), rule_format, of ?s2] by auto
      then show ?thesis using 1 2 by (meson converse_rtranclp_into_rtranclp)
    qed
  qed
qed

subsection \<open>Properties\<close>

text \<open>C24: at any moment of any run in which other threads call logInfo and logExit beside the thread: a call takes its line into
  the queue if one of the 1024 places is free and the thread has not ended, and changes nothing otherwise. The lines the queue has taken are, each
  once and in order, those written, the one in the thread's hand, and those that wait. The written ones are on the disk, in files
  of at most maxLineNum + 2 lines, and the thread can write the one in its hand. If one marker is in the queue and no more calls
  come, the thread writes what is before and what is behind the marker and ends with an empty queue.

  Not promised: a line that comes between the thread's look at an empty queue behind the marker and its end waits
  for ever, and a marker that finds the queue full is lost. Required for the files: rename and fopen succeed, no line has a percent
  sign, and lines more than maxLineNum apart do not have the same second.\<close>

theorem log_keeps_lines:
  assumes "prog \<noteq> Z_PROGNAME" "envGetInt env ''z_log_state'' 0 = E_LOG_FILE"
    and "n = envGet env ''z_log_name'' (snprintf FILENAME_MAX (prog @ ''_sys.log''))" "length n < FILENAME_MAX - 2"
    and "d = snprintf FILENAME_MAX (envGet env ''z_log_rotatedir'' [])"
    and "m = envGetInt env ''z_log_maxlinenum'' 200000" "0 \<le> m" "m < 2 ^ 31 - 2"
    and "logInit env prog True raw F = Some (Inr (L, started), F1)" "log_reach L F1 s"
    and "\<forall>x \<in> set (ls_done s). log_fine x" "spaced (\<lambda>e. rotate_path d n (le_tm e)) m (ls_done s)"
  shows "started \<and> ls_acc s = map snd (ls_done s) @ log_hand (ls_pc s) @ log_queued (ls_log s) \<and>
    on_disk d n m (ls_done s) (ls_files s) \<and>
    (if ls_pc s = LDone then logInfo t (ls_log s) = Some (ls_log s)
     else if length (cq_list (lg_queue (ls_log s))) < 1024
     then \<exists>L'. logInfo t (ls_log s) = Some L' \<and> log_push t (ls_log s) = Some (True, L') \<and>
            cq_list (lg_queue L') = cq_list (lg_queue (ls_log s)) @ [Some (snprintf 1024 t)]
     else logInfo t (ls_log s) = Some (ls_log s)) \<and>
    (ls_pc s = LLine buf \<and> log_fine (e 0, buf) \<longrightarrow> (\<exists>s'. log_thread s s' \<and> ls_done s' = ls_done s @ [(e 0, buf)])) \<and>
    (ls_pc s = LTake \<and> cq_list (lg_queue (ls_log s)) = map Some ts1 @ None # map Some ts2 \<and>
       (\<forall>x \<in> set (numbered e 0 (ts1 @ ts2)). log_fine x) \<and>
       spaced (\<lambda>e. rotate_path d n (le_tm e)) m (ls_done s @ numbered e 0 (ts1 @ ts2)) \<longrightarrow>
     (\<exists>L' F'. log_loop e 0 (ls_log s) (ls_files s) = Some (L', F') \<and> lg_exit L' = 0 \<and> cq_list (lg_queue L') = [] \<and>
        on_disk d n m (ls_done s @ numbered e 0 (ts1 @ ts2)) F' \<and>
        (\<exists>s'. log_thread\<^sup>*\<^sup>* s s' \<and> ls_pc s' = LDone \<and> ls_log s' = L' \<and> ls_files s' = F')))"
proof -
  let ?spaced = "spaced (\<lambda>e. rotate_path d n (le_tm e)) m"
  have n: "length n < FILENAME_MAX" using assms(4) by simp
  from logInit_file [OF assms(1,2,3) n assms(5,6), of raw F] assms(9) have L: "started" "log_at L F1 n d m 0 (log_lines [])"
    "lg_exit L = 1" "cq_inv (lg_queue L)" "cq_list (lg_queue L) = []" "cq_maxEntries (lg_queue L) = 1024" by auto
  note inv = log_reach_inv [OF L(4-6,3) assms(10), unfolded log_sys_inv_def]
  let ?q = "lg_queue (ls_log s)" and ?L1 = "(ls_log s)\<lparr>lg_queue := lg_queue L, lg_exit := 1\<rparr>"
  have h: "handle_all (ls_done s) L F1 = Some (?L1, ls_files s)" and q: "cq_inv ?q" "cq_maxEntries ?q = 1024"
    and ex: "lg_exit (ls_log s) = (if ls_pc s = LDone then 0 else 1)" using inv by simp_all
  note disk = handle_on_disk [OF L(2) assms(4,7,8)] and some = handle_all_some [OF L(2) assms(7,8)]
  have call: "if ls_pc s = LDone then logInfo t (ls_log s) = Some (ls_log s)
     else if length (cq_list ?q) < 1024
     then \<exists>L'. logInfo t (ls_log s) = Some L' \<and> log_push t (ls_log s) = Some (True, L') \<and>
            cq_list (lg_queue L') = cq_list ?q @ [Some (snprintf 1024 t)]
     else logInfo t (ls_log s) = Some (ls_log s)"
  proof (cases "ls_pc s = LDone")
    case True
    then show ?thesis using ex by (simp add: logInfo_def)
  next
    case False
    have st: "lg_exit (ls_log s) \<noteq> 0" "lg_state (ls_log s) \<noteq> E_LOG_NULL"
      using False ex handle_all_state [OF h] L(2) by (simp_all add: log_at_def E_LOG_FILE_def E_LOG_NULL_def)
    show ?thesis
    proof (cases "length (cq_list ?q) < 1024")
      case True
      then obtain q' where q': "logInfo t (ls_log s) = Some ((ls_log s)\<lparr>lg_queue := q'\<rparr>)" "cq_list q' = cq_list ?q @ [Some (snprintf 1024 t)]"
        using logInfo_ok [OF q(1) _ _ st, of t] q(2) by auto
      then obtain ok where p: "log_push t (ls_log s) = Some (ok, (ls_log s)\<lparr>lg_queue := q'\<rparr>)"
        using st by (auto simp: logInfo_def)
      then have ok using log_push_any [OF q(1) _ p] q(2) q'(2) by (auto dest: arg_cong [where f = lg_queue] split: if_split_asm)
      then show ?thesis using False True q' p by simp
    next
      case full: False
      then show ?thesis using False logInfo_full [OF q(1)] q(2) by simp
    qed
  qed
  have hand: "\<exists>s'. log_thread s s' \<and> ls_done s' = ls_done s @ [(e 0, buf)]" if pc: "ls_pc s = LLine buf" and f: "log_fine (e 0, buf)"
  proof -
    have "\<forall>x \<in> set (ls_done s @ [(e 0, buf)]). log_fine x" using f assms(11) by simp
    from some [OF this] h obtain L' F' where "handleLog (e 0) buf ?L1 (ls_files s) = Some (L', F')"
      by (auto simp: handle_all_append split: option.splits)
    moreover have "(ls_log s)\<lparr>lg_exit := 1\<rparr> = ls_log s" using pc ex by (cases "ls_log s") simp
    ultimately have "handleLog (e 0) buf (ls_log s) (ls_files s) = Some (L'\<lparr>lg_queue := ?q, lg_exit := 1\<rparr>, F')"
      using handleLog_other [where q = ?q and x = 1 and L = ?L1] by fastforce
    from log_thread.write_line [OF pc this] show ?thesis by (intro exI conjI) (assumption, simp)
  qed
  have rest: "\<exists>L' F'. log_loop e 0 (ls_log s) (ls_files s) = Some (L', F') \<and> lg_exit L' = 0 \<and> cq_list (lg_queue L') = [] \<and>
        on_disk d n m (ls_done s @ numbered e 0 (ts1 @ ts2)) F' \<and>
        (\<exists>s'. log_thread\<^sup>*\<^sup>* s s' \<and> ls_pc s' = LDone \<and> ls_log s' = L' \<and> ls_files s' = F')"
    if pc: "ls_pc s = LTake" and ql: "cq_list ?q = map Some ts1 @ None # map Some ts2" and f: "\<forall>x \<in> set (numbered e 0 (ts1 @ ts2)). log_fine x"
      and sp: "?spaced (ls_done s @ numbered e 0 (ts1 @ ts2))"
  proof -
    let ?ys = "numbered e 0 (ts1 @ ts2)"
    have all: "\<forall>x \<in> set (ls_done s @ ?ys). log_fine x" using f assms(11) by auto
    from some [OF this] h obtain L' F' where h': "handle_all ?ys ?L1 (ls_files s) = Some (L', F')" "handle_all (ls_done s @ ?ys) L F1 = Some (L', F')"
      by (auto simp: handle_all_append)
    have same: "?L1\<lparr>lg_queue := ?q\<rparr> = ls_log s" using pc ex by simp
    from log_loop_all [OF q(1) _ ql h'(1)] q(2) obtain q' where
      l: "log_loop e 0 (ls_log s) (ls_files s) = Some (L'\<lparr>lg_queue := q', lg_exit := 0\<rparr>, F')" "cq_list q' = []" unfolding same by auto
    then show ?thesis using disk [OF all sp h'(2)] log_loop_thread [OF l(1), rule_format, of s] pc by simp
  qed
  show ?thesis using L(1) inv disk [OF assms(11,12) h] call hand rest by blast
qed


definition ex_env :: "string \<Rightarrow> string ptr" where
  "ex_env k = (if k = ''z_log_state'' then Some ''1'' else if k = ''z_log_maxlinenum'' then Some ''1''
     else if k = ''z_log_rotatedir'' then Some ''old'' else None)"

definition ex_files :: files where "ex_files = \<lparr>fl_files = Map.empty, fl_out = []\<rparr>"

definition ex_raw :: syslog where
  "ex_raw = \<lparr>lg_handle = None, lg_name = [], lg_rotateDir = [], lg_maxLineNum = 0, lg_lineNum = 0, lg_state = 0,
     lg_queue = the (blockQueueCreate True True True 1), lg_exit = 0\<rparr>"

definition ex_time :: "nat \<Rightarrow> log_env" where
  "ex_time k = \<lparr>le_tm = \<lparr>tm_year = 114, tm_mon = 4, tm_mday = 1, tm_hour = 12, tm_min = 0, tm_sec = int k\<rparr>, le_usec = 0,
     le_rename = True, le_open = True\<rparr>"

lemma ex_int: "to_int (fst (strtol ''1'')) = 1"
proof -
  have "strtol (dec_int 1) = (1, [])" using strtol_dec_int [of 1 "[]"] by simp
  moreover have "dec_int 1 = ''1''" by code_simp
  ultimately show ?thesis by (simp add: to_int_def)
qed

lemma log_reach_info:
  assumes "log_reach L F s" "cq_inv (lg_queue (ls_log s))" "cq_maxEntries (lg_queue (ls_log s)) = 1024"
    "length (cq_list (lg_queue (ls_log s))) < 1024" "lg_exit (ls_log s) \<noteq> 0" "lg_state (ls_log s) \<noteq> E_LOG_NULL"
  shows "\<exists>q. log_reach L F (s\<lparr>ls_log := (ls_log s)\<lparr>lg_queue := q\<rparr>, ls_acc := ls_acc s @ [snprintf 1024 t]\<rparr>) \<and>
    cq_inv q \<and> cq_maxEntries q = 1024 \<and> cq_list q = cq_list (lg_queue (ls_log s)) @ [Some (snprintf 1024 t)]"
proof -
  obtain q where q: "logInfo t (ls_log s) = Some ((ls_log s)\<lparr>lg_queue := q\<rparr>)" "cq_inv q" "cq_maxEntries q = 1024"
    "cq_list q = cq_list (lg_queue (ls_log s)) @ [Some (snprintf 1024 t)]"
    using logInfo_ok [OF assms(2) _ _ assms(5,6), of t] assms(3,4) by auto
  then obtain ok where p: "log_push t (ls_log s) = Some (ok, (ls_log s)\<lparr>lg_queue := q\<rparr>)" using assms(5,6) by (auto simp: logInfo_def)
  then have ok: ok using log_push_any [OF assms(2) _ p] assms(3) q(4) by (auto dest: arg_cong [where f = lg_queue] split: if_split_asm)
  have "log_reach L F (s\<lparr>ls_calls := t # ls_calls s\<rparr>)" by (rule log_reach.step [OF assms(1) log_step.call [OF assms(5,6)]])
  from log_reach.step [OF this log_step.push [where t = t and ok = True and L = "(ls_log s)\<lparr>lg_queue := q\<rparr>"]] p ok
  have "log_reach L F (s\<lparr>ls_log := (ls_log s)\<lparr>lg_queue := q\<rparr>, ls_calls := ls_calls s, ls_acc := ls_acc s @ [snprintf 1024 t]\<rparr>)" by simp
  then show ?thesis using q by (cases s) auto
qed

theorem log_keeps_lines_witness:
  "\<exists>L F1 s L' F'. logInit ex_env ''game'' True ex_raw ex_files = Some (Inr (L, True), F1) \<and> log_reach L F1 s \<and>
    ls_acc s = [''one'', ''two'', ''three''] \<and> ls_done s = [(ex_time 0, ''one'')] \<and>
    log_loop (ex_time \<circ> Suc) 0 (ls_log s) (ls_files s) = Some (L', F') \<and>
    on_disk ''old'' ''game_sys.log'' 1 [(ex_time 0, ''one''), (ex_time 1, ''two''), (ex_time 2, ''three'')] F'"
proof -
  let ?n = "''game_sys.log''" and ?path = "\<lambda>e. rotate_path ''old'' ''game_sys.log'' (le_tm e)"
  have e: "''game'' \<noteq> Z_PROGNAME" "envGetInt ex_env ''z_log_state'' 0 = E_LOG_FILE"
    "?n = envGet ex_env ''z_log_name'' (snprintf FILENAME_MAX (''game'' @ ''_sys.log''))"
    "''old'' = snprintf FILENAME_MAX (envGet ex_env ''z_log_rotatedir'' [])" "1 = envGetInt ex_env ''z_log_maxlinenum'' 200000"
    by (simp_all add: envGet_def envGetInt_def ex_env_def snprintf_def FILENAME_MAX_def ex_int E_LOG_FILE_def Z_PROGNAME_def)
  have short: "length ?n < FILENAME_MAX" "length ?n < FILENAME_MAX - 2" by (simp_all add: FILENAME_MAX_def)
  obtain L F1 where init: "logInit ex_env ''game'' True ex_raw ex_files = Some (Inr (L, True), F1)"
    and at: "log_at L F1 ?n ''old'' 1 0 (log_lines [])" and L: "lg_exit L = 1" "cq_inv (lg_queue L)" "cq_list (lg_queue L) = []" "cq_maxEntries (lg_queue L) = 1024"
    using logInit_file [OF e(1,2,3) short(1) e(4,5), of ex_raw ex_files] by auto
  have st: "lg_state L \<noteq> E_LOG_NULL" using at by (simp add: log_at_def E_LOG_FILE_def E_LOG_NULL_def)
  obtain q1 where q1: "log_reach L F1 ((log_start L F1)\<lparr>ls_log := L\<lparr>lg_queue := q1\<rparr>, ls_acc := [''one'']\<rparr>)"
    "cq_inv q1" "cq_maxEntries q1 = 1024" "cq_list q1 = [Some ''one'']"
    using log_reach_info [OF log_reach.start, of L F1 "''one''"] L st by (auto simp: log_start_def snprintf_def)
  obtain q2 where q2: "circQueuePopHead q1 = (Some ''one'', q2)" "cq_inv q2" "cq_list q2 = []" "cq_maxEntries q2 = 1024" "\<not> circQueueIsEmpty q1"
    using pop_step [OF q1(2,4)] q1(3) by auto
  have s2: "log_reach L F1 ((log_start L F1)\<lparr>ls_log := L\<lparr>lg_queue := q2\<rparr>, ls_acc := [''one''], ls_pc := LLine ''one''\<rparr>)"
    using log_reach.step [OF q1(1) log_step.thread [OF log_thread.take_line [where buf = "''one''" and q = q2]]] q2(1,5) by (simp add: log_start_def)
  have at2: "log_at (L\<lparr>lg_queue := q2\<rparr>) F1 ?n ''old'' 1 0 (log_lines [])" using at by (simp add: log_at_def)
  obtain F3 where "handleLog (ex_time 0) ''one'' (L\<lparr>lg_queue := q2\<rparr>) F1 = Some (L\<lparr>lg_lineNum := 1, lg_queue := q2\<rparr>, F3)"
    using handleLog_count [OF at2, of "''one''" "ex_time 0"] by auto
  from log_reach.step [OF s2 log_step.thread [OF log_thread.write_line [where buf = "''one''"]]] this
  have s3: "log_reach L F1 ((log_start L F1)\<lparr>ls_log := L\<lparr>lg_lineNum := 1, lg_queue := q2\<rparr>, ls_files := F3, ls_acc := [''one''], ls_done := [(ex_time 0, ''one'')]\<rparr>)"
    by (simp add: log_start_def)
  obtain q4 where q4: "log_reach L F1 ((log_start L F1)\<lparr>ls_log := L\<lparr>lg_lineNum := 1, lg_queue := q4\<rparr>, ls_files := F3, ls_acc := [''one'', ''two''], ls_done := [(ex_time 0, ''one'')]\<rparr>)"
    "cq_inv q4" "cq_maxEntries q4 = 1024" "cq_list q4 = [Some ''two'']"
    using log_reach_info [OF s3, of "''two''"] q2 L st by (auto simp: log_start_def snprintf_def)
  have "length (cq_list q4) < 1024" using q4(4) by simp
  then have "cq_count q4 < cq_maxEntries q4" using q4(3) by (simp add: word_less_nat_alt)
  then obtain q5 where q5: "logExit (L\<lparr>lg_lineNum := 1, lg_queue := q4\<rparr>) = Some (L\<lparr>lg_lineNum := 1, lg_queue := q5\<rparr>)"
    "cq_inv q5" "cq_maxEntries q5 = 1024" "cq_list q5 = [Some ''two'', None]"
    using logExit_ok [of "L\<lparr>lg_lineNum := 1, lg_queue := q4\<rparr>"] q4 by auto
  have s5: "log_reach L F1 ((log_start L F1)\<lparr>ls_log := L\<lparr>lg_lineNum := 1, lg_queue := q5\<rparr>, ls_files := F3, ls_acc := [''one'', ''two''], ls_done := [(ex_time 0, ''one'')]\<rparr>)"
    using log_reach.step [OF q4(1) log_step.exit] q5(1) by (simp add: log_start_def)
  obtain q6 where q6: "log_reach L F1 ((log_start L F1)\<lparr>ls_log := L\<lparr>lg_lineNum := 1, lg_queue := q6\<rparr>, ls_files := F3, ls_acc := [''one'', ''two'', ''three''], ls_done := [(ex_time 0, ''one'')]\<rparr>)"
    "cq_list q6 = [Some ''two'', None, Some ''three'']"
    using log_reach_info [OF s5, of "''three''"] q5 L st by (auto simp: log_start_def snprintf_def)
  define s where "s = (log_start L F1)\<lparr>ls_log := L\<lparr>lg_lineNum := 1, lg_queue := q6\<rparr>, ls_files := F3, ls_acc := [''one'', ''two'', ''three''], ls_done := [(ex_time 0, ''one'')]\<rparr>"
  have s: "log_reach L F1 s" "ls_pc s = LTake" "ls_done s = [(ex_time 0, ''one'')]" "ls_acc s = [''one'', ''two'', ''three'']"
    "cq_list (lg_queue (ls_log s)) = map Some [''two''] @ None # map Some [''three'']"
    using q6 by (simp_all add: s_def log_start_def)
  let ?W = "[(ex_time 0, ''one''), (ex_time 1, ''two''), (ex_time 2, ''three'')]"
  have W: "ls_done s @ numbered (ex_time \<circ> Suc) 0 ([''two''] @ [''three'']) = ?W" using s(3) by (simp add: numeral_2_eq_2)
  have d: "?path (ex_time 0) \<noteq> ?path (ex_time 2)"
    by (simp add: rotate_path_def snprintf_def FILENAME_MAX_def ex_time_def zpad_def dec_nat.simps char_of_def Let_def)
  have sp: "spaced ?path 1 ?W"
    unfolding spaced_def
  proof (intro allI impI)
    fix i j :: nat
    assume ij: "i < j \<and> j < length ?W \<and> 1 < int j - int i"
    then have "i = 0 \<and> j = 2" by auto
    with d show "?path (fst (?W ! i)) \<noteq> ?path (fst (?W ! j))" by simp
  qed
  have fine: "log_fine (ex_time k, t)" if "CHR ''%'' \<notin> set t" for k t using that by (simp add: log_fine_def ex_time_def)
  have "\<forall>x \<in> set (ls_done s). log_fine x" using s(3) fine [of "''one''" 0] by simp
  moreover have "spaced ?path 1 (ls_done s)" using s(3) by (simp add: spaced_def)
  moreover have "\<forall>x \<in> set (numbered (ex_time \<circ> Suc) 0 ([''two''] @ [''three''])). log_fine x" by (simp add: fine)
  ultimately have "\<exists>L' F'. log_loop (ex_time \<circ> Suc) 0 (ls_log s) (ls_files s) = Some (L', F') \<and>
      on_disk ''old'' ?n 1 (ls_done s @ numbered (ex_time \<circ> Suc) 0 ([''two''] @ [''three''])) F'"
    using log_keeps_lines [OF e(1,2,3) short(2) e(4,5) _ _ init s(1), of "[]" "[]" "ex_time \<circ> Suc" "[''two'']" "[''three'']"] s(2,5) sp [folded W]
    by auto
  then show ?thesis unfolding W using init s(1,3,4) by blast
qed

text \<open>C37: what a rotation does to the lines written so far: they are under the new path, where they replace
  what was there; if the rename fails (the directory of rotated files is the root directory if none is
  configured) they are lost; and if the file cannot be opened again the line that caused the rotation is undefined
  behaviour, for it is written to a NULL stream.\<close>

theorem log_rotation_loses:
  assumes "log_at L F n d m k c" "m < k" "k < 2 ^ 31 - 1" "CHR ''%'' \<notin> set t"
  shows "if \<not> le_open e then handleLog e t L F = None
    else \<exists>L' F'. handleLog e t L F = Some (L', F') \<and> log_at L' F' n d m 0 (log_line (e, t)) \<and>
      fl_files F' = (if le_rename e then (fl_files F)(rotate_path d n (le_tm e) \<mapsto> c, n \<mapsto> log_line (e, t))
                     else (fl_files F)(n \<mapsto> log_line (e, t)))"
proof (cases "le_open e \<and> le_rename e")
  case True
  with handleLog_rotate [OF assms(1,4,2,3), of e] assms(1) show ?thesis by (force simp: log_at_def)
next
  case False
  with assms show ?thesis
    by (auto simp: log_at_def handleLog_def logRotateFile_def Let_def fwrite_def printf1_plain log_line_def rename_file_def fopen_w_def)
qed

theorem log_rotation_loses_witness:
  "\<exists>L' F'. handleLog ((ex_time 0)\<lparr>le_rename := False\<rparr>) ''new''
      \<lparr>lg_handle = Some (OpenFile ''log''), lg_name = ''log'', lg_rotateDir = [], lg_maxLineNum = 0, lg_lineNum = 1,
       lg_state = 1, lg_queue = the (blockQueueCreate True True True 1), lg_exit = 1\<rparr>
      \<lparr>fl_files = [''log'' \<mapsto> ''all lines so far''], fl_out = []\<rparr> = Some (L', F') \<and>
    fl_files F' = [''log'' \<mapsto> log_line ((ex_time 0)\<lparr>le_rename := False\<rparr>, ''new'')]"
proof -
  let ?L = "\<lparr>lg_handle = Some (OpenFile ''log''), lg_name = ''log'', lg_rotateDir = [], lg_maxLineNum = 0, lg_lineNum = 1,
       lg_state = 1, lg_queue = the (blockQueueCreate True True True 1), lg_exit = 1\<rparr> :: syslog"
  let ?F = "\<lparr>fl_files = [''log'' \<mapsto> ''all lines so far''], fl_out = []\<rparr>"
  have "log_at ?L ?F ''log'' [] 0 1 ''all lines so far''" by (simp add: log_at_def E_LOG_FILE_def)
  from log_rotation_loses [OF this, of "''new''" "(ex_time 0)\<lparr>le_rename := False\<rparr>"] show ?thesis
    by (auto simp: ex_time_def)
qed

text \<open>A percent sign in a line that is not one of a pair or before zu or lu: printf looks for an argument that is
  not there or of another type.\<close>

lemma printf1_percent:
  assumes "CHR ''%'' \<notin> set s" "d \<noteq> CHR ''%''" "d \<noteq> CHR ''z''" "d \<noteq> CHR ''l''"
  shows "printf1 (s @ CHR ''%'' # d # r) a = None"
  using assms(1)
proof (induction s)
  case Nil
  then show ?case using assms(2-4) by (simp split: list.split option.split)
next
  case (Cons b s)
  then have "b \<noteq> CHR ''%''" by auto
  then show ?case using Cons by simp
qed

lemma handleLog_percent:
  "printf1 t (Some (length t)) = None \<Longrightarrow> handleLog e t L F = None"
  by (auto simp: handleLog_def split: option.split)

subsection \<open>The module and the framework\<close>

text \<open>The framework's log with the fields of the module's logger.\<close>

definition as_syslog :: "syslog \<Rightarrow> logger \<Rightarrow> syslog" where
  "as_syslog L I = L\<lparr>lg_handle := lo_handle I, lg_name := lo_name I, lg_rotateDir := lo_rotateDir I, lg_maxLineNum := lo_maxLineNum I,
     lg_lineNum := lo_lineNum I, lg_state := if lo_close I then E_LOG_FILE else E_LOG_STDOUT\<rparr>"

text \<open>The two functions are the same under \<open>as_syslog\<close>.\<close>

lemma logger_as_syslog:
  "logRotateFile e (as_syslog L I) F = map_option (\<lambda>r. (as_syslog L (fst r), snd r)) (rotateFile e I F)"
  by (cases L, cases I) (simp add: as_syslog_def logRotateFile_def rotateFile_def E_LOG_FILE_def E_LOG_STDOUT_def Let_def)

lemma dec_no_blank: "set (dec_int i) \<inter> set blanks = {}"
proof -
  have "\<not> isdigit c \<and> c \<noteq> CHR ''-''" if "c \<in> set blanks" for c using that by (auto simp: blanks_def isdigit_def)
  then show ?thesis using dec_nat_digits(1) by (auto simp: dec_int_def)
qed

lemma strsep_end: "set s \<inter> set delim = {} \<Longrightarrow> strsep (Some s) delim = (Some s, None)"
proof -
  assume "set s \<inter> set delim = {}"
  then have "\<forall>c \<in> set s. c \<notin> set delim" by auto
  then show ?thesis by (simp add: strsep_def takeWhile_eq_all_conv [THEN iffD2] dropWhile_eq_Nil_conv [THEN iffD2])
qed

text \<open>C38: the module gets name, count and directory as its parameter says, starts a new file, and writes a message
  as it is, a percent sign included, behind time, sender and level.\<close>

theorem logger_module:
  assumes "name \<noteq> []" "set name \<inter> set blanks = {}" "length name < FILENAME_MAX" "set dir \<inter> set blanks = {}" "length dir < FILENAME_MAX"
    and "0 \<le> m" "m < 2 ^ 31" "unat (mtype AND 0xFFFF) < 6"
  shows "\<exists>I F1 I' F2. loggerInit True (Some (name @ '' '' @ dec_int m @ '' '' @ dir)) loggerCreate F = Some (0, I, F1) \<and>
    lo_maxLineNum I = m \<and> lo_rotateDir I = dir \<and> logger_cb e sender mtype payload I F1 = Some (I', F2) \<and> lo_lineNum I' = 1 \<and>
    fl_files F2 = (fl_files F)(name \<mapsto> time_text (le_tm e) (le_usec e) @ ''['' @ dec_int (sint sender) @ ''][''
      @ sLevelMsg ! unat (mtype AND 0xFFFF) @ '']'' @ payload @ [CHR 0x0A])"
proof -
  obtain c cs where name: "name = c # cs" using assms(1) by (cases name) auto
  have bl: "CHR '' '' \<in> set blanks" by (simp add: blanks_def)
  have 1: "strsep (Some (name @ '' '' @ dec_int m @ '' '' @ dir)) blanks = (Some name, Some (dec_int m @ '' '' @ dir))"
    using strsep_at [of name blanks "CHR '' ''"] assms(2) bl by auto
  have 2: "strsep (Some (dec_int m @ CHR '' '' # dir)) blanks = (Some (dec_int m), Some dir)"
    using strsep_at [of "dec_int m" blanks "CHR '' ''"] dec_no_blank [of m] bl by auto
  have 3: "strsep (Some dir) blanks = (Some dir, None)" by (rule strsep_end [OF assms(4)])
  have 4: "to_int (fst (strtol (dec_int m))) = m" using strtol_dec_int(1) [of m "[]"] to_int_id [of m] assms(6,7) by simp
  let ?I = "loggerCreate\<lparr>lo_name := name, lo_rotateDir := dir, lo_maxLineNum := m, lo_handle := Some (OpenFile name), lo_close := True\<rparr>"
  let ?F = "F\<lparr>fl_files := (fl_files F)(name \<mapsto> [])\<rparr>"
  have "loggerInit True (Some (name @ '' '' @ dec_int m @ '' '' @ dir)) loggerCreate F = Some (0, ?I, ?F)"
    using assms(3,5) 1 by (simp add: loggerInit_def name 2 3 4 fopen_w_def Let_def)
  moreover have "logger_cb e sender mtype payload ?I ?F = Some (?I\<lparr>lo_lineNum := 1\<rparr>, F\<lparr>fl_files := (fl_files F)(name \<mapsto>
      time_text (le_tm e) (le_usec e) @ ''['' @ dec_int (sint sender) @ ''][''
      @ sLevelMsg ! unat (mtype AND 0xFFFF) @ '']'' @ payload @ [CHR 0x0A])\<rparr>)"
    using assms(6,8) by (simp add: logger_cb_def rotateFile_def loggerCreate_def fwrite_def Let_def)
  ultimately show ?thesis by (intro exI conjI) (assumption | simp)+
qed

theorem logger_module_witness:
  "\<exists>I F1 I' F2. loggerInit True (Some (''game.log'' @ '' '' @ dec_int 500 @ '' '' @ ''old'')) loggerCreate ex_files = Some (0, I, F1) \<and>
    lo_maxLineNum I = 500 \<and> lo_rotateDir I = ''old'' \<and> logger_cb (ex_time 0) 7 2 ''100%'' I F1 = Some (I', F2) \<and> lo_lineNum I' = 1 \<and>
    fl_files F2 = (fl_files ex_files)(''game.log'' \<mapsto> time_text (le_tm (ex_time 0)) (le_usec (ex_time 0)) @ ''['' @ dec_int (sint (7 :: u32)) @ ''][''
      @ sLevelMsg ! unat (2 AND 0xFFFF :: u32) @ '']'' @ ''100%'' @ [CHR 0x0A])"
  by (rule logger_module) (simp_all add: blanks_def FILENAME_MAX_def)

end
