(* ===== verification/DictIter.thy ===== *)
theory DictIter
  imports Dict
begin

section \<open>Iterators, replacing and clearing (src/dict.c)\<close>

text \<open>
  An iterator walks over the buckets of both tables. It remembers the entry it has delivered and the
  one behind it, so that the former may be deleted; a safe iterator counts itself in
  \<open>d_iterators\<close>, which keeps the operations from moving buckets, and an unsafe one compares a
  fingerprint of the table at its release.

  A pointer to an entry is the key of the entry: keys are distinct, and the entry
  is found wherever it is, also after it has been moved. A pointer to an entry that has been freed
  has no entry, and following it is \<open>None\<close>. The addresses of the two arrays, which the fingerprint
  contains, are an argument.
\<close>

subsection \<open>Replacing\<close>

text \<open>The value of the entry with the key \<open>k\<close> is overwritten.\<close>

definition ht_set :: "'k \<Rightarrow> 'v \<Rightarrow> ('k, 'v) dictht \<Rightarrow> ('k, 'v) dictht" where
  "ht_set k v ht = ht\<lparr>ht_table := map_option (map (map (\<lambda>e. if fst e = k then (k, v) else e))) (ht_table ht)\<rparr>"

definition dictSetVal :: "('k, 'v) dict \<Rightarrow> 'k \<Rightarrow> 'v \<Rightarrow> ('k, 'v) dict" where
  "dictSetVal d k v = d\<lparr>d_ht0 := ht_set k v (d_ht0 d), d_ht1 := ht_set k v (d_ht1 d)\<rparr>"

text \<open>The first component is the result: whether the key is new.\<close>

definition dictReplace :: "bool \<Rightarrow> 'k dictType \<Rightarrow> ('k, 'v) dict \<Rightarrow> 'k \<Rightarrow> 'v \<Rightarrow> (bool \<times> ('k, 'v) dict) option" where
  "dictReplace cr ty d0 k v =
     (case dictAdd cr ty d0 k v of
        None \<Rightarrow> None
      | Some (True, d) \<Rightarrow> Some (True, d)
      | Some (False, d) \<Rightarrow>
          (case dictFind ty d k of
             None \<Rightarrow> None
           | Some (None, d') \<Rightarrow> None
           | Some (Some e, d') \<Rightarrow> Some (False, dictSetVal d' (fst e) v)))"

text \<open>dictReplaceRaw: the entry of the key, with the value \<open>v\<close> to be filled in if it is new.\<close>

definition dictReplaceRaw :: "bool \<Rightarrow> 'k dictType \<Rightarrow> ('k, 'v) dict \<Rightarrow> 'k \<Rightarrow> 'v \<Rightarrow> (('k \<times> 'v) option \<times> ('k, 'v) dict) option" where
  "dictReplaceRaw cr ty d k v =
     (case dictFind ty d k of
        None \<Rightarrow> None
      | Some (Some e, d') \<Rightarrow> Some (Some e, d')
      | Some (None, d') \<Rightarrow> map_option (\<lambda>r. (if fst r then Some (k, v) else None, snd r)) (dictAddRaw cr ty d' k v))"

subsection \<open>Clearing\<close>

text \<open>The entries the loop frees, for the buckets from \<open>i\<close> on and \<open>used\<close> entries left.\<close>

fun clear_loop :: "('k \<times> 'v) list list \<Rightarrow> nat \<Rightarrow> ('k \<times> 'v) list" where
  "clear_loop [] used = []"
| "clear_loop (c # cs) used = (if used > 0 then c @ clear_loop cs (used - length c) else [])"

definition dictClear :: "('k, 'v) dictht \<Rightarrow> ('k \<times> 'v) list \<times> ('k, 'v) dictht" where
  "dictClear ht = (clear_loop (take (ht_size ht) (case ht_table ht of None \<Rightarrow> [] | Some t \<Rightarrow> t)) (ht_used ht), dictReset)"

definition dictEmpty :: "('k, 'v) dict \<Rightarrow> ('k \<times> 'v) list \<times> ('k, 'v) dict" where
  "dictEmpty d =
     (let r0 = dictClear (d_ht0 d); r1 = dictClear (d_ht1 d)
      in (fst r0 @ fst r1, d\<lparr>d_ht0 := snd r0, d_ht1 := snd r1, d_rehashidx := - 1, d_iterators := 0\<rparr>))"

text \<open>dictRelease clears the tables and frees the struct: what it frees.\<close>

definition dictRelease :: "('k, 'v) dict \<Rightarrow> ('k \<times> 'v) list" where
  "dictRelease d = fst (dictClear (d_ht0 d)) @ fst (dictClear (d_ht1 d))"

lemma clear_loop_all: "clear_loop cs (length (concat cs)) = concat cs"
proof (induction cs)
  case (Cons c cs)
  show ?case
  proof (cases "length (concat (c # cs)) > 0")
    case True
    then show ?thesis using Cons.IH by simp
  next
    case False
    then show ?thesis by simp
  qed
qed simp

lemma dictClear_ok: "ht_ok ty ht \<Longrightarrow> dictClear ht = (concat (ht_chains ht), dictReset)"
  by (auto simp: dictClear_def ht_ok_def ht_chains_def clear_loop_all split: option.splits)

text \<open>dictEmpty frees every entry and leaves a table as dictCreate makes it.\<close>

lemma dict_empty: "dict_ok ty d \<Longrightarrow> dictEmpty d = (dict_list d, dictCreate)"
  by (simp add: dictEmpty_def dictClear_ok [of ty] dict_ok_def dict_list_def dictCreate_def Let_def)

lemma dict_release: "dict_ok ty d \<Longrightarrow> dictRelease d = dict_list d"
  by (simp add: dictRelease_def dictClear_ok [of ty] dict_ok_def dict_list_def)

subsection \<open>Iterators\<close>

record 'k dictIterator =
  it_table :: nat
  it_index :: int
  it_safe :: bool
  it_entry :: "'k option"
  it_nextEntry :: "'k option"
  it_fingerprint :: u64

text \<open>The integers are long long: the shifts to the right keep the sign; sums are taken modulo \<open>2 ^ 64\<close>.\<close>

definition mix64 :: "u64 \<Rightarrow> u64" where
  "mix64 h0 =
     (let h1 = NOT h0 + push_bit 21 h0;
          h2 = h1 XOR signed_drop_bit 24 h1;
          h3 = (h2 + push_bit 3 h2) + push_bit 8 h2;
          h4 = h3 XOR signed_drop_bit 14 h3;
          h5 = (h4 + push_bit 2 h4) + push_bit 4 h4;
          h6 = h5 XOR signed_drop_bit 28 h5
      in h6 + push_bit 31 h6)"

definition dictFingerprint :: "u64 \<times> u64 \<Rightarrow> ('k, 'v) dict \<Rightarrow> u64" where
  "dictFingerprint a d =
     foldl (\<lambda>h i. mix64 (h + i)) 0
       [fst a, of_nat (ht_size (d_ht0 d)), of_nat (ht_used (d_ht0 d)), snd a, of_nat (ht_size (d_ht1 d)), of_nat (ht_used (d_ht1 d))]"

definition dictGetIterator :: "'k dictIterator" where
  "dictGetIterator = \<lparr>it_table = 0, it_index = - 1, it_safe = False, it_entry = None, it_nextEntry = None, it_fingerprint = 0\<rparr>"

definition dictGetSafeIterator :: "'k dictIterator" where
  "dictGetSafeIterator = dictGetIterator\<lparr>it_safe := True\<rparr>"

definition first_key :: "('k \<times> 'v) list \<Rightarrow> 'k option" where
  "first_key es = (case es of [] \<Rightarrow> None | e # _ \<Rightarrow> Some (fst e))"

definition cells :: "('k, 'v) dict \<Rightarrow> ('k \<times> 'v) list list" where
  "cells d = ht_chains (d_ht0 d) @ ht_chains (d_ht1 d)"

text \<open>\<open>entry->next\<close> of the entry with the key \<open>k\<close>.\<close>

fun behind :: "'k \<Rightarrow> ('k \<times> 'v) list \<Rightarrow> 'k option" where
  "behind k [] = None"
| "behind k (e # es) = (if fst e = k then first_key es else behind k es)"

definition entry_next :: "('k, 'v) dict \<Rightarrow> 'k \<Rightarrow> 'k option option" where
  "entry_next d k = map_option (behind k) (find (\<lambda>c. k \<in> fst ` set c) (cells d))"

text \<open>The loop of dictNext; \<open>ht->table[iter->index]\<close> is the head of a chain.\<close>

partial_function (option) next_loop ::
    "u64 \<times> u64 \<Rightarrow> 'k dictIterator \<Rightarrow> ('k, 'v) dict \<Rightarrow> ('k option \<times> 'k dictIterator \<times> ('k, 'v) dict) option" where
  "next_loop a it d =
     (case it_entry it of
        None \<Rightarrow>
          (let begun = (it_index it = - 1 \<and> it_table it = 0);
               d1 = (if begun \<and> it_safe it then d\<lparr>d_iterators := d_iterators d + 1\<rparr> else d);
               it1 = (if begun \<and> \<not> it_safe it then it\<lparr>it_fingerprint := dictFingerprint a d\<rparr> else it);
               ht = (if it_table it = 0 then d_ht0 d else d_ht1 d);
               it2 = it1\<lparr>it_index := it_index it + 1\<rparr>;
               over = (it_index it + 1 \<ge> sint (of_nat (ht_size ht) :: u32))
           in if over \<and> \<not> (dictIsRehashing d \<and> it_table it = 0) then Some (None, it2, d1)
              else let it3 = (if over then it2\<lparr>it_table := it_table it + 1, it_index := 0\<rparr> else it2);
                       ht3 = (if over then d_ht1 d else ht)
                   in if nat (it_index it3) < length (ht_chains ht3)
                      then (case ht_chains ht3 ! nat (it_index it3) of
                              [] \<Rightarrow> next_loop a it3 d1
                            | e # es \<Rightarrow> Some (Some (fst e), it3\<lparr>it_entry := Some (fst e), it_nextEntry := first_key es\<rparr>, d1))
                      else None)
      | Some k \<Rightarrow>
          (case it_nextEntry it of
             None \<Rightarrow> next_loop a (it\<lparr>it_entry := None\<rparr>) d
           | Some n \<Rightarrow>
               map_option (\<lambda>m. (Some n, it\<lparr>it_entry := Some n, it_nextEntry := m\<rparr>, d)) (entry_next d n)))"

definition dictNext ::
    "u64 \<times> u64 \<Rightarrow> 'k dictIterator \<Rightarrow> ('k, 'v) dict \<Rightarrow> ('k option \<times> 'k dictIterator \<times> ('k, 'v) dict) option" where
  "dictNext a it d = next_loop a it d"

text \<open>A failed assert is \<open>None\<close>.\<close>

definition dictReleaseIterator :: "u64 \<times> u64 \<Rightarrow> 'k dictIterator \<Rightarrow> ('k, 'v) dict \<Rightarrow> ('k, 'v) dict option" where
  "dictReleaseIterator a it d =
     (if \<not> (it_index it = - 1 \<and> it_table it = 0) then
        (if it_safe it then Some (d\<lparr>d_iterators := d_iterators d - 1\<rparr>)
         else if it_fingerprint it = dictFingerprint a d then Some d else None)
      else Some d)"

subsection \<open>A random entry\<close>

text \<open>
  \<open>r i\<close> is the \<open>i\<close>-th value of random(), a non-negative long. The loop looks for a bucket that is
  not empty; \<open>bucket\<close> is where a random value leads to.
\<close>

definition bucket :: "('k, 'v) dict \<Rightarrow> nat \<Rightarrow> ('k \<times> 'v) list option" where
  "bucket d x =
     (if dictIsRehashing d
      then (let h = x mod (ht_size (d_ht0 d) + ht_size (d_ht1 d))
            in if h \<ge> ht_size (d_ht0 d)
               then (if h - ht_size (d_ht0 d) < length (ht_chains (d_ht1 d)) then Some (ht_chains (d_ht1 d) ! (h - ht_size (d_ht0 d))) else None)
               else (if h < length (ht_chains (d_ht0 d)) then Some (ht_chains (d_ht0 d) ! h) else None))
      else (let h = x AND ht_sizemask (d_ht0 d)
            in if h < length (ht_chains (d_ht0 d)) then Some (ht_chains (d_ht0 d) ! h) else None))"

partial_function (option) random_bucket :: "(nat \<Rightarrow> nat) \<Rightarrow> nat \<Rightarrow> ('k, 'v) dict \<Rightarrow> (('k \<times> 'v) list \<times> nat) option" where
  "random_bucket r i d =
     (case bucket d (r i) of
        None \<Rightarrow> None
      | Some c \<Rightarrow> if c = [] then random_bucket r (Suc i) d else Some (c, Suc i))"

definition dictGetRandomKey ::
    "'k dictType \<Rightarrow> (nat \<Rightarrow> nat) \<Rightarrow> ('k, 'v) dict \<Rightarrow> (('k \<times> 'v) option \<times> ('k, 'v) dict) option" where
  "dictGetRandomKey ty r d0 =
     (if dictSize d0 = 0 then Some (None, d0)
      else (case step_if_rehashing ty d0 of
              None \<Rightarrow> None
            | Some d \<Rightarrow> map_option (\<lambda>x. (Some (fst x ! (r (snd x) mod length (fst x))), d)) (random_bucket r 0 d)))"

subsection \<open>Keys and chains\<close>

definition keys :: "('k, 'v) dict \<Rightarrow> 'k list" where
  "keys d = map fst (concat (cells d))"

lemma concat_cells: "concat (cells d) = dict_list d"
  by (simp add: cells_def dict_list_def)

lemma behind_at: "k \<notin> fst ` set pre \<Longrightarrow> behind k (pre @ (k, v) # post) = first_key post"
  by (induction pre) auto

lemma find_chain:
  assumes "distinct (map fst (concat cs))" "p < length cs" "k \<in> fst ` set (cs ! p)"
  shows "find (\<lambda>c. k \<in> fst ` set c) cs = Some (cs ! p)"
  using assms
proof (induction cs arbitrary: p)
  case (Cons c cs)
  show ?case
  proof (cases p)
    case 0
    then show ?thesis using Cons.prems by simp
  next
    case (Suc q)
    then have "k \<in> fst ` set (concat cs)" using Cons.prems(2,3) by (auto intro: image_eqI bexI nth_mem)
    then have "k \<notin> fst ` set c" using Cons.prems(1) by (auto simp: image_Un)
    then show ?thesis using Cons.IH [of q] Cons.prems Suc by simp
  qed
qed simp

text \<open>\<open>at_cell it q d\<close>: the next bucket the iterator looks at is the one with the number \<open>q\<close>.\<close>

definition at_cell :: "'k dictIterator \<Rightarrow> nat \<Rightarrow> ('k, 'v) dict \<Rightarrow> bool" where
  "at_cell it q d \<longleftrightarrow>
     it_table it = 0 \<and> it_index it = int q - 1 \<and> q \<le> length (ht_chains (d_ht0 d)) \<or>
     it_table it = 1 \<and> it_index it = int q - 1 - int (length (ht_chains (d_ht0 d))) \<and> length (ht_chains (d_ht0 d)) < q \<and> dictIsRehashing d"

text \<open>A table whose number of buckets is an int.\<close>

definition small :: "('k, 'v) dict \<Rightarrow> bool" where
  "small d \<longleftrightarrow> ht_size (d_ht0 d) < 2 ^ 31 \<and> ht_size (d_ht1 d) < 2 ^ 31"

text \<open>What the first call does besides.\<close>

definition begun :: "'k dictIterator \<Rightarrow> bool" where
  "begun it \<longleftrightarrow> \<not> (it_index it = - 1 \<and> it_table it = 0)"

definition enter_dict :: "'k dictIterator \<Rightarrow> ('k, 'v) dict \<Rightarrow> ('k, 'v) dict" where
  "enter_dict it d = (if \<not> begun it \<and> it_safe it then d\<lparr>d_iterators := d_iterators d + 1\<rparr> else d)"

definition enter_it :: "u64 \<times> u64 \<Rightarrow> 'k dictIterator \<Rightarrow> ('k, 'v) dict \<Rightarrow> 'k dictIterator" where
  "enter_it a it d = (if \<not> begun it \<and> \<not> it_safe it then it\<lparr>it_fingerprint := dictFingerprint a d\<rparr> else it)"

text \<open>What dictNext delivers when the entries \<open>rest\<close> are still to come, on the table \<open>d\<close>.\<close>

definition delivers :: "('k, 'v) dict \<Rightarrow> bool \<Rightarrow> u64 \<Rightarrow> ('k \<times> 'v) list \<Rightarrow>
    ('k option \<times> 'k dictIterator \<times> ('k, 'v) dict) option \<Rightarrow> bool" where
  "delivers d safe f rest res =
     (case rest of
        [] \<Rightarrow> \<exists>it'. res = Some (None, it', d) \<and> begun it' \<and> it_safe it' = safe \<and> it_fingerprint it' = f
      | e # rest' \<Rightarrow> \<exists>it' p pre post. res = Some (Some (fst e), it', d) \<and> begun it' \<and> it_safe it' = safe \<and>
          it_fingerprint it' = f \<and> at_cell it' (Suc p) d \<and> p < length (cells d) \<and> cells d ! p = pre @ e # post \<and>
          it_entry it' \<noteq> None \<and> it_nextEntry it' = first_key post \<and> rest' = post @ concat (drop (Suc p) (cells d)))"

lemma chains_size: "ht_ok ty ht \<Longrightarrow> length (ht_chains ht) = ht_size ht"
  by (auto simp: ht_ok_def ht_chains_def split: option.splits)

context dict_type
begin

lemma uniq_distinct: "uniq ty (mset es) \<Longrightarrow> distinct (map fst es)"
proof (induction es)
  case (Cons e es)
  have "\<not> keyCompare ty (fst e) (fst f)" if "f \<in> set es" for f using uniq_add_msetD [of e "mset es" f] Cons.prems that by simp
  then have "fst e \<notin> fst ` set es" using cmp_refl by (metis imageE)
  moreover have "uniq ty (mset es)" using uniq_sub [OF Cons.prems] by simp
  ultimately show ?case using Cons.IH by simp
qed simp

lemma dict_distinct: "dict_ok ty d \<Longrightarrow> distinct (map fst (concat (cells d)))"
  by (simp add: concat_cells uniq_distinct dict_ok_def)

lemma entry_next_at:
  assumes "dict_ok ty d" "p < length (cells d)" "cells d ! p = pre @ (k, v) # post"
  shows "entry_next d k = Some (first_key post)"
proof -
  have "find (\<lambda>c. k \<in> fst ` set c) (cells d) = Some (cells d ! p)"
    by (rule find_chain [OF dict_distinct [OF assms(1)] assms(2)]) (simp add: assms(3))
  moreover have "distinct (map fst (cells d ! p))"
    using dict_distinct [OF assms(1)] assms(2) by (metis distinct_concat_iff map_concat nth_map nth_mem length_map)
  then have "k \<notin> fst ` set pre" by (auto simp: assms(3))
  ultimately show ?thesis by (simp add: entry_next_def assms(3) behind_at)
qed

lemma chain_unlink_at:
  assumes "uniq ty (mset (pre @ e # post))"
  shows "chain_unlink ty (fst e) (pre @ e # post) = pre @ post" "chain_find ty (fst e) (pre @ e # post) = Some e"
proof -
  have "\<not> keyCompare ty (fst e) (fst f)" if "f \<in> set pre" for f
    using uniq_add_msetD [of e "mset (pre @ post)" f] assms that by simp
  then show "chain_unlink ty (fst e) (pre @ e # post) = pre @ post" using cmp_refl by (induction pre) auto
  show "chain_find ty (fst e) (pre @ e # post) = Some e" using chain_find_eq_Some [OF assms] cmp_refl by simp
qed

text \<open>Deleting an entry while an iterator is active takes exactly that entry out of its chain.\<close>

lemma delete_cell:
  assumes ok: "dict_ok ty d" and p: "p < length (cells d)" and c: "cells d ! p = pre @ e # post" and it: "d_iterators d \<noteq> 0"
  shows "\<exists>d'. dictDelete ty d (fst e) = Some (True, d') \<and> dict_ok ty d' \<and> cells d' = (cells d)[p := pre @ post] \<and>
    d_iterators d' = d_iterators d \<and> dictIsRehashing d' = dictIsRehashing d \<and>
    ht_size (d_ht0 d') = ht_size (d_ht0 d) \<and> ht_size (d_ht1 d') = ht_size (d_ht1 d) \<and>
    length (ht_chains (d_ht0 d')) = length (ht_chains (d_ht0 d))"
proof -
  have o: "ht_ok ty (d_ht0 d)" "ht_ok ty (d_ht1 d)" "uniq ty (mset (dict_list d))" using ok by (simp_all add: dict_ok_def)
  have "e \<in> set (concat (cells d))" using p c by (metis UN_I in_set_conv_decomp nth_mem set_concat)
  then have e: "e \<in> set (dict_list d)" by (simp add: concat_cells)
  then have found: "chain_find ty (fst e) (dict_list d) = Some e" using chain_find_eq_Some [OF o(3)] cmp_refl by simp
  obtain t0 where t0: "ht_table (d_ht0 d) = Some t0"
    using ok e by (cases "ht_table (d_ht0 d)") (auto simp: dict_ok_def dict_list_def ht_chains_def split: if_splits)
  have size: "ht_size (d_ht0 d) \<noteq> 0" using ht_table_None [OF o(1)] t0 by auto
  have "step_if_rehashing ty d = Some d" using it by (simp add: step_if_rehashing_def dictRehashStep_def)
  then have del: "dictDelete ty d (fst e) = delete_in ty (fst e) d" using size by (simp add: dictDelete_def dictGenericDelete_def)
  obtain d' where d': "delete_in ty (fst e) d = Some (True, d')" "dict_ok ty d'" using delete_in_ok [OF ok t0, of "fst e"] found by auto
  let ?i = "dictHashKey ty (fst e) AND ht_sizemask (d_ht0 d)"
  have i: "?i < length t0" by (rule and_mask_less [OF o(1) t0])
  have sub: "uniq ty (mset c')" if "mset c' \<subseteq># mset (dict_list d)" for c' by (rule uniq_sub [OF o(3) that])
  have uc: "uniq ty (mset (pre @ e # post))"
  proof (rule sub)
    show "mset (pre @ e # post) \<subseteq># mset (dict_list d)"
      unfolding concat_cells [symmetric] concat_split [OF p] c by (simp add: mset_subset_eq_add_left)
  qed
  show ?thesis
  proof (cases "p < length t0")
    case True
    then have cp: "t0 ! p = pre @ e # post" using c t0 by (simp add: cells_def ht_chains_def nth_append)
    then have "?i = p" using ht_okD(5) [OF o(1) t0 True, of e] by simp
    then have "d' = d\<lparr>d_ht0 := (d_ht0 d)\<lparr>ht_table := Some (t0[p := pre @ post]), ht_used := ht_used (d_ht0 d) - 1\<rparr>\<rparr>"
      using d'(1) t0 i cp chain_unlink_at [OF uc] by (simp add: delete_in_def ht_delete_def)
    then show ?thesis using d' del t0 True by (simp add: cells_def ht_chains_def list_update_append dictIsRehashing_def)
  next
    case False
    let ?q = "p - length t0"
    obtain t1 where t1: "ht_table (d_ht1 d) = Some t1" and re: "dictIsRehashing d"
      using p False ok t0 by (cases "ht_table (d_ht1 d)") (auto simp: dict_ok_def cells_def ht_chains_def split: if_splits)
    have q: "?q < length t1" using p False t0 t1 by (simp add: cells_def ht_chains_def)
    have cq: "t1 ! ?q = pre @ e # post" using c t0 t1 False by (simp add: cells_def ht_chains_def nth_append)
    then have j: "dictHashKey ty (fst e) AND ht_sizemask (d_ht1 d) = ?q" using ht_okD(5) [OF o(2) t1 q, of e] by simp
    have none: "chain_find ty (fst e) (t0 ! ?i) = None"
      unfolding chain_find_None
    proof (intro ballI notI)
      fix f
      assume f: "f \<in> set (t0 ! ?i)" and cmp: "keyCompare ty (fst e) (fst f)"
      have "f \<in> set (concat t0)" using f i by (metis UN_I nth_mem set_concat)
      moreover have "e \<in> set (concat t1)" using cq q by (metis UN_I in_set_conv_decomp nth_mem set_concat)
      moreover have "uniq ty (mset (concat t0) + mset (concat t1))" using o(3) t0 t1 by (simp add: dict_list_def ht_chains_def)
      ultimately have "f = e" using uniq_same [of "mset (concat t0) + mset (concat t1)" e f] cmp by auto
      moreover have "distinct (map fst (concat t0 @ concat t1))"
        using uniq_distinct [OF o(3)] by (simp only: dict_list_def ht_chains_def t0 t1 option.case)
      then have "fst ` set (concat t0) \<inter> fst ` set (concat t1) = {}" by (simp only: map_append distinct_append set_map)
      ultimately show False using \<open>f \<in> set (concat t0)\<close> \<open>e \<in> set (concat t1)\<close> by blast
    qed
    have "d' = d\<lparr>d_ht1 := (d_ht1 d)\<lparr>ht_table := Some (t1[?q := pre @ post]), ht_used := ht_used (d_ht1 d) - 1\<rparr>\<rparr>"
      using d'(1) t0 t1 i q cq j none re chain_unlink_at [OF uc] by (simp add: delete_in_def ht_delete_def Let_def)
    then show ?thesis using d' del t0 t1 False by (simp add: cells_def ht_chains_def list_update_append dictIsRehashing_def)
  qed
qed

lemma sizes:
  assumes "dict_ok ty d" "small d"
  shows "sint (of_nat (ht_size (d_ht0 d)) :: u32) = int (length (ht_chains (d_ht0 d)))"
    "sint (of_nat (ht_size (d_ht1 d)) :: u32) = int (length (ht_chains (d_ht1 d)))"
  using assms chains_size [of ty "d_ht0 d"] chains_size [of ty "d_ht1 d"] by (simp_all add: int_index small_def dict_ok_def)

lemma no_second: "dict_ok ty d \<Longrightarrow> \<not> dictIsRehashing d \<Longrightarrow> ht_chains (d_ht1 d) = []"
  by (simp add: dict_ok_def ht_chains_def)

lemma second: "dict_ok ty d \<Longrightarrow> dictIsRehashing d \<Longrightarrow> ht_chains (d_ht1 d) \<noteq> []"
proof -
  assume "dict_ok ty d" "dictIsRehashing d"
  then obtain t where "ht_table (d_ht1 d) = Some t" "ht_ok ty (d_ht1 d)" by (auto simp: dict_ok_def)
  then show ?thesis using ht_okD(1) [of "d_ht1 d" t] by (auto simp: ht_chains_def)
qed

lemma enter_simps [simp]:
  "d_ht0 (enter_dict it d) = d_ht0 d" "d_ht1 (enter_dict it d) = d_ht1 d" "d_rehashidx (enter_dict it d) = d_rehashidx d"
  "cells (enter_dict it d) = cells d" "dictIsRehashing (enter_dict it d) = dictIsRehashing d"
  by (simp_all add: enter_dict_def cells_def dictIsRehashing_def)

lemma enter_it_simps [simp]:
  "it_table (enter_it a it d) = it_table it" "it_index (enter_it a it d) = it_index it" "it_safe (enter_it a it d) = it_safe it"
  "it_entry (enter_it a it d) = it_entry it"
  by (simp_all add: enter_it_def)

lemma next_loop_None:
  assumes "it_entry it = None"
  shows "next_loop a it d =
    (let ht = (if it_table it = 0 then d_ht0 d else d_ht1 d);
         it2 = (enter_it a it d)\<lparr>it_index := it_index it + 1\<rparr>;
         over = (it_index it + 1 \<ge> sint (of_nat (ht_size ht) :: u32))
     in if over \<and> \<not> (dictIsRehashing d \<and> it_table it = 0) then Some (None, it2, enter_dict it d)
        else let it3 = (if over then it2\<lparr>it_table := it_table it + 1, it_index := 0\<rparr> else it2);
                 ht3 = (if over then d_ht1 d else ht)
             in if nat (it_index it3) < length (ht_chains ht3)
                then (case ht_chains ht3 ! nat (it_index it3) of
                        [] \<Rightarrow> next_loop a it3 (enter_dict it d)
                      | e # es \<Rightarrow> Some (Some (fst e), it3\<lparr>it_entry := Some (fst e), it_nextEntry := first_key es\<rparr>, enter_dict it d))
                else None)"
proof -
  have "(it_index it = - 1 \<and> it_table it = 0) = (\<not> begun it)" by (simp add: begun_def)
  then show ?thesis
    by (subst next_loop.simps) (simp only: assms option.case enter_it_def enter_dict_def Let_def)
qed

text \<open>One turn of the loop between two buckets.\<close>

lemma next_bucket:
  assumes ok: "dict_ok ty d" "small d" and at: "at_cell it q d" and e: "it_entry it = None" and q: "q < length (cells d)"
  shows "\<exists>it'. at_cell it' (Suc q) d \<and> begun it' \<and> it_entry it' = None \<and> it_safe it' = it_safe it \<and>
      it_fingerprint it' = it_fingerprint (enter_it a it d) \<and>
      next_loop a it d =
        (case cells d ! q of
           [] \<Rightarrow> next_loop a it' (enter_dict it d)
         | e # es \<Rightarrow> Some (Some (fst e), it'\<lparr>it_entry := Some (fst e), it_nextEntry := first_key es\<rparr>, enter_dict it d))"
proof (cases "it_table it = 0")
  case True
  then have at0: "it_index it = int q - 1" "q \<le> length (ht_chains (d_ht0 d))" using at by (auto simp: at_cell_def)
  show ?thesis
  proof (cases "q < length (ht_chains (d_ht0 d))")
    case less: True
    have c: "cells d ! q = ht_chains (d_ht0 d) ! q" using less by (simp add: cells_def nth_append)
    show ?thesis
      by (intro exI [of _ "(enter_it a it d)\<lparr>it_index := int q\<rparr>"])
        (use True less at0 e in \<open>simp add: next_loop_None Let_def sizes [OF ok] c at_cell_def begun_def\<close>)
  next
    case False
    then have q0: "q = length (ht_chains (d_ht0 d))" using at0 by simp
    then have re: "dictIsRehashing d" using q no_second [OF ok(1)] by (cases "dictIsRehashing d") (auto simp: cells_def)
    have c: "cells d ! length (ht_chains (d_ht0 d)) = ht_chains (d_ht1 d) ! 0" using second [OF ok(1) re] by (simp add: cells_def nth_append)
    show ?thesis
      by (intro exI [of _ "(enter_it a it d)\<lparr>it_table := 1, it_index := 0\<rparr>"])
        (use True q0 at0 e re second [OF ok(1) re] in \<open>cases "ht_chains (d_ht1 d) ! 0";
          simp add: next_loop_None Let_def sizes [OF ok] c at_cell_def begun_def\<close>)
  qed
next
  case False
  let ?n = "length (ht_chains (d_ht0 d))"
  have at1: "it_table it = 1" "it_index it = int q - 1 - int ?n" "?n < q" "dictIsRehashing d" using at False by (auto simp: at_cell_def)
  have c: "cells d ! q = ht_chains (d_ht1 d) ! (q - ?n)" "q - ?n < length (ht_chains (d_ht1 d))" "nat (int q - int ?n) = q - ?n"
    "\<not> int (length (ht_chains (d_ht1 d))) \<le> int q - int ?n"
    using at1(3) q by (auto simp: cells_def nth_append)
  show ?thesis
    by (intro exI [of _ "it\<lparr>it_index := int q - int ?n\<rparr>"])
      (use at1 c e in \<open>simp add: next_loop_None Let_def sizes [OF ok] at_cell_def begun_def enter_it_def\<close>)
qed

lemma next_end:
  assumes ok: "dict_ok ty d" "small d" and at: "at_cell it (length (cells d)) d" and e: "it_entry it = None"
  shows "\<exists>it'. begun it' \<and> it_safe it' = it_safe it \<and> it_fingerprint it' = it_fingerprint (enter_it a it d) \<and>
    next_loop a it d = Some (None, it', enter_dict it d)"
proof (cases "dictIsRehashing d")
  case True
  have "it_table it = 1" "it_index it = int (length (ht_chains (d_ht1 d))) - 1"
    using at second [OF ok(1) True] by (auto simp: at_cell_def cells_def)
  then show ?thesis using True e
    by (intro exI [of _ "it\<lparr>it_index := int (length (ht_chains (d_ht1 d)))\<rparr>"])
      (simp add: next_loop_None Let_def sizes [OF ok] begun_def enter_it_def)
next
  case False
  have "it_table it = 0" "it_index it = int (length (ht_chains (d_ht0 d))) - 1"
    using at no_second [OF ok(1) False] False by (auto simp: at_cell_def cells_def)
  then show ?thesis using False e
    by (intro exI [of _ "(enter_it a it d)\<lparr>it_index := int (length (ht_chains (d_ht0 d)))\<rparr>"])
      (simp add: next_loop_None Let_def sizes [OF ok] begun_def enter_it_def)
qed

lemma ok_iterators: "dict_ok ty d \<Longrightarrow> dict_ok ty (d\<lparr>d_iterators := n\<rparr>)"
  unfolding dict_ok_def dict_list_def dictIsRehashing_def by simp

lemma begun_enter: "begun it \<Longrightarrow> enter_it a it d = it" "begun it \<Longrightarrow> enter_dict it d = d"
  by (simp_all add: enter_it_def enter_dict_def)

lemma delivers_cell:
  assumes "at_cell it' (Suc q) d" "begun it'" "cells d ! q = e # es" "q < length (cells d)"
  shows "delivers d (it_safe it') (it_fingerprint it') (concat (drop q (cells d)))
    (Some (Some (fst e), it'\<lparr>it_entry := Some (fst e), it_nextEntry := first_key es\<rparr>, d))"
proof -
  have l: "concat (drop q (cells d)) = e # es @ concat (drop (Suc q) (cells d))" using assms(3,4) by (simp flip: Cons_nth_drop_Suc)
  show ?thesis unfolding delivers_def l list.case
    by (intro exI [of _ "it'\<lparr>it_entry := Some (fst e), it_nextEntry := first_key es\<rparr>"] exI [of _ q] exI [of _ "[]"] exI [of _ es])
      (use assms in \<open>simp add: at_cell_def begun_def\<close>)
qed

lemma next_begun:
  assumes ok: "dict_ok ty d" "small d"
  shows "at_cell it q d \<Longrightarrow> it_entry it = None \<Longrightarrow> q \<le> length (cells d) \<Longrightarrow> begun it \<Longrightarrow>
    delivers d (it_safe it) (it_fingerprint it) (concat (drop q (cells d))) (next_loop a it d)"
proof (induction "length (cells d) - q" arbitrary: q it)
  case 0
  then have q: "q = length (cells d)" by simp
  obtain it' where "begun it'" "it_safe it' = it_safe it" "it_fingerprint it' = it_fingerprint (enter_it a it d)"
    "next_loop a it d = Some (None, it', enter_dict it d)" using next_end [OF ok _ 0(3), of a] 0(2) q by blast
  then show ?case using q by (simp add: delivers_def begun_enter [OF 0(5)])
next
  case (Suc n)
  then have q: "q < length (cells d)" by simp
  note en = begun_enter [OF Suc.prems(4)]
  obtain it' where it': "at_cell it' (Suc q) d" "begun it'" "it_entry it' = None" "it_safe it' = it_safe it"
    "it_fingerprint it' = it_fingerprint it" "next_loop a it d =
        (case cells d ! q of
           [] \<Rightarrow> next_loop a it' d
         | e # es \<Rightarrow> Some (Some (fst e), it'\<lparr>it_entry := Some (fst e), it_nextEntry := first_key es\<rparr>, d))"
    using next_bucket [OF ok Suc.prems(1,2) q, of a] unfolding en by blast
  show ?case
  proof (cases "cells d ! q")
    case Nil
    have "delivers d (it_safe it') (it_fingerprint it') (concat (drop (Suc q) (cells d))) (next_loop a it' d)"
      using Suc.hyps(1) [of "Suc q" it'] Suc.hyps(2) it'(1,2,3) q by simp
    then show ?thesis using it'(4-6) Nil q by (simp flip: Cons_nth_drop_Suc)
  next
    case (Cons e es)
    then show ?thesis using delivers_cell [OF it'(1,2) Cons q] it'(4-6) by simp
  qed
qed

text \<open>The first call.\<close>

lemma next_first:
  assumes ok: "dict_ok ty d" "small d" and it: "it = dictGetIterator \<or> it = dictGetSafeIterator"
    and d1: "d1 = (if it_safe it then d\<lparr>d_iterators := d_iterators d + 1\<rparr> else d)"
    and f: "f = (if it_safe it then 0 else dictFingerprint a d)"
  shows "delivers d1 (it_safe it) f (dict_list d) (next_loop a it d)"
proof -
  have it0: "at_cell it 0 d" "it_entry it = None" "\<not> begun it" "it_fingerprint (enter_it a it d) = f" "enter_dict it d = d1"
    using it d1 f by (auto simp: dictGetIterator_def dictGetSafeIterator_def at_cell_def begun_def enter_it_def enter_dict_def)
  have ok1: "dict_ok ty d1" "small d1" "cells d1 = cells d" "\<And>i q. at_cell i q d1 = at_cell i q d"
    using ok ok_iterators [OF ok(1)] by (simp_all add: d1 small_def cells_def at_cell_def dictIsRehashing_def)
  show ?thesis
  proof (cases "cells d = []")
    case True
    obtain it' where "begun it'" "it_safe it' = it_safe it" "it_fingerprint it' = f" "next_loop a it d = Some (None, it', d1)"
      using next_end [OF ok _ it0(2), of a] it0(1,4,5) True by auto
    then show ?thesis using True by (simp add: delivers_def flip: concat_cells)
  next
    case False
    then have q: "0 < length (cells d)" by simp
    obtain it' where it': "at_cell it' (Suc 0) d" "begun it'" "it_entry it' = None" "it_safe it' = it_safe it" "it_fingerprint it' = f"
      "next_loop a it d = (case cells d ! 0 of
           [] \<Rightarrow> next_loop a it' d1
         | e # es \<Rightarrow> Some (Some (fst e), it'\<lparr>it_entry := Some (fst e), it_nextEntry := first_key es\<rparr>, d1))"
      using next_bucket [OF ok it0(1,2) q, of a] unfolding it0(4,5) by blast
    have l: "dict_list d = concat (drop 0 (cells d1))" by (simp add: ok1(3) concat_cells)
    show ?thesis
    proof (cases "cells d ! 0")
      case Nil
      have "delivers d1 (it_safe it') (it_fingerprint it') (concat (drop (Suc 0) (cells d1))) (next_loop a it' d1)"
        using next_begun [OF ok1(1,2), of it' "Suc 0" a] it'(1-3) q by (simp add: ok1(3,4))
      moreover have "dict_list d = concat (drop (Suc 0) (cells d1))"
        using Nil q Cons_nth_drop_Suc [OF q] by (metis append_Nil concat.simps(2) l ok1(3))
      ultimately show ?thesis using it'(4-6) Nil by simp
    next
      case (Cons e es)
      then show ?thesis using delivers_cell [of it' 0 d1 e es] it' q l by (simp add: ok1(3,4))
    qed
  qed
qed

text \<open>The call after a delivery, on the table as it was or without the delivered entry.\<close>

lemma next_again:
  assumes ok: "dict_ok ty d" "small d" and it: "at_cell it (Suc p) d" "begun it" "it_entry it \<noteq> None" "it_nextEntry it = first_key post"
    and p: "p < length (cells d)" "cells d ! p = pre @ post"
  shows "delivers d (it_safe it) (it_fingerprint it) (post @ concat (drop (Suc p) (cells d))) (next_loop a it d)"
proof -
  obtain k where k: "it_entry it = Some k" using it(3) by blast
  show ?thesis
  proof (cases post)
    case Nil
    have "next_loop a it d = next_loop a (it\<lparr>it_entry := None\<rparr>) d"
      using it(4) k Nil by (subst next_loop.simps) (simp add: first_key_def)
    moreover have "delivers d (it_safe (it\<lparr>it_entry := None\<rparr>)) (it_fingerprint (it\<lparr>it_entry := None\<rparr>))
        (concat (drop (Suc p) (cells d))) (next_loop a (it\<lparr>it_entry := None\<rparr>) d)"
      by (rule next_begun [OF ok]) (use it p in \<open>simp_all add: at_cell_def begun_def\<close>)
    ultimately show ?thesis using Nil by simp
  next
    case (Cons e es)
    have "entry_next d (fst e) = Some (first_key es)"
      using entry_next_at [OF ok(1) p(1), of pre "fst e" "snd e" es] p(2) Cons by simp
    then have n: "next_loop a it d = Some (Some (fst e), it\<lparr>it_entry := Some (fst e), it_nextEntry := first_key es\<rparr>, d)"
      using it(4) k Cons by (subst next_loop.simps) (simp add: first_key_def)
    show ?thesis unfolding delivers_def Cons append_Cons list.case n
      by (intro exI [of _ "it\<lparr>it_entry := Some (fst e), it_nextEntry := first_key es\<rparr>"] exI [of _ p] exI [of _ pre] exI [of _ es])
        (use it p Cons in \<open>simp add: at_cell_def begun_def\<close>)
  qed
qed

lemma delete_small: "small d \<Longrightarrow> ht_size (d_ht0 d') = ht_size (d_ht0 d) \<Longrightarrow> ht_size (d_ht1 d') = ht_size (d_ht1 d) \<Longrightarrow> small d'"
  by (simp add: small_def)

end

subsection \<open>A loop over an iterator\<close>

text \<open>
  A user's loop: it calls dictNext at most \<open>n\<close> times, and deletes the entries that satisfy \<open>P\<close> as they are
  delivered. The result is the list of the delivered entries.
\<close>

definition entry_at :: "('k, 'v) dict \<Rightarrow> 'k \<Rightarrow> ('k \<times> 'v) option" where
  "entry_at d k = find (\<lambda>e. fst e = k) (dict_list d)"

fun iter_loop :: "nat \<Rightarrow> u64 \<times> u64 \<Rightarrow> 'k dictType \<Rightarrow> ('k \<times> 'v \<Rightarrow> bool) \<Rightarrow> 'k dictIterator \<Rightarrow> ('k, 'v) dict \<Rightarrow>
    (('k \<times> 'v) list \<times> 'k dictIterator \<times> ('k, 'v) dict) option" where
  "iter_loop 0 a ty P it d = None"
| "iter_loop (Suc n) a ty P it d =
     (case dictNext a it d of
        None \<Rightarrow> None
      | Some (None, it', d') \<Rightarrow> Some ([], it', d')
      | Some (Some k, it', d') \<Rightarrow>
          (case entry_at d' k of
             None \<Rightarrow> None
           | Some e \<Rightarrow>
          (case (if P e then map_option snd (dictDelete ty d' k) else Some d') of
             None \<Rightarrow> None
           | Some d2 \<Rightarrow> map_option (\<lambda>r. (e # fst r, snd r)) (iter_loop n a ty P it' d2))))"

context dict_type
begin

lemma entry_at_cell:
  assumes "dict_ok ty d" "p < length (cells d)" "cells d ! p = pre @ e # post"
  shows "entry_at d (fst e) = Some e"
proof -
  have "e \<in> set (concat (cells d))" using assms(2,3) by (metis UN_I in_set_conv_decomp nth_mem set_concat)
  then have e: "e \<in> set (dict_list d)" by (simp add: concat_cells)
  have "distinct (map fst (dict_list d))" using uniq_distinct [of "dict_list d"] assms(1) by (simp add: dict_ok_def)
  then have "\<And>es. e \<in> set es \<Longrightarrow> distinct (map fst es) \<Longrightarrow> find (\<lambda>f. fst f = fst e) es = Some e"
  proof -
    fix es
    show "e \<in> set es \<Longrightarrow> distinct (map fst es) \<Longrightarrow> find (\<lambda>f. fst f = fst e) es = Some e"
      by (induction es) (auto simp: rev_image_eqI)
  qed
  then show ?thesis using e \<open>distinct (map fst (dict_list d))\<close> by (simp add: entry_at_def)
qed

text \<open>The state of the loop: the call of dictNext, on whatever it is, delivers \<open>rest\<close>.\<close>

lemma iter_rest:
  assumes safe: "safe \<or> (\<forall>e. \<not> P e)"
  shows "dict_ok ty d1 \<Longrightarrow> small d1 \<Longrightarrow> (safe \<Longrightarrow> d_iterators d1 \<noteq> 0) \<Longrightarrow> delivers d1 safe f rest (dictNext a it d) \<Longrightarrow>
    length rest < n \<Longrightarrow> dict_list d1 = done @ rest \<Longrightarrow>
    \<exists>it' d'. iter_loop n a ty P it d = Some (rest, it', d') \<and> begun it' \<and> it_safe it' = safe \<and> it_fingerprint it' = f \<and>
      dict_ok ty d' \<and> dict_list d' = done @ filter (\<lambda>e. \<not> P e) rest \<and> d_iterators d' = d_iterators d1 \<and> ((\<forall>e. \<not> P e) \<longrightarrow> d' = d1)"
proof (induction rest arbitrary: n it d d1 "done")
  case Nil
  then obtain m where "n = Suc m" by (cases n) auto
  then show ?case using Nil by (auto simp: delivers_def)
next
  case (Cons e rest)
  obtain m where n: "n = Suc m" "length rest < m" using Cons.prems(5) by (cases n) auto
  obtain it' p pre post where r: "dictNext a it d = Some (Some (fst e), it', d1)" "begun it'" "it_safe it' = safe" "it_fingerprint it' = f"
    "at_cell it' (Suc p) d1" "p < length (cells d1)" "cells d1 ! p = pre @ e # post" "it_entry it' \<noteq> None"
    "it_nextEntry it' = first_key post" "rest = post @ concat (drop (Suc p) (cells d1))"
    using Cons.prems(4) unfolding delivers_def list.case by blast
  note en = entry_at_cell [OF Cons.prems(1) r(6,7)]
  have all: "dict_list d1 = concat (take p (cells d1)) @ pre @ e # rest"
    using concat_split [OF r(6)] r(7,10) by (simp add: concat_cells)
  then have dn: "done = concat (take p (cells d1)) @ pre"
    using Cons.prems(6) by (metis append.assoc append_same_eq)
  show ?case
  proof (cases "P e")
    case True
    then have s: safe using safe by blast
    obtain d2 where d2: "dictDelete ty d1 (fst e) = Some (True, d2)" "dict_ok ty d2" "cells d2 = (cells d1)[p := pre @ post]"
      "d_iterators d2 = d_iterators d1" "dictIsRehashing d2 = dictIsRehashing d1" "ht_size (d_ht0 d2) = ht_size (d_ht0 d1)"
      "ht_size (d_ht1 d2) = ht_size (d_ht1 d1)" "length (ht_chains (d_ht0 d2)) = length (ht_chains (d_ht0 d1))"
      using delete_cell [OF Cons.prems(1) r(6,7)] Cons.prems(3) s by blast
    have sm: "small d2" by (rule delete_small [OF Cons.prems(2) d2(6,7)])
    have at2: "at_cell it' (Suc p) d2" using r(5) d2(5,8) by (simp add: at_cell_def)
    have c2: "p < length (cells d2)" "cells d2 ! p = pre @ post" "drop (Suc p) (cells d2) = drop (Suc p) (cells d1)"
      using d2(3) r(6) by simp_all
    have "delivers d2 safe f rest (dictNext a it' d2)"
      using next_again [OF d2(2) sm at2 r(2,8,9) c2(1,2), of a] r(3,4,10) by (simp add: c2(3) dictNext_def)
    moreover have "dict_list d2 = done @ rest"
      unfolding concat_cells [symmetric] d2(3) using r(6,10) dn by (simp add: concat_split [of p] take_update_cancel)
    ultimately show ?thesis using Cons.IH [OF d2(2) sm _ _ n(2)] Cons.prems(3) True s
      by (fastforce simp: n(1) r(1) en d2(1,4))
  next
    case False
    have "delivers d1 safe f rest (dictNext a it' d1)"
      using next_again [OF Cons.prems(1,2) r(5,2,8,9,6), of "pre @ [e]" a] r(3,4,7,10) by (simp add: dictNext_def)
    from Cons.IH [OF Cons.prems(1-3) this n(2), of "done @ [e]"] Cons.prems(6)
    show ?thesis using False by (fastforce simp: n(1) r(1) en)
  qed
qed

end

subsection \<open>Moving for a while\<close>

text \<open>
  dictRehashMilliseconds moves a hundred buckets at a time until the time is over or nothing is left;
  \<open>clock i\<close> is the \<open>i\<close>-th reading of the clock. The result is the count of buckets in hundreds, as the code counts.
\<close>

partial_function (option) rehash_ms :: "'k dictType \<Rightarrow> (nat \<Rightarrow> int) \<Rightarrow> int \<Rightarrow> nat \<Rightarrow> int \<Rightarrow> ('k, 'v) dict \<Rightarrow> (int \<times> ('k, 'v) dict) option" where
  "rehash_ms ty clock ms i rehashes d =
     (case dictRehash ty d 100 of
        None \<Rightarrow> None
      | Some (left, d') \<Rightarrow>
          if \<not> left then Some (rehashes, d')
          else if clock i - clock 0 > ms then Some (rehashes + 100, d') else rehash_ms ty clock ms (Suc i) (rehashes + 100) d')"

definition dictRehashMilliseconds :: "'k dictType \<Rightarrow> (nat \<Rightarrow> int) \<Rightarrow> ('k, 'v) dict \<Rightarrow> int \<Rightarrow> (int \<times> ('k, 'v) dict) option" where
  "dictRehashMilliseconds ty clock d ms = rehash_ms ty clock ms 1 0 d"

context dict_type
begin

lemma dictRehash_keeps:
  assumes "dict_ok ty d"
  shows "\<exists>b d'. dictRehash ty d n = Some (b, d') \<and> dict_ok ty d' \<and> mset (dict_list d') = mset (dict_list d)"
  using rehash_loop_ok [OF assms, of n] assms by (cases "dictIsRehashing d") (auto simp: dictRehash_def)

text \<open>It returns when the clock has gone on, and changes nothing a user can see.\<close>

lemma rehash_ms_ok:
  "dict_ok ty d \<Longrightarrow> i \<le> j \<Longrightarrow> clock j - clock 0 > ms \<Longrightarrow>
    \<exists>n d'. rehash_ms ty clock ms i m d = Some (n, d') \<and> dict_ok ty d' \<and> mset (dict_list d') = mset (dict_list d)"
proof (induction "j - i" arbitrary: i m d)
  case 0
  obtain b d' where r: "dictRehash ty d 100 = Some (b, d')" "dict_ok ty d'" "mset (dict_list d') = mset (dict_list d)"
    using dictRehash_keeps [OF 0(2), of 100] by blast
  have "i = j" using 0 by simp
  then show ?case using r 0(4) by (subst rehash_ms.simps) (cases b; simp)
next
  case (Suc k)
  obtain b d' where r: "dictRehash ty d 100 = Some (b, d')" "dict_ok ty d'" "mset (dict_list d') = mset (dict_list d)"
    using dictRehash_keeps [OF Suc.prems(1), of 100] by blast
  have "\<exists>n d''. rehash_ms ty clock ms (Suc i) (m + 100) d' = Some (n, d'') \<and> dict_ok ty d'' \<and> mset (dict_list d'') = mset (dict_list d')"
    using Suc.hyps(1) [OF _ r(2), of "Suc i" "m + 100"] Suc.hyps(2) Suc.prems(3) by simp
  then show ?case using r by (subst rehash_ms.simps) (cases b; auto)
qed

lemma rehash_milliseconds:
  assumes "dict_ok ty d" "0 < j" "clock j - clock 0 > ms"
  shows "\<exists>n d'. dictRehashMilliseconds ty clock d ms = Some (n, d') \<and> dict_ok ty d' \<and> dictSize d' = dictSize d"
proof -
  obtain n d' where r: "rehash_ms ty clock ms 1 0 d = Some (n, d')" "dict_ok ty d'" "mset (dict_list d') = mset (dict_list d)"
    using rehash_ms_ok [OF assms(1) _ assms(3), of 1 0] assms(2) by auto
  then show ?thesis using dictSize_bag [OF assms(1) r(2,3)] by (simp add: dictRehashMilliseconds_def)
qed

end

subsection \<open>Random entries\<close>

context dict_type
begin

lemma bucket_total:
  fixes d :: "('k, 'v) dict"
  assumes "dict_ok ty d" "ht_table (d_ht0 d) = Some t"
  shows "\<exists>c. bucket d x = Some c \<and> set c \<subseteq> set (dict_list d)"
proof -
  have o: "ht_ok ty (d_ht0 d)" using assms(1) by (simp add: dict_ok_def)
  have mem: "set (cs ! i) \<subseteq> set (concat cs)" if "i < length cs" for cs :: "('k \<times> 'v) list list" and i
    using nth_mem [OF that] by auto
  have size0: "ht_size (d_ht0 d) = length (ht_chains (d_ht0 d))" using chains_size [OF o] by simp
  show ?thesis
  proof (cases "dictIsRehashing d")
    case False
    have "x AND ht_sizemask (d_ht0 d) < length (ht_chains (d_ht0 d))"
      using and_mask_less [OF o assms(2), of x] assms(2) by (simp add: ht_chains_def)
    then show ?thesis using False mem by (fastforce simp: bucket_def dict_list_def Let_def)
  next
    case True
    have o1: "ht_size (d_ht1 d) = length (ht_chains (d_ht1 d))" using assms(1) chains_size [of ty "d_ht1 d"] by (simp add: dict_ok_def)
    let ?h = "x mod (ht_size (d_ht0 d) + ht_size (d_ht1 d))"
    have "ht_chains (d_ht1 d) \<noteq> []" by (rule second [OF assms(1) True])
    then have "?h < ht_size (d_ht0 d) + ht_size (d_ht1 d)" using o1 by (intro mod_less_divisor) simp
    then show ?thesis using True mem size0 o1 by (fastforce simp: bucket_def dict_list_def Let_def)
  qed
qed

lemma random_bucket_ok:
  assumes "dict_ok ty d" "ht_table (d_ht0 d) = Some t"
  shows "i \<le> j \<Longrightarrow> bucket d (r j) = Some c \<Longrightarrow> c \<noteq> [] \<Longrightarrow>
    \<exists>c' n. random_bucket r i d = Some (c', n) \<and> c' \<noteq> [] \<and> set c' \<subseteq> set (dict_list d)"
proof (induction "j - i" arbitrary: i)
  case 0
  then show ?case using bucket_total [OF assms, of "r i"] by (subst random_bucket.simps) auto
next
  case (Suc m)
  obtain b where b: "bucket d (r i) = Some b" "set b \<subseteq> set (dict_list d)" using bucket_total [OF assms] by blast
  show ?case
  proof (cases "b = []")
    case True
    have "\<exists>c' n. random_bucket r (Suc i) d = Some (c', n) \<and> c' \<noteq> [] \<and> set c' \<subseteq> set (dict_list d)"
      using Suc.hyps(1) [of "Suc i"] Suc.hyps(2) Suc.prems by simp
    then show ?thesis using b(1) True by (subst random_bucket.simps) simp
  next
    case False
    then show ?thesis using b by (subst random_bucket.simps) auto
  qed
qed

text \<open>If random() ever leads to a bucket with an entry, dictGetRandomKey returns an entry of the table.\<close>

lemma random_key:
  assumes ok: "dict_ok ty d" and some: "dictSize d \<noteq> 0" and step: "step_if_rehashing ty d = Some d'"
    and hit: "bucket d' (r j) = Some c" "c \<noteq> []"
  shows "\<exists>e. dictGetRandomKey ty r d = Some (Some e, d') \<and> e \<in> set (dict_list d')"
proof -
  have t: "ht_table (d_ht0 d) \<noteq> None"
    using ok some ht_table_None [of "d_ht0 d"] by (auto simp: dict_ok_def dictSize_def ht_ok_def split: if_splits)
  obtain t' where t': "dict_ok ty d'" "ht_table (d_ht0 d') = Some t'" using step_if_rehashing_ok [OF ok] t step by auto
  obtain c' n where r: "random_bucket r 0 d' = Some (c', n)" "c' \<noteq> []" "set c' \<subseteq> set (dict_list d')"
    using random_bucket_ok [OF t', of 0 j r] hit by auto
  have "c' ! (r n mod length c') \<in> set c'" using r(2) by simp
  then have "c' ! (r n mod length c') \<in> set (dict_list d')" using r(3) by blast
  then show ?thesis using some step r(1) by (simp add: dictGetRandomKey_def)
qed

end

subsection \<open>Overwriting a value\<close>

definition set_entry :: "'k \<Rightarrow> 'v \<Rightarrow> 'k \<times> 'v \<Rightarrow> 'k \<times> 'v" where
  "set_entry k v e = (if fst e = k then (k, v) else e)"

lemma set_entry_key [simp]: "fst (set_entry k v e) = fst e"
  by (simp add: set_entry_def)

lemma ht_chains_set: "ht_chains (ht_set k v ht) = map (map (set_entry k v)) (ht_chains ht)"
  by (auto simp: ht_chains_def ht_set_def set_entry_def fun_eq_iff split: option.split)

lemma set_entry_list: "dict_list (dictSetVal d k v) = map (set_entry k v) (dict_list d)"
  by (simp add: dict_list_def dictSetVal_def ht_chains_set map_concat)

context dict_type
begin

lemma ht_ok_set: "ht_ok ty ht \<Longrightarrow> ht_ok ty (ht_set k v ht)"
proof -
  assume ok: "ht_ok ty ht"
  show ?thesis
  proof (cases "ht_table ht")
    case None
    then show ?thesis using ok by (simp add: ht_ok_def ht_set_def)
  next
    case (Some t)
    have "length (concat (map (map (set_entry k v)) t)) = length (concat t)" by (simp flip: map_concat)
    moreover have "dictHashKey ty (fst f) AND ht_sizemask ht = i" if "i < length t" "f \<in> set (map (set_entry k v) (t ! i))" for i f
      using that ht_okD(5) [OF ok Some that(1)] by auto
    moreover have "(\<lambda>e. if fst e = k then (k, v) else e) = set_entry k v" by (simp add: set_entry_def fun_eq_iff)
    ultimately show ?thesis using ht_okD(2,3,4,6) [OF ok Some] Some by (simp add: ht_ok_def ht_set_def)
  qed
qed

lemma uniq_set: "uniq ty (mset es) \<Longrightarrow> uniq ty (mset (map (set_entry k v) es))"
proof -
  assume u: "uniq ty (mset es)"
  have "size (filter_mset (\<lambda>f. keyCompare ty (fst e) (fst f)) (mset (map (set_entry k v) es))) =
      size (filter_mset (\<lambda>f. keyCompare ty (fst e) (fst f)) (mset es))" for e
    by (simp add: filter_map comp_def flip: mset_filter mset_map)
  moreover have "\<exists>e'\<in>set es. fst e' = fst e" if "e \<in> set (map (set_entry k v) es)" for e
    using that by (simp add: image_iff) (metis set_entry_key)
  ultimately show ?thesis using u unfolding uniq_def by (metis set_mset_mset)
qed

lemma dict_ok_set: "dict_ok ty d \<Longrightarrow> dict_ok ty (dictSetVal d k v)"
  using ht_ok_set [of "d_ht0 d" k v] ht_ok_set [of "d_ht1 d" k v] uniq_set [of "dict_list d" k v]
  unfolding dict_ok_def set_entry_list
  by (auto simp: dictSetVal_def dictIsRehashing_def ht_chains_set) (auto simp: ht_set_def)

end

lemma chain_find_set: "chain_find ty l (map (set_entry k v) es) = map_option (set_entry k v) (chain_find ty l es)"
  by (induction es) simp_all

context dict_keys
begin

lemma replace_ok:
  assumes ok: "dict_ok ty d" and room: "dictSize d < 2 ^ 30"
  shows "\<exists>d'. dictReplace cr ty d k v = Some (dict_view ty d k = None, d') \<and> dict_ok ty d' \<and>
    dict_view ty d' = (dict_view ty d)(k \<mapsto> v)"
proof -
  obtain d1 where d1: "dictAdd cr ty d k v = Some (dict_view ty d k = None, d1)" "dict_ok ty d1"
    "dict_view ty d1 = (if dict_view ty d k = None then (dict_view ty d)(k \<mapsto> v) else dict_view ty d)"
    using add_law [OF ok room, of cr k v] by blast
  show ?thesis
  proof (cases "dict_view ty d k")
    case None
    then show ?thesis using d1 by (simp add: dictReplace_def)
  next
    case (Some w)
    then have v1: "dict_view ty d1 = dict_view ty d" using d1(3) by simp
    obtain d2 where d2: "dictFind ty d1 k = Some (chain_find ty k (dict_list d1), d2)" "dict_ok ty d2"
      "mset (dict_list d2) = mset (dict_list d1)" using dictFind_ok [OF d1(2)] by blast
    have "dict_view ty d1 k = Some w" using v1 Some by simp
    then obtain e where e: "chain_find ty k (dict_list d1) = Some e" "fst e = k" "snd e = w"
      using chain_find_SomeD [of k "dict_list d1"] by (auto simp: dict_view_def cmp_content)
    have v2: "dict_view ty d2 = dict_view ty d" using dict_view_bag [OF d1(2) d2(3)] v1 by simp
    have "dict_view ty (dictSetVal d2 k v) l = ((dict_view ty d)(k \<mapsto> v)) l" for l
    proof (cases "chain_find ty l (dict_list d2)")
      case none: None
      then have z: "dict_view ty d2 l = None" "dict_view ty (dictSetVal d2 k v) l = None"
        by (simp_all add: dict_view_def set_entry_list chain_find_set)
      moreover have "l \<noteq> k" using z(1) Some by (auto simp: v2)
      ultimately show ?thesis by (simp add: v2)
    next
      case some: (Some f)
      then have "fst f = l" using chain_find_SomeD [OF some] by (simp add: cmp_content)
      moreover from some have "dict_view ty d2 l = Some (snd f)" "dict_view ty (dictSetVal d2 k v) l = Some (snd (set_entry k v f))"
        by (simp_all add: dict_view_def set_entry_list chain_find_set)
      ultimately show ?thesis by (simp add: v2 set_entry_def)
    qed
    then have "dict_view ty (dictSetVal d2 k v) = (dict_view ty d)(k \<mapsto> v)" by (rule ext)
    then show ?thesis using d1(1) Some d2(1,2) e by (simp add: dictReplace_def dict_ok_set)
  qed
qed

end

subsection \<open>Properties\<close>

text \<open>
  C34: iterators reach every entry once. On any table, in the middle of a move or not, a safe iterator
  delivers all entries in the order of the buckets even if the entries it has just delivered are
  deleted; these, and no others, are gone afterwards, nothing freed is touched, and the release
  lets the table move again. An unsafe iterator delivers all entries of a table
  that is not changed meanwhile, and its release finds the fingerprint it has taken.
\<close>

theorem dict_iterate:
  assumes "dict_type ty" "dict_ok ty d" "small d" "0 \<le> d_iterators d"
  shows "(\<exists>it d' d''. iter_loop (Suc (dictSize d)) a ty P dictGetSafeIterator d = Some (dict_list d, it, d') \<and>
      dictReleaseIterator a it d' = Some d'' \<and> dict_ok ty d'' \<and> dict_list d'' = filter (\<lambda>e. \<not> P e) (dict_list d) \<and>
      d_iterators d'' = d_iterators d) \<and>
    (\<exists>it. iter_loop (Suc (dictSize d)) a ty (\<lambda>_. False) dictGetIterator d = Some (dict_list d, it, d) \<and>
      dictReleaseIterator a it d = Some d)"
proof (intro conjI)
  note len = dict_type.dictSize_eq [OF assms(1,2)]
  let ?d1 = "d\<lparr>d_iterators := d_iterators d + 1\<rparr>"
  have d1: "dict_ok ty ?d1" "small ?d1" "d_iterators ?d1 \<noteq> 0" "dict_list ?d1 = dict_list d"
    using assms dict_type.ok_iterators [OF assms(1,2)] by (simp_all add: small_def dict_list_def)
  have "delivers ?d1 True 0 (dict_list d) (dictNext a dictGetSafeIterator d)"
    using dict_type.next_first [OF assms(1-3), of dictGetSafeIterator ?d1 0 a] by (simp add: dictGetSafeIterator_def dictNext_def)
  from dict_type.iter_rest [OF assms(1) disjI1 [OF TrueI] d1(1,2) _ this, of "Suc (dictSize d)" "[]" P] d1 len
  obtain it' d' where r: "iter_loop (Suc (dictSize d)) a ty P dictGetSafeIterator d = Some (dict_list d, it', d')" "begun it'" "it_safe it'"
    "dict_ok ty d'" "dict_list d' = filter (\<lambda>e. \<not> P e) (dict_list d)" "d_iterators d' = d_iterators d + 1" by auto
  have "dictReleaseIterator a it' d' = Some (d'\<lparr>d_iterators := d_iterators d' - 1\<rparr>)"
    using r(2,3) by (simp add: dictReleaseIterator_def begun_def)
  moreover have "dict_ok ty (d'\<lparr>d_iterators := d_iterators d' - 1\<rparr>)" by (rule dict_type.ok_iterators [OF assms(1) r(4)])
  ultimately show "\<exists>it d' d''. iter_loop (Suc (dictSize d)) a ty P dictGetSafeIterator d = Some (dict_list d, it, d') \<and>
      dictReleaseIterator a it d' = Some d'' \<and> dict_ok ty d'' \<and> dict_list d'' = filter (\<lambda>e. \<not> P e) (dict_list d) \<and>
      d_iterators d'' = d_iterators d"
    using r(1,5,6) by (simp add: dict_list_def)
next
  note len = dict_type.dictSize_eq [OF assms(1,2)]
  have "delivers d False (dictFingerprint a d) (dict_list d) (dictNext a dictGetIterator d)"
    using dict_type.next_first [OF assms(1-3), of dictGetIterator d "dictFingerprint a d" a] by (simp add: dictGetIterator_def dictNext_def)
  from dict_type.iter_rest [OF assms(1) _ assms(2,3) _ this, of "\<lambda>_. False" "Suc (dictSize d)" "[]"] len
  obtain it' where "iter_loop (Suc (dictSize d)) a ty (\<lambda>_. False) dictGetIterator d = Some (dict_list d, it', d)" "begun it'"
    "\<not> it_safe it'" "it_fingerprint it' = dictFingerprint a d" by auto
  then show "\<exists>it. iter_loop (Suc (dictSize d)) a ty (\<lambda>_. False) dictGetIterator d = Some (dict_list d, it, d) \<and>
      dictReleaseIterator a it d = Some d"
    by (auto simp: dictReleaseIterator_def)
qed

theorem dict_iterate_witness:
  "\<exists>it d' d''. iter_loop (Suc (dictSize dict_rehashing_example)) (1, 2) \<lparr>hashFunction = dictIdentityHashFunction, keyCompare = (=)\<rparr>
      (\<lambda>e. fst e = 6) dictGetSafeIterator dict_rehashing_example = Some (dict_list dict_rehashing_example, it, d') \<and>
    dictReleaseIterator (1, 2) it d' = Some d'' \<and> dict_list d'' = filter (\<lambda>e. fst e \<noteq> 6) (dict_list dict_rehashing_example)"
proof -
  have e: "small dict_rehashing_example" "0 \<le> d_iterators dict_rehashing_example"
    by (simp_all add: small_def dict_rehashing_example_def)
  show ?thesis
    using dict_iterate [OF dict_keys.axioms(1) [OF dict_keys_int] dict_rehashing_example_ok e, where a = "(1, 2)" and P = "\<lambda>e. fst e = 6"]
    by blast
qed

text \<open>DictReplace sets the value of a key, whatever it was, and says whether the key is new.\<close>

theorem dict_replace:
  assumes "dict_keys ty" "dict_ok ty d" "dictSize d < 2 ^ 30"
  shows "\<exists>d'. dictReplace cr ty d k v = Some (dict_view ty d k = None, d') \<and> dict_ok ty d' \<and>
    dict_view ty d' = (dict_view ty d)(k \<mapsto> v)"
  by (rule dict_keys.replace_ok [OF assms])

theorem dict_replace_witness:
  "\<exists>d'. dictReplace True \<lparr>hashFunction = dictIdentityHashFunction, keyCompare = (=)\<rparr> dictCreate 7 ''a'' = Some (True, d') \<and>
    dict_view \<lparr>hashFunction = dictIdentityHashFunction, keyCompare = (=)\<rparr> d' 7 = Some ''a''"
  using dict_replace [OF dict_keys_int, of dictCreate True 7 "''a''"] by (auto simp: dict_view_empty)

end
