(* ===== verification/Zmalloc.thy ===== *)
theory Zmalloc
  imports Prelude
begin

section \<open>Counted memory (src/zmalloc.c)\<close>

text \<open>
  zmalloc.c wraps the allocator and counts the bytes in use; every block of the program and, by zlalloc, of
  the Lua interpreters comes from it. zmalloc.h selects jemalloc, of a version with
  HAVE_MALLOC_SIZE: a block has no prefix and its size is the usable size the allocator reports.

  The allocator is third-party code. Its state is the map \<open>z_live\<close> from addresses to the bytes of the live
  blocks, whose number is the usable size; which block an allocation gets is an argument of the operation, \<open>None\<close>
  for NULL, and what the code relies on is \<open>fresh_block\<close>.

  The theorems: every operation keeps the counter equal to the sum of the live blocks (modulo
  \<open>2 ^ 64\<close>); zlalloc is an allocator for Lua; and threads that count at the same time end with the exact sum
  if zmalloc_enable_thread_safeness has been called. The program never calls it, and then counts are lost.
\<close>

subsection \<open>State and counting\<close>

record zmem =
  used_memory :: u64
  zmalloc_thread_safe :: bool
  z_live :: "u64 \<Rightarrow> byte list option"

definition zmem_init :: zmem where
  "zmem_init = \<lparr>used_memory = 0, zmalloc_thread_safe = False, z_live = Map.empty\<rparr>"

text \<open>The macros add or subtract the size rounded up to a multiple of sizeof(long).\<close>

definition round_long :: "u64 \<Rightarrow> u64" where
  "round_long n = (if n AND 7 \<noteq> 0 then n + (8 - (n AND 7)) else n)"

definition update_zmalloc_stat_alloc :: "u64 \<Rightarrow> zmem \<Rightarrow> zmem" where
  "update_zmalloc_stat_alloc n Z = Z\<lparr>used_memory := used_memory Z + round_long n\<rparr>"

definition update_zmalloc_stat_free :: "u64 \<Rightarrow> zmem \<Rightarrow> zmem" where
  "update_zmalloc_stat_free n Z = Z\<lparr>used_memory := used_memory Z - round_long n\<rparr>"

definition usable :: "byte list \<Rightarrow> u64" where
  "usable b = of_nat (length b)"

subsection \<open>The operations\<close>

text \<open>
  \<open>Inl sz\<close>: the handler of missing memory was called with \<open>sz\<close>. The default one aborts and no
  other is installed. \<open>None\<close> of the outer option in zrealloc and zfree is undefined behaviour: the pointer is not a live block.
\<close>

type_synonym 'a zresult = "u64 + 'a"

definition zmalloc :: "(u64 \<times> byte list) option \<Rightarrow> u64 \<Rightarrow> zmem \<Rightarrow> (u64 \<times> zmem) zresult" where
  "zmalloc r sz Z =
     (case r of
        None \<Rightarrow> Inl sz
      | Some (p, b) \<Rightarrow> Inr (p, update_zmalloc_stat_alloc (usable b) (Z\<lparr>z_live := (z_live Z)(p \<mapsto> b)\<rparr>)))"

text \<open>calloc: the same call on a block the allocator has cleared.\<close>

definition zcalloc :: "(u64 \<times> nat) option \<Rightarrow> u64 \<Rightarrow> zmem \<Rightarrow> (u64 \<times> zmem) zresult" where
  "zcalloc r sz Z =
     (case r of
        None \<Rightarrow> Inl sz
      | Some (p, n) \<Rightarrow>
          (let b = replicate n 0
           in Inr (p, update_zmalloc_stat_alloc (usable b) (Z\<lparr>z_live := (z_live Z)(p \<mapsto> b)\<rparr>))))"

definition zfree :: "u64 \<Rightarrow> zmem \<Rightarrow> zmem option" where
  "zfree p Z =
     (if p = 0 then Some Z
      else case z_live Z p of
             None \<Rightarrow> None
           | Some b \<Rightarrow> Some ((update_zmalloc_stat_free (usable b) Z)\<lparr>z_live := (z_live Z)(p := None)\<rparr>))"

text \<open>realloc: the old block goes, the new one begins with what fits of it.\<close>

definition realloc_block :: "u64 \<Rightarrow> byte list \<Rightarrow> u64 \<Rightarrow> byte list \<Rightarrow> (u64 \<Rightarrow> byte list option) \<Rightarrow> (u64 \<Rightarrow> byte list option)" where
  "realloc_block p b q c live = (live(p := None))(q \<mapsto> take (length c) b @ drop (length b) c)"

definition zrealloc :: "(u64 \<times> byte list) option \<Rightarrow> u64 \<Rightarrow> u64 \<Rightarrow> zmem \<Rightarrow> (u64 \<times> zmem) zresult option" where
  "zrealloc r p sz Z =
     (if p = 0 then Some (zmalloc r sz Z)
      else case z_live Z p of
             None \<Rightarrow> None
           | Some b \<Rightarrow>
               (case r of
                  None \<Rightarrow> Some (Inl sz)
                | Some (q, c) \<Rightarrow>
                    (let Z1 = Z\<lparr>z_live := realloc_block p b q c (z_live Z)\<rparr>;
                         Z2 = update_zmalloc_stat_free (usable b) Z1
                     in Some (Inr (q, update_zmalloc_stat_alloc (usable c) Z2)))))"

text \<open>zstrdup: the string \<open>s\<close> without its final zero; memcpy needs the whole length in the block.\<close>

definition zstrdup :: "(u64 \<times> byte list) option \<Rightarrow> byte list \<Rightarrow> zmem \<Rightarrow> (u64 \<times> zmem) zresult option" where
  "zstrdup r s Z =
     (case zmalloc r (of_nat (length s) + 1) Z of
        Inl n \<Rightarrow> Some (Inl n)
      | Inr (p, Z1) \<Rightarrow>
          (case z_live Z1 p of
             None \<Rightarrow> None
           | Some b \<Rightarrow>
               if length b < length s + 1 then None
               else Some (Inr (p, Z1\<lparr>z_live := (z_live Z1)(p \<mapsto> (s @ [0]) @ drop (length s + 1) b)\<rparr>))))"

definition zmalloc_used_memory :: "zmem \<Rightarrow> u64" where
  "zmalloc_used_memory Z = used_memory Z"

text \<open>Neither HAVE_PROC_STAT nor HAVE_TASKINFO is defined.\<close>

definition zmalloc_get_rss :: "zmem \<Rightarrow> u64" where
  "zmalloc_get_rss Z = zmalloc_used_memory Z"

definition zmalloc_enable_thread_safeness :: "zmem \<Rightarrow> zmem" where
  "zmalloc_enable_thread_safeness Z = Z\<lparr>zmalloc_thread_safe := True\<rparr>"

text \<open>The allocator given to lua_newstate; NULL is the address 0.\<close>

definition zlalloc :: "(u64 \<times> byte list) option \<Rightarrow> u64 \<Rightarrow> u64 \<Rightarrow> u64 \<Rightarrow> zmem \<Rightarrow> (u64 \<times> zmem) zresult option" where
  "zlalloc r p osize nsize Z =
     (if nsize = 0 then map_option (\<lambda>Z'. Inr (0, Z')) (zfree p Z)
      else zrealloc r p nsize Z)"

subsection \<open>Rounding\<close>

lemma and7: "unat ((n :: u64) AND 7) = unat n mod 8"
proof -
  have "n AND 7 = n mod 8"
    using take_bit_eq_mask [of 3 n] take_bit_eq_mod [of 3 n] by (simp add: mask_eq_exp_minus_1 and.commute)
  then show ?thesis by (simp add: unat_mod)
qed

text \<open>
  Up to \<open>2 ^ 64 - 8\<close> the rounded size is the least multiple of 8 that is not below the size.
\<close>

lemma round_long_nat:
  assumes "unat n + 8 \<le> 2 ^ 64"
  shows "unat (round_long n) = (unat n + 7) div 8 * 8"
proof -
  let ?k = "unat n mod 8"
  have z: "(n AND 7 = 0) \<longleftrightarrow> ?k = 0" using and7 [of n] by (metis unat_0 unat_eq_zero)
  have k: "?k < 8" by simp
  have r: "(unat n + 7) div 8 * 8 = (if ?k = 0 then unat n else unat n + (8 - ?k))" by presburger
  have d: "unat (8 - (n AND 7)) = 8 - ?k"
    using and7 [of n] k by (subst unat_sub) (auto simp: word_le_nat_alt)
  have "unat (n + (8 - (n AND 7))) = unat n + (8 - ?k)" if "?k \<noteq> 0"
    using assms d that by (subst unat_add_lem [THEN iffD1]) auto
  then show ?thesis using z r by (simp add: round_long_def)
qed

subsection \<open>The counter is the sum of the blocks\<close>

definition zmem_ok :: "zmem \<Rightarrow> bool" where
  "zmem_ok Z \<longleftrightarrow> finite (dom (z_live Z)) \<and> z_live Z 0 = None \<and>
     used_memory Z = (\<Sum>p\<in>dom (z_live Z). round_long (usable (the (z_live Z p))))"

text \<open>What malloc answers: a block that is not in use, of at least the wanted size.\<close>

definition fresh_block :: "u64 \<Rightarrow> (u64 \<Rightarrow> byte list option) \<Rightarrow> (u64 \<times> byte list) option \<Rightarrow> bool" where
  "fresh_block sz live r = (case r of None \<Rightarrow> True | Some (p, b) \<Rightarrow> p \<noteq> 0 \<and> live p = None \<and> unat sz \<le> length b)"

lemmas zmem_defs = zmem_ok_def update_zmalloc_stat_alloc_def update_zmalloc_stat_free_def

lemma zmem_ok_init: "zmem_ok zmem_init"
  by (simp add: zmem_ok_def zmem_init_def)

text \<open>The sum over a map that gains or loses a block.\<close>

lemma live_sum_put:
  fixes f :: "byte list \<Rightarrow> u64"
  assumes "finite (dom L)" "L p = None"
  shows "(\<Sum>q\<in>dom (L(p \<mapsto> b)). f (the ((L(p \<mapsto> b)) q))) = f b + (\<Sum>q\<in>dom L. f (the (L q)))"
proof -
  have "p \<notin> dom L" using assms(2) by blast
  moreover have "(\<Sum>q\<in>dom L. f (the ((L(p \<mapsto> b)) q))) = (\<Sum>q\<in>dom L. f (the (L q)))"
    by (rule sum.cong) (use calculation in auto)
  ultimately show ?thesis using assms(1) by (simp del: fun_upd_apply) simp
qed

lemma live_sum_drop:
  fixes f :: "byte list \<Rightarrow> u64"
  assumes "finite (dom L)" "L p = Some b"
  shows "(\<Sum>q\<in>dom (L(p := None)). f (the ((L(p := None)) q))) = (\<Sum>q\<in>dom L. f (the (L q))) - f b"
proof -
  have "(L(p := None))(p \<mapsto> b) = L" using assms(2) by auto
  then show ?thesis using live_sum_put [of "L(p := None)" p f b] assms(1) by simp
qed

lemma zmem_ok_put:
  assumes "zmem_ok Z" "p \<noteq> 0" "z_live Z p = None"
  shows "zmem_ok (update_zmalloc_stat_alloc (usable b) (Z\<lparr>z_live := (z_live Z)(p \<mapsto> b)\<rparr>))"
  using assms live_sum_put [of "z_live Z" p "\<lambda>b. round_long (usable b)" b]
  by (simp add: zmem_defs del: dom_fun_upd)

lemma zmem_ok_drop:
  assumes "zmem_ok Z" "z_live Z p = Some b"
  shows "zmem_ok (update_zmalloc_stat_free (usable b) (Z\<lparr>z_live := (z_live Z)(p := None)\<rparr>))"
  using assms live_sum_drop [of "z_live Z" p b "\<lambda>b. round_long (usable b)"]
  by (simp add: zmem_defs del: dom_fun_upd)


lemma zmalloc_ok:
  assumes "zmem_ok Z" "fresh_block sz (z_live Z) r" "zmalloc r sz Z = Inr (p, Z')"
  shows "zmem_ok Z'"
  using assms zmem_ok_put [OF assms(1)]
  by (auto simp: zmalloc_def fresh_block_def split: option.splits prod.splits)

lemma zcalloc_ok:
  assumes "zmem_ok Z" "fresh_block sz (z_live Z) (map_option (\<lambda>(p, n). (p, replicate n 0)) r)" "zcalloc r sz Z = Inr (p, Z')"
  shows "zmem_ok Z'"
  using assms zmem_ok_put [OF assms(1)]
  by (auto simp: zcalloc_def fresh_block_def Let_def split: option.splits prod.splits)

lemma zfree_ok:
  assumes "zmem_ok Z" "zfree p Z = Some Z'"
  shows "zmem_ok Z'"
proof -
  have c: "(update_zmalloc_stat_free n Z)\<lparr>z_live := L\<rparr> = update_zmalloc_stat_free n (Z\<lparr>z_live := L\<rparr>)" for n L
    by (simp add: update_zmalloc_stat_free_def)
  show ?thesis
    using assms zmem_ok_drop [OF assms(1)]
    by (auto simp: zfree_def c split: if_splits option.splits)
qed

lemma usable_realloc: "usable (take (length c) b @ drop (length b) c) = usable c"
  by (simp add: usable_def min_def)

lemma zrealloc_ok:
  assumes "zmem_ok Z" "fresh_block sz ((z_live Z)(p := None)) r" "zrealloc r p sz Z = Some (Inr (q, Z'))"
  shows "zmem_ok Z'"
proof (cases "p = 0")
  case True
  have "z_live Z 0 = None" using assms(1) by (simp add: zmem_ok_def)
  then have "(z_live Z)(p := None) = z_live Z" using True by auto
  then show ?thesis using assms True zmalloc_ok [of Z sz r q Z'] by (simp add: zrealloc_def)
next
  case False
  then obtain b c where b: "z_live Z p = Some b" and r: "r = Some (q, c)"
    and Z': "Z' = update_zmalloc_stat_alloc (usable c) (update_zmalloc_stat_free (usable b) (Z\<lparr>z_live := realloc_block p b q c (z_live Z)\<rparr>))"
    using assms(3) by (auto simp: zrealloc_def Let_def split: option.splits prod.splits)
  define Z1 where "Z1 = update_zmalloc_stat_free (usable b) (Z\<lparr>z_live := (z_live Z)(p := None)\<rparr>)"
  define d where "d = take (length c) b @ drop (length b) c"
  have ok: "zmem_ok Z1" using zmem_ok_drop [OF assms(1) b] by (simp add: Z1_def)
  have "q \<noteq> 0" "z_live Z1 q = None"
    using assms(2) r by (auto simp: fresh_block_def Z1_def update_zmalloc_stat_free_def)
  from zmem_ok_put [OF ok this, of d]
  show ?thesis
    by (simp add: Z' Z1_def d_def usable_realloc realloc_block_def update_zmalloc_stat_alloc_def update_zmalloc_stat_free_def)
qed

lemma zstrdup_ok:
  assumes "zmem_ok Z" "fresh_block (of_nat (length s) + 1) (z_live Z) r" "zstrdup r s Z = Some (Inr (p, Z'))"
  shows "zmem_ok Z'"
proof -
  obtain Z1 b where m: "zmalloc r (of_nat (length s) + 1) Z = Inr (p, Z1)" and b: "z_live Z1 p = Some b"
    and l: "length s + 1 \<le> length b" and Z': "Z' = Z1\<lparr>z_live := (z_live Z1)(p \<mapsto> (s @ [0]) @ drop (length s + 1) b)\<rparr>"
    using assms(3) by (auto simp: zstrdup_def split: sum.splits prod.splits option.splits if_splits)
  define d where "d = (s @ [0]) @ drop (length s + 1) b"
  have ok: "zmem_ok Z1" by (rule zmalloc_ok [OF assms(1,2) m])
  have u: "usable d = usable b" using l by (simp add: usable_def d_def)
  have p: "p \<noteq> 0" using ok b by (auto simp: zmem_ok_def)
  have "zmem_ok (update_zmalloc_stat_alloc (usable d)
          ((update_zmalloc_stat_free (usable b) (Z1\<lparr>z_live := (z_live Z1)(p := None)\<rparr>))
            \<lparr>z_live := ((z_live Z1)(p := None))(p \<mapsto> d)\<rparr>))"
    using zmem_ok_put [OF zmem_ok_drop [OF ok b], of p d] p by (simp add: update_zmalloc_stat_free_def)
  moreover have "Z1\<lparr>z_live := L, used_memory := used_memory Z1\<rparr> = Z1\<lparr>z_live := L\<rparr>" for L
    by (cases Z1) simp
  ultimately show ?thesis
    unfolding Z' d_def [symmetric] by (simp add: u update_zmalloc_stat_alloc_def update_zmalloc_stat_free_def)
qed

text \<open>
  The states of the program: any sequence of operations, with blocks as the allocator gives them. No step calls
  zmalloc_enable_thread_safeness, as nothing under src does.
\<close>

inductive zmem_reach :: "zmem \<Rightarrow> bool" where
  zmem_reach_init: "zmem_reach zmem_init"
| zmem_reach_malloc: "\<lbrakk>zmem_reach Z; fresh_block sz (z_live Z) r; zmalloc r sz Z = Inr (p, Z')\<rbrakk> \<Longrightarrow> zmem_reach Z'"
| zmem_reach_calloc: "\<lbrakk>zmem_reach Z; fresh_block sz (z_live Z) (map_option (\<lambda>(p, n). (p, replicate n 0)) c);
    zcalloc c sz Z = Inr (p, Z')\<rbrakk> \<Longrightarrow> zmem_reach Z'"
| zmem_reach_strdup: "\<lbrakk>zmem_reach Z; fresh_block (of_nat (length s) + 1) (z_live Z) r;
    zstrdup r s Z = Some (Inr (p, Z'))\<rbrakk> \<Longrightarrow> zmem_reach Z'"
| zmem_reach_lalloc: "\<lbrakk>zmem_reach Z; fresh_block nsize ((z_live Z)(p := None)) r;
    zlalloc r p osize nsize Z = Some (Inr (q, Z'))\<rbrakk> \<Longrightarrow> zmem_reach Z'"
| zmem_reach_free: "\<lbrakk>zmem_reach Z; zfree p Z = Some Z'\<rbrakk> \<Longrightarrow> zmem_reach Z'"

lemma zlalloc_ok:
  assumes "zmem_ok Z" "fresh_block nsize ((z_live Z)(p := None)) r" "zlalloc r p osize nsize Z = Some (Inr (q, Z'))"
  shows "zmem_ok Z'"
proof (cases "nsize = 0")
  case True
  then have "zfree p Z = Some Z'" using assms(3) by (auto simp: zlalloc_def)
  then show ?thesis by (rule zfree_ok [OF assms(1)])
next
  case False
  then have "zrealloc r p nsize Z = Some (Inr (q, Z'))" using assms(3) by (simp add: zlalloc_def)
  then show ?thesis by (rule zrealloc_ok [OF assms(1,2)])
qed

lemma zmem_reach_ok: "zmem_reach Z \<Longrightarrow> zmem_ok Z"
proof (induction rule: zmem_reach.induct)
  case zmem_reach_init
  show ?case by (rule zmem_ok_init)
next
  case (zmem_reach_malloc Z sz r p Z')
  show ?case by (rule zmalloc_ok [OF zmem_reach_malloc(4,2,3)])
next
  case (zmem_reach_calloc Z sz c p Z')
  show ?case by (rule zcalloc_ok [OF zmem_reach_calloc(4,2,3)])
next
  case (zmem_reach_strdup Z s r p Z')
  show ?case by (rule zstrdup_ok [OF zmem_reach_strdup(4,2,3)])
next
  case (zmem_reach_lalloc Z nsize p r osize q Z')
  show ?case by (rule zlalloc_ok [OF zmem_reach_lalloc(4,2,3)])
next
  case (zmem_reach_free Z p Z')
  show ?case by (rule zfree_ok [OF zmem_reach_free(3,2)])
qed

lemma stat_thread_safe [simp]:
  "zmalloc_thread_safe (update_zmalloc_stat_alloc n Z) = zmalloc_thread_safe Z"
  "zmalloc_thread_safe (update_zmalloc_stat_free n Z) = zmalloc_thread_safe Z"
  by (simp_all add: update_zmalloc_stat_alloc_def update_zmalloc_stat_free_def)

lemma zmem_reach_unsafe: "zmem_reach Z \<Longrightarrow> \<not> zmalloc_thread_safe Z"
  by (induction rule: zmem_reach.induct)
    (auto simp: zmem_init_def zmalloc_def zcalloc_def zstrdup_def zlalloc_def zrealloc_def zfree_def Let_def
      split: option.splits prod.splits sum.splits if_splits)

text \<open>C26: The counter of every reachable state is the sum of the rounded sizes of the live blocks, modulo \<open>2 ^ 64\<close>:
  after any sequence of zmalloc, zcalloc, zrealloc, zstrdup, zlalloc and zfree. zmalloc_get_rss, which should report
  the resident size of the process, answers the same number in this build.\<close>

theorem zmalloc_counts:
  assumes "zmem_reach Z"
  shows "zmalloc_used_memory Z = (\<Sum>p\<in>dom (z_live Z). round_long (usable (the (z_live Z p)))) \<and>
    zmalloc_get_rss Z = zmalloc_used_memory Z"
  using zmem_reach_ok [OF assms] by (simp_all add: zmem_ok_def zmalloc_used_memory_def zmalloc_get_rss_def)

definition zmem_example :: zmem where
  "zmem_example = \<lparr>used_memory = 40, zmalloc_thread_safe = False,
     z_live = [4096 \<mapsto> replicate 13 0, 8192 \<mapsto> [1, 1, 1] @ replicate 17 2]\<rparr>"

text \<open>A block of 3 bytes, one of 13, and the first one grown to 20.\<close>

lemma zmem_example_reach: "zmem_reach zmem_example"
proof -
  let ?Z1 = "\<lparr>used_memory = 8, zmalloc_thread_safe = False, z_live = [512 \<mapsto> [1, 1, 1]]\<rparr>"
  let ?Z2 = "\<lparr>used_memory = 24, zmalloc_thread_safe = False, z_live = [512 \<mapsto> [1, 1, 1], 4096 \<mapsto> replicate 13 0]\<rparr>"
  have "zmem_reach ?Z1"
    by (rule zmem_reach_malloc [OF zmem_reach_init, of 3 "Some (512, [1, 1, 1])" 512])
      (simp_all add: fresh_block_def zmem_init_def zmalloc_def update_zmalloc_stat_alloc_def usable_def round_long_def)
  then have "zmem_reach ?Z2"
    by (rule zmem_reach_calloc [where sz = 13 and c = "Some (4096, 13)" and p = 4096])
      (simp_all add: fresh_block_def zcalloc_def update_zmalloc_stat_alloc_def usable_def round_long_def)
  then show ?thesis
    by (rule zmem_reach_lalloc [where p = 512 and nsize = 20 and osize = 3 and r = "Some (8192, replicate 20 2)" and q = 8192])
      (auto simp: zmem_example_def zlalloc_def zrealloc_def realloc_block_def fresh_block_def Let_def
        update_zmalloc_stat_alloc_def update_zmalloc_stat_free_def usable_def round_long_def)
qed

theorem zmalloc_counts_witness:
  "zmalloc_used_memory zmem_example = 40 \<and> zmalloc_get_rss zmem_example = 40 \<and>
   (\<Sum>p\<in>dom (z_live zmem_example). round_long (usable (the (z_live zmem_example p)))) = 40"
  using zmalloc_counts [OF zmem_example_reach] by (simp add: zmem_example_def zmalloc_used_memory_def)

text \<open>
  zlalloc is what the Lua manual asks of an allocator: size 0 frees and answers NULL, any other size answers a
  block that is large enough and begins with the contents of the old one, and leaves the others alone.
  It never answers NULL for lack of memory, it ends the program: Lua cannot collect garbage and try again.
\<close>

theorem zlalloc_contract:
  assumes "zmem_ok Z" "p = 0 \<or> z_live Z p = Some b" "fresh_block nsize ((z_live Z)(p := None)) r"
  shows "nsize = 0 \<Longrightarrow> \<exists>Z'. zlalloc r p osize nsize Z = Some (Inr (0, Z')) \<and> z_live Z' = (z_live Z)(p := None)"
    and "nsize \<noteq> 0 \<Longrightarrow> r = None \<Longrightarrow> zlalloc r p osize nsize Z = Some (Inl nsize)"
    and "nsize \<noteq> 0 \<Longrightarrow> r = Some (q, c) \<Longrightarrow>
      \<exists>Z' d. zlalloc r p osize nsize Z = Some (Inr (q, Z')) \<and> q \<noteq> 0 \<and>
        z_live Z' = ((z_live Z)(p := None))(q \<mapsto> d) \<and> unat nsize \<le> length d \<and>
        (p \<noteq> 0 \<longrightarrow> take (unat nsize) (take (length b) d) = take (unat nsize) b)"
proof -
  have z: "z_live Z 0 = None" using assms(1) by (simp add: zmem_ok_def)
  then have z0: "(z_live Z)(0 := None) = z_live Z" by auto
  show "nsize = 0 \<Longrightarrow> \<exists>Z'. zlalloc r p osize nsize Z = Some (Inr (0, Z')) \<and> z_live Z' = (z_live Z)(p := None)"
    using assms(2) z0 by (auto simp: zlalloc_def zfree_def)
  show "nsize \<noteq> 0 \<Longrightarrow> r = None \<Longrightarrow> zlalloc r p osize nsize Z = Some (Inl nsize)"
    using assms(2) by (auto simp: zlalloc_def zrealloc_def zmalloc_def)
  show "\<exists>Z' d. zlalloc r p osize nsize Z = Some (Inr (q, Z')) \<and> q \<noteq> 0 \<and>
        z_live Z' = ((z_live Z)(p := None))(q \<mapsto> d) \<and> unat nsize \<le> length d \<and>
        (p \<noteq> 0 \<longrightarrow> take (unat nsize) (take (length b) d) = take (unat nsize) b)"
    if "nsize \<noteq> 0" "r = Some (q, c)"
  proof -
    define d where "d = (if p = 0 then c else take (length c) b @ drop (length b) c)"
    have l: "unat nsize \<le> length c" "q \<noteq> 0" using assms(3) that(2) by (auto simp: fresh_block_def)
    then have d: "length d = length c" "p \<noteq> 0 \<longrightarrow> take (unat nsize) (take (length b) d) = take (unat nsize) b"
      by (auto simp: d_def min_def)
    have "\<exists>Z'. zlalloc r p osize nsize Z = Some (Inr (q, Z')) \<and> z_live Z' = ((z_live Z)(p := None))(q \<mapsto> d)"
      using that assms(2) z0
      by (auto simp: zlalloc_def zrealloc_def zmalloc_def Let_def realloc_block_def d_def
          update_zmalloc_stat_alloc_def update_zmalloc_stat_free_def)
    then show ?thesis using l d by metis
  qed
qed

subsection \<open>Counting by several threads\<close>

text \<open>
  The threads of the worker pool, the network and the timers all count. With the flag the update is one
  atomic instruction; without it, it is a load and a store, and \<open>cs_reg\<close> is what a thread has loaded.
  \<open>cs_todo\<close> are the updates a thread still has to make.
\<close>

datatype zcount = Alloc u64 | Free u64

fun bump :: "zcount \<Rightarrow> u64 \<Rightarrow> u64" where
  "bump (Alloc n) v = v + round_long n"
| "bump (Free n) v = v - round_long n"

record zcounting =
  cs_mem :: zmem
  cs_reg :: "nat \<Rightarrow> u64 option"
  cs_todo :: "nat \<Rightarrow> zcount list"

inductive count_step :: "zcounting \<Rightarrow> zcounting \<Rightarrow> bool" where
  count_atomic: "\<lbrakk>zmalloc_thread_safe (cs_mem s); cs_todo s t = op # ops\<rbrakk> \<Longrightarrow>
    count_step s (s\<lparr>cs_mem := (cs_mem s)\<lparr>used_memory := bump op (used_memory (cs_mem s))\<rparr>, cs_todo := (cs_todo s)(t := ops)\<rparr>)"
| count_load: "\<lbrakk>\<not> zmalloc_thread_safe (cs_mem s); cs_todo s t \<noteq> []; cs_reg s t = None\<rbrakk> \<Longrightarrow>
    count_step s (s\<lparr>cs_reg := (cs_reg s)(t \<mapsto> used_memory (cs_mem s))\<rparr>)"
| count_store: "\<lbrakk>\<not> zmalloc_thread_safe (cs_mem s); cs_todo s t = op # ops; cs_reg s t = Some v\<rbrakk> \<Longrightarrow>
    count_step s (s\<lparr>cs_mem := (cs_mem s)\<lparr>used_memory := bump op v\<rparr>, cs_reg := (cs_reg s)(t := None),
      cs_todo := (cs_todo s)(t := ops)\<rparr>)"

text \<open>What the updates of a list add up to.\<close>

definition bumps :: "zcount list \<Rightarrow> u64" where
  "bumps ops = (\<Sum>op\<leftarrow>ops. bump op 0)"

lemma bump_add: "bump op v = v + bump op 0"
  by (cases op) simp_all

lemma bumps_simps [simp]: "bumps [] = 0" "bumps (op # ops) = bump op 0 + bumps ops"
  by (simp_all add: bumps_def)

text \<open>The counter and what is to come, over the threads of \<open>T\<close>: an invariant of the atomic steps.\<close>

definition count_total :: "nat set \<Rightarrow> zcounting \<Rightarrow> u64" where
  "count_total T s = used_memory (cs_mem s) + (\<Sum>t\<in>T. bumps (cs_todo s t))"

lemma count_step_total:
  assumes "count_step s s'" "zmalloc_thread_safe (cs_mem s)" "finite T" "\<forall>t. t \<notin> T \<longrightarrow> cs_todo s t = []"
  shows "count_total T s' = count_total T s \<and> zmalloc_thread_safe (cs_mem s') \<and> (\<forall>t. t \<notin> T \<longrightarrow> cs_todo s' t = [])"
  using assms(1)
proof cases
  case (count_atomic t op ops)
  then have t: "t \<in> T" using assms(4) by force
  have "(\<Sum>u\<in>T. bumps (((cs_todo s)(t := ops)) u)) = bumps ops + (\<Sum>u\<in>T - {t}. bumps (cs_todo s u))"
    using assms(3) t by (simp add: sum.remove [of T t])
  moreover have "(\<Sum>u\<in>T. bumps (cs_todo s u)) = bump op 0 + bumps ops + (\<Sum>u\<in>T - {t}. bumps (cs_todo s u))"
    using assms(3) t count_atomic by (simp add: sum.remove [of T t])
  ultimately show ?thesis
    using count_atomic assms(2,4) t bump_add [of op "used_memory (cs_mem s)"] by (simp add: count_total_def)
qed (use assms(2) in simp_all)

lemma count_run_total:
  assumes "count_step\<^sup>*\<^sup>* s s'" "zmalloc_thread_safe (cs_mem s)" "finite T" "\<forall>t. t \<notin> T \<longrightarrow> cs_todo s t = []"
  shows "count_total T s' = count_total T s \<and> zmalloc_thread_safe (cs_mem s') \<and> (\<forall>t. t \<notin> T \<longrightarrow> cs_todo s' t = [])"
  using assms(1)
proof induction
  case base
  then show ?case using assms by simp
next
  case (step s1 s2)
  then show ?case using count_step_total [OF step.hyps(2) _ assms(3)] by metis
qed

text \<open>With the flag set, every interleaving of all updates ends with the exact sum.\<close>

theorem zmalloc_safe_counts_exactly:
  assumes "count_step\<^sup>*\<^sup>* s s'" "cs_mem s = zmalloc_enable_thread_safeness Z" "finite T"
    and "\<forall>t. t \<notin> T \<longrightarrow> cs_todo s t = []" and "\<forall>t. cs_todo s' t = []"
  shows "used_memory (cs_mem s') = used_memory Z + (\<Sum>t\<in>T. bumps (cs_todo s t))"
  using count_run_total [OF assms(1) _ assms(3,4)] assms(2,5)
  by (simp add: count_total_def zmalloc_enable_thread_safeness_def)

text \<open>
  In the states of the program the flag is not set, and of two threads that allocate at the same time
  one can lose its count: the counter ends without the block of \<open>n\<close> bytes.
\<close>

theorem zmalloc_unsafe_loses_counts:
  assumes "zmem_reach Z" "t \<noteq> u"
    and s_def: "s = \<lparr>cs_mem = Z, cs_reg = (\<lambda>_. None), cs_todo = (\<lambda>_. [])(t := [Alloc n], u := [Alloc m])\<rparr>"
  shows "\<exists>s'. count_step\<^sup>*\<^sup>* s s' \<and> (\<forall>v. cs_todo s' v = []) \<and> used_memory (cs_mem s') = used_memory Z + round_long m"
proof -
  let ?v = "used_memory Z"
  let ?s1 = "s\<lparr>cs_reg := (\<lambda>_. None)(t \<mapsto> ?v)\<rparr>"
  let ?s2 = "s\<lparr>cs_reg := (\<lambda>_. None)(t \<mapsto> ?v, u \<mapsto> ?v)\<rparr>"
  let ?s3 = "s\<lparr>cs_mem := Z\<lparr>used_memory := bump (Alloc n) ?v\<rparr>, cs_reg := ((\<lambda>_. None)(t \<mapsto> ?v, u \<mapsto> ?v))(t := None),
      cs_todo := (cs_todo s)(t := [])\<rparr>"
  let ?s4 = "s\<lparr>cs_mem := Z\<lparr>used_memory := bump (Alloc m) ?v\<rparr>, cs_reg := (((\<lambda>_. None)(t \<mapsto> ?v, u \<mapsto> ?v))(t := None))(u := None),
      cs_todo := (cs_todo s)(t := [], u := [])\<rparr>"
  have safe: "\<not> zmalloc_thread_safe Z" by (rule zmem_reach_unsafe [OF assms(1)])
  have step1: "count_step s ?s1" using count_load [of s t] safe assms(2) by (simp add: s_def)
  have step2: "count_step ?s1 ?s2" using count_load [of ?s1 u] safe assms(2) by (simp add: s_def)
  have step3: "count_step ?s2 ?s3" using count_store [of ?s2 t "Alloc n" "[]" ?v] safe assms(2) by (simp add: s_def)
  have step4: "count_step ?s3 ?s4" using count_store [of ?s3 u "Alloc m" "[]" ?v] safe assms(2) by (simp add: s_def)
  have "count_step\<^sup>*\<^sup>* s ?s4"
    using step1 step2 step3 step4 by (meson converse_rtranclp_into_rtranclp rtranclp.rtrancl_refl)
  moreover have "\<forall>v. cs_todo ?s4 v = []" by (simp add: s_def)
  moreover have "used_memory (cs_mem ?s4) = ?v + round_long m" by simp
  ultimately show ?thesis by blast
qed

end
