(* ===== verification/Spec2Isabelle.thy ===== *)
theory Spec2Isabelle
  imports Prelude CircQueue BlockQueue LockFreeQueue Mailbox EventQueue Context WorkerPool Buffer Framing Dict Ae Timer LuaSeri Socket Tcp DictScan Module NameMgr Commands NetPack LuaZ Zlua Adlist Logs DictIter Zmalloc
begin

text \<open>
  A verification development for z, an actor-model game server written in C (directory src/src, with
  the Lua libraries of src/lualib-src and the services of src/service-src).

  \<^bold>\<open>The program.\<close> A context (context.c) is an actor: an instance of a module, a callback, a mailbox of
  messages and a reference count. The manager (ctx\_mgr.c) numbers the contexts, creates them by name of
  a module (module.c opens the shared object) and looks them up; names for ids are kept by name\_mgr.c. A
  message is sent by workerPoolSend (worker\_pool.c): into the mailbox (messagequeue.c), and if the context
  was idle, the context into the run queue (contextqueue.c), from which worker threads take contexts
  to run the callback on one message each. Both queues are lock-free rings with the algorithm of
  arraylockfreequeue.c. Two more threads have an event loop (ae.c, ae\_epoll.c) of their own and get
  requests from contexts over an event queue (event\_msgqueue.c): the timer thread (timer.c) and
  the network thread (tcp.c), which owns a table of sockets (socket.c) with read and write buffers
  (buffer.c) and cuts the stream into messages (proto.c). Tables are the hash table dict.c. The log
  thread (log.c) takes lines from a blocking queue (blockqueue.c over queue.c's circqueue.c). Services are written
  in Lua: service\_zlua.c starts one, lua-z.c sends and receives for it, lua-seri.c encodes its values;
  zCommand (z.c) is its access to timers, contexts and the environment.

  \<^bold>\<open>The theories\<close>, with the files they model. A definition has the name of the C function it translates;
  the exceptions say so in a text before them.
  \<^item> Prelude: C integer types, results, byte codings, generic lemmas, and the contract \<open>fifo\<close> of a
    bounded queue, which is interpreted on every ring.
  \<^item> CircQueue (circqueue.c), BlockQueue (queue.c, blockqueue.c): the growing ring, and the monitor around it
    as a step relation \<open>bq_step\<close> of any number of threads. Shown: FIFO order, mutual exclusion,
    no lost wakeup, the invariant of the ring under growth.
  \<^item> LockFreeQueue (arraylockfreequeue.c), Mailbox (messagequeue.c, contextqueue.c): bodies as sequential
    functions, and \<open>lfq_step\<close>, one step per access of shared memory. Shown: any interleaving is a queue
    in runs of fewer than 2^32 - 1 pushes, in which the write counter does not wrap,
    and the two copies of the algorithm are the same ring under an embedding.
  \<^item> EventQueue (event\_msgqueue.c): both builds of the file as step relations, the socket pair as a count of
    bytes. Shown: no lost wakeup with the lock, a lost wakeup without.
  \<^item> Context (context.c, ctx\_mgr.c): contexts on a heap of addresses, ids, growth and lookup of the table, life
    by reference counts.
  \<^item> WorkerPool (worker\_pool.c): workers, senders and their callbacks as a step relation \<open>wp_act\<close>, with the
    counts of references held. Shown: a context runs on one worker at a time and gets its messages
    in order, references are exact as long as they are acquired while held, no wakeup is lost; and the
    schedules in which a message is stranded and a freed context is used.
  \<^item> Buffer (buffer.c), Framing (proto.c, protocol.c): a block with two indices, and the loop that takes
    messages off the stream. Shown: whatever the stream is cut into, the same messages come out; each branch of
    the length check.
  \<^item> Dict, DictScan, DictIter (dict.c, dict.h): two tables of chains, one bucket moved per operation; the cursor
    with reversed bits. Shown: the operations are those of a finite map (locale \<open>kv_store\<close>, by the sublocale
    \<open>dict_keys\<close>, with interpretations on the tables of names and timers); moving changes no lookup; a scan
    reaches every key that stays in the table although the table grows between the calls; an iterator
    delivers each entry once, also while the delivered entries are deleted.
  \<^item> Adlist (adlist.c): doubly linked lists on a heap of nodes. Shown: operations refine those on
    the list of values, iteration in both directions, also while the delivered node is deleted, copies
    that share nothing, and release without a leak.
  \<^item> Ae (ae.c, ae\_epoll.c), Timer (timer.c): file events against the epoll set, time events, the dispatch;
    timer requests, their table and the procedure that sends. Shown: masks and epoll agree and calls go to registered
    procedures only, time events run when due, a timer runs once and can be cancelled.
  \<^item> Socket (socket.c), Tcp (tcp.c): every callback and operation on a socket with each outcome of the system
    calls; the requests and their handlers as \<open>tcp_step\<close>. Shown: the table, the event loop and the
    requests stay consistent, registered events always belong to live sockets, and the stream of a
    connection is what was sent, in order.
  \<^item> LuaSeri (lua-seri.c), NetPack (net\_pack and net\_unpack of lua-z.c): encoders and decoders.
    Shown: round trips, ends and errors of the decoder on any input, composition with the framing.
  \<^item> Module (module.c), NameMgr (name\_mgr.c), Commands (z.c): search path, table of modules, names, commands.
  \<^item> LuaZ (lua-z.c), Zlua (service\_zlua.c): sending and receiving of a Lua service over all of the
    above, and the start of one.
  \<^item> Logs (log.c, service-src/service\_logger.c): the queue of lines, the log thread, rotation, and the module
    for the logs of services. Shown: all queued lines are written before the thread ends, none lost by rotation as long as
    the rotated files have different names; what a failing rename or fopen does.
  \<^item> Zmalloc (zmalloc.c): the allocator with its counter of bytes, in the build with jemalloc. Shown: the counter is the
    sum of the live blocks, zlalloc is an allocator for Lua, and, because the flag for threads is never
    set, concurrent counts can be lost.

  \<^bold>\<open>Conventions.\<close> A C struct is a record; a heap that several parties point into is a map from addresses,
  and an access through a dangling or NULL pointer, outside an array or past a failed assert is \<open>None\<close>. Results
  such as -1 are values. A call that is made under a lock is one step; where threads interleave there
  is an inductive step relation with one step per access. Widths are kept: \<open>u8\<close>, \<open>u32\<close>, \<open>u64\<close> are
  words, and int where the C type is signed and the theorem names its range.

  \<^bold>\<open>Bounds and fuel.\<close> The loop of headMessageCallback is run for one round more than there are readable bytes
  (each round takes at least a header of 4); \<open>scan_time_events\<close> runs as often as the list has events, and the
  case of a clock that goes back is shown apart; the decoder of lua-seri gets 2 n + 1 rounds for n bytes,
  each value taking at least one byte; the loop over the table of sockets runs once over it (\<open>ids_left\<close> is the
  hypothesis that the counter of ids does not pass 2^31). dup and search of lists, and the scan of the expansions of a
  bucket, are partial functions that are shown to return.

  \<^bold>\<open>Parameters.\<close> dlopen and dlsym, the functions of a module, the environment, results of system calls
  (epoll, accept, read, write, connect, clocks), the Lua loader and the conversion of Lua values, hash
  functions and methods of tables and lists are arguments of the definitions; hypotheses
  on them are premises of the theorems and hold in their witnesses.

  \<^bold>\<open>Not modelled.\<close>
  \<^item> main.c, daemon.c, thread.c, eventloop.c, anet.c: start and finish of the process, threads and system calls;
    they hold no state of their own beyond a pointer.
  \<^item> env.c keeps its state in a Lua interpreter; its answers are the parameter \<open>env\<close> of Commands.
  \<^item> session.c, gen\_tcp.c, tcp\_client.c, tcp\_server.c: an older copy of socket.c and tcp.c that main.c never
    initialises (genTcpInit has no caller); the framing of protocol.c is in Framing.
  \<^item> globalqueue.c: created, never pushed to; it forwards to the blocking queue.
  \<^item> lua-dir.c, lua-zmysql.c, the rest of lua-z.c: the Lua stack interface of system and library calls.
  \<^item> worker.c, ae\_evport.c, ae\_kqueue.c, ae\_select.c: not in the build of the Makefile on Linux.
  \<^item> 3rd: Lua, protobuf, jemalloc (its answers are arguments in Zmalloc), the MySQL connector and pbc are third-party code.
\<close>

end
